(* ===== verification/Microfmt_Prelude.thy ===== *)
theory Microfmt_Prelude
  imports Main "HOL-Library.Word"
begin

text \<open>
  Shared vocabulary of the development: bytes and characters, raw memory stores with an explicit
  out-of-bounds outcome, and the list and word facts that several components use. A C++ object of
  type \<^verbatim>\<open>char[]\<close> is a \<^typ>\<open>string\<close> of fixed length, a \<^verbatim>\<open>string_view\<close> is a \<^typ>\<open>string\<close>, a
  \<^verbatim>\<open>size_t\<close> that measures or indexes an object in memory is a \<^typ>\<open>nat\<close>, and the fixed width
  integers are words. \<^const>\<open>None\<close> is the outcome of a store outside the object.
\<close>

named_theorems mem_simps "facts on raw memory stores"
named_theorems sink_simps "equations of the sink write callbacks"

section \<open>Types\<close>

type_synonym u8 = "8 word"
type_synonym u16 = "16 word"
type_synonym u32 = "32 word"
type_synonym u64 = "64 word"

text \<open>The calls \<^verbatim>\<open>out.write(sv)\<close> and \<^verbatim>\<open>out.put(ch)\<close> that one formatter makes, in order: a sink
  callback returns nothing, so a formatter's behaviour is this list of chunks.\<close>

type_synonym chunks = "string list"

abbreviation code :: "char \<Rightarrow> nat" where
  "code c \<equiv> of_char c"

abbreviation chr :: "nat \<Rightarrow> char" where
  "chr n \<equiv> char_of n"

abbreviation put :: "char \<Rightarrow> chunks" where
  "put c \<equiv> [[c]]"

abbreviation out_write :: "string \<Rightarrow> chunks" where
  "out_write s \<equiv> [s]"

section \<open>Characters\<close>

definition is_dec_digit :: "char \<Rightarrow> bool" where
  "is_dec_digit c \<longleftrightarrow> 48 \<le> code c \<and> code c \<le> 57"

lemma is_dec_digit_literals [simp]:
  "is_dec_digit (CHR ''0'')" "is_dec_digit (CHR ''1'')" "is_dec_digit (CHR ''2'')"
  "is_dec_digit (CHR ''3'')" "is_dec_digit (CHR ''4'')" "is_dec_digit (CHR ''5'')"
  "is_dec_digit (CHR ''6'')" "is_dec_digit (CHR ''7'')" "is_dec_digit (CHR ''8'')"
  "is_dec_digit (CHR ''9'')"
  by (simp_all add: is_dec_digit_def)

lemma code_chr [simp]: "n < 256 \<Longrightarrow> code (chr n) = n"
  by simp

section \<open>Sequencing of emitters\<close>

text \<open>An emitter yields its write calls, or \<^const>\<open>None\<close> when a store of its own leaves a buffer. Two
  emitters in sequence, and one emitter per element of a list.\<close>

definition seq_chunks :: "chunks option \<Rightarrow> chunks option \<Rightarrow> chunks option" where
  "seq_chunks a b = Option.bind a (\<lambda>x. map_option (\<lambda>y. x @ y) b)"

fun emit_each :: "('a \<Rightarrow> chunks option) \<Rightarrow> 'a list \<Rightarrow> chunks option" where
  "emit_each f [] = Some []"
| "emit_each f (x # xs) = seq_chunks (f x) (emit_each f xs)"

definition text_of :: "chunks option \<Rightarrow> string option" where
  "text_of a = map_option concat a"

lemma seq_chunks_Some [simp]: "seq_chunks (Some a) (Some b) = Some (a @ b)"
  by (simp add: seq_chunks_def)

lemma seq_chunks_eq_Some:
  "seq_chunks a b = Some c \<longleftrightarrow> (\<exists>x y. a = Some x \<and> b = Some y \<and> c = x @ y)"
  by (auto simp: seq_chunks_def bind_eq_Some_conv)

lemma seq_chunks_None [simp]: "seq_chunks None b = None" "seq_chunks a None = None"
  by (cases a) (simp_all add: seq_chunks_def)

lemma seq_chunks_assoc: "seq_chunks (seq_chunks a b) c = seq_chunks a (seq_chunks b c)"
  by (cases a; cases b; cases c) simp_all

lemma seq_chunks_nil [simp]: "seq_chunks (Some []) b = b" "seq_chunks b (Some []) = b"
  by (cases b; simp)+

lemma emit_each_append: "emit_each f (xs @ ys) = seq_chunks (emit_each f xs) (emit_each f ys)"
  by (induction xs) (simp_all add: seq_chunks_assoc)

lemma emit_each_total: "(\<And>x. x \<in> set xs \<Longrightarrow> \<exists>c. f x = Some c) \<Longrightarrow> \<exists>c. emit_each f xs = Some c"
proof (induction xs)
  case (Cons x xs)
  obtain a where "f x = Some a" using Cons.prems by fastforce
  moreover obtain b where "emit_each f xs = Some b" using Cons by fastforce
  ultimately show ?case by simp
qed simp

section \<open>Raw memory\<close>

text \<open>\<^verbatim>\<open>std::copy_n(src, n, data + pos)\<close> with \<open>src\<close> the bytes that are copied, and a store of
  one byte. Both need the whole target range to lie inside the object.\<close>

definition copy_n_to :: "string \<Rightarrow> nat \<Rightarrow> string \<Rightarrow> string option" where
  "copy_n_to mem pos src =
     (if pos + length src \<le> length mem
      then Some (take pos mem @ src @ drop (pos + length src) mem) else None)"

definition store_at :: "string \<Rightarrow> nat \<Rightarrow> char \<Rightarrow> string option" where
  "store_at mem i c = (if i < length mem then Some (mem[i := c]) else None)"

lemma copy_n_to_Some [mem_simps]:
  "pos + length src \<le> length mem \<Longrightarrow>
   copy_n_to mem pos src = Some (take pos mem @ src @ drop (pos + length src) mem)"
  by (simp add: copy_n_to_def)

lemma store_at_Some [mem_simps]: "i < length mem \<Longrightarrow> store_at mem i c = Some (mem[i := c])"
  by (simp add: store_at_def)

lemma copy_n_to_length: "copy_n_to mem pos src = Some mem' \<Longrightarrow> length mem' = length mem"
  by (auto simp: copy_n_to_def split: if_splits)

lemma store_at_length: "store_at mem i c = Some mem' \<Longrightarrow> length mem' = length mem"
  by (auto simp: store_at_def split: if_splits)

lemma copy_n_to_take:
  "copy_n_to mem pos src = Some mem' \<Longrightarrow> take (pos + length src) mem' = take pos mem @ src"
  by (auto simp: copy_n_to_def split: if_splits)

section \<open>Words\<close>

text \<open>A right shift of a non-zero word makes it smaller: the measure of every digit loop.\<close>

lemma unat_drop_bit_div: "unat (drop_bit n v) = unat v div 2 ^ n"
  for v :: "'a::len word"
  by (rule trans [OF unat_drop_bit_eq drop_bit_eq_div])

lemma unat_drop_bit_less:
  fixes v :: "'a::len word"
  assumes "v \<noteq> 0" and "0 < n"
  shows "unat (drop_bit n v) < unat v"
proof -
  have "0 < unat v" using assms(1) by (simp add: unat_gt_0)
  moreover have "1 < (2::nat) ^ n" by (rule one_less_power) (simp_all add: assms(2))
  ultimately show ?thesis by (simp only: unat_drop_bit_div) (rule div_less_dividend)
qed

section \<open>Packing bits\<close>

lemma find_append: "find P (xs @ ys) = (case find P xs of None \<Rightarrow> find P ys | Some x \<Rightarrow> Some x)"
  by (induction xs) auto

lemma or_push_bit_add:
  fixes v n :: "'w::len word"
  assumes "unat n < 2 ^ k"
  shows "or (push_bit k v) n = v * 2 ^ k + n"
proof -
  have n: "take_bit k n = n"
    using assms by (simp add: word_eq_iff_unsigned [where 'a = nat] unsigned_take_bit_eq take_bit_nat_eq_self)
  have "and (push_bit k v) (take_bit k n) = 0"
    by (rule bit_eqI) (auto simp: bit_and_iff bit_push_bit_iff bit_take_bit_iff)
  then have "push_bit k v + n = or (push_bit k v) n" unfolding n by (rule disjunctive_add_eq_or)
  then show ?thesis by (simp add: push_bit_eq_mult)
qed

end
