(* ===== verification/Int_Format.thy ===== *)
theory Int_Format
  imports Microfmt_Prelude
begin

text \<open>
  Integer formatting of \<^verbatim>\<open>microfmt.hpp\<close>: the two-digit lookup table, the backward digit writers,
  \<^verbatim>\<open>format_integer_core\<close>, \<^verbatim>\<open>format_binary\<close>, \<^verbatim>\<open>format_signed\<close>, and the \<^verbatim>\<open>formatter<T>\<close> for integers
  (\<^verbatim>\<open>int_formatter_specs\<close>: parsing of the spec and \<^verbatim>\<open>format_int_impl\<close>). A stack buffer that is filled
  from its end is the list of the bytes from the write position to the end; a store below the start
  of the buffer is \<^const>\<open>None\<close>. The reference is \<open>radix_string\<close>, the digits of a number in a base.
\<close>

unbundle bit_operations_syntax

section \<open>Lookup tables\<close>

definition digits_lut :: string where
  "digits_lut = concat (map (\<lambda>i. [chr (48 + i div 10), chr (48 + i mod 10)]) [0..<100])"

definition hex_digits_lower :: string where
  "hex_digits_lower = ''0123456789abcdef''"

definition hex_digits_upper :: string where
  "hex_digits_upper = ''0123456789ABCDEF''"

section \<open>Backward buffers\<close>

definition buf_push :: "nat \<Rightarrow> char \<Rightarrow> string \<Rightarrow> string option" where
  "buf_push cap c acc = (if length acc < cap then Some (c # acc) else None)"

definition buf_push2 :: "nat \<Rightarrow> char \<Rightarrow> char \<Rightarrow> string \<Rightarrow> string option" where
  "buf_push2 cap a b acc = (if length acc + 2 \<le> cap then Some (a # b # acc) else None)"

function dec_pairs :: "nat \<Rightarrow> u64 \<Rightarrow> string \<Rightarrow> (u64 \<times> string) option" where
  "dec_pairs cap val acc =
     (if 100 \<le> val
      then (let rem = val mod 100
            in case buf_push2 cap (digits_lut ! unat (rem * 2)) (digits_lut ! unat (rem * 2 + 1)) acc of
                 None \<Rightarrow> None
               | Some acc' \<Rightarrow> dec_pairs cap (val div 100) acc')
      else Some (val, acc))"
  by pat_completeness auto
termination
proof (relation "measure (\<lambda>(cap, val, acc). unat val)", goal_cases)
  case (2 cap val acc x x2)
  have "0 < unat val" using 2(1) by (simp add: word_le_nat_alt)
  then show ?case by (simp add: unat_div)
qed simp

declare dec_pairs.simps [simp del]

definition format_dec_backward :: "nat \<Rightarrow> u64 \<Rightarrow> string \<Rightarrow> string option" where
  "format_dec_backward cap val acc =
     (case dec_pairs cap val acc of
        None \<Rightarrow> None
      | Some (v, acc') \<Rightarrow>
          (if v < 10 then buf_push cap (chr (48 + unat v)) acc'
           else buf_push2 cap (digits_lut ! unat (v * 2)) (digits_lut ! unat (v * 2 + 1)) acc'))"

function hex_nibbles :: "nat \<Rightarrow> string \<Rightarrow> u64 \<Rightarrow> string \<Rightarrow> string option" where
  "hex_nibbles cap lut val acc =
     (if val > 0
      then (case buf_push cap (lut ! unat (val AND 0xF)) acc of
              None \<Rightarrow> None
            | Some acc' \<Rightarrow> hex_nibbles cap lut (drop_bit 4 val) acc')
      else Some acc)"
  by pat_completeness auto
termination
proof (relation "measure (\<lambda>(cap, lut, val, acc). unat val)", goal_cases)
  case (2 cap lut val acc x2)
  then have "val \<noteq> 0" by auto
  then show ?case using unat_drop_bit_less [of val 4] by simp
qed simp

declare hex_nibbles.simps [simp del]

definition format_hex_backward :: "nat \<Rightarrow> u64 \<Rightarrow> bool \<Rightarrow> string \<Rightarrow> string option" where
  "format_hex_backward cap val uppercase acc =
     (let lut = (if uppercase then hex_digits_upper else hex_digits_lower)
      in if val = 0 then buf_push cap (CHR ''0'') acc else hex_nibbles cap lut val acc)"

section \<open>format_integer_core, format_binary, format_unsigned, format_signed\<close>

datatype radix = binary | decimal | hex

definition format_integer_core ::
    "radix \<Rightarrow> u64 \<Rightarrow> bool \<Rightarrow> bool \<Rightarrow> int \<Rightarrow> chunks option" where
  "format_integer_core r val is_negative uppercase min_width =
     (let cap = (if r = hex then 16 else 21);
          digits = (if val = 0 then buf_push cap (CHR ''0'') []
                    else if r = hex
                    then hex_nibbles cap (if uppercase then hex_digits_upper else hex_digits_lower) val []
                    else format_dec_backward cap val []);
          signed_digits = (if r = decimal \<and> is_negative \<and> min_width \<le> 0
                           then Option.bind digits (buf_push cap (CHR ''-'')) else digits)
      in case signed_digits of
           None \<Rightarrow> None
         | Some buf \<Rightarrow>
             (let digits_len = length buf;
                  total_needed = digits_len + (if is_negative then 1 else 0)
              in Some ((if min_width > 0
                        then (if is_negative then put (CHR ''-'') else [])
                             @ (if nat min_width > total_needed
                                then replicate (nat min_width - total_needed) ''0'' else [])
                        else [])
                       @ out_write buf)))"

function count_bits :: "u64 \<Rightarrow> nat \<Rightarrow> nat" where
  "count_bits v bits = (let v' = drop_bit 1 v in if v' \<noteq> 0 then count_bits v' (bits + 1) else bits)"
  by pat_completeness auto
termination
proof (relation "measure (\<lambda>(v, bits). unat v)", goal_cases)
  case (2 v bits x)
  then have "v \<noteq> 0" by auto
  then show ?case using 2(1) unat_drop_bit_less [of v 1] by simp
qed simp

declare count_bits.simps [simp del]

definition format_binary :: "u64 \<Rightarrow> int \<Rightarrow> chunks" where
  "format_binary val min_width =
     (let bits = count_bits val 1
      in replicate (nat (min_width - int bits)) ''0''
         @ map (\<lambda>i. [chr (48 + unat (drop_bit i val AND 1))]) (rev [0..<bits]))"

definition format_unsigned :: "radix \<Rightarrow> u64 \<Rightarrow> bool \<Rightarrow> int \<Rightarrow> chunks option" where
  "format_unsigned r val uppercase min_width =
     (if r = binary then Some (format_binary val min_width)
      else format_integer_core r val False uppercase min_width)"

definition format_signed :: "u64 \<Rightarrow> int \<Rightarrow> chunks option" where
  "format_signed val min_width =
     (if sint val < 0
      then (let mag = - (val + 1) + 1 in format_integer_core decimal mag True False min_width)
      else format_integer_core decimal val False False min_width)"

section \<open>Integer format specs\<close>

record int_formatter_specs =
  ifs_width :: u16
  alt_form :: bool
  zero_pad :: bool
  is_hex :: bool
  uppercase :: bool
  is_bin :: bool

definition int_formatter_specs_init :: int_formatter_specs where
  "int_formatter_specs_init =
     \<lparr>ifs_width = 0, alt_form = False, zero_pad = False, is_hex = False, uppercase = False, is_bin = False\<rparr>"

text \<open>The three scanning loops of \<^verbatim>\<open>int_formatter_specs::parse\<close>: flags, width, type.\<close>

fun parse_flags :: "int_formatter_specs \<Rightarrow> string \<Rightarrow> int_formatter_specs \<times> string" where
  "parse_flags f [] = (f, [])"
| "parse_flags f (c # cs) =
     (if c = CHR ''#'' \<and> \<not> alt_form f then parse_flags (f\<lparr>alt_form := True\<rparr>) cs
      else if c = CHR ''0'' \<and> \<not> zero_pad f then parse_flags (f\<lparr>zero_pad := True\<rparr>) cs
      else (f, c # cs))"

fun parse_width :: "u16 \<Rightarrow> string \<Rightarrow> u16 \<times> string" where
  "parse_width w [] = (w, [])"
| "parse_width w (c # cs) =
     (if is_dec_digit c
      then (let nxt = unat w * 10 + (code c - 48)
            in parse_width (if nxt > 0xFFFF then 0xFFFF else of_nat nxt) cs)
      else (w, c # cs))"

definition parse_int_type :: "int_formatter_specs \<Rightarrow> string \<Rightarrow> int_formatter_specs" where
  "parse_int_type f cs =
     (case cs of [] \<Rightarrow> f
      | c # _ \<Rightarrow>
          (if c = CHR ''x'' then f\<lparr>is_hex := True, uppercase := False\<rparr>
           else if c = CHR ''X'' then f\<lparr>is_hex := True, uppercase := True\<rparr>
           else if c = CHR ''b'' then f\<lparr>is_bin := True\<rparr>
           else f))"

definition int_specs_parse :: "int_formatter_specs \<Rightarrow> string \<Rightarrow> int_formatter_specs" where
  "int_specs_parse f spec =
     (if spec = [] then f
      else (let (f1, rest1) = parse_flags f spec;
                (w, rest2) = parse_width (ifs_width f1) rest1
            in parse_int_type (f1\<lparr>ifs_width := w\<rparr>) rest2))"

section \<open>Formatting with a spec\<close>

definition emit_formatted_int :: "string \<Rightarrow> bool \<Rightarrow> string \<Rightarrow> u16 \<Rightarrow> bool \<Rightarrow> chunks" where
  "emit_formatted_int digits is_negative prefix width zpad =
     (let total_content_len = length digits + length prefix + (if is_negative then 1 else 0);
          pad_len = (if unat width > total_content_len then unat width - total_content_len else 0)
      in (if zpad
          then (if is_negative then put (CHR ''-'') else [])
               @ (if prefix \<noteq> [] then out_write prefix else [])
               @ replicate pad_len ''0''
          else replicate pad_len '' ''
               @ (if is_negative then put (CHR ''-'') else [])
               @ (if prefix \<noteq> [] then out_write prefix else []))
         @ out_write digits)"

function bin_digits :: "nat \<Rightarrow> u64 \<Rightarrow> string \<Rightarrow> string option" where
  "bin_digits cap uval acc =
     (case buf_push cap (chr (48 + unat (uval AND 1))) acc of
        None \<Rightarrow> None
      | Some acc' \<Rightarrow>
          (let uval' = drop_bit 1 uval
           in if uval' \<noteq> 0 then bin_digits cap uval' acc' else Some acc'))"
  by pat_completeness auto
termination
proof (relation "measure (\<lambda>(cap, v, acc). unat v)", goal_cases)
  case (2 cap v acc x2 x)
  then have "v \<noteq> 0" by auto
  then show ?case using 2(2) unat_drop_bit_less [of v 1] by simp
qed simp

declare bin_digits.simps [simp del]

text \<open>\<^verbatim>\<open>format_int_impl<int64_t>\<close> and \<^verbatim>\<open>format_int_impl<uint64_t>\<close>, the two instances that
  \<^verbatim>\<open>formatter<T>::format\<close> reaches for integers of up to 64 bits; the buffer has 64 bytes.\<close>

definition format_int_impl :: "bool \<Rightarrow> int_formatter_specs \<Rightarrow> u64 \<Rightarrow> chunks option" where
  "format_int_impl is_signed f val =
     (let cap = 64;
          is_negative = (is_signed \<and> sint val < 0);
          uval = (if is_negative then 0 - val else val);
          digits = (if is_bin f then bin_digits cap uval []
                    else if is_hex f then format_hex_backward cap uval (uppercase f) []
                    else format_dec_backward cap uval []);
          prefix = (if is_bin f then (if alt_form f then ''0b'' else [])
                    else if is_hex f
                    then (if alt_form f then (if uppercase f then ''0X'' else ''0x'') else [])
                    else [])
      in map_option (\<lambda>d. emit_formatted_int d is_negative prefix (ifs_width f) (zero_pad f)) digits)"

text \<open>\<^verbatim>\<open>formatter<T>::format\<close>: a value of a narrower type is widened to 64 bits first, by sign or by zero
  extension.\<close>

definition format_integral :: "bool \<Rightarrow> int_formatter_specs \<Rightarrow> 'w::len word \<Rightarrow> chunks option" where
  "format_integral is_signed f val =
     (if is_signed then format_int_impl True f (scast val) else format_int_impl False f (ucast val))"

section \<open>Reference: the digits of a number\<close>

fun radix_string :: "nat \<Rightarrow> string \<Rightarrow> nat \<Rightarrow> string" where
  "radix_string b lut n =
     (if b < 2 \<or> n < b then [lut ! n] else radix_string b lut (n div b) @ [lut ! (n mod b)])"

declare radix_string.simps [simp del]

text \<open>Reading digits back: the value of a digit string, most significant digit first.\<close>

definition digit_value :: "char \<Rightarrow> nat" where
  "digit_value c =
     (if is_dec_digit c then code c - 48
      else if 97 \<le> code c \<and> code c \<le> 122 then code c - 87
      else if 65 \<le> code c \<and> code c \<le> 90 then code c - 55 else 0)"

definition radix_value :: "nat \<Rightarrow> string \<Rightarrow> nat" where
  "radix_value b ds = foldl (\<lambda>v c. v * b + digit_value c) 0 ds"

lemma radix_string_small: "n < b \<Longrightarrow> radix_string b lut n = [lut ! n]"
  by (simp add: radix_string.simps)

lemma radix_string_big:
  "2 \<le> b \<Longrightarrow> b \<le> n \<Longrightarrow> radix_string b lut n = radix_string b lut (n div b) @ [lut ! (n mod b)]"
  by (subst radix_string.simps) simp

lemma radix_string_nonempty [simp]: "radix_string b lut n \<noteq> []"
  by (subst radix_string.simps) simp

lemma radix_string_length:
  "2 \<le> b \<Longrightarrow> n < b ^ k \<Longrightarrow> 0 < k \<Longrightarrow> length (radix_string b lut n) \<le> k"
proof (induction k arbitrary: n)
  case 0
  then show ?case by simp
next
  case (Suc k)
  show ?case
  proof (cases "n < b")
    case True
    then show ?thesis by (simp add: radix_string_small)
  next
    case False
    then have "k \<noteq> 0" using Suc.prems by (cases k) auto
    moreover have "n div b < b ^ k" using Suc.prems by (simp add: less_mult_imp_div_less mult.commute)
    ultimately have "length (radix_string b lut (n div b)) \<le> k" using Suc by simp
    then show ?thesis using False Suc.prems by (simp add: radix_string_big)
  qed
qed

lemma radix_value_snoc: "radix_value b (ds @ [c]) = radix_value b ds * b + digit_value c"
  by (simp add: radix_value_def)

lemma radix_value_string:
  assumes "2 \<le> b" and "\<And>i. i < b \<Longrightarrow> digit_value (lut ! i) = i"
  shows "radix_value b (radix_string b lut n) = n"
proof (induction n rule: less_induct)
  case (less n)
  show ?case
  proof (cases "n < b")
    case True
    then show ?thesis using assms by (simp add: radix_string_small radix_value_def)
  next
    case False
    then have "n div b < n" using assms(1) by (intro div_less_dividend) auto
    then show ?thesis
      using False assms less.IH [of "n div b"]
      by (simp add: radix_string_big radix_value_snoc)
  qed
qed


lemma hex_digits_value:
  assumes "i < 16"
  shows "digit_value (hex_digits_lower ! i) = i" and "digit_value (hex_digits_upper ! i) = i"
proof -
  have "\<forall>i \<in> set [0..<16]. digit_value (hex_digits_lower ! i) = i \<and> digit_value (hex_digits_upper ! i) = i"
    by code_simp
  then show "digit_value (hex_digits_lower ! i) = i" and "digit_value (hex_digits_upper ! i) = i"
    using assms by simp_all
qed

lemma chr_dec_digit: "i < 10 \<Longrightarrow> chr (48 + i) = hex_digits_lower ! i"
proof -
  assume "i < 10"
  moreover have "\<forall>i \<in> set [0..<10]. chr (48 + i) = hex_digits_lower ! i"
    by code_simp
  ultimately show ?thesis by simp
qed

text \<open>The lookup table holds the two decimal digits of each number below 100.\<close>

lemma nth_concat_pairs:
  "i < n \<Longrightarrow> concat (map (\<lambda>i. [f i, g i]) [0..<n]) ! (2 * i) = f i
     \<and> concat (map (\<lambda>i. [f i, g i]) [0..<n]) ! (2 * i + 1) = g i"
proof (induction n)
  case (Suc n)
  have "length (concat (map (\<lambda>i. [f i, g i]) [0..<n])) = 2 * n"
    by (induction n) simp_all
  with Suc show ?case by (cases "i = n") (auto simp: nth_append)
qed simp

lemma digits_lut_nth:
  assumes "i < 100"
  shows "digits_lut ! (2 * i) = hex_digits_lower ! (i div 10)"
    and "digits_lut ! Suc (2 * i) = hex_digits_lower ! (i mod 10)"
proof -
  have "i div 10 < 10" using assms by simp
  then show "digits_lut ! (2 * i) = hex_digits_lower ! (i div 10)"
    and "digits_lut ! Suc (2 * i) = hex_digits_lower ! (i mod 10)"
    using nth_concat_pairs [OF assms, of "\<lambda>i. chr (48 + i div 10)" "\<lambda>i. chr (48 + i mod 10)"]
      chr_dec_digit [of "i div 10"] chr_dec_digit [of "i mod 10"]
    by (simp_all add: digits_lut_def)
qed

section \<open>The digit writers compute the reference\<close>

abbreviation dec_string :: "nat \<Rightarrow> string" where
  "dec_string n \<equiv> radix_string 10 hex_digits_lower n"

lemma dec_string_100:
  assumes "10 \<le> n"
  shows "dec_string n = (if n < 100 then [] else dec_string (n div 100))
           @ [hex_digits_lower ! (n mod 100 div 10), hex_digits_lower ! (n mod 10)]"
proof -
  have e: "dec_string n = dec_string (n div 10) @ [hex_digits_lower ! (n mod 10)]"
    using assms by (simp add: radix_string_big)
  show ?thesis
  proof (cases "n < 100")
    case True
    then show ?thesis using assms by (simp add: e radix_string_small)
  next
    case False
    then have "dec_string (n div 10) = dec_string (n div 10 div 10) @ [hex_digits_lower ! (n div 10 mod 10)]"
      by (intro radix_string_big) auto
    moreover have "n div 10 mod 10 = n mod 100 div 10"
      using mod_mult2_eq [of n 10 10] by simp
    ultimately show ?thesis using False by (simp add: e div_mult2_eq [symmetric])
  qed
qed

lemma dec_pairs_correct:
  "length (dec_string (unat val)) + length acc \<le> cap \<Longrightarrow>
   \<exists>v acc'. dec_pairs cap val acc = Some (v, acc') \<and> v < 100
     \<and> dec_string (unat v) @ acc' = dec_string (unat val) @ acc"
proof (induction cap val acc rule: dec_pairs.induct)
  case (1 cap val acc)
  show ?case
  proof (cases "100 \<le> val")
    case False
    then show ?thesis by (subst dec_pairs.simps) auto
  next
    case True
    let ?r = "val mod 100" and ?n = "unat val"
    have n: "100 \<le> ?n" using True by (simp add: word_le_nat_alt)
    have r: "unat ?r = ?n mod 100" by (simp add: unat_mod)
    have q: "unat (val div 100) = ?n div 100" by (simp add: unat_div)
    have r2: "unat (?r * 2) = 2 * (?n mod 100)" "unat (?r * 2 + 1) = 2 * (?n mod 100) + 1"
      using r by (simp_all add: unat_word_ariths)
    let ?a = "digits_lut ! unat (?r * 2)" and ?b = "digits_lut ! unat (?r * 2 + 1)"
    have lut: "?a = hex_digits_lower ! (?n mod 100 div 10)" "?b = hex_digits_lower ! (?n mod 10)"
      using digits_lut_nth [of "?n mod 100"] by (simp_all add: r2 mod_mod_cancel)
    have split: "dec_string ?n = dec_string (?n div 100) @ [?a, ?b]"
      using dec_string_100 [of ?n] n by (simp add: lut)
    have push: "buf_push2 cap ?a ?b acc = Some (?a # ?b # acc)"
      using "1.prems" by (simp add: buf_push2_def split)
    have "\<exists>v acc'. dec_pairs cap (val div 100) (?a # ?b # acc) = Some (v, acc') \<and> v < 100
        \<and> dec_string (unat v) @ acc' = dec_string (unat (val div 100)) @ ?a # ?b # acc"
      using "1.IH" [OF True refl push] "1.prems" by (simp add: q split)
    then show ?thesis
      using True push by (subst dec_pairs.simps) (simp add: q split Let_def)
  qed
qed

lemma format_dec_backward_correct:
  assumes "length (dec_string (unat val)) + length acc \<le> cap"
  shows "format_dec_backward cap val acc = Some (dec_string (unat val) @ acc)"
proof -
  obtain v acc' where p: "dec_pairs cap val acc = Some (v, acc')" "v < 100"
      "dec_string (unat v) @ acc' = dec_string (unat val) @ acc"
    using dec_pairs_correct [OF assms] by blast
  have len: "length (dec_string (unat v)) + length acc' \<le> cap"
    using arg_cong [OF p(3), of length] assms by simp
  have v: "unat v < 100" using p(2) by (simp add: word_less_nat_alt)
  show ?thesis
  proof (cases "v < 10")
    case True
    then have "unat v < 10" by (simp add: word_less_nat_alt)
    then show ?thesis using True p len
      by (simp add: format_dec_backward_def buf_push_def radix_string_small chr_dec_digit)
  next
    case False
    then have ge: "10 \<le> unat v" by (simp add: word_less_nat_alt)
    have "unat (v * 2) = 2 * unat v" "unat (v * 2 + 1) = 2 * unat v + 1"
      using v by (simp_all add: unat_word_ariths)
    then show ?thesis using False p len ge v
      by (simp add: format_dec_backward_def buf_push2_def dec_string_100 digits_lut_nth)
  qed
qed


lemma unat_and_15: "unat (v AND 0xF) = unat v mod 16" for v :: u64
proof -
  have "v AND 0xF = take_bit 4 v" by (simp add: take_bit_eq_mask mask_eq_exp_minus_1)
  then show ?thesis by (simp add: unsigned_take_bit_eq take_bit_eq_mod unat_mod)
qed

lemma unat_and_1: "unat (v AND 1) = unat v mod 2" for v :: u64
  by (simp add: and_one_eq unat_mod)

lemma unat_drop_bit_eq_0: "drop_bit k v = 0 \<longleftrightarrow> unat v < 2 ^ k" for v :: u64
proof -
  have "drop_bit k v = 0 \<longleftrightarrow> unat v div 2 ^ k = 0"
    by (metis unat_drop_bit_div unat_eq_zero)
  then show ?thesis by (simp add: div_eq_0_iff)
qed

lemma hex_nibbles_correct:
  "val \<noteq> 0 \<Longrightarrow> length (radix_string 16 lut (unat val)) + length acc \<le> cap \<Longrightarrow>
   hex_nibbles cap lut val acc = Some (radix_string 16 lut (unat val) @ acc)"
proof (induction cap lut val acc rule: hex_nibbles.induct)
  case (1 cap lut val acc)
  let ?n = "unat val" and ?c = "lut ! unat (val AND 0xF)"
  have pos: "val > 0" using "1.prems" by (simp add: word_neq_0_conv)
  have c: "?c = lut ! (?n mod 16)" by (simp add: unat_and_15)
  have q: "unat (drop_bit 4 val) = ?n div 16" using unat_drop_bit_div [of 4 val] by simp
  have "0 < length (radix_string 16 lut ?n)" by simp
  then have push: "buf_push cap ?c acc = Some (?c # acc)"
    using "1.prems"(2) unfolding buf_push_def by (simp del: length_greater_0_conv)
  show ?case
  proof (cases "?n < 16")
    case True
    then have z: "drop_bit 4 val = 0" by (simp add: unat_drop_bit_eq_0)
    have "hex_nibbles cap lut 0 (?c # acc) = Some (?c # acc)"
      by (subst hex_nibbles.simps) simp
    then show ?thesis
      using True pos push z by (subst hex_nibbles.simps) (simp add: c radix_string_small)
  next
    case False
    then have nz: "drop_bit 4 val \<noteq> 0" by (simp add: unat_drop_bit_eq_0)
    have split: "radix_string 16 lut ?n = radix_string 16 lut (?n div 16) @ [?c]"
      using False by (simp add: radix_string_big c)
    have "hex_nibbles cap lut (drop_bit 4 val) (?c # acc)
        = Some (radix_string 16 lut (?n div 16) @ ?c # acc)"
      using "1.IH" [OF pos push nz] "1.prems" q by (simp add: split)
    then show ?thesis using pos push by (subst hex_nibbles.simps) (simp add: split)
  qed
qed

lemma bin_digits_correct:
  "length (radix_string 2 hex_digits_lower (unat val)) + length acc \<le> cap \<Longrightarrow>
   bin_digits cap val acc = Some (radix_string 2 hex_digits_lower (unat val) @ acc)"
proof (induction cap val acc rule: bin_digits.induct)
  case (1 cap val acc)
  let ?n = "unat val" and ?c = "chr (48 + unat (val AND 1))"
  have c: "?c = hex_digits_lower ! (?n mod 2)"
    using chr_dec_digit [of "?n mod 2"] by (simp add: unat_and_1)
  have q: "unat (drop_bit 1 val) = ?n div 2" using unat_drop_bit_div [of 1 val] by simp
  have "0 < length (radix_string 2 hex_digits_lower ?n)" by simp
  then have push: "buf_push cap ?c acc = Some (?c # acc)"
    using "1.prems" unfolding buf_push_def by (simp del: length_greater_0_conv)
  show ?case
  proof (cases "?n < 2")
    case True
    then have "drop_bit 1 val = 0" using unat_drop_bit_eq_0 [of 1 val] by simp
    then show ?thesis
      using True push by (subst bin_digits.simps) (simp add: c radix_string_small)
  next
    case False
    then have nz: "drop_bit 1 val \<noteq> 0" using unat_drop_bit_eq_0 [of 1 val] by simp
    have split: "radix_string 2 hex_digits_lower ?n = radix_string 2 hex_digits_lower (?n div 2) @ [?c]"
      using False by (simp add: radix_string_big c)
    have "bin_digits cap (drop_bit 1 val) (?c # acc)
        = Some (radix_string 2 hex_digits_lower (?n div 2) @ ?c # acc)"
      using "1.IH" [OF push refl nz] "1.prems" q by (simp add: split)
    then show ?thesis using push nz by (subst bin_digits.simps) (simp add: split Let_def)
  qed
qed

text \<open>A 64-bit value has at most 20 decimal, 16 hexadecimal and 64 binary digits, so none of the
  stack buffers is written below its start.\<close>

lemma u64_digits:
  "length (dec_string (unat (v::u64))) \<le> 20"
  "length (radix_string 16 lut (unat (v::u64))) \<le> 16"
  "length (radix_string 2 lut (unat (v::u64))) \<le> 64"
proof -
  have v: "unat v < 2 ^ 64" using unsigned_less [of v, where ?'a = nat] by simp
  show "length (dec_string (unat v)) \<le> 20"
    using v by (intro radix_string_length) simp_all
  show "length (radix_string 16 lut (unat v)) \<le> 16"
    using v by (intro radix_string_length) simp_all
  show "length (radix_string 2 lut (unat v)) \<le> 64"
    using v by (intro radix_string_length) simp_all
qed

definition radix_base :: "radix \<Rightarrow> nat" where
  "radix_base r = (case r of binary \<Rightarrow> 2 | decimal \<Rightarrow> 10 | hex \<Rightarrow> 16)"

lemma format_hex_backward_correct:
  assumes "16 + length acc \<le> cap"
  shows "format_hex_backward cap v up acc =
    Some (radix_string 16 (if up then hex_digits_upper else hex_digits_lower) (unat v) @ acc)"
proof (cases "v = 0")
  case True
  then show ?thesis using assms
    by (simp add: format_hex_backward_def buf_push_def radix_string_small hex_digits_lower_def hex_digits_upper_def)
next
  case False
  let ?lut = "if up then hex_digits_upper else hex_digits_lower"
  have "length (radix_string 16 ?lut (unat v)) + length acc \<le> cap"
    using u64_digits(2) [of ?lut v] assms by linarith
  from hex_nibbles_correct [OF False this] False show ?thesis
    by (simp add: format_hex_backward_def)
qed


section \<open>format_binary\<close>

lemma count_bits_correct:
  "count_bits v k = k - 1 + length (radix_string 2 lut (unat v))" if "0 < k"
  using that
proof (induction v k rule: count_bits.induct)
  case (1 v k)
  have q: "unat (drop_bit 1 v) = unat v div 2" using unat_drop_bit_div [of 1 v] by simp
  show ?case
  proof (cases "unat v < 2")
    case True
    then have "drop_bit 1 v = 0" using unat_drop_bit_eq_0 [of 1 v] by simp
    then show ?thesis using True "1.prems"
      by (subst count_bits.simps) (simp add: radix_string_small)
  next
    case False
    then have nz: "drop_bit 1 v \<noteq> 0" using unat_drop_bit_eq_0 [of 1 v] by simp
    have "count_bits (drop_bit 1 v) (k + 1) = k + 1 - 1 + length (radix_string 2 lut (unat (drop_bit 1 v)))"
      using "1.IH" [OF refl nz] by simp
    then show ?thesis
      using False nz "1.prems" q by (subst count_bits.simps) (simp add: radix_string_big Let_def)
  qed
qed

lemma radix_string_nth:
  "2 \<le> b \<Longrightarrow> i < length (radix_string b lut n) \<Longrightarrow>
   radix_string b lut n ! i = lut ! (n div b ^ (length (radix_string b lut n) - 1 - i) mod b)"
proof (induction n arbitrary: i rule: less_induct)
  case (less n)
  show ?case
  proof (cases "n < b")
    case True
    then show ?thesis using less.prems by (simp add: radix_string_small)
  next
    case False
    then have lt: "n div b < n" using less.prems(1) by (intro div_less_dividend) auto
    let ?q = "radix_string b lut (n div b)"
    have split: "radix_string b lut n = ?q @ [lut ! (n mod b)]"
      using False less.prems(1) by (simp add: radix_string_big)
    show ?thesis
    proof (cases "i < length ?q")
      case True
      then have "?q ! i = lut ! (n div b div b ^ (length ?q - 1 - i) mod b)"
        using less.IH [OF lt less.prems(1)] by simp
      moreover have "length ?q - i = Suc (length ?q - 1 - i)" using True by simp
      ultimately show ?thesis using True
        by (simp add: split nth_append div_mult2_eq [symmetric])
    next
      case False
      then have "i = length ?q" using less.prems by (simp add: split)
      then show ?thesis by (simp add: split nth_append)
    qed
  qed
qed

lemma format_binary_correct:
  "concat (format_binary val w) =
     replicate (nat w - length (radix_string 2 hex_digits_lower (unat val))) (CHR ''0'')
     @ radix_string 2 hex_digits_lower (unat val)"
proof -
  let ?ds = "radix_string 2 hex_digits_lower (unat val)"
  let ?bit = "\<lambda>i. chr (48 + unat (drop_bit i val AND 1))"
  have bits: "count_bits val (Suc 0) = length ?ds" using count_bits_correct [of 1 val hex_digits_lower] by simp
  have bit: "?bit i = hex_digits_lower ! (unat val div 2 ^ i mod 2)" for i
    using chr_dec_digit [of "unat val div 2 ^ i mod 2"] by (simp add: unat_and_1 unat_drop_bit_div)
  have "map ?bit (rev [0..<length ?ds]) = ?ds"
    by (rule nth_equalityI) (simp_all add: rev_nth bit radix_string_nth)
  moreover have "concat (map (\<lambda>i. [?bit i]) is) = map ?bit is" for "is"
    by (induction "is") simp_all
  moreover have "concat (replicate k [c]) = replicate k c" for k and c :: char
    by (induction k) simp_all
  moreover have "nat (w - int (length ?ds)) = nat w - length ?ds" by arith
  ultimately show ?thesis by (simp add: format_binary_def bits Let_def)
qed

section \<open>Layout of formatted integers\<close>

lemma concat_replicate_char [simp]: "concat (replicate k [c]) = replicate k c"
  by (induction k) simp_all

lemma format_integer_core_decimal:
  "\<exists>ch. format_integer_core decimal v neg up w = Some ch
     \<and> concat ch = (if neg then ''-'' else [])
         @ replicate (nat w - (length (dec_string (unat v)) + (if neg then 1 else 0))) (CHR ''0'')
         @ dec_string (unat v)"
proof -
  have f: "format_dec_backward 21 v [] = Some (dec_string (unat v))"
    using u64_digits(1) [of v] by (simp add: format_dec_backward_correct)
  have z: "buf_push 21 (CHR ''0'') [] = Some (dec_string 0)"
    by (simp add: buf_push_def radix_string_small hex_digits_lower_def)
  have m: "buf_push 21 c (dec_string (unat x)) = Some (c # dec_string (unat x))" for c and x :: u64
    using u64_digits(1) [of x] by (simp add: buf_push_def)
  show ?thesis
    using m [of _ 0] by (cases "v = 0") (auto simp: format_integer_core_def f z m Let_def)
qed

lemma format_integer_core_hex:
  "\<exists>ch. format_integer_core hex v False up w = Some ch
     \<and> (let ds = radix_string 16 (if up then hex_digits_upper else hex_digits_lower) (unat v)
        in concat ch = replicate (nat w - length ds) (CHR ''0'') @ ds)"
proof (cases "v = 0")
  case True
  then show ?thesis
    by (simp add: format_integer_core_def buf_push_def radix_string_small hex_digits_lower_def
        hex_digits_upper_def)
next
  case False
  let ?lut = "if up then hex_digits_upper else hex_digits_lower"
  have "hex_nibbles 16 ?lut v [] = Some (radix_string 16 ?lut (unat v))"
    using u64_digits(2) [of ?lut v] hex_nibbles_correct [OF False, of ?lut "[]" 16] by simp
  then show ?thesis using False by (auto simp: format_integer_core_def Let_def)
qed

lemma sint_neg_magnitude:
  fixes v :: u64
  assumes "sint v < 0"
  shows "unat (0 - v) = nat (- sint v)" and "- (v + 1) + 1 = 0 - v"
proof -
  have b: "- (2 ^ 63) \<le> sint v" using sint_greater_eq [of v] by simp
  have "0 - v = word_of_int (- sint v)" by simp
  then have "uint (0 - v) = (- sint v) mod 2 ^ 64" by (simp only: uint_word_of_int) simp
  also have "\<dots> = - sint v" using assms b by (intro mod_pos_pos_trivial) simp_all
  finally show "unat (0 - v) = nat (- sint v)" by (simp flip: nat_uint_eq)
  show "- (v + 1) + 1 = 0 - v" by simp
qed

lemma sint_nonneg_unat:
  fixes v :: u64
  assumes "0 \<le> sint v"
  shows "unat v = nat (sint v)"
proof -
  have b: "sint v < 2 ^ 63" using sint_less [of v] by simp
  have "uint v = sint v mod 2 ^ 64" by (simp add: uint_sint take_bit_eq_mod)
  also have "\<dots> = sint v" using assms b by (intro mod_pos_pos_trivial) simp_all
  finally show ?thesis by (simp flip: nat_uint_eq)
qed

definition spec_base :: "int_formatter_specs \<Rightarrow> nat" where
  "spec_base f = (if is_bin f then 2 else if is_hex f then 16 else 10)"

definition spec_prefix :: "int_formatter_specs \<Rightarrow> string" where
  "spec_prefix f = (if \<not> alt_form f then [] else if is_bin f then ''0b''
     else if is_hex f then (if uppercase f then ''0X'' else ''0x'') else [])"

definition spec_lut :: "int_formatter_specs \<Rightarrow> string" where
  "spec_lut f = (if \<not> is_bin f \<and> is_hex f \<and> uppercase f then hex_digits_upper else hex_digits_lower)"

definition int_magnitude :: "bool \<Rightarrow> u64 \<Rightarrow> nat" where
  "int_magnitude sg val = (if sg then nat \<bar>sint val\<bar> else unat val)"

lemma emit_formatted_int_layout:
  "concat (emit_formatted_int ds neg pre w zp) =
     (let sign = (if neg then ''-'' else []);
          pad = unat w - length (sign @ pre @ ds)
      in if zp then sign @ pre @ replicate pad (CHR ''0'') @ ds
         else replicate pad (CHR '' '') @ sign @ pre @ ds)"
  by (auto simp: emit_formatted_int_def Let_def)

lemma format_int_impl_eq:
  "format_int_impl sg f val =
     Some (emit_formatted_int (radix_string (spec_base f) (spec_lut f) (int_magnitude sg val))
             (sg \<and> sint val < 0) (spec_prefix f) (ifs_width f) (zero_pad f))"
proof -
  define neg where "neg = (sg \<and> sint val < 0)"
  define uval where "uval = (if neg then 0 - val else val)"
  have u: "unat uval = int_magnitude sg val"
    using sint_neg_magnitude(1) [of val] sint_nonneg_unat [of val]
    by (auto simp: uval_def neg_def int_magnitude_def)
  have dig: "bin_digits 64 uval [] = Some (radix_string 2 hex_digits_lower (unat uval))"
      "format_dec_backward 64 uval [] = Some (dec_string (unat uval))"
    using u64_digits(3) [of hex_digits_lower uval] u64_digits(1) [of uval]
    by (simp_all add: bin_digits_correct format_dec_backward_correct)
  have "format_int_impl sg f val = map_option
      (\<lambda>d. emit_formatted_int d neg (spec_prefix f) (ifs_width f) (zero_pad f))
      (if is_bin f then bin_digits 64 uval []
       else if is_hex f then format_hex_backward 64 uval (uppercase f) []
       else format_dec_backward 64 uval [])"
    unfolding format_int_impl_def Let_def neg_def uval_def spec_prefix_def
    by (auto intro!: arg_cong2 [where f = map_option])
  then show ?thesis
    by (auto simp: dig format_hex_backward_correct u spec_base_def spec_lut_def neg_def)
qed

section \<open>Properties\<close>

text \<open>The digits of a number: in base \<open>b\<close>, most significant first, without leading zeros, in the given letter case.\<close>

definition numeral_of :: "nat \<Rightarrow> bool \<Rightarrow> nat \<Rightarrow> string \<Rightarrow> bool" where
  "numeral_of b upper n ds \<longleftrightarrow>
     radix_value b ds = n \<and> ds \<noteq> [] \<and> (hd ds = CHR ''0'' \<longrightarrow> ds = ''0'')
     \<and> set ds \<subseteq> set (take b (if upper then ''0123456789ABCDEF'' else ''0123456789abcdef''))"

lemma numeral_of_radix_string:
  assumes "2 \<le> b" and "b \<le> 16"
  shows "numeral_of b upper n (radix_string b (if upper then hex_digits_upper else hex_digits_lower) n)"
proof -
  let ?lut = "if upper then hex_digits_upper else hex_digits_lower"
  have lut: "?lut = (if upper then ''0123456789ABCDEF'' else ''0123456789abcdef'')" "length ?lut = 16"
    by (simp_all add: hex_digits_upper_def hex_digits_lower_def)
  have digit: "?lut ! i \<in> set (take b ?lut)" if "i < b" for i
    using that assms(2) lut(2) nth_take [of i b ?lut] nth_mem [of i "take b ?lut"] by simp
  have zero: "?lut ! i = CHR ''0'' \<longleftrightarrow> i = 0" if "i < 16" for i
  proof -
    have "\<forall>i \<in> set [0..<16]. (hex_digits_upper ! i = CHR ''0'') = (i = 0) \<and> (hex_digits_lower ! i = CHR ''0'') = (i = 0)" by code_simp
    then show ?thesis using that by simp
  qed
  have "set (radix_string b ?lut n) \<subseteq> set (take b ?lut) \<and> (hd (radix_string b ?lut n) = CHR ''0'' \<longrightarrow> n = 0)"
  proof (induction n rule: less_induct)
    case (less n)
    show ?case
    proof (cases "n < b")
      case True
      then show ?thesis using digit [of n] zero [of n] assms(2) by (simp add: radix_string_small)
    next
      case False
      then have "n div b < n" "n div b \<noteq> 0" "n mod b < b" using assms(1) by (simp_all add: div_eq_0_iff)
      then show ?thesis using less [of "n div b"] digit [of "n mod b"] False assms(1) by (simp add: radix_string_big)
    qed
  qed
  moreover have "radix_value b (radix_string b ?lut n) = n"
    using assms by (intro radix_value_string) (simp_all add: hex_digits_value)
  ultimately show ?thesis
    using zero [of 0] assms(1) unfolding numeral_of_def lut(1) [symmetric] by (auto simp: radix_string_small)
qed

text \<open>C7: \<^verbatim>\<open>formatter<T>\<close> for integers. For every spec and every 64-bit value (\<^verbatim>\<open>INT64_MIN\<close> included) no store leaves the
  stack buffer, and the text is determined: the numeral of the magnitude in the base and letter case of the
  spec, without leading zeros; before it the sign and the prefix; and up to the width, zeros between prefix and
  numeral if the spec asks for zero padding, or else blanks in front of all.\<close>

theorem format_int_impl_renders:
  "\<exists>ch ds. format_int_impl sg f val = Some ch
     \<and> numeral_of (if is_bin f then 2 else if is_hex f then 16 else 10) (is_hex f \<and> \<not> is_bin f \<and> uppercase f)
         (if sg then nat \<bar>sint val\<bar> else unat val) ds
     \<and> (let sign = (if sg \<and> sint val < 0 then ''-'' else []);
            pre = (if alt_form f \<and> is_bin f then ''0b'' else if alt_form f \<and> is_hex f \<and> uppercase f then ''0X''
                   else if alt_form f \<and> is_hex f then ''0x'' else []);
            pad = unat (ifs_width f) - length (sign @ pre @ ds)
        in concat ch = (if zero_pad f then sign @ pre @ replicate pad (CHR ''0'') @ ds
                        else replicate pad (CHR '' '') @ sign @ pre @ ds))"
proof -
  let ?ds = "radix_string (spec_base f) (spec_lut f) (int_magnitude sg val)"
  have "numeral_of (if is_bin f then 2 else if is_hex f then 16 else 10) (is_hex f \<and> \<not> is_bin f \<and> uppercase f)
      (if sg then nat \<bar>sint val\<bar> else unat val) ?ds"
    using numeral_of_radix_string [of "spec_base f" "is_hex f \<and> \<not> is_bin f \<and> uppercase f" "int_magnitude sg val"]
    by (auto simp: spec_base_def spec_lut_def int_magnitude_def split: if_splits)
  then show ?thesis
    by (intro exI [of _ "emit_formatted_int ?ds (sg \<and> sint val < 0) (spec_prefix f) (ifs_width f) (zero_pad f)"]
          exI [of _ ?ds])
       (auto simp: format_int_impl_eq emit_formatted_int_layout spec_prefix_def Let_def)
qed

text \<open>\<^verbatim>\<open>format_unsigned\<close> in every radix (the streaming most-significant-bit-first binary path, the
  nibble path and the two-digit table path) writes the zero-padded digits of the value, which read
  back as the value.\<close>

theorem format_unsigned_renders:
  "\<exists>ch ds. format_unsigned r val up w = Some ch
     \<and> concat ch = replicate (nat w - length ds) (CHR ''0'') @ ds
     \<and> radix_value (radix_base r) ds = unat val"
proof -
  let ?lut = "if r = hex \<and> up then hex_digits_upper else hex_digits_lower"
  let ?ds = "radix_string (radix_base r) ?lut (unat val)"
  have v: "radix_value (radix_base r) ?ds = unat val"
    by (rule radix_value_string) (auto simp: radix_base_def hex_digits_value split: radix.splits)
  have "\<exists>ch. format_unsigned r val up w = Some ch
          \<and> concat ch = replicate (nat w - length ?ds) (CHR ''0'') @ ?ds"
  proof (cases r)
    case binary
    then show ?thesis by (simp add: format_unsigned_def format_binary_correct radix_base_def)
  next
    case decimal
    then show ?thesis using format_integer_core_decimal [of val False up w]
      by (auto simp: format_unsigned_def radix_base_def)
  next
    case hex
    then show ?thesis using format_integer_core_hex [of val up w]
      by (auto simp: format_unsigned_def radix_base_def Let_def)
  qed
  with v show ?thesis by blast
qed

text \<open>\<^verbatim>\<open>format_signed\<close> writes the sign, the zero padding and the decimal digits of every \<^verbatim>\<open>int64_t\<close>
  value; the digits read back as its absolute value, also for \<^verbatim>\<open>INT64_MIN\<close>.\<close>

theorem format_signed_renders:
  "\<exists>ch ds. format_signed val w = Some ch
     \<and> (let sign = (if sint val < 0 then ''-'' else [])
        in concat ch = sign @ replicate (nat w - length (sign @ ds)) (CHR ''0'') @ ds
           \<and> int (radix_value 10 ds) = \<bar>sint val\<bar>)"
proof -
  have rv: "radix_value 10 (dec_string n) = n" for n
    by (rule radix_value_string) (simp_all add: hex_digits_value)
  show ?thesis
  proof (cases "sint val < 0")
    case True
    have m: "unat (- val) = nat (- sint val)" using sint_neg_magnitude [OF True] by simp
    show ?thesis
      using format_integer_core_decimal [of "- (val + 1) + 1" True False w] True
      by (auto simp: format_signed_def m Let_def rv intro!: exI [of _ "dec_string (nat (- sint val))"])
  next
    case False
    then have m: "unat val = nat (sint val)" by (intro sint_nonneg_unat) simp
    show ?thesis
      using format_integer_core_decimal [of val False False w] False
      by (auto simp: format_signed_def m Let_def rv intro!: exI [of _ "dec_string (nat (sint val))"])
  qed
qed


section \<open>Parsing of integer specs\<close>

abbreviation dec_fold :: "nat \<Rightarrow> string \<Rightarrow> nat" where
  "dec_fold \<equiv> foldl (\<lambda>v c. v * 10 + (code c - 48))"

lemma dec_fold_ge: "a \<le> dec_fold a ds"
proof (induction ds arbitrary: a)
  case (Cons c ds)
  have "a \<le> a * 10 + (code c - 48)" by simp
  also have "\<dots> \<le> dec_fold (a * 10 + (code c - 48)) ds" by (rule Cons.IH)
  finally show ?case by simp
qed simp

lemma dec_fold_saturate: "min m (dec_fold (min m a) ds) = min m (dec_fold a ds)"
proof (cases "a \<le> m")
  case False
  then have "min m a = m" and "m \<le> a" by simp_all
  with dec_fold_ge [of m ds] dec_fold_ge [of a ds] show ?thesis by simp
qed (simp add: min_def)

lemma parse_width_digits:
  "\<forall>c \<in> set ds. is_dec_digit c \<Longrightarrow> rest = [] \<or> \<not> is_dec_digit (hd rest) \<Longrightarrow>
   parse_width w (ds @ rest) = (of_nat (min 0xFFFF (dec_fold (unat w) ds)), rest)"
proof (induction ds arbitrary: w)
  case Nil
  have "unat w \<le> 0xFFFF" using unsigned_less [of w, where ?'a = nat] by simp
  then show ?case using Nil by (cases rest) (simp_all add: min_def)
next
  case (Cons c ds)
  let ?n = "unat w * 10 + (code c - 48)"
  let ?w = "if ?n > 0xFFFF then 0xFFFF else of_nat ?n :: u16"
  have sat: "unat (if n > 0xFFFF then 0xFFFF else of_nat n :: u16) = min 0xFFFF n" for n
    by (simp add: min_def unat_of_nat)
  have u: "unat ?w = min 0xFFFF ?n" by (rule sat)
  have "parse_width w ((c # ds) @ rest) = parse_width ?w (ds @ rest)"
    using Cons.prems by (simp add: Let_def)
  also have "\<dots> = (of_nat (min 0xFFFF (dec_fold (min 0xFFFF ?n) ds)), rest)"
    using Cons.IH [of ?w] Cons.prems u by simp
  finally show ?case by (simp only: dec_fold_saturate foldl_Cons)
qed

text \<open>a width of any length in a format spec is read without wrap-around: digits that denote more
  than 65535 saturate to 65535.\<close>

theorem parse_width_saturates:
  assumes "\<forall>c \<in> set ds. is_dec_digit c"
  shows "unat (fst (parse_width 0 ds)) = min 0xFFFF (radix_value 10 ds)"
proof -
  have "dec_fold 0 ds = radix_value 10 ds"
    unfolding radix_value_def using assms
    by (intro foldl_cong) (simp_all add: digit_value_def)
  then show ?thesis using parse_width_digits [OF assms, of "[]" 0]
    by (simp add: unat_of_nat min_def)
qed

theorem parse_width_saturates_witness:
  "unat (fst (parse_width 0 ''70000'')) = min 0xFFFF (radix_value 10 ''70000'')
   \<and> unat (fst (parse_width 0 ''70000'')) = 65535"
proof -
  have "unat (fst (parse_width 0 ''70000'')) = min 0xFFFF (radix_value 10 ''70000'')"
    by (rule parse_width_saturates) simp
  moreover have "radix_value 10 ''70000'' = 70000"
    by (simp add: radix_value_def digit_value_def)
  ultimately show ?thesis by simp
qed

text \<open>The canonical text of a spec, and that parsing inverts it.\<close>

definition spec_text :: "int_formatter_specs \<Rightarrow> string" where
  "spec_text f = (if alt_form f then ''#'' else []) @ (if zero_pad f then ''0'' else [])
     @ (if ifs_width f = 0 then [] else dec_string (unat (ifs_width f)))
     @ (if is_bin f then ''b'' else if is_hex f then (if uppercase f then ''X'' else ''x'') else [])"

lemma dec_string_digits: "\<forall>c \<in> set (dec_string n). is_dec_digit c"
proof (induction n rule: less_induct)
  case (less n)
  have d: "i < 10 \<Longrightarrow> is_dec_digit (hex_digits_lower ! i)" for i
    using chr_dec_digit [of i, symmetric] by (simp add: is_dec_digit_def)
  show ?case
  proof (cases "n < 10")
    case True
    then show ?thesis by (simp add: radix_string_small d)
  next
    case False
    then show ?thesis using less.IH [of "n div 10"] by (simp add: radix_string_big d)
  qed
qed

lemma dec_string_hd: "0 < n \<Longrightarrow> hd (dec_string n) \<noteq> CHR ''0''"
proof (induction n rule: less_induct)
  case (less n)
  show ?case
  proof (cases "n < 10")
    case True
    have "\<forall>i \<in> set [1..<10]. hex_digits_lower ! i \<noteq> CHR ''0''" by code_simp
    then show ?thesis using True less.prems by (simp add: radix_string_small)
  next
    case False
    then show ?thesis using less.IH [of "n div 10"] by (simp add: radix_string_big)
  qed
qed

lemma dec_fold_dec_string: "dec_fold 0 (dec_string n) = n"
proof -
  have "dec_fold 0 (dec_string n) = radix_value 10 (dec_string n)"
    unfolding radix_value_def using dec_string_digits [of n]
    by (intro foldl_cong) (simp_all add: digit_value_def)
  then show ?thesis using radix_value_string [of 10 hex_digits_lower n] by (simp add: hex_digits_value)
qed

lemma parse_flags_stop:
  "s = [] \<or> hd s \<noteq> CHR ''#'' \<and> hd s \<noteq> CHR ''0'' \<Longrightarrow> parse_flags f s = (f, s)"
  by (cases s) auto

text \<open>parsing the canonical text of an integer spec (\<^verbatim>\<open>#\<close>, \<^verbatim>\<open>0\<close>, width, type letter) gives the spec
  back.\<close>

theorem int_specs_roundtrip:
  assumes "\<not> (is_bin f \<and> is_hex f)" and "uppercase f \<Longrightarrow> is_hex f"
  shows "int_specs_parse int_formatter_specs_init (spec_text f) = f"
proof -
  define ty where "ty = (if is_bin f then ''b'' else if is_hex f then (if uppercase f then ''X'' else ''x'') else [])"
  define ws where "ws = (if ifs_width f = 0 then [] else dec_string (unat (ifs_width f)))"
  define f1 where "f1 = int_formatter_specs_init\<lparr>alt_form := alt_form f, zero_pad := zero_pad f\<rparr>"
  have st: "spec_text f = (if alt_form f then ''#'' else []) @ (if zero_pad f then ''0'' else []) @ ws @ ty"
    by (simp add: spec_text_def ws_def ty_def)
  have ty0: "ty = [] \<or> \<not> is_dec_digit (hd ty) \<and> hd ty \<noteq> CHR ''#'' \<and> hd ty \<noteq> CHR ''0''"
    by (simp add: ty_def is_dec_digit_def)
  have ws0: "ws = [] \<or> is_dec_digit (hd ws) \<and> hd ws \<noteq> CHR ''0''"
    using dec_string_digits [of "unat (ifs_width f)"] dec_string_hd [of "unat (ifs_width f)"]
    by (auto simp: ws_def unat_gt_0 hd_in_set)
  have "hd ws \<noteq> CHR ''#''" if "ws \<noteq> []" using ws0 that by (auto simp: is_dec_digit_def)
  then have stop: "parse_flags g (ws @ ty) = (g, ws @ ty)" for g
    using ws0 ty0 by (intro parse_flags_stop) (cases ws, auto)
  have flags: "parse_flags int_formatter_specs_init (spec_text f) = (f1, ws @ ty)"
    unfolding st by (cases "alt_form f"; cases "zero_pad f")
      (auto simp: stop f1_def int_formatter_specs_init_def)
  have "dec_fold 0 ws = unat (ifs_width f)" by (simp add: ws_def dec_fold_dec_string)
  moreover have "\<forall>c \<in> set ws. is_dec_digit c" using dec_string_digits by (simp add: ws_def)
  moreover have "unat (ifs_width f) \<le> 0xFFFF" using unsigned_less [of "ifs_width f", where ?'a = nat] by simp
  ultimately have width: "parse_width 0 (ws @ ty) = (ifs_width f, ty)"
    using parse_width_digits [of ws ty 0] ty0 by (auto simp: min_def)
  have "int_specs_parse int_formatter_specs_init (spec_text f) = parse_int_type (f1\<lparr>ifs_width := ifs_width f\<rparr>) ty"
  proof (cases "spec_text f = []")
    case True
    then show ?thesis using flags width
      by (auto simp: int_specs_parse_def parse_int_type_def f1_def int_formatter_specs_init_def)
  next
    case False
    have "ifs_width f1 = 0" by (simp add: f1_def int_formatter_specs_init_def)
    then show ?thesis using False by (simp add: int_specs_parse_def flags width)
  qed
  also have "\<dots> = f"
    using assms by (cases f) (auto simp: parse_int_type_def f1_def ty_def int_formatter_specs_init_def)
  finally show ?thesis .
qed

theorem int_specs_roundtrip_witness:
  "int_specs_parse int_formatter_specs_init ''#08X''
     = \<lparr>ifs_width = 8, alt_form = True, zero_pad = True, is_hex = True, uppercase = True, is_bin = False\<rparr>"
proof -
  let ?f = "\<lparr>ifs_width = 8, alt_form = True, zero_pad = True, is_hex = True, uppercase = True, is_bin = False\<rparr>"
  have "spec_text ?f = ''#08X''"
    by (simp add: spec_text_def radix_string_small hex_digits_lower_def)
  then show ?thesis using int_specs_roundtrip [of ?f] by simp
qed


end
