(* ===== verification/Text_Format.thy ===== *)
theory Text_Format
  imports Int_Format
begin

text \<open>
  Text formatting of \<^verbatim>\<open>microfmt.hpp\<close>: the shared debug escaping, \<^verbatim>\<open>format_parse_context\<close>, and the built-in
  formatters for strings, C strings, characters, booleans and pointers. The reference for the
  escaping is \<open>unescape\<close>, a reader of the escaped form.
\<close>

section \<open>Debug escaping\<close>

definition write_escaped_char :: "char \<Rightarrow> char \<Rightarrow> bool \<Rightarrow> chunks option" where
  "write_escaped_char ch quote_char escape_quote =
     (let b = code ch; esc = (\<lambda>c. Some (out_write [CHR 0x5C, c]))
      in if b = 0 then esc (CHR ''0'')
         else if b = 7 then esc (CHR ''a'')
         else if b = 8 then esc (CHR ''b'')
         else if b = 9 then esc (CHR ''t'')
         else if b = 10 then esc (CHR ''n'')
         else if b = 11 then esc (CHR ''v'')
         else if b = 12 then esc (CHR ''f'')
         else if b = 13 then esc (CHR ''r'')
         else if b = 0x5C then esc (CHR 0x5C)
         else if ch = quote_char
         then Some ((if escape_quote then put (CHR 0x5C) else []) @ put quote_char)
         else if 32 \<le> b \<and> b \<le> 126 then Some (put ch)
         else seq_chunks (Some (out_write [CHR 0x5C, CHR ''x'']))
                (format_unsigned hex (of_nat b) False 2))"

definition write_debug_quoted :: "string \<Rightarrow> char \<Rightarrow> chunks option" where
  "write_debug_quoted data quote_char =
     seq_chunks (Some (put quote_char))
       (seq_chunks (emit_each (\<lambda>ch. write_escaped_char ch quote_char True) data)
          (Some (put quote_char)))"

section \<open>format_parse_context\<close>

record format_parse_context =
  fpc_spec :: string

definition fpc_init :: "string \<Rightarrow> format_parse_context" where
  "fpc_init spec = \<lparr>fpc_spec = spec\<rparr>"

definition fpc_front :: "format_parse_context \<Rightarrow> char" where
  "fpc_front c = (if fpc_spec c = [] then CHR 0x00 else hd (fpc_spec c))"

definition fpc_back :: "format_parse_context \<Rightarrow> char" where
  "fpc_back c = (if fpc_spec c = [] then CHR 0x00 else last (fpc_spec c))"

definition fpc_at :: "format_parse_context \<Rightarrow> nat \<Rightarrow> char" where
  "fpc_at c idx = (if idx < length (fpc_spec c) then fpc_spec c ! idx else CHR 0x00)"

text \<open>An iterator is its offset from \<^verbatim>\<open>begin()\<close>, negative for one that lies before it.\<close>

definition fpc_advance_to :: "format_parse_context \<Rightarrow> int \<Rightarrow> format_parse_context" where
  "fpc_advance_to c it =
     (if 0 \<le> it \<and> it \<le> int (length (fpc_spec c)) then c\<lparr>fpc_spec := drop (nat it) (fpc_spec c)\<rparr> else c)"

definition fpc_remove_prefix :: "format_parse_context \<Rightarrow> nat \<Rightarrow> format_parse_context" where
  "fpc_remove_prefix c n =
     c\<lparr>fpc_spec := drop (if n < length (fpc_spec c) then n else length (fpc_spec c)) (fpc_spec c)\<rparr>"

definition fpc_consume :: "format_parse_context \<Rightarrow> char \<times> format_parse_context" where
  "fpc_consume c = (if fpc_spec c = [] then (CHR 0x00, c)
                    else (hd (fpc_spec c), c\<lparr>fpc_spec := drop 1 (fpc_spec c)\<rparr>))"

definition fpc_starts_with :: "format_parse_context \<Rightarrow> char \<Rightarrow> bool" where
  "fpc_starts_with c ch \<longleftrightarrow> fpc_spec c \<noteq> [] \<and> hd (fpc_spec c) = ch"

definition fpc_starts_with_sv :: "format_parse_context \<Rightarrow> string \<Rightarrow> bool" where
  "fpc_starts_with_sv c p \<longleftrightarrow> length p \<le> length (fpc_spec c) \<and> take (length p) (fpc_spec c) = p"

definition consume_debug_flag :: "format_parse_context \<Rightarrow> bool \<times> format_parse_context" where
  "consume_debug_flag c =
     (if \<not> fpc_starts_with c (CHR ''?'') then (False, c) else (True, fpc_remove_prefix c 1))"

section \<open>Built-in formatters\<close>

definition format_string_view :: "string \<Rightarrow> string \<Rightarrow> chunks option" where
  "format_string_view spec val =
     (let debug = fst (consume_debug_flag (fpc_init spec))
      in if debug then write_debug_quoted val (CHR 0x22) else Some (out_write val))"

text \<open>A \<^verbatim>\<open>const char *\<close> is \<^const>\<open>None\<close> when it is null, otherwise the bytes before its NUL.\<close>

definition format_const_char :: "string \<Rightarrow> string option \<Rightarrow> chunks option" where
  "format_const_char spec val =
     (let debug = fst (consume_debug_flag (fpc_init spec));
          sv = (case val of Some s \<Rightarrow> s | None \<Rightarrow> ''(null)'')
      in if debug then write_debug_quoted sv (CHR 0x22) else Some (out_write sv))"

definition format_char :: "string \<Rightarrow> char \<Rightarrow> chunks option" where
  "format_char spec val =
     (let debug = fst (consume_debug_flag (fpc_init spec))
      in if debug
         then seq_chunks (Some (put (CHR 0x27)))
                (seq_chunks (write_escaped_char val (CHR 0x27) True) (Some (put (CHR 0x27))))
         else Some (put val))"

definition format_bool :: "bool \<Rightarrow> chunks option" where
  "format_bool val = Some (out_write (if val then ''true'' else ''false''))"

text \<open>\<^verbatim>\<open>raw_ptr_format\<close> reads its width into a signed \<^verbatim>\<open>int\<close> without a bound; \<^const>\<open>None\<close> is the signed
  overflow, which is undefined behaviour.\<close>

fun raw_ptr_width :: "int \<Rightarrow> string \<Rightarrow> int option" where
  "raw_ptr_width width [] = Some width"
| "raw_ptr_width width (c # cs) =
     (if is_dec_digit c
      then (let w = width * 10 + int (code c - 48)
            in if w < 2 ^ 31 then raw_ptr_width w cs else None)
      else Some width)"

definition raw_ptr_parse :: "string \<Rightarrow> int option" where
  "raw_ptr_parse s = raw_ptr_width 0 (if s \<noteq> [] \<and> hd s = CHR ''0'' then drop 1 s else s)"

definition raw_ptr_do_format :: "int \<Rightarrow> u64 \<Rightarrow> chunks option" where
  "raw_ptr_do_format width ptr =
     seq_chunks (Some (out_write ''0x'')) (format_unsigned hex ptr False width)"

definition format_pointer :: "string \<Rightarrow> u64 \<Rightarrow> chunks option" where
  "format_pointer spec ptr = Option.bind (raw_ptr_parse spec) (\<lambda>w. raw_ptr_do_format w ptr)"

definition format_nullptr :: "chunks option" where
  "format_nullptr = Some (out_write ''0x0'')"

section \<open>Reading the escaped form back\<close>

definition unescape_letter :: "char \<Rightarrow> char" where
  "unescape_letter c =
     (if c = CHR ''0'' then chr 0 else if c = CHR ''a'' then chr 7 else if c = CHR ''b'' then chr 8
      else if c = CHR ''t'' then chr 9 else if c = CHR ''n'' then chr 10
      else if c = CHR ''v'' then chr 11 else if c = CHR ''f'' then chr 12
      else if c = CHR ''r'' then chr 13 else c)"

fun unescape :: "string \<Rightarrow> string" where
  "unescape [] = []"
| "unescape (c # cs) =
     (if c \<noteq> CHR 0x5C then c # unescape cs
      else case cs of
             [] \<Rightarrow> [c]
           | d # ds \<Rightarrow>
               (if d = CHR ''x''
                then (case ds of
                        h # l # rest \<Rightarrow> chr (digit_value h * 16 + digit_value l) # unescape rest
                      | _ \<Rightarrow> c # d # ds)
                else unescape_letter d # unescape ds))"

lemma format_unsigned_hex_byte:
  assumes "b < 256"
  shows "\<exists>ch h l. format_unsigned hex (of_nat b) False 2 = Some ch \<and> concat ch = [h, l]
           \<and> digit_value h * 16 + digit_value l = b"
proof -
  have u: "unat (of_nat b :: u64) = b" using assms by (simp add: unat_of_nat)
  obtain ch where ch: "format_unsigned hex (of_nat b) False 2 = Some ch"
      "concat ch = replicate (2 - length (radix_string 16 hex_digits_lower b)) (CHR ''0'')
                   @ radix_string 16 hex_digits_lower b"
    using format_integer_core_hex [of "of_nat b" False 2] u
    by (auto simp: format_unsigned_def Let_def)
  show ?thesis
  proof (cases "b < 16")
    case True
    moreover have "digit_value (CHR ''0'') = 0" by (simp add: digit_value_def)
    ultimately show ?thesis using ch by (auto simp: radix_string_small hex_digits_value)
  next
    case False
    then have "radix_string 16 hex_digits_lower b = [hex_digits_lower ! (b div 16), hex_digits_lower ! (b mod 16)]"
      using assms by (simp add: radix_string_big radix_string_small)
    then show ?thesis using ch assms by (auto simp: hex_digits_value)
  qed
qed

text \<open>One escaped character is read back as the character, for a quote character that is printable
  and not one of the letters that an escape uses.\<close>

definition plain_quote :: "char \<Rightarrow> bool" where
  "plain_quote q \<longleftrightarrow> q \<noteq> CHR 0x5C \<and> q \<noteq> CHR ''x'' \<and> unescape_letter q = q"

lemma unescape_write_escaped_char:
  assumes "plain_quote q"
  shows "\<exists>ch. write_escaped_char c q True = Some ch
           \<and> (\<forall>rest. unescape (concat ch @ rest) = c # unescape rest)"
proof -
  have q: "q \<noteq> CHR 0x5C" "q \<noteq> CHR ''x''" "unescape_letter q = q"
    using assms by (simp_all add: plain_quote_def)
  have lit: "code c = n \<Longrightarrow> c = chr n" for n by auto
  consider (esc) l where "write_escaped_char c q True = Some [[CHR 0x5C, l]]" "l \<noteq> CHR ''x''" "unescape_letter l = c"
    | (quote) "write_escaped_char c q True = Some [[CHR 0x5C], [q]]" "c = q"
    | (plain) "write_escaped_char c q True = Some [[c]]" "c \<noteq> CHR 0x5C"
    | (hex) "write_escaped_char c q True =
          seq_chunks (Some [[CHR 0x5C, CHR ''x'']]) (format_unsigned hex (of_nat (code c)) False 2)"
  proof -
    have bs: "chr 92 = CHR 0x5C" by code_simp
    have e: "code c \<in> {0,7,8,9,10,11,12,13,0x5C} \<Longrightarrow> thesis"
      using esc by (auto simp: write_escaped_char_def Let_def unescape_letter_def bs dest: lit)
    have n: "thesis" if nc: "code c \<notin> {0,7,8,9,10,11,12,13,0x5C}"
    proof -
      have w: "write_escaped_char c q True = (if c = q then Some [[CHR 0x5C], [q]]
          else if 32 \<le> code c \<and> code c \<le> 126 then Some [[c]]
          else seq_chunks (Some [[CHR 0x5C, CHR ''x'']]) (format_unsigned hex (of_nat (code c)) False 2))"
        using nc by (simp add: write_escaped_char_def Let_def)
      have "c \<noteq> CHR 0x5C" using nc by auto
      then show thesis using quote plain hex w by (cases "c = q"; cases "32 \<le> code c \<and> code c \<le> 126") auto
    qed
    from e n show thesis by blast
  qed
  then show ?thesis
  proof cases
    case hex
    obtain ch h l where "format_unsigned radix.hex (of_nat (code c)) False 2 = Some ch" "concat ch = [h, l]"
        "digit_value h * 16 + digit_value l = code c"
      using format_unsigned_hex_byte [of "code c"] by auto
    then show ?thesis using hex by simp
  qed (use q in \<open>auto\<close>)
qed

lemma unescape_emit_each:
  assumes "plain_quote q"
  shows "\<exists>ch. emit_each (\<lambda>c. write_escaped_char c q True) data = Some ch
           \<and> (\<forall>rest. unescape (concat ch @ rest) = data @ unescape rest)"
proof (induction data)
  case (Cons c cs)
  obtain a where a: "write_escaped_char c q True = Some a"
      "\<And>rest. unescape (concat a @ rest) = c # unescape rest"
    using unescape_write_escaped_char [OF assms, of c] by blast
  obtain b where "emit_each (\<lambda>c. write_escaped_char c q True) cs = Some b"
      "\<And>rest. unescape (concat b @ rest) = cs @ unescape rest"
    using Cons.IH by blast
  with a show ?case by simp
qed simp

section \<open>Properties\<close>

text \<open>\<^verbatim>\<open>{:?}\<close> on a string always yields a quoted form whose inner text, read with the escapes undone,
  is exactly the string, for every byte content.\<close>

theorem debug_quoted_roundtrip:
  "\<exists>ch inner. format_string_view ''?'' data = Some ch
     \<and> concat ch = CHR 0x22 # inner @ [CHR 0x22] \<and> unescape inner = data"
proof -
  have "plain_quote (CHR 0x22)" by (simp add: plain_quote_def unescape_letter_def)
  then obtain b where b: "emit_each (\<lambda>c. write_escaped_char c (CHR 0x22) True) data = Some b"
      "\<And>rest. unescape (concat b @ rest) = data @ unescape rest"
    using unescape_emit_each by blast
  have "unescape (concat b) = data" using b(2) [of "[]"] by simp
  then show ?thesis
    by (simp add: format_string_view_def write_debug_quoted_def consume_debug_flag_def
        fpc_starts_with_def fpc_init_def b(1))
qed

lemma raw_ptr_width_value:
  "\<forall>c \<in> set ds. is_dec_digit c \<Longrightarrow> n < 2 ^ 31 \<Longrightarrow>
   raw_ptr_width (int n) ds = (if dec_fold n ds < 2 ^ 31 then Some (int (dec_fold n ds)) else None)"
proof (induction ds arbitrary: n)
  case (Cons c ds)
  let ?w = "n * 10 + (code c - 48)"
  have w: "int n * 10 + int (code c - 48) = int ?w" by simp
  show ?case
  proof (cases "?w < 2 ^ 31")
    case True
    then have "int ?w < 2 ^ 31" by simp
    then show ?thesis using Cons.IH [OF _ True] Cons.prems by (simp only: raw_ptr_width.simps w Let_def) simp
  next
    case False
    then have "\<not> int ?w < 2 ^ 31" by simp
    moreover have "\<not> dec_fold ?w ds < 2 ^ 31" using False dec_fold_ge [of ?w ds] by simp
    ultimately show ?thesis using Cons.prems by (simp only: raw_ptr_width.simps w Let_def) simp
  qed
qed simp

lemma dec_fold_radix_value:
  assumes "\<forall>c \<in> set ds. is_dec_digit c"
  shows "dec_fold 0 ds = radix_value 10 ds"
  unfolding radix_value_def using assms by (intro foldl_cong) (simp_all add: digit_value_def)

text \<open>the width of a pointer spec is accumulated in a signed \<^verbatim>\<open>int\<close> without saturation: a run of
  digits that denotes \<open>2\<^sup>3\<^sup>1\<close> or more overflows it, every smaller one is read exactly.\<close>

theorem raw_ptr_parse_overflow:
  assumes "\<forall>c \<in> set ds. is_dec_digit c" and "ds = [] \<or> hd ds \<noteq> CHR ''0''"
  shows "raw_ptr_parse ds = (if radix_value 10 ds < 2 ^ 31 then Some (int (radix_value 10 ds)) else None)"
  using raw_ptr_width_value [OF assms(1), of 0] assms dec_fold_radix_value [OF assms(1)]
  by (auto simp: raw_ptr_parse_def)

theorem raw_ptr_parse_overflow_witness:
  "raw_ptr_parse ''16'' = Some 16 \<and> raw_ptr_parse ''99999999999'' = None"
proof -
  have a: "radix_value 10 ''16'' = 16" and b: "radix_value 10 ''99999999999'' = 99999999999"
    by (simp_all add: radix_value_def digit_value_def)
  show ?thesis
    using raw_ptr_parse_overflow [of "''16''"] raw_ptr_parse_overflow [of "''99999999999''"]
    by (simp add: a b)
qed


end
