(* ===== verification/Sinks.thy ===== *)
theory Sinks
  imports Microfmt_Prelude
begin

text \<open>
  The output side of \<^verbatim>\<open>microfmt.hpp\<close>: the type-erased sink interface and the concrete sinks
  \<^verbatim>\<open>span_sink\<close>, \<^verbatim>\<open>buffer_sink\<close>, \<^verbatim>\<open>iterator_sink\<close>, \<^verbatim>\<open>counting_sink\<close>, \<^verbatim>\<open>null_sink\<close>, \<^verbatim>\<open>c_string_sink\<close> and
  \<^verbatim>\<open>callback_sink\<close>. A sink's callback is a function from the sink's state and the written view to
  the new state, \<^const>\<open>None\<close> when it stores outside its storage. The locales \<open>stream_sink\<close> and
  \<open>bounded_sink\<close> state what a formatter may rely on; each concrete sink interprets one of them.
\<close>

section \<open>The sink interface\<close>

text \<open>A formatter's write calls, run on a sink callback.\<close>

fun run_sink :: "('s \<Rightarrow> string \<Rightarrow> 's option) \<Rightarrow> 's \<Rightarrow> chunks \<Rightarrow> 's option" where
  "run_sink wr s [] = Some s"
| "run_sink wr s (c # cs) = (case wr s c of None \<Rightarrow> None | Some s' \<Rightarrow> run_sink wr s' cs)"

lemma run_sink_append:
  "run_sink wr s (cs @ ds) = Option.bind (run_sink wr s cs) (\<lambda>s'. run_sink wr s' ds)"
  by (induction cs arbitrary: s) (auto split: option.splits)

text \<open>A stream sink never fails and its observable state absorbs the written bytes, however they
  are cut into chunks.\<close>

locale stream_sink =
  fixes wr :: "'s \<Rightarrow> string \<Rightarrow> 's option"
    and invar :: "'s \<Rightarrow> bool"
    and obs :: "'s \<Rightarrow> 'o"
    and absorb :: "'o \<Rightarrow> string \<Rightarrow> 'o"
  assumes wr_ok: "invar s \<Longrightarrow> \<exists>s'. wr s a = Some s' \<and> invar s' \<and> obs s' = absorb (obs s) a"
    and absorb_nil: "invar s \<Longrightarrow> absorb (obs s) [] = obs s"
    and absorb_append: "absorb (absorb x a) b = absorb x (a @ b)"
begin

lemma run_sink_ok:
  "invar s \<Longrightarrow> \<exists>s'. run_sink wr s cs = Some s' \<and> invar s' \<and> obs s' = absorb (obs s) (concat cs)"
proof (induction cs arbitrary: s)
  case Nil
  then show ?case by (simp add: absorb_nil)
next
  case (Cons c cs)
  obtain s1 where s1: "wr s c = Some s1" "invar s1" "obs s1 = absorb (obs s) c"
    using wr_ok [OF Cons.prems] by blast
  obtain s2 where "run_sink wr s1 cs = Some s2" "invar s2" "obs s2 = absorb (obs s1) (concat cs)"
    using Cons.IH [OF s1(2)] by blast
  with s1 show ?case by (simp add: absorb_append)
qed

lemma chunking_irrelevant:
  assumes "invar s" and "concat cs = concat ds"
    and "run_sink wr s cs = Some s1" and "run_sink wr s ds = Some s2"
  shows "obs s1 = obs s2"
  using run_sink_ok [OF assms(1), of cs] run_sink_ok [OF assms(1), of ds] assms by auto

end

text \<open>A bounded sink keeps the first \<open>cap\<close> bytes of everything written to it.\<close>

locale bounded_sink =
  fixes wr :: "'s \<Rightarrow> string \<Rightarrow> 's option"
    and invar :: "'s \<Rightarrow> bool"
    and view :: "'s \<Rightarrow> string"
    and cap :: "'s \<Rightarrow> nat"
  assumes wr_view: "invar s \<Longrightarrow>
      \<exists>s'. wr s a = Some s' \<and> invar s' \<and> cap s' = cap s \<and> view s' = take (cap s) (view s @ a)"
    and view_le: "invar s \<Longrightarrow> length (view s) \<le> cap s"

sublocale bounded_sink \<subseteq> stream: stream_sink wr invar "\<lambda>s. (cap s, view s)"
    "\<lambda>(c, v) a. (c, take c (v @ a))"
proof (unfold_locales, goal_cases)
  case (1 s a)
  then show ?case using wr_view [OF 1, of a] by auto
next
  case (2 s)
  then show ?case using view_le [OF 2] by simp
next
  case (3 x a b)
  then show ?case by (cases x) (simp add: min_def)
qed

context bounded_sink
begin

lemma run_sink_view:
  assumes "invar s"
  shows "\<exists>s'. run_sink wr s cs = Some s' \<and> invar s' \<and> cap s' = cap s
              \<and> view s' = take (cap s) (view s @ concat cs)"
  using stream.run_sink_ok [OF assms, of cs] by auto

end

section \<open>span_sink\<close>

record span_sink =
  ss_buf :: string
  ss_pos :: nat

definition span_sink_init :: "string \<Rightarrow> span_sink" where
  "span_sink_init buf = \<lparr>ss_buf = buf, ss_pos = 0\<rparr>"

definition span_sink_available :: "span_sink \<Rightarrow> nat" where
  "span_sink_available s =
     (if ss_pos s < length (ss_buf s) then length (ss_buf s) - ss_pos s else 0)"

definition span_sink_write :: "span_sink \<Rightarrow> string \<Rightarrow> span_sink option" where
  "span_sink_write s sv =
     (let avail = (if ss_pos s < length (ss_buf s) then length (ss_buf s) - ss_pos s else 0);
          n = min (length sv) avail
      in if n > 0
         then (case copy_n_to (ss_buf s) (ss_pos s) (take n sv) of
                 None \<Rightarrow> None
               | Some buf \<Rightarrow> Some (s\<lparr>ss_buf := buf, ss_pos := ss_pos s + n\<rparr>))
         else Some s)"

definition span_sink_view :: "span_sink \<Rightarrow> string" where
  "span_sink_view s = take (ss_pos s) (ss_buf s)"

definition span_sink_size :: "span_sink \<Rightarrow> nat" where
  "span_sink_size s = ss_pos s"

definition span_sink_reset :: "span_sink \<Rightarrow> span_sink" where
  "span_sink_reset s = s\<lparr>ss_pos := 0\<rparr>"

definition span_sink_ok :: "span_sink \<Rightarrow> bool" where
  "span_sink_ok s \<longleftrightarrow> ss_pos s \<le> length (ss_buf s)"

text \<open>The arithmetic that every bounded copy shares.\<close>

lemma bounded_copy:
  assumes "pos \<le> cap" and "cap \<le> length mem" and "n = min (length sv) (cap - pos)"
  shows "\<exists>mem'. copy_n_to mem pos (take n sv) = Some mem' \<and> length mem' = length mem
           \<and> take (pos + n) mem' = take cap (take pos mem @ sv)"
proof -
  have le: "pos + length (take n sv) \<le> length mem" using assms by simp
  have "take (cap - pos) sv = take n sv" using assms(3) by (simp add: min_def)
  moreover have "min (length mem) pos = pos" using assms by simp
  ultimately have "take cap (take pos mem @ sv) = take pos mem @ take n sv"
    using assms by (simp add: min_def)
  moreover have "length (take n sv) = n" using assms(3) by simp
  ultimately show ?thesis
    using le by (auto simp: copy_n_to_def min_def)
qed

lemma span_sink_write_ok:
  assumes "span_sink_ok s"
  shows "\<exists>s'. span_sink_write s a = Some s' \<and> span_sink_ok s'
            \<and> length (ss_buf s') = length (ss_buf s)
            \<and> span_sink_view s' = take (length (ss_buf s)) (span_sink_view s @ a)"
proof -
  let ?cap = "length (ss_buf s)"
  define n where "n = min (length a) (?cap - ss_pos s)"
  have pos: "ss_pos s \<le> ?cap" using assms by (simp add: span_sink_ok_def)
  have w: "span_sink_write s a = (if n > 0
         then (case copy_n_to (ss_buf s) (ss_pos s) (take n a) of
                 None \<Rightarrow> None
               | Some buf \<Rightarrow> Some (s\<lparr>ss_buf := buf, ss_pos := ss_pos s + n\<rparr>))
         else Some s)"
    using pos unfolding n_def span_sink_write_def by (auto simp: Let_def)
  obtain mem' where m: "copy_n_to (ss_buf s) (ss_pos s) (take n a) = Some mem'"
      "length mem' = ?cap" "take (ss_pos s + n) mem' = take ?cap (take (ss_pos s) (ss_buf s) @ a)"
    using bounded_copy [OF pos order_refl n_def] by blast
  show ?thesis
  proof (cases "n > 0")
    case True
    then show ?thesis using m pos
      by (auto simp: w span_sink_ok_def span_sink_view_def n_def)
  next
    case False
    then have "?cap \<le> ss_pos s \<or> a = []" by (simp add: n_def) arith
    then show ?thesis using False pos assms by (auto simp: w span_sink_view_def)
  qed
qed

interpretation span: bounded_sink span_sink_write span_sink_ok span_sink_view "\<lambda>s. length (ss_buf s)"
proof (unfold_locales, goal_cases)
  case (1 s a)
  then show ?case using span_sink_write_ok [OF 1, of a] by auto
next
  case (2 s)
  then show ?case by (simp add: span_sink_view_def)
qed


section \<open>buffer_sink\<close>

text \<open>\<^verbatim>\<open>buffer_sink<N>\<close> and its base: \<open>bs_data\<close> is the inline \<^verbatim>\<open>m_storage[N]\<close> that \<^verbatim>\<open>m_data\<close> points
  to, so its length is the template argument.\<close>

record buffer_sink =
  bs_data :: string
  bs_capacity :: nat
  bs_pos :: nat

definition buffer_sink_init :: "nat \<Rightarrow> buffer_sink" where
  "buffer_sink_init n = \<lparr>bs_data = replicate n (CHR 0x00), bs_capacity = n, bs_pos = 0\<rparr>"

definition buffer_sink_write :: "buffer_sink \<Rightarrow> string \<Rightarrow> buffer_sink option" where
  "buffer_sink_write s sv =
     (let avail = (if bs_pos s < bs_capacity s then bs_capacity s - bs_pos s else 0);
          n = min (length sv) avail
      in if n > 0
         then (case copy_n_to (bs_data s) (bs_pos s) (take n sv) of
                 None \<Rightarrow> None
               | Some buf \<Rightarrow> Some (s\<lparr>bs_data := buf, bs_pos := bs_pos s + n\<rparr>))
         else Some s)"

definition buffer_sink_reset :: "buffer_sink \<Rightarrow> buffer_sink" where
  "buffer_sink_reset s = s\<lparr>bs_pos := 0\<rparr>"

definition buffer_sink_view :: "buffer_sink \<Rightarrow> string" where
  "buffer_sink_view s = take (bs_pos s) (bs_data s)"

definition buffer_sink_available :: "nat \<Rightarrow> buffer_sink \<Rightarrow> nat" where
  "buffer_sink_available n s = (if bs_pos s < n then n - bs_pos s else 0)"

text \<open>The copy and move constructors start from zeroed storage and copy the written prefix; the
  assignments keep the target's storage. A move resets the source, which is returned second.\<close>

definition buffer_sink_copy :: "nat \<Rightarrow> buffer_sink \<Rightarrow> buffer_sink option" where
  "buffer_sink_copy n other =
     map_option (\<lambda>d. \<lparr>bs_data = d, bs_capacity = n, bs_pos = bs_pos other\<rparr>)
       (copy_n_to (replicate n (CHR 0x00)) 0 (take (bs_pos other) (bs_data other)))"

definition buffer_sink_move :: "nat \<Rightarrow> buffer_sink \<Rightarrow> (buffer_sink \<times> buffer_sink) option" where
  "buffer_sink_move n other =
     map_option (\<lambda>s. (s, buffer_sink_reset other)) (buffer_sink_copy n other)"

definition buffer_sink_assign :: "buffer_sink \<Rightarrow> buffer_sink \<Rightarrow> buffer_sink option" where
  "buffer_sink_assign self other =
     map_option (\<lambda>d. self\<lparr>bs_pos := bs_pos other, bs_data := d\<rparr>)
       (copy_n_to (bs_data self) 0 (take (bs_pos other) (bs_data other)))"

definition buffer_sink_move_assign ::
    "buffer_sink \<Rightarrow> buffer_sink \<Rightarrow> (buffer_sink \<times> buffer_sink) option" where
  "buffer_sink_move_assign self other =
     map_option (\<lambda>s. (s, buffer_sink_reset other)) (buffer_sink_assign self other)"

definition buffer_sink_ok :: "buffer_sink \<Rightarrow> bool" where
  "buffer_sink_ok s \<longleftrightarrow> bs_pos s \<le> bs_capacity s \<and> bs_capacity s = length (bs_data s)"

lemma buffer_sink_init_ok [simp]: "buffer_sink_ok (buffer_sink_init n)"
  by (simp add: buffer_sink_ok_def buffer_sink_init_def)

lemma buffer_sink_write_ok:
  assumes "buffer_sink_ok s"
  shows "\<exists>s'. buffer_sink_write s a = Some s' \<and> buffer_sink_ok s'
            \<and> bs_capacity s' = bs_capacity s
            \<and> buffer_sink_view s' = take (bs_capacity s) (buffer_sink_view s @ a)"
proof -
  let ?cap = "bs_capacity s"
  define n where "n = min (length a) (?cap - bs_pos s)"
  have pos: "bs_pos s \<le> ?cap" and cap: "?cap \<le> length (bs_data s)"
    using assms by (simp_all add: buffer_sink_ok_def)
  have w: "buffer_sink_write s a = (if n > 0
         then (case copy_n_to (bs_data s) (bs_pos s) (take n a) of
                 None \<Rightarrow> None
               | Some buf \<Rightarrow> Some (s\<lparr>bs_data := buf, bs_pos := bs_pos s + n\<rparr>))
         else Some s)"
    using pos unfolding n_def buffer_sink_write_def by (auto simp: Let_def)
  obtain mem' where m: "copy_n_to (bs_data s) (bs_pos s) (take n a) = Some mem'"
      "length mem' = length (bs_data s)"
      "take (bs_pos s + n) mem' = take ?cap (take (bs_pos s) (bs_data s) @ a)"
    using bounded_copy [OF pos cap n_def] by blast
  show ?thesis
  proof (cases "n > 0")
    case True
    then show ?thesis using m pos assms
      by (auto simp: w buffer_sink_ok_def buffer_sink_view_def n_def)
  next
    case False
    then have "?cap \<le> bs_pos s \<or> a = []" by (simp add: n_def) arith
    then show ?thesis using False pos assms by (auto simp: w buffer_sink_ok_def buffer_sink_view_def)
  qed
qed

interpretation buffer: bounded_sink buffer_sink_write buffer_sink_ok buffer_sink_view bs_capacity
proof (unfold_locales, goal_cases)
  case (1 s a)
  then show ?case using buffer_sink_write_ok [OF 1, of a] by auto
next
  case (2 s)
  then show ?case by (simp add: buffer_sink_view_def buffer_sink_ok_def)
qed

lemma buffer_sink_copy_ok:
  assumes "buffer_sink_ok s" and "bs_capacity s = n"
  shows "\<exists>s'. buffer_sink_copy n s = Some s' \<and> buffer_sink_ok s' \<and> bs_capacity s' = n
              \<and> buffer_sink_view s' = buffer_sink_view s"
  using assms by (simp add: buffer_sink_copy_def buffer_sink_ok_def buffer_sink_view_def copy_n_to_def)

lemma buffer_sink_assign_ok:
  assumes "buffer_sink_ok self" and "buffer_sink_ok other"
    and "bs_capacity other = bs_capacity self"
  shows "\<exists>s'. buffer_sink_assign self other = Some s' \<and> buffer_sink_ok s'
              \<and> bs_capacity s' = bs_capacity self \<and> buffer_sink_view s' = buffer_sink_view other"
  using assms by (simp add: buffer_sink_assign_def buffer_sink_ok_def buffer_sink_view_def copy_n_to_def)

section \<open>iterator_sink\<close>

text \<open>The target of an output iterator is a parameter: \<open>emit\<close> stores one character in it, or throws
  (\<^const>\<open>None\<close>). \<^verbatim>\<open>std::copy\<close> stores one character after the other, and the callback swallows an
  exception: what was stored before it stays.\<close>

fun iterator_sink_write :: "('t \<Rightarrow> char \<Rightarrow> 't option) \<Rightarrow> 't \<Rightarrow> string \<Rightarrow> 't option" where
  "iterator_sink_write emit t [] = Some t"
| "iterator_sink_write emit t (c # cs) =
     (case emit t c of None \<Rightarrow> Some t | Some t' \<Rightarrow> iterator_sink_write emit t' cs)"

definition push_back :: "string \<Rightarrow> char \<Rightarrow> string option" where
  "push_back t c = Some (t @ [c])"

lemma iterator_push_back: "iterator_sink_write push_back t a = Some (t @ a)"
  by (induction a arbitrary: t) (simp_all add: push_back_def)

interpretation back_inserter: stream_sink "iterator_sink_write push_back" "\<lambda>_. True" id "(@)"
  by unfold_locales (simp_all add: iterator_push_back)

section \<open>counting_sink, null_sink, callback_sink\<close>

text \<open>\<^verbatim>\<open>m_count\<close> is a \<^verbatim>\<open>size_t\<close> that is added to without a bound, so it is kept at its width.\<close>

record counting_sink =
  cs_count :: u64

definition counting_sink_init :: counting_sink where
  "counting_sink_init = \<lparr>cs_count = 0\<rparr>"

definition counting_sink_write :: "counting_sink \<Rightarrow> string \<Rightarrow> counting_sink option" where
  "counting_sink_write s sv = Some (s\<lparr>cs_count := cs_count s + of_nat (length sv)\<rparr>)"

definition counting_sink_reset :: "counting_sink \<Rightarrow> counting_sink" where
  "counting_sink_reset s = s\<lparr>cs_count := 0\<rparr>"

interpretation counting: stream_sink counting_sink_write "\<lambda>_. True" cs_count
    "\<lambda>n a. n + of_nat (length a)"
  by unfold_locales (simp_all add: counting_sink_write_def)

definition null_sink_write :: "unit \<Rightarrow> string \<Rightarrow> unit option" where
  "null_sink_write s sv = Some s"

interpretation null: stream_sink null_sink_write "\<lambda>_. True" id "\<lambda>u _. u"
  by unfold_locales (simp_all add: null_sink_write_def)

text \<open>A callback sink hands each view to the wrapped callable, a parameter.\<close>

definition callback_sink_write :: "('c \<Rightarrow> string \<Rightarrow> 'c) \<Rightarrow> 'c \<Rightarrow> string \<Rightarrow> 'c option" where
  "callback_sink_write fn c sv = Some (fn c sv)"

lemma callback_sink_calls: "run_sink (callback_sink_write fn) c cs = Some (foldl fn c cs)"
  by (induction cs arbitrary: c) (simp_all add: callback_sink_write_def)

section \<open>c_string_sink\<close>

record c_string_sink =
  cz_data :: string
  cz_max_payload :: nat
  cz_pos :: nat

definition c_string_sink_init :: "nat \<Rightarrow> c_string_sink option" where
  "c_string_sink_init n =
     map_option (\<lambda>d. \<lparr>cz_data = d, cz_max_payload = n - 1, cz_pos = 0\<rparr>)
       (store_at (replicate n (CHR 0x00)) 0 (CHR 0x00))"

definition c_string_sink_write :: "c_string_sink \<Rightarrow> string \<Rightarrow> c_string_sink option" where
  "c_string_sink_write s sv =
     (let avail = (if cz_pos s < cz_max_payload s then cz_max_payload s - cz_pos s else 0);
          n = min (length sv) avail
      in if n > 0
         then (case copy_n_to (cz_data s) (cz_pos s) (take n sv) of
                 None \<Rightarrow> None
               | Some d \<Rightarrow>
                   (let pos = cz_pos s + n
                    in case store_at d pos (CHR 0x00) of
                         None \<Rightarrow> None
                       | Some d' \<Rightarrow> Some (s\<lparr>cz_data := d', cz_pos := pos\<rparr>)))
         else Some s)"

definition c_string_sink_reset :: "c_string_sink \<Rightarrow> c_string_sink option" where
  "c_string_sink_reset s =
     map_option (\<lambda>d. s\<lparr>cz_pos := 0, cz_data := d\<rparr>) (store_at (cz_data s) 0 (CHR 0x00))"

definition c_string_sink_view :: "c_string_sink \<Rightarrow> string" where
  "c_string_sink_view s = take (cz_pos s) (cz_data s)"

text \<open>What a reader of \<^verbatim>\<open>c_str()\<close> sees: the bytes before the first NUL, \<^const>\<open>None\<close> when there is
  none in the storage.\<close>

definition c_string_sink_c_str :: "c_string_sink \<Rightarrow> string option" where
  "c_string_sink_c_str s =
     (if CHR 0x00 \<in> set (cz_data s) then Some (takeWhile (\<lambda>c. c \<noteq> CHR 0x00) (cz_data s)) else None)"

definition c_string_sink_max_size :: "nat \<Rightarrow> nat" where
  "c_string_sink_max_size n = n - 1"

text \<open>The copying part that the two constructors and the two assignments share: the written bytes,
  then the terminator behind them.\<close>

definition c_string_copy_bytes :: "string \<Rightarrow> c_string_sink \<Rightarrow> string option" where
  "c_string_copy_bytes target other =
     Option.bind (copy_n_to target 0 (take (cz_pos other) (cz_data other)))
       (\<lambda>d. store_at d (cz_pos other) (CHR 0x00))"

text \<open>The copy and move constructors hand \<open>N\<close>, not \<open>N - 1\<close>, to the base as the maximal payload.\<close>

definition c_string_sink_copy :: "nat \<Rightarrow> c_string_sink \<Rightarrow> c_string_sink option" where
  "c_string_sink_copy n other =
     map_option (\<lambda>d. \<lparr>cz_data = d, cz_max_payload = n, cz_pos = cz_pos other\<rparr>)
       (c_string_copy_bytes (replicate n (CHR 0x00)) other)"

definition c_string_sink_move :: "nat \<Rightarrow> c_string_sink \<Rightarrow> (c_string_sink \<times> c_string_sink) option" where
  "c_string_sink_move n other =
     Option.bind (c_string_sink_copy n other)
       (\<lambda>s. map_option (\<lambda>o'. (s, o')) (c_string_sink_reset other))"

definition c_string_sink_assign :: "c_string_sink \<Rightarrow> c_string_sink \<Rightarrow> c_string_sink option" where
  "c_string_sink_assign self other =
     map_option (\<lambda>d. self\<lparr>cz_pos := cz_pos other, cz_data := d\<rparr>)
       (c_string_copy_bytes (cz_data self) other)"

definition c_string_sink_move_assign ::
    "c_string_sink \<Rightarrow> c_string_sink \<Rightarrow> (c_string_sink \<times> c_string_sink) option" where
  "c_string_sink_move_assign self other =
     Option.bind (c_string_sink_assign self other)
       (\<lambda>s. map_option (\<lambda>o'. (s, o')) (c_string_sink_reset other))"

text \<open>Invariant: room for the terminator behind the payload, and the terminator in place.\<close>

definition c_string_sink_ok :: "c_string_sink \<Rightarrow> bool" where
  "c_string_sink_ok s \<longleftrightarrow> cz_max_payload s < length (cz_data s) \<and> cz_pos s \<le> cz_max_payload s
     \<and> cz_data s ! cz_pos s = CHR 0x00"

lemma c_string_sink_init_ok:
  "0 < n \<Longrightarrow> \<exists>s. c_string_sink_init n = Some s \<and> c_string_sink_ok s \<and> cz_max_payload s = n - 1
     \<and> c_string_sink_view s = []"
  by (cases n) (auto simp: c_string_sink_init_def store_at_def c_string_sink_ok_def c_string_sink_view_def)

lemma c_string_sink_write_ok:
  assumes "c_string_sink_ok s"
  shows "\<exists>s'. c_string_sink_write s a = Some s' \<and> c_string_sink_ok s'
            \<and> cz_max_payload s' = cz_max_payload s
            \<and> c_string_sink_view s' = take (cz_max_payload s) (c_string_sink_view s @ a)"
proof -
  let ?cap = "cz_max_payload s"
  define n where "n = min (length a) (?cap - cz_pos s)"
  have pos: "cz_pos s \<le> ?cap" and cap: "?cap < length (cz_data s)"
    using assms by (simp_all add: c_string_sink_ok_def)
  have w: "c_string_sink_write s a = (if n > 0
         then (case copy_n_to (cz_data s) (cz_pos s) (take n a) of
                 None \<Rightarrow> None
               | Some d \<Rightarrow> (case store_at d (cz_pos s + n) (CHR 0x00) of
                         None \<Rightarrow> None
                       | Some d' \<Rightarrow> Some (s\<lparr>cz_data := d', cz_pos := cz_pos s + n\<rparr>)))
         else Some s)"
    using pos unfolding n_def c_string_sink_write_def Let_def by auto
  obtain mem' where m: "copy_n_to (cz_data s) (cz_pos s) (take n a) = Some mem'"
      "length mem' = length (cz_data s)"
      "take (cz_pos s + n) mem' = take ?cap (take (cz_pos s) (cz_data s) @ a)"
    using bounded_copy [OF pos less_imp_le [OF cap] n_def] by blast
  have lim: "cz_pos s + n \<le> ?cap" using pos by (simp add: n_def)
  show ?thesis
  proof (cases "n > 0")
    case True
    then show ?thesis using m lim cap
      by (auto simp: w c_string_sink_ok_def c_string_sink_view_def store_at_def)
  next
    case False
    then have "?cap \<le> cz_pos s \<or> a = []" by (simp add: n_def) arith
    then show ?thesis using False pos cap assms
      by (auto simp: w c_string_sink_ok_def c_string_sink_view_def)
  qed
qed

interpretation c_string: bounded_sink c_string_sink_write c_string_sink_ok c_string_sink_view cz_max_payload
proof (unfold_locales, goal_cases)
  case (1 s a)
  then show ?case using c_string_sink_write_ok [OF 1, of a] by auto
next
  case (2 s)
  then show ?case by (simp add: c_string_sink_view_def c_string_sink_ok_def)
qed

lemma takeWhile_nth_stop:
  "i < length xs \<Longrightarrow> \<not> P (xs ! i) \<Longrightarrow> \<forall>x \<in> set (take i xs). P x \<Longrightarrow> takeWhile P xs = take i xs"
proof (induction xs arbitrary: i)
  case (Cons x xs)
  then show ?case by (cases i) auto
qed simp

lemma c_string_sink_c_str_view:
  assumes "c_string_sink_ok s" and "CHR 0x00 \<notin> set (c_string_sink_view s)"
  shows "c_string_sink_c_str s = Some (c_string_sink_view s)"
proof -
  have i: "cz_pos s < length (cz_data s)" "cz_data s ! cz_pos s = CHR 0x00"
    using assms by (simp_all add: c_string_sink_ok_def)
  have "takeWhile (\<lambda>c. c \<noteq> CHR 0x00) (cz_data s) = take (cz_pos s) (cz_data s)"
    using i assms(2) by (intro takeWhile_nth_stop) (auto simp: c_string_sink_view_def)
  then show ?thesis
    using i nth_mem [OF i(1)] by (auto simp: c_string_sink_c_str_def c_string_sink_view_def)
qed

lemma c_string_copy_bytes_ok:
  assumes "c_string_sink_ok other" and "length target = length (cz_data other)"
  shows "\<exists>d. c_string_copy_bytes target other = Some d \<and> length d = length target
             \<and> take (cz_pos other) d = c_string_sink_view other \<and> d ! cz_pos other = CHR 0x00"
  using assms
  by (auto simp: c_string_copy_bytes_def c_string_sink_ok_def c_string_sink_view_def
        copy_n_to_def store_at_def nth_append min_def)

section \<open>Properties\<close>

text \<open>formatting into a fresh \<^verbatim>\<open>buffer_sink<N>\<close> never stores outside its storage and keeps
  exactly the first \<open>N\<close> bytes of the output, however the formatter cuts it into writes.\<close>

theorem buffer_sink_truncates:
  "\<exists>s. run_sink buffer_sink_write (buffer_sink_init n) cs = Some s \<and> buffer_sink_ok s
       \<and> buffer_sink_view s = take n (concat cs) \<and> buffer_sink_available n s = n - length (concat cs)"
proof -
  have init: "bs_capacity (buffer_sink_init n) = n" "buffer_sink_view (buffer_sink_init n) = []"
    by (simp_all add: buffer_sink_init_def buffer_sink_view_def)
  obtain s where s: "run_sink buffer_sink_write (buffer_sink_init n) cs = Some s"
      "buffer_sink_ok s" "bs_capacity s = n" "buffer_sink_view s = take n (concat cs)"
    using buffer.run_sink_view [OF buffer_sink_init_ok, of n cs] init by auto
  have "length (buffer_sink_view s) = bs_pos s"
    using s(2,3) by (simp add: buffer_sink_ok_def buffer_sink_view_def)
  then have "bs_pos s = min n (length (concat cs))" using s(4) by simp
  then show ?thesis using s by (auto simp: buffer_sink_available_def)
qed

text \<open>formatting into a fresh \<^verbatim>\<open>c_string_sink<N>\<close> never stores outside its storage, keeps the first
  \<open>N - 1\<close> bytes, and \<^verbatim>\<open>c_str()\<close> reads back exactly those bytes when none of them is NUL.\<close>

theorem c_string_sink_null_terminated:
  assumes "0 < n" and "CHR 0x00 \<notin> set (take (n - 1) (concat cs))"
  shows "\<exists>s0 s. c_string_sink_init n = Some s0 \<and> run_sink c_string_sink_write s0 cs = Some s
       \<and> c_string_sink_view s = take (n - 1) (concat cs)
       \<and> c_string_sink_c_str s = Some (take (c_string_sink_max_size n) (concat cs))"
proof -
  obtain s0 where s0: "c_string_sink_init n = Some s0" "c_string_sink_ok s0"
      "cz_max_payload s0 = n - 1" "c_string_sink_view s0 = []"
    using c_string_sink_init_ok [OF assms(1)] by blast
  obtain s where s: "run_sink c_string_sink_write s0 cs = Some s" "c_string_sink_ok s"
      "c_string_sink_view s = take (n - 1) (concat cs)"
    using c_string.run_sink_view [OF s0(2), of cs] s0 by auto
  then have "c_string_sink_c_str s = Some (take (n - 1) (concat cs))"
    using c_string_sink_c_str_view [OF s(2)] assms(2) by simp
  then show ?thesis using s0(1) s by (auto simp: c_string_sink_max_size_def)
qed

theorem c_string_sink_null_terminated_witness:
  "\<exists>s0 s. c_string_sink_init 4 = Some s0
     \<and> run_sink c_string_sink_write s0 [''ab'', ''cdef''] = Some s
     \<and> c_string_sink_view s = ''abc'' \<and> c_string_sink_c_str s = Some ''abc''"
  using c_string_sink_null_terminated [of 4 "[''ab'', ''cdef'']"]
  by (simp add: c_string_sink_max_size_def)

text \<open>a copy-constructed \<^verbatim>\<open>c_string_sink<N>\<close> takes \<open>N\<close> for its maximal payload, so a write that
  fills it stores the terminator one past the end of its \<open>N\<close> bytes of storage.\<close>

theorem c_string_sink_copy_overflows:
  assumes "c_string_sink_ok s" and "length (cz_data s) = n" and "n - cz_pos s \<le> length sv"
  shows "\<exists>s'. c_string_sink_copy n s = Some s' \<and> c_string_sink_view s' = c_string_sink_view s
              \<and> c_string_sink_write s' sv = None"
proof -
  have pos: "cz_pos s < n" using assms by (simp add: c_string_sink_ok_def)
  obtain d where d: "c_string_copy_bytes (replicate n (CHR 0x00)) s = Some d" "length d = n"
      "take (cz_pos s) d = c_string_sink_view s"
    using c_string_copy_bytes_ok [OF assms(1), of "replicate n (CHR 0x00)"] assms(2) by auto
  let ?s = "\<lparr>cz_data = d, cz_max_payload = n, cz_pos = cz_pos s\<rparr>"
  have "min (length sv) (n - cz_pos s) = n - cz_pos s" using assms(3) by simp
  moreover have "sv \<noteq> []" using pos assms(3) by auto
  ultimately have "c_string_sink_write ?s sv = None"
    using pos d(2) assms(3) by (simp add: c_string_sink_write_def copy_n_to_def store_at_def Let_def)
  then show ?thesis
    using d by (simp add: c_string_sink_copy_def c_string_sink_view_def)
qed

theorem c_string_sink_copy_overflows_witness:
  "\<exists>s'. c_string_sink_copy 4 \<lparr>cz_data = [CHR ''a'', CHR 0x00, CHR 0x00, CHR 0x00],
                                cz_max_payload = 3, cz_pos = 1\<rparr> = Some s'
        \<and> c_string_sink_write s' ''bcd'' = None"
  using c_string_sink_copy_overflows
    [of "\<lparr>cz_data = [CHR ''a'', CHR 0x00, CHR 0x00, CHR 0x00], cz_max_payload = 3, cz_pos = 1\<rparr>" 4 "''bcd''"]
  by (auto simp: c_string_sink_ok_def)

end
