(* ===== verification/Format_Engine.thy ===== *)
theory Format_Engine
  imports Text_Format Sinks
begin

text \<open>
  The format string engine: positional indices, the runtime interpreter \<^verbatim>\<open>vformat_to\<close>
  (\<^verbatim>\<open>microfmt.ipp\<close>), and the compile-time path \<^verbatim>\<open>compile_format_string\<close> / \<^verbatim>\<open>emit_piece_by_index\<close> /
  \<^verbatim>\<open>unrolled_format_impl\<close> (\<^verbatim>\<open>microfmt.hpp\<close>). The position in the format string is the text that is left.
  Argument formatters are a parameter of the engine, the way the thunk table is in the code;
  \<open>format_type_thunk\<close> is the table for the built-in types.
\<close>

section \<open>Fields\<close>

definition max_size :: nat where
  "max_size = 2 ^ 64 - 1"

fun positional_digits :: "nat \<Rightarrow> string \<Rightarrow> nat option" where
  "positional_digits value [] = Some value"
| "positional_digits value (c # cs) =
     (if \<not> is_dec_digit c then None
      else (let digit = code c - 48
            in positional_digits (if value > (max_size - digit) div 10 then max_size else value * 10 + digit) cs))"

definition parse_positional_index :: "string \<Rightarrow> nat option" where
  "parse_positional_index s = (if s = [] then None else positional_digits 0 s)"

text \<open>The two halves of a replacement field, before and after the first colon.\<close>

definition field_index :: "string \<Rightarrow> string" where
  "field_index replacement = takeWhile (\<lambda>c. c \<noteq> CHR '':'') replacement"

definition field_spec :: "string \<Rightarrow> string" where
  "field_spec replacement = drop (length (field_index replacement) + 1) replacement"

text \<open>The argument a field selects and the next automatic index.\<close>

definition field_select :: "nat \<Rightarrow> string \<Rightarrow> nat \<times> nat" where
  "field_select arg_idx replacement =
     (case parse_positional_index (field_index replacement) of
        Some i \<Rightarrow> (i, arg_idx)
      | None \<Rightarrow> (arg_idx, arg_idx + 1))"

section \<open>vformat_to\<close>

type_synonym 'v format_fn = "'v \<Rightarrow> string \<Rightarrow> chunks option"

definition emit_field :: "'v option list \<Rightarrow> 'v format_fn option list \<Rightarrow> nat \<Rightarrow> string \<Rightarrow> chunks option" where
  "emit_field arg_ptrs arg_fns selected spec =
     (if selected < length arg_ptrs \<and> selected < length arg_fns
      then (case (arg_fns ! selected, arg_ptrs ! selected) of
              (Some fn, Some ptr) \<Rightarrow> fn ptr spec
            | _ \<Rightarrow> Some [])
      else Some (out_write ''{MISSING}''))"

text \<open>The text up to the closing brace of a field, and what follows it.\<close>

abbreviation field_body :: "string \<Rightarrow> string" where
  "field_body s \<equiv> takeWhile (\<lambda>c. c \<noteq> CHR ''}'') s"

abbreviation field_rest :: "string \<Rightarrow> string" where
  "field_rest s \<equiv> drop (Suc (length (field_body s))) s"

abbreviation field_closed :: "string \<Rightarrow> bool" where
  "field_closed s \<equiv> length (field_body s) < length s"

function vformat_loop :: "'v option list \<Rightarrow> 'v format_fn option list \<Rightarrow> nat \<Rightarrow> string \<Rightarrow> chunks option" where
  "vformat_loop ptrs fns arg_idx fmt =
     (case fmt of
        [] \<Rightarrow> Some []
      | c # rest \<Rightarrow>
          (if c = CHR ''{'' \<and> rest \<noteq> [] \<and> hd rest = CHR ''{''
           then seq_chunks (Some (put (CHR ''{''))) (vformat_loop ptrs fns arg_idx (tl rest))
           else if c = CHR ''{'' \<and> field_closed rest
           then (let (selected, arg_idx') = field_select arg_idx (field_body rest)
                 in seq_chunks (emit_field ptrs fns selected (field_spec (field_body rest)))
                      (vformat_loop ptrs fns arg_idx' (field_rest rest)))
           else if c = CHR ''}'' \<and> rest \<noteq> [] \<and> hd rest = CHR ''}''
           then seq_chunks (Some (put (CHR ''}''))) (vformat_loop ptrs fns arg_idx (tl rest))
           else seq_chunks (Some (put c)) (vformat_loop ptrs fns arg_idx rest)))"
  by pat_completeness auto
termination
  by (relation "measure (\<lambda>(ptrs, fns, k, fmt). length fmt)") auto

declare vformat_loop.simps [simp del]

definition vformat_to :: "string \<Rightarrow> 'v option list \<Rightarrow> 'v format_fn option list \<Rightarrow> chunks option" where
  "vformat_to fmt ptrs fns = vformat_loop ptrs fns 0 fmt"

section \<open>Built-in arguments\<close>

datatype fmt_arg =
    A_int bool u64
  | A_string_view string
  | A_const_char "string option"
  | A_char char
  | A_bool bool
  | A_pointer u64
  | A_nullptr

text \<open>The formatter of the argument's type is default constructed, parses the spec and formats.\<close>

fun format_type_thunk :: "fmt_arg \<Rightarrow> string \<Rightarrow> chunks option" where
  "format_type_thunk (A_int sg v) spec =
     format_int_impl sg (int_specs_parse int_formatter_specs_init spec) v"
| "format_type_thunk (A_string_view s) spec = format_string_view spec s"
| "format_type_thunk (A_const_char s) spec = format_const_char spec s"
| "format_type_thunk (A_char c) spec = format_char spec c"
| "format_type_thunk (A_bool b) spec = format_bool b"
| "format_type_thunk (A_pointer p) spec = format_pointer spec p"
| "format_type_thunk A_nullptr spec = format_nullptr"

text \<open>\<^verbatim>\<open>format_to(out, fmt, args...)\<close> with the thunk table, and \<^verbatim>\<open>format<N>\<close>, which runs it on a fresh
  \<^verbatim>\<open>buffer_sink<N>\<close>.\<close>

definition format_to :: "'v format_fn \<Rightarrow> string \<Rightarrow> 'v list \<Rightarrow> chunks option" where
  "format_to thunk fmt args = vformat_to fmt (map Some args) (replicate (length args) (Some thunk))"

definition format_N :: "nat \<Rightarrow> 'v format_fn \<Rightarrow> string \<Rightarrow> 'v list \<Rightarrow> buffer_sink option" where
  "format_N n thunk fmt args =
     Option.bind (format_to thunk fmt args) (run_sink buffer_sink_write (buffer_sink_init n))"

section \<open>Compile-time format strings\<close>

record compiled_piece =
  literal :: string
  spec :: string
  arg_index :: nat
  is_arg :: bool

definition literal_piece :: "string \<Rightarrow> compiled_piece" where
  "literal_piece s = \<lparr>literal = s, spec = [], arg_index = 0, is_arg = False\<rparr>"

definition arg_piece :: "string \<Rightarrow> nat \<Rightarrow> compiled_piece" where
  "arg_piece sp i = \<lparr>literal = [], spec = sp, arg_index = i, is_arg = True\<rparr>"

text \<open>The text between \<^verbatim>\<open>lit_start\<close> and the position is the pending literal; it becomes a piece when
  it is not empty.\<close>

definition flush_literal :: "string \<Rightarrow> compiled_piece list" where
  "flush_literal lit = (if lit \<noteq> [] then [literal_piece lit] else [])"

function compile_loop :: "nat \<Rightarrow> string \<Rightarrow> string \<Rightarrow> compiled_piece list" where
  "compile_loop arg_idx lit str =
     (case str of
        [] \<Rightarrow> flush_literal lit
      | c # rest \<Rightarrow>
          (if c = CHR ''{''
           then (if rest \<noteq> [] \<and> hd rest = CHR ''{''
                 then flush_literal lit @ [literal_piece ''{''] @ compile_loop arg_idx [] (tl rest)
                 else (let (selected, arg_idx') = field_select arg_idx (field_body rest)
                       in flush_literal lit @ [arg_piece (field_spec (field_body rest)) selected]
                          @ compile_loop arg_idx' [] (field_rest rest)))
           else if c = CHR ''}'' \<and> rest \<noteq> [] \<and> hd rest = CHR ''}''
           then flush_literal lit @ [literal_piece ''}''] @ compile_loop arg_idx [] (tl rest)
           else compile_loop arg_idx (lit @ [c]) rest))"
  by pat_completeness auto
termination
  by (relation "measure (\<lambda>(k, lit, str). length str)") auto

declare compile_loop.simps [simp del]

text \<open>\<^verbatim>\<open>compile_format_string<MaxPieces>\<close>: \<^const>\<open>None\<close> when the pieces do not fit the array.\<close>

definition compile_format_string :: "nat \<Rightarrow> string \<Rightarrow> compiled_piece list option" where
  "compile_format_string max_pieces str =
     (let ps = compile_loop 0 [] str in if length ps \<le> max_pieces then Some ps else None)"

text \<open>\<^const>\<open>None\<close> for an argument index out of range: \<^verbatim>\<open>std::get\<close> then does not compile.\<close>

definition emit_piece_by_index :: "'v format_fn \<Rightarrow> 'v list \<Rightarrow> compiled_piece \<Rightarrow> chunks option" where
  "emit_piece_by_index thunk args piece =
     (if \<not> is_arg piece then Some (out_write (literal piece))
      else if arg_index piece < length args then thunk (args ! arg_index piece) (spec piece)
      else None)"

definition unrolled_format_impl :: "'v format_fn \<Rightarrow> 'v list \<Rightarrow> compiled_piece list \<Rightarrow> chunks option" where
  "unrolled_format_impl thunk args pieces = emit_each (emit_piece_by_index thunk args) pieces"

definition format_to_compiled :: "'v format_fn \<Rightarrow> string \<Rightarrow> 'v list \<Rightarrow> chunks option" where
  "format_to_compiled thunk fmt args =
     Option.bind (compile_format_string (length fmt + 1) fmt) (unrolled_format_impl thunk args)"

section \<open>Unfolding lemmas\<close>

lemma vformat_loop_Nil [simp]: "vformat_loop ptrs fns k [] = Some []"
  by (subst vformat_loop.simps) simp

lemma compile_loop_Nil [simp]: "compile_loop k lit [] = flush_literal lit"
  by (subst compile_loop.simps) simp

lemmas vformat_loop_Cons = vformat_loop.simps [of _ _ _ "c # rest", simplified list.case] for c rest
lemmas compile_loop_Cons = compile_loop.simps [of _ _ "c # rest", simplified list.case] for c rest

lemma text_of_seq:
  "text_of (seq_chunks a b) = Option.bind (text_of a) (\<lambda>x. map_option (\<lambda>y. x @ y) (text_of b))"
  by (cases a; cases b) (simp_all add: text_of_def)

lemma text_of_Some [simp]: "text_of (Some ch) = Some (concat ch)"
  by (simp add: text_of_def)

lemma bind_map_option_append:
  "Option.bind (map_option (\<lambda>y. x @ y) a) f = Option.bind a (\<lambda>y. f (x @ y))"
  by (cases a) simp_all

section \<open>Positional indices\<close>

lemma positional_step:
  assumes "digit < 10"
  shows "(if value > (max_size - digit) div 10 then max_size else value * 10 + digit)
           = min max_size (value * 10 + digit)"
proof -
  have "max_size - digit + digit = max_size" using assms by (simp add: max_size_def)
  moreover have "value > (max_size - digit) div 10 \<longleftrightarrow> max_size - digit < value * 10"
    by (simp add: div_less_iff_less_mult)
  ultimately show ?thesis by (auto simp: min_def)
qed

lemma positional_digits_value:
  "value \<le> max_size \<Longrightarrow>
   positional_digits value s = (if \<forall>c \<in> set s. is_dec_digit c then Some (min max_size (dec_fold value s)) else None)"
proof (induction s arbitrary: "value")
  case (Cons c cs)
  show ?case
  proof (cases "is_dec_digit c")
    case True
    then have "code c - 48 < 10" by (auto simp: is_dec_digit_def)
    from positional_step [OF this, of "value"] True Cons.IH [of "min max_size (value * 10 + (code c - 48))"]
    show ?thesis by (simp add: Let_def dec_fold_saturate)
  qed simp
qed (simp add: min_def)

section \<open>The unrolled path computes what the interpreter computes\<close>

text \<open>Every opening brace that starts a field has a closing one.\<close>

function fields_closed :: "string \<Rightarrow> bool" where
  "fields_closed fmt =
     (case fmt of
        [] \<Rightarrow> True
      | c # rest \<Rightarrow>
          (if c = CHR ''{''
           then (if rest \<noteq> [] \<and> hd rest = CHR ''{'' then fields_closed (tl rest)
                 else field_closed rest \<and> fields_closed (field_rest rest))
           else if c = CHR ''}'' \<and> rest \<noteq> [] \<and> hd rest = CHR ''}'' then fields_closed (tl rest)
           else fields_closed rest))"
  by pat_completeness auto
termination by (relation "measure length") auto

declare fields_closed.simps [simp del]

lemma fields_closed_Nil [simp]: "fields_closed []"
  by (subst fields_closed.simps) simp

lemmas fields_closed_Cons = fields_closed.simps [of "c # rest", simplified list.case] for c rest

definition indices_below :: "nat \<Rightarrow> compiled_piece list \<Rightarrow> bool" where
  "indices_below n ps \<longleftrightarrow> (\<forall>p \<in> set ps. is_arg p \<longrightarrow> arg_index p < n)"

lemma indices_below_simps [simp]:
  "indices_below n []"
  "indices_below n (p # ps) \<longleftrightarrow> (is_arg p \<longrightarrow> arg_index p < n) \<and> indices_below n ps"
  "indices_below n (ps @ qs) \<longleftrightarrow> indices_below n ps \<and> indices_below n qs"
  by (auto simp: indices_below_def)

lemma unrolled_append:
  "unrolled_format_impl th args (ps @ qs) =
     seq_chunks (unrolled_format_impl th args ps) (unrolled_format_impl th args qs)"
  by (simp add: unrolled_format_impl_def emit_each_append)

lemma unrolled_single:
  "unrolled_format_impl th args (p # ps) =
     seq_chunks (emit_piece_by_index th args p) (unrolled_format_impl th args ps)"
  by (simp add: unrolled_format_impl_def)

lemma unrolled_Nil [simp]: "unrolled_format_impl th args [] = Some []"
  by (simp add: unrolled_format_impl_def)

lemma emit_literal [simp]: "emit_piece_by_index th args (literal_piece s) = Some [s]"
  by (simp add: emit_piece_by_index_def literal_piece_def)

lemma unrolled_flush: "\<exists>ch. unrolled_format_impl th args (flush_literal lit) = Some ch \<and> concat ch = lit"
  by (simp add: flush_literal_def unrolled_single)

lemma emit_field_arg:
  assumes "i < length args"
  shows "emit_field (map Some args) (replicate (length args) (Some th)) i sp = th (args ! i) sp"
    and "emit_piece_by_index th args (arg_piece sp i) = th (args ! i) sp"
  using assms by (simp_all add: emit_field_def emit_piece_by_index_def arg_piece_def)

lemma flush_literal_no_arg [simp]: "indices_below n (flush_literal lit)"
  by (simp add: flush_literal_def literal_piece_def)

lemma compiled_agrees:
  "fields_closed fmt \<Longrightarrow> indices_below (length args) (compile_loop k lit fmt) \<Longrightarrow>
   text_of (unrolled_format_impl th args (compile_loop k lit fmt)) =
     map_option (\<lambda>y. lit @ y)
       (text_of (vformat_loop (map Some args) (replicate (length args) (Some th)) k fmt))"
proof (induction k lit fmt rule: compile_loop.induct)
  case (1 k lit fmt)
  let ?un = "unrolled_format_impl th args"
  let ?vf = "vformat_loop (map Some args) (replicate (length args) (Some th))"
  obtain fl where fl: "?un (flush_literal lit) = Some fl" "concat fl = lit"
    using unrolled_flush by blast
  have lits: "text_of (?un (flush_literal lit @ [literal_piece s] @ ps)) =
      map_option (\<lambda>y. lit @ s @ y) (text_of (?un ps))" for s ps
    by (simp add: unrolled_append unrolled_single text_of_seq fl option.map_comp comp_def)
  show ?case
  proof (cases fmt)
    case Nil
    then show ?thesis using fl by simp
  next
    case (Cons c rest)
    note closed = "1.prems"(1) [unfolded Cons fields_closed.simps [of "c # rest"], simplified]
    note below = "1.prems"(2) [unfolded Cons compile_loop.simps [of k lit "c # rest"], simplified]
    consider (lbrace) "c = CHR ''{''" "rest \<noteq> []" "hd rest = CHR ''{''"
      | (field) "c = CHR ''{''" "\<not> (rest \<noteq> [] \<and> hd rest = CHR ''{'')"
      | (rbrace) "c = CHR ''}''" "rest \<noteq> []" "hd rest = CHR ''}''"
      | (other) "c \<noteq> CHR ''{''" "\<not> (c = CHR ''}'' \<and> rest \<noteq> [] \<and> hd rest = CHR ''}'')"
      by blast
    then show ?thesis
    proof cases
      case lbrace
      then have "text_of (?un (compile_loop k [] (tl rest))) = text_of (?vf k (tl rest))"
        using "1.IH"(1) [OF Cons] closed below by (simp add: option.map_ident)
      then show ?thesis using lbrace
        by (simp add: Cons compile_loop_Cons vformat_loop_Cons
            lits [of "''{''", simplified] text_of_seq option.map_comp comp_def)
    next
      case rbrace
      then have "text_of (?un (compile_loop k [] (tl rest))) = text_of (?vf k (tl rest))"
        using "1.IH"(3) [OF Cons] closed below by (simp add: option.map_ident)
      then show ?thesis using rbrace
        by (simp add: Cons compile_loop_Cons vformat_loop_Cons
            lits [of "''}''", simplified] text_of_seq option.map_comp comp_def)
    next
      case other
      then have "text_of (?un (compile_loop k (lit @ [c]) rest))
          = map_option (\<lambda>y. (lit @ [c]) @ y) (text_of (?vf k rest))"
        using "1.IH"(4) [OF Cons] closed below by auto
      then show ?thesis using other
        by (auto simp: Cons compile_loop_Cons vformat_loop_Cons
            text_of_seq option.map_comp comp_def)
    next
      case field
      obtain i k' where sel: "field_select k (field_body rest) = (i, k')" by fastforce
      let ?sp = "field_spec (field_body rest)"
      have cl: "field_closed rest" "fields_closed (field_rest rest)"
        using field closed by auto
      have bl: "i < length args" "indices_below (length args) (compile_loop k' [] (field_rest rest))"
        using field below sel by (auto simp: arg_piece_def)
      have "text_of (?un (compile_loop k' [] (field_rest rest))) = text_of (?vf k' (field_rest rest))"
        using "1.IH"(2) [OF Cons _ _ sel [symmetric] refl] field cl bl by (simp add: option.map_ident)
      then show ?thesis using field cl sel bl(1)
        by (auto simp: Cons compile_loop_Cons vformat_loop_Cons
            unrolled_append unrolled_single emit_field_arg text_of_seq fl bind_map_option_append
            option.map_comp comp_def split: option.splits)
    qed
  qed
qed


section \<open>Size of the piece table\<close>

lemma flush_literal_length: "length (flush_literal lit) \<le> length lit"
  by (cases lit) (simp_all add: flush_literal_def)

lemma compile_loop_length: "length (compile_loop k lit str) \<le> length lit + length str"
proof (induction k lit str rule: compile_loop.induct)
  case (1 k lit str)
  show ?case
  proof (cases str)
    case Nil
    then show ?thesis by (simp add: flush_literal_length)
  next
    case (Cons c rest)
    obtain i k' where sel: "field_select k (field_body rest) = (i, k')" by fastforce
    have tl: "rest \<noteq> [] \<Longrightarrow> Suc (length (tl rest)) = length rest" by (cases rest) simp_all
    have fl: "length (flush_literal lit) \<le> length lit" by (rule flush_literal_length)
    show ?thesis
    proof (cases "c = CHR ''{''")
      case True
      show ?thesis
      proof (cases "rest \<noteq> [] \<and> hd rest = CHR ''{''")
        case dbl: True
        then show ?thesis using "1.IH"(1) [OF Cons True dbl] fl tl True
          by (simp add: Cons compile_loop_Cons)
      next
        case False
        then have "length (compile_loop k' [] (field_rest rest)) \<le> length (field_rest rest)"
          using "1.IH"(2) [OF Cons True False sel [symmetric] refl] by simp
        then show ?thesis using False True fl sel by (auto simp: Cons compile_loop_Cons)
      qed
    next
      case nb: False
      show ?thesis
      proof (cases "c = CHR ''}'' \<and> rest \<noteq> [] \<and> hd rest = CHR ''}''")
        case True
        then show ?thesis using "1.IH"(3) [OF Cons nb True] fl tl by (auto simp: Cons compile_loop_Cons)
      next
        case False
        have "length (compile_loop k (lit @ [c]) rest) \<le> length lit + Suc (length rest)"
          using "1.IH"(4) [OF Cons nb False] by simp
        moreover have "compile_loop k lit (c # rest) = compile_loop k (lit @ [c]) rest"
          using nb False by (subst compile_loop_Cons) auto
        ultimately show ?thesis by (simp add: Cons)
      qed
    qed
  qed
qed

section \<open>Properties\<close>

text \<open>C2: the compile-time unrolled path of \<^verbatim>\<open>MICROFMT_STRING\<close> and the runtime interpreter
  \<^verbatim>\<open>vformat_to\<close> produce the same text, for every argument formatter, whenever every field is closed and
  every argument index is in range.\<close>

theorem compiled_format_equals_runtime:
  assumes "fields_closed fmt" and "indices_below (length args) (compile_loop 0 [] fmt)"
  shows "text_of (format_to_compiled thunk fmt args) = text_of (format_to thunk fmt args)"
proof -
  have "compile_format_string (length fmt + 1) fmt = Some (compile_loop 0 [] fmt)"
    using compile_loop_length [of 0 "[]" fmt] by (simp add: compile_format_string_def)
  then show ?thesis
    using compiled_agrees [OF assms, of thunk]
    by (simp add: format_to_compiled_def format_to_def vformat_to_def option.map_ident)
qed

theorem compiled_format_equals_runtime_witness:
  "text_of (format_to_compiled format_type_thunk ''a{{{1:04x}}}={0}'' [A_bool True, A_int False 42])
     = text_of (format_to format_type_thunk ''a{{{1:04x}}}={0}'' [A_bool True, A_int False 42])"
  by (rule compiled_format_equals_runtime)
     (simp_all add: fields_closed_Cons compile_loop_Cons field_select_def field_index_def
        parse_positional_index_def is_dec_digit_def max_size_def arg_piece_def literal_piece_def)

text \<open>the piece table that \<^verbatim>\<open>compile_format_string\<close> fills never has more pieces than the format
  string has bytes, so it always fits its \<open>size + 1\<close> slots.\<close>

theorem compiled_pieces_fit:
  "\<exists>ps. compile_format_string (length str + 1) str = Some ps \<and> length ps \<le> length str"
  using compile_loop_length [of 0 "[]" str] by (simp add: compile_format_string_def Let_def)

text \<open>a positional index is accepted exactly when it is a non-empty run of digits, and its value
  saturates at the largest \<^verbatim>\<open>size_t\<close> instead of wrapping.\<close>

theorem positional_index_saturates:
  "parse_positional_index s =
     (if s \<noteq> [] \<and> (\<forall>c \<in> set s. is_dec_digit c) then Some (min max_size (radix_value 10 s)) else None)"
  using positional_digits_value [of 0 s] dec_fold_radix_value [of s]
  by (auto simp: parse_positional_index_def)

theorem positional_index_saturates_witness:
  "parse_positional_index ''12'' = Some 12 \<and> parse_positional_index ''1x'' = None
   \<and> parse_positional_index ''99999999999999999999'' = Some max_size"
proof -
  have v: "radix_value 10 ''12'' = 12" "radix_value 10 ''99999999999999999999'' = 99999999999999999999"
    by (simp_all add: radix_value_def digit_value_def)
  have "\<not> is_dec_digit (CHR ''x'')" by (simp add: is_dec_digit_def)
  then show ?thesis
    using positional_index_saturates [of "''12''"] positional_index_saturates [of "''1x''"]
      positional_index_saturates [of "''99999999999999999999''"]
    by (simp add: v max_size_def)
qed

text \<open>Doubling every brace: the text that formats to a given text.\<close>

fun escape_braces :: "string \<Rightarrow> string" where
  "escape_braces [] = []"
| "escape_braces (c # cs) = (if c = CHR ''{'' \<or> c = CHR ''}'' then [c, c] else [c]) @ escape_braces cs"

text \<open>text whose braces are doubled is reproduced verbatim by the interpreter, whatever the
  arguments are.\<close>

theorem escaped_text_verbatim:
  "text_of (vformat_to (escape_braces s) ptrs fns) = Some s"
proof -
  have "text_of (vformat_loop ptrs fns k (escape_braces s)) = Some s" for k
    by (induction s) (simp_all add: vformat_loop_Cons text_of_seq)
  then show ?thesis by (simp add: vformat_to_def)
qed

text \<open>\<^verbatim>\<open>vformat_to\<close> produces output for every format string, however malformed, and any argument
  tables, provided the argument formatters do: it never fails on its own.\<close>

theorem vformat_total:
  assumes "\<And>fn v sp. Some fn \<in> set fns \<Longrightarrow> \<exists>ch. fn v sp = Some ch"
  shows "\<exists>ch. vformat_to fmt ptrs fns = Some ch"
proof -
  have field: "\<exists>ch. emit_field ptrs fns i sp = Some ch" for i sp
    by (auto simp: emit_field_def split: option.splits intro!: assms) (metis nth_mem)
  have "\<exists>ch. vformat_loop ptrs fns k fmt = Some ch" for k
  proof (induction fmt arbitrary: k rule: length_induct)
    case (1 fmt)
    show ?case
    proof (cases fmt)
      case (Cons c rest)
      have tl: "\<exists>ch. vformat_loop ptrs fns k' (tl rest) = Some ch" for k' using 1 by (simp add: Cons)
      have rs: "\<exists>ch. vformat_loop ptrs fns k' rest = Some ch" for k' using 1 by (simp add: Cons)
      have fr: "\<exists>ch. vformat_loop ptrs fns k' (field_rest rest) = Some ch" for k' using 1 by (simp add: Cons)
      obtain i k' where "field_select k (field_body rest) = (i, k')" by fastforce
      then show ?thesis
        using tl [of k] rs [of k] fr [of k'] field [of i "field_spec (field_body rest)"]
        by (auto simp: Cons vformat_loop_Cons)
    qed simp
  qed
  then show ?thesis by (simp add: vformat_to_def)
qed

theorem vformat_total_witness:
  "\<exists>ch. vformat_to ''{0} {7} {'' [Some True] [Some (\<lambda>b (sp::string). format_bool b)] = Some ch"
  by (rule vformat_total) (auto simp: format_bool_def)

text \<open>\<^verbatim>\<open>format<N>\<close> returns a buffer that holds exactly the first \<open>N\<close> bytes of the formatted text,
  with no store outside the buffer.\<close>

theorem format_N_truncates:
  assumes "format_to thunk fmt args = Some ch"
  shows "\<exists>b. format_N n thunk fmt args = Some b \<and> buffer_sink_ok b
             \<and> buffer_sink_view b = take n (concat ch)"
  using buffer.run_sink_view [OF buffer_sink_init_ok, of n ch] assms
  by (auto simp: format_N_def buffer_sink_init_def buffer_sink_view_def)

theorem format_N_truncates_witness:
  "\<exists>b. format_N 4 format_type_thunk ''x={}'' [A_bool True] = Some b \<and> buffer_sink_view b = ''x=tr''"
proof -
  have "format_to format_type_thunk ''x={}'' [A_bool True] = Some [''x'', ''='', ''true'']" by code_simp
  from format_N_truncates [OF this, of 4] show ?thesis by auto
qed


end
