(* ===== verification/Sorted_Words.thy ===== *)
theory Sorted_Words
  imports Microfmt_Prelude "HOL-Library.Char_ord" "HOL-Library.List_Lexorder" "HOL-Library.Multiset"
begin

text \<open>
  The keyword lists of \<^verbatim>\<open>parsing/lexer.hpp\<close>: \<^verbatim>\<open>sorted_words\<close> (a checked view of a strictly ascending
  word list, searched by bisection, optionally with ASCII case folding) and \<^verbatim>\<open>keyword_table\<close> (which
  sorts its words itself). The byte order of \<^verbatim>\<open>string_view\<close> is the lexicographic order on lists of
  characters. The locale \<open>bisection\<close> is the contract of a binary search over a three-way comparison;
  both lookups interpret it.
\<close>

section \<open>sorted_words\<close>

type_synonym sorted_words = "string list"

fun is_strictly_sorted :: "string list \<Rightarrow> bool" where
  "is_strictly_sorted (x # y # ws) = (x < y \<and> is_strictly_sorted (y # ws))"
| "is_strictly_sorted _ = True"

text \<open>\<^verbatim>\<open>from_sorted\<close> asserts the order; a failed assertion is \<^const>\<open>None\<close>, as is the empty optional of
  \<^verbatim>\<open>try_from_sorted\<close>.\<close>

definition from_sorted :: "string list \<Rightarrow> sorted_words option" where
  "from_sorted ws = (if is_strictly_sorted ws then Some ws else None)"

definition try_from_sorted :: "string list \<Rightarrow> sorted_words option" where
  "try_from_sorted ws = (if \<not> is_strictly_sorted ws then None else Some ws)"

definition fold_char :: "char \<Rightarrow> char" where
  "fold_char ch = (if 65 \<le> code ch \<and> code ch \<le> 90 then chr (code ch + 32) else ch)"

fun compare_folded :: "string \<Rightarrow> string \<Rightarrow> int" where
  "compare_folded (a # as) (b # bs) =
     (let fb = fold_char b
      in if code a \<noteq> code fb then (if code a < code fb then -1 else 1) else compare_folded as bs)"
| "compare_folded [] [] = 0"
| "compare_folded [] _ = -1"
| "compare_folded _ [] = 1"

function contains_loop :: "sorted_words \<Rightarrow> string \<Rightarrow> nat \<Rightarrow> nat \<Rightarrow> bool" where
  "contains_loop ws w low high =
     (if low < high
      then (let mid = low + (high - low) div 2; candidate = ws ! mid
            in if candidate = w then True
               else if candidate < w then contains_loop ws w (mid + 1) high
               else contains_loop ws w low mid)
      else False)"
  by pat_completeness auto
termination by (relation "measure (\<lambda>(ws, w, low, high). high - low)") auto

declare contains_loop.simps [simp del]

definition contains :: "sorted_words \<Rightarrow> string \<Rightarrow> bool" where
  "contains ws w = contains_loop ws w 0 (length ws)"

function contains_ignore_case_loop :: "sorted_words \<Rightarrow> string \<Rightarrow> nat \<Rightarrow> nat \<Rightarrow> bool" where
  "contains_ignore_case_loop ws w low high =
     (if low < high
      then (let mid = low + (high - low) div 2; order = compare_folded (ws ! mid) w
            in if order = 0 then True
               else if order < 0 then contains_ignore_case_loop ws w (mid + 1) high
               else contains_ignore_case_loop ws w low mid)
      else False)"
  by pat_completeness auto
termination by (relation "measure (\<lambda>(ws, w, low, high). high - low)") auto

declare contains_ignore_case_loop.simps [simp del]

definition contains_ignore_case :: "sorted_words \<Rightarrow> string \<Rightarrow> bool" where
  "contains_ignore_case ws w = contains_ignore_case_loop ws w 0 (length ws)"

definition is_ascii_lower_case :: "sorted_words \<Rightarrow> bool" where
  "is_ascii_lower_case ws \<longleftrightarrow> (\<forall>w \<in> set ws. \<forall>c \<in> set w. \<not> (65 \<le> code c \<and> code c \<le> 90))"

section \<open>keyword_table\<close>

text \<open>The inner loop of the insertion sort shifts larger words right and stores the key.\<close>

fun shift_insert :: "string list \<Rightarrow> string \<Rightarrow> nat \<Rightarrow> string list" where
  "shift_insert ws key 0 = ws[0 := key]"
| "shift_insert ws key (Suc j) =
     (if key < ws ! j then shift_insert (ws[Suc j := ws ! j]) key j else ws[Suc j := key])"

fun insertion_sort_from :: "nat \<Rightarrow> nat \<Rightarrow> string list \<Rightarrow> string list" where
  "insertion_sort_from i 0 ws = ws"
| "insertion_sort_from i (Suc n) ws = insertion_sort_from (Suc i) n (shift_insert ws (ws ! i) i)"

text \<open>\<^const>\<open>None\<close> when the assertion on duplicates fails.\<close>

definition keyword_table :: "string list \<Rightarrow> sorted_words option" where
  "keyword_table ws =
     (let sorted_ws = insertion_sort_from 1 (length ws - 1) ws
      in if is_strictly_sorted sorted_ws then Some sorted_ws else None)"

section \<open>Binary search\<close>

text \<open>A search for an element: the comparison of an entry with the target is negative before it,
  positive behind it, and zero exactly at the entries that match.\<close>

locale bisection =
  fixes search :: "'e list \<Rightarrow> 'k \<Rightarrow> nat \<Rightarrow> nat \<Rightarrow> bool"
    and cmp :: "'e \<Rightarrow> 'k \<Rightarrow> int"
    and ordered :: "'e list \<Rightarrow> 'k \<Rightarrow> bool"
  assumes search_step: "search es k low high =
      (if low < high
       then (let mid = low + (high - low) div 2; c = cmp (es ! mid) k
             in if c = 0 then True
                else if c < 0 then search es k (mid + 1) high else search es k low mid)
       else False)"
    and before: "ordered es k \<Longrightarrow> i < j \<Longrightarrow> j < length es \<Longrightarrow> cmp (es ! j) k < 0 \<Longrightarrow> cmp (es ! i) k < 0"
    and behind: "ordered es k \<Longrightarrow> i < j \<Longrightarrow> j < length es \<Longrightarrow> cmp (es ! i) k > 0 \<Longrightarrow> cmp (es ! j) k > 0"
begin

lemma search_range:
  "ordered es k \<Longrightarrow> high \<le> length es \<Longrightarrow>
   search es k low high \<longleftrightarrow> (\<exists>i. low \<le> i \<and> i < high \<and> cmp (es ! i) k = 0)"
proof (induction "high - low" arbitrary: low high rule: less_induct)
  case less
  show ?case
  proof (cases "low < high")
    case False
    then show ?thesis by (subst search_step) auto
  next
    case True
    define mid where "mid = low + (high - low) div 2"
    have mid: "low \<le> mid" "mid < high" using True by (auto simp: mid_def)
    have step: "search es k low high = (if cmp (es ! mid) k = 0 then True
        else if cmp (es ! mid) k < 0 then search es k (mid + 1) high else search es k low mid)"
      by (subst search_step) (simp add: True mid_def Let_def)
    consider (eq) "cmp (es ! mid) k = 0" | (lt) "cmp (es ! mid) k < 0" | (gt) "cmp (es ! mid) k > 0"
      by linarith
    then show ?thesis
    proof cases
      case eq
      then show ?thesis using mid step by auto
    next
      case lt
      have "search es k (mid + 1) high \<longleftrightarrow> (\<exists>i. mid + 1 \<le> i \<and> i < high \<and> cmp (es ! i) k = 0)"
        using less.hyps [of high "mid + 1"] less.prems mid by simp
      moreover have "mid + 1 \<le> i" if "low \<le> i" "i < high" "cmp (es ! i) k = 0" for i
        using before [OF less.prems(1), of i mid] lt that mid less.prems(2) by (cases "i < mid"; cases "i = mid") auto
      moreover have "low \<le> i" if "mid + 1 \<le> i" for i using that mid by simp
      ultimately show ?thesis using lt step by auto
    next
      case gt
      have "search es k low mid \<longleftrightarrow> (\<exists>i. low \<le> i \<and> i < mid \<and> cmp (es ! i) k = 0)"
        using less.hyps [of mid low] less.prems mid by simp
      moreover have "i < mid" if "low \<le> i" "i < high" "cmp (es ! i) k = 0" for i
        using behind [OF less.prems(1), of mid i] gt that mid less.prems(2) by (cases "mid < i"; cases "i = mid") auto
      ultimately show ?thesis using gt step mid by auto
    qed
  qed
qed

lemma search_all: "ordered es k \<Longrightarrow> search es k 0 (length es) \<longleftrightarrow> (\<exists>e \<in> set es. cmp e k = 0)"
  using search_range [of es k "length es" 0] by simp (metis in_set_conv_nth)

end

lemma is_strictly_sorted_iff: "is_strictly_sorted ws \<longleftrightarrow> sorted_wrt (<) ws"
  by (induction ws rule: is_strictly_sorted.induct) (auto intro: less_trans)

definition three_way :: "string \<Rightarrow> string \<Rightarrow> int" where
  "three_way a b = (if a = b then 0 else if a < b then -1 else 1)"

interpretation exact: bisection contains_loop three_way "\<lambda>ws w. is_strictly_sorted ws"
proof (unfold_locales, goal_cases)
  case (1 es k low high)
  show ?case by (subst contains_loop.simps) (simp add: three_way_def Let_def)
next
  case (2 es k i j)
  then have "es ! i < es ! j" by (simp add: is_strictly_sorted_iff sorted_wrt_iff_nth_less)
  then show ?case using 2 by (auto simp: three_way_def split: if_splits)
next
  case (3 es k i j)
  then have "es ! i < es ! j" by (simp add: is_strictly_sorted_iff sorted_wrt_iff_nth_less)
  then show ?case using 3 by (auto simp: three_way_def split: if_splits)
qed

lemma compare_folded_three_way: "compare_folded a b = three_way a (map fold_char b)"
  by (induction a b rule: compare_folded.induct)
     (auto simp: three_way_def Let_def less_char_def)

interpretation folded: bisection contains_ignore_case_loop compare_folded "\<lambda>ws w. is_strictly_sorted ws"
proof (unfold_locales, goal_cases)
  case (1 es k low high)
  show ?case by (subst contains_ignore_case_loop.simps) simp
next
  case (2 es k i j)
  then show ?case using exact.before [of es i j "map fold_char k"] by (simp add: compare_folded_three_way)
next
  case (3 es k i j)
  then show ?case using exact.behind [of es i j "map fold_char k"] by (simp add: compare_folded_three_way)
qed

section \<open>Insertion sort\<close>

fun insert_rev :: "string \<Rightarrow> string list \<Rightarrow> string list" where
  "insert_rev key [] = [key]"
| "insert_rev key (x # xs) = (if key < x then x # insert_rev key xs else key # x # xs)"

lemma shift_insert_rev:
  "shift_insert (rev ras @ h # bs) key (length ras) = rev (insert_rev key ras) @ bs"
proof (induction ras arbitrary: h bs)
  case (Cons r ras)
  have n: "(rev (r # ras) @ h # bs) ! length ras = r" by (simp add: nth_append)
  show ?case
  proof (cases "key < r")
    case True
    have "(rev (r # ras) @ h # bs)[Suc (length ras) := r] = rev ras @ r # r # bs"
      by (simp add: list_update_append)
    then show ?thesis using Cons.IH [of r "r # bs"] True n by simp
  next
    case False
    then show ?thesis using n by (simp add: list_update_append)
  qed
qed simp

lemma mset_insert_rev: "mset (insert_rev key xs) = add_mset key (mset xs)"
  by (induction xs) auto

lemma sorted_insert_rev: "sorted (rev xs) \<Longrightarrow> sorted (rev (insert_rev key xs))"
proof (induction xs)
  case (Cons x xs)
  have "set (insert_rev key xs) = insert key (set xs)"
    using arg_cong [OF mset_insert_rev, of set_mset key xs] by simp
  then show ?case using Cons by (auto simp: sorted_append)
qed simp

lemma shift_insert_step:
  assumes "i < length ws"
  shows "\<exists>ps. shift_insert ws (ws ! i) i = ps @ drop (Suc i) ws \<and> mset ps = mset (take (Suc i) ws)
              \<and> length ps = Suc i \<and> (sorted (take i ws) \<longrightarrow> sorted ps)"
proof -
  let ?ras = "rev (take i ws)"
  have "ws = rev ?ras @ ws ! i # drop (Suc i) ws" using assms by (simp add: id_take_nth_drop)
  then have eq: "shift_insert ws (ws ! i) i = rev (insert_rev (ws ! i) ?ras) @ drop (Suc i) ws"
    using shift_insert_rev [of ?ras "ws ! i" "drop (Suc i) ws" "ws ! i"] assms by simp
  have ms: "mset (rev (insert_rev (ws ! i) ?ras)) = mset (take (Suc i) ws)"
    using assms by (simp add: mset_insert_rev take_Suc_conv_app_nth)
  moreover from arg_cong [OF ms, of size] have "length (rev (insert_rev (ws ! i) ?ras)) = Suc i"
    using assms by simp
  ultimately show ?thesis using eq sorted_insert_rev [of ?ras "ws ! i"] by auto
qed

lemma insertion_sort_from_correct:
  "i + n = length ws \<Longrightarrow> sorted (take i ws) \<Longrightarrow>
   mset (insertion_sort_from i n ws) = mset ws \<and> sorted (insertion_sort_from i n ws)"
proof (induction i n ws rule: insertion_sort_from.induct)
  case (2 i n ws)
  then obtain ps where ps: "shift_insert ws (ws ! i) i = ps @ drop (Suc i) ws"
      "mset ps = mset (take (Suc i) ws)" "length ps = Suc i" "sorted ps"
    using shift_insert_step [of i ws] by auto
  have "mset (ps @ drop (Suc i) ws) = mset (take (Suc i) ws @ drop (Suc i) ws)"
    by (simp only: mset_append ps(2))
  then have "mset (ps @ drop (Suc i) ws) = mset ws" by simp
  then show ?case using 2 ps by simp
qed simp

section \<open>Properties\<close>

text \<open>the binary search of \<^verbatim>\<open>sorted_words::contains\<close> answers exactly membership, and its
  case-insensitive variant exactly membership of the folded word, on every list that the checked
  constructor accepts.\<close>

theorem sorted_words_lookup:
  assumes "from_sorted ws = Some kws"
  shows "(contains kws w \<longleftrightarrow> w \<in> set ws)
         \<and> (contains_ignore_case kws w \<longleftrightarrow> map fold_char w \<in> set ws)"
proof -
  have s: "is_strictly_sorted ws" and k: "kws = ws"
    using assms by (auto simp: from_sorted_def split: if_splits)
  have "contains kws w \<longleftrightarrow> w \<in> set ws"
    using exact.search_all [OF s, of w] by (auto simp: contains_def k three_way_def split: if_splits)
  moreover have "contains_ignore_case kws w \<longleftrightarrow> map fold_char w \<in> set ws"
    using folded.search_all [OF s, of w]
    by (auto simp: contains_ignore_case_def k compare_folded_three_way three_way_def split: if_splits)
  ultimately show ?thesis by blast
qed

theorem sorted_words_lookup_witness:
  "contains [''else'', ''if'', ''let''] ''if'' \<and> \<not> contains [''else'', ''if'', ''let''] ''var''
   \<and> contains_ignore_case [''else'', ''if'', ''let''] ''LeT''"
proof -
  have f: "from_sorted [''else'', ''if'', ''let''] = Some [''else'', ''if'', ''let'']" by code_simp
  have "map fold_char ''LeT'' = ''let''" by code_simp
  then show ?thesis
    using sorted_words_lookup [OF f, of "''if''"] sorted_words_lookup [OF f, of "''var''"]
      sorted_words_lookup [OF f, of "''LeT''"] by simp
qed

text \<open>\<^verbatim>\<open>keyword_table\<close> accepts a word list exactly when it has no duplicate, and then holds its
  words strictly ascending, so every lookup in it is exact.\<close>

theorem keyword_table_sorts:
  assumes "ws \<noteq> []"
  shows "(distinct ws \<longrightarrow> (\<exists>t. keyword_table ws = Some t \<and> mset t = mset ws \<and> from_sorted t = Some t))
         \<and> (\<not> distinct ws \<longrightarrow> keyword_table ws = None)"
proof -
  let ?t = "insertion_sort_from 1 (length ws - 1) ws"
  have "1 + (length ws - 1) = length ws" "sorted (take 1 ws)" using assms by (cases ws; simp)+
  from insertion_sort_from_correct [OF this] have t: "mset ?t = mset ws" "sorted ?t" by auto
  have "distinct ?t \<longleftrightarrow> distinct ws" using t(1) by (metis mset_eq_imp_distinct_iff)
  then have "is_strictly_sorted ?t \<longleftrightarrow> distinct ws"
    using t(2) by (auto simp: is_strictly_sorted_iff strict_sorted_iff)
  then show ?thesis using t(1) by (auto simp: keyword_table_def from_sorted_def Let_def)
qed

theorem keyword_table_sorts_witness:
  "(\<exists>t. keyword_table [''let'', ''if'', ''else''] = Some t \<and> mset t = mset [''let'', ''if'', ''else''])
   \<and> keyword_table [''if'', ''if''] = None"
  using keyword_table_sorts [of "[''let'', ''if'', ''else'']"] keyword_table_sorts [of "[''if'', ''if'']"]
  by auto

end
