(* ===== verification/Lexer.thy ===== *)
theory Lexer
  imports Sorted_Words
begin

text \<open>
  The tokenizer of \<^verbatim>\<open>parsing/lexer.hpp\<close>: \<^verbatim>\<open>lexer_rules\<close>, the scanning routines and the \<^verbatim>\<open>lexer\<close> class. The
  source is a string, a place in it an offset; every scanning loop is a function on offsets. Lines and
  columns are 32-bit words, as in the code, so they wrap.
\<close>

section \<open>Tokens and rules\<close>

datatype token_kind =
    T_end | T_error | T_whitespace | T_newline | T_identifier | T_keyword | T_integer | T_floating
  | T_string | T_comment | T_op | T_punctuation | T_character | T_directive | T_datetime

record token =
  tok_kind :: token_kind
  tok_text :: string
  tok_offset :: nat
  tok_line :: u32
  tok_column :: u32

record lexer_rules =
  keyword_words :: sorted_words
  operators :: "string list"
  punctuation :: string
  line_comment :: string
  block_comment_open :: string
  block_comment_close :: string
  nested_block_comments :: bool
  identifier_start_extra :: string
  identifier_continue_extra :: string
  quotes :: string
  escape :: char
  digit_separator :: char
  hex_binary_prefixes :: bool
  skip_whitespace :: bool
  skip_comments :: bool
  line_comments :: "string list"
  line_continuation :: bool
  long_bracket_comments :: bool
  char_quotes :: string
  raw_quotes :: string
  doubled_quote_escape :: bool
  multiline_triple_quotes :: string
  multiline_quotes :: string
  long_bracket_strings :: bool
  string_prefixes :: "string list"
  cpp_raw_strings :: bool
  number_suffixes :: "string list"
  user_defined_suffixes :: bool
  hex_float :: bool
  decimal_trailing_dot :: bool
  octal_prefix :: bool
  numbers :: bool
  datetime_literals :: bool
  keywords_ignore_case :: bool
  directive_prefix :: char

text \<open>The default member initializers.\<close>

definition default_rules :: lexer_rules where
  "default_rules = \<lparr>keyword_words = [], operators = [], punctuation = ''(){}[],;'', line_comment = [],
     block_comment_open = [], block_comment_close = [], nested_block_comments = False,
     identifier_start_extra = [], identifier_continue_extra = [], quotes = [CHR 0x22, CHR 0x27],
     escape = CHR 0x5C, digit_separator = CHR ''_'', hex_binary_prefixes = True,
     skip_whitespace = True, skip_comments = True, line_comments = [], line_continuation = False,
     long_bracket_comments = False, char_quotes = [], raw_quotes = [], doubled_quote_escape = False,
     multiline_triple_quotes = [], multiline_quotes = [], long_bracket_strings = False,
     string_prefixes = [], cpp_raw_strings = False, number_suffixes = [], user_defined_suffixes = False,
     hex_float = False, decimal_trailing_dot = False, octal_prefix = False, numbers = True,
     datetime_literals = False, keywords_ignore_case = False, directive_prefix = CHR 0x00\<rparr>"

definition is_blank_or_newline :: "char \<Rightarrow> bool" where
  "is_blank_or_newline ch \<longleftrightarrow> ch = CHR '' '' \<or> ch = CHR 0x09 \<or> ch = CHR 0x0A \<or> ch = CHR 0x0D"

definition lexer_rules_valid :: "lexer_rules \<Rightarrow> bool" where
  "lexer_rules_valid r \<longleftrightarrow>
     (block_comment_open r \<noteq> []) = (block_comment_close r \<noteq> [])
     \<and> \<not> (nested_block_comments r \<and> block_comment_open r = [])
     \<and> \<not> (long_bracket_comments r \<and> line_comment r = [] \<and> line_comments r = [])
     \<and> \<not> (keywords_ignore_case r \<and> \<not> is_ascii_lower_case (keyword_words r))
     \<and> list_all (\<lambda>c. list_all (\<lambda>q. c \<noteq> q) (quotes r)) (char_quotes r)
     \<and> list_all (\<lambda>p. p \<noteq> []) (string_prefixes r)
     \<and> \<not> (cpp_raw_strings r \<and> \<not> list_ex (\<lambda>p. last p = CHR ''R'') (string_prefixes r))
     \<and> list_all (\<lambda>s. s \<noteq> []) (number_suffixes r)
     \<and> list_all (\<lambda>m. m \<noteq> [] \<and> \<not> (directive_prefix r \<noteq> CHR 0x00 \<and> hd m = directive_prefix r)) (line_comments r)
     \<and> \<not> (directive_prefix r \<noteq> CHR 0x00 \<and> line_comment r \<noteq> [] \<and> hd (line_comment r) = directive_prefix r)
     \<and> list_all (\<lambda>c. \<not> (is_dec_digit c \<or> is_blank_or_newline c)) (identifier_start_extra r)
     \<and> list_all (\<lambda>c. \<not> is_blank_or_newline c) (identifier_continue_extra r)"

section \<open>Characters at an offset\<close>

definition at :: "string \<Rightarrow> nat \<Rightarrow> char" where
  "at src i = (if i < length src then src ! i else CHR 0x00)"

definition starts_with_at :: "string \<Rightarrow> nat \<Rightarrow> string \<Rightarrow> bool" where
  "starts_with_at src i p \<longleftrightarrow> p \<noteq> [] \<and> i \<le> length src \<and> take (length p) (drop i src) = p"

lemma starts_with_at_bounds:
  "starts_with_at src i p \<Longrightarrow> 0 < length p \<and> i + length p \<le> length src"
proof -
  assume "starts_with_at src i p"
  then have p: "p \<noteq> []" "i \<le> length src" "take (length p) (drop i src) = p"
    by (simp_all add: starts_with_at_def)
  have "length (take (length p) (drop i src)) = length p" by (simp only: p(3))
  then show ?thesis using p(1,2) by (simp add: min_def split: if_splits)
qed

definition is_alpha :: "char \<Rightarrow> bool" where
  "is_alpha ch \<longleftrightarrow> (97 \<le> code ch \<and> code ch \<le> 122) \<or> (65 \<le> code ch \<and> code ch \<le> 90)"

definition contains_byte :: "string \<Rightarrow> char \<Rightarrow> bool" where
  "contains_byte s ch \<longleftrightarrow> ch \<in> set s"

definition is_high_byte :: "char \<Rightarrow> bool" where
  "is_high_byte ch \<longleftrightarrow> code ch \<ge> 128"

definition is_ident_start :: "lexer_rules \<Rightarrow> char \<Rightarrow> bool" where
  "is_ident_start r ch \<longleftrightarrow> is_alpha ch \<or> ch = CHR ''_'' \<or> is_high_byte ch
     \<or> contains_byte (identifier_start_extra r) ch \<or> (\<not> numbers r \<and> is_dec_digit ch)"

definition is_base_ident_continue :: "char \<Rightarrow> bool" where
  "is_base_ident_continue ch \<longleftrightarrow> is_alpha ch \<or> is_dec_digit ch \<or> ch = CHR ''_'' \<or> is_high_byte ch"

definition is_ident_continue :: "lexer_rules \<Rightarrow> char \<Rightarrow> bool" where
  "is_ident_continue r ch \<longleftrightarrow> is_ident_start r ch \<or> is_dec_digit ch
     \<or> contains_byte (identifier_continue_extra r) ch"

definition is_hex_digit :: "char \<Rightarrow> bool" where
  "is_hex_digit ch \<longleftrightarrow> is_dec_digit ch \<or> (97 \<le> code ch \<and> code ch \<le> 102) \<or> (65 \<le> code ch \<and> code ch \<le> 70)"

section \<open>Positions and emission\<close>

record position =
  p_pos :: nat
  p_line :: u32
  p_column :: u32

definition init_position :: position where
  "init_position = \<lparr>p_pos = 0, p_line = 1, p_column = 1\<rparr>"

fun advance_chars :: "string \<Rightarrow> u32 \<times> u32 \<Rightarrow> u32 \<times> u32" where
  "advance_chars [] lc = lc"
| "advance_chars (ch # cs) (l, c) =
     advance_chars cs (if ch = CHR 0x0A then (l + 1, 1) else (l, c + 1))"

definition advance_to :: "string \<Rightarrow> position \<Rightarrow> nat \<Rightarrow> position" where
  "advance_to src c target =
     (let limit = (if target < length src then target else length src);
          (l, col) = advance_chars (take (limit - p_pos c) (drop (p_pos c) src)) (p_line c, p_column c)
      in \<lparr>p_pos = limit, p_line = l, p_column = col\<rparr>)"

definition emit :: "string \<Rightarrow> position \<Rightarrow> token_kind \<Rightarrow> nat \<Rightarrow> token \<times> position" where
  "emit src c kind len =
     (\<lparr>tok_kind = kind, tok_text = take len (drop (p_pos c) src), tok_offset = p_pos c,
       tok_line = p_line c, tok_column = p_column c\<rparr>,
      advance_to src c (p_pos c + len))"

section \<open>Scanning loops\<close>

text \<open>The first offset at or behind \<open>i\<close> whose byte does not satisfy the predicate, or the end.\<close>

function skip_while :: "(char \<Rightarrow> bool) \<Rightarrow> string \<Rightarrow> nat \<Rightarrow> nat" where
  "skip_while P src i = (if i < length src \<and> P (src ! i) then skip_while P src (Suc i) else i)"
  by pat_completeness auto
termination by (relation "measure (\<lambda>(P, src, i). length src - i)") auto

declare skip_while.simps [simp del]

definition newline_length :: "string \<Rightarrow> nat \<Rightarrow> nat" where
  "newline_length src i =
     (if at src i = CHR 0x0A then 1
      else if at src i = CHR 0x0D \<and> at src (i + 1) = CHR 0x0A then 2 else 0)"

function whitespace_end :: "string \<Rightarrow> nat \<Rightarrow> nat" where
  "whitespace_end src i =
     (if i < length src \<and> newline_length src i = 0
         \<and> (src ! i = CHR '' '' \<or> src ! i = CHR 0x09 \<or> src ! i = CHR 0x0D \<or> src ! i = CHR 0x0B \<or> src ! i = CHR 0x0C)
      then whitespace_end src (Suc i) else i)"
  by pat_completeness auto
termination by (relation "measure (\<lambda>(src, i). length src - i)") auto

declare whitespace_end.simps [simp del]

definition scan_whitespace :: "string \<Rightarrow> nat \<Rightarrow> nat" where
  "scan_whitespace src i = whitespace_end src i - i"

definition continuation_length :: "lexer_rules \<Rightarrow> string \<Rightarrow> nat \<Rightarrow> nat" where
  "continuation_length r src i =
     (if line_continuation r \<and> at src i = CHR 0x5C
      then (if newline_length src (i + 1) = 0 then 0 else 1 + newline_length src (i + 1)) else 0)"

function line_end :: "lexer_rules \<Rightarrow> string \<Rightarrow> nat \<Rightarrow> nat" where
  "line_end r src i =
     (if i < length src \<and> newline_length src i = 0
      then (if continuation_length r src i \<noteq> 0
            then line_end r src (i + continuation_length r src i)
            else line_end r src (Suc i))
      else i)"
  by pat_completeness auto
termination by (relation "measure (\<lambda>(r, src, i). length src - i)") auto

declare line_end.simps [simp del]

definition scan_line_comment :: "lexer_rules \<Rightarrow> string \<Rightarrow> nat \<Rightarrow> nat" where
  "scan_line_comment r src i = line_end r src i - i"

definition longest_match :: "string \<Rightarrow> nat \<Rightarrow> nat \<Rightarrow> string list \<Rightarrow> nat" where
  "longest_match src i best cands =
     foldl (\<lambda>b m. if length m > b \<and> starts_with_at src i m then length m else b) best cands"

definition line_comment_marker :: "lexer_rules \<Rightarrow> string \<Rightarrow> nat \<Rightarrow> nat" where
  "line_comment_marker r src i =
     longest_match src i (if starts_with_at src i (line_comment r) then length (line_comment r) else 0)
       (line_comments r)"

fun blank_start :: "string \<Rightarrow> nat \<Rightarrow> nat" where
  "blank_start src 0 = 0"
| "blank_start src (Suc j) =
     (if src ! j = CHR '' '' \<or> src ! j = CHR 0x09 \<or> src ! j = CHR 0x0B \<or> src ! j = CHR 0x0C
      then blank_start src j else Suc j)"

definition first_on_line :: "string \<Rightarrow> nat \<Rightarrow> bool" where
  "first_on_line src i = (let j = blank_start src i in j = 0 \<or> src ! (j - 1) = CHR 0x0A)"

text \<open>Opener length (0 for none) and level of a long bracket.\<close>

fun count_equals :: "string \<Rightarrow> nat \<Rightarrow> nat \<Rightarrow> nat \<Rightarrow> nat" where
  "count_equals src i e 0 = e"
| "count_equals src i e (Suc left) = (if at src (i + e) = CHR ''='' then count_equals src i (Suc e) left else e)"

definition long_bracket_open :: "string \<Rightarrow> nat \<Rightarrow> nat \<times> nat" where
  "long_bracket_open src i =
     (if at src i \<noteq> CHR ''['' then (0, 0)
      else (let equals = count_equals src (i + 1) 0 256
            in if equals > 255 \<or> at src (i + 1 + equals) \<noteq> CHR ''['' then (0, 0)
               else (equals + 2, equals)))"

function long_bracket_loop :: "string \<Rightarrow> nat \<Rightarrow> nat \<Rightarrow> nat \<Rightarrow> nat \<times> bool" where
  "long_bracket_loop src index level i =
     (if i < length src
      then (if src ! i = CHR '']'' \<and> count_equals src (i + 1) 0 level = level
               \<and> at src (i + 1 + level) = CHR '']''
            then (i + level + 2 - index, True)
            else long_bracket_loop src index level (Suc i))
      else (length src - index, False))"
  by pat_completeness auto
termination by (relation "measure (\<lambda>(src, index, level, i). length src - i)") auto

declare long_bracket_loop.simps [simp del]

definition scan_long_bracket :: "string \<Rightarrow> nat \<Rightarrow> nat \<Rightarrow> nat \<Rightarrow> nat \<times> bool" where
  "scan_long_bracket src index opener level = long_bracket_loop src index level (index + opener)"

definition scan_directive :: "lexer_rules \<Rightarrow> string \<Rightarrow> nat \<Rightarrow> nat" where
  "scan_directive r src i = scan_line_comment r src i"

function block_comment_loop :: "lexer_rules \<Rightarrow> string \<Rightarrow> nat \<Rightarrow> nat \<Rightarrow> nat \<Rightarrow> nat \<times> bool" where
  "block_comment_loop r src index depth i =
     (if i < length src
      then (if nested_block_comments r \<and> starts_with_at src i (block_comment_open r)
            then block_comment_loop r src index (depth + 1) (i + length (block_comment_open r))
            else if starts_with_at src i (block_comment_close r)
            then (let depth' = depth - 1; i' = i + length (block_comment_close r)
                  in if depth' = 0 then (i' - index, True) else block_comment_loop r src index depth' i')
            else block_comment_loop r src index depth (Suc i))
      else (length src - index, False))"
  by pat_completeness auto
termination
  by (relation "measure (\<lambda>(r, src, index, depth, i). length src - i)")
     (auto dest!: starts_with_at_bounds intro!: diff_less_mono2)

declare block_comment_loop.simps [simp del]

definition scan_block_comment :: "lexer_rules \<Rightarrow> string \<Rightarrow> nat \<Rightarrow> nat \<times> bool" where
  "scan_block_comment r src index =
     block_comment_loop r src index 1 (index + length (block_comment_open r))"

section \<open>Quoted literals\<close>

function quoted_loop :: "lexer_rules \<Rightarrow> string \<Rightarrow> char \<Rightarrow> bool \<Rightarrow> bool \<Rightarrow> bool \<Rightarrow> nat \<Rightarrow> nat \<times> bool" where
  "quoted_loop r src quote escapes triple multiline i =
     (if i < length src
      then (if escapes \<and> src ! i = escape r then quoted_loop r src quote escapes triple multiline (i + 2)
            else if src ! i = quote
            then (if triple
                  then (if at src (i + 1) = quote \<and> at src (i + 2) = quote then (i + 3, True)
                        else quoted_loop r src quote escapes triple multiline (Suc i))
                  else if doubled_quote_escape r \<and> at src (i + 1) = quote
                  then quoted_loop r src quote escapes triple multiline (i + 2)
                  else (Suc i, True))
            else if src ! i = CHR 0x0A \<and> \<not> multiline then (i, False)
            else quoted_loop r src quote escapes triple multiline (Suc i))
      else (i, False))"
  by pat_completeness auto
termination by (relation "measure (\<lambda>(r, src, q, e, t, m, i). length src - i)") auto

declare quoted_loop.simps [simp del]

definition scan_quoted :: "lexer_rules \<Rightarrow> string \<Rightarrow> nat \<Rightarrow> nat \<times> bool" where
  "scan_quoted r src index =
     (let quote = src ! index;
          raw = contains_byte (raw_quotes r) quote;
          escapes = (\<not> raw \<and> escape r \<noteq> CHR 0x00);
          triple = (contains_byte (multiline_triple_quotes r) quote
                    \<and> at src (index + 1) = quote \<and> at src (index + 2) = quote);
          multiline = (triple \<or> contains_byte (multiline_quotes r) quote);
          (i, terminated) = quoted_loop r src quote escapes triple multiline (index + (if triple then 3 else 1))
      in ((if i > length src then length src else i) - index, terminated))"

text \<open>The delimiter length of a raw string opener; \<^const>\<open>None\<close> for a malformed opener.\<close>

definition bad_raw_delimiter :: "char \<Rightarrow> bool" where
  "bad_raw_delimiter ch \<longleftrightarrow> ch = CHR '' '' \<or> ch = CHR '')'' \<or> ch = CHR 0x5C \<or> ch = CHR 0x09 \<or> ch = CHR 0x0B
     \<or> ch = CHR 0x0C \<or> ch = CHR 0x0A \<or> ch = CHR 0x0D \<or> ch = CHR 0x22"

function raw_delimiter :: "string \<Rightarrow> nat \<Rightarrow> nat \<Rightarrow> nat option" where
  "raw_delimiter src q d =
     (if d \<le> 16 \<and> at src (q + 1 + d) \<noteq> CHR ''(''
      then (if q + 1 + d \<ge> length src \<or> bad_raw_delimiter (at src (q + 1 + d)) then None
            else raw_delimiter src q (Suc d))
      else Some d)"
  by pat_completeness auto
termination by (relation "measure (\<lambda>(src, q, d). 17 - d)") auto

declare raw_delimiter.simps [simp del]

function raw_body_loop :: "string \<Rightarrow> nat \<Rightarrow> nat \<Rightarrow> nat \<Rightarrow> nat \<times> bool" where
  "raw_body_loop src q d i =
     (if i < length src
      then (if src ! i = CHR '')'' \<and> at src (i + 1 + d) = CHR 0x22
               \<and> take d (drop (i + 1) src) = take d (drop (q + 1) src)
            then (i + d + 2 - q, True) else raw_body_loop src q d (Suc i))
      else (length src - q, False))"
  by pat_completeness auto
termination by (relation "measure (\<lambda>(src, q, d, i). length src - i)") auto

declare raw_body_loop.simps [simp del]

definition scan_raw_string :: "string \<Rightarrow> nat \<Rightarrow> nat \<times> bool" where
  "scan_raw_string src q =
     (case raw_delimiter src q 0 of
        None \<Rightarrow> (1, False)
      | Some d \<Rightarrow> (if d > 16 then (1, False) else raw_body_loop src q d (q + 2 + d)))"

definition string_prefix_length :: "lexer_rules \<Rightarrow> string \<Rightarrow> nat \<Rightarrow> nat" where
  "string_prefix_length r src i =
     foldl (\<lambda>best p. let nxt = at src (i + length p)
                     in if length p > best \<and> starts_with_at src i p
                           \<and> (contains_byte (quotes r) nxt \<or> contains_byte (char_quotes r) nxt)
                        then length p else best) 0 (string_prefixes r)"

definition scan_quote_like :: "lexer_rules \<Rightarrow> string \<Rightarrow> position \<Rightarrow> nat \<Rightarrow> token \<times> position" where
  "scan_quote_like r src c pre =
     (let quote_index = p_pos c + pre;
          quote = src ! quote_index;
          (len, terminated) =
            (if cpp_raw_strings r \<and> pre \<noteq> 0 \<and> src ! (quote_index - 1) = CHR ''R''
                \<and> contains_byte (quotes r) quote
             then scan_raw_string src quote_index else scan_quoted r src quote_index)
      in if \<not> terminated then emit src c T_error (pre + len)
         else (let total = (if user_defined_suffixes r
                            then skip_while (is_ident_continue r) src (p_pos c + (pre + len)) - p_pos c
                            else pre + len)
               in emit src c (if contains_byte (char_quotes r) quote then T_character else T_string) total))"

section \<open>Numbers, dates and times\<close>

function digits_end :: "lexer_rules \<Rightarrow> (char \<Rightarrow> bool) \<Rightarrow> string \<Rightarrow> nat \<Rightarrow> nat \<Rightarrow> nat" where
  "digits_end r accept src index i =
     (if i < length src
         \<and> (accept (src ! i)
            \<or> (digit_separator r \<noteq> CHR 0x00 \<and> src ! i = digit_separator r \<and> i > index \<and> accept (at src (i + 1))))
      then digits_end r accept src index (Suc i) else i)"
  by pat_completeness auto
termination by (relation "measure (\<lambda>(r, a, src, index, i). length src - i)") auto

declare digits_end.simps [simp del]

definition scan_digits :: "lexer_rules \<Rightarrow> (char \<Rightarrow> bool) \<Rightarrow> string \<Rightarrow> nat \<Rightarrow> nat" where
  "scan_digits r accept src index = digits_end r accept src index index - index"

definition fold_lower :: "char \<Rightarrow> char" where
  "fold_lower ch = (if 65 \<le> code ch \<and> code ch \<le> 90 then chr (code ch + 32) else ch)"

definition number_suffix_length :: "lexer_rules \<Rightarrow> string \<Rightarrow> nat \<Rightarrow> nat" where
  "number_suffix_length r src i =
     foldl (\<lambda>best s.
        if length s \<le> best \<or> i + length s > length src \<or> is_base_ident_continue (at src (i + length s))
        then best
        else if map fold_lower (take (length s) (drop i src)) = map fold_lower s then length s else best)
       0 (number_suffixes r)"

definition scan_digits_plain :: "string \<Rightarrow> nat \<Rightarrow> nat" where
  "scan_digits_plain src i = skip_while is_dec_digit src i - i"

abbreviation digit_at :: "string \<Rightarrow> nat \<Rightarrow> bool" where
  "digit_at src i \<equiv> is_dec_digit (at src i)"

definition time_length :: "string \<Rightarrow> nat \<Rightarrow> nat" where
  "time_length src index =
     (if \<not> (digit_at src index \<and> digit_at src (index + 1) \<and> at src (index + 2) = CHR '':''
           \<and> digit_at src (index + 3) \<and> digit_at src (index + 4) \<and> at src (index + 5) = CHR '':''
           \<and> digit_at src (index + 6) \<and> digit_at src (index + 7)) then 0
      else (let i = index + 8;
                i1 = (if at src i = CHR ''.'' \<and> digit_at src (i + 1)
                      then i + (1 + scan_digits_plain src (i + 1)) else i);
                i2 = (if at src i1 = CHR ''Z'' \<or> at src i1 = CHR ''z'' then i1 + 1
                      else if (at src i1 = CHR ''+'' \<or> at src i1 = CHR ''-'') \<and> digit_at src (i1 + 1)
                              \<and> digit_at src (i1 + 2) \<and> at src (i1 + 3) = CHR '':''
                              \<and> digit_at src (i1 + 4) \<and> digit_at src (i1 + 5)
                      then i1 + 6 else i1)
            in i2 - index))"

definition datetime_length :: "string \<Rightarrow> nat \<Rightarrow> nat" where
  "datetime_length src index =
     (let date = (digit_at src index \<and> digit_at src (index + 1) \<and> digit_at src (index + 2)
                  \<and> digit_at src (index + 3) \<and> at src (index + 4) = CHR ''-'' \<and> digit_at src (index + 5)
                  \<and> digit_at src (index + 6) \<and> at src (index + 7) = CHR ''-'' \<and> digit_at src (index + 8)
                  \<and> digit_at src (index + 9));
          i = (if date
               then (let j = index + 10; sep = at src j
                     in if (sep = CHR ''T'' \<or> sep = CHR ''t'' \<or> sep = CHR '' '') \<and> time_length src (j + 1) \<noteq> 0
                        then Some (j + (1 + time_length src (j + 1))) else Some j)
               else if time_length src index \<noteq> 0 then Some (index + time_length src index)
               else None)
      in case i of
           None \<Rightarrow> 0
         | Some j \<Rightarrow> (if is_base_ident_continue (at src j) then 0 else j - index))"

text \<open>The four number forms: each yields the end offset, whether the number is floating, and whether it
  is malformed.\<close>

definition exponent_end :: "lexer_rules \<Rightarrow> string \<Rightarrow> nat \<Rightarrow> nat option" where
  "exponent_end r src i =
     (let sign = at src (i + 1);
          digit_pos = (if sign = CHR ''+'' \<or> sign = CHR ''-'' then i + 2 else i + 1)
      in if digit_at src digit_pos then Some (digit_pos + scan_digits r is_dec_digit src digit_pos) else None)"

definition scan_hex_number :: "lexer_rules \<Rightarrow> string \<Rightarrow> nat \<Rightarrow> nat \<times> bool \<times> bool" where
  "scan_hex_number r src start =
     (let i0 = start + 2;
          digits = scan_digits r is_hex_digit src i0;
          i1 = i0 + digits;
          fraction = (hex_float r \<and> at src i1 = CHR ''.'' \<and> (is_hex_digit (at src (i1 + 1)) \<or> digits \<noteq> 0));
          i2 = (if fraction then i1 + (1 + scan_digits r is_hex_digit src (i1 + 1)) else i1);
          expo = (if hex_float r \<and> (at src i2 = CHR ''p'' \<or> at src i2 = CHR ''P'')
                  then exponent_end r src i2 else None);
          i3 = (case expo of None \<Rightarrow> i2 | Some j \<Rightarrow> j)
      in (i3, fraction \<or> expo \<noteq> None, digits = 0 \<and> \<not> (fraction \<and> i3 > start + 3)))"

definition scan_prefixed_number :: "lexer_rules \<Rightarrow> (char \<Rightarrow> bool) \<Rightarrow> string \<Rightarrow> nat \<Rightarrow> nat \<times> bool \<times> bool" where
  "scan_prefixed_number r accept src start =
     (let digits = scan_digits r accept src (start + 2) in (start + 2 + digits, False, digits = 0))"

definition scan_decimal_number :: "lexer_rules \<Rightarrow> string \<Rightarrow> nat \<Rightarrow> nat \<times> bool \<times> bool" where
  "scan_decimal_number r src start =
     (let i0 = start + scan_digits r is_dec_digit src start;
          frac = (at src i0 = CHR ''.'' \<and> digit_at src (i0 + 1));
          dot = (\<not> frac \<and> decimal_trailing_dot r \<and> at src i0 = CHR ''.'' \<and> i0 > start
                 \<and> at src (i0 + 1) \<noteq> CHR ''.'');
          i1 = (if frac then i0 + (1 + scan_digits r is_dec_digit src (i0 + 1)) else if dot then i0 + 1 else i0);
          expo = (if at src i1 = CHR ''e'' \<or> at src i1 = CHR ''E'' then exponent_end r src i1 else None);
          i2 = (case expo of None \<Rightarrow> i1 | Some j \<Rightarrow> j)
      in (i2, frac \<or> dot \<or> expo \<noteq> None, False))"

definition scan_number :: "lexer_rules \<Rightarrow> string \<Rightarrow> position \<Rightarrow> token \<times> position" where
  "scan_number r src c =
     (let start = p_pos c;
          second = at src (start + 1);
          zero = (at src start = CHR ''0'');
          (i, floating, malformed) =
            (if hex_binary_prefixes r \<and> zero \<and> (second = CHR ''x'' \<or> second = CHR ''X'')
             then scan_hex_number r src start
             else if hex_binary_prefixes r \<and> zero \<and> (second = CHR ''b'' \<or> second = CHR ''B'')
             then scan_prefixed_number r (\<lambda>ch. ch = CHR ''0'' \<or> ch = CHR ''1'') src start
             else if octal_prefix r \<and> zero \<and> (second = CHR ''o'' \<or> second = CHR ''O'')
             then scan_prefixed_number r (\<lambda>ch. 48 \<le> code ch \<and> code ch \<le> 55) src start
             else scan_decimal_number r src start);
          i' = (if \<not> malformed then i + number_suffix_length r src i else i);
          glued = (i' < length src \<and> is_base_ident_continue (src ! i'));
          malformed' = (malformed \<or> (glued \<and> \<not> user_defined_suffixes r));
          i'' = (if glued then skip_while (is_ident_continue r) src i' else i')
      in emit src c (if malformed' then T_error else if floating then T_floating else T_integer) (i'' - start))"

definition longest_operator :: "lexer_rules \<Rightarrow> string \<Rightarrow> nat \<Rightarrow> nat" where
  "longest_operator r src i = longest_match src i 0 (operators r)"


section \<open>scan\<close>

text \<open>A comment of the given length: an error token, skipped, or a comment token.\<close>

definition finish_comment ::
    "lexer_rules \<Rightarrow> string \<Rightarrow> position \<Rightarrow> nat \<Rightarrow> bool \<Rightarrow> (token \<times> position) + position" where
  "finish_comment r src c len terminated =
     (if \<not> terminated then Inl (emit src c T_error len)
      else if skip_comments r then Inr (advance_to src c (p_pos c + len))
      else Inl (emit src c T_comment len))"

definition scan_line_comment_token ::
    "lexer_rules \<Rightarrow> string \<Rightarrow> position \<Rightarrow> nat \<Rightarrow> (token \<times> position) + position" where
  "scan_line_comment_token r src c marker =
     (let (opener, level) = (if long_bracket_comments r then long_bracket_open src (p_pos c + marker) else (0, 0))
      in if opener \<noteq> 0
         then (let (len, terminated) = scan_long_bracket src (p_pos c + marker) opener level
               in finish_comment r src c (marker + len) terminated)
         else finish_comment r src c (scan_line_comment r src (p_pos c)) True)"

text \<open>The part of the loop body behind whitespace, directives and comments: it always emits.\<close>

definition scan_lexeme :: "lexer_rules \<Rightarrow> string \<Rightarrow> position \<Rightarrow> token \<times> position" where
  "scan_lexeme r src c =
     (let pos = p_pos c; ch = src ! pos; (lb_open, lb_level) = long_bracket_open src pos
      in if long_bracket_strings r \<and> lb_open \<noteq> 0
         then (let (len, terminated) = scan_long_bracket src pos lb_open lb_level
               in emit src c (if terminated then T_string else T_error) len)
         else if contains_byte (quotes r) ch \<or> contains_byte (char_quotes r) ch then scan_quote_like r src c 0
         else if string_prefixes r \<noteq> [] \<and> is_ident_start r ch \<and> string_prefix_length r src pos \<noteq> 0
         then scan_quote_like r src c (string_prefix_length r src pos)
         else if numbers r \<and> datetime_literals r \<and> is_dec_digit ch \<and> datetime_length src pos \<noteq> 0
         then emit src c T_datetime (datetime_length src pos)
         else if numbers r \<and> (is_dec_digit ch \<or> (ch = CHR ''.'' \<and> is_dec_digit (at src (pos + 1))))
         then scan_number r src c
         else if is_ident_start r ch
         then (let len = skip_while (is_ident_continue r) src (pos + 1) - pos;
                   word = take len (drop pos src);
                   is_keyword = (if keywords_ignore_case r then contains_ignore_case (keyword_words r) word
                                 else contains (keyword_words r) word)
               in emit src c (if is_keyword then T_keyword else T_identifier) len)
         else if longest_operator r src pos \<noteq> 0 then emit src c T_op (longest_operator r src pos)
         else if contains_byte (punctuation r) ch then emit src c T_punctuation 1
         else emit src c T_error 1)"

text \<open>One iteration of the loop at an offset before the end: a token, or the place where the loop
  continues.\<close>

definition scan_step :: "lexer_rules \<Rightarrow> string \<Rightarrow> position \<Rightarrow> (token \<times> position) + position" where
  "scan_step r src c =
     (let pos = p_pos c; ch = src ! pos; nl = newline_length src pos; ws = scan_whitespace src pos;
          marker = line_comment_marker r src pos
      in if nl \<noteq> 0
         then (if skip_whitespace r then Inr (advance_to src c (pos + nl)) else Inl (emit src c T_newline nl))
         else if ws \<noteq> 0
         then (if skip_whitespace r then Inr (advance_to src c (pos + ws)) else Inl (emit src c T_whitespace ws))
         else if directive_prefix r \<noteq> CHR 0x00 \<and> ch = directive_prefix r \<and> first_on_line src pos
         then Inl (emit src c T_directive (scan_directive r src pos))
         else if marker \<noteq> 0 then scan_line_comment_token r src c marker
         else if starts_with_at src pos (block_comment_open r)
         then (let (len, terminated) = scan_block_comment r src pos in finish_comment r src c len terminated)
         else Inl (scan_lexeme r src c))"

section \<open>Bounds of the scanning loops\<close>

lemma skip_while_ge: "i \<le> skip_while P src i"
  by (induction P src i rule: skip_while.induct) (subst skip_while.simps, auto)

lemma whitespace_end_ge: "i \<le> whitespace_end src i"
  by (induction src i rule: whitespace_end.induct) (subst whitespace_end.simps, auto)

lemma line_end_ge: "i \<le> line_end r src i"
proof (induction r src i rule: line_end.induct)
  case (1 r src i)
  then show ?case by (subst line_end.simps) auto
qed

lemma digits_end_ge: "i \<le> digits_end r a src index i"
  by (induction r a src index i rule: digits_end.induct) (subst digits_end.simps, auto)

lemma line_end_gt: "i < length src \<Longrightarrow> newline_length src i = 0 \<Longrightarrow> i < line_end r src i"
  using line_end_ge [of "Suc i" r src] line_end_ge [of "i + continuation_length r src i" r src]
  by (subst line_end.simps) auto

lemma quoted_loop_ge: "i \<le> fst (quoted_loop r src q e t m i)"
proof (induction r src q e t m i rule: quoted_loop.induct)
  case (1 r src q e t m i)
  then show ?case by (subst quoted_loop.simps) auto
qed

lemma scan_quoted_pos:
  assumes "index < length src"
  shows "0 < fst (scan_quoted r src index)"
proof -
  obtain q e t m where eq: "scan_quoted r src index =
      (case quoted_loop r src q e t m (index + (if t then 3 else 1)) of
         (i, terminated) \<Rightarrow> ((if i > length src then length src else i) - index, terminated))"
    unfolding scan_quoted_def Let_def by blast
  obtain i tm where i: "quoted_loop r src q e t m (index + (if t then 3 else 1)) = (i, tm)"
    by fastforce
  then have "index < i" using quoted_loop_ge [of "index + (if t then 3 else 1)" r src q e t m]
    by (auto split: if_splits)
  then show ?thesis using assms by (simp add: eq i)
qed

lemma raw_body_loop_pos: "q < length src \<Longrightarrow> q < i \<Longrightarrow> 0 < fst (raw_body_loop src q d i)"
proof (induction src q d i rule: raw_body_loop.induct)
  case (1 src q d i)
  then show ?case by (subst raw_body_loop.simps) auto
qed

lemma scan_raw_string_pos: "q < length src \<Longrightarrow> 0 < fst (scan_raw_string src q)"
  by (auto simp: scan_raw_string_def raw_body_loop_pos split: option.splits)

lemma long_bracket_loop_pos: "index < length src \<Longrightarrow> index \<le> i \<Longrightarrow> 0 < fst (long_bracket_loop src index level i)"
proof (induction src index level i rule: long_bracket_loop.induct)
  case (1 src index level i)
  then show ?case by (subst long_bracket_loop.simps) auto
qed

lemma block_comment_loop_pos:
  "index < length src \<Longrightarrow> index \<le> i \<Longrightarrow> 0 < fst (block_comment_loop r src index depth i)"
proof (induction r src index depth i rule: block_comment_loop.induct)
  case (1 r src index depth i)
  then show ?case
    by (subst block_comment_loop.simps) (auto simp: Let_def neq_Nil_conv dest!: starts_with_at_bounds)
qed


section \<open>Every iteration makes progress\<close>

definition emits :: "string \<Rightarrow> position \<Rightarrow> token \<times> position \<Rightarrow> bool" where
  "emits src c res \<longleftrightarrow> (\<exists>kind len. res = emit src c kind len \<and> 0 < len \<and> kind \<noteq> T_end)"

lemma emitsI: "0 < len \<Longrightarrow> kind \<noteq> T_end \<Longrightarrow> emits src c (emit src c kind len)"
  by (auto simp: emits_def)

lemma scan_quote_like_emits:
  assumes "p_pos c + pre < length src"
  shows "emits src c (scan_quote_like r src c pre)"
proof -
  let ?qi = "p_pos c + pre"
  obtain len tm where res: "(if cpp_raw_strings r \<and> pre \<noteq> 0 \<and> src ! (?qi - 1) = CHR ''R''
                \<and> contains_byte (quotes r) (src ! ?qi)
             then scan_raw_string src ?qi else scan_quoted r src ?qi) = (len, tm)"
    by fastforce
  have len: "0 < len"
    using res scan_raw_string_pos [OF assms] scan_quoted_pos [OF assms, of r] by (auto split: if_splits)
  have "p_pos c < skip_while (is_ident_continue r) src (p_pos c + (pre + len))"
    using len skip_while_ge [of "p_pos c + (pre + len)" "is_ident_continue r" src] by simp
  then show ?thesis
    using len unfolding scan_quote_like_def Let_def res by (auto intro!: emitsI)
qed

lemma starts_with_at_last:
  assumes "starts_with_at src i p" and "contains_byte qs (at src (i + length p))"
    and "CHR 0x00 \<notin> set qs"
  shows "i + length p < length src"
  using assms by (auto simp: at_def contains_byte_def split: if_splits)


lemma scan_digits_pos: "i < length src \<Longrightarrow> a (src ! i) \<Longrightarrow> 0 < scan_digits r a src i"
  using digits_end_ge [of "Suc i" r a src i] unfolding scan_digits_def
  by (subst digits_end.simps) auto

lemma exponent_end_gt: "exponent_end r src i = Some j \<Longrightarrow> i < j"
  by (auto simp: exponent_end_def Let_def split: if_splits)

lemma scan_decimal_number_gt:
  assumes "start < length src"
    and "is_dec_digit (src ! start) \<or> src ! start = CHR ''.'' \<and> digit_at src (start + 1)"
  shows "start < fst (scan_decimal_number r src start)"
proof -
  define i0 where "i0 = start + scan_digits r is_dec_digit src start"
  define frac where "frac = (at src i0 = CHR ''.'' \<and> digit_at src (i0 + 1))"
  define dot where "dot = (\<not> frac \<and> decimal_trailing_dot r \<and> at src i0 = CHR ''.'' \<and> i0 > start
                 \<and> at src (i0 + 1) \<noteq> CHR ''.'')"
  define i1 where "i1 = (if frac then i0 + (1 + scan_digits r is_dec_digit src (i0 + 1)) else if dot then i0 + 1 else i0)"
  define expo where "expo = (if at src i1 = CHR ''e'' \<or> at src i1 = CHR ''E'' then exponent_end r src i1 else None)"
  have eq: "fst (scan_decimal_number r src start) = (case expo of None \<Rightarrow> i1 | Some j \<Rightarrow> j)"
    unfolding scan_decimal_number_def Let_def expo_def i1_def dot_def frac_def i0_def by simp
  have "start < i1"
  proof (cases "is_dec_digit (src ! start)")
    case True
    then have "start < i0" using scan_digits_pos [of start src is_dec_digit r] assms(1) by (simp add: i0_def)
    then show ?thesis by (auto simp: i1_def)
  next
    case False
    have "start \<le> i0" by (simp add: i0_def)
    have "frac" if "i0 = start"
      using False assms that by (auto simp: frac_def at_def)
    then show ?thesis using \<open>start \<le> i0\<close> by (cases "i0 = start") (auto simp: i1_def)
  qed
  moreover have "i1 < j" if "expo = Some j" for j
    using that exponent_end_gt [of r src i1 j] by (auto simp: expo_def split: if_splits)
  ultimately show ?thesis by (fastforce simp: eq split: option.splits)
qed

lemma scan_hex_number_gt: "start < fst (scan_hex_number r src start)"
  by (auto simp: scan_hex_number_def Let_def split: option.splits if_splits dest!: exponent_end_gt)

lemma scan_number_emits:
  assumes "p_pos c < length src"
    and "is_dec_digit (src ! p_pos c) \<or> src ! p_pos c = CHR ''.'' \<and> digit_at src (p_pos c + 1)"
  shows "emits src c (scan_number r src c)"
proof -
  let ?s = "p_pos c"
  define res where "res =
            (if hex_binary_prefixes r \<and> at src ?s = CHR ''0'' \<and> (at src (?s + 1) = CHR ''x'' \<or> at src (?s + 1) = CHR ''X'')
             then scan_hex_number r src ?s
             else if hex_binary_prefixes r \<and> at src ?s = CHR ''0'' \<and> (at src (?s + 1) = CHR ''b'' \<or> at src (?s + 1) = CHR ''B'')
             then scan_prefixed_number r (\<lambda>ch. ch = CHR ''0'' \<or> ch = CHR ''1'') src ?s
             else if octal_prefix r \<and> at src ?s = CHR ''0'' \<and> (at src (?s + 1) = CHR ''o'' \<or> at src (?s + 1) = CHR ''O'')
             then scan_prefixed_number r (\<lambda>ch. 48 \<le> code ch \<and> code ch \<le> 55) src ?s
             else scan_decimal_number r src ?s)"
  obtain i fl mal where i: "res = (i, fl, mal)" by (cases res) auto
  have "?s < fst res"
    unfolding res_def using scan_decimal_number_gt [OF assms, of r] scan_hex_number_gt [of ?s r src]
    by (auto simp: scan_prefixed_number_def Let_def)
  then have gt: "?s < i" by (simp add: i)
  define i' where "i' = (if \<not> mal then i + number_suffix_length r src i else i)"
  have gt': "?s < i'" using gt by (simp add: i'_def)
  have "?s < skip_while (is_ident_continue r) src i'"
    using gt' skip_while_ge [of i' "is_ident_continue r" src] by simp
  moreover have "scan_number r src c =
      (let glued = (i' < length src \<and> is_base_ident_continue (src ! i'));
          malformed' = (mal \<or> (glued \<and> \<not> user_defined_suffixes r));
          i'' = (if glued then skip_while (is_ident_continue r) src i' else i')
      in emit src c (if malformed' then T_error else if fl then T_floating else T_integer) (i'' - ?s))"
    unfolding scan_number_def Let_def i'_def by (fold res_def) (simp add: i)
  ultimately show ?thesis using gt' by (auto simp: Let_def intro!: emitsI)
qed

text \<open>A string prefix is followed by a quote byte, so the quote lies inside the source unless NUL is
  declared a quote byte.\<close>

definition rules_ok :: "lexer_rules \<Rightarrow> bool" where
  "rules_ok r \<longleftrightarrow> string_prefixes r = [] \<or> (CHR 0x00 \<notin> set (quotes r) \<and> CHR 0x00 \<notin> set (char_quotes r))"

lemma string_prefix_length_bound:
  assumes "string_prefix_length r src i \<noteq> 0" and "rules_ok r"
  shows "i + string_prefix_length r src i < length src"
proof -
  let ?f = "\<lambda>best p. let nxt = at src (i + length p)
                     in if length p > best \<and> starts_with_at src i p
                           \<and> (contains_byte (quotes r) nxt \<or> contains_byte (char_quotes r) nxt)
                        then length p else best"
  have fold: "b = 0 \<or> i + b < length src \<Longrightarrow> CHR 0x00 \<notin> set (quotes r) \<Longrightarrow> CHR 0x00 \<notin> set (char_quotes r) \<Longrightarrow>
        foldl ?f b ps = 0 \<or> i + foldl ?f b ps < length src" for b ps
    by (induction ps arbitrary: b) (auto simp: Let_def dest: starts_with_at_last)
  show ?thesis
    using fold [of 0 "string_prefixes r"] assms unfolding string_prefix_length_def rules_ok_def by fastforce
qed

lemma emits_if:
  "(b \<Longrightarrow> emits src c x) \<Longrightarrow> (\<not> b \<Longrightarrow> emits src c y) \<Longrightarrow> emits src c (if b then x else y)"
  by simp

lemma scan_lexeme_emits:
  assumes "p_pos c < length src" and "rules_ok r"
  shows "emits src c (scan_lexeme r src c)"
proof -
  obtain o' l where lb: "long_bracket_open src (p_pos c) = (o', l)" by fastforce
  obtain len tm where sb: "scan_long_bracket src (p_pos c) o' l = (len, tm)" by fastforce
  have bracket: "0 < len"
    using long_bracket_loop_pos [OF assms(1), of "p_pos c + o'" l] sb by (simp add: scan_long_bracket_def)
  have ident: "0 < skip_while (is_ident_continue r) src (p_pos c + 1) - p_pos c"
    using skip_while_ge [of "p_pos c + 1" "is_ident_continue r" src] by simp
  have quote: "emits src c (scan_quote_like r src c 0)"
    by (rule scan_quote_like_emits) (simp add: assms(1))
  show ?thesis
    unfolding scan_lexeme_def Let_def lb sb prod.case
    by (intro emits_if emitsI quote scan_number_emits scan_quote_like_emits assms(1)
          string_prefix_length_bound assms(2)) (use bracket ident in auto)
qed

text \<open>What one iteration may do: emit a non-empty token, or skip at least one byte.\<close>

definition step_ok :: "lexer_rules \<Rightarrow> string \<Rightarrow> position \<Rightarrow> (token \<times> position) + position \<Rightarrow> bool" where
  "step_ok r src c x \<longleftrightarrow> (\<exists>res. x = Inl res \<and> (rules_ok r \<longrightarrow> emits src c res))
     \<or> (\<exists>len. x = Inr (advance_to src c (p_pos c + len)) \<and> 0 < len \<and> (skip_whitespace r \<or> skip_comments r))"

lemma step_ok_if:
  "(b \<Longrightarrow> step_ok r src c x) \<Longrightarrow> (\<not> b \<Longrightarrow> step_ok r src c y) \<Longrightarrow> step_ok r src c (if b then x else y)"
  by simp

lemma step_ok_Inl: "(rules_ok r \<Longrightarrow> emits src c res) \<Longrightarrow> step_ok r src c (Inl res)"
  by (simp add: step_ok_def)

lemma step_ok_Inr:
  "0 < len \<Longrightarrow> skip_whitespace r \<or> skip_comments r \<Longrightarrow> step_ok r src c (Inr (advance_to src c (p_pos c + len)))"
  by (auto simp: step_ok_def)

lemma finish_comment_ok: "0 < len \<Longrightarrow> step_ok r src c (finish_comment r src c len tm)"
  unfolding finish_comment_def by (intro step_ok_if step_ok_Inl emitsI step_ok_Inr) auto

lemma scan_step_ok:
  assumes "p_pos c < length src"
  shows "step_ok r src c (scan_step r src c)"
proof -
  let ?p = "p_pos c"
  have line: "newline_length src ?p = 0 \<Longrightarrow> 0 < scan_line_comment r src ?p"
    using line_end_gt [OF assms] by (simp add: scan_line_comment_def)
  obtain bl bt where blk: "scan_block_comment r src ?p = (bl, bt)" by fastforce
  have bl: "0 < bl"
    using block_comment_loop_pos [OF assms, of "?p + length (block_comment_open r)" r 1] blk
    by (simp add: scan_block_comment_def)
  have cmt: "step_ok r src c (scan_line_comment_token r src c marker)"
    if "marker \<noteq> 0" "newline_length src ?p = 0" for marker
    using line that by (auto simp: scan_line_comment_token_def finish_comment_ok split: prod.splits)
  show ?thesis
    unfolding scan_step_def Let_def blk prod.case
    by (intro step_ok_if step_ok_Inl step_ok_Inr emitsI cmt finish_comment_ok scan_lexeme_emits assms bl)
       (use line in \<open>auto simp: scan_directive_def\<close>)
qed

lemma advance_to_pos [simp]: "p_pos (advance_to src c target) = min target (length src)"
  by (auto simp: advance_to_def Let_def split: prod.splits)

lemma scan_step_Inr_pos:
  assumes "p_pos c < length src" and "scan_step r src c = Inr c'"
  shows "p_pos c < p_pos c'"
  using scan_step_ok [OF assms(1), of r] assms by (auto simp: step_ok_def)

function scan :: "lexer_rules \<Rightarrow> string \<Rightarrow> position \<Rightarrow> token \<times> position" where
  "scan r src c =
     (if p_pos c \<ge> length src
      then (\<lparr>tok_kind = T_end, tok_text = [], tok_offset = length src, tok_line = p_line c,
             tok_column = p_column c\<rparr>, c)
      else (case scan_step r src c of Inl res \<Rightarrow> res | Inr c' \<Rightarrow> scan r src c'))"
  by pat_completeness auto
termination
proof (relation "measure (\<lambda>(r, src, c). length src - p_pos c)", goal_cases)
  case (2 r src c c')
  then show ?case using scan_step_Inr_pos [of c src r c'] by auto
qed simp

declare scan.simps [simp del]

section \<open>The lexer class\<close>

record lexer =
  lx_source :: string
  lx_rules :: lexer_rules
  lx_cursor :: position
  lx_ended :: bool

definition lexer_init :: "string \<Rightarrow> lexer_rules \<Rightarrow> lexer" where
  "lexer_init src r = \<lparr>lx_source = src, lx_rules = r, lx_cursor = init_position, lx_ended = False\<rparr>"

definition lexer_next :: "lexer \<Rightarrow> token \<times> lexer" where
  "lexer_next lx =
     (let (result, c) = scan (lx_rules lx) (lx_source lx) (lx_cursor lx);
          lx1 = lx\<lparr>lx_cursor := c\<rparr>
      in (result, if tok_kind result = T_end then lx1\<lparr>lx_ended := True\<rparr> else lx1))"

definition lexer_peek :: "lexer \<Rightarrow> token" where
  "lexer_peek lx = fst (scan (lx_rules lx) (lx_source lx) (lx_cursor lx))"

definition lexer_reset :: "lexer \<Rightarrow> lexer" where
  "lexer_reset lx = lx\<lparr>lx_cursor := init_position, lx_ended := False\<rparr>"

definition lexer_at_end :: "lexer \<Rightarrow> bool" where
  "lexer_at_end lx = lx_ended lx"

definition lexer_state :: "lexer \<Rightarrow> position" where
  "lexer_state lx = lx_cursor lx"

definition lexer_restore :: "lexer \<Rightarrow> position \<Rightarrow> lexer" where
  "lexer_restore lx w = lx\<lparr>lx_cursor := w, lx_ended := False\<rparr>"

definition position_after :: "lexer \<Rightarrow> token \<Rightarrow> position" where
  "position_after lx tok =
     advance_to (lx_source lx) \<lparr>p_pos = tok_offset tok, p_line = tok_line tok, p_column = tok_column tok\<rparr>
       (tok_offset tok + length (tok_text tok))"

definition lexer_set_source :: "lexer \<Rightarrow> string \<Rightarrow> lexer" where
  "lexer_set_source lx src = lx\<lparr>lx_source := src, lx_ended := False\<rparr>"

definition lexer_set_rules :: "lexer \<Rightarrow> lexer_rules \<Rightarrow> lexer" where
  "lexer_set_rules lx r = lx\<lparr>lx_rules := r\<rparr>"

definition lexer_take_raw :: "lexer \<Rightarrow> string \<Rightarrow> token \<times> lexer" where
  "lexer_take_raw lx stop_bytes =
     (let c = lx_cursor lx;
          i = skip_while (\<lambda>ch. \<not> contains_byte stop_bytes ch) (lx_source lx) (p_pos c);
          (t, c') = emit (lx_source lx) c T_string (i - p_pos c)
      in (t, lx\<lparr>lx_cursor := c'\<rparr>))"

section \<open>Positions\<close>

text \<open>The place of an offset: one line per newline byte before it, one column per byte since.\<close>

definition place_of :: "string \<Rightarrow> nat \<Rightarrow> position" where
  "place_of src i = (let (l, c) = advance_chars (take i src) (1, 1) in \<lparr>p_pos = i, p_line = l, p_column = c\<rparr>)"

definition in_sync :: "string \<Rightarrow> position \<Rightarrow> bool" where
  "in_sync src c \<longleftrightarrow> p_pos c \<le> length src \<and> c = place_of src (p_pos c)"

lemma advance_chars_append: "advance_chars (xs @ ys) lc = advance_chars ys (advance_chars xs lc)"
  by (induction xs lc rule: advance_chars.induct) simp_all

lemma advance_to_place:
  assumes "in_sync src c" and "p_pos c \<le> target"
  shows "advance_to src c target = place_of src (min target (length src))"
proof -
  define limit where "limit = min target (length src)"
  have le: "p_pos c \<le> limit" using assms by (simp add: limit_def in_sync_def)
  have c: "(p_line c, p_column c) = advance_chars (take (p_pos c) src) (1, 1)"
  proof -
    obtain l k where lk: "advance_chars (take (p_pos c) src) (1, 1) = (l, k)" by fastforce
    have "c = \<lparr>p_pos = p_pos c, p_line = l, p_column = k\<rparr>"
      using assms(1) lk by (simp add: in_sync_def place_of_def)
    then have "p_line c = l" "p_column c = k" by (metis position.select_convs(2), metis position.select_convs(3))
    then show ?thesis by (simp add: lk)
  qed
  have "take limit src = take (p_pos c) src @ take (limit - p_pos c) (drop (p_pos c) src)"
    using le by (metis le_add_diff_inverse take_add)
  then have "advance_chars (take (limit - p_pos c) (drop (p_pos c) src)) (p_line c, p_column c)
      = advance_chars (take limit src) (1, 1)"
    by (simp add: c advance_chars_append)
  moreover have "(if target < length src then target else length src) = limit" by (simp add: limit_def min_def)
  ultimately show ?thesis unfolding advance_to_def place_of_def Let_def limit_def [symmetric] by simp
qed

lemma in_sync_advance: "in_sync src c \<Longrightarrow> p_pos c \<le> target \<Longrightarrow> in_sync src (advance_to src c target)"
  using advance_to_place [of src c target] by (simp add: in_sync_def place_of_def split: prod.splits)

lemma in_sync_init [simp]: "in_sync src init_position"
  by (simp add: in_sync_def place_of_def init_position_def)

text \<open>What \<^verbatim>\<open>scan\<close> returns from a place in sync: nothing left, or a non-empty piece of the source with its
  place, and the cursor directly behind it.\<close>

definition scanned :: "lexer_rules \<Rightarrow> string \<Rightarrow> position \<Rightarrow> token \<Rightarrow> position \<Rightarrow> bool" where
  "scanned r src c t c' \<longleftrightarrow>
     (if tok_kind t = T_end then tok_text t = [] \<and> p_pos c' = length src \<and> tok_offset t = length src
      else tok_text t \<noteq> [] \<and> p_pos c' = tok_offset t + length (tok_text t)
           \<and> tok_text t = take (length (tok_text t)) (drop (tok_offset t) src))
     \<and> p_pos c \<le> tok_offset t \<and> tok_offset t \<le> length src \<and> in_sync src c'
     \<and> place_of src (tok_offset t) = \<lparr>p_pos = tok_offset t, p_line = tok_line t, p_column = tok_column t\<rparr>
     \<and> (\<not> skip_whitespace r \<and> \<not> skip_comments r \<longrightarrow> tok_offset t = p_pos c)"

lemma scanned_token:
  assumes "scanned r src c t c'" and "tok_kind t \<noteq> T_end"
  shows "tok_text t \<noteq> []" and "p_pos c' = tok_offset t + length (tok_text t)"
    and "tok_text t = take (length (tok_text t)) (drop (tok_offset t) src)"
    and "p_pos c \<le> tok_offset t" and "p_pos c < p_pos c'" and "p_pos c' \<le> length src"
proof -
  show t: "tok_text t \<noteq> []" "p_pos c' = tok_offset t + length (tok_text t)"
    "tok_text t = take (length (tok_text t)) (drop (tok_offset t) src)" "p_pos c \<le> tok_offset t"
    using assms unfolding scanned_def by simp_all
  show "p_pos c' \<le> length src" using assms(1) unfolding scanned_def in_sync_def by blast
  have "0 < length (tok_text t)" using t(1) by simp
  then show "p_pos c < p_pos c'" using t(2,4) by linarith
qed

lemma scanned_end:
  assumes "scanned r src c t c'" and "tok_kind t = T_end"
  shows "p_pos c' = length src" and "tok_offset t = length src"
  using assms unfolding scanned_def by simp_all

lemma scanned_no_skip:
  "scanned r src c t c' \<Longrightarrow> \<not> skip_whitespace r \<Longrightarrow> \<not> skip_comments r \<Longrightarrow> tok_offset t = p_pos c"
  unfolding scanned_def by blast

lemma place_of_sync:
  assumes "in_sync src c"
  shows "place_of src (p_pos c) = \<lparr>p_pos = p_pos c, p_line = p_line c, p_column = p_column c\<rparr>"
proof -
  have "place_of src (p_pos c) = c" using assms by (simp add: in_sync_def)
  then show ?thesis by simp
qed

lemma scan_correct:
  "rules_ok r \<Longrightarrow> in_sync src c \<Longrightarrow> scan r src c = (t, c') \<Longrightarrow> scanned r src c t c'"
proof (induction r src c rule: scan.induct)
  case (1 r src c)
  show ?case
  proof (cases "p_pos c \<ge> length src")
    case True
    then have "p_pos c = length src" using "1.prems"(2) by (simp add: in_sync_def)
    then show ?thesis using True "1.prems" place_of_sync [OF "1.prems"(2)]
      by (auto simp: scan.simps [of r src c] scanned_def)
  next
    case False
    then have lt: "p_pos c < length src" by simp
    show ?thesis
    proof (cases "scan_step r src c")
      case (Inl res)
      then obtain k n where res: "res = emit src c k n" "0 < n" "k \<noteq> T_end"
        using scan_step_ok [OF lt, of r] "1.prems"(1) by (auto simp: step_ok_def emits_def)
      have "(t, c') = emit src c k n" using "1.prems"(3) lt Inl res by (simp add: scan.simps [of r src c])
      then show ?thesis
        using res lt place_of_sync [OF "1.prems"(2)] in_sync_advance [OF "1.prems"(2), of "p_pos c + n"]
        by (auto simp: emit_def scanned_def min_def)
    next
      case (Inr d)
      then obtain n where d: "d = advance_to src c (p_pos c + n)" "skip_whitespace r \<or> skip_comments r"
        using scan_step_ok [OF lt, of r] by (auto simp: step_ok_def)
      have "scanned r src d t c'"
        using "1.IH" [OF False Inr] "1.prems" in_sync_advance [OF "1.prems"(2), of "p_pos c + n"] d lt Inr
        by (simp add: scan.simps [of r src c])
      moreover have "p_pos c < p_pos d" using scan_step_Inr_pos [OF lt Inr] .
      ultimately show ?thesis using d(2) by (auto simp: scanned_def)
    qed
  qed
qed


section \<open>Token streams\<close>

text \<open>The tokens that repeated calls of \<^verbatim>\<open>next()\<close> return before \<^verbatim>\<open>end\<close>, for at most the given number of
  calls, and whether \<^verbatim>\<open>end\<close> was reached.\<close>

fun lex_all :: "nat \<Rightarrow> lexer \<Rightarrow> token list \<times> bool" where
  "lex_all 0 lx = ([], False)"
| "lex_all (Suc n) lx =
     (let (t, lx') = lexer_next lx
      in if tok_kind t = T_end then ([], True)
         else (let (ts, e) = lex_all n lx' in (t # ts, e)))"

definition lexer_ok :: "lexer \<Rightarrow> bool" where
  "lexer_ok lx \<longleftrightarrow> rules_ok (lx_rules lx) \<and> in_sync (lx_source lx) (lx_cursor lx)"

lemma lexer_init_ok [simp]: "lexer_ok (lexer_init src r) \<longleftrightarrow> rules_ok r"
  by (simp add: lexer_ok_def lexer_init_def)

lemma lexer_next_ok:
  assumes "lexer_ok lx" and "lexer_next lx = (t, lx')"
  shows "lexer_ok lx'" and "lx_source lx' = lx_source lx" and "lx_rules lx' = lx_rules lx"
    and "scanned (lx_rules lx) (lx_source lx) (lx_cursor lx) t (lx_cursor lx')"
    and "tok_kind t = T_end \<Longrightarrow> lexer_at_end lx'"
proof -
  obtain c' where c: "scan (lx_rules lx) (lx_source lx) (lx_cursor lx) = (t, c')"
      "lx' = (if tok_kind t = T_end then lx\<lparr>lx_cursor := c', lx_ended := True\<rparr> else lx\<lparr>lx_cursor := c'\<rparr>)"
    using assms(2) by (auto simp: lexer_next_def Let_def split: prod.splits)
  have sc: "scanned (lx_rules lx) (lx_source lx) (lx_cursor lx) t c'"
    using scan_correct [OF _ _ c(1)] assms(1) by (simp add: lexer_ok_def)
  then show "lexer_ok lx'" "lx_source lx' = lx_source lx" "lx_rules lx' = lx_rules lx"
    "scanned (lx_rules lx) (lx_source lx) (lx_cursor lx) t (lx_cursor lx')"
    using assms(1) c(2) by (auto simp: lexer_ok_def scanned_def)
  show "tok_kind t = T_end \<Longrightarrow> lexer_at_end lx'" using c(2) by (simp add: lexer_at_end_def)
qed

lemma lex_all_reaches_end:
  "lexer_ok lx \<Longrightarrow> length (lx_source lx) - p_pos (lx_cursor lx) < n \<Longrightarrow> snd (lex_all n lx)"
proof (induction n arbitrary: lx)
  case (Suc n)
  obtain t lx' where nx: "lexer_next lx = (t, lx')" by fastforce
  note ok = lexer_next_ok [OF Suc.prems(1) nx]
  show ?case
  proof (cases "tok_kind t = T_end")
    case False
    then have "p_pos (lx_cursor lx) < p_pos (lx_cursor lx')" "p_pos (lx_cursor lx') \<le> length (lx_source lx)"
      using scanned_token [OF ok(4) False] by blast+
    then have "length (lx_source lx') - p_pos (lx_cursor lx') < n"
      using Suc.prems(2) ok(2) by simp
    then show ?thesis using Suc.IH [OF ok(1)] False nx by (auto split: prod.splits)
  qed (simp add: nx)
qed simp

lemma lex_all_concat:
  "lexer_ok lx \<Longrightarrow> \<not> skip_whitespace (lx_rules lx) \<Longrightarrow> \<not> skip_comments (lx_rules lx) \<Longrightarrow>
   snd (lex_all n lx) \<Longrightarrow>
   concat (map tok_text (fst (lex_all n lx))) = drop (p_pos (lx_cursor lx)) (lx_source lx)"
proof (induction n arbitrary: lx)
  case (Suc n)
  obtain t lx' where nx: "lexer_next lx = (t, lx')" by fastforce
  note ok = lexer_next_ok [OF Suc.prems(1) nx]
  show ?case
  proof (cases "tok_kind t = T_end")
    case True
    then have "p_pos (lx_cursor lx) = length (lx_source lx)"
      using scanned_end [OF ok(4)] scanned_no_skip [OF ok(4)] Suc.prems by simp
    then show ?thesis using True nx by simp
  next
    case False
    obtain ts e where rest: "lex_all n lx' = (ts, e)" by fastforce
    have s: "tok_offset t = p_pos (lx_cursor lx)" "p_pos (lx_cursor lx') = tok_offset t + length (tok_text t)"
        "tok_text t = take (length (tok_text t)) (drop (tok_offset t) (lx_source lx))"
      using scanned_token [OF ok(4) False] scanned_no_skip [OF ok(4)] Suc.prems by blast+
    have "concat (map tok_text ts) = drop (p_pos (lx_cursor lx')) (lx_source lx)"
      using Suc.IH [OF ok(1)] Suc.prems False nx rest ok(2,3) by simp
    then have "tok_text t @ concat (map tok_text ts)
        = take (length (tok_text t)) (drop (tok_offset t) (lx_source lx))
          @ drop (length (tok_text t)) (drop (tok_offset t) (lx_source lx))"
      using s(2) s(3) [symmetric] by (simp only: drop_drop add.commute)
    then have "tok_text t @ concat (map tok_text ts) = drop (tok_offset t) (lx_source lx)"
      by (simp only: append_take_drop_id)
    then show ?thesis using False nx rest s(1) by simp
  qed
qed simp


text \<open>Where an offset lies in a text: the line is one more than the newline bytes before it, the column one more than the
  bytes since the last newline; both wrap at \<open>2\<^sup>3\<^sup>2\<close>. The cursor of the lexer counts the same.\<close>

definition line_at :: "string \<Rightarrow> nat \<Rightarrow> u32" where
  "line_at src i = of_nat (Suc (length (filter (\<lambda>ch. ch = CHR 0x0A) (take i src))))"

definition column_at :: "string \<Rightarrow> nat \<Rightarrow> u32" where
  "column_at src i = of_nat (Suc (length (takeWhile (\<lambda>ch. ch \<noteq> CHR 0x0A) (rev (take i src)))))"

lemma advance_chars_counts:
  "advance_chars cs (1, 1) =
     (of_nat (Suc (length (filter (\<lambda>ch. ch = CHR 0x0A) cs))), of_nat (Suc (length (takeWhile (\<lambda>ch. ch \<noteq> CHR 0x0A) (rev cs)))))"
  by (induction cs rule: rev_induct) (simp_all add: advance_chars_append algebra_simps)

lemma place_of_line_column: "place_of src i = \<lparr>p_pos = i, p_line = line_at src i, p_column = column_at src i\<rparr>"
  by (simp add: place_of_def advance_chars_counts line_at_def column_at_def)

text \<open>The tokens of a run, checked against the source: each is the piece of the source at its offset, its
  line and column are those of that offset, and it starts at or behind the end of the one before.\<close>

fun tokens_match :: "string \<Rightarrow> nat \<Rightarrow> token list \<Rightarrow> bool" where
  "tokens_match src from [] = True"
| "tokens_match src from (t # ts) =
     (tok_text t \<noteq> [] \<and> from \<le> tok_offset t
      \<and> tok_text t = take (length (tok_text t)) (drop (tok_offset t) src)
      \<and> tok_line t = line_at src (tok_offset t) \<and> tok_column t = column_at src (tok_offset t)
      \<and> tokens_match src (tok_offset t + length (tok_text t)) ts)"

lemma lex_all_match:
  "lexer_ok lx \<Longrightarrow> tokens_match (lx_source lx) (p_pos (lx_cursor lx)) (fst (lex_all n lx))"
proof (induction n arbitrary: lx)
  case (Suc n)
  obtain t lx' where nx: "lexer_next lx = (t, lx')" by fastforce
  note ok = lexer_next_ok [OF Suc.prems nx]
  show ?case
  proof (cases "tok_kind t = T_end")
    case False
    obtain ts e where rest: "lex_all n lx' = (ts, e)" by fastforce
    have "place_of (lx_source lx) (tok_offset t) = \<lparr>p_pos = tok_offset t, p_line = tok_line t, p_column = tok_column t\<rparr>"
      using ok(4) unfolding scanned_def by blast
    moreover have "tokens_match (lx_source lx) (tok_offset t + length (tok_text t)) ts"
      using Suc.IH [OF ok(1)] rest ok(2) scanned_token(2) [OF ok(4) False] by simp
    ultimately show ?thesis
      using False nx rest scanned_token [OF ok(4) False] by (simp add: place_of_line_column)
  qed (simp add: nx)
qed simp

lemma longest_match_maximal:
  "best \<le> longest_match src i best cands
   \<and> (\<forall>m \<in> set cands. starts_with_at src i m \<longrightarrow> length m \<le> longest_match src i best cands)
   \<and> (longest_match src i best cands = best
      \<or> (\<exists>m \<in> set cands. starts_with_at src i m \<and> length m = longest_match src i best cands))"
proof (induction cands arbitrary: best)
  case (Cons m cands)
  define b where "b = (if length m > best \<and> starts_with_at src i m then length m else best)"
  have step: "longest_match src i best (m # cands) = longest_match src i b cands"
    by (simp add: longest_match_def b_def)
  have b1: "best \<le> b" and b2: "starts_with_at src i m \<Longrightarrow> length m \<le> b"
    and b3: "b = best \<or> starts_with_at src i m \<and> b = length m"
    by (auto simp: b_def)
  let ?L = "longest_match src i b cands"
  note ih = Cons.IH [of b]
  have "best \<le> ?L" using b1 ih by linarith
  moreover have "length m \<le> ?L" if "starts_with_at src i m" using b2 [OF that] ih by linarith
  moreover have "?L = best \<or> (\<exists>m' \<in> set (m # cands). starts_with_at src i m' \<and> length m' = ?L)"
    using b3 ih by auto
  ultimately show ?case using ih unfolding step by simp
qed (simp add: longest_match_def)

section \<open>Properties\<close>

text \<open>C9: a loop over \<^verbatim>\<open>next()\<close> ends: within \<open>size + 1\<close> calls the lexer returns \<^verbatim>\<open>end\<close>, for every source, also a
  malformed one, and every rule set that does not have both string prefixes and the NUL byte as a quote; such a rule
  set makes the lexer read behind the source, see \<open>nul_quote_read_behind_source\<close>.\<close>

theorem lexer_terminates:
  assumes "rules_ok r"
  shows "snd (lex_all (length src + 1) (lexer_init src r))"
  by (rule lex_all_reaches_end) (simp_all add: assms, simp_all add: lexer_init_def init_position_def)

theorem lexer_terminates_witness:
  "snd (lex_all (length ''let x = 0x2A; // c'' + 1) (lexer_init ''let x = 0x2A; // c'' default_rules))"
  by (rule lexer_terminates) (simp add: rules_ok_def default_rules_def)

text \<open>C4: lexing is lossless: with whitespace and comments kept, the texts of the tokens put together
  are the source, byte for byte, also for malformed input.\<close>

theorem lexer_lossless:
  assumes "rules_ok r" and "\<not> skip_whitespace r" and "\<not> skip_comments r"
  shows "concat (map tok_text (fst (lex_all (length src + 1) (lexer_init src r)))) = src"
proof -
  have ok: "lexer_ok (lexer_init src r)" using assms(1) by simp
  have "snd (lex_all (length src + 1) (lexer_init src r))"
    by (rule lex_all_reaches_end [OF ok]) (simp add: lexer_init_def init_position_def)
  from lex_all_concat [OF ok _ _ this] assms show ?thesis
    by (simp add: lexer_init_def init_position_def)
qed

theorem lexer_lossless_witness:
  "concat (map tok_text (fst (lex_all (length ''if (a) 12ab'' + 1)
     (lexer_init ''if (a) 12ab'' (default_rules\<lparr>skip_whitespace := False, skip_comments := False\<rparr>))))) = ''if (a) 12ab''"
  by (rule lexer_lossless) (simp_all add: rules_ok_def default_rules_def)

text \<open>C8: every token of a run is the piece of the source at its offset; its line is one more than the number of newline
  bytes before it, and its column one more than the number of bytes since the last of them, both modulo \<open>2\<^sup>3\<^sup>2\<close>; and
  tokens do not overlap.\<close>

theorem lexer_tokens_match_source:
  assumes "rules_ok r"
  shows "tokens_match src 0 (fst (lex_all n (lexer_init src r)))"
proof -
  have "lexer_ok (lexer_init src r)" using assms by simp
  from lex_all_match [OF this, of n] show ?thesis by (simp add: lexer_init_def init_position_def)
qed

theorem lexer_tokens_match_source_witness:
  "tokens_match ''a + b'' 0 (fst (lex_all 3 (lexer_init ''a + b'' default_rules)))"
  by (rule lexer_tokens_match_source) (simp add: rules_ok_def default_rules_def)

text \<open>The validity check accepts the NUL byte as a quote behind a string prefix. At the end of a source that ends in such a
  prefix the byte behind the source then passes for the quote: the scanner of quoted text is called with the index
  \<open>size\<close> and reads \<^verbatim>\<open>source_[size]\<close>.\<close>

theorem nul_quote_read_behind_source:
  "let r = default_rules\<lparr>string_prefixes := [''u''], quotes := [CHR 0x00], char_quotes := []\<rparr>; src = ''u''; pre = string_prefix_length r src 0
   in lexer_rules_valid r \<and> \<not> rules_ok r \<and> is_ident_start r (src ! 0) \<and> pre \<noteq> 0 \<and> pre = length src"
  by code_simp

lemma position_after_scanned:
  assumes "scanned r src c t c'" and "tok_kind t \<noteq> T_end" and "lx_source lx = src"
  shows "position_after lx t = c'"
proof -
  let ?p = "\<lparr>p_pos = tok_offset t, p_line = tok_line t, p_column = tok_column t\<rparr>"
  note st = scanned_token [OF assms(1,2)]
  have "place_of src (tok_offset t) = ?p" and c': "in_sync src c'" using assms(1) by (auto simp: scanned_def)
  then have "in_sync src ?p" using assms(1) by (simp add: in_sync_def scanned_def)
  then have "position_after lx t = place_of src (min (tok_offset t + length (tok_text t)) (length src))"
    using advance_to_place [of src ?p] assms(3) by (simp add: position_after_def)
  also have "min (tok_offset t + length (tok_text t)) (length src) = p_pos c'" using st(2,6) by simp
  finally show ?thesis using c' by (simp add: in_sync_def)
qed

text \<open>\<^verbatim>\<open>peek()\<close> returns what \<^verbatim>\<open>next()\<close> returns, \<^verbatim>\<open>position_after(tok)\<close> is the place where the lexer
  continues behind a token, and restoring a saved \<^verbatim>\<open>state()\<close> replays the same token.\<close>

theorem lexer_peek_and_restore:
  assumes "lexer_ok lx" and "lexer_next lx = (t, lx')" and "tok_kind t \<noteq> T_end"
  shows "lexer_peek lx = t \<and> position_after lx t = lexer_state lx'
         \<and> fst (lexer_next (lexer_restore lx' (lexer_state lx))) = t"
proof -
  note ok = lexer_next_ok [OF assms(1,2)]
  have "position_after lx t = lexer_state lx'"
    using position_after_scanned [OF ok(4) assms(3) refl] by (simp add: lexer_state_def)
  moreover have "lexer_peek lx = t"
    using assms(2) by (auto simp: lexer_peek_def lexer_next_def Let_def split: prod.splits)
  moreover have "fst (lexer_next (lexer_restore lx' (lexer_state lx))) = lexer_peek lx"
    using ok(2,3) by (auto simp: lexer_peek_def lexer_next_def lexer_restore_def lexer_state_def Let_def split: prod.splits)
  ultimately show ?thesis by simp
qed

theorem lexer_peek_and_restore_witness:
  "lexer_peek (lexer_init ''ab'' default_rules)
     = fst (lexer_next (lexer_init ''ab'' default_rules))"
proof -
  let ?lx = "lexer_init ''ab'' default_rules"
  obtain t lx' where nx: "lexer_next ?lx = (t, lx')" by fastforce
  have ok: "lexer_ok ?lx" by (simp add: rules_ok_def default_rules_def)
  show ?thesis
  proof (cases "tok_kind t = T_end")
    case True
    then show ?thesis using nx by (auto simp: lexer_peek_def lexer_next_def Let_def split: prod.splits)
  next
    case False
    from lexer_peek_and_restore [OF ok nx False] nx show ?thesis by simp
  qed
qed

text \<open>operators are matched greedily: the operator token has the length of the longest operator
  of the rule set that the source continues with, whatever their order.\<close>

theorem longest_operator_maximal:
  "(\<forall>p \<in> set (operators r). starts_with_at src i p \<longrightarrow> length p \<le> longest_operator r src i)
   \<and> (longest_operator r src i \<noteq> 0 \<longrightarrow>
        (\<exists>p \<in> set (operators r). starts_with_at src i p \<and> length p = longest_operator r src i))"
  using longest_match_maximal [of 0 src i "operators r"] by (auto simp: longest_operator_def)

theorem longest_operator_maximal_witness:
  "2 \<le> longest_operator (default_rules\<lparr>operators := [''='', ''=='', ''!'']\<rparr>) ''=='' 0"
proof -
  let ?r = "default_rules\<lparr>operators := [''='', ''=='', ''!'']\<rparr>"
  have "''=='' \<in> set (operators ?r)" by simp
  moreover have "starts_with_at ''=='' 0 ''==''" by (simp add: starts_with_at_def)
  ultimately have "length ''=='' \<le> longest_operator ?r ''=='' 0"
    using longest_operator_maximal [of ?r "''==''" 0] by blast
  then show ?thesis by simp
qed


end
