(* ===== verification/Number_Parse.thy ===== *)
theory Number_Parse
  imports Microfmt_Prelude
begin

text \<open>
  \<^verbatim>\<open>parsing/number_parse.hpp\<close>: \<^verbatim>\<open>parse_prefix<T>\<close> and \<^verbatim>\<open>parse<T>\<close> for integer types of any width. The
  accumulator of the code has the type \<^verbatim>\<open>reloco::fixed_int<N, false>\<close> of another library: its operations
  are a parameter of the model (\<open>uint_ops\<close>), and the locale \<open>fixed_uint\<close> states what they promise,
  unsigned arithmetic modulo \<open>2 ^ N\<close>. Errors are values of a sum type, the error on the left. The
  reference is \<open>parse_spec\<close>: find the digits, read them, compare with the limit of the type.
\<close>

section \<open>Data\<close>

datatype number_errc = Err_empty | Err_invalid_digit | Err_overflow | Err_underflow | Err_invalid_radix

record number_error =
  err_code :: number_errc
  err_offset :: nat

record parsed =
  parsed_value :: int
  parsed_consumed :: nat

record integer_options =
  opt_radix :: nat
  opt_allow_plus :: bool
  opt_allow_prefix :: bool
  opt_separator :: char

definition default_integer_options :: integer_options where
  "default_integer_options =
     \<lparr>opt_radix = 10, opt_allow_plus = True, opt_allow_prefix = False, opt_separator = CHR 0x00\<rparr>"

text \<open>The operations of the unsigned type that the code uses.\<close>

record 'u uint_ops =
  u_of :: "nat \<Rightarrow> 'u"
  u_val :: "'u \<Rightarrow> nat"
  u_not :: "'u \<Rightarrow> 'u"
  u_shr1 :: "'u \<Rightarrow> 'u"
  u_add :: "'u \<Rightarrow> 'u \<Rightarrow> 'u"
  u_sub :: "'u \<Rightarrow> 'u \<Rightarrow> 'u"
  u_mul :: "'u \<Rightarrow> 'u \<Rightarrow> 'u"
  u_div :: "'u \<Rightarrow> 'u \<Rightarrow> 'u"
  u_less :: "'u \<Rightarrow> 'u \<Rightarrow> bool"

section \<open>Operations\<close>

definition byte_at :: "string \<Rightarrow> nat \<Rightarrow> char" where
  "byte_at inp i = (if i < length inp then inp ! i else CHR 0x00)"

definition lower_digits :: string where
  "lower_digits = ''0123456789abcdefghijklmnopqrstuvwxyz''"

definition upper_digits :: string where
  "upper_digits = ''0123456789ABCDEFGHIJKLMNOPQRSTUVWXYZ''"

fun digit_index :: "char \<Rightarrow> nat \<Rightarrow> string \<Rightarrow> string \<Rightarrow> nat" where
  "digit_index ch i (l # ls) (u # us) = (if l = ch \<or> u = ch then i else digit_index ch (i + 1) ls us)"
| "digit_index ch i _ _ = 99"

definition char_digit_value :: "char \<Rightarrow> nat" where
  "char_digit_value ch = digit_index ch 0 lower_digits upper_digits"

definition prefix_radix :: "char \<Rightarrow> nat" where
  "prefix_radix ch =
     (if ch = CHR ''x'' \<or> ch = CHR ''X'' then 16
      else if ch = CHR ''b'' \<or> ch = CHR ''B'' then 2
      else if ch = CHR ''o'' \<or> ch = CHR ''O'' then 8 else 0)"

text \<open>The sign: whether the number is negative, and the offset behind it.\<close>

definition parse_sign :: "bool \<Rightarrow> integer_options \<Rightarrow> string \<Rightarrow> bool \<times> nat" where
  "parse_sign sg opts inp =
     (let first = byte_at inp 0
      in if first = CHR ''-'' \<and> sg then (True, 1)
         else if first = CHR ''+'' \<and> opt_allow_plus opts then (False, 1) else (False, 0))"

text \<open>The radix and the offset behind a prefix.\<close>

definition parse_radix :: "integer_options \<Rightarrow> string \<Rightarrow> nat \<Rightarrow> nat \<times> nat" where
  "parse_radix opts inp pos =
     (let pr = (if byte_at inp pos = CHR ''0'' then prefix_radix (byte_at inp (pos + 1)) else 0);
          (radix, pos') = (if pr \<noteq> 0 \<and> (opt_radix opts = 0 \<or> (opt_allow_prefix opts \<and> opt_radix opts = pr))
                           then (pr, pos + 2) else (opt_radix opts, pos))
      in (if radix = 0 then 10 else radix, pos'))"

definition uint_limit :: "'u uint_ops \<Rightarrow> bool \<Rightarrow> bool \<Rightarrow> 'u" where
  "uint_limit ops sg negative =
     (let max_u = u_not ops (u_of ops 0); half = u_shr1 ops max_u
      in if sg then (if negative then u_add ops half (u_of ops 1) else half) else max_u)"

text \<open>The digit loop from offset \<open>i\<close> over the rest of the text: the accumulator, the number of digits
  and the offset behind the last digit, or the range error.\<close>

fun digits_loop ::
    "'u uint_ops \<Rightarrow> char \<Rightarrow> nat \<Rightarrow> 'u \<Rightarrow> bool \<Rightarrow> string \<Rightarrow> nat \<Rightarrow> 'u \<Rightarrow> nat \<Rightarrow> nat \<Rightarrow> bool
     \<Rightarrow> number_error + ('u \<times> nat \<times> nat)" where
  "digits_loop ops sep radix limit negative [] i acc count end_pos last_sep = Inr (acc, count, end_pos)"
| "digits_loop ops sep radix limit negative (ch # rest) i acc count end_pos last_sep =
     (if sep \<noteq> CHR 0x00 \<and> ch = sep
      then (if count = 0 \<or> last_sep then Inr (acc, count, end_pos)
            else digits_loop ops sep radix limit negative rest (i + 1) acc count end_pos True)
      else
        let d = char_digit_value ch; du = u_of ops d; radix_u = u_of ops radix;
            range = Inl \<lparr>err_code = (if negative then Err_underflow else Err_overflow), err_offset = i\<rparr>
        in if radix \<le> d then Inr (acc, count, end_pos)
           else if u_less ops (u_div ops limit radix_u) acc then range
           else let acc' = u_mul ops acc radix_u
                in if u_less ops (u_sub ops limit du) acc' then range
                   else digits_loop ops sep radix limit negative rest (i + 1) (u_add ops acc' du) (count + 1) (i + 1) False)"

text \<open>\<^verbatim>\<open>static_cast<T>(bits)\<close>: the value of the bits in the target type, two's complement if signed.\<close>

definition bits_value :: "nat \<Rightarrow> bool \<Rightarrow> nat \<Rightarrow> int" where
  "bits_value w sg n = (if sg \<and> 2 ^ (w - 1) \<le> n then int n - 2 ^ w else int n)"

definition parse_prefix ::
    "'u uint_ops \<Rightarrow> nat \<Rightarrow> bool \<Rightarrow> string \<Rightarrow> integer_options \<Rightarrow> number_error + parsed" where
  "parse_prefix ops w sg inp opts =
     (if opt_radix opts \<noteq> 0 \<and> (opt_radix opts < 2 \<or> 36 < opt_radix opts)
      then Inl \<lparr>err_code = Err_invalid_radix, err_offset = 0\<rparr>
      else
        let (negative, pos0) = parse_sign sg opts inp;
            (radix, pos) = parse_radix opts inp pos0;
            limit = uint_limit ops sg negative
        in case digits_loop ops (opt_separator opts) radix limit negative (drop pos inp) pos (u_of ops 0) 0 pos False of
             Inl e \<Rightarrow> Inl e
           | Inr (acc, count, end_pos) \<Rightarrow>
               if count = 0
               then Inl \<lparr>err_code = (if length inp \<le> pos then Err_empty else Err_invalid_digit), err_offset = pos\<rparr>
               else let bits = (if negative then u_sub ops (u_of ops 0) acc else acc)
                    in Inr \<lparr>parsed_value = bits_value w sg (u_val ops bits), parsed_consumed = end_pos\<rparr>)"

definition parse_integer ::
    "'u uint_ops \<Rightarrow> nat \<Rightarrow> bool \<Rightarrow> string \<Rightarrow> integer_options \<Rightarrow> number_error + int" where
  "parse_integer ops w sg inp opts =
     (case parse_prefix ops w sg inp opts of
        Inl e \<Rightarrow> Inl e
      | Inr r \<Rightarrow> if parsed_consumed r \<noteq> length inp
                 then Inl \<lparr>err_code = Err_invalid_digit, err_offset = parsed_consumed r\<rparr>
                 else Inr (parsed_value r))"

section \<open>The reference\<close>

text \<open>The digit values of the longest run of digits with single separators between them, and the
  offset behind the last digit.\<close>

fun digit_run :: "char \<Rightarrow> nat \<Rightarrow> string \<Rightarrow> nat \<Rightarrow> bool \<Rightarrow> bool \<Rightarrow> nat \<Rightarrow> nat list \<times> nat" where
  "digit_run sep radix [] i started last_sep end_pos = ([], end_pos)"
| "digit_run sep radix (ch # rest) i started last_sep end_pos =
     (if sep \<noteq> CHR 0x00 \<and> ch = sep
      then (if \<not> started \<or> last_sep then ([], end_pos) else digit_run sep radix rest (i + 1) started True end_pos)
      else if radix \<le> char_digit_value ch then ([], end_pos)
      else let (ds, e) = digit_run sep radix rest (i + 1) True False (i + 1) in (char_digit_value ch # ds, e))"

definition horner :: "nat \<Rightarrow> nat \<Rightarrow> nat list \<Rightarrow> nat" where
  "horner b acc ds = foldl (\<lambda>v d. v * b + d) acc ds"

definition type_limit :: "nat \<Rightarrow> bool \<Rightarrow> bool \<Rightarrow> nat" where
  "type_limit w sg negative =
     (if sg then (if negative then 2 ^ (w - 1) else 2 ^ (w - 1) - 1) else 2 ^ w - 1)"

definition parse_spec :: "nat \<Rightarrow> bool \<Rightarrow> string \<Rightarrow> integer_options \<Rightarrow> number_errc + parsed" where
  "parse_spec w sg inp opts =
     (if opt_radix opts \<noteq> 0 \<and> (opt_radix opts < 2 \<or> 36 < opt_radix opts) then Inl Err_invalid_radix
      else
        let (negative, pos0) = parse_sign sg opts inp;
            (radix, pos) = parse_radix opts inp pos0;
            (ds, end_pos) = digit_run (opt_separator opts) radix (drop pos inp) pos False False pos;
            v = horner radix 0 ds
        in if type_limit w sg negative < v then Inl (if negative then Err_underflow else Err_overflow)
           else if ds = [] then Inl (if length inp \<le> pos then Err_empty else Err_invalid_digit)
           else Inr \<lparr>parsed_value = (if negative then - int v else int v), parsed_consumed = end_pos\<rparr>)"

text \<open>The outcome of \<^verbatim>\<open>parse_prefix\<close> without the offset of an error.\<close>

definition outcome :: "number_error + 'a \<Rightarrow> number_errc + 'a" where
  "outcome r = (case r of Inl e \<Rightarrow> Inl (err_code e) | Inr x \<Rightarrow> Inr x)"

section \<open>Facts on the reference\<close>

lemma outcome_Inr: "outcome r = Inr x \<longleftrightarrow> r = Inr x"
  by (cases r) (simp_all add: outcome_def)

lemma horner_simps [simp]:
  "horner b acc [] = acc" "horner b acc (d # ds) = horner b (acc * b + d) ds"
  by (simp_all add: horner_def)

lemma horner_ge: "1 \<le> b \<Longrightarrow> acc \<le> horner b acc ds"
proof (induction ds arbitrary: acc)
  case (Cons d ds)
  have "acc * 1 \<le> acc * b" by (rule mult_le_mono2) (rule Cons.prems)
  then have "acc \<le> acc * b + d" unfolding mult_1_right by (rule trans_le_add1)
  also have "\<dots> \<le> horner b (acc * b + d) ds" by (rule Cons.IH [OF Cons.prems])
  finally show ?case by simp
qed simp

lemma parse_radix_bounds:
  assumes "parse_radix opts inp pos = (radix, pos')" and "opt_radix opts = 0 \<or> 2 \<le> opt_radix opts \<and> opt_radix opts \<le> 36"
  shows "2 \<le> radix" and "radix \<le> 36"
  using assms by (auto simp: parse_radix_def prefix_radix_def Let_def split: if_splits)

declare digits_loop.simps(2) [simp del]

lemma digits_loop_separator:
  assumes "sep \<noteq> CHR 0x00 \<and> ch = sep"
  shows "digits_loop ops sep radix limit negative (ch # rest) i acc count end_pos last_sep =
     (if count = 0 \<or> last_sep then Inr (acc, count, end_pos)
      else digits_loop ops sep radix limit negative rest (i + 1) acc count end_pos True)"
  unfolding digits_loop.simps(2) using assms by (rule if_P)

lemma digits_loop_stop:
  assumes "\<not> (sep \<noteq> CHR 0x00 \<and> ch = sep)" and "radix \<le> char_digit_value ch"
  shows "digits_loop ops sep radix limit negative (ch # rest) i acc count end_pos last_sep = Inr (acc, count, end_pos)"
  unfolding digits_loop.simps(2) if_not_P [OF assms(1)] Let_def using assms(2) by (rule if_P)

lemma digits_loop_digit:
  assumes "\<not> (sep \<noteq> CHR 0x00 \<and> ch = sep)" and "char_digit_value ch < radix"
  shows "digits_loop ops sep radix limit negative (ch # rest) i acc count end_pos last_sep =
     (let du = u_of ops (char_digit_value ch); radix_u = u_of ops radix; acc' = u_mul ops acc radix_u;
          range = Inl \<lparr>err_code = (if negative then Err_underflow else Err_overflow), err_offset = i\<rparr>
      in if u_less ops (u_div ops limit radix_u) acc then range
         else if u_less ops (u_sub ops limit du) acc' then range
         else digits_loop ops sep radix limit negative rest (i + 1) (u_add ops acc' du) (count + 1) (i + 1) False)"
proof -
  have "\<not> radix \<le> char_digit_value ch" using assms(2) by simp
  then show ?thesis unfolding digits_loop.simps(2) if_not_P [OF assms(1)] Let_def by (rule if_not_P)
qed

section \<open>The interface of the unsigned type\<close>

locale fixed_uint =
  fixes ops :: "'u uint_ops" and w :: nat
  assumes val_less: "u_val ops a < 2 ^ w"
    and val_of: "u_val ops (u_of ops n) = n mod 2 ^ w"
    and val_not: "u_val ops (u_not ops a) = 2 ^ w - 1 - u_val ops a"
    and val_shr1: "u_val ops (u_shr1 ops a) = u_val ops a div 2"
    and val_add: "u_val ops (u_add ops a b) = (u_val ops a + u_val ops b) mod 2 ^ w"
    and val_sub: "u_val ops (u_sub ops a b) = (u_val ops a + (2 ^ w - u_val ops b)) mod 2 ^ w"
    and val_mul: "u_val ops (u_mul ops a b) = (u_val ops a * u_val ops b) mod 2 ^ w"
    and val_div: "u_val ops b \<noteq> 0 \<Longrightarrow> u_val ops (u_div ops a b) = u_val ops a div u_val ops b"
    and less_val: "u_less ops a b \<longleftrightarrow> u_val ops a < u_val ops b"
begin

lemma val_limit:
  assumes "0 < w"
  shows "u_val ops (uint_limit ops sg negative) = type_limit w sg negative"
proof -
  obtain k where w: "w = Suc k" using assms by (cases w) auto
  have m: "u_val ops (u_not ops (u_of ops 0)) = 2 ^ w - 1" by (simp add: val_not val_of)
  have h: "(2 ^ w - 1) div 2 = (2 ^ k - 1 :: nat)" by (simp add: w)
  have one: "1 mod 2 ^ w = (1::nat)" by (simp add: w)
  have p: "(2 ^ k - 1 + 1) mod 2 ^ w = (2 ^ k :: nat)" by (simp add: w)
  have k: "w - 1 = k" by (simp add: w)
  show ?thesis
    unfolding uint_limit_def Let_def type_limit_def k
    by (simp only: if_distrib [of "u_val ops"] val_add val_shr1 m h val_of one p)
qed

lemma digits_loop_spec:
  assumes "2 \<le> radix" and "radix \<le> 36" and "36 \<le> u_val ops limit" and "u_val ops acc \<le> u_val ops limit"
    and "digit_run sep radix inp i (count \<noteq> 0) last_sep end_pos = (ds, e)"
  shows "(case digits_loop ops sep radix limit negative inp i acc count end_pos last_sep of
            Inl err \<Rightarrow> u_val ops limit < horner radix (u_val ops acc) ds
                       \<and> err_code err = (if negative then Err_underflow else Err_overflow)
          | Inr (acc', count', e') \<Rightarrow> horner radix (u_val ops acc) ds \<le> u_val ops limit
                       \<and> u_val ops acc' = horner radix (u_val ops acc) ds \<and> count' = count + length ds \<and> e' = e)"
  using assms(4,5)
proof (induction inp arbitrary: i acc count end_pos last_sep ds e)
  case (Cons ch rest)
  let ?d = "char_digit_value ch" and ?L = "u_val ops limit" and ?a = "u_val ops acc"
  have L: "?L < 2 ^ w" by (rule val_less)
  consider (sep_stop) "sep \<noteq> CHR 0x00 \<and> ch = sep" "count = 0 \<or> last_sep"
    | (sep_go) "sep \<noteq> CHR 0x00 \<and> ch = sep" "count \<noteq> 0" "\<not> last_sep"
    | (stop) "\<not> (sep \<noteq> CHR 0x00 \<and> ch = sep)" "radix \<le> ?d"
    | (digit) "\<not> (sep \<noteq> CHR 0x00 \<and> ch = sep)" "?d < radix" by linarith
  then show ?case
  proof cases
    case sep_stop then show ?thesis using Cons.prems by (auto simp: digits_loop_separator)
  next
    case sep_go
    then have "digit_run sep radix rest (i + 1) (count \<noteq> 0) True end_pos = (ds, e)" using Cons.prems(2) by simp
    from Cons.IH [OF Cons.prems(1) this] sep_go show ?thesis by (simp add: digits_loop_separator)
  next
    case stop then show ?thesis using Cons.prems by (auto simp: digits_loop_stop [OF stop])
  next
    case digit
    obtain ds' where ds: "ds = ?d # ds'"
      and run: "digit_run sep radix rest (i + 1) True False (i + 1) = (ds', e)"
      using Cons.prems(2) digit by (auto simp: Let_def split: prod.splits)
    have rv: "u_val ops (u_of ops radix) = radix" and dv: "u_val ops (u_of ops ?d) = ?d"
      using assms(2,3) L digit(2) by (simp_all add: val_of)
    have quot: "u_val ops (u_div ops limit (u_of ops radix)) = ?L div radix"
      using val_div [of "u_of ops radix" limit] rv assms(1) by simp
    have ge: "?a * radix + ?d \<le> horner radix ?a ds" using horner_ge [of radix "?a * radix + ?d" ds'] assms(1) ds by simp
    show ?thesis
    proof (cases "?L div radix < ?a")
      case True
      then have "?L < ?a * radix" using assms(1) by (simp add: div_less_iff_less_mult)
      then show ?thesis using ge True by (simp add: digits_loop_digit [OF digit] less_val quot Let_def)
    next
      case False
      have mul: "?a * radix \<le> ?L"
        using False assms(1) by (metis div_mult_mod_eq le_add1 le_trans mult_le_mono1 not_less)
      have vm: "u_val ops (u_mul ops acc (u_of ops radix)) = ?a * radix" using mul L by (simp add: val_mul rv)
      have dL: "?d \<le> ?L" using digit(2) assms(2,3) by simp
      have "?L + (2 ^ w - ?d) = 2 ^ w + (?L - ?d)" using dL L by simp
      then have "(?L + (2 ^ w - ?d)) mod 2 ^ w = ?L - ?d" using L by (simp only: mod_add_self1) simp
      then have vs: "u_val ops (u_sub ops limit (u_of ops ?d)) = ?L - ?d" by (simp only: val_sub dv)
      show ?thesis
      proof (cases "?L - ?d < ?a * radix")
        case True
        then have "?L < horner radix ?a ds" using ge dL by linarith
        then show ?thesis using True False by (simp add: digits_loop_digit [OF digit] less_val quot vm vs Let_def)
      next
        case False2: False
        let ?acc = "u_add ops (u_mul ops acc (u_of ops radix)) (u_of ops ?d)"
        have sum: "?a * radix + ?d \<le> ?L" using False2 dL by linarith
        then have va: "u_val ops ?acc = ?a * radix + ?d" using L by (simp add: val_add vm dv)
        have "u_val ops ?acc \<le> ?L" using sum va by simp
        note ih = Cons.IH [OF this, of "i + 1" "count + 1" False "i + 1" ds' e, unfolded va]
        have "digits_loop ops sep radix limit negative (ch # rest) i acc count end_pos last_sep =
            digits_loop ops sep radix limit negative rest (i + 1) ?acc (count + 1) (i + 1) False"
          using False False2 by (simp add: digits_loop_digit [OF digit] less_val quot vm vs Let_def)
        moreover have "count + 1 + length ds' = count + length ds" by (simp add: ds)
        ultimately show ?thesis using ih run by (simp only: ds horner_simps) simp
      qed
    qed
  qed
qed simp

lemma parse_prefix_meets_spec:
  assumes "8 \<le> w"
  shows "outcome (parse_prefix ops w sg inp opts) = parse_spec w sg inp opts"
proof (cases "opt_radix opts \<noteq> 0 \<and> (opt_radix opts < 2 \<or> 36 < opt_radix opts)")
  case True
  then show ?thesis by (auto simp: parse_prefix_def parse_spec_def outcome_def)
next
  case False
  obtain negative pos0 where sign: "parse_sign sg opts inp = (negative, pos0)" by fastforce
  obtain radix pos where rad: "parse_radix opts inp pos0 = (radix, pos)" by fastforce
  obtain ds e where run: "digit_run (opt_separator opts) radix (drop pos inp) pos False False pos = (ds, e)" by fastforce
  note r = parse_radix_bounds [OF rad]
  let ?lim = "uint_limit ops sg negative"
  let ?v = "horner radix 0 ds"
  have z: "u_val ops (u_of ops 0) = 0" by (simp add: val_of)
  have lim: "u_val ops ?lim = type_limit w sg negative" by (rule val_limit) (use assms in simp)
  have neg: "negative \<Longrightarrow> sg" using sign by (auto simp: parse_sign_def Let_def split: if_splits)
  have p8: "(2::nat) ^ 7 \<le> 2 ^ (w - 1)" by (rule power_increasing) (use assms in simp_all)
  have pw: "(2::nat) ^ w = 2 * 2 ^ (w - 1)" using assms by (cases w) simp_all
  have big: "36 \<le> u_val ops ?lim"
  proof -
    have "36 + 1 \<le> (2::nat) ^ (w - 1)" and "36 + 1 \<le> (2::nat) ^ w" using p8 pw by simp_all
    then have "36 \<le> (2::nat) ^ (w - 1)" and "36 \<le> (2::nat) ^ (w - 1) - 1" and "36 \<le> (2::nat) ^ w - 1" by linarith+
    then show ?thesis unfolding lim type_limit_def by (simp only: if_splits) blast
  qed
  have "digit_run (opt_separator opts) radix (drop pos inp) pos ((0::nat) \<noteq> 0) False pos = (ds, e)" using run by simp
  note loop = digits_loop_spec [OF r _ _ this, of ?lim "u_of ops 0" negative, unfolded z lim]
  have val: "bits_value w sg (u_val ops (if negative then u_sub ops (u_of ops 0) acc else acc))
               = (if negative then - int ?v else int ?v)"
    if "?v \<le> type_limit w sg negative" and "u_val ops acc = ?v" for acc
  proof (cases "negative \<and> ?v \<noteq> 0")
    case True
    then have "?v \<le> 2 ^ (w - 1)" using that neg by (simp add: type_limit_def)
    moreover have "u_val ops (u_sub ops (u_of ops 0) acc) = 2 ^ w - ?v"
      using True that(2) by (simp add: val_sub z)
    moreover have "int (2 ^ w - ?v) - 2 ^ w = - int ?v"
    proof -
      have "?v \<le> 2 ^ w" using calculation(1) pw by linarith
      then show ?thesis by (simp add: of_nat_diff)
    qed
    moreover have "2 ^ (w - 1) \<le> 2 ^ w - ?v" using calculation(1) pw by linarith
    ultimately show ?thesis using True neg unfolding bits_value_def by presburger
  next
    case zero: False
    then show ?thesis using that p8 by (auto simp: bits_value_def type_limit_def val_sub z)
  qed
  show ?thesis
    using loop False big sign rad run val
    by (auto simp: parse_prefix_def parse_spec_def outcome_def Let_def lim split: sum.splits prod.splits)
qed

end

section \<open>Machine words as the unsigned type\<close>

definition word_ops :: "'w::len word uint_ops" where
  "word_ops = \<lparr>u_of = of_nat, u_val = unat, u_not = not, u_shr1 = drop_bit 1, u_add = (+),
     u_sub = (-), u_mul = (*), u_div = (div), u_less = (<)\<rparr>"

lemma unat_not_word: "unat (not a) = 2 ^ LENGTH('w) - 1 - unat a" for a :: "'w::len word"
proof -
  have "not a = - 1 - a" by (simp add: not_eq_complement)
  then have "unat (not a) = unat (- 1 :: 'w word) - unat a" using unat_sub [of a "- 1"] by simp
  then show ?thesis by (simp add: unsigned_minus_1_eq_mask mask_eq_exp_minus_1)
qed

lemma unat_sub_word: "unat (a - b) = (unat a + (2 ^ LENGTH('w) - unat b)) mod 2 ^ LENGTH('w)" for a b :: "'w::len word"
proof (cases "b \<le> a")
  case True
  then have le: "unat b \<le> unat a" by (simp add: word_le_nat_alt)
  have "unat a + (2 ^ LENGTH('w) - unat b) = 2 ^ LENGTH('w) + (unat a - unat b)"
    using le unsigned_less [of b, where 'a = nat] by linarith
  moreover have "unat a - unat b < 2 ^ LENGTH('w)" using unsigned_less [of a, where 'a = nat] by linarith
  ultimately show ?thesis using True by (simp only: unat_sub mod_add_self1) simp
next
  case False
  then have "unat a < unat b" by (simp add: word_le_nat_alt)
  moreover have "unat b < 2 ^ LENGTH('w)" by (rule unsigned_less)
  ultimately have "(unat a + (2 ^ LENGTH('w) - unat b)) mod 2 ^ LENGTH('w) = unat a + 2 ^ LENGTH('w) - unat b"
    by (simp only: mod_less)
  then show ?thesis using False by (simp only: unat_sub_if' word_le_nat_alt if_False)
qed

interpretation word_uint: fixed_uint "word_ops :: 'w::len word uint_ops" "LENGTH('w)"
proof unfold_locales
  fix b a :: "'w word"
  show "u_val word_ops (u_div word_ops a b) = u_val word_ops a div u_val word_ops b"
    by (simp add: word_ops_def unat_div)
qed (simp_all add: word_ops_def unat_of_nat unat_not_word unat_drop_bit_div unat_word_ariths(1,2) unat_sub_word
       word_less_nat_alt)

section \<open>Reading a numeral\<close>

lemma digit_run_all:
  assumes "\<forall>c \<in> set s. char_digit_value c < radix"
  shows "digit_run (CHR 0x00) radix s i st ls e = (map char_digit_value s, if s = [] then e else i + length s)"
  using assms by (induction s arbitrary: i st ls e) auto

text \<open>The text of a number: an optional minus, an optional prefix of the radix, digits.\<close>

definition numeral_text :: "bool \<Rightarrow> string \<Rightarrow> string \<Rightarrow> string" where
  "numeral_text neg pre ds = (if neg then ''-'' else []) @ pre @ ds"

lemma digit_facts:
  assumes "char_digit_value c < b" and "b \<le> 36"
  shows "c \<noteq> CHR ''-''" and "c \<noteq> CHR ''+''" and "2 \<le> b \<Longrightarrow> prefix_radix c \<noteq> b"
proof -
  have "char_digit_value (CHR ''-'') = 99" "char_digit_value (CHR ''+'') = 99"
    by (simp_all add: char_digit_value_def lower_digits_def upper_digits_def)
  then show "c \<noteq> CHR ''-''" and "c \<noteq> CHR ''+''" using assms by auto
  have "char_digit_value (CHR ''x'') = 33" "char_digit_value (CHR ''X'') = 33"
    "char_digit_value (CHR ''b'') = 11" "char_digit_value (CHR ''B'') = 11"
    "char_digit_value (CHR ''o'') = 24" "char_digit_value (CHR ''O'') = 24"
    by (simp_all add: char_digit_value_def lower_digits_def upper_digits_def)
  then show "2 \<le> b \<Longrightarrow> prefix_radix c \<noteq> b" using assms(1) by (auto simp: prefix_radix_def split: if_splits)
qed

lemma numeral_sign:
  assumes "neg \<Longrightarrow> sg" and "pre = [] \<or> hd pre = CHR ''0''" and "ds \<noteq> []"
    and "\<forall>c \<in> set ds. char_digit_value c < b" and "b \<le> 36"
  shows "parse_sign sg opts (numeral_text neg pre ds) = (neg, if neg then 1 else 0)"
proof (cases neg)
  case True
  then show ?thesis using assms(1) by (simp add: parse_sign_def numeral_text_def byte_at_def Let_def)
next
  case False
  define c where "c = byte_at (numeral_text neg pre ds) 0"
  have "c = CHR ''0'' \<or> c \<in> set ds"
    using False assms(2,3) by (cases pre; cases ds) (auto simp: c_def numeral_text_def byte_at_def)
  then have "c \<noteq> CHR ''-''" and "c \<noteq> CHR ''+''" using digit_facts [OF _ assms(5)] assms(4) by auto
  then show ?thesis using False by (simp add: parse_sign_def c_def Let_def)
qed

lemma parse_radix_no_prefix:
  "opt_radix opts = b \<Longrightarrow> b \<noteq> 0 \<Longrightarrow> prefix_radix (byte_at inp (pos + 1)) \<noteq> b \<Longrightarrow> parse_radix opts inp pos = (b, pos)"
  by (auto simp: parse_radix_def)

lemma numeral_radix:
  assumes "2 \<le> b" and "b \<le> 36" and "opt_radix opts = b" and "opt_allow_prefix opts"
    and "pre = [] \<or> (\<exists>p. pre = [CHR ''0'', p] \<and> prefix_radix p = b)" and "ds \<noteq> []"
    and "\<forall>c \<in> set ds. char_digit_value c < b"
  shows "parse_radix opts (numeral_text neg pre ds) (if neg then 1 else 0) = (b, (if neg then 1 else 0) + length pre)"
proof -
  let ?pos = "if neg then 1 else (0::nat)" and ?t = "numeral_text neg pre ds"
  show ?thesis
  proof (cases "pre = []")
    case True
    have "prefix_radix (byte_at ?t (?pos + 1)) \<noteq> b"
    proof (cases "1 < length ds")
      case two: True
      then have "byte_at ?t (?pos + 1) \<in> set ds" using True by (auto simp: numeral_text_def byte_at_def)
      then show ?thesis using digit_facts(3) [OF _ assms(2,1)] assms(7) by blast
    next
      case False
      then have "length ds = 1" using assms(6) by (cases ds) auto
      then show ?thesis using True assms(1) by (simp add: numeral_text_def byte_at_def prefix_radix_def)
    qed
    from parse_radix_no_prefix [OF assms(3) _ this] assms(1) True show ?thesis by simp
  next
    case False
    then obtain p where "pre = [CHR ''0'', p]" "prefix_radix p = b" using assms(5) by blast
    then show ?thesis using assms(1,3,4) by (simp add: parse_radix_def numeral_text_def byte_at_def Let_def)
  qed
qed

text \<open>A numeral in range reads back as its value.\<close>

lemma parse_numeral:
  assumes "fixed_uint ops w" and "8 \<le> w" and "2 \<le> b" and "b \<le> 36" and "neg \<Longrightarrow> sg"
    and "opt_radix opts = b" and "opt_allow_prefix opts" and "opt_separator opts = CHR 0x00"
    and "pre = [] \<or> (\<exists>p. pre = [CHR ''0'', p] \<and> prefix_radix p = b)" and "ds \<noteq> []"
    and "\<forall>c \<in> set ds. char_digit_value c < b"
    and "horner b 0 (map char_digit_value ds) = v" and "v \<le> type_limit w sg neg"
  shows "parse_integer ops w sg (numeral_text neg pre ds) opts = Inr (if neg then - int v else int v)"
proof -
  let ?t = "numeral_text neg pre ds" and ?pos = "(if neg then 1 else 0) + length pre"
  have sign: "parse_sign sg opts ?t = (neg, if neg then 1 else 0)"
    by (rule numeral_sign [OF assms(5) _ assms(10,11,4)]) (use assms(9) in auto)
  note rad = numeral_radix [OF assms(3,4,6,7,9,10,11), of neg]
  have dr: "drop ?pos ?t = ds" and len: "length ?t = ?pos + length ds" by (simp_all add: numeral_text_def)
  note run = digit_run_all [OF assms(11), of ?pos False False ?pos]
  have "parse_spec w sg ?t opts = Inr \<lparr>parsed_value = (if neg then - int v else int v), parsed_consumed = length ?t\<rparr>"
    using assms(3,4,6,10,12,13) unfolding parse_spec_def Let_def sign prod.case rad dr assms(8) run len by auto
  then have "outcome (parse_prefix ops w sg ?t opts)
      = Inr \<lparr>parsed_value = (if neg then - int v else int v), parsed_consumed = length ?t\<rparr>"
    by (simp only: fixed_uint.parse_prefix_meets_spec [OF assms(1,2)])
  then show ?thesis by (simp only: outcome_Inr parse_integer_def) simp
qed

section \<open>Properties\<close>



end
