(* ===== verification/Ring_Buffer.thy ===== *)
theory Ring_Buffer
  imports Sinks
begin

text \<open>
  \<^verbatim>\<open>sinks/ring_buffer_sink.hpp\<close>: the circular sink that keeps the newest bytes for a post-mortem dump, and
  \<^verbatim>\<open>sinks/tee_sink.hpp\<close>, the fan-out sink. The counters \<^verbatim>\<open>head_\<close> and \<^verbatim>\<open>count_\<close> are never reduced by the
  code, so they are words of the width of \<^verbatim>\<open>size_t\<close>, a type parameter: 64 bits on a host, 32 or 16 on a
  microcontroller. A capacity is a power of two, as the static assertion of the class demands.
\<close>

section \<open>ring_buffer_sink\<close>

record 'w ring_buffer_sink =
  rb_buffer :: string
  rb_head :: 'w
  rb_count :: 'w

definition ring_init :: "nat \<Rightarrow> 'sz::len word ring_buffer_sink" where
  "ring_init capacity = \<lparr>rb_buffer = replicate capacity (CHR 0x00), rb_head = 0, rb_count = 0\<rparr>"

definition ring_mask :: "'sz::len word ring_buffer_sink \<Rightarrow> 'sz word" where
  "ring_mask s = of_nat (length (rb_buffer s) - 1)"

definition ring_put :: "'sz::len word ring_buffer_sink \<Rightarrow> char \<Rightarrow> 'sz word ring_buffer_sink option" where
  "ring_put s c =
     map_option (\<lambda>b. s\<lparr>rb_buffer := b, rb_head := rb_head s + 1, rb_count := rb_count s + 1\<rparr>)
       (store_at (rb_buffer s) (unat (and (rb_head s) (ring_mask s))) c)"

fun ring_write :: "'sz::len word ring_buffer_sink \<Rightarrow> string \<Rightarrow> 'sz word ring_buffer_sink option" where
  "ring_write s [] = Some s"
| "ring_write s (c # cs) = (case ring_put s c of None \<Rightarrow> None | Some s' \<Rightarrow> ring_write s' cs)"

definition ring_size :: "'sz::len word ring_buffer_sink \<Rightarrow> nat" where
  "ring_size s = (let c = unat (rb_count s) in if c > length (rb_buffer s) then length (rb_buffer s) else c)"

definition ring_empty :: "'sz::len word ring_buffer_sink \<Rightarrow> bool" where
  "ring_empty s \<longleftrightarrow> ring_size s = 0"

definition ring_full :: "'sz::len word ring_buffer_sink \<Rightarrow> bool" where
  "ring_full s \<longleftrightarrow> unat (rb_count s) \<ge> length (rb_buffer s)"

definition ring_reset :: "'sz::len word ring_buffer_sink \<Rightarrow> 'sz word ring_buffer_sink" where
  "ring_reset s = s\<lparr>rb_head := 0, rb_count := 0\<rparr>"

text \<open>\<^verbatim>\<open>view()\<close>: the two slices, oldest bytes first.\<close>

definition ring_view :: "'sz::len word ring_buffer_sink \<Rightarrow> string \<times> string" where
  "ring_view s =
     (let total_written = unat (rb_count s)
      in if total_written = 0 then ([], [])
         else if total_written \<le> length (rb_buffer s) then (take total_written (rb_buffer s), [])
         else let tail = unat (and (rb_head s) (ring_mask s));
                  first_len = length (rb_buffer s) - tail
              in (take first_len (drop tail (rb_buffer s)), take tail (rb_buffer s)))"

definition ring_dump_to :: "'sz::len word ring_buffer_sink \<Rightarrow> chunks" where
  "ring_dump_to s =
     (let (first, second) = ring_view s
      in (if first \<noteq> [] then out_write first else []) @ (if second \<noteq> [] then out_write second else []))"

section \<open>tee_sink\<close>

text \<open>A target is a sink: its write callback and the object behind it. A callback with no effect outside
  the object is assumed of no target; \<^const>\<open>None\<close> is a store outside a target's storage.\<close>

type_synonym 's target = "('s \<Rightarrow> string \<Rightarrow> 's option) \<times> 's"

record 's tee_sink =
  te_capacity :: nat
  te_targets :: "'s target list"

definition target_write :: "'s target \<Rightarrow> string \<Rightarrow> 's target option" where
  "target_write t sv = map_option (Pair (fst t)) (fst t (snd t) sv)"

fun targets_write :: "'s target list \<Rightarrow> string \<Rightarrow> 's target list option" where
  "targets_write [] sv = Some []"
| "targets_write (t # ts) sv =
     (case target_write t sv of None \<Rightarrow> None | Some t' \<Rightarrow> map_option ((#) t') (targets_write ts sv))"

definition tee_add_target :: "'s tee_sink \<Rightarrow> 's target \<Rightarrow> bool \<times> 's tee_sink" where
  "tee_add_target s t =
     (if length (te_targets s) \<ge> te_capacity s then (False, s)
      else (True, s\<lparr>te_targets := te_targets s @ [t]\<rparr>))"

definition tee_write :: "'s tee_sink \<Rightarrow> string \<Rightarrow> 's tee_sink option" where
  "tee_write s sv = map_option (\<lambda>ts. s\<lparr>te_targets := ts\<rparr>) (targets_write (te_targets s) sv)"

definition tee_put :: "'s tee_sink \<Rightarrow> char \<Rightarrow> 's tee_sink option" where
  "tee_put s c = map_option (\<lambda>ts. s\<lparr>te_targets := ts\<rparr>) (targets_write (te_targets s) [c])"

section \<open>The bytes behind a ring\<close>

text \<open>\<open>ring_rep k s h\<close>: the ring has the capacity \<open>2 ^ k\<close>, and \<open>h\<close> are all the bytes put into it since
  the last reset; the newest of them are in the slots of their positions.\<close>

definition ring_rep :: "nat \<Rightarrow> 'sz::len word ring_buffer_sink \<Rightarrow> string \<Rightarrow> bool" where
  "ring_rep k s h \<longleftrightarrow>
     k < LENGTH('sz) \<and> length (rb_buffer s) = 2 ^ k
     \<and> rb_head s = of_nat (length h) \<and> rb_count s = of_nat (length h)
     \<and> (\<forall>j < length h. length h \<le> j + 2 ^ k \<longrightarrow> rb_buffer s ! (j mod 2 ^ k) = h ! j)"

lemma ring_rep_init: "k < LENGTH('sz) \<Longrightarrow> ring_rep k (ring_init (2 ^ k) :: 'sz::len word ring_buffer_sink) []"
  by (simp add: ring_rep_def ring_init_def)

lemma ring_rep_reset: "ring_rep k s h \<Longrightarrow> ring_rep k (ring_reset s) []"
  by (simp add: ring_rep_def ring_reset_def)

lemma ring_slot:
  fixes s :: "'sz::len word ring_buffer_sink"
  assumes "ring_rep k s h"
  shows "unat (and (rb_head s) (ring_mask s)) = length h mod 2 ^ k"
proof -
  have "ring_mask s = mask k"
    using assms by (simp add: ring_rep_def ring_mask_def mask_eq_exp_minus_1 of_nat_diff)
  then have "unat (and (rb_head s) (ring_mask s)) = unat (take_bit k (of_nat (length h) :: 'sz word))"
    using assms by (simp add: ring_rep_def take_bit_eq_mask)
  also have "\<dots> = take_bit k (length h)"
    using assms by (simp add: unsigned_take_bit_eq unsigned_of_nat ring_rep_def min_def)
  finally show ?thesis by (simp add: take_bit_eq_mod)
qed

lemma mod_slots_differ:
  fixes j n c :: nat
  assumes "j < n" and "n < j + c"
  shows "j mod c \<noteq> n mod c"
proof
  assume "j mod c = n mod c"
  then have "c dvd n - j" using assms(1) by (metis less_imp_le mod_eq_dvd_iff_nat)
  then show False using assms by (auto dest: dvd_imp_le)
qed

lemma ring_put_rep:
  assumes "ring_rep k s h"
  shows "\<exists>s'. ring_put s c = Some s' \<and> ring_rep k s' (h @ [c])"
proof -
  let ?n = "length h" and ?b = "rb_buffer s"
  have len: "length ?b = 2 ^ k" and old: "\<And>j. j < ?n \<Longrightarrow> ?n \<le> j + 2 ^ k \<Longrightarrow> ?b ! (j mod 2 ^ k) = h ! j"
    using assms by (auto simp: ring_rep_def)
  have "ring_put s c = Some (s\<lparr>rb_buffer := ?b[?n mod 2 ^ k := c], rb_head := rb_head s + 1, rb_count := rb_count s + 1\<rparr>)"
    by (simp add: ring_put_def ring_slot [OF assms] store_at_def len)
  moreover have "?b[?n mod 2 ^ k := c] ! (j mod 2 ^ k) = (h @ [c]) ! j" if "j < ?n + 1" "?n + 1 \<le> j + 2 ^ k" for j
  proof (cases "j = ?n")
    case False
    then have "j mod 2 ^ k \<noteq> ?n mod 2 ^ k" using that mod_slots_differ [of j ?n "2 ^ k"] by simp
    then show ?thesis using False that old [of j] by (simp add: nth_append)
  qed (simp add: len)
  ultimately show ?thesis using assms by (simp add: ring_rep_def)
qed

lemma ring_write_rep:
  "ring_rep k s h \<Longrightarrow> \<exists>s'. ring_write s t = Some s' \<and> ring_rep k s' (h @ t)"
proof (induction t arbitrary: s h)
  case (Cons c t)
  obtain s1 where "ring_put s c = Some s1" "ring_rep k s1 (h @ [c])" using ring_put_rep [OF Cons.prems] by blast
  with Cons.IH [of s1 "h @ [c]"] show ?case by simp
qed simp

lemma ring_run_rep:
  "ring_rep k s h \<Longrightarrow> \<exists>s'. run_sink ring_write s cs = Some s' \<and> ring_rep k s' (h @ concat cs)"
proof (induction cs arbitrary: s h)
  case (Cons c cs)
  obtain s1 where "ring_write s c = Some s1" "ring_rep k s1 (h @ c)" using ring_write_rep [OF Cons.prems] by blast
  with Cons.IH [of s1 "h @ c"] show ?case by simp
qed simp

text \<open>What the slices show: the newest bytes that fit, oldest first.\<close>

lemma ring_rotated:
  assumes "length b = c" and "c \<le> n" and "length h = n" and "0 < c"
    and "\<And>j. j < n \<Longrightarrow> n \<le> j + c \<Longrightarrow> b ! (j mod c) = h ! j"
  shows "drop (n mod c) b @ take (n mod c) b = drop (n - c) h"
proof -
  have "drop (n mod c) b @ take (n mod c) b = rotate n b" by (simp add: rotate_drop_take assms(1))
  also have "\<dots> = drop (n - c) h"
  proof (rule nth_equalityI)
    fix i assume "i < length (rotate n b)"
    then have i: "i < c" by (simp add: assms(1))
    have "(n + i) mod c = (n - c + i) mod c" using assms(2) by (metis add.commute add.left_commute le_add_diff_inverse mod_add_self1)
    then show "rotate n b ! i = drop (n - c) h ! i"
      using assms(5) [of "n - c + i"] i assms(1-3) by (simp add: nth_rotate)
  qed (use assms(1-3) in simp)
  finally show ?thesis .
qed

lemma ring_view_rep:
  fixes s :: "'sz::len word ring_buffer_sink"
  assumes "ring_rep k s h" and "length h < 2 ^ LENGTH('sz)"
  shows "fst (ring_view s) @ snd (ring_view s) = drop (length h - 2 ^ k) h"
proof -
  let ?n = "length h" and ?b = "rb_buffer s"
  have len: "length ?b = 2 ^ k" and old: "\<And>j. j < ?n \<Longrightarrow> ?n \<le> j + 2 ^ k \<Longrightarrow> ?b ! (j mod 2 ^ k) = h ! j"
    using assms(1) by (auto simp: ring_rep_def)
  have cnt: "unat (rb_count s) = ?n" using assms by (simp add: ring_rep_def unsigned_of_nat take_bit_nat_eq_self)
  note slot = ring_slot [OF assms(1)]
  show ?thesis
  proof (cases "?n \<le> 2 ^ k")
    case True
    have "take ?n ?b = h"
    proof (rule nth_equalityI)
      fix i assume "i < length (take ?n ?b)"
      then show "take ?n ?b ! i = h ! i" using old [of i] True len by simp
    qed (simp add: len True)
    then show ?thesis using True by (simp add: ring_view_def cnt len Let_def)
  next
    case False
    have "ring_view s = (drop (?n mod 2 ^ k) ?b, take (?n mod 2 ^ k) ?b)"
      using False by (auto simp: ring_view_def cnt len slot Let_def)
    then show ?thesis using ring_rotated [of ?b "2 ^ k" ?n h] len old False by simp
  qed
qed

lemma ring_dump_text: "concat (ring_dump_to s) = fst (ring_view s) @ snd (ring_view s)"
  by (simp add: ring_dump_to_def split: prod.splits)

section \<open>What the targets of a tee see\<close>

lemma targets_write_all:
  "targets_write ts sv = Some ts' \<longleftrightarrow> list_all2 (\<lambda>t t'. target_write t sv = Some t') ts ts'"
  by (induction ts arbitrary: ts') (auto simp: list_all2_Cons1 split: option.splits)

definition target_run :: "'s target \<Rightarrow> chunks \<Rightarrow> 's target option" where
  "target_run t cs = map_option (Pair (fst t)) (run_sink (fst t) (snd t) cs)"

lemma target_run_simps [simp]:
  "target_run t [] = Some t"
  "target_run t (c # cs) = Option.bind (target_write t c) (\<lambda>t'. target_run t' cs)"
  by (auto simp: target_run_def target_write_def split: option.splits)

lemma targets_step:
  "(\<exists>ts1. targets_write ts c = Some ts1 \<and> list_all2 (\<lambda>t t'. target_run t cs = Some t') ts1 us)
   \<longleftrightarrow> list_all2 (\<lambda>t t'. target_run t (c # cs) = Some t') ts us"
proof -
  have eq: "(\<lambda>t t'. target_run t (c # cs) = Some t')
      = (\<lambda>t t'. target_write t c = Some t') OO (\<lambda>t t'. target_run t cs = Some t')"
    by (rule ext)+ (auto simp: bind_eq_Some_conv)
  show ?thesis by (subst eq) (simp only: targets_write_all list.rel_compp relcompp_apply)
qed

lemma tee_run_targets:
  "run_sink tee_write s cs = Some s' \<longleftrightarrow>
     te_capacity s' = te_capacity s \<and> list_all2 (\<lambda>t t'. target_run t cs = Some t') (te_targets s) (te_targets s')"
proof (induction cs arbitrary: s)
  case Nil
  show ?case by (cases s; cases s') (auto simp: list.rel_eq)
next
  case (Cons c cs)
  have "run_sink tee_write s (c # cs) = Some s' \<longleftrightarrow>
      (\<exists>ts1. targets_write (te_targets s) c = Some ts1 \<and> run_sink tee_write (s\<lparr>te_targets := ts1\<rparr>) cs = Some s')"
    by (auto simp: tee_write_def split: option.splits)
  also have "\<dots> \<longleftrightarrow> te_capacity s' = te_capacity s \<and>
      list_all2 (\<lambda>t t'. target_run t (c # cs) = Some t') (te_targets s) (te_targets s')"
    unfolding targets_step [symmetric] Cons.IH by auto
  finally show ?case .
qed

section \<open>Properties\<close>

text \<open>C39: a ring sink of capacity \<open>2 ^ k\<close> never stores outside its storage, and a dump writes exactly the
  newest bytes that fit, oldest first, however the text is cut into writes and however often the ring
  wraps, while fewer bytes have been written than \<^verbatim>\<open>size_t\<close> can count.\<close>

theorem ring_buffer_keeps_newest:
  fixes k :: nat
  assumes "k < LENGTH('sz::len)" and "length (concat cs) < 2 ^ LENGTH('sz)"
  shows "\<exists>s. run_sink ring_write (ring_init (2 ^ k) :: 'sz word ring_buffer_sink) cs = Some s
           \<and> concat (ring_dump_to s) = drop (length (concat cs) - 2 ^ k) (concat cs)
           \<and> ring_size s = min (2 ^ k) (length (concat cs))"
proof -
  let ?h = "concat cs"
  obtain s where s: "run_sink ring_write (ring_init (2 ^ k) :: 'sz word ring_buffer_sink) cs = Some s" "ring_rep k s ?h"
    using ring_run_rep [OF ring_rep_init [OF assms(1)], of cs] by auto
  moreover have "unat (rb_count s) = length ?h"
    using s(2) assms(2) by (simp add: ring_rep_def unsigned_of_nat take_bit_nat_eq_self)
  then have "ring_size s = min (2 ^ k) (length ?h)"
    using s(2) by (simp add: ring_size_def ring_rep_def Let_def min_def)
  ultimately show ?thesis using ring_view_rep [OF s(2) assms(2)] by (simp add: ring_dump_text)
qed

theorem ring_buffer_keeps_newest_witness:
  "\<exists>s. run_sink ring_write (ring_init 4 :: 16 word ring_buffer_sink) [''boot '', ''ok''] = Some s
     \<and> concat (ring_dump_to s) = ''t ok'' \<and> ring_size s = 4"
  using ring_buffer_keeps_newest [where 'sz = 16, of 2 "[''boot '', ''ok'']"] by (simp del: run_sink.simps) (simp add: eval_nat_numeral del: run_sink.simps)

text \<open>\<^verbatim>\<open>count_\<close> wraps: when exactly as many bytes have been put as \<^verbatim>\<open>size_t\<close> has values, the ring reports
  itself empty and a dump writes nothing, although its storage is full of the newest bytes.\<close>

theorem ring_buffer_count_wraps:
  fixes s :: "'sz::len word ring_buffer_sink"
  assumes "ring_rep k s h" and "length h = 2 ^ LENGTH('sz)"
  shows "ring_empty s \<and> ring_dump_to s = []"
proof -
  have "rb_count s = 0" using assms by (simp add: ring_rep_def)
  then show ?thesis by (simp add: ring_empty_def ring_size_def ring_dump_to_def ring_view_def Let_def)
qed

theorem ring_buffer_count_wraps_witness:
  "\<exists>s. ring_write (ring_init 2 :: 2 word ring_buffer_sink) ''abcd'' = Some s \<and> rb_buffer s = ''cd'' \<and> ring_empty s"
proof -
  obtain s where s: "ring_write (ring_init 2 :: 2 word ring_buffer_sink) ''abcd'' = Some s" "ring_rep 1 s ''abcd''"
    using ring_write_rep [OF ring_rep_init [where 'sz = 2, of 1], of "''abcd''"] by auto
  then have "ring_empty s" using ring_buffer_count_wraps [OF s(2)] by simp
  moreover have "rb_buffer s = ''cd''"
  proof (rule nth_equalityI)
    show len: "length (rb_buffer s) = length ''cd''" using s(2) by (simp add: ring_rep_def)
    have "\<forall>j < 4. 4 \<le> j + 2 \<longrightarrow> rb_buffer s ! (j mod 2) = ''abcd'' ! j" using s(2) by (simp add: ring_rep_def)
    from this [rule_format, of 2] this [rule_format, of 3]
    show "rb_buffer s ! i = ''cd'' ! i" if "i < length (rb_buffer s)" for i
      using that len by (cases i) (auto simp: less_Suc_eq)
  qed
  ultimately show ?thesis using s(1) by blast
qed

text \<open>every target of a tee sink receives the whole text: a run of the tee ends in exactly the
  states that the targets reach when each is written to alone, and a full tee refuses a target.\<close>

theorem tee_sink_broadcasts:
  "(run_sink tee_write s cs = Some s' \<longleftrightarrow>
      te_capacity s' = te_capacity s
      \<and> list_all2 (\<lambda>t t'. fst t' = fst t \<and> run_sink (fst t) (snd t) cs = Some (snd t')) (te_targets s) (te_targets s'))
   \<and> (fst (tee_add_target s t) \<longleftrightarrow> length (te_targets s) < te_capacity s)"
proof -
  have "(target_run t cs = Some t') = (fst t' = fst t \<and> run_sink (fst t) (snd t) cs = Some (snd t'))"
    for t t' :: "'a target"
    by (cases t') (auto simp: target_run_def)
  then show ?thesis by (simp add: tee_run_targets tee_add_target_def)
qed

end
