(* ===== verification/Memory_Buffer.thy ===== *)
theory Memory_Buffer
  imports Sinks
begin

text \<open>
  Storage that grows or is handed out: \<^verbatim>\<open>sinks/memory_buffer.hpp\<close> (inline storage first, then the heap),
  \<^verbatim>\<open>scratch_allocator.hpp\<close> (a bump allocator over a caller's buffer) and \<^verbatim>\<open>sinks/c_string_span_sink.hpp\<close>
  (the C string sink over a caller's buffer). The allocator of a memory buffer is another library's: its
  operations are a parameter (\<open>allocator_ops\<close>), a block of memory is its bytes, and \<open>allocator_ok\<close> states
  what the code relies on.
\<close>

section \<open>The allocator of a memory buffer\<close>

text \<open>\<open>allocate n\<close> returns a block of \<open>n\<close> bytes with arbitrary contents, \<open>expand_in_place\<close> and \<open>reallocate\<close> a
  longer block with the contents of the old one; each may fail. The allocator has a state.\<close>

record 'a allocator_ops =
  al_allocate :: "'a \<Rightarrow> nat \<Rightarrow> string option \<times> 'a"
  al_expand_in_place :: "'a \<Rightarrow> string \<Rightarrow> nat \<Rightarrow> string option \<times> 'a"
  al_reallocate :: "'a \<Rightarrow> string \<Rightarrow> nat \<Rightarrow> string option \<times> 'a"
  al_deallocate :: "'a \<Rightarrow> string \<Rightarrow> 'a"

definition allocator_ok :: "'a allocator_ops \<Rightarrow> bool" where
  "allocator_ok ops \<longleftrightarrow>
     (\<forall>al n b. fst (al_allocate ops al n) = Some b \<longrightarrow> length b = n)
     \<and> (\<forall>al old n b. fst (al_expand_in_place ops al old n) = Some b \<longrightarrow> take (length old) b = old)
     \<and> (\<forall>al old n b. length old \<le> n \<longrightarrow> fst (al_reallocate ops al old n) = Some b \<longrightarrow>
          length b = n \<and> take (length old) b = old)"

definition allocator_total :: "'a allocator_ops \<Rightarrow> bool" where
  "allocator_total ops \<longleftrightarrow>
     (\<forall>al n. fst (al_allocate ops al n) \<noteq> None) \<and> (\<forall>al old n. fst (al_reallocate ops al old n) \<noteq> None)"

section \<open>memory_buffer\<close>

text \<open>\<open>mb_heap\<close> is \<^const>\<open>None\<close> while \<^verbatim>\<open>m_data == m_inline_ptr\<close>, and the heap block otherwise.\<close>

record memory_buffer =
  mb_inline :: string
  mb_heap :: "string option"
  mb_size :: nat
  mb_capacity :: nat

definition mb_data :: "memory_buffer \<Rightarrow> string" where
  "mb_data s = (case mb_heap s of None \<Rightarrow> mb_inline s | Some b \<Rightarrow> b)"

definition mb_set_data :: "memory_buffer \<Rightarrow> string \<Rightarrow> memory_buffer" where
  "mb_set_data s d = (case mb_heap s of None \<Rightarrow> s\<lparr>mb_inline := d\<rparr> | Some _ \<Rightarrow> s\<lparr>mb_heap := Some d\<rparr>)"

definition memory_buffer_init :: "string \<Rightarrow> memory_buffer" where
  "memory_buffer_init storage = \<lparr>mb_inline = storage, mb_heap = None, mb_size = 0, mb_capacity = length storage\<rparr>"

definition memory_buffer_view :: "memory_buffer \<Rightarrow> string" where
  "memory_buffer_view s = take (mb_size s) (mb_data s)"

definition memory_buffer_clear :: "memory_buffer \<Rightarrow> memory_buffer" where
  "memory_buffer_clear s = s\<lparr>mb_size := 0\<rparr>"

text \<open>\<^verbatim>\<open>grow\<close>: whether it succeeded, the allocator and the buffer. The copy of the inline bytes into the new
  block is a store of its own, \<^const>\<open>None\<close> when it leaves the block.\<close>

definition memory_buffer_grow ::
    "'a allocator_ops \<Rightarrow> 'a \<times> memory_buffer \<Rightarrow> nat \<Rightarrow> (bool \<times> 'a \<times> memory_buffer) option" where
  "memory_buffer_grow ops = (\<lambda>(al, s) required.
     let doubled = mb_capacity s + mb_capacity s div 2;
         new_capacity = (if doubled < required then required else doubled)
     in case mb_heap s of
          None \<Rightarrow>
            (case al_allocate ops al new_capacity of
               (None, al') \<Rightarrow> Some (False, al', s)
             | (Some block, al') \<Rightarrow>
                 map_option (\<lambda>b. (True, al', s\<lparr>mb_heap := Some b, mb_capacity := new_capacity\<rparr>))
                   (copy_n_to block 0 (take (mb_size s) (mb_inline s))))
        | Some old \<Rightarrow>
            (case al_expand_in_place ops al old new_capacity of
               (exp, al') \<Rightarrow>
                 if (case exp of None \<Rightarrow> False | Some b \<Rightarrow> length b \<ge> new_capacity)
                 then Some (True, al', s\<lparr>mb_heap := exp, mb_capacity := length (the exp)\<rparr>)
                 else (case al_reallocate ops al' old new_capacity of
                         (None, al'') \<Rightarrow> Some (False, al'', s)
                       | (Some block, al'') \<Rightarrow>
                           Some (True, al'', s\<lparr>mb_heap := Some block, mb_capacity := new_capacity\<rparr>))))"

text \<open>\<^verbatim>\<open>std::copy_n(sv.data(), n, m_data + m_size); m_size += n\<close>.\<close>

definition memory_buffer_store :: "memory_buffer \<Rightarrow> string \<Rightarrow> memory_buffer option" where
  "memory_buffer_store s sv =
     map_option (\<lambda>d. mb_set_data (s\<lparr>mb_size := mb_size s + length sv\<rparr>) d) (copy_n_to (mb_data s) (mb_size s) sv)"

definition memory_buffer_append ::
    "'a allocator_ops \<Rightarrow> 'a \<times> memory_buffer \<Rightarrow> string \<Rightarrow> ('a \<times> memory_buffer) option" where
  "memory_buffer_append ops = (\<lambda>(al, s) sv.
     if sv = [] then Some (al, s)
     else if mb_size s + length sv > mb_capacity s
     then (case memory_buffer_grow ops (al, s) (mb_size s + length sv) of
             None \<Rightarrow> None
           | Some (True, al', s') \<Rightarrow> map_option (Pair al') (memory_buffer_store s' sv)
           | Some (False, al', s') \<Rightarrow>
               let avail = mb_capacity s' - mb_size s'
               in if avail > 0 then map_option (Pair al') (memory_buffer_store s' (take avail sv)) else Some (al', s'))
     else map_option (Pair al) (memory_buffer_store s sv))"

definition memory_buffer_push_back ::
    "'a allocator_ops \<Rightarrow> 'a \<times> memory_buffer \<Rightarrow> char \<Rightarrow> ('a \<times> memory_buffer) option" where
  "memory_buffer_push_back ops = (\<lambda>(al, s) c.
     if mb_size s \<ge> mb_capacity s
     then (case memory_buffer_grow ops (al, s) (mb_size s + 1) of
             None \<Rightarrow> None
           | Some (False, al', s') \<Rightarrow> Some (al', s')
           | Some (True, al', s') \<Rightarrow> map_option (Pair al') (memory_buffer_store s' [c]))
     else map_option (Pair al) (memory_buffer_store s [c]))"

text \<open>The move constructor: the new buffer and the one moved from.\<close>

definition memory_buffer_move ::
    "memory_buffer \<Rightarrow> string \<Rightarrow> (memory_buffer \<times> memory_buffer) option" where
  "memory_buffer_move other storage =
     (let other' = other\<lparr>mb_heap := None, mb_size := 0, mb_capacity := length storage\<rparr>
      in case mb_heap other of
           None \<Rightarrow> map_option (\<lambda>d. (\<lparr>mb_inline = d, mb_heap = None, mb_size = mb_size other, mb_capacity = mb_capacity other\<rparr>, other'))
                     (copy_n_to storage 0 (take (mb_size other) (mb_inline other)))
         | Some b \<Rightarrow> Some (\<lparr>mb_inline = storage, mb_heap = Some b, mb_size = mb_size other, mb_capacity = mb_capacity other\<rparr>, other'))"

text \<open>Move assignment between different objects, with the allocators of both sides (the target's frees
  its old block), and the destructor.\<close>

definition memory_buffer_move_assign ::
    "'a allocator_ops \<Rightarrow> 'a \<Rightarrow> memory_buffer \<Rightarrow> memory_buffer \<Rightarrow> ('a \<times> memory_buffer \<times> memory_buffer) option" where
  "memory_buffer_move_assign ops al self other =
     (let al' = (case mb_heap self of None \<Rightarrow> al | Some b \<Rightarrow> al_deallocate ops al b);
          other' = other\<lparr>mb_heap := None, mb_size := 0, mb_capacity := length (mb_inline other)\<rparr>;
          self' = self\<lparr>mb_size := mb_size other, mb_capacity := mb_capacity other\<rparr>
      in case mb_heap other of
           None \<Rightarrow> map_option (\<lambda>d. (al', self'\<lparr>mb_heap := None, mb_inline := d\<rparr>, other'))
                     (copy_n_to (mb_inline self) 0 (take (mb_size other) (mb_inline other)))
         | Some b \<Rightarrow> Some (al', self'\<lparr>mb_heap := Some b\<rparr>, other'))"

definition memory_buffer_destroy :: "'a allocator_ops \<Rightarrow> 'a \<Rightarrow> memory_buffer \<Rightarrow> 'a" where
  "memory_buffer_destroy ops al s = (case mb_heap s of None \<Rightarrow> al | Some b \<Rightarrow> al_deallocate ops al b)"

section \<open>scratch_allocator\<close>

text \<open>The buffer is the address range from \<open>sa_base\<close> of \<open>sa_capacity\<close> bytes.\<close>

record scratch_allocator =
  sa_base :: nat
  sa_capacity :: nat
  sa_pos :: nat

definition scratch_init :: "nat \<Rightarrow> nat \<Rightarrow> scratch_allocator" where
  "scratch_init base n = \<lparr>sa_base = base, sa_capacity = n, sa_pos = 0\<rparr>"

definition scratch_available :: "scratch_allocator \<Rightarrow> nat" where
  "scratch_available s = (if sa_pos s < sa_capacity s then sa_capacity s - sa_pos s else 0)"

text \<open>\<^verbatim>\<open>allocate<T>(count)\<close> for \<^verbatim>\<open>sizeof(T)\<close> and \<^verbatim>\<open>alignof(T)\<close>: the address of the storage, or \<^const>\<open>None\<close> for the null
  pointer.\<close>

definition scratch_allocate ::
    "scratch_allocator \<Rightarrow> nat \<Rightarrow> nat \<Rightarrow> nat \<Rightarrow> nat option \<times> scratch_allocator" where
  "scratch_allocate s tsize talign count =
     (if count = 0 \<or> count > scratch_available s div tsize then (None, s)
      else
        let sz = count * tsize;
            addr = sa_base s + sa_pos s;
            alignment_offset = (talign - addr mod talign) mod talign
        in if alignment_offset > scratch_available s \<or> sz > scratch_available s - alignment_offset then (None, s)
           else (Some (addr + alignment_offset), s\<lparr>sa_pos := sa_pos s + (alignment_offset + sz)\<rparr>))"

definition scratch_remaining_span :: "scratch_allocator \<Rightarrow> nat \<times> nat" where
  "scratch_remaining_span s =
     (if sa_pos s \<ge> sa_capacity s then (0, 0) else (sa_base s + sa_pos s, sa_capacity s - sa_pos s))"

definition scratch_rest :: "scratch_allocator \<Rightarrow> scratch_allocator" where
  "scratch_rest s = (let (base, n) = scratch_remaining_span s in scratch_init base n)"

definition scratch_reset :: "scratch_allocator \<Rightarrow> scratch_allocator" where
  "scratch_reset s = s\<lparr>sa_pos := 0\<rparr>"

section \<open>c_string_span_sink\<close>

definition c_string_span_sink_init :: "string \<Rightarrow> c_string_sink" where
  "c_string_span_sink_init buf =
     (if buf = [] then \<lparr>cz_data = [], cz_max_payload = 0, cz_pos = 0\<rparr>
      else \<lparr>cz_data = buf[0 := CHR 0x00], cz_max_payload = length buf - 1, cz_pos = 0\<rparr>)"

definition c_string_span_sink_reset :: "c_string_sink \<Rightarrow> c_string_sink" where
  "c_string_span_sink_reset s =
     (if cz_data s \<noteq> [] then s\<lparr>cz_pos := 0, cz_data := (cz_data s)[0 := CHR 0x00]\<rparr> else s\<lparr>cz_pos := 0\<rparr>)"

text \<open>\<^verbatim>\<open>c_str()\<close>: an empty static string when there is no buffer.\<close>

definition c_string_span_sink_c_str :: "c_string_sink \<Rightarrow> string option" where
  "c_string_span_sink_c_str s = (if cz_data s \<noteq> [] then c_string_sink_c_str s else Some [])"

section \<open>Invariant and operations of memory_buffer\<close>

definition mb_ok :: "memory_buffer \<Rightarrow> bool" where
  "mb_ok s \<longleftrightarrow> mb_size s \<le> mb_capacity s \<and> length (mb_data s) = mb_capacity s"

lemma memory_buffer_init_ok [simp]:
  "mb_ok (memory_buffer_init storage)" "memory_buffer_view (memory_buffer_init storage) = []"
  by (simp_all add: mb_ok_def memory_buffer_init_def mb_data_def memory_buffer_view_def)

lemma memory_buffer_clear_ok: "mb_ok s \<Longrightarrow> mb_ok (memory_buffer_clear s)"
  by (simp add: mb_ok_def memory_buffer_clear_def mb_data_def split: option.splits)

lemma allocator_not_total:
  "al_allocate ops al n = (None, al') \<Longrightarrow> \<not> allocator_total ops"
  "al_reallocate ops al old n = (None, al') \<Longrightarrow> \<not> allocator_total ops"
  by (metis allocator_total_def fst_conv)+

lemma allocator_okD:
  assumes "allocator_ok ops"
  shows "al_allocate ops al n = (Some b, al') \<Longrightarrow> length b = n"
    and "al_expand_in_place ops al old n = (Some b, al') \<Longrightarrow> take (length old) b = old"
    and "al_reallocate ops al old n = (Some b, al') \<Longrightarrow> length old \<le> n \<Longrightarrow> length b = n \<and> take (length old) b = old"
  using assms unfolding allocator_ok_def by (metis fst_conv)+

lemma memory_buffer_store_ok:
  assumes "mb_ok s" and "mb_size s + length sv \<le> mb_capacity s"
  obtains s' where "memory_buffer_store s sv = Some s'" "mb_ok s'" "mb_capacity s' = mb_capacity s"
    "mb_size s' = mb_size s + length sv" "memory_buffer_view s' = memory_buffer_view s @ sv"
proof -
  obtain d where d: "copy_n_to (mb_data s) (mb_size s) sv = Some d"
    using assms by (auto simp: copy_n_to_def mb_ok_def)
  note len = copy_n_to_length [OF d] and tk = copy_n_to_take [OF d]
  let ?s = "mb_set_data (s\<lparr>mb_size := mb_size s + length sv\<rparr>) d"
  have "mb_data ?s = d" "mb_size ?s = mb_size s + length sv" "mb_capacity ?s = mb_capacity s"
    by (auto simp: mb_set_data_def mb_data_def split: option.splits)
  then show thesis using that [of ?s] d len tk assms
    by (simp add: memory_buffer_store_def mb_ok_def memory_buffer_view_def)
qed

lemma copy_prefix:
  assumes "n \<le> length src" and "n \<le> length mem"
  obtains d where "copy_n_to mem 0 (take n src) = Some d" "length d = length mem" "take n d = take n src"
proof -
  obtain d where d: "copy_n_to mem 0 (take n src) = Some d"
    using assms by (simp add: copy_n_to_def)
  then show thesis using that copy_n_to_length [OF d] copy_n_to_take [OF d] assms(1) by (simp add: min_absorb2)
qed

lemma memory_buffer_grow_inline:
  assumes "allocator_ok ops" and "mb_ok s" and "mb_capacity s < required" and "mb_heap s = None"
  shows "\<exists>ok al' s'. memory_buffer_grow ops (al, s) required = Some (ok, al', s') \<and> mb_ok s'
    \<and> mb_size s' = mb_size s \<and> memory_buffer_view s' = memory_buffer_view s \<and> (ok \<longrightarrow> required \<le> mb_capacity s')
    \<and> (\<not> ok \<longrightarrow> s' = s) \<and> (allocator_total ops \<longrightarrow> ok)"
proof -
  define new where "new = (if mb_capacity s + mb_capacity s div 2 < required then required
    else mb_capacity s + mb_capacity s div 2)"
  obtain blk al' where al: "al_allocate ops al new = (blk, al')" by fastforce
  have step: "memory_buffer_grow ops (al, s) required =
      (case blk of None \<Rightarrow> Some (False, al', s)
       | Some b \<Rightarrow> map_option (\<lambda>b. (True, al', s\<lparr>mb_heap := Some b, mb_capacity := new\<rparr>))
                     (copy_n_to b 0 (take (mb_size s) (mb_inline s))))"
    unfolding memory_buffer_grow_def Let_def prod.case new_def [symmetric] assms(4) option.case al
    by (cases blk) simp_all
  show ?thesis
  proof (cases blk)
    case None
    then have "\<not> allocator_total ops" using allocator_not_total(1) al by simp
    then show ?thesis
      by (intro exI [of _ False] exI [of _ al'] exI [of _ s]) (simp add: step None assms(2))
  next
    case (Some b)
    have len: "length b = new" using allocator_okD(1) [OF assms(1)] al Some by blast
    have sz: "mb_size s \<le> length (mb_inline s)" "mb_size s \<le> new" "required \<le> new"
      using assms(2-4) by (auto simp: mb_ok_def mb_data_def new_def)
    obtain d where "copy_n_to b 0 (take (mb_size s) (mb_inline s)) = Some d" "length d = length b"
        "take (mb_size s) d = take (mb_size s) (mb_inline s)"
      by (rule copy_prefix [OF sz(1), of b]) (use sz len in auto)
    then show ?thesis using step Some len sz assms(4)
      by (auto simp: mb_ok_def mb_data_def memory_buffer_view_def)
  qed
qed

lemma memory_buffer_grow_heap:
  assumes "allocator_ok ops" and "mb_ok s" and "mb_capacity s < required" and "mb_heap s = Some old"
  shows "\<exists>ok al' s'. memory_buffer_grow ops (al, s) required = Some (ok, al', s') \<and> mb_ok s'
    \<and> mb_size s' = mb_size s \<and> memory_buffer_view s' = memory_buffer_view s \<and> (ok \<longrightarrow> required \<le> mb_capacity s')
    \<and> (\<not> ok \<longrightarrow> s' = s) \<and> (allocator_total ops \<longrightarrow> ok)"
proof -
  define new where "new = (if mb_capacity s + mb_capacity s div 2 < required then required
    else mb_capacity s + mb_capacity s div 2)"
  have old: "length old = mb_capacity s" "mb_size s \<le> length old" "length old \<le> new" "required \<le> new"
    using assms(2-4) by (auto simp: mb_ok_def mb_data_def new_def)
  have grown: "\<exists>ok a s'. Some (True, al', s\<lparr>mb_heap := Some b, mb_capacity := length b\<rparr>) = Some (ok, a, s') \<and> mb_ok s'
    \<and> mb_size s' = mb_size s \<and> memory_buffer_view s' = memory_buffer_view s \<and> (ok \<longrightarrow> required \<le> mb_capacity s')
    \<and> (\<not> ok \<longrightarrow> s' = s) \<and> (allocator_total ops \<longrightarrow> ok)"
    if "take (length old) b = old" "new \<le> length b" for b and al' :: 'a
  proof -
    have "take (mb_size s) b = take (mb_size s) old" using that(1) old(2) by (metis min.absorb1 take_take)
    then show ?thesis using that old assms(4) by (auto simp: mb_ok_def mb_data_def memory_buffer_view_def)
  qed
  obtain exp al1 where ex: "al_expand_in_place ops al old new = (exp, al1)" by fastforce
  obtain blk al2 where re: "al_reallocate ops al1 old new = (blk, al2)" by fastforce
  have step: "memory_buffer_grow ops (al, s) required =
      (if (case exp of None \<Rightarrow> False | Some b \<Rightarrow> length b \<ge> new)
       then Some (True, al1, s\<lparr>mb_heap := exp, mb_capacity := length (the exp)\<rparr>)
       else (case blk of None \<Rightarrow> Some (False, al2, s)
             | Some block \<Rightarrow> Some (True, al2, s\<lparr>mb_heap := Some block, mb_capacity := new\<rparr>)))"
    unfolding memory_buffer_grow_def Let_def prod.case new_def [symmetric] assms(4) option.case ex re
    by (cases blk) simp_all
  consider (expanded) b where "exp = Some b" "new \<le> length b"
    | (moved) b where "\<not> (case exp of None \<Rightarrow> False | Some b \<Rightarrow> length b \<ge> new)" "blk = Some b"
    | (failed) "\<not> (case exp of None \<Rightarrow> False | Some b \<Rightarrow> length b \<ge> new)" "blk = None"
    by (cases exp; cases blk) auto
  then show ?thesis
  proof cases
    case expanded
    then show ?thesis using grown [of b al1] allocator_okD(2) [OF assms(1)] ex step by simp
  next
    case moved
    then have "length b = new" "take (length old) b = old" using allocator_okD(3) [OF assms(1)] re old(3) by auto
    then show ?thesis using grown [of b al2] moved step by simp
  next
    case failed
    then have "\<not> allocator_total ops" using allocator_not_total(2) re by simp
    then show ?thesis
      by (intro exI [of _ False] exI [of _ al2] exI [of _ s]) (simp add: step failed assms(2))
  qed
qed

lemma memory_buffer_grow_ok:
  assumes "allocator_ok ops" and "mb_ok s" and "mb_capacity s < required"
  obtains ok al' s' where "memory_buffer_grow ops (al, s) required = Some (ok, al', s')" "mb_ok s'"
    "mb_size s' = mb_size s" "memory_buffer_view s' = memory_buffer_view s" "ok \<Longrightarrow> required \<le> mb_capacity s'"
    "\<not> ok \<Longrightarrow> s' = s" "allocator_total ops \<Longrightarrow> ok"
  using memory_buffer_grow_inline [OF assms, of al] memory_buffer_grow_heap [OF assms, of _ al]
  by (cases "mb_heap s") blast+

lemma memory_buffer_append_ok:
  assumes "allocator_ok ops" and "mb_ok s"
  obtains al' s' n where "memory_buffer_append ops (al, s) sv = Some (al', s')" "mb_ok s'"
    "memory_buffer_view s' = memory_buffer_view s @ take n sv" "n < length sv \<Longrightarrow> mb_size s' = mb_capacity s'"
    "allocator_total ops \<Longrightarrow> n = length sv"
proof (cases "sv = [] \<or> mb_size s + length sv \<le> mb_capacity s")
  case True
  show thesis
  proof (cases "sv = []")
    case nil: True
    then show thesis using that [of al s 0] assms(2) by (simp add: memory_buffer_append_def)
  next
    case False
    then have "mb_size s + length sv \<le> mb_capacity s" using True by simp
    from memory_buffer_store_ok [OF assms(2) this] obtain s' where "memory_buffer_store s sv = Some s'" "mb_ok s'"
      "memory_buffer_view s' = memory_buffer_view s @ sv" by metis
    then show thesis using that [of al s' "length sv"] True False by (simp add: memory_buffer_append_def)
  qed
next
  case False
  then have "mb_capacity s < mb_size s + length sv" by simp
  from memory_buffer_grow_ok [OF assms this, of al] obtain ok al' s1 where
    g: "memory_buffer_grow ops (al, s) (mb_size s + length sv) = Some (ok, al', s1)" "mb_ok s1" "mb_size s1 = mb_size s"
      "memory_buffer_view s1 = memory_buffer_view s" "ok \<Longrightarrow> mb_size s + length sv \<le> mb_capacity s1"
      "\<not> ok \<Longrightarrow> s1 = s" "allocator_total ops \<Longrightarrow> ok" by metis
  show thesis
  proof (cases ok)
    case True
    then have "mb_size s1 + length sv \<le> mb_capacity s1" using g by simp
    from memory_buffer_store_ok [OF g(2) this] obtain s' where "memory_buffer_store s1 sv = Some s'" "mb_ok s'"
      "memory_buffer_view s' = memory_buffer_view s1 @ sv" by metis
    then show thesis using that [of al' s' "length sv"] True False g by (simp add: memory_buffer_append_def)
  next
    case fail: False
    define a where "a = mb_capacity s - mb_size s"
    have s1: "s1 = s" and nt: "\<not> allocator_total ops" using g fail by auto
    have la: "length (take a sv) = a" "a < length sv" using False assms(2) by (auto simp: a_def mb_ok_def)
    have "mb_size s + length (take a sv) \<le> mb_capacity s" using assms(2) la by (simp add: a_def mb_ok_def)
    from memory_buffer_store_ok [OF assms(2) this] obtain s' where st: "memory_buffer_store s (take a sv) = Some s'"
      "mb_ok s'" "memory_buffer_view s' = memory_buffer_view s @ take a sv" "mb_size s' = mb_size s + a"
      "mb_capacity s' = mb_capacity s" using la(1) by metis
    show thesis
    proof (cases "a = 0")
      case True
      then have "mb_size s = mb_capacity s" using assms(2) by (simp add: a_def mb_ok_def)
      then show thesis using that [of al' s 0] True False g fail s1 nt assms(2)
        by (simp add: memory_buffer_append_def a_def Let_def)
    next
      case pos: False
      have "mb_size s' = mb_capacity s'" using st assms(2) by (simp add: a_def mb_ok_def)
      then show thesis using that [of al' s' a] pos False g fail s1 nt st
        by (simp add: memory_buffer_append_def a_def Let_def)
    qed
  qed
qed

text \<open>With an allocator that does not fail, a memory buffer is a sink that loses nothing.\<close>

lemma memory_buffer_stream:
  assumes "allocator_ok ops" and "allocator_total ops"
  shows "stream_sink (memory_buffer_append ops) (\<lambda>(al, s). mb_ok s) (\<lambda>(al, s). memory_buffer_view s) (@)"
proof (unfold_locales, goal_cases)
  case (1 s a)
  obtain al b where s: "s = (al, b)" by fastforce
  from memory_buffer_append_ok [OF assms(1), of b al a] 1 assms(2)
  obtain al' s' where "memory_buffer_append ops (al, b) a = Some (al', s')" "mb_ok s'"
    "memory_buffer_view s' = memory_buffer_view b @ a" by (metis order_refl prod.case s take_all)
  then show ?case by (simp add: s)
qed auto


text \<open>A move hands the contents over and leaves an empty buffer on its own inline storage.\<close>

lemma memory_buffer_move_ok:
  assumes "mb_ok other" and "length storage = length (mb_inline other)"
  shows "\<exists>s other'. memory_buffer_move other storage = Some (s, other') \<and> mb_ok s \<and> mb_ok other'
           \<and> memory_buffer_view s = memory_buffer_view other \<and> memory_buffer_view other' = []"
proof (cases "mb_heap other")
  case None
  then have sz: "mb_size other \<le> length storage" "mb_capacity other = length storage"
    using assms by (simp_all add: mb_ok_def mb_data_def)
  obtain d where "copy_n_to storage 0 (take (mb_size other) (mb_inline other)) = Some d"
      "length d = length storage" "take (mb_size other) d = take (mb_size other) (mb_inline other)"
    by (rule copy_prefix [of "mb_size other" "mb_inline other" storage]) (use sz assms(2) in auto)
  then show ?thesis using None sz assms
    by (simp add: memory_buffer_move_def mb_ok_def mb_data_def memory_buffer_view_def Let_def)
next
  case (Some b)
  then show ?thesis using assms
    by (simp add: memory_buffer_move_def mb_ok_def mb_data_def memory_buffer_view_def Let_def)
qed

lemma memory_buffer_move_assign_ok:
  assumes "mb_ok self" and "mb_ok other" and "length (mb_inline self) = length (mb_inline other)"
  shows "\<exists>al' self' other'. memory_buffer_move_assign ops al self other = Some (al', self', other') \<and> mb_ok self'
           \<and> mb_ok other' \<and> memory_buffer_view self' = memory_buffer_view other \<and> memory_buffer_view other' = []
           \<and> al' = memory_buffer_destroy ops al self"
proof (cases "mb_heap other")
  case None
  then have sz: "mb_size other \<le> length (mb_inline self)" "mb_capacity other = length (mb_inline self)"
    using assms by (simp_all add: mb_ok_def mb_data_def)
  obtain d where "copy_n_to (mb_inline self) 0 (take (mb_size other) (mb_inline other)) = Some d"
      "length d = length (mb_inline self)" "take (mb_size other) d = take (mb_size other) (mb_inline other)"
    by (rule copy_prefix [of "mb_size other" "mb_inline other" "mb_inline self"]) (use sz assms(3) in auto)
  then show ?thesis using None sz assms
    by (simp add: memory_buffer_move_assign_def memory_buffer_destroy_def mb_ok_def mb_data_def memory_buffer_view_def Let_def)
next
  case (Some b)
  then show ?thesis using assms
    by (simp add: memory_buffer_move_assign_def memory_buffer_destroy_def mb_ok_def mb_data_def memory_buffer_view_def Let_def)
qed

section \<open>Blocks of a scratch allocator\<close>

text \<open>A run of requests \<open>(sizeof, alignof, count)\<close>: the blocks that were granted, as address and size.\<close>

fun scratch_run :: "scratch_allocator \<Rightarrow> (nat \<times> nat \<times> nat) list \<Rightarrow> (nat \<times> nat \<times> nat) list \<times> scratch_allocator" where
  "scratch_run s [] = ([], s)"
| "scratch_run s ((tsize, talign, count) # rs) =
     (case scratch_allocate s tsize talign count of
        (None, s') \<Rightarrow> scratch_run s' rs
      | (Some a, s') \<Rightarrow> (let (bs, s'') = scratch_run s' rs in ((a, count * tsize, talign) # bs, s'')))"

text \<open>Blocks in ascending order, each aligned, behind the one before, and inside the range.\<close>

fun blocks_between :: "nat \<Rightarrow> nat \<Rightarrow> (nat \<times> nat \<times> nat) list \<Rightarrow> bool" where
  "blocks_between lo hi [] = True"
| "blocks_between lo hi ((a, n, al) # bs) \<longleftrightarrow> al dvd a \<and> lo \<le> a \<and> 0 < n \<and> a + n \<le> hi \<and> blocks_between (a + n) hi bs"

lemma aligned_offset: "0 < al \<Longrightarrow> al dvd (addr + (al - addr mod al) mod al)" for al :: nat
  by (metis (no_types, lifting) dvd_eq_mod_eq_0 le_add_diff_inverse mod_add_left_eq mod_add_right_eq
      mod_le_divisor mod_self)

lemma scratch_allocate_ok:
  assumes "scratch_allocate s tsize talign count = (Some a, s')" and "0 < tsize" and "0 < talign"
    and "sa_pos s \<le> sa_capacity s"
  shows "talign dvd a" and "sa_base s + sa_pos s \<le> a" and "0 < count * tsize"
    and "a + count * tsize = sa_base s + sa_pos s'" and "sa_pos s' \<le> sa_capacity s"
    and "sa_base s' = sa_base s" and "sa_capacity s' = sa_capacity s"
  using assms aligned_offset [OF assms(3), of "sa_base s + sa_pos s"]
  by (auto simp: scratch_allocate_def scratch_available_def Let_def split: if_splits)

lemma scratch_run_blocks:
  assumes "\<forall>(tsize, talign, count) \<in> set rs. 0 < tsize \<and> 0 < talign" and "sa_pos s \<le> sa_capacity s"
  shows "blocks_between (sa_base s + sa_pos s) (sa_base s + sa_capacity s) (fst (scratch_run s rs))"
  using assms
proof (induction s rs rule: scratch_run.induct)
  case (2 s tsize talign count rs)
  have ts: "0 < tsize" "0 < talign" and rs: "\<forall>(tsize, talign, count) \<in> set rs. 0 < tsize \<and> 0 < talign"
    using "2.prems"(1) by auto
  obtain r s1 where al: "scratch_allocate s tsize talign count = (r, s1)" by fastforce
  show ?case
  proof (cases r)
    case None
    then have "s1 = s" using al by (auto simp: scratch_allocate_def Let_def split: if_splits)
    then show ?thesis using "2.IH"(1) [OF al [symmetric] None rs] "2.prems"(2) al None by simp
  next
    case (Some a)
    note ok = scratch_allocate_ok [OF al [unfolded Some] ts "2.prems"(2)]
    have "blocks_between (sa_base s1 + sa_pos s1) (sa_base s1 + sa_capacity s1) (fst (scratch_run s1 rs))"
      using "2.IH"(2) [OF al [symmetric] Some rs] ok by simp
    then show ?thesis using ok al Some by (auto split: prod.splits)
  qed
qed simp

section \<open>c_string_span_sink\<close>

lemma c_string_span_sink_ok:
  "buf \<noteq> [] \<Longrightarrow> c_string_sink_ok (c_string_span_sink_init buf)"
  "c_string_sink_ok s \<Longrightarrow> c_string_sink_ok (c_string_span_sink_reset s)"
  by (auto simp: c_string_sink_ok_def c_string_span_sink_init_def c_string_span_sink_reset_def)

lemma c_string_span_empty: "c_string_sink_write (c_string_span_sink_init []) sv = Some (c_string_span_sink_init [])"
  by (simp add: c_string_sink_write_def c_string_span_sink_init_def Let_def)


section \<open>Properties\<close>

text \<open>C38: a write to a memory buffer never stores outside its block, whatever the allocator answers: the
  view grows by a prefix of the text, by all of it if the allocator does not fail, and a truncated write
  leaves the buffer full.\<close>

theorem memory_buffer_append_safe:
  assumes "allocator_ok ops" and "mb_ok s"
  shows "\<exists>al' s' n. memory_buffer_append ops (al, s) sv = Some (al', s') \<and> mb_ok s'
           \<and> memory_buffer_view s' = memory_buffer_view s @ take n sv
           \<and> (n < length sv \<longrightarrow> mb_size s' = mb_capacity s') \<and> (allocator_total ops \<longrightarrow> n = length sv)"
  using memory_buffer_append_ok [OF assms, of al sv] by metis

text \<open>An allocator with a budget of bytes that it never gets back.\<close>

definition budget_ops :: "nat allocator_ops" where
  "budget_ops = \<lparr>al_allocate = (\<lambda>al n. if n \<le> al then (Some (replicate n (CHR ''?'')), al - n) else (None, al)),
     al_expand_in_place = (\<lambda>al old n. (None, al)),
     al_reallocate = (\<lambda>al old n. if n \<le> al then (Some (take n (old @ replicate n (CHR ''?''))), al - n) else (None, al)),
     al_deallocate = (\<lambda>al old. al)\<rparr>"

lemma budget_ops_ok: "allocator_ok budget_ops"
  by (auto simp: allocator_ok_def budget_ops_def min_def)

theorem memory_buffer_append_safe_witness:
  "\<exists>al' s' n. memory_buffer_append budget_ops (5, memory_buffer_init ''....'') ''sixteen bytes...'' = Some (al', s') \<and> mb_ok s'
     \<and> memory_buffer_view s' = take n ''sixteen bytes...''"
  using memory_buffer_append_safe [OF budget_ops_ok memory_buffer_init_ok(1), of 5 "''....''" "''sixteen bytes...''"]
  by auto

text \<open>with an allocator that does not fail, formatting into a memory buffer collects the whole
  output, however it is cut into writes.\<close>

theorem memory_buffer_collects:
  assumes "allocator_ok ops" and "allocator_total ops"
  shows "\<exists>al' s'. run_sink (memory_buffer_append ops) (al, memory_buffer_init storage) cs = Some (al', s')
           \<and> memory_buffer_view s' = concat cs"
proof -
  have "stream_sink (memory_buffer_append ops) (\<lambda>(al, s). mb_ok s) (\<lambda>(al, s). memory_buffer_view s) (@)"
    by (rule memory_buffer_stream [OF assms])
  from stream_sink.run_sink_ok [OF this, of "(al, memory_buffer_init storage)" cs] show ?thesis by auto
qed

text \<open>An allocator that always grants a block.\<close>

definition heap_ops :: "unit allocator_ops" where
  "heap_ops = \<lparr>al_allocate = (\<lambda>al n. (Some (replicate n (CHR ''?'')), al)),
     al_expand_in_place = (\<lambda>al old n. (None, al)),
     al_reallocate = (\<lambda>al old n. (Some (take n (old @ replicate n (CHR ''?''))), al)),
     al_deallocate = (\<lambda>al old. al)\<rparr>"

theorem memory_buffer_collects_witness:
  "\<exists>al' s'. run_sink (memory_buffer_append heap_ops) ((), memory_buffer_init ''....'') [''abc'', ''defg''] = Some (al', s')
     \<and> memory_buffer_view s' = ''abcdefg''"
proof -
  have "allocator_ok heap_ops" and "allocator_total heap_ops"
    by (auto simp: allocator_ok_def allocator_total_def heap_ops_def min_def)
  from memory_buffer_collects [OF this, of "()" "''....''" "[''abc'', ''defg'']"] show ?thesis by simp
qed

text \<open>C40: the blocks of a scratch allocator are aligned for their type, lie inside the buffer and do not
  overlap, for every sequence of requests, granted or refused.\<close>

theorem scratch_blocks_disjoint:
  assumes "\<forall>(tsize, talign, count) \<in> set rs. 0 < tsize \<and> 0 < talign"
  shows "blocks_between base (base + n) (fst (scratch_run (scratch_init base n) rs))"
  using scratch_run_blocks [OF assms, of "scratch_init base n"] by (simp add: scratch_init_def)

theorem scratch_blocks_disjoint_witness:
  "blocks_between 1001 1021 (fst (scratch_run (scratch_init 1001 20) [(1, 1, 3), (4, 4, 2), (8, 8, 9), (2, 2, 1)]))
   \<and> fst (scratch_run (scratch_init 1001 20) [(1, 1, 3), (4, 4, 2), (8, 8, 9), (2, 2, 1)])
       = [(1001, 3, 1), (1004, 8, 4), (1012, 2, 2)]"
proof
  show "blocks_between 1001 1021 (fst (scratch_run (scratch_init 1001 20) [(1, 1, 3), (4, 4, 2), (8, 8, 9), (2, 2, 1)]))"
    using scratch_blocks_disjoint [of "[(1, 1, 3), (4, 4, 2), (8, 8, 9), (2, 2, 1)]" 1001 20] by simp
  show "fst (scratch_run (scratch_init 1001 20) [(1, 1, 3), (4, 4, 2), (8, 8, 9), (2, 2, 1)])
       = [(1001, 3, 1), (1004, 8, 4), (1012, 2, 2)]" by code_simp
qed

end
