(* ===== verification/Gdb_Packets.thy ===== *)
theory Gdb_Packets
  imports Microfmt_Prelude "HOL-Library.Sublist"
begin

text \<open>
  The packet tables of the GDB remote protocol: \<^verbatim>\<open>inspector/gdb_packet_types.hpp\<close> (the packet list and the
  enumeration it generates), \<^verbatim>\<open>gdb_packet_metadata.hpp\<close> (the table that is indexed by the enumeration) and
  \<^verbatim>\<open>gdb_packet_recognizer.hpp\<close> (the two-level lookup). The tables are the literal tables of the code, in
  their order, and the lookups index and search them as the code does.
\<close>

section \<open>Packet types\<close>

datatype packet_type =
    Pk_unknown | Pk_enable_extended_mode | Pk_halt_reason | Pk_continue_exec | Pk_continue_with_signal |
    Pk_step_exec | Pk_step_with_signal | Pk_kill | Pk_detach | Pk_restart | Pk_read_general_registers |
    Pk_write_general_registers | Pk_read_single_register | Pk_write_single_register | Pk_read_memory |
    Pk_write_memory_hex | Pk_write_memory_binary | Pk_search_memory | Pk_insert_break_watch |
    Pk_remove_break_watch | Pk_set_thread | Pk_thread_is_alive | Pk_query_supported |
    Pk_query_first_thread_info | Pk_query_subsequent_thread | Pk_query_current_thread |
    Pk_query_thread_extra_info | Pk_query_attached | Pk_query_offsets | Pk_query_crc | Pk_query_symbol |
    Pk_query_trace_status | Pk_set_start_noack_mode | Pk_set_pass_signals | Pk_set_program_signals |
    Pk_set_non_stop | Pk_set_thread_events | Pk_v_cont | Pk_v_cont_supported | Pk_v_attach | Pk_v_run |
    Pk_v_kill | Pk_v_stopped | Pk_v_must_reply_empty | Pk_file_io_request | Pk_count | Pk_multi_char_marker

text \<open>\<^verbatim>\<open>INSPECTOR_GDB_PACKET_LIST\<close>.\<close>

definition packet_list :: "(packet_type \<times> string) list" where
  "packet_list =
    [(Pk_unknown, ''''), (Pk_enable_extended_mode, ''!''), (Pk_halt_reason, ''?''),
     (Pk_continue_exec, ''c''), (Pk_continue_with_signal, ''C''), (Pk_step_exec, ''s''),
     (Pk_step_with_signal, ''S''), (Pk_kill, ''k''), (Pk_detach, ''D''), (Pk_restart, ''R''),
     (Pk_read_general_registers, ''g''), (Pk_write_general_registers, ''G''),
     (Pk_read_single_register, ''p''), (Pk_write_single_register, ''P''), (Pk_read_memory, ''m''),
     (Pk_write_memory_hex, ''M''), (Pk_write_memory_binary, ''X''), (Pk_search_memory, ''qSearch:memory''),
     (Pk_insert_break_watch, ''Z''), (Pk_remove_break_watch, ''z''), (Pk_set_thread, ''H''),
     (Pk_thread_is_alive, ''T''), (Pk_query_supported, ''qSupported''),
     (Pk_query_first_thread_info, ''qfThreadInfo''), (Pk_query_subsequent_thread, ''qsThreadInfo''),
     (Pk_query_current_thread, ''qC''), (Pk_query_thread_extra_info, ''qThreadExtraInfo''),
     (Pk_query_attached, ''qAttached''), (Pk_query_offsets, ''qOffsets''), (Pk_query_crc, ''qCRC''),
     (Pk_query_symbol, ''qSymbol''), (Pk_query_trace_status, ''qTStatus''),
     (Pk_set_start_noack_mode, ''QStartNoAckMode''), (Pk_set_pass_signals, ''QPassSignals''),
     (Pk_set_program_signals, ''QProgramSignals''), (Pk_set_non_stop, ''QNonStop''),
     (Pk_set_thread_events, ''QThreadEvents''), (Pk_v_cont, ''vCont''), (Pk_v_cont_supported, ''vCont?''),
     (Pk_v_attach, ''vAttach''), (Pk_v_run, ''vRun''), (Pk_v_kill, ''vKill''), (Pk_v_stopped, ''vStopped''),
     (Pk_v_must_reply_empty, ''vMustReplyEmpty''), (Pk_file_io_request, ''F'')]"

text \<open>The number of an enumerator: its position in the list, then \<^verbatim>\<open>_count\<close> and the marker.\<close>

fun position_in :: "'a \<Rightarrow> 'a list \<Rightarrow> nat" where
  "position_in x [] = 0"
| "position_in x (y # ys) = (if x = y then 0 else Suc (position_in x ys))"

definition packet_number :: "packet_type \<Rightarrow> nat" where
  "packet_number t = position_in t (map fst packet_list @ [Pk_count, Pk_multi_char_marker])"

section \<open>Metadata\<close>

record packet_metadata =
  md_type :: packet_type
  md_name :: string
  md_prefix :: string

definition packet_metadata_table :: "packet_metadata list" where
  "packet_metadata_table = map (\<lambda>(t, n, p). \<lparr>md_type = t, md_name = n, md_prefix = p\<rparr>)
    [(Pk_unknown, ''unknown'', ''''), (Pk_halt_reason, ''halt_reason'', ''?''),
     (Pk_continue_exec, ''continue_exec'', ''c''),
     (Pk_continue_with_signal, ''continue_with_signal'', ''C''), (Pk_step_exec, ''step_exec'', ''s''),
     (Pk_step_with_signal, ''step_with_signal'', ''S''), (Pk_kill, ''kill'', ''k''),
     (Pk_detach, ''detach'', ''D''), (Pk_restart, ''restart'', ''R''),
     (Pk_enable_extended_mode, ''enable_extended_mode'', ''!''),
     (Pk_read_general_registers, ''read_general_registers'', ''g''),
     (Pk_write_general_registers, ''write_general_registers'', ''G''),
     (Pk_read_single_register, ''read_single_register'', ''p''),
     (Pk_write_single_register, ''write_single_register'', ''P''), (Pk_read_memory, ''read_memory'', ''m''),
     (Pk_write_memory_hex, ''write_memory_hex'', ''M''),
     (Pk_write_memory_binary, ''write_memory_binary'', ''X''),
     (Pk_search_memory, ''search_memory'', ''qSearch:memory''),
     (Pk_insert_break_watch, ''insert_break_watch'', ''Z''),
     (Pk_remove_break_watch, ''remove_break_watch'', ''z''), (Pk_set_thread, ''set_thread'', ''H''),
     (Pk_thread_is_alive, ''thread_is_alive'', ''T''),
     (Pk_query_supported, ''query_supported'', ''qSupported''),
     (Pk_query_first_thread_info, ''query_first_thread_info'', ''qfThreadInfo''),
     (Pk_query_subsequent_thread, ''query_subsequent_thread'', ''qsThreadInfo''),
     (Pk_query_current_thread, ''query_current_thread'', ''qC''),
     (Pk_query_thread_extra_info, ''query_thread_extra_info'', ''qThreadExtraInfo''),
     (Pk_query_attached, ''query_attached'', ''qAttached''),
     (Pk_query_offsets, ''query_offsets'', ''qOffsets''), (Pk_query_crc, ''query_crc'', ''qCRC''),
     (Pk_query_symbol, ''query_symbol'', ''qSymbol''),
     (Pk_query_trace_status, ''query_trace_status'', ''qTStatus''),
     (Pk_set_start_noack_mode, ''set_start_noack_mode'', ''QStartNoAckMode''),
     (Pk_set_pass_signals, ''set_pass_signals'', ''QPassSignals''),
     (Pk_set_program_signals, ''set_program_signals'', ''QProgramSignals''),
     (Pk_set_non_stop, ''set_non_stop'', ''QNonStop''),
     (Pk_set_thread_events, ''set_thread_events'', ''QThreadEvents''), (Pk_v_cont, ''v_cont'', ''vCont''),
     (Pk_v_cont_supported, ''v_cont_supported'', ''vCont?''), (Pk_v_attach, ''v_attach'', ''vAttach''),
     (Pk_v_run, ''v_run'', ''vRun''), (Pk_v_kill, ''v_kill'', ''vKill''),
     (Pk_v_stopped, ''v_stopped'', ''vStopped''),
     (Pk_v_must_reply_empty, ''v_must_reply_empty'', ''vMustReplyEmpty''),
     (Pk_file_io_request, ''file_io_request'', ''F'')]"

definition get_packet_metadata :: "packet_type \<Rightarrow> packet_metadata" where
  "get_packet_metadata t =
     (let index = packet_number t
      in if index \<ge> packet_number Pk_count then packet_metadata_table ! packet_number Pk_unknown
         else packet_metadata_table ! index)"

section \<open>Recognizer\<close>

text \<open>\<^verbatim>\<open>sizeof(str) > 2\<close> means at least two characters, \<^verbatim>\<open>sizeof(str) == 2\<close> exactly one.\<close>

definition multi_char_table :: "(string \<times> packet_type) list" where
  "multi_char_table = map (\<lambda>(t, p). (p, t)) (filter (\<lambda>(t, p). length p > 1) packet_list)"

definition first_byte_entry :: "packet_type list \<Rightarrow> packet_type \<times> string \<Rightarrow> packet_type list" where
  "first_byte_entry table = (\<lambda>(t, p).
     if length p > 1 then (if code (hd p) < 128 then table[code (hd p) := Pk_multi_char_marker] else table)
     else if length p = 1 then (if code (hd p) < 128 then table[code (hd p) := t] else table)
     else table)"

definition first_byte_table :: "packet_type list" where
  "first_byte_table = foldl first_byte_entry (replicate 128 Pk_unknown) packet_list"

fun search_multi :: "(string \<times> packet_type) list \<Rightarrow> string \<Rightarrow> packet_type" where
  "search_multi [] payload = Pk_unknown"
| "search_multi ((p, t) # es) payload = (if take (length p) payload = p then t else search_multi es payload)"

definition recognize :: "string \<Rightarrow> packet_type" where
  "recognize payload =
     (if payload = [] then Pk_unknown
      else let first_char = code (hd payload)
           in if first_char \<ge> 128 then Pk_unknown
              else let found = first_byte_table ! first_char
                   in if found \<noteq> Pk_multi_char_marker then found else search_multi multi_char_table payload)"

section \<open>The tables\<close>

text \<open>An entry wins the search for every payload that starts with its prefix when no entry before it is
  comparable with it.\<close>

fun unshadowed :: "(string \<times> packet_type) list \<Rightarrow> string \<Rightarrow> packet_type \<Rightarrow> bool" where
  "unshadowed [] p t = False"
| "unshadowed ((e, u) # es) p t =
     (e = p \<and> u = t \<or> take (length p) e \<noteq> p \<and> take (length e) p \<noteq> e \<and> unshadowed es p t)"

lemma search_multi_unshadowed: "unshadowed es p t \<Longrightarrow> search_multi es (p @ rest) = t"
proof (induction es p t rule: unshadowed.induct)
  case (2 e u es p t)
  have "take (length e) (p @ rest) \<noteq> e" if "take (length p) e \<noteq> p" "take (length e) p \<noteq> e"
  proof (cases "length e \<le> length p")
    case False
    then have "take (length p) (take (length e) (p @ rest)) = p" by simp
    then show ?thesis using that(1) by metis
  qed (use that in simp)
  then show ?case using 2 by auto
qed simp

fun table_agrees :: "packet_type list \<Rightarrow> (packet_type \<times> string) list \<Rightarrow> bool" where
  "table_agrees tb [] = True"
| "table_agrees tb ((t, p) # es) =
     ((t \<noteq> Pk_unknown \<longrightarrow> p \<noteq> [] \<and> code (hd p) < 128
         \<and> tb ! code (hd p) = (if length p = 1 then t else Pk_multi_char_marker) \<and> t \<noteq> Pk_multi_char_marker)
      \<and> table_agrees tb es)"

lemma table_agreesD:
  "table_agrees tb es \<Longrightarrow> (t, p) \<in> set es \<Longrightarrow> t \<noteq> Pk_unknown \<Longrightarrow>
     p \<noteq> [] \<and> code (hd p) < 128
     \<and> tb ! code (hd p) = (if length p = 1 then t else Pk_multi_char_marker) \<and> t \<noteq> Pk_multi_char_marker"
  by (induction tb es rule: table_agrees.induct) auto

lemma packet_tables: "table_agrees first_byte_table packet_list"
  by code_simp

lemma packet_unshadowed:
  "\<forall>(t, p) \<in> set packet_list. length p > 1 \<longrightarrow> t \<notin> {Pk_query_crc, Pk_v_cont_supported} \<longrightarrow>
     unshadowed multi_char_table p t"
  by code_simp

lemma recognize_entry:
  assumes "(t, p) \<in> set packet_list" and "t \<noteq> Pk_unknown"
  shows "recognize (p @ rest) = (if length p = 1 then t else search_multi multi_char_table (p @ rest))"
  using table_agreesD [OF packet_tables assms] by (auto simp: recognize_def Let_def)

lemma recognize_shadowed:
  "search_multi multi_char_table (''qCRC'' @ rest) = Pk_query_current_thread"
  "search_multi multi_char_table (''vCont?'' @ rest) = Pk_v_cont"
proof -
  have "unshadowed multi_char_table ''qC'' Pk_query_current_thread" by code_simp
  from search_multi_unshadowed [OF this, of "''RC'' @ rest"]
  show "search_multi multi_char_table (''qCRC'' @ rest) = Pk_query_current_thread" by simp
  have "unshadowed multi_char_table ''vCont'' Pk_v_cont" by code_simp
  from search_multi_unshadowed [OF this, of "''?'' @ rest"]
  show "search_multi multi_char_table (''vCont?'' @ rest) = Pk_v_cont" by simp
qed

section \<open>Properties\<close>

text \<open>The packets whose metadata the index does not find.\<close>

definition misplaced_packets :: "packet_type list" where
  "misplaced_packets = [Pk_enable_extended_mode, Pk_halt_reason, Pk_continue_exec, Pk_continue_with_signal,
     Pk_step_exec, Pk_step_with_signal, Pk_kill, Pk_detach, Pk_restart]"

fun metadata_agrees :: "packet_metadata list \<Rightarrow> packet_type list \<Rightarrow> (packet_type \<times> string) list \<Rightarrow> bool" where
  "metadata_agrees (m # ms) bad ((t, p) # es) =
     ((if t \<in> set bad then md_type m \<noteq> t \<and> md_prefix m \<noteq> p else md_type m = t \<and> md_prefix m = p)
      \<and> metadata_agrees ms bad es)"
| "metadata_agrees ms bad es = (ms = [] \<and> es = [])"

lemma metadata_agreesD:
  "metadata_agrees ms bad es \<Longrightarrow> (t, p) \<in> set es \<Longrightarrow> distinct (map fst es) \<Longrightarrow>
   (let m = ms ! position_in t (map fst es)
    in if t \<in> set bad then md_type m \<noteq> t \<and> md_prefix m \<noteq> p else md_type m = t \<and> md_prefix m = p)"
  by (induction ms bad es rule: metadata_agrees.induct) (auto simp: Let_def image_iff split: if_splits)

lemma position_in_append: "x \<in> set xs \<Longrightarrow> position_in x (xs @ ys) = position_in x xs"
  by (induction xs) auto

lemma position_in_less: "x \<in> set xs \<Longrightarrow> position_in x xs < length xs"
  by (induction xs) auto

lemma packet_list_distinct: "distinct (map fst packet_list)" and packet_count: "packet_number Pk_count = length packet_list"
  by code_simp+

lemma metadata_of:
  assumes "(t, p) \<in> set packet_list"
  shows "get_packet_metadata t = packet_metadata_table ! position_in t (map fst packet_list)"
proof -
  have t: "t \<in> set (map fst packet_list)" using assms by force
  have "packet_number t = position_in t (map fst packet_list)"
    unfolding packet_number_def by (rule position_in_append [OF t])
  then show ?thesis using position_in_less [OF t] by (simp add: get_packet_metadata_def packet_count)
qed

lemma recognize_own:
  assumes "(t, p) \<in> set packet_list" and "t \<notin> {Pk_unknown, Pk_query_crc, Pk_v_cont_supported}"
  shows "recognize (p @ rest) = t"
proof -
  have t: "t \<noteq> Pk_unknown" using assms(2) by simp
  have "length p > 1 \<Longrightarrow> search_multi multi_char_table (p @ rest) = t"
    using packet_unshadowed assms by (intro search_multi_unshadowed) blast
  moreover have "p \<noteq> []" using table_agreesD [OF packet_tables assms(1) t] by simp
  then have "length p = 1 \<or> length p > 1" by (cases p) auto
  ultimately show ?thesis using recognize_entry [OF assms(1) t, of rest] by auto
qed

lemma metadata_own:
  assumes "(t, p) \<in> set packet_list"
  shows "md_type (get_packet_metadata t) = t \<and> md_prefix (get_packet_metadata t) = p \<longleftrightarrow> t \<notin> set misplaced_packets"
proof -
  have "metadata_agrees packet_metadata_table misplaced_packets packet_list" by code_simp
  from metadata_agreesD [OF this assms packet_list_distinct]
  show ?thesis unfolding metadata_of [OF assms] Let_def by (auto split: if_splits)
qed

text \<open>every payload that starts with the prefix of a packet is recognized as that packet, whatever
  follows, with two exceptions: the prefix \<^verbatim>\<open>qC\<close> stands before \<^verbatim>\<open>qCRC\<close> in the search table and \<^verbatim>\<open>vCont\<close> before
  \<^verbatim>\<open>vCont?\<close>, so neither \<^verbatim>\<open>query_crc\<close> nor \<^verbatim>\<open>v_cont_supported\<close> is ever recognized.\<close>

theorem recognize_packet_prefix:
  assumes "(t, p) \<in> set packet_list" and "t \<noteq> Pk_unknown"
  shows "recognize (p @ rest) = (if t = Pk_query_crc then Pk_query_current_thread
                                 else if t = Pk_v_cont_supported then Pk_v_cont else t)"
proof (cases "t \<in> {Pk_query_crc, Pk_v_cont_supported}")
  case True
  then have "t = Pk_query_crc \<and> p = ''qCRC'' \<or> t = Pk_v_cont_supported \<and> p = ''vCont?''"
    using assms(1) by (auto simp: packet_list_def)
  then show ?thesis using recognize_entry [OF assms, of rest] recognize_shadowed [of rest] by auto
next
  case False
  then show ?thesis using recognize_own [OF assms(1), of rest] assms(2) by auto
qed

theorem recognize_packet_prefix_witness:
  "recognize (''qCRC'' @ '':1000,20'') = Pk_query_current_thread"
proof -
  have "(Pk_query_crc, ''qCRC'') \<in> set packet_list" by (simp add: packet_list_def)
  from recognize_packet_prefix [OF this, of "'':1000,20''"] show ?thesis by simp
qed

text \<open>the metadata table is not in the order of the enumeration that indexes it: for the nine
  execution-control packets \<^verbatim>\<open>get_packet_metadata\<close> returns the metadata of another packet, with another
  prefix (\<^verbatim>\<open>halt_reason\<close> gets the prefix \<^verbatim>\<open>c\<close> of \<^verbatim>\<open>continue_exec\<close>), and for all other packets its own.\<close>

theorem packet_metadata_misplaced:
  assumes "(t, p) \<in> set packet_list"
  shows "(md_type (get_packet_metadata t) = t \<and> md_prefix (get_packet_metadata t) = p \<longleftrightarrow> t \<notin> set misplaced_packets)
         \<and> md_prefix (get_packet_metadata Pk_halt_reason) = ''c''"
proof -
  have "md_prefix (get_packet_metadata Pk_halt_reason) = ''c''" by code_simp
  then show ?thesis using metadata_own [OF assms] by blast
qed

theorem packet_metadata_misplaced_witness:
  "\<not> (md_type (get_packet_metadata Pk_kill) = Pk_kill \<and> md_prefix (get_packet_metadata Pk_kill) = ''k'')"
proof -
  have "(Pk_kill, ''k'') \<in> set packet_list" by (simp add: packet_list_def)
  from packet_metadata_misplaced [OF this] show ?thesis by (simp add: misplaced_packets_def)
qed

end
