(* ===== verification/Gdb_Stream.thy ===== *)
theory Gdb_Stream
  imports Sinks Int_Format
begin

text \<open>
  Framing of GDB remote protocol packets, \<^verbatim>\<open>inspector/gdb_stream.hpp\<close>: the packet writer, a sink that builds
  \<^verbatim>\<open>$data#checksum\<close> in a caller's buffer, and the streaming decoder, a state machine that is fed one byte at
  a time. The checksum is a byte, kept at its width.
\<close>

section \<open>gdb_packet_writer\<close>

record gdb_packet_writer =
  pw_buf :: string
  pw_pos :: nat
  pw_total_len :: nat
  pw_checksum :: u8
  pw_finalized :: bool

definition packet_writer_init :: "string \<Rightarrow> gdb_packet_writer" where
  "packet_writer_init buffer =
     (if length buffer > 0
      then \<lparr>pw_buf = buffer[0 := CHR ''$''], pw_pos = 1, pw_total_len = 0, pw_checksum = 0, pw_finalized = False\<rparr>
      else \<lparr>pw_buf = buffer, pw_pos = 0, pw_total_len = 0, pw_checksum = 0, pw_finalized = False\<rparr>)"

definition packet_writer_char :: "gdb_packet_writer \<Rightarrow> char \<Rightarrow> gdb_packet_writer" where
  "packet_writer_char s c =
     (if pw_pos s < length (pw_buf s)
      then s\<lparr>pw_buf := (pw_buf s)[pw_pos s := c], pw_pos := pw_pos s + 1,
             pw_checksum := pw_checksum s + of_nat (code c)\<rparr>
      else s)"

definition packet_writer_write :: "gdb_packet_writer \<Rightarrow> string \<Rightarrow> gdb_packet_writer option" where
  "packet_writer_write s sv = Some (if pw_finalized s then s else foldl packet_writer_char s sv)"

text \<open>\<^verbatim>\<open>finalize()\<close>: the framed packet, or the empty view on overflow.\<close>

definition packet_writer_finalize :: "gdb_packet_writer \<Rightarrow> string \<times> gdb_packet_writer" where
  "packet_writer_finalize s =
     (if pw_finalized s then (take (pw_total_len s) (pw_buf s), s)
      else if pw_pos s + 3 > length (pw_buf s) then ([], s)
      else
        let hi = hex_digits_lower ! unat (and (drop_bit 4 (pw_checksum s)) 0x0F);
            lo = hex_digits_lower ! unat (and (pw_checksum s) 0x0F);
            buf = ((pw_buf s)[pw_pos s := CHR ''#'', pw_pos s + 1 := hi])[pw_pos s + 2 := lo];
            pos = pw_pos s + 3
        in (take pos buf, s\<lparr>pw_buf := buf, pw_pos := pos, pw_total_len := pos, pw_finalized := True\<rparr>))"

section \<open>gdb_streaming_decoder\<close>

datatype feed_status = Fs_in_progress | Fs_ready | Fs_error_overflow | Fs_error_checksum | Fs_error_format

datatype decoder_state = Ds_waiting_for_start | Ds_reading_payload | Ds_reading_checksum_1 | Ds_reading_checksum_2

record gdb_streaming_decoder =
  sd_buf :: string
  sd_pos :: nat
  sd_running_sum :: u8
  sd_expected_checksum :: u8
  sd_nibble_count :: u8
  sd_escaped :: bool
  sd_state :: decoder_state

definition decoder_reset :: "gdb_streaming_decoder \<Rightarrow> gdb_streaming_decoder" where
  "decoder_reset d = d\<lparr>sd_pos := 0, sd_running_sum := 0, sd_expected_checksum := 0, sd_nibble_count := 0,
     sd_escaped := False, sd_state := Ds_waiting_for_start\<rparr>"

definition decoder_init :: "string \<Rightarrow> gdb_streaming_decoder" where
  "decoder_init scratch = decoder_reset \<lparr>sd_buf = scratch, sd_pos = 0, sd_running_sum = 0, sd_expected_checksum = 0,
     sd_nibble_count = 0, sd_escaped = False, sd_state = Ds_waiting_for_start\<rparr>"

definition stream_hex_nibble :: "char \<Rightarrow> u8 option" where
  "stream_hex_nibble c =
     (if 48 \<le> code c \<and> code c \<le> 57 then Some (of_nat (code c - 48))
      else if 97 \<le> code c \<and> code c \<le> 102 then Some (of_nat (code c - 97 + 10))
      else if 65 \<le> code c \<and> code c \<le> 70 then Some (of_nat (code c - 65 + 10))
      else None)"

text \<open>\<^verbatim>\<open>static_cast<char>(c ^ 0x20)\<close>.\<close>

definition flip_case_bit :: "char \<Rightarrow> char" where
  "flip_case_bit c = chr (xor (code c) 0x20)"

text \<open>A store of a decoded byte, or the overflow error.\<close>

definition decoder_store :: "gdb_streaming_decoder \<Rightarrow> char \<Rightarrow> feed_status \<times> gdb_streaming_decoder" where
  "decoder_store d ch =
     (if sd_pos d \<ge> length (sd_buf d) then (Fs_error_overflow, d\<lparr>sd_state := Ds_waiting_for_start\<rparr>)
      else (Fs_in_progress, d\<lparr>sd_buf := (sd_buf d)[sd_pos d := ch], sd_pos := sd_pos d + 1, sd_escaped := False\<rparr>))"

definition feed_payload :: "gdb_streaming_decoder \<Rightarrow> char \<Rightarrow> feed_status \<times> gdb_streaming_decoder" where
  "feed_payload d c =
     (if c = CHR ''#''
      then (Fs_in_progress, d\<lparr>sd_state := Ds_reading_checksum_1, sd_nibble_count := 0, sd_expected_checksum := 0\<rparr>)
      else if c = CHR ''$'' then (Fs_in_progress, (decoder_reset d)\<lparr>sd_state := Ds_reading_payload\<rparr>)
      else
        let d' = d\<lparr>sd_running_sum := sd_running_sum d + of_nat (code c)\<rparr>
        in if sd_escaped d' then decoder_store d' (flip_case_bit c)
           else if c = CHR ''}'' then (Fs_in_progress, d'\<lparr>sd_escaped := True\<rparr>)
           else decoder_store d' c)"

definition feed_checksum :: "gdb_streaming_decoder \<Rightarrow> char \<Rightarrow> feed_status \<times> gdb_streaming_decoder" where
  "feed_checksum d c =
     (case stream_hex_nibble c of
        None \<Rightarrow> (Fs_error_format, d\<lparr>sd_state := Ds_waiting_for_start\<rparr>)
      | Some nibble \<Rightarrow>
          let d' = d\<lparr>sd_expected_checksum := or (push_bit 4 (sd_expected_checksum d)) nibble\<rparr>
          in if sd_state d' = Ds_reading_checksum_1
             then (Fs_in_progress, d'\<lparr>sd_state := Ds_reading_checksum_2\<rparr>)
             else (if sd_running_sum d' \<noteq> sd_expected_checksum d' then Fs_error_checksum else Fs_ready,
                   d'\<lparr>sd_state := Ds_waiting_for_start\<rparr>))"

definition feed :: "gdb_streaming_decoder \<Rightarrow> char \<Rightarrow> feed_status \<times> gdb_streaming_decoder" where
  "feed d c =
     (case sd_state d of
        Ds_waiting_for_start \<Rightarrow>
          (Fs_in_progress,
           if c = CHR ''$''
           then d\<lparr>sd_pos := 0, sd_running_sum := 0, sd_escaped := False, sd_state := Ds_reading_payload\<rparr> else d)
      | Ds_reading_payload \<Rightarrow> feed_payload d c
      | Ds_reading_checksum_1 \<Rightarrow> feed_checksum d c
      | Ds_reading_checksum_2 \<Rightarrow> feed_checksum d c)"

definition decoder_payload :: "gdb_streaming_decoder \<Rightarrow> string" where
  "decoder_payload d = take (sd_pos d) (sd_buf d)"

section \<open>Specification\<close>

text \<open>The bytes behind an escaped text, and the checksum of the transmitted bytes.\<close>

fun gdb_unescape :: "bool \<Rightarrow> string \<Rightarrow> string" where
  "gdb_unescape esc [] = []"
| "gdb_unescape True (c # cs) = flip_case_bit c # gdb_unescape False cs"
| "gdb_unescape False (c # cs) = (if c = CHR ''}'' then gdb_unescape True cs else c # gdb_unescape False cs)"

definition checksum_of :: "string \<Rightarrow> u8" where
  "checksum_of s = sum_list (map (\<lambda>c. of_nat (code c)) s)"

definition packet_frame :: "string \<Rightarrow> string" where
  "packet_frame s = ''$'' @ s @ ''#'' @ [hex_digits_lower ! (unat (checksum_of s) div 16),
     hex_digits_lower ! (unat (checksum_of s) mod 16)]"

text \<open>A run of the decoder: the status of every byte.\<close>

fun feed_all :: "gdb_streaming_decoder \<Rightarrow> string \<Rightarrow> feed_status list \<times> gdb_streaming_decoder" where
  "feed_all d [] = ([], d)"
| "feed_all d (c # cs) = (let (st, d1) = feed d c; (sts, d2) = feed_all d1 cs in (st # sts, d2))"

lemma feed_all_append:
  "feed_all d (a @ b) = (let (sa, d1) = feed_all d a; (sb, d2) = feed_all d1 b in (sa @ sb, d2))"
  by (induction a arbitrary: d) (simp_all add: Let_def split: prod.splits)

section \<open>The writer\<close>

definition writer_ok :: "gdb_packet_writer \<Rightarrow> bool" where
  "writer_ok s \<longleftrightarrow> \<not> pw_finalized s \<and> 1 \<le> pw_pos s \<and> pw_pos s \<le> length (pw_buf s)
     \<and> pw_buf s ! 0 = CHR ''$'' \<and> pw_checksum s = checksum_of (drop 1 (take (pw_pos s) (pw_buf s)))"

definition writer_view :: "gdb_packet_writer \<Rightarrow> string" where
  "writer_view s = drop 1 (take (pw_pos s) (pw_buf s))"

lemma checksum_of_snoc: "checksum_of (s @ [c]) = checksum_of s + of_nat (code c)"
  by (simp add: checksum_of_def)

lemma packet_writer_init_ok:
  "buf \<noteq> [] \<Longrightarrow> writer_ok (packet_writer_init buf)" "buf \<noteq> [] \<Longrightarrow> writer_view (packet_writer_init buf) = []"
  "length (pw_buf (packet_writer_init buf)) = length buf"
  by (cases buf; simp add: packet_writer_init_def writer_ok_def writer_view_def checksum_of_def)+

lemma packet_writer_char_ok:
  assumes "writer_ok s"
  shows "writer_ok (packet_writer_char s c)" and "length (pw_buf (packet_writer_char s c)) = length (pw_buf s)"
    and "writer_view (packet_writer_char s c) = take (length (pw_buf s) - 1) (writer_view s @ [c])"
proof -
  let ?s = "packet_writer_char s c"
  have pos: "1 \<le> pw_pos s" "pw_pos s \<le> length (pw_buf s)" using assms by (simp_all add: writer_ok_def)
  show "length (pw_buf ?s) = length (pw_buf s)" by (simp add: packet_writer_char_def)
  have view: "writer_view ?s = writer_view s @ [c]" if "pw_pos s < length (pw_buf s)"
    using that pos(1) by (simp add: packet_writer_char_def writer_view_def take_Suc_conv_app_nth drop_append)
  show "writer_ok ?s"
  proof (cases "pw_pos s < length (pw_buf s)")
    case True
    then have "pw_checksum ?s = checksum_of (writer_view ?s)"
      using assms view by (simp add: checksum_of_snoc) (simp add: packet_writer_char_def writer_ok_def writer_view_def)
    then show ?thesis using True assms by (simp add: packet_writer_char_def writer_ok_def writer_view_def)
  qed (use assms in \<open>simp add: packet_writer_char_def\<close>)
  show "writer_view ?s = take (length (pw_buf s) - 1) (writer_view s @ [c])"
  proof (cases "pw_pos s < length (pw_buf s)")
    case True
    then show ?thesis using pos by (simp add: view) (simp add: writer_view_def)
  next
    case False
    then show ?thesis using pos by (simp add: packet_writer_char_def writer_view_def)
  qed
qed

lemma packet_writer_chars_ok:
  "writer_ok s \<Longrightarrow> writer_ok (foldl packet_writer_char s a)
     \<and> length (pw_buf (foldl packet_writer_char s a)) = length (pw_buf s)
     \<and> writer_view (foldl packet_writer_char s a) = take (length (pw_buf s) - 1) (writer_view s @ a)"
proof (induction a arbitrary: s)
  case Nil
  then show ?case by (auto simp: writer_ok_def writer_view_def)
next
  case (Cons c a)
  note ok = packet_writer_char_ok [OF Cons.prems, of c]
  have cut: "take n (take n (v @ [c]) @ a) = take n (v @ c # a)" for n and v :: string
    by (cases "n \<le> length v") (auto simp: take_Cons' min_def)
  show ?case using Cons.IH [OF ok(1)] unfolding ok(2,3) cut by simp
qed

interpretation packet_writer: bounded_sink packet_writer_write writer_ok writer_view "\<lambda>s. length (pw_buf s) - 1"
proof (unfold_locales, goal_cases)
  case (1 s a)
  then show ?case using packet_writer_chars_ok [OF 1, of a] by (auto simp: packet_writer_write_def writer_ok_def)
next
  case (2 s)
  then show ?case by (auto simp: writer_view_def writer_ok_def)
qed

text \<open>The two nibbles of a byte, and the byte from its nibbles.\<close>

lemma byte_nibbles:
  "unat (and (drop_bit 4 k) 0x0F) = unat k div 16" "unat (and k 0x0F) = unat k mod 16" for k :: u8
proof -
  have "(0x0F :: u8) = mask 4" by (simp add: mask_eq_exp_minus_1)
  then have "and x 0x0F = take_bit 4 x" for x :: u8 by (simp only: take_bit_eq_mask)
  moreover have "unat k div 16 < 16" using unsigned_less [of k, where 'a = nat] by simp
  ultimately show "unat (and (drop_bit 4 k) 0x0F) = unat k div 16" "unat (and k 0x0F) = unat k mod 16"
    by (simp_all add: unat_mod take_bit_eq_mod unat_drop_bit_div)
qed

lemma nibbles_byte: "or (push_bit 4 (of_nat (unat k div 16))) (of_nat (unat k mod 16)) = k" for k :: u8
proof -
  have a: "of_nat (unat k div 16) = drop_bit 4 k"
    using word_arith_nat_div [of k 16] by (simp add: drop_bit_eq_div)
  have b: "of_nat (unat k mod 16) = take_bit 4 k"
    using word_arith_nat_mod [of k 16] by (simp add: take_bit_eq_mod)
  show ?thesis unfolding a b
    by (rule bit_eqI) (auto simp: bit_or_iff bit_push_bit_iff bit_drop_bit_eq bit_take_bit_iff)
qed

lemma packet_writer_finalize_frame:
  assumes "writer_ok s" and "pw_pos s + 3 \<le> length (pw_buf s)"
  shows "fst (packet_writer_finalize s) = packet_frame (writer_view s)"
proof -
  let ?b = "pw_buf s" and ?p = "pw_pos s" and ?k = "pw_checksum s"
  have ok: "\<not> pw_finalized s" "1 \<le> ?p" "?b ! 0 = CHR ''$''" "?k = checksum_of (writer_view s)"
    using assms(1) by (simp_all add: writer_ok_def writer_view_def)
  have "take (?p + 3) (((?b[?p := x])[?p + 1 := y])[?p + 2 := z]) = take ?p ?b @ [x, y, z]" for x y z
  proof -
    have e: "?p + 3 = Suc (Suc (Suc ?p))" "?p + 2 = Suc (Suc ?p)" "?p + 1 = Suc ?p" by simp_all
    show ?thesis using assms(2) unfolding e by (simp add: take_Suc_conv_app_nth)
  qed
  moreover have "take ?p ?b = CHR ''$'' # writer_view s"
    using ok(2,3) assms(2) by (cases ?b; cases ?p) (auto simp: writer_view_def)
  ultimately show ?thesis using ok(1) assms(2)
    by (simp add: packet_writer_finalize_def packet_frame_def Let_def byte_nibbles [of "pw_checksum s"] ok(4) [symmetric])
qed

section \<open>The decoder\<close>

lemma decoder_store_ok:
  assumes "sd_pos d < length (sd_buf d)"
  shows "fst (decoder_store d ch) = Fs_in_progress" and "sd_state (snd (decoder_store d ch)) = sd_state d"
    and "decoder_payload (snd (decoder_store d ch)) = decoder_payload d @ [ch]"
    and "length (sd_buf (snd (decoder_store d ch))) = length (sd_buf d)"
    and "sd_pos (snd (decoder_store d ch)) = sd_pos d + 1"
    and "\<not> sd_escaped (snd (decoder_store d ch))"
    and "sd_running_sum (snd (decoder_store d ch)) = sd_running_sum d"
  using assms by (simp_all add: decoder_store_def decoder_payload_def take_Suc_conv_app_nth)

lemma decoder_payload_sum: "decoder_payload (d\<lparr>sd_running_sum := x\<rparr>) = decoder_payload d"
    "decoder_payload (d\<lparr>sd_escaped := b\<rparr>) = decoder_payload d"
    "decoder_payload (d\<lparr>sd_expected_checksum := y\<rparr>) = decoder_payload d"
    "decoder_payload (d\<lparr>sd_state := z\<rparr>) = decoder_payload d"
    "decoder_payload (d\<lparr>sd_nibble_count := w\<rparr>) = decoder_payload d"
  by (simp_all add: decoder_payload_def)

text \<open>One byte of payload that is no frame marker.\<close>

lemma feed_payload_char:
  assumes "sd_state d = Ds_reading_payload" and "c \<noteq> CHR ''#''" and "c \<noteq> CHR ''$''"
    and "sd_pos d + length (gdb_unescape (sd_escaped d) (c # cs)) \<le> length (sd_buf d)"
  obtains d' where "feed d c = (Fs_in_progress, d')" "sd_state d' = Ds_reading_payload"
    "length (sd_buf d') = length (sd_buf d)" "sd_running_sum d' = sd_running_sum d + of_nat (code c)"
    "decoder_payload d' @ gdb_unescape (sd_escaped d') cs = decoder_payload d @ gdb_unescape (sd_escaped d) (c # cs)"
    "sd_pos d' + length (gdb_unescape (sd_escaped d') cs) = sd_pos d + length (gdb_unescape (sd_escaped d) (c # cs))"
proof -
  let ?d = "d\<lparr>sd_running_sum := sd_running_sum d + of_nat (code c)\<rparr>"
  show thesis
  proof (cases "\<not> sd_escaped d \<and> c = CHR ''}''")
    case True
    then show thesis using assms(1)
      by (intro that [of "?d\<lparr>sd_escaped := True\<rparr>"]) (auto simp: feed_def feed_payload_def Let_def decoder_payload_sum)
  next
    case False
    define ch where "ch = (if sd_escaped d then flip_case_bit c else c)"
    have un: "gdb_unescape (sd_escaped d) (c # cs) = ch # gdb_unescape False cs" using False by (cases "sd_escaped d") (auto simp: ch_def)
    have fd: "feed d c = decoder_store ?d ch"
      using assms(1-3) False by (auto simp: feed_def feed_payload_def Let_def ch_def)
    have "sd_pos ?d < length (sd_buf ?d)" using assms(4) un by simp
    note ok = decoder_store_ok [OF this, of ch]
    show thesis
      using ok fd un assms(1)
      by (intro that [of "snd (decoder_store ?d ch)"]) (auto simp: decoder_payload_sum prod_eq_iff)
  qed
qed

lemma feed_all_payload:
  assumes "sd_state d = Ds_reading_payload" and "CHR ''#'' \<notin> set t" and "CHR ''$'' \<notin> set t"
    and "sd_pos d + length (gdb_unescape (sd_escaped d) t) \<le> length (sd_buf d)"
  shows "\<exists>d'. feed_all d t = (replicate (length t) Fs_in_progress, d') \<and> sd_state d' = Ds_reading_payload
           \<and> sd_running_sum d' = sd_running_sum d + checksum_of t
           \<and> decoder_payload d' = decoder_payload d @ gdb_unescape (sd_escaped d) t"
  using assms
proof (induction t arbitrary: d)
  case Nil
  then show ?case by (simp add: checksum_of_def)
next
  case (Cons c t)
  have c: "c \<noteq> CHR ''#''" "c \<noteq> CHR ''$''" using Cons.prems by auto
  from feed_payload_char [OF Cons.prems(1) c Cons.prems(4)] obtain d1 where d1: "feed d c = (Fs_in_progress, d1)"
    "sd_state d1 = Ds_reading_payload" "length (sd_buf d1) = length (sd_buf d)"
    "sd_running_sum d1 = sd_running_sum d + of_nat (code c)"
    "decoder_payload d1 @ gdb_unescape (sd_escaped d1) t = decoder_payload d @ gdb_unescape (sd_escaped d) (c # t)"
    "sd_pos d1 + length (gdb_unescape (sd_escaped d1) t) = sd_pos d + length (gdb_unescape (sd_escaped d) (c # t))" by metis
  obtain d2 where "feed_all d1 t = (replicate (length t) Fs_in_progress, d2)" "sd_state d2 = Ds_reading_payload"
    "sd_running_sum d2 = sd_running_sum d1 + checksum_of t"
    "decoder_payload d2 = decoder_payload d1 @ gdb_unescape (sd_escaped d1) t"
    using Cons.IH [of d1] Cons.prems d1 by auto
  then show ?case using d1 by (auto simp: checksum_of_def algebra_simps)
qed

lemma stream_hex_nibble_digit: "n < 16 \<Longrightarrow> stream_hex_nibble (hex_digits_lower ! n) = Some (of_nat n)"
proof -
  have "\<forall>n \<in> set [0..<16]. stream_hex_nibble (hex_digits_lower ! n) = Some (of_nat n)" by code_simp
  then show "n < 16 \<Longrightarrow> stream_hex_nibble (hex_digits_lower ! n) = Some (of_nat n)" by auto
qed

lemma feed_checksum_digits:
  assumes "sd_state d = Ds_reading_payload"
  shows "\<exists>d'. feed_all d [CHR ''#'', hex_digits_lower ! (unat k div 16), hex_digits_lower ! (unat k mod 16)]
           = ([Fs_in_progress, Fs_in_progress, if sd_running_sum d = k then Fs_ready else Fs_error_checksum], d')
         \<and> decoder_payload d' = decoder_payload d \<and> sd_state d' = Ds_waiting_for_start"
proof -
  have n: "unat k div 16 < 16" "unat k mod 16 < 16" using unsigned_less [of k, where 'a = nat] by simp_all
  show ?thesis using assms nibbles_byte [of k]
    by (simp add: feed_def feed_payload_def feed_checksum_def stream_hex_nibble_digit n Let_def decoder_payload_def)
qed


lemma feed_frame_start:
  assumes "sd_state d = Ds_waiting_for_start"
  shows "\<exists>d'. feed d (CHR ''$'') = (Fs_in_progress, d') \<and> sd_state d' = Ds_reading_payload \<and> sd_pos d' = 0
           \<and> decoder_payload d' = [] \<and> sd_running_sum d' = 0 \<and> \<not> sd_escaped d' \<and> length (sd_buf d') = length (sd_buf d)"
  using assms by (simp add: feed_def decoder_payload_def)

text \<open>A frame with any two checksum digits, fed to an idle decoder.\<close>

lemma feed_all_frame:
  fixes k :: u8
  assumes "sd_state d = Ds_waiting_for_start" and "CHR ''#'' \<notin> set t" and "CHR ''$'' \<notin> set t"
    and "length (gdb_unescape False t) \<le> length (sd_buf d)"
  shows "\<exists>d'. feed_all d (''$'' @ t @ [CHR ''#'', hex_digits_lower ! (unat k div 16), hex_digits_lower ! (unat k mod 16)])
           = (replicate (length t + 3) Fs_in_progress @ [if checksum_of t = k then Fs_ready else Fs_error_checksum], d')
         \<and> decoder_payload d' = gdb_unescape False t \<and> sd_state d' = Ds_waiting_for_start"
proof -
  obtain d1 where d1: "feed d (CHR ''$'') = (Fs_in_progress, d1)" "sd_state d1 = Ds_reading_payload" "sd_pos d1 = 0"
    "decoder_payload d1 = []" "sd_running_sum d1 = 0" "\<not> sd_escaped d1" "length (sd_buf d1) = length (sd_buf d)"
    using feed_frame_start [OF assms(1)] by blast
  obtain d2 where d2: "feed_all d1 t = (replicate (length t) Fs_in_progress, d2)" "sd_state d2 = Ds_reading_payload"
    "sd_running_sum d2 = checksum_of t" "decoder_payload d2 = gdb_unescape False t"
    using feed_all_payload [OF d1(2) assms(2,3)] d1 assms(4) by auto
  obtain d3 where d3: "feed_all d2 [CHR ''#'', hex_digits_lower ! (unat k div 16), hex_digits_lower ! (unat k mod 16)]
      = ([Fs_in_progress, Fs_in_progress, if checksum_of t = k then Fs_ready else Fs_error_checksum], d3)"
    "decoder_payload d3 = gdb_unescape False t" "sd_state d3 = Ds_waiting_for_start"
    using feed_checksum_digits [OF d2(2), of k] d2 by auto
  have "replicate (length t + 3) Fs_in_progress @ [x]
      = Fs_in_progress # replicate (length t) Fs_in_progress @ [Fs_in_progress, Fs_in_progress, x]" for x
    by (simp add: numeral_3_eq_3 replicate_app_Cons_same)
  then show ?thesis using d1(1) d2(1) d3 by (simp add: feed_all_append)
qed

section \<open>Properties\<close>

text \<open>C35: framing round trip. The payload \<open>t\<close>, written to a packet writer in any pieces, comes out of
  \<^verbatim>\<open>finalize()\<close> as one frame when the buffer has room for four more bytes, and as the empty view when it
  has not; a decoder that is fed the frame reports \<^verbatim>\<open>ready\<close> at the last byte and not before, and its payload is
  the unescaped text.\<close>

theorem gdb_framing_roundtrip:
  assumes "CHR ''#'' \<notin> set (concat cs)" and "CHR ''$'' \<notin> set (concat cs)" and "buf \<noteq> []"
    and "length (gdb_unescape False (concat cs)) \<le> length scratch"
  shows "\<exists>s. run_sink packet_writer_write (packet_writer_init buf) cs = Some s
     \<and> (if length (concat cs) + 4 \<le> length buf
        then \<exists>d. feed_all (decoder_init scratch) (fst (packet_writer_finalize s))
                   = (replicate (length (concat cs) + 3) Fs_in_progress @ [Fs_ready], d)
                 \<and> decoder_payload d = gdb_unescape False (concat cs)
        else fst (packet_writer_finalize s) = [])"
proof -
  let ?t = "concat cs" and ?w = "packet_writer_init buf"
  note init = packet_writer_init_ok(1,2) [OF assms(3)] packet_writer_init_ok(3) [of buf]
  obtain s where s: "run_sink packet_writer_write ?w cs = Some s" "writer_ok s"
    "writer_view s = take (length buf - 1) ?t" "length (pw_buf s) - 1 = length buf - 1"
    using packet_writer.run_sink_view [OF init(1), of cs] init by auto
  have len: "length (pw_buf s) = length buf"
  proof -
    have "1 \<le> length (pw_buf s)" using s(2) by (auto simp: writer_ok_def)
    moreover have "1 \<le> length buf" using assms(3) by (cases buf) auto
    ultimately show ?thesis using s(4) by linarith
  qed
  have pos: "pw_pos s = Suc (length (writer_view s))" "\<not> pw_finalized s"
    using s(2) by (auto simp: writer_ok_def writer_view_def)
  show ?thesis
  proof (cases "length ?t + 4 \<le> length buf")
    case True
    then have v: "writer_view s = ?t" using s(3) by simp
    have "fst (packet_writer_finalize s) = packet_frame ?t"
      using packet_writer_finalize_frame [OF s(2)] pos v True len by simp
    moreover have "sd_state (decoder_init scratch) = Ds_waiting_for_start" "length (sd_buf (decoder_init scratch)) = length scratch"
      by (simp_all add: decoder_init_def decoder_reset_def)
    ultimately show ?thesis
      using s(1) True feed_all_frame [OF _ assms(1,2), of "decoder_init scratch" "checksum_of ?t"] assms(4)
      by (auto simp: packet_frame_def)
  next
    case False
    then have "pw_pos s + 3 > length buf" using pos s(3) by auto
    then show ?thesis using False s(1) len pos(2) by (simp add: packet_writer_finalize_def)
  qed
qed

theorem gdb_framing_roundtrip_witness:
  "\<exists>s d. run_sink packet_writer_write (packet_writer_init (replicate 16 (CHR 0x00))) [''m10'', '',4''] = Some s
     \<and> feed_all (decoder_init (replicate 8 (CHR 0x00))) (fst (packet_writer_finalize s))
         = (replicate 8 Fs_in_progress @ [Fs_ready], d)
     \<and> decoder_payload d = ''m10,4''"
proof -
  have "gdb_unescape False ''m10,4'' = ''m10,4''" by simp
  then show ?thesis
    using gdb_framing_roundtrip [of "[''m10'', '',4'']" "replicate 16 (CHR 0x00)" "replicate 8 (CHR 0x00)"] by auto
qed

end
