(* ===== verification/Gdb_Codec.thy ===== *)
theory Gdb_Codec
  imports Gdb_Packets Gdb_Stream Format_Engine Memory_Buffer
begin

text \<open>
  The payloads of GDB remote protocol packets, \<^verbatim>\<open>inspector/gdb_encoders.hpp\<close> and \<^verbatim>\<open>gdb_decoders.hpp\<close>: client
  requests and server responses, encoded through the format engine and decoded into storage of a scratch
  allocator. Bytes of a request are words of 8 bits; a decoded span is its bytes. An address, a length and a
  thread id have 64 bits.
\<close>

section \<open>Encoding\<close>

definition byte_char :: "u8 \<Rightarrow> char" where
  "byte_char b = chr (unat b)"

fun emit_hex_bytes :: "u8 list \<Rightarrow> chunks" where
  "emit_hex_bytes [] = []"
| "emit_hex_bytes (b # bs) =
     put (''0123456789abcdef'' ! unat (and (drop_bit 4 b) 0x0F)) @ put (''0123456789abcdef'' ! unat (and b 0x0F))
     @ emit_hex_bytes bs"

fun emit_escaped_binary :: "u8 list \<Rightarrow> chunks" where
  "emit_escaped_binary [] = []"
| "emit_escaped_binary (b # bs) =
     (if byte_char b = CHR ''#'' \<or> byte_char b = CHR ''$'' \<or> byte_char b = CHR ''}'' \<or> byte_char b = CHR ''*''
      then put (CHR ''}'') @ put (byte_char (xor b 0x20)) else put (byte_char b))
     @ emit_escaped_binary bs"

text \<open>\<^verbatim>\<open>format_to(target, MICROFMT_STRING(fmt), args...)\<close> with unsigned integers.\<close>

definition fmt_unsigned :: "string \<Rightarrow> u64 list \<Rightarrow> chunks option" where
  "fmt_unsigned fmt args = format_to_compiled format_type_thunk fmt (map (A_int False) args)"

definition write_thread_id :: "u64 \<Rightarrow> chunks option" where
  "write_thread_id tid = (if tid = - 1 then Some (out_write ''-1'') else fmt_unsigned ''{:x}'' [tid])"

record client_request_view =
  rq_addr :: u64
  rq_length :: u64
  rq_data :: "u8 list"
  rq_thread_id :: u64
  rq_thread_action :: char
  rq_reg_index :: u32
  rq_signal :: u8
  rq_bp_type :: u8
  rq_bp_kind :: u32
  rq_extra_text :: string

definition client_request_view_init :: client_request_view where
  "client_request_view_init = \<lparr>rq_addr = 0, rq_length = 0, rq_data = [], rq_thread_id = 0, rq_thread_action = CHR ''g'',
     rq_reg_index = 0, rq_signal = 0, rq_bp_type = 0, rq_bp_kind = 0, rq_extra_text = []\<rparr>"

definition encode_request_args :: "packet_type \<Rightarrow> client_request_view \<Rightarrow> chunks option" where
  "encode_request_args t v =
     (if t \<in> {Pk_continue_with_signal, Pk_step_with_signal} then fmt_unsigned ''{:02x}'' [ucast (rq_signal v)]
      else if t = Pk_read_memory then fmt_unsigned ''{:x},{:x}'' [rq_addr v, rq_length v]
      else if t = Pk_write_memory_hex
      then seq_chunks (fmt_unsigned ''{:x},{:x}:'' [rq_addr v, rq_length v]) (Some (emit_hex_bytes (rq_data v)))
      else if t = Pk_write_memory_binary
      then seq_chunks (fmt_unsigned ''{:x},{:x}:'' [rq_addr v, rq_length v]) (Some (emit_escaped_binary (rq_data v)))
      else if t = Pk_read_single_register then fmt_unsigned ''{:x}'' [ucast (rq_reg_index v)]
      else if t = Pk_write_single_register
      then seq_chunks (fmt_unsigned ''{:x}='' [ucast (rq_reg_index v)]) (Some (emit_hex_bytes (rq_data v)))
      else if t = Pk_write_general_registers then Some (emit_hex_bytes (rq_data v))
      else if t \<in> {Pk_insert_break_watch, Pk_remove_break_watch}
      then fmt_unsigned ''{},{:x},{:x}'' [ucast (rq_bp_type v), rq_addr v, ucast (rq_bp_kind v)]
      else if t = Pk_set_thread then seq_chunks (Some (put (rq_thread_action v))) (write_thread_id (rq_thread_id v))
      else if t = Pk_thread_is_alive then write_thread_id (rq_thread_id v)
      else if t = Pk_search_memory
      then seq_chunks (fmt_unsigned '':{:x};{:x};'' [rq_addr v, rq_length v]) (Some (emit_hex_bytes (rq_data v)))
      else if t \<in> {Pk_query_supported, Pk_query_thread_extra_info, Pk_query_offsets, Pk_query_symbol, Pk_v_cont,
                   Pk_v_attach, Pk_v_run, Pk_v_kill}
      then Some (if rq_extra_text v \<noteq> []
                 then out_write (if packet_number t \<ge> packet_number Pk_v_cont then '';'' else '':'') @ out_write (rq_extra_text v)
                 else [])
      else Some (if rq_extra_text v \<noteq> [] then out_write (rq_extra_text v) else []))"

definition client_request_encode :: "packet_type \<Rightarrow> client_request_view \<Rightarrow> chunks option" where
  "client_request_encode t v =
     (let prefix = md_prefix (get_packet_metadata t)
      in seq_chunks (Some (if prefix \<noteq> [] then out_write prefix else [])) (encode_request_args t v))"

datatype server_response_type =
    Sr_empty | Sr_ok | Sr_error | Sr_hex_data | Sr_binary_data | Sr_console_output | Sr_thread_list | Sr_thread_list_end
  | Sr_stop_signal | Sr_stop_exit | Sr_raw_string

record server_response_view =
  sr_status_code :: u8
  sr_thread_id :: u64
  sr_data :: "u8 list"
  sr_thread_ids :: "u64 list"
  sr_text :: string
  sr_stop_reason_extra :: string

definition server_response_view_init :: server_response_view where
  "server_response_view_init = \<lparr>sr_status_code = 0, sr_thread_id = 0, sr_data = [], sr_thread_ids = [], sr_text = [],
     sr_stop_reason_extra = []\<rparr>"

fun emit_thread_ids :: "u64 list \<Rightarrow> chunks option" where
  "emit_thread_ids [] = Some []"
| "emit_thread_ids [t] = fmt_unsigned ''{:x}'' [t]"
| "emit_thread_ids (t # ts) = seq_chunks (fmt_unsigned ''{:x}'' [t]) (seq_chunks (Some (put (CHR '',''))) (emit_thread_ids ts))"

fun server_response_encode :: "server_response_type \<Rightarrow> server_response_view \<Rightarrow> chunks option" where
  "server_response_encode Sr_empty v = Some []"
| "server_response_encode Sr_ok v = Some (out_write ''OK'')"
| "server_response_encode Sr_error v = fmt_unsigned ''E{:02x}'' [ucast (sr_status_code v)]"
| "server_response_encode Sr_hex_data v = Some (emit_hex_bytes (sr_data v))"
| "server_response_encode Sr_binary_data v = Some (emit_escaped_binary (sr_data v))"
| "server_response_encode Sr_console_output v =
     Some (put (CHR ''O'') @ emit_hex_bytes (map (\<lambda>c. of_nat (code c)) (sr_text v)))"
| "server_response_encode Sr_thread_list v = seq_chunks (Some (put (CHR ''m''))) (emit_thread_ids (sr_thread_ids v))"
| "server_response_encode Sr_thread_list_end v = Some (put (CHR ''l''))"
| "server_response_encode Sr_stop_signal v =
     seq_chunks (fmt_unsigned ''T{:02x}'' [ucast (sr_status_code v)])
       (seq_chunks (if sr_thread_id v \<noteq> 0 then fmt_unsigned ''thread:{:x};'' [sr_thread_id v] else Some [])
          (Some (if sr_stop_reason_extra v \<noteq> [] then out_write (sr_stop_reason_extra v) else [])))"
| "server_response_encode Sr_stop_exit v = fmt_unsigned ''W{:02x}'' [ucast (sr_status_code v)]"
| "server_response_encode Sr_raw_string v = Some (out_write (sr_text v))"

section \<open>Decoding\<close>

definition parse_hex_nibble :: "char \<Rightarrow> u8 option" where
  "parse_hex_nibble c =
     (if 48 \<le> code c \<and> code c \<le> 57 then Some (of_nat (code c - 48))
      else if 97 \<le> code c \<and> code c \<le> 102 then Some (of_nat (code c - 97 + 10))
      else if 65 \<le> code c \<and> code c \<le> 70 then Some (of_nat (code c - 65 + 10))
      else None)"

text \<open>\<^verbatim>\<open>parse_hex_int\<close>: the value of the leading hexadecimal digits, modulo \<open>2\<^sup>6\<^sup>4\<close>, and their number.\<close>

fun parse_hex_loop :: "u64 \<Rightarrow> nat \<Rightarrow> string \<Rightarrow> u64 \<times> nat" where
  "parse_hex_loop val count [] = (val, count)"
| "parse_hex_loop val count (c # cs) =
     (case parse_hex_nibble c of
        None \<Rightarrow> (val, count)
      | Some n \<Rightarrow> parse_hex_loop (or (push_bit 4 val) (ucast n)) (count + 1) cs)"

definition parse_hex_int :: "string \<Rightarrow> u64 \<times> nat" where
  "parse_hex_int hx = parse_hex_loop 0 0 hx"

abbreviation hex_value :: "string \<Rightarrow> u64" where
  "hex_value s \<equiv> fst (parse_hex_int s)"

definition parse_thread_id :: "string \<Rightarrow> u64" where
  "parse_thread_id hx = (if hx = ''-1'' then - 1 else hex_value hx)"

text \<open>\<^verbatim>\<open>string_view::find(c, pos)\<close>; \<^const>\<open>None\<close> is \<^verbatim>\<open>npos\<close>.\<close>

definition find_from :: "char \<Rightarrow> nat \<Rightarrow> string \<Rightarrow> nat option" where
  "find_from c pos s =
     (let n = length (takeWhile (\<lambda>x. x \<noteq> c) (drop pos s)) in if pos + n < length s then Some (pos + n) else None)"

fun hex_pairs :: "string \<Rightarrow> u8 list option" where
  "hex_pairs (h # l # rest) =
     (case (parse_hex_nibble h, parse_hex_nibble l) of
        (Some hi, Some lo) \<Rightarrow> map_option ((#) (or (push_bit 4 hi) lo)) (hex_pairs rest)
      | _ \<Rightarrow> None)"
| "hex_pairs _ = Some []"

text \<open>The decoded bytes and the allocator; an empty span for malformed text and for exhausted storage.\<close>

definition decode_hex_bytes :: "string \<Rightarrow> scratch_allocator \<Rightarrow> u8 list \<times> scratch_allocator" where
  "decode_hex_bytes hx scratch =
     (if length hx mod 2 \<noteq> 0 then ([], scratch)
      else case scratch_allocate scratch 1 1 (length hx div 2) of
             (None, scratch') \<Rightarrow> ([], scratch')
           | (Some dest, scratch') \<Rightarrow> (case hex_pairs hx of None \<Rightarrow> [] | Some bs \<Rightarrow> bs, scratch'))"

fun unescape_loop :: "bool \<Rightarrow> string \<Rightarrow> u8 list" where
  "unescape_loop escaped [] = []"
| "unescape_loop escaped (c # cs) =
     (if escaped then of_nat (code (flip_case_bit c)) # unescape_loop False cs
      else if c = CHR ''}'' then unescape_loop True cs
      else of_nat (code c) # unescape_loop False cs)"

definition decode_escaped_binary :: "string \<Rightarrow> scratch_allocator \<Rightarrow> u8 list \<times> scratch_allocator" where
  "decode_escaped_binary bin scratch =
     (case scratch_allocate scratch 1 1 (length bin) of
        (None, scratch') \<Rightarrow> ([], scratch')
      | (Some dest, scratch') \<Rightarrow> (unescape_loop False bin, scratch'))"

text \<open>The packets with an address, a length and data.\<close>

definition decode_memory_write ::
    "packet_type \<Rightarrow> string \<Rightarrow> scratch_allocator \<Rightarrow> client_request_view \<Rightarrow> client_request_view \<times> scratch_allocator" where
  "decode_memory_write t args0 scratch v =
     (let args = (if t = Pk_search_memory \<and> take 1 args0 = '':'' then drop 1 args0 else args0);
          sep1 = find_from (if t = Pk_search_memory then CHR '';'' else CHR '','') 0 args;
          sep2 = find_from (if t = Pk_search_memory then CHR '';'' else CHR '':'')
                   (case sep1 of Some i \<Rightarrow> i + 1 | None \<Rightarrow> 0) args
      in case (sep1, sep2) of
           (Some i, Some j) \<Rightarrow>
             let (data, scratch') = (if t = Pk_write_memory_binary then decode_escaped_binary (drop (j + 1) args) scratch
                                     else decode_hex_bytes (drop (j + 1) args) scratch)
             in (v\<lparr>rq_addr := hex_value (take i args),
                   rq_length := hex_value (take (j - i - 1) (drop (i + 1) args)), rq_data := data\<rparr>, scratch')
         | _ \<Rightarrow> (v, scratch))"

definition decode_breakpoint :: "string \<Rightarrow> client_request_view \<Rightarrow> client_request_view" where
  "decode_breakpoint args v =
     (let v' = (if length args > 0 then v\<lparr>rq_bp_type := of_nat (code (args ! 0)) - 48\<rparr> else v);
          c1 = find_from (CHR '','') 0 args;
          c2 = find_from (CHR '','') (case c1 of Some i \<Rightarrow> i + 1 | None \<Rightarrow> 0) args
      in case (c1, c2) of
           (Some i, Some j) \<Rightarrow> v'\<lparr>rq_addr := hex_value (take (j - i - 1) (drop (i + 1) args)),
                                  rq_bp_kind := ucast (hex_value (drop (j + 1) args))\<rparr>
         | _ \<Rightarrow> v')"

definition decode_request_args ::
    "packet_type \<Rightarrow> string \<Rightarrow> scratch_allocator \<Rightarrow> client_request_view \<times> scratch_allocator" where
  "decode_request_args t args scratch =
     (let v = client_request_view_init
      in if t \<in> {Pk_continue_with_signal, Pk_step_with_signal} then (v\<lparr>rq_signal := ucast (hex_value args)\<rparr>, scratch)
         else if t = Pk_read_memory
         then (let (a, consumed) = parse_hex_int args; v' = v\<lparr>rq_addr := a\<rparr>
               in (if consumed < length args \<and> args ! consumed = CHR '',''
                   then v'\<lparr>rq_length := hex_value (drop (consumed + 1) args)\<rparr> else v', scratch))
         else if t \<in> {Pk_write_memory_hex, Pk_write_memory_binary, Pk_search_memory} then decode_memory_write t args scratch v
         else if t = Pk_read_single_register then (v\<lparr>rq_reg_index := ucast (hex_value args)\<rparr>, scratch)
         else if t = Pk_write_single_register
         then (case find_from (CHR ''='') 0 args of
                 None \<Rightarrow> (v, scratch)
               | Some eq \<Rightarrow> let (data, scratch') = decode_hex_bytes (drop (eq + 1) args) scratch
                           in (v\<lparr>rq_reg_index := ucast (hex_value (take eq args)), rq_data := data\<rparr>, scratch'))
         else if t = Pk_write_general_registers
         then (let (data, scratch') = decode_hex_bytes args scratch in (v\<lparr>rq_data := data\<rparr>, scratch'))
         else if t \<in> {Pk_insert_break_watch, Pk_remove_break_watch} then (decode_breakpoint args v, scratch)
         else if t = Pk_set_thread
         then (if length args > 0
               then (v\<lparr>rq_thread_action := args ! 0, rq_thread_id := parse_thread_id (drop 1 args)\<rparr>, scratch) else (v, scratch))
         else if t = Pk_thread_is_alive then (v\<lparr>rq_thread_id := parse_thread_id args\<rparr>, scratch)
         else (v\<lparr>rq_extra_text := args\<rparr>, scratch))"

definition client_request_decode ::
    "string \<Rightarrow> scratch_allocator \<Rightarrow> packet_type \<times> client_request_view \<times> scratch_allocator" where
  "client_request_decode payload scratch =
     (let t = recognize payload
      in if t = Pk_unknown then (t, client_request_view_init, scratch)
         else let prefix = md_prefix (get_packet_metadata t);
                  args = (if take (length prefix) payload = prefix then drop (length prefix) payload else payload)
              in (t, decode_request_args t args scratch))"

definition server_response_decode :: "string \<Rightarrow> server_response_type \<times> server_response_view" where
  "server_response_decode payload =
     (let v = server_response_view_init; prefix = payload ! 0
      in if payload = [] then (Sr_empty, v)
         else if payload = ''OK'' then (Sr_ok, v)
         else if payload = ''l'' then (Sr_thread_list_end, v)
         else if prefix = CHR ''E'' \<and> length payload \<ge> 3
         then (Sr_error, v\<lparr>sr_status_code := ucast (hex_value (take 2 (drop 1 payload)))\<rparr>)
         else if prefix = CHR ''T'' \<and> length payload \<ge> 3
         then (Sr_stop_signal, v\<lparr>sr_status_code := ucast (hex_value (take 2 (drop 1 payload))),
                                 sr_stop_reason_extra := drop 3 payload\<rparr>)
         else if prefix = CHR ''W'' \<or> prefix = CHR ''X''
         then (Sr_stop_exit, v\<lparr>sr_status_code := ucast (hex_value (drop 1 payload))\<rparr>)
         else if prefix = CHR ''O'' then (Sr_console_output, v\<lparr>sr_text := drop 1 payload\<rparr>)
         else if prefix = CHR ''m'' \<and> find_from (CHR '','') 0 payload \<noteq> None
         then (Sr_thread_list, v\<lparr>sr_text := drop 1 payload\<rparr>)
         else (Sr_raw_string, v\<lparr>sr_text := payload\<rparr>))"

definition decode_hex_data :: "string \<Rightarrow> scratch_allocator \<Rightarrow> u8 list \<times> scratch_allocator" where
  "decode_hex_data hex_data scratch =
     (if length hex_data mod 2 \<noteq> 0 then ([], scratch)
      else case scratch_allocate scratch 1 1 (length hex_data div 2) of
             (None, scratch') \<Rightarrow> ([], scratch')
           | (Some dest, scratch') \<Rightarrow> (case hex_pairs hex_data of None \<Rightarrow> [] | Some bs \<Rightarrow> bs, scratch'))"

section \<open>Hexadecimal text\<close>

lemma nibble_of_digit: "n < 16 \<Longrightarrow> parse_hex_nibble (hex_digits_lower ! n) = Some (of_nat n)"
  using stream_hex_nibble_digit [of n] by (simp add: parse_hex_nibble_def stream_hex_nibble_def)

abbreviation hex_text :: "nat \<Rightarrow> string" where
  "hex_text n \<equiv> radix_string 16 hex_digits_lower n"

lemma hex_text_digits: "c \<in> set (hex_text n) \<Longrightarrow> \<exists>i < 16. c = hex_digits_lower ! i"
proof (induction n rule: less_induct)
  case (less n)
  show ?case
  proof (cases "n < 16")
    case True
    then show ?thesis using less.prems by (auto simp: radix_string_small)
  next
    case False
    then have "c \<in> set (hex_text (n div 16)) \<or> c = hex_digits_lower ! (n mod 16)"
      using less.prems by (auto simp: radix_string_big)
    then show ?thesis using False less.IH [of "n div 16"] by (auto intro: exI [of _ "n mod 16"])
  qed
qed

lemma hex_text_no_separator: "parse_hex_nibble c = None \<Longrightarrow> c \<notin> set (hex_text n)"
  using hex_text_digits nibble_of_digit by fastforce

definition ends_hex :: "string \<Rightarrow> bool" where
  "ends_hex rest \<longleftrightarrow> rest = [] \<or> parse_hex_nibble (hd rest) = None"

lemma parse_hex_loop_end: "ends_hex rest \<Longrightarrow> parse_hex_loop v k rest = (v, k)"
  by (cases rest) (auto simp: ends_hex_def)

lemma parse_hex_loop_digits:
  assumes "\<forall>c \<in> set ds. \<exists>i < 16. c = hex_digits_lower ! i" and "ends_hex rest"
  shows "parse_hex_loop (of_nat a) k (ds @ rest)
           = (of_nat (foldl (\<lambda>v c. v * 16 + Int_Format.digit_value c) a ds), k + length ds)"
  using assms(1)
proof (induction ds arbitrary: a k)
  case Nil
  then show ?case by (simp add: parse_hex_loop_end [OF assms(2)])
next
  case (Cons c ds)
  obtain i where i: "i < 16" "c = hex_digits_lower ! i" using Cons.prems by auto
  have n: "unat (of_nat i :: u64) < 16" "ucast (of_nat i :: u8) = (of_nat i :: u64)"
    using i(1) by (simp_all add: unsigned_of_nat take_bit_nat_eq_self)
  have "or (push_bit 4 (of_nat a)) (ucast (of_nat i :: u8)) = (of_nat (a * 16 + i) :: u64)"
    using n by (simp add: or_push_bit_add)
  then show ?case
    using Cons.IH [of "a * 16 + i" "k + 1"] Cons.prems i hex_digits_value(1) [OF i(1)] by (simp add: nibble_of_digit)
qed

lemma parse_hex_text:
  assumes "ends_hex rest"
  shows "parse_hex_int (hex_text (unat v) @ rest) = (v, length (hex_text (unat v)))"
proof -
  have "radix_value 16 (hex_text (unat v)) = unat v"
    by (rule radix_value_string) (simp_all add: hex_digits_value)
  then show ?thesis
    using parse_hex_loop_digits [of "hex_text (unat v)" rest 0 0] hex_text_digits assms
    by (simp add: parse_hex_int_def radix_value_def)
qed

lemma hex_value_text [simp]: "hex_value (hex_text (unat v)) = v"
  using parse_hex_text [of "[]" v] by (simp add: ends_hex_def)

section \<open>Byte strings\<close>

lemma hex_pairs_emit: "hex_pairs (concat (emit_hex_bytes bs)) = Some bs"
  and emit_hex_length: "length (concat (emit_hex_bytes bs)) = 2 * length bs"
proof -
  have lut: "''0123456789abcdef'' = hex_digits_lower" by (simp add: hex_digits_lower_def)
  show "length (concat (emit_hex_bytes bs)) = 2 * length bs" by (induction bs) simp_all
  show "hex_pairs (concat (emit_hex_bytes bs)) = Some bs"
  proof (induction bs)
    case (Cons b bs)
    have "unat b div 16 < 16" "unat b mod 16 < 16" using unsigned_less [of b, where 'a = nat] by simp_all
    then show ?case using Cons unfolding emit_hex_bytes.simps lut byte_nibbles [of b]
      by (simp add: nibble_of_digit nibbles_byte)
  qed simp
qed

lemma code_byte_char [simp]: "code (byte_char b) = unat b"
  using unsigned_less [of b, where 'a = nat] by (simp add: byte_char_def)

lemma flip_byte: "flip_case_bit (byte_char (xor b 0x20)) = byte_char b"
proof -
  have "xor (unat (xor b 0x20)) 0x20 = unat b" by (simp add: unsigned_xor_eq xor.assoc)
  then show ?thesis by (simp add: flip_case_bit_def byte_char_def [of b])
qed

lemma unescape_emit:
  "unescape_loop False (concat (emit_escaped_binary bs)) = bs"
  "gdb_unescape False (concat (emit_escaped_binary bs)) = map byte_char bs"
  by (induction bs) (auto simp: flip_byte)

lemma emit_escaped_length: "length (concat (emit_escaped_binary bs)) \<le> 2 * length bs"
  by (induction bs) auto

lemma scratch_bytes:
  assumes "n \<le> scratch_available s"
  obtains a s' where "scratch_allocate s 1 1 n = (if n = 0 then None else Some a, s')"
  using assms that by (cases "n = 0") (auto simp: scratch_allocate_def Let_def)

lemma decode_hex_emit:
  assumes "length bs \<le> scratch_available s"
  shows "fst (decode_hex_bytes (concat (emit_hex_bytes bs)) s) = bs"
proof -
  obtain a s' where "scratch_allocate s 1 1 (length bs) = (if length bs = 0 then None else Some a, s')"
    using scratch_bytes [OF assms] by metis
  then show ?thesis using hex_pairs_emit [of bs] by (simp add: decode_hex_bytes_def emit_hex_length split: if_splits)
qed

lemma decode_escaped_text:
  assumes "length t \<le> scratch_available s"
  shows "fst (decode_escaped_binary t s) = unescape_loop False t"
proof -
  obtain a s' where "scratch_allocate s 1 1 (length t) = (if length t = 0 then None else Some a, s')"
    using scratch_bytes [OF assms] by metis
  then show ?thesis by (auto simp: decode_escaped_binary_def split: if_splits)
qed

lemma find_from_first:
  assumes "c \<notin> set m"
  shows "find_from c (length a) (a @ m @ c # b) = Some (length a + length m)"
proof -
  have "takeWhile (\<lambda>x. x \<noteq> c) (m @ c # b) = m" using assms by (induction m) auto
  then show ?thesis by (simp add: find_from_def)
qed

section \<open>Formatted numbers\<close>

lemma thunk_hex: "text_of (format_type_thunk (A_int False v) ''x'') = Some (hex_text (unat v))"
proof -
  have sp: "int_specs_parse int_formatter_specs_init ''x'' = int_formatter_specs_init\<lparr>is_hex := True\<rparr>" by code_simp
  show ?thesis
    unfolding format_type_thunk.simps sp format_int_impl_eq
    by (simp add: emit_formatted_int_layout int_formatter_specs_init_def spec_base_def spec_lut_def
        spec_prefix_def int_magnitude_def)
qed

lemma thunk_dec: "text_of (format_type_thunk (A_int False v) []) = Some (dec_string (unat v))"
proof -
  have sp: "int_specs_parse int_formatter_specs_init [] = int_formatter_specs_init" by code_simp
  show ?thesis
    unfolding format_type_thunk.simps sp format_int_impl_eq
    by (simp add: emit_formatted_int_layout int_formatter_specs_init_def spec_base_def spec_lut_def
        spec_prefix_def int_magnitude_def)
qed

lemma compiled_text:
  assumes "compile_format_string (length fmt + 1) fmt = Some ps"
  shows "text_of (fmt_unsigned fmt args) = text_of (unrolled_format_impl format_type_thunk (map (A_int False) args) ps)"
  using assms by (simp add: fmt_unsigned_def format_to_compiled_def)

lemma piece_texts:
  "text_of (unrolled_format_impl th args (p # ps)) =
     Option.bind (text_of (emit_piece_by_index th args p)) (\<lambda>x. map_option (\<lambda>y. x @ y) (text_of (unrolled_format_impl th args ps)))"
  by (simp add: unrolled_single text_of_seq)

lemmas piece_simps = piece_texts emit_piece_by_index_def thunk_hex thunk_dec

lemma fmt_x: "text_of (fmt_unsigned ''{:x}'' [a]) = Some (hex_text (unat a))"
proof -
  have "compile_format_string (length ''{:x}'' + 1) ''{:x}'' = Some [\<lparr>literal = [], spec = ''x'', arg_index = 0, is_arg = True\<rparr>]"
    by code_simp
  from compiled_text [OF this, of "[a]"] show ?thesis by (simp add: piece_simps del: format_type_thunk.simps)
qed

lemma fmt_x_x: "text_of (fmt_unsigned ''{:x},{:x}'' [a, b]) = Some (hex_text (unat a) @ '','' @ hex_text (unat b))"
proof -
  have "compile_format_string (length ''{:x},{:x}'' + 1) ''{:x},{:x}'' = Some [\<lparr>literal = [], spec = ''x'', arg_index = 0, is_arg = True\<rparr>,
      \<lparr>literal = '','', spec = [], arg_index = 0, is_arg = False\<rparr>,
      \<lparr>literal = [], spec = ''x'', arg_index = 1, is_arg = True\<rparr>]"
    by code_simp
  from compiled_text [OF this, of "[a, b]"] show ?thesis by (simp add: piece_simps del: format_type_thunk.simps)
qed

lemma fmt_x_x_colon: "text_of (fmt_unsigned ''{:x},{:x}:'' [a, b]) = Some (hex_text (unat a) @ '','' @ hex_text (unat b) @ '':'')"
proof -
  have "compile_format_string (length ''{:x},{:x}:'' + 1) ''{:x},{:x}:'' = Some [\<lparr>literal = [], spec = ''x'', arg_index = 0, is_arg = True\<rparr>,
      \<lparr>literal = '','', spec = [], arg_index = 0, is_arg = False\<rparr>,
      \<lparr>literal = [], spec = ''x'', arg_index = 1, is_arg = True\<rparr>,
      \<lparr>literal = '':'', spec = [], arg_index = 0, is_arg = False\<rparr>]"
    by code_simp
  from compiled_text [OF this, of "[a, b]"] show ?thesis by (simp add: piece_simps del: format_type_thunk.simps)
qed

lemma fmt_x_eq: "text_of (fmt_unsigned ''{:x}='' [a]) = Some (hex_text (unat a) @ ''='')"
proof -
  have "compile_format_string (length ''{:x}='' + 1) ''{:x}='' = Some [\<lparr>literal = [], spec = ''x'', arg_index = 0, is_arg = True\<rparr>,
      \<lparr>literal = ''='', spec = [], arg_index = 0, is_arg = False\<rparr>]"
    by code_simp
  from compiled_text [OF this, of "[a]"] show ?thesis by (simp add: piece_simps del: format_type_thunk.simps)
qed

lemma fmt_break: "text_of (fmt_unsigned ''{},{:x},{:x}'' [a, b, c]) = Some (dec_string (unat a) @ '','' @ hex_text (unat b) @ '','' @ hex_text (unat c))"
proof -
  have "compile_format_string (length ''{},{:x},{:x}'' + 1) ''{},{:x},{:x}'' = Some [\<lparr>literal = [], spec = [], arg_index = 0, is_arg = True\<rparr>,
      \<lparr>literal = '','', spec = [], arg_index = 0, is_arg = False\<rparr>,
      \<lparr>literal = [], spec = ''x'', arg_index = 1, is_arg = True\<rparr>,
      \<lparr>literal = '','', spec = [], arg_index = 0, is_arg = False\<rparr>,
      \<lparr>literal = [], spec = ''x'', arg_index = 2, is_arg = True\<rparr>]"
    by code_simp
  from compiled_text [OF this, of "[a, b, c]"] show ?thesis by (simp add: piece_simps del: format_type_thunk.simps)
qed

lemma fmt_search: "text_of (fmt_unsigned '':{:x};{:x};'' [a, b]) = Some ('':'' @ hex_text (unat a) @ '';'' @ hex_text (unat b) @ '';'')"
proof -
  have "compile_format_string (length '':{:x};{:x};'' + 1) '':{:x};{:x};'' = Some [\<lparr>literal = '':'', spec = [], arg_index = 0, is_arg = False\<rparr>,
      \<lparr>literal = [], spec = ''x'', arg_index = 0, is_arg = True\<rparr>,
      \<lparr>literal = '';'', spec = [], arg_index = 0, is_arg = False\<rparr>,
      \<lparr>literal = [], spec = ''x'', arg_index = 1, is_arg = True\<rparr>,
      \<lparr>literal = '';'', spec = [], arg_index = 0, is_arg = False\<rparr>]"
    by code_simp
  from compiled_text [OF this, of "[a, b]"] show ?thesis by (simp add: piece_simps del: format_type_thunk.simps)
qed

lemmas fmt_texts = fmt_x fmt_x_x fmt_x_x_colon fmt_x_eq fmt_break fmt_search

section \<open>Requests\<close>

text \<open>A text of three fields with two separators.\<close>

lemma three_fields:
  assumes "c1 \<notin> set a" and "c2 \<notin> set b" and "t = a @ c1 # b @ c2 # d"
  shows "find_from c1 0 t = Some (length a)" and "find_from c2 (length a + 1) t = Some (length a + 1 + length b)"
    and "take (length a) t = a" and "take (length b) (drop (length a + 1) t) = b"
    and "drop (length a + 1 + length b + 1) t = d"
  using find_from_first [OF assms(1), of "[]" "b @ c2 # d"] find_from_first [OF assms(2), of "a @ [c1]" d]
  by (simp_all add: assms(3))

lemma separators: "parse_hex_nibble (CHR '','') = None" "parse_hex_nibble (CHR '':'') = None"
    "parse_hex_nibble (CHR '';'') = None" "parse_hex_nibble (CHR ''='') = None" "parse_hex_nibble (CHR ''-'') = None"
    "parse_hex_nibble (CHR ''}'') = None" "parse_hex_nibble (CHR ''#'') = None" "parse_hex_nibble (CHR ''$'') = None"
  by (simp_all add: parse_hex_nibble_def)

lemmas hex_text_no [simp] = separators [THEN hex_text_no_separator]

definition data_packets :: "packet_type list" where
  "data_packets = [Pk_read_memory, Pk_write_memory_hex, Pk_write_memory_binary, Pk_search_memory, Pk_read_single_register,
     Pk_write_single_register, Pk_write_general_registers, Pk_insert_break_watch, Pk_remove_break_watch, Pk_set_thread,
     Pk_thread_is_alive]"

text \<open>The fields that a packet carries; the others are at their defaults behind a decoder.\<close>

definition request_fields :: "packet_type \<Rightarrow> client_request_view \<Rightarrow> client_request_view" where
  "request_fields t v =
     (let i = client_request_view_init
      in if t = Pk_read_memory then i\<lparr>rq_addr := rq_addr v, rq_length := rq_length v\<rparr>
         else if t \<in> {Pk_write_memory_hex, Pk_write_memory_binary, Pk_search_memory}
         then i\<lparr>rq_addr := rq_addr v, rq_length := rq_length v, rq_data := rq_data v\<rparr>
         else if t = Pk_read_single_register then i\<lparr>rq_reg_index := rq_reg_index v\<rparr>
         else if t = Pk_write_single_register then i\<lparr>rq_reg_index := rq_reg_index v, rq_data := rq_data v\<rparr>
         else if t = Pk_write_general_registers then i\<lparr>rq_data := rq_data v\<rparr>
         else if t \<in> {Pk_insert_break_watch, Pk_remove_break_watch}
         then i\<lparr>rq_bp_type := rq_bp_type v, rq_addr := rq_addr v, rq_bp_kind := rq_bp_kind v\<rparr>
         else if t = Pk_set_thread then i\<lparr>rq_thread_action := rq_thread_action v, rq_thread_id := rq_thread_id v\<rparr>
         else i\<lparr>rq_thread_id := rq_thread_id v\<rparr>)"

lemma data_packet_entry:
  assumes "t \<in> set data_packets"
  obtains p where "(t, p) \<in> set packet_list" "p \<noteq> []" "md_prefix (get_packet_metadata t) = p" "\<And>rest. recognize (p @ rest) = t"
    "t \<noteq> Pk_unknown"
proof -
  have "t \<notin> set misplaced_packets" and ok: "t \<notin> {Pk_unknown, Pk_query_crc, Pk_v_cont_supported}"
    using assms by (auto simp: data_packets_def misplaced_packets_def)
  moreover have "list_all (\<lambda>t. t \<in> set (map fst packet_list)) data_packets" by code_simp
  then obtain p where p: "(t, p) \<in> set packet_list" using assms by (fastforce simp: list_all_iff)
  moreover have "p \<noteq> []" using table_agreesD [OF packet_tables p] ok by simp
  ultimately show thesis using that [of p] metadata_own [OF p] recognize_own [OF p ok] by blast
qed

lemma data_packet_roundtrip:
  assumes "t \<in> set data_packets" and "text_of (encode_request_args t v) = Some args"
  shows "\<exists>x. text_of (client_request_encode t v) = Some x \<and> client_request_decode x s = (t, decode_request_args t args s)"
proof -
  obtain p where p: "p \<noteq> []" "md_prefix (get_packet_metadata t) = p" "\<And>rest. recognize (p @ rest) = t" "t \<noteq> Pk_unknown"
    using data_packet_entry [OF assms(1)] by metis
  have "text_of (client_request_encode t v) = Some (p @ args)"
    using p assms(2) by (simp add: client_request_encode_def text_of_seq)
  moreover have "client_request_decode (p @ args) s = (t, decode_request_args t args s)"
    using p(2-4) by (simp add: client_request_decode_def)
  ultimately show ?thesis by blast
qed

lemma thread_id_text:
  "\<exists>x. text_of (write_thread_id tid) = Some x \<and> parse_thread_id x = tid"
proof (cases "tid = - 1")
  case False
  have "hex_text (unat tid) \<noteq> ''-1''" using hex_text_no(5) [of "unat tid"] by (metis list.set_intros(1))
  then show ?thesis using False by (simp add: write_thread_id_def fmt_x parse_thread_id_def)
qed (simp add: write_thread_id_def parse_thread_id_def)

lemma memory_write_args:
  assumes "t = Pk_search_memory \<or> t = Pk_write_memory_hex \<or> t = Pk_write_memory_binary"
    and "args = (if t = Pk_search_memory then '':'' else []) @ hex_text (unat a)
           @ (if t = Pk_search_memory then CHR '';'' else CHR '','') # hex_text (unat l)
           @ (if t = Pk_search_memory then CHR '';'' else CHR '':'') # d"
  shows "fst (decode_memory_write t args s v) = v\<lparr>rq_addr := a, rq_length := l,
           rq_data := fst (if t = Pk_write_memory_binary then decode_escaped_binary d s else decode_hex_bytes d s)\<rparr>"
proof -
  let ?c1 = "if t = Pk_search_memory then CHR '';'' else CHR '',''" and ?c2 = "if t = Pk_search_memory then CHR '';'' else CHR '':''"
  define u where "u = hex_text (unat a) @ ?c1 # hex_text (unat l) @ ?c2 # d"
  have "?c1 \<notin> set (hex_text (unat a))" "?c2 \<notin> set (hex_text (unat l))" by simp_all
  note f = three_fields [OF this u_def]
  have strip: "(if t = Pk_search_memory \<and> take 1 args = '':'' then drop 1 args else args) = u"
    using assms by (auto simp: u_def)
  show ?thesis
    unfolding decode_memory_write_def Let_def strip f(1) option.case prod.case f(2)
    using f(3-5) by (simp split: prod.splits)
qed


lemma ucast_u32_u64 [simp]: "ucast (ucast r :: u64) = (r :: u32)"
  by (rule bit_word_eqI) (simp add: bit_ucast_iff)

lemma bp_type_digit:
  assumes "unat b < 10"
  shows "of_nat (code (hex_digits_lower ! unat b)) - 48 = (b :: u8)"
proof -
  have "code (hex_digits_lower ! unat b) = 48 + unat b"
  proof -
    have "\<forall>i \<in> set [0..<10]. code (hex_digits_lower ! i) = 48 + i" by code_simp
    then show ?thesis using assms by auto
  qed
  then show ?thesis by simp
qed

lemma breakpoint_args:
  assumes "unat (rq_bp_type v) < 10"
    and "args = dec_string (unat (rq_bp_type v)) @ CHR '','' # hex_text (unat a) @ CHR '','' # hex_text (unat (ucast k :: u64))"
  shows "decode_breakpoint args i = i\<lparr>rq_bp_type := rq_bp_type v, rq_addr := a, rq_bp_kind := k\<rparr>"
proof -
  let ?d = "[hex_digits_lower ! unat (rq_bp_type v)]"
  have ds: "dec_string (unat (rq_bp_type v)) = ?d" using assms(1) by (simp add: radix_string_small)
  have "CHR '','' \<notin> set ?d"
    using nibble_of_digit [of "unat (rq_bp_type v)"] assms(1) separators(1) by auto
  note f = three_fields [OF this _ assms(2) [unfolded ds], of ] and first = assms(2) [unfolded ds]
  have no: "CHR '','' \<notin> set (hex_text (unat a))" by simp
  have a0: "length args > 0" "args ! 0 = hex_digits_lower ! unat (rq_bp_type v)" by (simp_all add: first)
  show ?thesis
    unfolding decode_breakpoint_def Let_def f(1) [OF no] option.case prod.case f(2) [OF no]
    using f(3-5) [OF no] a0 bp_type_digit [OF assms(1)] by simp
qed

lemma request_args_roundtrip:
  assumes "t \<in> set data_packets" and "2 * length (rq_data v) \<le> scratch_available s" and "unat (rq_bp_type v) < 10"
  shows "\<exists>args. text_of (encode_request_args t v) = Some args
           \<and> fst (decode_request_args t args s) = request_fields t v"
proof -
  let ?a = "hex_text (unat (rq_addr v))" and ?l = "hex_text (unat (rq_length v))" and ?i = client_request_view_init
  have hexd: "fst (decode_hex_bytes (concat (emit_hex_bytes (rq_data v))) s) = rq_data v"
    by (rule decode_hex_emit) (use assms(2) in simp)
  then obtain s' where dec: "decode_hex_bytes (concat (emit_hex_bytes (rq_data v))) s = (rq_data v, s')"
    by (metis prod.collapse)
  have bind: "fst (decode_escaped_binary (concat (emit_escaped_binary (rq_data v))) s) = rq_data v"
    using decode_escaped_text [of "concat (emit_escaped_binary (rq_data v))" s] emit_escaped_length [of "rq_data v"] assms(2)
    by (simp add: unescape_emit)
  consider (read) "t = Pk_read_memory" | (mem) "t = Pk_search_memory \<or> t = Pk_write_memory_hex \<or> t = Pk_write_memory_binary"
    | (rreg) "t = Pk_read_single_register" | (wreg) "t = Pk_write_single_register" | (wall) "t = Pk_write_general_registers"
    | (brk) "t = Pk_insert_break_watch \<or> t = Pk_remove_break_watch" | (sett) "t = Pk_set_thread" | (alive) "t = Pk_thread_is_alive"
    using assms(1) by (auto simp: data_packets_def)
  then show ?thesis
  proof cases
    case read
    have "parse_hex_int (?a @ CHR '','' # ?l) = (rq_addr v, length ?a)"
      by (rule parse_hex_text) (simp add: ends_hex_def separators)
    then show ?thesis using read
      by (simp add: encode_request_args_def fmt_texts decode_request_args_def request_fields_def Let_def)
  next
    case mem
    let ?h = "concat (emit_hex_bytes (rq_data v))" and ?b = "concat (emit_escaped_binary (rq_data v))"
    let ?v = "?i\<lparr>rq_addr := rq_addr v, rq_length := rq_length v, rq_data := rq_data v\<rparr>"
    note m = memory_write_args [where a = "rq_addr v" and l = "rq_length v" and s = s and v = ?i, OF _ refl]
    have "fst (decode_memory_write Pk_search_memory ('':'' @ ?a @ CHR '';'' # ?l @ CHR '';'' # ?h) s ?i) = ?v"
      and "fst (decode_memory_write Pk_write_memory_hex (?a @ CHR '','' # ?l @ CHR '':'' # ?h) s ?i) = ?v"
      and "fst (decode_memory_write Pk_write_memory_binary (?a @ CHR '','' # ?l @ CHR '':'' # ?b) s ?i) = ?v"
      using m [of Pk_search_memory ?h] m [of Pk_write_memory_hex ?h] m [of Pk_write_memory_binary ?b] hexd bind by simp_all
    with mem show ?thesis
      by (elim disjE) (simp_all add: encode_request_args_def text_of_seq fmt_texts decode_request_args_def request_fields_def Let_def)
  next
    case rreg
    then show ?thesis by (simp add: encode_request_args_def fmt_texts decode_request_args_def request_fields_def Let_def)
  next
    case wreg
    let ?r = "hex_text (unat (ucast (rq_reg_index v) :: u64))" and ?d = "concat (emit_hex_bytes (rq_data v))"
    have "find_from (CHR ''='') 0 (?r @ CHR ''='' # ?d) = Some (length ?r)"
      using find_from_first [of "CHR ''=''" ?r "[]" ?d] by simp
    then show ?thesis using wreg dec
      by (simp add: encode_request_args_def text_of_seq fmt_texts decode_request_args_def request_fields_def Let_def)
  next
    case wall
    then show ?thesis using dec
      by (simp add: encode_request_args_def decode_request_args_def request_fields_def Let_def)
  next
    case brk
    have "unat (ucast (rq_bp_type v) :: u64) = unat (rq_bp_type v)"
      using assms(3) by (simp add: unsigned_ucast_eq take_bit_nat_eq_self)
    then show ?thesis using brk breakpoint_args [OF assms(3) refl, of "rq_addr v" "rq_bp_kind v" ?i]
      by (auto simp: encode_request_args_def fmt_texts decode_request_args_def request_fields_def Let_def)
  next
    case sett
    obtain x where "text_of (write_thread_id (rq_thread_id v)) = Some x" "parse_thread_id x = rq_thread_id v"
      using thread_id_text by blast
    then show ?thesis using sett
      by (simp add: encode_request_args_def text_of_seq decode_request_args_def request_fields_def Let_def)
  next
    case alive
    obtain x where "text_of (write_thread_id (rq_thread_id v)) = Some x" "parse_thread_id x = rq_thread_id v"
      using thread_id_text by blast
    then show ?thesis using alive
      by (simp add: encode_request_args_def decode_request_args_def request_fields_def Let_def)
  qed
qed


section \<open>Properties\<close>

text \<open>C36: what the request encoder writes, the request decoder reads: for the memory, register, breakpoint
  and thread packets the decoder recognizes the packet and returns every field it carries, with hexadecimal
  and with escaped binary data of any bytes, if the scratch storage has room for the encoded data (a
  breakpoint type is a single digit).\<close>

theorem gdb_request_roundtrip:
  assumes "t \<in> set data_packets" and "2 * length (rq_data v) \<le> scratch_available s" and "unat (rq_bp_type v) < 10"
  shows "\<exists>x s'. text_of (client_request_encode t v) = Some x
           \<and> client_request_decode x s = (t, request_fields t v, s')"
proof -
  obtain args where args: "text_of (encode_request_args t v) = Some args" "fst (decode_request_args t args s) = request_fields t v"
    using request_args_roundtrip [OF assms] by blast
  then show ?thesis using data_packet_roundtrip [OF assms(1) args(1), of s] by (metis prod.collapse)
qed

theorem gdb_request_roundtrip_witness:
  "\<exists>x s'. text_of (client_request_encode Pk_write_memory_binary
              (client_request_view_init\<lparr>rq_addr := 0x2000, rq_length := 3, rq_data := [0x41, 0x7d, 0x23]\<rparr>)) = Some x
     \<and> client_request_decode x (scratch_init 4096 16)
         = (Pk_write_memory_binary, client_request_view_init\<lparr>rq_addr := 0x2000, rq_length := 3, rq_data := [0x41, 0x7d, 0x23]\<rparr>, s')"
  using gdb_request_roundtrip [of Pk_write_memory_binary
      "client_request_view_init\<lparr>rq_addr := 0x2000, rq_length := 3, rq_data := [0x41, 0x7d, 0x23]\<rparr>" "scratch_init 4096 16"]
  by (simp add: data_packets_def scratch_available_def scratch_init_def client_request_view_init_def request_fields_def)

lemma gdb_unescape_plain: "CHR ''}'' \<notin> set a \<Longrightarrow> gdb_unescape False (a @ b) = a @ gdb_unescape False b"
  by (induction a) auto

lemma unescape_loop_shorter: "length (unescape_loop e t) \<le> length t"
  by (induction e t rule: unescape_loop.induct) (auto split: if_splits)

lemma unescape_loop_marker: "CHR ''}'' \<in> set t \<Longrightarrow> length (unescape_loop False t) < length t"
proof (induction t)
  case (Cons c t)
  show ?case
  proof (cases "c = CHR ''}''")
    case True
    then show ?thesis using unescape_loop_shorter [of True t] by simp
  next
    case False
    then show ?thesis using Cons by simp
  qed
qed simp

text \<open>a binary write that goes through the streaming decoder is unescaped twice: the decoder has
  unescaped the payload, and the request decoder unescapes its data again. Whenever the data has a byte
  \<^verbatim>\<open>0x7d\<close>, the decoded data is shorter than the data that was sent.\<close>

theorem gdb_binary_write_unescaped_twice:
  assumes "text_of (client_request_encode Pk_write_memory_binary v) = Some x" and "length (rq_data v) \<le> scratch_available s"
  shows "(\<exists>s'. client_request_decode (gdb_unescape False x) s
            = (Pk_write_memory_binary,
               (request_fields Pk_write_memory_binary v)\<lparr>rq_data := unescape_loop False (map byte_char (rq_data v))\<rparr>, s'))
         \<and> (0x7d \<in> set (rq_data v) \<longrightarrow> length (unescape_loop False (map byte_char (rq_data v))) < length (rq_data v))"
proof
  let ?t = Pk_write_memory_binary and ?d = "map byte_char (rq_data v)"
  let ?a = "hex_text (unat (rq_addr v)) @ CHR '','' # hex_text (unat (rq_length v)) @ '':''"
  obtain p where p: "(?t, p) \<in> set packet_list" "p \<noteq> []" "md_prefix (get_packet_metadata ?t) = p" "\<And>rest. recognize (p @ rest) = ?t"
    using data_packet_entry [of ?t] by (auto simp: data_packets_def)
  have pX: "p = ''X''" using p(1) by (simp add: packet_list_def)
  have "x = (p @ ?a) @ concat (emit_escaped_binary (rq_data v))"
    using assms(1) p(2,3) by (simp add: client_request_encode_def encode_request_args_def text_of_seq fmt_texts)
  moreover have "CHR ''}'' \<notin> set (p @ ?a)" by (simp add: pX)
  ultimately have x: "gdb_unescape False x = p @ ?a @ ?d"
    using gdb_unescape_plain [of "p @ ?a"] unescape_emit(2) by simp
  have len: "length ?d \<le> scratch_available s" using assms(2) by simp
  have "fst (decode_memory_write ?t (?a @ ?d) s client_request_view_init)
      = client_request_view_init\<lparr>rq_addr := rq_addr v, rq_length := rq_length v, rq_data := unescape_loop False ?d\<rparr>"
    using memory_write_args [of ?t "?a @ ?d" "rq_addr v" "rq_length v" ?d s client_request_view_init] decode_escaped_text [OF len]
    by simp
  then have "fst (decode_request_args ?t (?a @ ?d) s) = (request_fields ?t v)\<lparr>rq_data := unescape_loop False ?d\<rparr>"
    by (simp add: decode_request_args_def request_fields_def Let_def)
  moreover have "client_request_decode (p @ ?a @ ?d) s = (?t, decode_request_args ?t (?a @ ?d) s)"
    using p(3,4) by (simp add: client_request_decode_def)
  ultimately show "\<exists>s'. client_request_decode (gdb_unescape False x) s
      = (?t, (request_fields ?t v)\<lparr>rq_data := unescape_loop False ?d\<rparr>, s')"
    unfolding x by (metis prod.collapse)
  have "CHR ''}'' \<in> set ?d" if "0x7d \<in> set (rq_data v)"
  proof -
    have "byte_char 0x7d = CHR ''}''" by code_simp
    then show ?thesis using that by force
  qed
  then show "0x7d \<in> set (rq_data v) \<longrightarrow> length (unescape_loop False ?d) < length (rq_data v)"
    using unescape_loop_marker [of ?d] by simp
qed

theorem gdb_binary_write_unescaped_twice_witness:
  "\<exists>x s'. text_of (client_request_encode Pk_write_memory_binary
              (client_request_view_init\<lparr>rq_addr := 0x2000, rq_length := 2, rq_data := [0x7d, 0x41]\<rparr>)) = Some x
     \<and> client_request_decode (gdb_unescape False x) (scratch_init 4096 16)
         = (Pk_write_memory_binary, client_request_view_init\<lparr>rq_addr := 0x2000, rq_length := 2, rq_data := [0x61]\<rparr>, s')"
proof -
  let ?v = "client_request_view_init\<lparr>rq_addr := 0x2000, rq_length := 2, rq_data := [0x7d, 0x41]\<rparr>"
  have t: "Pk_write_memory_binary \<in> set data_packets" by (simp add: data_packets_def)
  obtain args where "text_of (encode_request_args Pk_write_memory_binary ?v) = Some args"
    using request_args_roundtrip [OF t, of ?v "scratch_init 4096 16"]
    by (auto simp: scratch_available_def scratch_init_def client_request_view_init_def)
  from data_packet_roundtrip [OF t this] obtain x where x: "text_of (client_request_encode Pk_write_memory_binary ?v) = Some x"
    by blast
  have "unescape_loop False (map byte_char [0x7d, 0x41]) = [0x61]" by code_simp
  with gdb_binary_write_unescaped_twice [OF x, of "scratch_init 4096 16"] x show ?thesis
    by (simp add: scratch_available_def scratch_init_def request_fields_def client_request_view_init_def del: unescape_loop.simps)
qed

end
