(* ===== verification/String_Pool.thy ===== *)
theory String_Pool
  imports Microfmt_Prelude
begin

text \<open>
  \<^verbatim>\<open>parsing/string_pool.hpp\<close>: the interner. Distinct strings live in one arena, an entry per string holds its
  place, its FNV-1a hash and the index of the next entry of its bucket, and a bucket holds the index of its
  newest entry. The indices and offsets have 32 bits in the code; they are numbers here, and every
  truncation is written out. The vectors are of another library; whether one of them can grow is a
  parameter of each call (\<open>pool_memory\<close>), so a call may fail at any growth. The walk of a chain is a loop
  that need not end on an arbitrary pool: \<^const>\<open>None\<close> is the outcome when it does not end or leaves the table.
\<close>

section \<open>Data\<close>

definition kNone :: nat where
  "kNone = 0xFFFFFFFF"

definition kDefaultMax :: nat where
  "kDefaultMax = 0xFFFFFFFE"

definition kInitialBuckets :: nat where
  "kInitialBuckets = 16"

record pool_entry =
  en_offset :: nat
  en_length :: nat
  en_hash :: u32
  en_next :: nat

record string_pool =
  sp_arena :: string
  sp_entries :: "pool_entry list"
  sp_buckets :: "nat list"
  sp_max_bytes :: nat
  sp_max_strings :: nat
  sp_building :: bool

text \<open>The answers of \<^verbatim>\<open>try_append\<close>, \<^verbatim>\<open>try_push_back\<close> and \<^verbatim>\<open>try_resize\<close> to a new size.\<close>

record pool_memory =
  can_arena :: "nat \<Rightarrow> bool"
  can_entries :: "nat \<Rightarrow> bool"
  can_buckets :: "nat \<Rightarrow> bool"

datatype pool_error = Pool_full | Pool_busy

record string_pool_mark =
  mk_strings :: nat
  mk_bytes :: nat

definition string_pool_init :: "nat \<Rightarrow> nat \<Rightarrow> string_pool" where
  "string_pool_init max_bytes max_strings =
     \<lparr>sp_arena = [], sp_entries = [], sp_buckets = [],
      sp_max_bytes = (if max_bytes < kDefaultMax then max_bytes else kDefaultMax),
      sp_max_strings = (if max_strings < kDefaultMax then max_strings else kDefaultMax), sp_building = False\<rparr>"

section \<open>Lookup\<close>

fun hash_loop :: "u32 \<Rightarrow> string \<Rightarrow> u32" where
  "hash_loop h [] = h"
| "hash_loop h (c # cs) = hash_loop (xor h (of_nat (code c)) * 16777619) cs"

definition hash_of :: "string \<Rightarrow> u32" where
  "hash_of s = hash_loop 2166136261 s"

definition text_from :: "string_pool \<Rightarrow> nat \<Rightarrow> string" where
  "text_from p offset = (if sp_arena p = [] then [] else drop offset (sp_arena p))"

definition entry_text :: "string_pool \<Rightarrow> pool_entry \<Rightarrow> string" where
  "entry_text p e = take (en_length e) (text_from p (en_offset e))"

definition bucket_of :: "nat list \<Rightarrow> u32 \<Rightarrow> nat" where
  "bucket_of buckets h = and (unat h) (length buckets - 1)"

partial_function (option) find_loop :: "string_pool \<Rightarrow> string \<Rightarrow> u32 \<Rightarrow> nat \<Rightarrow> nat option" where
  "find_loop p s h i =
     (if i = kNone then Some kNone
      else if length (sp_entries p) \<le> i then None
      else let e = sp_entries p ! i
           in if en_hash e = h \<and> en_length e = length s \<and> entry_text p e = s then Some i
              else find_loop p s h (en_next e))"

definition find_index :: "string_pool \<Rightarrow> string \<Rightarrow> u32 \<Rightarrow> nat option" where
  "find_index p s h =
     (if sp_buckets p = [] then Some kNone else find_loop p s h (sp_buckets p ! bucket_of (sp_buckets p) h))"

definition pool_find :: "string_pool \<Rightarrow> string \<Rightarrow> nat option" where
  "pool_find p s = find_index p s (hash_of s)"

definition pool_view :: "string_pool \<Rightarrow> nat \<Rightarrow> string" where
  "pool_view p i = (if i = kNone \<or> length (sp_entries p) \<le> i then [] else entry_text p (sp_entries p ! i))"

section \<open>Insertion\<close>

definition ensure_buckets :: "pool_memory \<Rightarrow> string_pool \<Rightarrow> bool \<times> string_pool" where
  "ensure_buckets mem p =
     (if sp_buckets p \<noteq> [] then (True, p)
      else if \<not> can_buckets mem kInitialBuckets then (False, p)
      else (True, p\<lparr>sp_buckets := replicate kInitialBuckets kNone\<rparr>))"

definition pool_link :: "nat \<Rightarrow> string_pool \<Rightarrow> string_pool" where
  "pool_link index p =
     (let e = sp_entries p ! index; b = bucket_of (sp_buckets p) (en_hash e)
      in p\<lparr>sp_entries := (sp_entries p)[index := e\<lparr>en_next := sp_buckets p ! b\<rparr>],
           sp_buckets := (sp_buckets p)[b := index]\<rparr>)"

definition maybe_grow :: "pool_memory \<Rightarrow> string_pool \<Rightarrow> string_pool" where
  "maybe_grow mem p =
     (if length (sp_entries p) \<le> length (sp_buckets p) \<or> \<not> can_buckets mem (length (sp_buckets p) * 2) then p
      else fold pool_link [0..<length (sp_entries p)] (p\<lparr>sp_buckets := replicate (length (sp_buckets p) * 2) kNone\<rparr>))"

definition pool_truncate :: "nat \<Rightarrow> string_pool \<Rightarrow> string_pool" where
  "pool_truncate n p = p\<lparr>sp_arena := take n (sp_arena p)\<rparr>"

definition pool_commit :: "pool_memory \<Rightarrow> string_pool \<Rightarrow> nat \<Rightarrow> nat \<Rightarrow> u32 \<Rightarrow> bool \<times> string_pool" where
  "pool_commit mem p offset len h =
     (if offset \<ge> kNone \<or> len \<ge> kNone then (False, pool_truncate offset p)
      else if length (sp_entries p) \<ge> sp_max_strings p then (False, pool_truncate offset p)
      else let (ok, p1) = ensure_buckets mem p
           in if \<not> ok then (False, pool_truncate offset p1)
              else if \<not> can_entries mem (length (sp_entries p1) + 1) then (False, pool_truncate offset p1)
              else let added = \<lparr>en_offset = offset mod 2 ^ 32, en_length = len mod 2 ^ 32, en_hash = h, en_next = kNone\<rparr>;
                       p2 = p1\<lparr>sp_entries := sp_entries p1 @ [added]\<rparr>
                   in (True, maybe_grow mem (pool_link ((length (sp_entries p2) - 1) mod 2 ^ 32) p2)))"

definition pool_append :: "pool_memory \<Rightarrow> string_pool \<Rightarrow> string \<Rightarrow> bool \<times> string_pool" where
  "pool_append mem p s =
     (if can_arena mem (length (sp_arena p) + length s) then (True, p\<lparr>sp_arena := sp_arena p @ s\<rparr>) else (False, p))"

definition pool_intern :: "pool_memory \<Rightarrow> string_pool \<Rightarrow> string \<Rightarrow> ((pool_error + nat) \<times> string_pool) option" where
  "pool_intern mem p s =
     (if sp_building p then Some (Inl Pool_busy, p)
      else case find_index p s (hash_of s) of
             None \<Rightarrow> None
           | Some existing \<Rightarrow>
               if existing \<noteq> kNone then Some (Inr existing, p)
               else if length (sp_entries p) \<ge> sp_max_strings p \<or> length s > sp_max_bytes p - length (sp_arena p)
               then Some (Inl Pool_full, p)
               else let (ok, p1) = ensure_buckets mem p
                    in if \<not> ok then Some (Inl Pool_full, p1)
                       else let start = length (sp_arena p1); (ok2, p2) = pool_append mem p1 s
                            in if \<not> ok2 then Some (Inl Pool_full, p2)
                               else let (ok3, p3) = pool_commit mem p2 start (length s) (hash_of s)
                                    in if \<not> ok3 then Some (Inl Pool_full, p3)
                                       else Some (Inr ((length (sp_entries p3) - 1) mod 2 ^ 32), p3))"

text \<open>\<^verbatim>\<open>intern_all\<close> stops at the first error.\<close>

fun pool_intern_all :: "pool_memory \<Rightarrow> string_pool \<Rightarrow> string list \<Rightarrow> ((pool_error + unit) \<times> string_pool) option" where
  "pool_intern_all mem p [] = Some (Inr (), p)"
| "pool_intern_all mem p (s # ss) =
     (case pool_intern mem p s of
        None \<Rightarrow> None
      | Some (Inl e, p') \<Rightarrow> Some (Inl e, p')
      | Some (Inr i, p') \<Rightarrow> pool_intern_all mem p' ss)"

section \<open>Marks\<close>

definition pool_mark :: "string_pool \<Rightarrow> string_pool_mark" where
  "pool_mark p = \<lparr>mk_strings = length (sp_entries p), mk_bytes = length (sp_arena p)\<rparr>"

definition pool_unlink_last :: "string_pool \<Rightarrow> string_pool" where
  "pool_unlink_last p =
     (let e = last (sp_entries p)
      in p\<lparr>sp_buckets := (sp_buckets p)[bucket_of (sp_buckets p) (en_hash e) := en_next e],
           sp_entries := butlast (sp_entries p)\<rparr>)"

definition pool_rollback :: "string_pool \<Rightarrow> string_pool_mark \<Rightarrow> string_pool" where
  "pool_rollback p m =
     (if sp_building p then p
      else let p1 = (pool_unlink_last ^^ (length (sp_entries p) - mk_strings m)) p
           in if mk_bytes m < length (sp_arena p1) then pool_truncate (mk_bytes m) p1 else p1)"

definition pool_clear :: "string_pool \<Rightarrow> string_pool" where
  "pool_clear p =
     (if sp_building p then p
      else p\<lparr>sp_entries := [], sp_arena := [], sp_buckets := replicate (length (sp_buckets p)) kNone\<rparr>)"

section \<open>Builder\<close>

record pool_builder =
  pb_start :: nat
  pb_active :: bool
  pb_failed :: bool
  pb_message :: pool_error

definition pool_begin :: "string_pool \<Rightarrow> pool_builder \<times> string_pool" where
  "pool_begin p =
     (if \<not> sp_building p
      then (\<lparr>pb_start = length (sp_arena p), pb_active = True, pb_failed = False, pb_message = Pool_full\<rparr>, p\<lparr>sp_building := True\<rparr>)
      else (\<lparr>pb_start = length (sp_arena p), pb_active = False, pb_failed = True, pb_message = Pool_busy\<rparr>, p))"

definition builder_append :: "pool_memory \<Rightarrow> pool_builder \<times> string_pool \<Rightarrow> string \<Rightarrow> pool_builder \<times> string_pool" where
  "builder_append mem = (\<lambda>(b, p) piece.
     if \<not> pb_active b \<or> pb_failed b then (b, p)
     else if length piece > sp_max_bytes p - length (sp_arena p) then (b\<lparr>pb_failed := True\<rparr>, p)
     else let (ok, p') = pool_append mem p piece in (if ok then b else b\<lparr>pb_failed := True\<rparr>, p'))"

definition builder_abandon :: "pool_builder \<times> string_pool \<Rightarrow> pool_builder \<times> string_pool" where
  "builder_abandon = (\<lambda>(b, p).
     if \<not> pb_active b then (b, p)
     else (b\<lparr>pb_active := False\<rparr>, (pool_truncate (pb_start b) p)\<lparr>sp_building := False\<rparr>))"

definition builder_view :: "pool_builder \<times> string_pool \<Rightarrow> string" where
  "builder_view = (\<lambda>(b, p). if \<not> pb_active b then [] else text_from p (pb_start b))"

definition builder_finish ::
    "pool_memory \<Rightarrow> pool_builder \<times> string_pool \<Rightarrow> ((pool_error + nat) \<times> pool_builder \<times> string_pool) option" where
  "builder_finish mem = (\<lambda>(b, p).
     if \<not> pb_active b then Some (Inl (pb_message b), b, p)
     else if pb_failed b then Some (Inl Pool_full, builder_abandon (b, p))
     else let len = length (sp_arena p) - pb_start b; s = text_from p (pb_start b); h = hash_of s
          in case find_index p s h of
               None \<Rightarrow> None
             | Some existing \<Rightarrow>
                 if existing \<noteq> kNone then Some (Inr existing, builder_abandon (b, p))
                 else let (added, p1) = pool_commit mem p (pb_start b) len h;
                          b' = b\<lparr>pb_active := False\<rparr>; p2 = p1\<lparr>sp_building := False\<rparr>
                      in if \<not> added then Some (Inl Pool_full, b', p2)
                         else Some (Inr ((length (sp_entries p2) - 1) mod 2 ^ 32), b', p2))"

section \<open>Invariant\<close>

text \<open>\<open>last_in f b k\<close> is the greatest index below \<open>k\<close> that \<open>f\<close> sends to \<open>b\<close>: the head of a bucket, and the next
  entry of a chain, are such indices. A chain therefore descends.\<close>

fun last_in :: "(nat \<Rightarrow> nat) \<Rightarrow> nat \<Rightarrow> nat \<Rightarrow> nat" where
  "last_in f b 0 = kNone"
| "last_in f b (Suc k) = (if f k = b then k else last_in f b k)"

lemma last_in_cong: "(\<And>i. i < k \<Longrightarrow> f i = g i) \<Longrightarrow> last_in f b k = last_in g b k"
  by (induction k) auto

definition slot :: "string_pool \<Rightarrow> nat \<Rightarrow> nat" where
  "slot p i = bucket_of (sp_buckets p) (en_hash (sp_entries p ! i))"

definition linked_upto :: "nat \<Rightarrow> string_pool \<Rightarrow> bool" where
  "linked_upto k p \<longleftrightarrow>
     (\<forall>b < length (sp_buckets p). sp_buckets p ! b = last_in (slot p) b k)
     \<and> (\<forall>i < k. en_next (sp_entries p ! i) = last_in (slot p) (slot p i) i)"

definition pool_strings :: "string_pool \<Rightarrow> string list" where
  "pool_strings p = map (entry_text p) (sp_entries p)"

text \<open>The entries end at or before an offset of the arena.\<close>

definition entries_below :: "string_pool \<Rightarrow> nat \<Rightarrow> bool" where
  "entries_below p n \<longleftrightarrow> (\<forall>e \<in> set (sp_entries p). en_offset e + en_length e \<le> n)"

definition content_ok :: "string_pool \<Rightarrow> bool" where
  "content_ok p \<longleftrightarrow>
     sp_max_bytes p \<le> kDefaultMax \<and> sp_max_strings p \<le> kDefaultMax \<and> length (sp_arena p) \<le> sp_max_bytes p
     \<and> length (sp_entries p) \<le> sp_max_strings p \<and> (sp_buckets p = [] \<longrightarrow> sp_entries p = [])
     \<and> entries_below p (length (sp_arena p))
     \<and> (\<forall>e \<in> set (sp_entries p). en_hash e = hash_of (entry_text p e))
     \<and> distinct (pool_strings p)"

definition pool_ok :: "string_pool \<Rightarrow> bool" where
  "pool_ok p \<longleftrightarrow> content_ok p \<and> linked_upto (length (sp_entries p)) p"

lemma string_pool_init_ok: "pool_ok (string_pool_init a b)" "pool_strings (string_pool_init a b) = []"
  "\<not> sp_building (string_pool_init a b)"
  by (auto simp: pool_ok_def content_ok_def string_pool_init_def kDefaultMax_def entries_below_def pool_strings_def linked_upto_def)

lemma entry_text_drop: "entry_text p e = take (en_length e) (drop (en_offset e) (sp_arena p))"
  by (simp add: entry_text_def text_from_def)

lemma bucket_of_less: "buckets \<noteq> [] \<Longrightarrow> bucket_of buckets h < length buckets"
proof -
  have "int (and (unat h) (length buckets - 1)) \<le> int (length buckets - 1)"
    unfolding of_nat_and_eq by (rule AND_upper2) simp
  then have "and (unat h) (length buckets - 1) \<le> length buckets - 1" by linarith
  then show "buckets \<noteq> [] \<Longrightarrow> bucket_of buckets h < length buckets"
    by (cases buckets) (auto simp: bucket_of_def)
qed

lemma kNone_index: "n \<le> kDefaultMax \<Longrightarrow> i < n \<Longrightarrow> i \<noteq> kNone"
  by (simp add: kDefaultMax_def kNone_def)

section \<open>Lookup finds exactly the stored strings\<close>

lemma entry_matches:
  assumes "pool_ok p" and "i < length (sp_entries p)"
  shows "(en_hash (sp_entries p ! i) = hash_of s \<and> en_length (sp_entries p ! i) = length s
          \<and> entry_text p (sp_entries p ! i) = s) \<longleftrightarrow> pool_strings p ! i = s"
proof -
  have e: "sp_entries p ! i \<in> set (sp_entries p)" using assms(2) by simp
  then have "en_offset (sp_entries p ! i) + en_length (sp_entries p ! i) \<le> length (sp_arena p)"
    and "en_hash (sp_entries p ! i) = hash_of (entry_text p (sp_entries p ! i))"
    using assms(1) by (simp_all add: pool_ok_def content_ok_def entries_below_def)
  then show ?thesis using assms(2) by (auto simp: pool_strings_def entry_text_drop)
qed

definition found_at :: "string_pool \<Rightarrow> string \<Rightarrow> nat \<Rightarrow> nat \<Rightarrow> bool" where
  "found_at p s k i \<longleftrightarrow> i < k \<and> pool_strings p ! i = s \<or> s \<notin> set (take k (pool_strings p)) \<and> i = kNone"

lemma find_loop_chain:
  assumes "pool_ok p" and "k \<le> length (sp_entries p)"
  shows "\<exists>i. find_loop p s (hash_of s) (last_in (slot p) (bucket_of (sp_buckets p) (hash_of s)) k) = Some i \<and> found_at p s k i"
  using assms(2)
proof (induction k)
  case 0
  show ?case by (subst find_loop.simps) (simp add: found_at_def)
next
  case (Suc k)
  let ?b = "bucket_of (sp_buckets p) (hash_of s)" and ?e = "sp_entries p ! k"
  have k: "k < length (sp_entries p)" "k < length (pool_strings p)" using Suc.prems by (simp_all add: pool_strings_def)
  have nk: "k \<noteq> kNone" using kNone_index [of "length (sp_entries p)" k] assms(1) k(1) by (simp add: pool_ok_def content_ok_def)
  have tk: "set (take (Suc k) (pool_strings p)) = insert (pool_strings p ! k) (set (take k (pool_strings p)))"
    using k(2) by (simp add: take_Suc_conv_app_nth)
  obtain i where i: "find_loop p s (hash_of s) (last_in (slot p) ?b k) = Some i" "found_at p s k i" using Suc by auto
  have later: "found_at p s (Suc k) i" if "pool_strings p ! k \<noteq> s" using i(2) that tk by (auto simp: found_at_def)
  note match = entry_matches [OF assms(1) k(1), of s]
  show ?case
  proof (cases "slot p k = ?b")
    case True
    have step: "find_loop p s (hash_of s) k = (if pool_strings p ! k = s then Some k else find_loop p s (hash_of s) (en_next ?e))"
      using nk k(1) match by (subst find_loop.simps) (auto simp: Let_def)
    have "en_next ?e = last_in (slot p) ?b k" using assms(1) k(1) True by (simp add: pool_ok_def content_ok_def linked_upto_def)
    then show ?thesis using True i(1) later step by (auto simp: found_at_def)
  next
    case False
    have "pool_strings p ! k \<noteq> s" using match False by (auto simp: slot_def)
    then show ?thesis using False i(1) later by auto
  qed
qed

lemma find_index_found:
  assumes "pool_ok p"
  obtains i where "find_index p s (hash_of s) = Some i"
    "i \<noteq> kNone \<Longrightarrow> i < length (sp_entries p) \<and> pool_strings p ! i = s" "i = kNone \<Longrightarrow> s \<notin> set (pool_strings p)"
proof (cases "sp_buckets p = []")
  case True
  then show thesis using that [of kNone] assms by (simp add: find_index_def pool_ok_def content_ok_def pool_strings_def)
next
  case False
  let ?n = "length (sp_entries p)" and ?b = "bucket_of (sp_buckets p) (hash_of s)"
  have "sp_buckets p ! ?b = last_in (slot p) ?b ?n"
    using assms bucket_of_less [OF False] by (simp add: pool_ok_def content_ok_def linked_upto_def)
  then obtain i where i: "find_index p s (hash_of s) = Some i" "found_at p s ?n i"
    using find_loop_chain [OF assms order_refl, of s] False by (auto simp: find_index_def)
  moreover have "j \<noteq> kNone" if "j < ?n" for j using kNone_index [of ?n j] that assms by (simp add: pool_ok_def content_ok_def)
  moreover have "length (pool_strings p) = ?n" by (simp add: pool_strings_def)
  ultimately show thesis using that [of i] by (auto simp: found_at_def)
qed

section \<open>Linking\<close>

text \<open>What linking leaves alone: everything but the chains.\<close>

definition entry_core :: "pool_entry \<Rightarrow> nat \<times> nat \<times> u32" where
  "entry_core e = (en_offset e, en_length e, en_hash e)"

definition same_content :: "string_pool \<Rightarrow> string_pool \<Rightarrow> bool" where
  "same_content p q \<longleftrightarrow> sp_arena q = sp_arena p \<and> map entry_core (sp_entries q) = map entry_core (sp_entries p)
     \<and> sp_max_bytes q = sp_max_bytes p \<and> sp_max_strings q = sp_max_strings p \<and> sp_building q = sp_building p"

lemma same_content_trans: "same_content p q \<Longrightarrow> same_content q r \<Longrightarrow> same_content p r"
  by (simp add: same_content_def)

lemma same_content_length: "same_content p q \<Longrightarrow> length (sp_entries q) = length (sp_entries p)"
  by (metis length_map same_content_def)

lemma same_content_nth:
  assumes "same_content p q" and "i < length (sp_entries p)"
  shows "entry_core (sp_entries q ! i) = entry_core (sp_entries p ! i)"
  using assms same_content_length [OF assms(1)] unfolding same_content_def by (metis nth_map)

lemma same_content_strings:
  assumes "same_content p q"
  shows "pool_strings q = pool_strings p"
proof -
  have "pool_strings r = map (\<lambda>(off, len, h). take len (drop off (sp_arena r))) (map entry_core (sp_entries r))" for r
    by (simp add: pool_strings_def entry_text_drop entry_core_def comp_def)
  then show ?thesis using assms unfolding same_content_def by metis
qed

lemma same_content_entry:
  assumes "same_content p q" and "e \<in> set (sp_entries q)"
  shows "\<exists>d \<in> set (sp_entries p). entry_core d = entry_core e"
  using assms unfolding same_content_def by (metis (no_types, lifting) image_iff list.set_map)

text \<open>The part of the invariant that does not concern the chains, in terms of the contents.\<close>

lemma same_content_ok:
  assumes "content_ok p" and "same_content p q" and "sp_buckets q \<noteq> []" and "linked_upto (length (sp_entries q)) q"
  shows "pool_ok q"
proof -
  have "en_offset e + en_length e \<le> length (sp_arena q) \<and> en_hash e = hash_of (entry_text q e)" if e: "e \<in> set (sp_entries q)" for e
  proof -
    obtain d where "d \<in> set (sp_entries p)" "entry_core d = entry_core e" using same_content_entry [OF assms(2) e] by blast
    then show ?thesis using assms(1,2)
      by (auto simp: pool_ok_def content_ok_def entries_below_def entry_core_def entry_text_drop same_content_def)
  qed
  then show ?thesis
    using assms same_content_strings [OF assms(2)] same_content_length [OF assms(2)]
    by (simp add: pool_ok_def content_ok_def same_content_def entries_below_def)
qed

lemma pool_link_content:
  assumes "k < length (sp_entries p)"
  shows "same_content p (pool_link k p)"
  using assms by (simp add: same_content_def pool_link_def Let_def map_update entry_core_def list_update_id)
    (metis (no_types, lifting) entry_core_def list_update_id map_update)

lemma pool_link_step:
  assumes "linked_upto k p" and "k < length (sp_entries p)" and "sp_buckets p \<noteq> []"
  shows "linked_upto (Suc k) (pool_link k p)" and "same_content p (pool_link k p)"
    and "length (sp_buckets (pool_link k p)) = length (sp_buckets p)"
proof -
  let ?q = "pool_link k p" and ?b = "slot p k"
  have b: "?b < length (sp_buckets p)" using bucket_of_less [OF assms(3)] by (simp add: slot_def)
  show len: "length (sp_buckets ?q) = length (sp_buckets p)" by (simp add: pool_link_def Let_def)
  show "same_content p ?q" by (rule pool_link_content [OF assms(2)])
  have sl: "slot ?q i = slot p i" for i
    using assms(2) by (cases "i = k") (simp_all add: slot_def bucket_of_def pool_link_def Let_def)
  then have slf: "slot ?q = slot p" by (rule ext)
  have bk: "sp_buckets ?q = (sp_buckets p)[?b := k]" by (simp add: pool_link_def slot_def Let_def)
  have "sp_buckets ?q ! c = last_in (slot p) c (Suc k)" if "c < length (sp_buckets p)" for c
    using assms(1) that b by (auto simp: bk linked_upto_def nth_list_update)
  moreover have "en_next (sp_entries ?q ! i) = last_in (slot p) (slot p i) i" if "i < Suc k" for i
    using assms(1,2) that b by (auto simp: pool_link_def Let_def linked_upto_def nth_list_update slot_def less_Suc_eq)
  ultimately show "linked_upto (Suc k) ?q" by (simp add: linked_upto_def slf len)
qed

lemma fold_pool_link:
  assumes "linked_upto 0 p" and "k \<le> length (sp_entries p)" and "sp_buckets p \<noteq> []"
  shows "linked_upto k (fold pool_link [0..<k] p) \<and> same_content p (fold pool_link [0..<k] p)
         \<and> length (sp_buckets (fold pool_link [0..<k] p)) = length (sp_buckets p)"
  using assms(2)
proof (induction k)
  case 0
  then show ?case using assms(1) by (simp add: same_content_def)
next
  case (Suc k)
  let ?q = "fold pool_link [0..<k] p"
  have q: "linked_upto k ?q" "same_content p ?q" "length (sp_buckets ?q) = length (sp_buckets p)" using Suc by auto
  then have "k < length (sp_entries ?q)" "sp_buckets ?q \<noteq> []"
    using Suc.prems same_content_length [OF q(2)] assms(3) by auto
  from pool_link_step [OF q(1) this] q show ?case by (auto intro: same_content_trans)
qed

lemma maybe_grow_ok:
  assumes "pool_ok p" and "sp_buckets p \<noteq> []"
  shows "pool_ok (maybe_grow mem p) \<and> same_content p (maybe_grow mem p) \<and> sp_buckets (maybe_grow mem p) \<noteq> []"
proof (cases "length (sp_entries p) \<le> length (sp_buckets p) \<or> \<not> can_buckets mem (length (sp_buckets p) * 2)")
  case True
  then show ?thesis using assms by (simp add: maybe_grow_def same_content_def)
next
  case False
  let ?p = "p\<lparr>sp_buckets := replicate (length (sp_buckets p) * 2) kNone\<rparr>" and ?n = "length (sp_entries p)"
  let ?q = "fold pool_link [0..<?n] ?p"
  have "linked_upto 0 ?p" "sp_buckets ?p \<noteq> []" using assms(2) by (simp_all add: linked_upto_def)
  from fold_pool_link [OF this(1) _ this(2), of ?n]
  have q: "linked_upto ?n ?q" "same_content ?p ?q" "length (sp_buckets ?q) = length (sp_buckets ?p)" by simp_all
  have "same_content p ?q" using q(2) by (simp add: same_content_def)
  moreover have "sp_buckets ?q \<noteq> []" using q(3) assms(2) by auto
  moreover have "length (sp_entries ?q) = ?n" using same_content_length [OF q(2)] by simp
  ultimately show ?thesis using False q(1) same_content_ok [of p ?q] assms(1) by (simp add: maybe_grow_def pool_ok_def)
qed


section \<open>Storing a string\<close>

lemma ensure_buckets_ok:
  assumes "pool_ok p" and "ensure_buckets mem p = (ok, q)"
  shows "pool_ok q \<and> same_content p q \<and> (ok \<longrightarrow> sp_buckets q \<noteq> []) \<and> (\<not> ok \<longrightarrow> q = p)"
  using assms by (auto simp: ensure_buckets_def same_content_def kInitialBuckets_def pool_ok_def content_ok_def
      linked_upto_def entries_below_def pool_strings_def entry_text_drop split: if_splits)

lemma entries_below_same: "same_content p q \<Longrightarrow> entries_below p n \<Longrightarrow> entries_below q n"
  by (auto simp: entries_below_def entry_core_def dest!: same_content_entry)

lemma truncate_text:
  assumes "entries_below p n" and "e \<in> set (sp_entries p)"
  shows "entry_text (pool_truncate n p) e = entry_text p e"
proof -
  have "en_offset e + en_length e \<le> n" using assms by (simp add: entries_below_def)
  then show ?thesis by (simp add: entry_text_drop pool_truncate_def drop_take min_absorb1)
qed

lemma pool_truncate_strings: "entries_below p n \<Longrightarrow> pool_strings (pool_truncate n p) = pool_strings p"
  unfolding pool_strings_def using truncate_text by (simp add: pool_truncate_def)

lemma pool_truncate_ok:
  assumes "pool_ok p" and "entries_below p n"
  shows "pool_ok (pool_truncate n p)"
proof -
  have s: "slot (pool_truncate n p) = slot p" by (rule ext) (simp add: slot_def pool_truncate_def)
  have "entries_below (pool_truncate n p) (length (sp_arena (pool_truncate n p)))"
    using assms by (auto simp: entries_below_def pool_truncate_def pool_ok_def content_ok_def)
  then show ?thesis
    using assms s pool_truncate_strings [OF assms(2)] truncate_text [OF assms(2)]
    by (simp add: pool_ok_def content_ok_def linked_upto_def) (auto simp: pool_truncate_def)
qed

lemma append_entry_ok:
  assumes "pool_ok p" and "sp_buckets p \<noteq> []" and "length (sp_entries p) < sp_max_strings p"
    and "en_offset e + en_length e \<le> length (sp_arena p)" and "en_hash e = hash_of (entry_text p e)"
    and "entry_text p e \<notin> set (pool_strings p)"
  defines "q \<equiv> p\<lparr>sp_entries := sp_entries p @ [e]\<rparr>"
  shows "content_ok q" and "linked_upto (length (sp_entries p)) q" and "pool_strings q = pool_strings p @ [entry_text p e]"
proof -
  have t: "entry_text q d = entry_text p d" for d by (simp add: q_def entry_text_drop)
  show str: "pool_strings q = pool_strings p @ [entry_text p e]" by (simp add: pool_strings_def q_def entry_text_drop)
  show "content_ok q"
    using assms(1-6) by (simp add: pool_ok_def content_ok_def str t) (simp add: q_def entries_below_def)
  have sl: "slot q i = slot p i" if "i < length (sp_entries p)" for i using that by (simp add: slot_def q_def nth_append)
  then have "last_in (slot q) b k = last_in (slot p) b k" if "k \<le> length (sp_entries p)" for b k
    using that by (intro last_in_cong) simp
  then show "linked_upto (length (sp_entries p)) q"
    using assms(1) sl by (simp add: linked_upto_def pool_ok_def) (simp add: q_def nth_append)
qed

lemma pool_commit_ok:
  assumes "pool_ok p" and "entries_below p offset" and "offset \<le> length (sp_arena p)"
    and "drop offset (sp_arena p) \<notin> set (pool_strings p)"
    and "pool_commit mem p offset (length (drop offset (sp_arena p))) (hash_of (drop offset (sp_arena p))) = (ok, q)"
  shows "pool_ok q \<and> sp_max_bytes q = sp_max_bytes p \<and> sp_building q = sp_building p
     \<and> (if ok then sp_arena q = sp_arena p \<and> pool_strings q = pool_strings p @ [drop offset (sp_arena p)]
        else sp_arena q = take offset (sp_arena p) \<and> pool_strings q = pool_strings p)"
proof -
  let ?s = "drop offset (sp_arena p)"
  obtain eb p1 where e: "ensure_buckets mem p = (eb, p1)" by fastforce
  have p1: "pool_ok p1" "same_content p p1" "eb \<Longrightarrow> sp_buckets p1 \<noteq> []" using ensure_buckets_ok [OF assms(1) e] by auto
  have small: "length (sp_arena p) < kNone" using assms(1) by (simp add: pool_ok_def content_ok_def kDefaultMax_def kNone_def)
  show ?thesis
  proof (cases "length (sp_entries p) < sp_max_strings p \<and> eb \<and> can_entries mem (length (sp_entries p1) + 1)")
    case False
    then have "\<not> ok \<and> (q = pool_truncate offset p \<or> q = pool_truncate offset p1)"
      using assms(5) e by (auto simp: pool_commit_def split: if_splits)
    then show ?thesis
      using pool_truncate_ok [OF assms(1,2)] pool_truncate_ok [OF p1(1) entries_below_same [OF p1(2) assms(2)]]
        pool_truncate_strings [OF assms(2)] pool_truncate_strings [OF entries_below_same [OF p1(2) assms(2)]]
        same_content_strings [OF p1(2)] p1(2)
      by (auto simp: same_content_def pool_truncate_def)
  next
    case True
    let ?e = "\<lparr>en_offset = offset, en_length = length ?s, en_hash = hash_of ?s, en_next = kNone\<rparr>"
    let ?p2 = "p1\<lparr>sp_entries := sp_entries p1 @ [?e]\<rparr>" and ?n = "length (sp_entries p1)"
    have len: "?n = length (sp_entries p)" by (rule same_content_length [OF p1(2)])
    have "length (sp_entries p) < kNone"
      using True assms(1) by (simp add: pool_ok_def content_ok_def kDefaultMax_def kNone_def)
    then have "\<not> kNone \<le> offset" "\<not> kNone \<le> length ?s" "offset mod 2 ^ 32 = offset" "length ?s mod 2 ^ 32 = length ?s"
      "?n mod 2 ^ 32 = ?n" using assms(3) small len by (simp_all add: kNone_def)
    then have q: "ok" "q = maybe_grow mem (pool_link ?n ?p2)"
      using assms(5) e True len unfolding pool_commit_def Let_def by (simp_all del: length_drop)
    have tx: "entry_text p1 ?e = ?s" using p1(2) by (simp add: entry_text_drop same_content_def)
    have new: "content_ok ?p2" "linked_upto ?n ?p2" "pool_strings ?p2 = pool_strings p1 @ [?s]"
      using append_entry_ok [of p1 ?e] p1 True len tx assms(3,4) same_content_strings [OF p1(2)]
      by (simp_all add: same_content_def)
    have nb: "sp_buckets ?p2 \<noteq> []" using p1(3) True by simp
    let ?p3 = "pool_link ?n ?p2"
    have l: "linked_upto (Suc ?n) ?p3" "same_content ?p2 ?p3" "length (sp_buckets ?p3) = length (sp_buckets ?p2)"
      using pool_link_step [OF new(2) _ nb] by simp_all
    have nb3: "sp_buckets ?p3 \<noteq> []" using l(3) nb by auto
    have "length (sp_entries ?p3) = Suc ?n" using same_content_length [OF l(2)] by simp
    then have "pool_ok ?p3" using same_content_ok [OF new(1) l(2) nb3] l(1) by simp
    from maybe_grow_ok [OF this nb3, of mem] have g: "pool_ok q" "same_content ?p3 q" using q(2) by simp_all
    then have "same_content ?p2 q" using l(2) same_content_trans by blast
    then show ?thesis
      using g(1) q(1) new(3) same_content_strings [of ?p2 q] same_content_strings [OF p1(2)] p1(2) by (simp add: same_content_def)
  qed
qed


section \<open>Interning\<close>

text \<open>What storing a string may do: give the id of the stored text and add it when it is new, or change nothing.\<close>

definition stored :: "string_pool \<Rightarrow> string \<Rightarrow> pool_error + nat \<Rightarrow> string_pool \<Rightarrow> bool" where
  "stored p s r q \<longleftrightarrow> pool_ok q \<and> sp_max_bytes q = sp_max_bytes p \<and>
     (case r of
        Inl e \<Rightarrow> sp_arena q = sp_arena p \<and> pool_strings q = pool_strings p
      | Inr i \<Rightarrow> i < length (pool_strings q) \<and> pool_strings q ! i = s
          \<and> (if s \<in> set (pool_strings p) then sp_arena q = sp_arena p \<and> pool_strings q = pool_strings p
             else sp_arena q = sp_arena p @ s \<and> pool_strings q = pool_strings p @ [s]))"

lemma pool_strings_length [simp]: "length (pool_strings p) = length (sp_entries p)"
  by (simp add: pool_strings_def)

lemma entries_bound: "pool_ok p \<Longrightarrow> length (sp_entries p) < 2 ^ 32"
  by (simp add: pool_ok_def content_ok_def kDefaultMax_def)

lemma pool_view_strings: "pool_ok p \<Longrightarrow> i < length (sp_entries p) \<Longrightarrow> pool_view p i = pool_strings p ! i"
  using kNone_index [of "length (sp_entries p)" i]
  by (simp add: pool_view_def pool_strings_def pool_ok_def content_ok_def)

lemma pool_find_stored:
  assumes "pool_ok p" and "i < length (sp_entries p)" and "pool_strings p ! i = s"
  shows "pool_find p s = Some i"
proof (rule find_index_found [OF assms(1), of s])
  fix j
  assume j: "find_index p s (hash_of s) = Some j" "j \<noteq> kNone \<Longrightarrow> j < length (sp_entries p) \<and> pool_strings p ! j = s"
    "j = kNone \<Longrightarrow> s \<notin> set (pool_strings p)"
  have "s \<in> set (pool_strings p)" using assms(2,3) by (metis nth_mem pool_strings_length)
  then have "j < length (sp_entries p)" "pool_strings p ! j = s" using j(2,3) by blast+
  moreover have "distinct (pool_strings p)" using assms(1) by (simp add: pool_ok_def content_ok_def)
  ultimately have "j = i" using assms(2,3) by (simp add: distinct_conv_nth) metis
  then show ?thesis using j(1) by (simp add: pool_find_def)
qed

lemma pool_find_absent:
  assumes "pool_ok p" and "s \<notin> set (pool_strings p)"
  shows "pool_find p s = Some kNone"
proof (rule find_index_found [OF assms(1), of s])
  fix j
  assume j: "find_index p s (hash_of s) = Some j" "j \<noteq> kNone \<Longrightarrow> j < length (sp_entries p) \<and> pool_strings p ! j = s"
  have "j = kNone" using j(2) assms(2) by (metis nth_mem pool_strings_length)
  then show ?thesis using j(1) by (simp add: pool_find_def)
qed

lemma pool_find_cong:
  assumes "pool_ok p" and "pool_ok q" and "pool_strings q = pool_strings p"
  shows "pool_find q s = pool_find p s"
proof (cases "s \<in> set (pool_strings p)")
  case True
  then obtain i where i: "i < length (pool_strings p)" "pool_strings p ! i = s" by (auto simp: in_set_conv_nth)
  moreover have "i < length (sp_entries q)" using i(1) assms(3) by (metis pool_strings_length)
  ultimately show ?thesis using pool_find_stored [OF assms(1), of i s] pool_find_stored [OF assms(2), of i s] assms(3) by simp
next
  case False
  then show ?thesis using pool_find_absent assms by simp
qed

lemma stored_existing:
  assumes "pool_ok p" and "i < length (sp_entries p)" and "pool_strings p ! i = s"
  shows "stored p s (Inr i) p"
  using assms nth_mem [of i "pool_strings p"] by (simp add: stored_def)

lemma pool_append_ok:
  assumes "pool_ok p" and "length s \<le> sp_max_bytes p - length (sp_arena p)"
  shows "pool_ok (p\<lparr>sp_arena := sp_arena p @ s\<rparr>)" and "pool_strings (p\<lparr>sp_arena := sp_arena p @ s\<rparr>) = pool_strings p"
proof -
  let ?q = "p\<lparr>sp_arena := sp_arena p @ s\<rparr>"
  have t: "entry_text ?q e = entry_text p e" if "e \<in> set (sp_entries p)" for e
  proof -
    have "en_offset e + en_length e \<le> length (sp_arena p)"
      using that assms(1) by (simp add: pool_ok_def content_ok_def entries_below_def)
    then show ?thesis by (simp add: entry_text_drop)
  qed
  then show str: "pool_strings ?q = pool_strings p" by (simp add: pool_strings_def)
  have "slot ?q = slot p" by (rule ext) (simp add: slot_def)
  then show "pool_ok ?q" using assms t str
    by (auto simp: pool_ok_def content_ok_def linked_upto_def entries_below_def)
qed

lemma pool_entries_below: "pool_ok p \<Longrightarrow> entries_below p (length (sp_arena p))"
  by (simp add: pool_ok_def content_ok_def)

lemma pool_intern_stored:
  assumes "pool_ok p" and "\<not> sp_building p"
  shows "\<exists>r q. pool_intern mem p s = Some (r, q) \<and> stored p s r q \<and> \<not> sp_building q
           \<and> (\<forall>e. r = Inl e \<longrightarrow> e = Pool_full \<and> s \<notin> set (pool_strings p))"
proof (rule find_index_found [OF assms(1), of s])
  fix j
  assume j: "find_index p s (hash_of s) = Some j" "j \<noteq> kNone \<Longrightarrow> j < length (sp_entries p) \<and> pool_strings p ! j = s"
    "j = kNone \<Longrightarrow> s \<notin> set (pool_strings p)"
  obtain eb p1 where e: "ensure_buckets mem p = (eb, p1)" by fastforce
  have p1: "pool_ok p1" "same_content p p1" "\<not> eb \<Longrightarrow> p1 = p" using ensure_buckets_ok [OF assms(1) e] by auto
  have s1: "pool_strings p1 = pool_strings p" by (rule same_content_strings [OF p1(2)])
  have c1: "sp_arena p1 = sp_arena p" "sp_max_bytes p1 = sp_max_bytes p" "\<not> sp_building p1"
    using p1(2) assms(2) by (simp_all add: same_content_def)
  let ?p2 = "p1\<lparr>sp_arena := sp_arena p1 @ s\<rparr>" and ?start = "length (sp_arena p1)"
  obtain ok q where c: "pool_commit mem ?p2 ?start (length s) (hash_of s) = (ok, q)" by fastforce
  consider (found) "j \<noteq> kNone"
    | (full) "j = kNone" "length (sp_entries p) \<ge> sp_max_strings p \<or> length s > sp_max_bytes p - length (sp_arena p)"
    | (new) "j = kNone" "\<not> (length (sp_entries p) \<ge> sp_max_strings p \<or> length s > sp_max_bytes p - length (sp_arena p))"
    by blast
  then show ?thesis
  proof cases
    case found
    then show ?thesis using j(1,2) assms stored_existing [OF assms(1), of j s] by (simp add: pool_intern_def)
  next
    case full
    then show ?thesis using j(1,3) assms by (simp add: pool_intern_def stored_def)
  next
    case new
    then have p2: "pool_ok ?p2" "pool_strings ?p2 = pool_strings p1" using pool_append_ok [OF p1(1), of s] c1 by simp_all
    have "entries_below ?p2 ?start" using pool_entries_below [OF p1(1)] by (simp add: entries_below_def)
    then have q: "pool_ok q" "sp_max_bytes q = sp_max_bytes p" "\<not> sp_building q"
        "if ok then sp_arena q = sp_arena p @ s \<and> pool_strings q = pool_strings p @ [s]
         else sp_arena q = sp_arena p \<and> pool_strings q = pool_strings p"
      using pool_commit_ok [OF p2(1), of ?start mem ok q] c j(3) new(1) s1 p2(2) c1 by (simp_all split: if_splits)
    have len: "length (sp_entries q) = Suc (length (sp_entries p))" if ok using q(4) that
      by (metis length_append_singleton pool_strings_length)
    have "(length (sp_entries q) - 1) mod 2 ^ 32 = length (sp_entries p)" if ok
      using len [OF that] entries_bound [OF assms(1)] by simp
    then have r: "ok \<Longrightarrow> stored p s (Inr ((length (sp_entries q) - 1) mod 2 ^ 32)) q"
      using q len j(3) new(1) by (simp add: stored_def nth_append)
    show ?thesis
    proof (cases "eb \<and> can_arena mem (length (sp_arena p1) + length s) \<and> ok")
      case True
      then show ?thesis using j(1) new e c r q(3) assms(2) by (simp add: pool_intern_def pool_append_def)
    next
      case False
      then have "\<exists>q'. pool_intern mem p s = Some (Inl Pool_full, q') \<and> (q' = p1 \<or> q' = q \<and> \<not> ok)"
        using j(1) new e c assms(2) by (auto simp: pool_intern_def pool_append_def)
      moreover have "stored p s (Inl Pool_full) p1" "\<not> ok \<Longrightarrow> stored p s (Inl Pool_full) q"
        using p1(1) s1 c1 q j(3) new(1) by (simp_all add: stored_def)
      ultimately show ?thesis using c1(3) q(3) j(3) new(1) by auto
    qed
  qed
qed


section \<open>Rollback\<close>

text \<open>The places of the strings of \<open>p\<close> are the first ones of \<open>q\<close>.\<close>

definition extends :: "string_pool \<Rightarrow> string_pool \<Rightarrow> bool" where
  "extends p q \<longleftrightarrow> (\<exists>cs. map entry_core (sp_entries q) = map entry_core (sp_entries p) @ cs)"

lemma extends_refl [simp]: "extends p p"
  by (simp add: extends_def)

lemma extends_trans: "extends p q \<Longrightarrow> extends q r \<Longrightarrow> extends p r"
  by (auto simp: extends_def)

lemma same_content_extends: "same_content p q \<Longrightarrow> extends p q"
  by (simp add: extends_def same_content_def)

lemma fold_pool_link_content:
  "k \<le> length (sp_entries p) \<Longrightarrow> same_content p (fold pool_link [0..<k] p)"
proof (induction k)
  case 0
  show ?case by (simp add: same_content_def)
next
  case (Suc k)
  then have q: "same_content p (fold pool_link [0..<k] p)" by simp
  then have "same_content (fold pool_link [0..<k] p) (pool_link k (fold pool_link [0..<k] p))"
    using Suc.prems same_content_length [OF q] by (intro pool_link_content) simp
  with q show ?case by (auto intro: same_content_trans)
qed

lemma maybe_grow_content: "same_content p (maybe_grow mem p)"
proof -
  let ?p = "p\<lparr>sp_buckets := replicate (length (sp_buckets p) * 2) kNone\<rparr>"
  have "same_content p ?p" by (simp add: same_content_def)
  moreover have "same_content ?p (fold pool_link [0..<length (sp_entries p)] ?p)" by (rule fold_pool_link_content) simp
  ultimately show ?thesis by (auto simp: maybe_grow_def same_content_def [of p p] intro: same_content_trans)
qed

lemma ensure_buckets_content: "ensure_buckets mem p = (ok, q) \<Longrightarrow> same_content p q"
  by (auto simp: ensure_buckets_def same_content_def split: if_splits)

lemma pool_truncate_extends: "extends p (pool_truncate n q) \<longleftrightarrow> extends p q"
  by (simp add: extends_def pool_truncate_def)

lemma pool_commit_extends:
  assumes "length (sp_entries p) < 2 ^ 32" and "pool_commit mem p offset len h = (ok, q)"
  shows "extends p q"
proof -
  obtain eb p1 where e: "ensure_buckets mem p = (eb, p1)" by fastforce
  let ?e = "\<lparr>en_offset = offset mod 2 ^ 32, en_length = len mod 2 ^ 32, en_hash = h, en_next = kNone\<rparr>"
  let ?p2 = "p1\<lparr>sp_entries := sp_entries p1 @ [?e]\<rparr>"
  note c1 = ensure_buckets_content [OF e]
  have x1: "extends p p1" by (rule same_content_extends [OF c1])
  have "extends p1 ?p2" by (simp add: extends_def)
  moreover have "length (sp_entries p1) mod 2 ^ 32 = length (sp_entries p1)" using assms(1) same_content_length [OF c1] by simp
  then have "extends ?p2 (pool_link ((length (sp_entries ?p2) - 1) mod 2 ^ 32) ?p2)"
    by (intro same_content_extends pool_link_content) simp
  ultimately have "extends p (maybe_grow mem (pool_link ((length (sp_entries ?p2) - 1) mod 2 ^ 32) ?p2))"
    using x1 same_content_extends [OF maybe_grow_content] extends_trans by blast
  then show ?thesis using assms(2) e x1 by (auto simp: pool_commit_def pool_truncate_extends Let_def split: if_splits)
qed

lemma pool_intern_extends:
  assumes "pool_ok p" and "pool_intern mem p s = Some (r, q)"
  shows "extends p q"
proof -
  obtain eb p1 where e: "ensure_buckets mem p = (eb, p1)" by fastforce
  let ?p2 = "p1\<lparr>sp_arena := sp_arena p1 @ s\<rparr>"
  obtain ok q2 where c: "pool_commit mem ?p2 (length (sp_arena p1)) (length s) (hash_of s) = (ok, q2)" by fastforce
  note c1 = ensure_buckets_content [OF e]
  have x1: "extends p p1" "extends p ?p2" using same_content_extends [OF c1] by (simp_all add: extends_def)
  have "extends ?p2 q2" using c entries_bound [OF assms(1)] same_content_length [OF c1]
    by (intro pool_commit_extends [where mem = mem]) simp_all
  then have "extends p q2" by (rule extends_trans [OF x1(2)])
  then show ?thesis using assms(2) e c x1
    by (auto simp: pool_intern_def pool_append_def Let_def split: if_splits option.splits)
qed

lemma pool_unlink_last_ok:
  assumes "pool_ok q" and "sp_entries q \<noteq> []"
  shows "pool_ok (pool_unlink_last q)"
proof -
  let ?q = "pool_unlink_last q" and ?k = "length (sp_entries q) - 1"
  have n: "length (sp_entries q) = Suc ?k" using assms(2) by simp
  have b: "sp_buckets q \<noteq> []" using assms by (auto simp: pool_ok_def content_ok_def)
  have ent: "sp_entries ?q = butlast (sp_entries q)" by (simp add: pool_unlink_last_def Let_def)
  have bk: "sp_buckets ?q = (sp_buckets q)[slot q ?k := en_next (sp_entries q ! ?k)]"
    using assms(2) by (simp add: pool_unlink_last_def Let_def slot_def last_conv_nth)
  have sub: "set (sp_entries ?q) \<subseteq> set (sp_entries q)" unfolding ent by (auto dest: in_set_butlastD)
  have rest: "sp_arena ?q = sp_arena q" "sp_max_bytes ?q = sp_max_bytes q" "sp_max_strings ?q = sp_max_strings q"
    by (simp_all add: pool_unlink_last_def Let_def)
  have t: "entry_text ?q e = entry_text q e" for e by (simp add: entry_text_drop rest)
  have str: "pool_strings ?q = butlast (pool_strings q)" by (simp add: pool_strings_def t [abs_def] ent map_butlast)
  have "content_ok ?q"
    using assms(1) sub n by (auto simp: pool_ok_def content_ok_def rest str t entries_below_def bk ent distinct_butlast)
  moreover have "linked_upto (length (sp_entries ?q)) ?q"
  proof -
    have sl: "slot ?q i = slot q i" if "i < ?k" for i
      using that n by (simp add: slot_def bucket_of_def bk ent nth_butlast)
    have la: "last_in (slot ?q) c k = last_in (slot q) c k" if "k \<le> ?k" for c k
      using that sl by (intro last_in_cong) simp
    have lq: "\<And>c. c < length (sp_buckets q) \<Longrightarrow> sp_buckets q ! c = last_in (slot q) c (Suc ?k)"
      "\<And>i. i < Suc ?k \<Longrightarrow> en_next (sp_entries q ! i) = last_in (slot q) (slot q i) i"
      using assms(1) n by (simp_all add: pool_ok_def linked_upto_def)
    have "sp_buckets ?q ! c = last_in (slot q) c ?k" if "c < length (sp_buckets q)" for c
      using lq(1) [OF that] lq(2) [of ?k] that by (cases "slot q ?k = c") (simp_all add: bk)
    moreover have "en_next (sp_entries ?q ! i) = last_in (slot q) (slot q i) i" if "i < ?k" for i
      using lq(2) [of i] that by (simp add: ent nth_butlast)
    ultimately show ?thesis using la sl by (simp add: linked_upto_def ent bk)
  qed
  ultimately show ?thesis by (simp add: pool_ok_def)
qed

lemma unlink_funpow:
  assumes "pool_ok q" and "k \<le> length (sp_entries q)"
  defines "r \<equiv> (pool_unlink_last ^^ k) q"
  shows "pool_ok r \<and> sp_entries r = take (length (sp_entries q) - k) (sp_entries q) \<and> sp_arena r = sp_arena q"
  using assms(2) unfolding r_def
proof (induction k)
  case 0
  then show ?case using assms(1) by simp
next
  case (Suc k)
  let ?r = "(pool_unlink_last ^^ k) q"
  have r: "pool_ok ?r" "sp_entries ?r = take (length (sp_entries q) - k) (sp_entries q)" "sp_arena ?r = sp_arena q"
    using Suc by simp_all
  then have "sp_entries ?r \<noteq> []" using Suc.prems by auto
  then show ?case using pool_unlink_last_ok [OF r(1)] r(2,3) Suc.prems
    by (simp add: pool_unlink_last_def [of ?r] Let_def butlast_take)
qed

lemma pool_rollback_extends:
  assumes "pool_ok p" and "pool_ok q" and "extends p q" and "\<not> sp_building q"
    and "sp_arena q = sp_arena p @ t"
  defines "r \<equiv> pool_rollback q (pool_mark p)"
  shows "pool_ok r \<and> sp_arena r = sp_arena p \<and> pool_strings r = pool_strings p"
proof -
  let ?k = "length (sp_entries q) - length (sp_entries p)"
  let ?u = "(pool_unlink_last ^^ ?k) q" and ?n = "length (sp_arena p)"
  obtain cs where cs: "map entry_core (sp_entries q) = map entry_core (sp_entries p) @ cs" using assms(3) by (auto simp: extends_def)
  then have le: "length (sp_entries p) \<le> length (sp_entries q)" by (metis le_add1 length_append length_map)
  have u: "pool_ok ?u" "sp_entries ?u = take (length (sp_entries p)) (sp_entries q)" "sp_arena ?u = sp_arena q"
    using unlink_funpow [OF assms(2), of ?k] le by simp_all
  have core: "map entry_core (sp_entries ?u) = map entry_core (sp_entries p)"
    using cs u(2) by (metis append_eq_conv_conj length_map take_map)
  let ?p = "p\<lparr>sp_arena := sp_arena q\<rparr>"
  have "same_content (?p\<lparr>sp_max_bytes := sp_max_bytes ?u, sp_max_strings := sp_max_strings ?u, sp_building := sp_building ?u\<rparr>) ?u"
    using core u(3) by (simp add: same_content_def)
  note sc = same_content_strings [OF this] entries_below_same [OF this, of ?n]
  have eb: "entries_below ?u ?n" using sc(2) pool_entries_below [OF assms(1)] by (simp add: entries_below_def)
  have rr: "r = (if t = [] then ?u else pool_truncate ?n ?u)"
    using assms(4,5) u(3) by (simp add: r_def pool_rollback_def pool_mark_def Let_def)
  have tr: "entries_below ?p ?n" using pool_entries_below [OF assms(1)] by (simp add: entries_below_def)
  have "pool_truncate ?n ?p = p" using assms(5) by (simp add: pool_truncate_def)
  then have "pool_strings ?p = pool_strings p" using pool_truncate_strings [OF tr] by simp
  then have "pool_strings ?u = pool_strings p" using sc(1) by (simp add: pool_strings_def entry_text_drop [abs_def])
  then show ?thesis
    using rr u eb pool_truncate_ok [OF u(1) eb] pool_truncate_strings [OF eb] assms(5)
    by (simp add: pool_truncate_def)
qed

lemma pool_intern_all_stored:
  assumes "pool_ok p" and "\<not> sp_building p"
  shows "\<exists>r q t. pool_intern_all mem p ss = Some (r, q) \<and> pool_ok q \<and> extends p q \<and> \<not> sp_building q
           \<and> sp_arena q = sp_arena p @ t"
  using assms
proof (induction ss arbitrary: p)
  case Nil
  then show ?case by simp
next
  case (Cons s ss)
  from pool_intern_stored [OF Cons.prems, of mem s]
  obtain r q where i: "pool_intern mem p s = Some (r, q)" "stored p s r q" "\<not> sp_building q" by blast
  have x: "extends p q" by (rule pool_intern_extends [OF Cons.prems(1) i(1)])
  have q: "pool_ok q" "\<exists>t. sp_arena q = sp_arena p @ t" using i(2) by (auto simp: stored_def split: sum.splits if_splits)
  show ?case
  proof (cases r)
    case (Inl e)
    then show ?thesis using i x q by simp
  next
    case (Inr j)
    then show ?thesis using i(1) Cons.IH [OF q(1) i(3)] x q(2) extends_trans by fastforce
  qed
qed


section \<open>Builder\<close>

definition building :: "string_pool \<Rightarrow> string \<Rightarrow> string_pool" where
  "building p t = p\<lparr>sp_arena := sp_arena p @ t, sp_building := True\<rparr>"

lemma builder_fold:
  assumes "b = \<lparr>pb_start = n, pb_active = True, pb_failed = failed, pb_message = m\<rparr>"
    and "length (sp_arena p @ t) \<le> sp_max_bytes p"
  shows "\<exists>t' failed'. foldl (builder_append mem) (b, building p t) pieces
           = (\<lparr>pb_start = n, pb_active = True, pb_failed = failed', pb_message = m\<rparr>, building p t')
       \<and> (\<not> failed' \<longrightarrow> \<not> failed \<and> t' = t @ concat pieces) \<and> length (sp_arena p @ t') \<le> sp_max_bytes p"
  using assms
proof (induction pieces arbitrary: b t failed)
  case Nil
  then show ?case by auto
next
  case (Cons s pieces)
  let ?b = "\<lambda>f. \<lparr>pb_start = n, pb_active = True, pb_failed = f, pb_message = m\<rparr>"
  show ?case
  proof (cases "failed \<or> length s > sp_max_bytes p - length (sp_arena p @ t)
      \<or> \<not> can_arena mem (length (sp_arena p @ t) + length s)")
    case True
    then have "builder_append mem (b, building p t) s = (?b True, building p t)"
      using Cons.prems by (auto simp: builder_append_def building_def pool_append_def)
    then show ?thesis using Cons.IH [of "?b True" True t] Cons.prems(2) by auto
  next
    case False
    then have "builder_append mem (b, building p t) s = (?b False, building p (t @ s))"
      using Cons.prems by (auto simp: builder_append_def building_def pool_append_def)
    then show ?thesis using Cons.IH [of "?b False" False "t @ s"] False Cons.prems(2) by auto
  qed
qed

lemma building_ok:
  assumes "pool_ok p" and "length (sp_arena p @ t) \<le> sp_max_bytes p"
  shows "pool_ok (building p t)" and "pool_strings (building p t) = pool_strings p"
    and "entries_below (building p t) (length (sp_arena p))"
proof -
  let ?q = "p\<lparr>sp_arena := sp_arena p @ t\<rparr>"
  have t: "length t \<le> sp_max_bytes p - length (sp_arena p)" using assms(2) by simp
  note q = pool_append_ok [OF assms(1) t]
  have e: "building p t = ?q\<lparr>sp_building := True\<rparr>" by (simp add: building_def)
  have sl: "slot (?q\<lparr>sp_building := True\<rparr>) = slot ?q" by (rule ext) (simp add: slot_def)
  show "pool_strings (building p t) = pool_strings p"
    using q(2) by (simp add: e pool_strings_def entry_text_drop [abs_def])
  show "pool_ok (building p t)" using q(1) sl
    by (simp add: e pool_ok_def content_ok_def entries_below_def pool_strings_def entry_text_drop [abs_def] linked_upto_def)
  show "entries_below (building p t) (length (sp_arena p))"
    using pool_entries_below [OF assms(1)] by (simp add: entries_below_def building_def)
qed

lemma pool_ok_building: "pool_ok (p\<lparr>sp_building := b\<rparr>) = pool_ok p" "pool_strings (p\<lparr>sp_building := b\<rparr>) = pool_strings p"
proof -
  have "slot (p\<lparr>sp_building := b\<rparr>) = slot p" by (rule ext) (simp add: slot_def)
  then show "pool_ok (p\<lparr>sp_building := b\<rparr>) = pool_ok p" "pool_strings (p\<lparr>sp_building := b\<rparr>) = pool_strings p"
    by (simp_all add: pool_ok_def content_ok_def entries_below_def pool_strings_def entry_text_drop [abs_def] linked_upto_def)
qed

lemma building_abandoned:
  "\<not> sp_building p \<Longrightarrow> pool_truncate (length (sp_arena p)) (building p t)\<lparr>sp_building := False\<rparr> = p"
  by (cases p) (simp add: pool_truncate_def building_def)

lemma builder_finish_stored:
  assumes "pool_ok p" and "length (sp_arena p @ t) \<le> sp_max_bytes p" and "\<not> failed \<Longrightarrow> t = s" and "\<not> sp_building p"
  and b_def: "b = \<lparr>pb_start = length (sp_arena p), pb_active = True, pb_failed = failed, pb_message = m\<rparr>"
  shows "\<exists>r b' q. builder_finish mem (b, building p t) = Some (r, b', q) \<and> stored p s r q \<and> \<not> pb_active b' \<and> \<not> sp_building q
     \<and> (\<forall>e. r = Inl e \<longrightarrow> e = Pool_full)"
proof (cases failed)
  case True
  then show ?thesis using assms(1,4) building_abandoned [OF assms(4), of t]
    by (simp add: builder_finish_def builder_abandon_def b_def stored_def pool_ok_building)
next
  case False
  let ?p = "building p t"
  note bo = building_ok [OF assms(1,2)]
  have s: "text_from ?p (pb_start b) = s" "length (sp_arena ?p) - pb_start b = length s" "drop (length (sp_arena p)) (sp_arena ?p) = s"
    using assms(3) False by (auto simp: text_from_def building_def b_def)
  have b: "pb_active b" "\<not> pb_failed b" "pb_start b = length (sp_arena p)" using False by (simp_all add: b_def)
  show ?thesis
  proof (rule find_index_found [OF bo(1), of s])
    fix j
    assume j: "find_index ?p s (hash_of s) = Some j" "j \<noteq> kNone \<Longrightarrow> j < length (sp_entries ?p) \<and> pool_strings ?p ! j = s"
      "j = kNone \<Longrightarrow> s \<notin> set (pool_strings ?p)"
    show ?thesis
    proof (cases "j = kNone")
      case False
      then have "stored p s (Inr j) p" using j(2) bo(2) by (intro stored_existing [OF assms(1)]) (simp_all add: building_def)
      then show ?thesis using False j(1) s b building_abandoned [OF assms(4), of t] assms(4)
        by (simp add: builder_finish_def builder_abandon_def)
    next
      case True
      obtain ok q where c: "pool_commit mem ?p (length (sp_arena p)) (length s) (hash_of s) = (ok, q)" by fastforce
      have q: "pool_ok q" "sp_max_bytes q = sp_max_bytes p"
          "if ok then sp_arena q = sp_arena p @ s \<and> pool_strings q = pool_strings p @ [s]
           else sp_arena q = sp_arena p \<and> pool_strings q = pool_strings p"
        using pool_commit_ok [OF bo(1,3), of mem ok q] c s(3) j(3) True bo(2) assms(3) \<open>\<not> failed\<close>
        by (simp_all add: building_def split: if_splits)
      have len: "ok \<Longrightarrow> length (sp_entries q) = Suc (length (sp_entries p))" using q(3)
        by (metis length_append_singleton pool_strings_length)
      have r: "ok \<Longrightarrow> stored p s (Inr ((length (sp_entries q) - 1) mod 2 ^ 32)) (q\<lparr>sp_building := False\<rparr>)"
        "\<not> ok \<Longrightarrow> stored p s (Inl Pool_full) (q\<lparr>sp_building := False\<rparr>)"
        using q len j(3) True bo(2) entries_bound [OF assms(1)] by (simp_all add: stored_def pool_ok_building nth_append)
      show ?thesis using True j(1) s b c r by (cases ok) (simp_all add: builder_finish_def Let_def)
    qed
  qed
qed


section \<open>Properties\<close>

text \<open>C14: The string pool is a set of strings with stable ids. On a pool in the state its operations keep, \<open>intern\<close>
  always ends, whichever growths of its vectors fail. It gives an id that \<open>view\<close> reads back as the text and
  \<open>find\<close> finds, no other id of the pool reads as that text, a new text is added behind the others and
  an old one adds nothing; or it fails with pool full on a new text and leaves the strings and
  the arena as they were. Either way the earlier ids read as before and the invariant holds again.\<close>

theorem string_pool_intern:
  assumes "pool_ok p" and "\<not> sp_building p"
  shows "\<exists>r q. pool_intern mem p s = Some (r, q) \<and> pool_ok q \<and> \<not> sp_building q
     \<and> (\<forall>j < length (sp_entries p). pool_view q j = pool_view p j)
     \<and> (case r of
          Inl e \<Rightarrow> e = Pool_full \<and> s \<notin> set (pool_strings p) \<and> pool_strings q = pool_strings p \<and> sp_arena q = sp_arena p
        | Inr i \<Rightarrow> i < length (sp_entries q) \<and> pool_find q s = Some i
            \<and> (\<forall>j < length (sp_entries q). pool_view q j = s \<longleftrightarrow> j = i)
            \<and> pool_strings q = (if s \<in> set (pool_strings p) then pool_strings p else pool_strings p @ [s]))"
proof -
  from pool_intern_stored [OF assms, of mem s]
  obtain r q where i: "pool_intern mem p s = Some (r, q)" "stored p s r q" "\<not> sp_building q"
    "\<forall>e. r = Inl e \<longrightarrow> e = Pool_full \<and> s \<notin> set (pool_strings p)" by blast
  have ok: "pool_ok q" using i(2) by (simp add: stored_def)
  have str: "\<exists>t. pool_strings q = pool_strings p @ t" using i(2) by (auto simp: stored_def split: sum.splits if_splits)
  then have le: "length (sp_entries p) \<le> length (sp_entries q)" by (metis le_add1 length_append pool_strings_length)
  have old: "pool_view q j = pool_view p j" if "j < length (sp_entries p)" for j
    using that le str pool_view_strings [OF ok, of j] pool_view_strings [OF assms(1), of j] by (auto simp: nth_append)
  have uniq: "(pool_view q j = s) = (j = k)"
    if "k < length (sp_entries q)" "pool_strings q ! k = s" "j < length (sp_entries q)" for j k
    using that ok pool_view_strings [OF ok, of j] nth_eq_iff_index_eq [of "pool_strings q" j k]
    by (auto simp: pool_ok_def content_ok_def)
  show ?thesis
  proof (cases r)
    case (Inl e)
    then show ?thesis using i ok old by (simp add: stored_def)
  next
    case (Inr k)
    then have k: "k < length (sp_entries q)" "pool_strings q ! k = s" using i(2) by (simp_all add: stored_def)
    show ?thesis using Inr i ok old k uniq [OF k] pool_find_stored [OF ok k] by (simp add: stored_def)
  qed
qed

definition all_memory :: pool_memory where
  "all_memory = \<lparr>can_arena = (\<lambda>n. True), can_entries = (\<lambda>n. True), can_buckets = (\<lambda>n. True)\<rparr>"

theorem string_pool_intern_witness:
  "\<exists>q. pool_intern all_memory (string_pool_init 8 4) ''ab'' = Some (Inr 0, q) \<and> pool_view q 0 = ''ab''
     \<and> pool_find q ''ab'' = Some 0"
proof -
  have r: "\<exists>q. pool_intern all_memory (string_pool_init 8 4) ''ab'' = Some (Inr 0, q) \<and> 0 < length (sp_entries q)"
    by (simp add: pool_intern_def string_pool_init_def find_index_def all_memory_def ensure_buckets_def
        pool_append_def pool_commit_def kDefaultMax_def kNone_def kInitialBuckets_def maybe_grow_def pool_link_def Let_def)
  show ?thesis
    using string_pool_intern [OF string_pool_init_ok(1,3), of all_memory 8 4 "''ab''"] r by auto
qed

text \<open>Rolling a pool back to a mark undoes everything interned after it. However many words \<open>intern_all\<close> stored
  after the mark, and whether it stopped at a failure, the rolled back pool has the strings and the bytes
  of the mark, every text has the id it had, the dropped ones have none, and the invariant holds, so the
  chains are those of the remaining entries although the table may have grown in between.\<close>

theorem string_pool_rollback:
  assumes "pool_ok p" and "\<not> sp_building p"
  shows "\<exists>r q. pool_intern_all mem p words = Some (r, q) \<and> pool_ok (pool_rollback q (pool_mark p))
     \<and> sp_arena (pool_rollback q (pool_mark p)) = sp_arena p \<and> pool_strings (pool_rollback q (pool_mark p)) = pool_strings p
     \<and> (\<forall>s. pool_find (pool_rollback q (pool_mark p)) s = pool_find p s)"
proof -
  from pool_intern_all_stored [OF assms, of mem words]
  obtain r q t where q: "pool_intern_all mem p words = Some (r, q)" "pool_ok q" "extends p q" "\<not> sp_building q"
    "sp_arena q = sp_arena p @ t" by blast
  note rb = pool_rollback_extends [OF assms(1) q(2-5)]
  then show ?thesis using q(1) pool_find_cong [OF assms(1)] by blast
qed

theorem string_pool_rollback_witness:
  "\<exists>r q. pool_intern_all all_memory (string_pool_init 8 4) [''if'', ''of'', ''if''] = Some (r, q)
     \<and> pool_strings (pool_rollback q (pool_mark (string_pool_init 8 4))) = []
     \<and> pool_find (pool_rollback q (pool_mark (string_pool_init 8 4))) ''if'' = Some kNone"
proof -
  have "pool_find (string_pool_init 8 4) ''if'' = Some kNone"
    by (simp add: pool_find_def find_index_def string_pool_init_def)
  then show ?thesis
    using string_pool_rollback [OF string_pool_init_ok(1,3), of all_memory 8 4 "[''if'', ''of'', ''if'']"] string_pool_init_ok(2) [of 8 4]
    by fastforce
qed

text \<open>Building a string piece by piece stores the concatenation. \<open>begin\<close>, any appends and \<open>finish\<close> end as
  an \<open>intern\<close> of the joined pieces does: an id that reads back as the whole text, equal to the id of an equal string
  that was there before, without its bytes a second time, or pool full with strings and arena as before
  the builder. The builder is closed, the pool is open again, and meanwhile \<open>intern\<close> answers busy.\<close>

theorem string_pool_builder:
  assumes "pool_ok p" and "\<not> sp_building p"
  shows "\<exists>r b q. builder_finish mem (foldl (builder_append mem) (pool_begin p) pieces) = Some (r, b, q)
     \<and> pool_ok q \<and> \<not> sp_building q \<and> \<not> pb_active b
     \<and> (case r of
          Inl e \<Rightarrow> e = Pool_full \<and> pool_strings q = pool_strings p \<and> sp_arena q = sp_arena p
        | Inr i \<Rightarrow> pool_view q i = concat pieces
            \<and> (if concat pieces \<in> set (pool_strings p) then pool_strings q = pool_strings p \<and> sp_arena q = sp_arena p
               else pool_strings q = pool_strings p @ [concat pieces] \<and> sp_arena q = sp_arena p @ concat pieces))
     \<and> pool_intern mem (snd (foldl (builder_append mem) (pool_begin p) pieces)) other
         = Some (Inl Pool_busy, snd (foldl (builder_append mem) (pool_begin p) pieces))"
proof -
  let ?b = "\<lambda>f. \<lparr>pb_start = length (sp_arena p), pb_active = True, pb_failed = f, pb_message = Pool_full\<rparr>"
  have "length (sp_arena p @ []) \<le> sp_max_bytes p" using assms(1) by (simp add: pool_ok_def content_ok_def)
  from builder_fold [OF refl this, of mem "length (sp_arena p)" False Pool_full pieces]
  obtain t f where f: "foldl (builder_append mem) (?b False, building p []) pieces = (?b f, building p t)"
    "\<not> f \<Longrightarrow> t = concat pieces" "length (sp_arena p @ t) \<le> sp_max_bytes p" by auto
  have "pool_begin p = (?b False, building p [])" using assms(2) by (simp add: pool_begin_def building_def)
  then have st: "foldl (builder_append mem) (pool_begin p) pieces = (?b f, building p t)" using f(1) by simp
  from builder_finish_stored [OF assms(1) f(3) f(2) assms(2) refl, of f mem Pool_full]
  obtain r b q where r: "builder_finish mem (?b f, building p t) = Some (r, b, q)" "stored p (concat pieces) r q"
    "\<not> pb_active b" "\<not> sp_building q" "\<And>e. r = Inl e \<Longrightarrow> e = Pool_full" by blast
  have ok: "pool_ok q" using r(2) by (simp add: stored_def)
  have busy: "pool_intern mem (building p t) other = Some (Inl Pool_busy, building p t)"
    by (simp add: pool_intern_def building_def)
  show ?thesis
  proof (cases r)
    case (Inl e)
    then show ?thesis using r st busy ok by (simp add: stored_def)
  next
    case (Inr k)
    then show ?thesis using r st busy ok pool_view_strings [OF ok, of k] by (auto simp: stored_def)
  qed
qed

theorem string_pool_builder_witness:
  "\<exists>r b q. builder_finish all_memory (foldl (builder_append all_memory) (pool_begin (string_pool_init 8 4)) [''a'', ''bc'']) = Some (r, b, q)
     \<and> pool_ok q \<and> \<not> sp_building q \<and> (\<forall>i. r = Inr i \<longrightarrow> pool_view q i = ''abc'')"
  using string_pool_builder [OF string_pool_init_ok(1,3), of all_memory 8 4 "[''a'', ''bc'']" "''x''"] by fastforce


end
