(* ===== verification/Cbor.thy ===== *)
theory Cbor
  imports Microfmt_Prelude
begin

text \<open>
  \<^verbatim>\<open>formatters/cbor.hpp\<close>: the streaming writer of CBOR maps and arrays. Every call writes to a sink,
  so an operation is the list of chunks it writes, and a writer has one bit of state, whether its
  container is closed. The calls of a program on a writer and on the writers nested in it are a tree
  (\<open>map_call\<close>, \<open>array_call\<close>), which \<open>run_map_calls\<close> performs with the scoping of the C++ objects. The meaning of
  the bytes is the decoder of RFC 8949 for the items that the writers produce.
\<close>

section \<open>Headers\<close>

definition MT_UNSIGNED :: u8 where "MT_UNSIGNED = 0x00"

definition MT_NEGATIVE :: u8 where "MT_NEGATIVE = 0x20"

definition MT_BYTES :: u8 where "MT_BYTES = 0x40"

definition MT_TEXT :: u8 where "MT_TEXT = 0x60"

definition MT_ARRAY :: u8 where "MT_ARRAY = 0x80"

definition MT_MAP :: u8 where "MT_MAP = 0xA0"

definition MT_SIMPLE :: u8 where "MT_SIMPLE = 0xE0"

definition BREAK_BYTE :: u8 where "BREAK_BYTE = 0xFF"

definition put_byte :: "u8 \<Rightarrow> chunks" where
  "put_byte b = put (chr (unat b))"

definition put_shifted :: "u64 \<Rightarrow> nat \<Rightarrow> chunks" where
  "put_shifted val shift = put (chr (unat (and (drop_bit shift val) 0xFF)))"

fun header_loop :: "u64 \<Rightarrow> nat \<Rightarrow> chunks" where
  "header_loop val shift = put_shifted val shift @ (if shift < 8 then [] else header_loop val (shift - 8))"

declare header_loop.simps [simp del]

definition encode_header :: "u8 \<Rightarrow> u64 \<Rightarrow> chunks" where
  "encode_header major val =
     (if val < 24 then put_byte (or major (ucast val))
      else if val \<le> 0xFF then put_byte (or major 24) @ put_byte (ucast val)
      else if val \<le> 0xFFFF then put_byte (or major 25) @ put_shifted val 8 @ put_shifted val 0
      else if val \<le> 0xFFFFFFFF
      then put_byte (or major 26) @ put_shifted val 24 @ put_shifted val 16 @ put_shifted val 8 @ put_shifted val 0
      else put_byte (or major 27) @ header_loop val 56)"

section \<open>Writers\<close>

record cbor_writer =
  cw_closed :: bool

definition map_writer_new :: "cbor_writer \<times> chunks" where
  "map_writer_new = (\<lparr>cw_closed = False\<rparr>, put_byte (or MT_MAP 31))"

definition array_writer_new :: "cbor_writer \<times> chunks" where
  "array_writer_new = (\<lparr>cw_closed = False\<rparr>, put_byte (or MT_ARRAY 31))"

definition writer_end :: "cbor_writer \<Rightarrow> cbor_writer \<times> chunks" where
  "writer_end w = (if \<not> cw_closed w then (w\<lparr>cw_closed := True\<rparr>, put_byte BREAK_BYTE) else (w, []))"

text \<open>The move constructor: the new writer and the one moved from.\<close>

definition writer_move :: "cbor_writer \<Rightarrow> cbor_writer \<times> cbor_writer" where
  "writer_move other = (\<lparr>cw_closed = cw_closed other\<rparr>, other\<lparr>cw_closed := True\<rparr>)"

section \<open>Keys and values of maps\<close>

definition map_key :: "string \<Rightarrow> chunks" where
  "map_key k = encode_header MT_TEXT (of_nat (length k)) @ out_write k"

definition map_int_key :: "u32 \<Rightarrow> chunks" where
  "map_int_key k = encode_header MT_UNSIGNED (ucast k)"

definition map_kv_text :: "string \<Rightarrow> string \<Rightarrow> chunks" where
  "map_kv_text k v = map_key k @ encode_header MT_TEXT (of_nat (length v)) @ out_write v"

definition map_kv_cstr :: "string \<Rightarrow> string option \<Rightarrow> chunks" where
  "map_kv_cstr k v = map_key k @
     (case v of None \<Rightarrow> put_byte (or MT_SIMPLE 22)
      | Some s \<Rightarrow> encode_header MT_TEXT (of_nat (length s)) @ out_write s)"

definition map_kv_bytes :: "string \<Rightarrow> u8 list \<Rightarrow> chunks" where
  "map_kv_bytes k bytes = map_key k @ encode_header MT_BYTES (of_nat (length bytes)) @ concat (map put_byte bytes)"

definition map_kv_bool :: "string \<Rightarrow> bool \<Rightarrow> chunks" where
  "map_kv_bool k v = map_key k @ put_byte (or MT_SIMPLE (if v then 21 else 20))"

definition map_kv_null :: "string \<Rightarrow> chunks" where
  "map_kv_null k = map_key k @ put_byte (or MT_SIMPLE 22)"

text \<open>An integer of at most 64 bits, extended to 64 bits, with the signedness of its type.\<close>

definition map_kv_int :: "string \<Rightarrow> bool \<Rightarrow> u64 \<Rightarrow> chunks" where
  "map_kv_int k is_signed v = map_key k @
     (if is_signed
      then if sint v < 0 then encode_header MT_NEGATIVE (-1 - v) else encode_header MT_UNSIGNED v
      else encode_header MT_UNSIGNED v)"

definition map_int_kv_int :: "u32 \<Rightarrow> bool \<Rightarrow> u64 \<Rightarrow> chunks" where
  "map_int_kv_int k is_signed v = map_int_key k @
     (if is_signed
      then if sint v < 0 then encode_header MT_NEGATIVE (-1 - v) else encode_header MT_UNSIGNED v
      else encode_header MT_UNSIGNED v)"

definition map_nested_map :: "string \<Rightarrow> cbor_writer \<times> chunks" where
  "map_nested_map k = (let (w, opening) = map_writer_new in (w, map_key k @ opening))"

definition map_nested_array :: "string \<Rightarrow> cbor_writer \<times> chunks" where
  "map_nested_array k = (let (w, opening) = array_writer_new in (w, map_key k @ opening))"

section \<open>Values of arrays\<close>

definition array_val_text :: "string \<Rightarrow> chunks" where
  "array_val_text v = encode_header MT_TEXT (of_nat (length v)) @ out_write v"

definition array_val_cstr :: "string option \<Rightarrow> chunks" where
  "array_val_cstr v =
     (case v of None \<Rightarrow> put_byte (or MT_SIMPLE 22)
      | Some s \<Rightarrow> encode_header MT_TEXT (of_nat (length s)) @ out_write s)"

definition array_val_bytes :: "u8 list \<Rightarrow> chunks" where
  "array_val_bytes bytes = encode_header MT_BYTES (of_nat (length bytes)) @ concat (map put_byte bytes)"

definition array_val_bool :: "bool \<Rightarrow> chunks" where
  "array_val_bool v = put_byte (or MT_SIMPLE (if v then 21 else 20))"

definition array_val_null :: chunks where
  "array_val_null = put_byte (or MT_SIMPLE 22)"

definition array_val_int :: "bool \<Rightarrow> u64 \<Rightarrow> chunks" where
  "array_val_int is_signed v =
     (if is_signed
      then if sint v < 0 then encode_header MT_NEGATIVE (-1 - v) else encode_header MT_UNSIGNED v
      else encode_header MT_UNSIGNED v)"

definition array_map :: "cbor_writer \<times> chunks" where
  "array_map = map_writer_new"

section \<open>Programs\<close>

text \<open>The value of a \<open>kv\<close> or \<open>val\<close> call by overload, and the calls on a writer. A nested writer carries the
  calls made on it and whether the program ends it itself before its destructor does.\<close>

datatype cbor_scalar =
  Text string | Cstr "string option" | Bytes "u8 list" | Boolean bool | Null | Integer bool u64

datatype map_call =
  Kv string cbor_scalar | Kv_int u32 bool u64
| Nested_map string "map_call list" bool | Nested_array string "array_call list" bool
and array_call =
  Val cbor_scalar | Map_in_array "map_call list" bool

fun map_kv :: "string \<Rightarrow> cbor_scalar \<Rightarrow> chunks" where
  "map_kv k (Text s) = map_kv_text k s"
| "map_kv k (Cstr s) = map_kv_cstr k s"
| "map_kv k (Bytes bs) = map_kv_bytes k bs"
| "map_kv k (Boolean b) = map_kv_bool k b"
| "map_kv k Null = map_kv_null k"
| "map_kv k (Integer sg v) = map_kv_int k sg v"

fun array_val :: "cbor_scalar \<Rightarrow> chunks" where
  "array_val (Text s) = array_val_text s"
| "array_val (Cstr s) = array_val_cstr s"
| "array_val (Bytes bs) = array_val_bytes bs"
| "array_val (Boolean b) = array_val_bool b"
| "array_val Null = array_val_null"
| "array_val (Integer sg v) = array_val_int sg v"

text \<open>The life of a writer: constructor, calls, perhaps an explicit \<^verbatim>\<open>end\<close>, destructor.\<close>

definition scoped :: "cbor_writer \<times> chunks \<Rightarrow> chunks \<Rightarrow> bool \<Rightarrow> chunks" where
  "scoped created body explicit =
     (let (w, opening) = created;
          (w1, c1) = (if explicit then writer_end w else (w, []));
          (w2, c2) = writer_end w1
      in opening @ body @ c1 @ c2)"

fun run_map_call :: "map_call \<Rightarrow> chunks"
  and run_map_calls :: "map_call list \<Rightarrow> chunks"
  and run_array_call :: "array_call \<Rightarrow> chunks"
  and run_array_calls :: "array_call list \<Rightarrow> chunks" where
  "run_map_call (Kv k v) = map_kv k v"
| "run_map_call (Kv_int k sg v) = map_int_kv_int k sg v"
| "run_map_call (Nested_map k cs e) = scoped (map_nested_map k) (run_map_calls cs) e"
| "run_map_call (Nested_array k cs e) = scoped (map_nested_array k) (run_array_calls cs) e"
| "run_map_calls [] = []"
| "run_map_calls (c # cs) = run_map_call c @ run_map_calls cs"
| "run_array_call (Val v) = array_val v"
| "run_array_call (Map_in_array cs e) = scoped array_map (run_map_calls cs) e"
| "run_array_calls [] = []"
| "run_array_calls (c # cs) = run_array_call c @ run_array_calls cs"

definition format_cbor_map :: "map_call list \<Rightarrow> bool \<Rightarrow> chunks" where
  "format_cbor_map cs e = scoped map_writer_new (run_map_calls cs) e"

section \<open>Reference decoder\<close>

datatype cbor_item =
  Item_int int | Item_bytes string | Item_text string | Item_bool bool | Item_null
| Item_array "cbor_item list" | Item_map "(cbor_item \<times> cbor_item) list"

definition big_endian :: "string \<Rightarrow> nat" where
  "big_endian s = foldl (\<lambda>n c. n * 256 + code c) 0 s"

definition split_exact :: "nat \<Rightarrow> string \<Rightarrow> (string \<times> string) option" where
  "split_exact n s = (if length s < n then None else Some (take n s, drop n s))"

text \<open>The argument that the additional information of the initial byte announces.\<close>

definition read_argument :: "nat \<Rightarrow> string \<Rightarrow> (nat \<times> string) option" where
  "read_argument info s =
     (if info < 24 then Some (info, s)
      else if info < 28 then map_option (\<lambda>(a, r). (big_endian a, r)) (split_exact (2 ^ (info - 24)) s)
      else None)"

definition decode_scalar :: "nat \<Rightarrow> nat \<Rightarrow> string \<Rightarrow> (cbor_item \<times> string) option" where
  "decode_scalar major n s =
     (if major = 0 then Some (Item_int (int n), s)
      else if major = 1 then Some (Item_int (- 1 - int n), s)
      else if major = 2 then map_option (\<lambda>(a, r). (Item_bytes a, r)) (split_exact n s)
      else if major = 3 then map_option (\<lambda>(a, r). (Item_text a, r)) (split_exact n s)
      else if major = 7 \<and> n = 20 then Some (Item_bool False, s)
      else if major = 7 \<and> n = 21 then Some (Item_bool True, s)
      else if major = 7 \<and> n = 22 then Some (Item_null, s)
      else None)"

fun decode_item :: "nat \<Rightarrow> string \<Rightarrow> (cbor_item \<times> string) option"
  and decode_items :: "nat \<Rightarrow> string \<Rightarrow> (cbor_item list \<times> string) option"
  and decode_pairs :: "nat \<Rightarrow> string \<Rightarrow> ((cbor_item \<times> cbor_item) list \<times> string) option" where
  "decode_item 0 s = None"
| "decode_item (Suc fuel) s =
     (case s of [] \<Rightarrow> None
      | c # r \<Rightarrow>
          if code c = 0x9F then map_option (\<lambda>(xs, t). (Item_array xs, t)) (decode_items fuel r)
          else if code c = 0xBF then map_option (\<lambda>(xs, t). (Item_map xs, t)) (decode_pairs fuel r)
          else (case read_argument (code c mod 32) r of None \<Rightarrow> None
                | Some (n, t) \<Rightarrow> decode_scalar (code c div 32) n t))"
| "decode_items 0 s = None"
| "decode_items (Suc fuel) s =
     (case s of [] \<Rightarrow> None
      | c # r \<Rightarrow>
          if code c = 0xFF then Some ([], r)
          else (case decode_item fuel s of None \<Rightarrow> None
                | Some (x, t) \<Rightarrow> map_option (\<lambda>(xs, u). (x # xs, u)) (decode_items fuel t)))"
| "decode_pairs 0 s = None"
| "decode_pairs (Suc fuel) s =
     (case s of [] \<Rightarrow> None
      | c # r \<Rightarrow>
          if code c = 0xFF then Some ([], r)
          else (case decode_item fuel s of None \<Rightarrow> None
                | Some (k, t) \<Rightarrow> (case decode_item fuel t of None \<Rightarrow> None
                    | Some (v, u) \<Rightarrow> map_option (\<lambda>(xs, w). ((k, v) # xs, w)) (decode_pairs fuel u))))"

definition cbor_decode :: "string \<Rightarrow> (cbor_item \<times> string) option" where
  "cbor_decode s = decode_item (length s) s"

text \<open>The document that a program writes.\<close>

fun scalar_item :: "cbor_scalar \<Rightarrow> cbor_item" where
  "scalar_item (Text s) = Item_text s"
| "scalar_item (Cstr s) = (case s of None \<Rightarrow> Item_null | Some t \<Rightarrow> Item_text t)"
| "scalar_item (Bytes bs) = Item_bytes (map (\<lambda>b. chr (unat b)) bs)"
| "scalar_item (Boolean b) = Item_bool b"
| "scalar_item Null = Item_null"
| "scalar_item (Integer sg v) = Item_int (if sg then sint v else uint v)"

fun map_call_item :: "map_call \<Rightarrow> cbor_item \<times> cbor_item"
  and array_call_item :: "array_call \<Rightarrow> cbor_item" where
  "map_call_item (Kv k v) = (Item_text k, scalar_item v)"
| "map_call_item (Kv_int k sg v) = (Item_int (uint k), Item_int (if sg then sint v else uint v))"
| "map_call_item (Nested_map k cs e) = (Item_text k, Item_map (map map_call_item cs))"
| "map_call_item (Nested_array k cs e) = (Item_text k, Item_array (map array_call_item cs))"
| "array_call_item (Val v) = scalar_item v"
| "array_call_item (Map_in_array cs e) = Item_map (map map_call_item cs)"

text \<open>Texts that fit an address space of 64 bits.\<close>

fun scalar_fits :: "cbor_scalar \<Rightarrow> bool" where
  "scalar_fits (Text s) = (length s < 2 ^ 64)"
| "scalar_fits (Cstr s) = (case s of None \<Rightarrow> True | Some t \<Rightarrow> length t < 2 ^ 64)"
| "scalar_fits (Bytes bs) = (length bs < 2 ^ 64)"
| "scalar_fits _ = True"

fun map_call_fits :: "map_call \<Rightarrow> bool" and array_call_fits :: "array_call \<Rightarrow> bool" where
  "map_call_fits (Kv k v) = (length k < 2 ^ 64 \<and> scalar_fits v)"
| "map_call_fits (Kv_int k sg v) = True"
| "map_call_fits (Nested_map k cs e) = (length k < 2 ^ 64 \<and> list_all map_call_fits cs)"
| "map_call_fits (Nested_array k cs e) = (length k < 2 ^ 64 \<and> list_all array_call_fits cs)"
| "array_call_fits (Val v) = scalar_fits v"
| "array_call_fits (Map_in_array cs e) = list_all map_call_fits cs"

section \<open>Headers decode to what they encode\<close>

lemma initial_bytes:
  "list_all (\<lambda>m. list_all (\<lambda>n. unat (or (of_nat m :: u8) (of_nat n)) = m + n) [0..<32]) [0, 32, 64, 96, 128, 160, 224]"
  by code_simp

definition major_type :: "u8 \<Rightarrow> bool" where
  "major_type m \<longleftrightarrow> unat m \<in> {0, 32, 64, 96, 128, 160, 224}"

lemma major_types [simp]:
  "major_type MT_UNSIGNED" "major_type MT_NEGATIVE" "major_type MT_BYTES" "major_type MT_TEXT" "major_type MT_SIMPLE"
  by (simp_all add: major_type_def MT_UNSIGNED_def MT_NEGATIVE_def MT_BYTES_def MT_TEXT_def MT_SIMPLE_def)

lemma major_numbers [simp]:
  "unat MT_UNSIGNED div 32 = 0" "unat MT_NEGATIVE div 32 = 1" "unat MT_BYTES div 32 = 2" "unat MT_TEXT div 32 = 3"
  "unat MT_SIMPLE div 32 = 7"
  by (simp_all add: MT_UNSIGNED_def MT_NEGATIVE_def MT_BYTES_def MT_TEXT_def MT_SIMPLE_def)

lemma unat_or_major:
  assumes "major_type m" and "n < 32"
  shows "unat (or m (of_nat n)) = unat m + n"
proof -
  have "unat m \<in> set [0, 32, 64, 96, 128, 160, 224]" using assms(1) by (simp add: major_type_def)
  moreover have "n \<in> set [0..<32]" using assms(2) by simp
  ultimately have "unat (or (of_nat (unat m) :: u8) (of_nat n)) = unat m + n"
    using initial_bytes unfolding list_all_iff by blast
  then show ?thesis by simp
qed

lemma initial_byte:
  assumes "major_type m" and "n < 32"
  shows "code (chr (unat (or m (of_nat n)))) mod 32 = n" and "code (chr (unat (or m (of_nat n)))) div 32 = unat m div 32"
    and "n < 31 \<Longrightarrow> code (chr (unat (or m (of_nat n)))) \<notin> {0x9F, 0xBF, 0xFF}"
proof -
  have u: "unat m + n < 256" and d: "unat m mod 32 = 0" using assms by (auto simp: major_type_def)
  have c: "code (chr (unat (or m (of_nat n)))) = unat m + n" using u by (simp only: unat_or_major [OF assms] code_chr)
  obtain q where q: "unat m = 32 * q" using d by (metis mod_0_imp_dvd dvdE)
  show "code (chr (unat (or m (of_nat n)))) mod 32 = n" using assms(2) by (simp only: c q) simp
  show "code (chr (unat (or m (of_nat n)))) div 32 = unat m div 32" using assms(2) by (simp only: c q) simp
  show "n < 31 \<Longrightarrow> code (chr (unat (or m (of_nat n)))) \<notin> {0x9F, 0xBF, 0xFF}" using assms(1) unfolding c by (auto simp: major_type_def)
qed

lemma put_shifted_code: "put_shifted val k = [[chr (unat val div 2 ^ k mod 256)]]"
proof -
  have "and (drop_bit k val) 0xFF = take_bit 8 (drop_bit k val)" by (simp add: take_bit_eq_mask mask_eq_exp_minus_1)
  then have "unat (and (drop_bit k val) 0xFF) = take_bit 8 (unat (drop_bit k val))" by (simp only: unsigned_take_bit_eq)
  then have "unat (and (drop_bit k val) 0xFF) = unat val div 2 ^ k mod 256"
    by (simp only: unat_drop_bit_div take_bit_eq_mod) simp
  then show ?thesis by (simp only: put_shifted_def)
qed

lemma horner_step: "x div (256 * d) * 256 + x div d mod 256 = x div d" for x d :: nat
  by (metis div_mult2_eq div_mult_mod_eq mult.commute)

text \<open>The bytes of a header behind its initial byte, and their number.\<close>

lemma code_byte [simp]: "code (chr (n mod 256)) = n mod 256"
  by simp

lemma bytes2: "x < 2 ^ 16 \<Longrightarrow> big_endian [chr (x div 2 ^ 8 mod 256), chr (x div 2 ^ 0 mod 256)] = x"
  using horner_step [of x 1] by (simp add: big_endian_def)

lemma bytes4:
  "x < 2 ^ 32 \<Longrightarrow> big_endian [chr (x div 2 ^ 24 mod 256), chr (x div 2 ^ 16 mod 256), chr (x div 2 ^ 8 mod 256), chr (x div 2 ^ 0 mod 256)] = x"
  using horner_step [of x 1] horner_step [of x "2 ^ 8"] horner_step [of x "2 ^ 16"]
  by (simp add: big_endian_def)

lemma bytes8:
  assumes "x < 2 ^ 64"
  shows "big_endian (map (\<lambda>k. chr (x div 2 ^ k mod 256)) [56, 48, 40, 32, 24, 16, 8, 0]) = x"
proof -
  have "x div 2 ^ 56 < 256" using assms by (simp add: less_mult_imp_div_less)
  then have top: "x div 72057594037927936 mod 256 = x div 72057594037927936" by simp
  show ?thesis
    using horner_step [of x 1] horner_step [of x "2 ^ 8"] horner_step [of x "2 ^ 16"] horner_step [of x "2 ^ 24"]
      horner_step [of x "2 ^ 32"] horner_step [of x "2 ^ 40"] horner_step [of x "2 ^ 48"]
    by (simp add: big_endian_def top)
qed

lemma header_loop_bytes: "concat (header_loop val 56) = map (\<lambda>k. chr (unat val div 2 ^ k mod 256)) [56, 48, 40, 32, 24, 16, 8, 0]"
  by (simp add: header_loop.simps put_shifted_code)

lemma ucast_byte: "(ucast val :: u8) = of_nat (unat val)" for val :: u64
  by simp

lemma encode_header_decodes:
  assumes "major_type m"
  obtains n r where "n < 28" "\<And>s. concat (encode_header m val) @ s = chr (unat (or m (of_nat n))) # r @ s"
    "\<And>s. read_argument n (r @ s) = Some (unat val, s)"
proof -
  consider (a) "val < 24" | (b) "\<not> val < 24" "val \<le> 0xFF" | (c) "\<not> val \<le> 0xFF" "val \<le> 0xFFFF"
    | (d) "\<not> val \<le> 0xFFFF" "val \<le> 0xFFFFFFFF" | (e) "\<not> val \<le> 0xFFFFFFFF" by blast
  then show thesis
  proof cases
    case a
    then have u: "unat val < 24" by (simp add: word_less_nat_alt)
    have "encode_header m val = [[chr (unat (or m (of_nat (unat val))))]]" using a by (simp add: encode_header_def put_byte_def)
    then show thesis using that [of "unat val" "[]"] u by (simp add: read_argument_def)
  next
    case b
    then have u: "unat val < 256" by (simp add: word_le_nat_alt)
    then have "unat (ucast val :: u8) = unat val" by (simp add: unsigned_ucast_eq take_bit_eq_mod)
    then have "encode_header m val = [[chr (unat (or m 24))], [chr (unat val)]]" using b by (simp add: encode_header_def put_byte_def)
    then show thesis using that [of 24 "[chr (unat val)]"] u by (simp add: read_argument_def split_exact_def big_endian_def)
  next
    case c
    then have u: "unat val < 2 ^ 16" by (simp add: word_le_nat_alt)
    from c have "\<not> val < 24" by (simp add: word_less_nat_alt word_le_nat_alt)
    then show thesis using that [of 25 "[chr (unat val div 2 ^ 8 mod 256), chr (unat val div 2 ^ 0 mod 256)]"] c bytes2 [OF u]
      by (simp add: encode_header_def put_byte_def put_shifted_code read_argument_def split_exact_def)
  next
    case d
    then have u: "unat val < 2 ^ 32" by (simp add: word_le_nat_alt)
    from d have "\<not> val < 24" "\<not> val \<le> 0xFF" by (simp_all add: word_less_nat_alt word_le_nat_alt)
    then show thesis using bytes4 [OF u] d
       that [of 26 "[chr (unat val div 2 ^ 24 mod 256), chr (unat val div 2 ^ 16 mod 256), chr (unat val div 2 ^ 8 mod 256), chr (unat val div 2 ^ 0 mod 256)]"]
      by (simp add: encode_header_def put_byte_def put_shifted_code read_argument_def split_exact_def)
  next
    case e
    have u: "unat val < 2 ^ 64" using unsigned_less [of val, where 'a = nat] by simp
    from e have "\<not> val < 24" "\<not> val \<le> 0xFF" "\<not> val \<le> 0xFFFF" by (simp_all add: word_less_nat_alt word_le_nat_alt)
    then have h: "concat (encode_header m val) = chr (unat (or m 27)) # concat (header_loop val 56)"
      using e by (simp add: encode_header_def put_byte_def)
    have "length (concat (header_loop val 56)) = 8" by (simp add: header_loop_bytes)
    moreover have "big_endian (concat (header_loop val 56)) = unat val" using bytes8 [OF u] by (simp only: header_loop_bytes)
    ultimately have "read_argument 27 (concat (header_loop val 56) @ s) = Some (unat val, s)" for s
      by (simp add: read_argument_def split_exact_def)
    then show thesis using that [of 27 "concat (header_loop val 56)"] h by simp
  qed
qed


section \<open>Byte strings that decode to an item\<close>

text \<open>\<open>encodes b x\<close>: whatever follows \<open>b\<close>, and with any fuel from its length on, the decoder reads \<open>b\<close> as \<open>x\<close>.
  The other two are for the contents of a container up to its break byte.\<close>

definition encodes :: "string \<Rightarrow> cbor_item \<Rightarrow> bool" where
  "encodes b x \<longleftrightarrow> b \<noteq> [] \<and> code (hd b) \<noteq> 0xFF \<and> (\<forall>fuel s. length b \<le> fuel \<longrightarrow> decode_item fuel (b @ s) = Some (x, s))"

definition encodes_items :: "string \<Rightarrow> cbor_item list \<Rightarrow> bool" where
  "encodes_items b xs \<longleftrightarrow> (\<forall>fuel s. length b < fuel \<longrightarrow> decode_items fuel (b @ chr 255 # s) = Some (xs, s))"

definition encodes_pairs :: "string \<Rightarrow> (cbor_item \<times> cbor_item) list \<Rightarrow> bool" where
  "encodes_pairs b xs \<longleftrightarrow> (\<forall>fuel s. length b < fuel \<longrightarrow> decode_pairs fuel (b @ chr 255 # s) = Some (xs, s))"

lemma encodes_header:
  assumes "major_type m" and "\<And>s. decode_scalar (unat m div 32) (unat val) (t @ s) = Some (x, s)"
  shows "encodes (concat (encode_header m val) @ t) x"
proof -
  obtain n r where n: "n < 28" and h: "\<And>s. concat (encode_header m val) @ s = chr (unat (or m (of_nat n))) # r @ s"
    and a: "\<And>s. read_argument n (r @ s) = Some (unat val, s)" 
    by (rule encode_header_decodes [OF assms(1), of val]) (rule that)
  let ?c = "chr (unat (or m (of_nat n)))"
  have b: "concat (encode_header m val) @ t = ?c # r @ t" by (rule h)
  have c: "code ?c mod 32 = n" "code ?c div 32 = unat m div 32" "code ?c \<noteq> 0x9F" "code ?c \<noteq> 0xBF" "code ?c \<noteq> 0xFF"
    using initial_byte [OF assms(1), of n] n by auto
  have "decode_item (Suc fuel) (?c # (r @ t) @ s) = Some (x, s)" for fuel s
    using c a [of "t @ s"] assms(2) by (simp del: of_char_of)
  then show ?thesis unfolding encodes_def b using c(5) by (auto simp del: of_char_of dest!: Suc_le_D)
qed

lemma encodes_text:
  "length v < 2 ^ 64 \<Longrightarrow> encodes (concat (encode_header MT_TEXT (of_nat (length v))) @ v) (Item_text v)"
  by (rule encodes_header) (simp_all add: decode_scalar_def split_exact_def unat_of_nat)

lemma concat_put_bytes: "concat (concat (map put_byte bs)) = map (\<lambda>b. chr (unat b)) bs"
  by (induction bs) (simp_all add: put_byte_def)

lemma encodes_bytes:
  "length bs < 2 ^ 64 \<Longrightarrow>
   encodes (concat (encode_header MT_BYTES (of_nat (length bs))) @ map (\<lambda>b. chr (unat b)) bs) (Item_bytes (map (\<lambda>b. chr (unat b)) bs))"
  by (rule encodes_header) (simp_all add: decode_scalar_def split_exact_def unat_of_nat)

lemma encodes_unsigned: "encodes (concat (encode_header MT_UNSIGNED v)) (Item_int (uint v))"
  using encodes_header [of MT_UNSIGNED v "[]" "Item_int (uint v)"] by (simp add: decode_scalar_def)

lemma unat_minus_one:
  fixes v :: u64
  assumes "sint v < 0"
  shows "int (unat (-1 - v)) = -1 - sint v"
proof -
  have b: "- (2 ^ 63) \<le> sint v" using sint_greater_eq [of v] by simp
  have "-1 - v = word_of_int (-1 - sint v)" by simp
  then have "uint (-1 - v) = (-1 - sint v) mod 2 ^ 64" by (simp only: uint_word_of_int) simp
  also have "\<dots> = -1 - sint v" using assms b by (intro mod_pos_pos_trivial) simp_all
  finally show ?thesis by simp
qed

lemma uint_sint_nonneg: "0 \<le> sint v \<Longrightarrow> uint v = sint v" for v :: u64
proof -
  assume "0 \<le> sint v"
  moreover have "sint v < 2 ^ 63" using sint_less [of v] by simp
  moreover have "uint v = sint v mod 2 ^ 64" by (simp add: uint_sint take_bit_eq_mod)
  ultimately show ?thesis by simp
qed

lemma encodes_negative: "sint v < 0 \<Longrightarrow> encodes (concat (encode_header MT_NEGATIVE (-1 - v))) (Item_int (sint v))"
  using encodes_header [of MT_NEGATIVE "-1 - v" "[]" "Item_int (sint v)"] unat_minus_one [of v]
  by (simp add: decode_scalar_def)

lemma encodes_int: "encodes (concat (array_val_int sg v)) (Item_int (if sg then sint v else uint v))"
  using encodes_unsigned [of v] encodes_negative [of v] uint_sint_nonneg [of v]
  by (auto simp: array_val_int_def not_less)

lemma encodes_simple:
  assumes "n < 24" and "\<And>s. decode_scalar 7 n s = Some (x, s)"
  shows "encodes [chr (unat (or MT_SIMPLE (of_nat n)))] x"
proof -
  have u: "unat (of_nat n :: u64) = n" using assms(1) by (simp add: unat_of_nat)
  have "(of_nat n :: u64) < 24" using assms(1) u by (simp add: word_less_nat_alt)
  moreover have "(ucast (of_nat n :: u64) :: u8) = of_nat n" using ucast_byte [of "of_nat n"] u by (simp only:)
  ultimately have "concat (encode_header MT_SIMPLE (of_nat n)) = [chr (unat (or MT_SIMPLE (of_nat n)))]"
    by (simp add: encode_header_def put_byte_def)
  then show ?thesis using encodes_header [of MT_SIMPLE "of_nat n" "[]" x] assms(2) u by simp
qed

lemma encodes_scalar:
  assumes "scalar_fits v"
  shows "encodes (concat (array_val v)) (scalar_item v)"
proof -
  have s: "encodes [chr (unat (or MT_SIMPLE 20))] (Item_bool False)" "encodes [chr (unat (or MT_SIMPLE 21))] (Item_bool True)"
    "encodes [chr (unat (or MT_SIMPLE 22))] Item_null"
    using encodes_simple [of 20 "Item_bool False"] encodes_simple [of 21 "Item_bool True"] encodes_simple [of 22 Item_null]
    by (simp_all add: decode_scalar_def)
  show ?thesis
  proof (cases v)
    case (Text t)
    then show ?thesis using encodes_text [of t] assms by (simp add: array_val_text_def)
  next
    case (Cstr c)
    then show ?thesis using encodes_text assms s(3) by (cases c) (simp_all add: array_val_cstr_def put_byte_def)
  next
    case (Bytes bs)
    then show ?thesis using encodes_bytes [of bs] assms by (simp add: array_val_bytes_def concat_put_bytes)
  qed (use s encodes_int in \<open>simp_all add: array_val_bool_def array_val_null_def put_byte_def\<close>)
qed

lemma map_kv_split: "map_kv k v = map_key k @ array_val v"
  by (cases v) (simp_all add: map_kv_text_def map_kv_cstr_def map_kv_bytes_def map_kv_bool_def map_kv_null_def map_kv_int_def
      array_val_text_def array_val_cstr_def array_val_bytes_def array_val_bool_def array_val_null_def array_val_int_def)

lemma encodes_key: "length k < 2 ^ 64 \<Longrightarrow> encodes (concat (map_key k)) (Item_text k)"
  using encodes_text [of k] by (simp add: map_key_def)

section \<open>Containers\<close>

lemma uint_ucast_key: "uint (ucast k :: u64) = uint k" for k :: u32
  by transfer simp

lemma all_from_Suc: "(\<forall>fuel. Suc n \<le> fuel \<longrightarrow> P fuel) \<longleftrightarrow> (\<forall>fuel. n \<le> fuel \<longrightarrow> P (Suc fuel))"
  by (metis Suc_le_D Suc_le_mono)

lemma encodes_nil: "encodes_items [] []" "encodes_pairs [] []"
  by (auto simp: encodes_items_def encodes_pairs_def gr0_conv_Suc)

lemma encodes_items_Cons:
  assumes "encodes b x" and "encodes_items bs xs"
  shows "encodes_items (b @ bs) (x # xs)"
proof -
  obtain c r where b: "b = c # r" "code c \<noteq> 0xFF" using assms(1) by (auto simp: encodes_def neq_Nil_conv)
  have "decode_items (Suc fuel) ((b @ bs) @ chr 255 # s) = Some (x # xs, s)" if "length (b @ bs) \<le> fuel" for fuel s
  proof -
    have "decode_item fuel (b @ bs @ chr 255 # s) = Some (x, bs @ chr 255 # s)" using assms(1) that by (simp add: encodes_def)
    moreover have "decode_items fuel (bs @ chr 255 # s) = Some (xs, s)" using assms(2) that b(1) by (simp add: encodes_items_def)
    ultimately show ?thesis using b by simp
  qed
  then show ?thesis unfolding encodes_items_def by (metis Suc_le_D Suc_le_eq not_less_eq_eq)
qed

lemma encodes_pairs_Cons:
  assumes "encodes kb k" and "encodes vb v" and "encodes_pairs bs xs"
  shows "encodes_pairs (kb @ vb @ bs) ((k, v) # xs)"
proof -
  obtain c r where b: "kb = c # r" "code c \<noteq> 0xFF" using assms(1) by (auto simp: encodes_def neq_Nil_conv)
  have "decode_pairs (Suc fuel) ((kb @ vb @ bs) @ chr 255 # s) = Some ((k, v) # xs, s)" if "length (kb @ vb @ bs) \<le> fuel" for fuel s
  proof -
    have "decode_item fuel (kb @ vb @ bs @ chr 255 # s) = Some (k, vb @ bs @ chr 255 # s)" using assms(1) that by (simp add: encodes_def)
    moreover have "decode_item fuel (vb @ bs @ chr 255 # s) = Some (v, bs @ chr 255 # s)" using assms(2) that by (simp add: encodes_def)
    moreover have "decode_pairs fuel (bs @ chr 255 # s) = Some (xs, s)" using assms(3) that b(1) by (simp add: encodes_pairs_def)
    ultimately show ?thesis using b by simp
  qed
  then show ?thesis unfolding encodes_pairs_def by (metis Suc_le_D Suc_le_eq not_less_eq_eq)
qed

lemma encodes_container:
  "encodes_items b xs \<Longrightarrow> encodes (chr 0x9F # b @ [chr 255]) (Item_array xs)"
  "encodes_pairs b ys \<Longrightarrow> encodes (chr 0xBF # b @ [chr 255]) (Item_map ys)"
  by (simp_all add: encodes_def encodes_items_def encodes_pairs_def all_from_Suc less_eq_Suc_le)

lemma opening_bytes: "unat (or MT_MAP 31) = 0xBF" "unat (or MT_ARRAY 31) = 0x9F" "unat BREAK_BYTE = 255"
  by (simp_all add: MT_MAP_def MT_ARRAY_def BREAK_BYTE_def)

text \<open>However a writer is ended, it writes one break byte.\<close>

lemma scoped_text:
  "concat (scoped map_writer_new body e) = chr 0xBF # concat body @ [chr 255]"
  "concat (scoped (map_nested_map k) body e) = concat (map_key k) @ chr 0xBF # concat body @ [chr 255]"
  "concat (scoped (map_nested_array k) body e) = concat (map_key k) @ chr 0x9F # concat body @ [chr 255]"
  by (simp_all add: scoped_def map_writer_new_def map_nested_map_def map_nested_array_def array_writer_new_def writer_end_def
      put_byte_def opening_bytes Let_def)

lemma run_encodes:
  shows "map_call_fits c \<Longrightarrow> \<exists>kb vb. concat (run_map_call c) = kb @ vb \<and> encodes kb (fst (map_call_item c)) \<and> encodes vb (snd (map_call_item c))"
    and "list_all map_call_fits cs \<Longrightarrow> encodes_pairs (concat (run_map_calls cs)) (map map_call_item cs)"
    and "array_call_fits a \<Longrightarrow> encodes (concat (run_array_call a)) (array_call_item a)"
    and "list_all array_call_fits as \<Longrightarrow> encodes_items (concat (run_array_calls as)) (map array_call_item as)"
proof (induction c and cs and a and as rule: run_map_call_run_map_calls_run_array_call_run_array_calls.induct)
  case (1 k v)
  then show ?case using encodes_key [of k] encodes_scalar [of v] by (auto simp: map_kv_split)
next
  case (2 k sg v)
  have "map_int_kv_int k sg v = map_int_key k @ array_val_int sg v" by (simp add: map_int_kv_int_def array_val_int_def)
  moreover have "encodes (concat (map_int_key k)) (Item_int (uint k))"
    using encodes_unsigned [of "ucast k"] by (simp only: map_int_key_def uint_ucast_key)
  ultimately show ?case using encodes_int [of sg v]
    by (intro exI [of _ "concat (map_int_key k)"] exI [of _ "concat (array_val_int sg v)"]) simp
next
  case (3 k cs e)
  then show ?case using encodes_key [of k] encodes_container(2) by (auto simp: scoped_text)
next
  case (4 k cs e)
  then show ?case using encodes_key [of k] encodes_container(1) by (auto simp: scoped_text)
next
  case 5
  then show ?case by (simp add: encodes_nil)
next
  case (6 c cs)
  then obtain kb vb where "concat (run_map_call c) = kb @ vb" "encodes kb (fst (map_call_item c))" "encodes vb (snd (map_call_item c))" by auto
  then show ?case using 6 encodes_pairs_Cons [of kb "fst (map_call_item c)" vb "snd (map_call_item c)"] by simp
next
  case (7 v)
  then show ?case by (simp add: encodes_scalar)
next
  case (8 cs e)
  then show ?case using encodes_container(2) by (simp add: array_map_def scoped_text)
next
  case 9
  then show ?case by (simp add: encodes_nil)
next
  case (10 c cs)
  then show ?case using encodes_items_Cons by simp
qed

section \<open>Properties\<close>

text \<open>C37: A CBOR map written by any tree of calls, with nested maps and arrays ended explicitly or by their
  destructor, decodes by RFC 8949 to exactly the keys and values of the calls, in their order, and
  what the sink receives afterwards is left over. Integers keep their sign and value up to the ends of the 64-bit
  ranges, whatever the length of their header.\<close>

theorem cbor_map_roundtrip:
  assumes "list_all map_call_fits calls"
  shows "cbor_decode (concat (format_cbor_map calls explicit) @ rest) = Some (Item_map (map map_call_item calls), rest)"
proof -
  have "encodes (concat (format_cbor_map calls explicit)) (Item_map (map map_call_item calls))"
    using encodes_container(2) [OF run_encodes(2) [OF assms]] by (simp add: format_cbor_map_def scoped_text)
  then show ?thesis by (simp add: encodes_def cbor_decode_def)
qed

theorem cbor_map_roundtrip_witness:
  "cbor_decode (concat (format_cbor_map
      [Kv ''t'' (Integer True (-500)), Nested_array ''a'' [Val (Boolean True), Map_in_array [Kv_int 7 False 70000] True] False] False) @ ''x'')
   = Some (Item_map [(Item_text ''t'', Item_int (-500)),
       (Item_text ''a'', Item_array [Item_bool True, Item_map [(Item_int 7, Item_int 70000)]])], ''x'')"
  using cbor_map_roundtrip [of "[Kv ''t'' (Integer True (-500)),
      Nested_array ''a'' [Val (Boolean True), Map_in_array [Kv_int 7 False 70000] True] False]" False "''x''"]
  by simp


end
