(* ===== verification/Token_Stream.thy ===== *)
theory Token_Stream
  imports Lexer
begin

text \<open>
  \<^verbatim>\<open>parsing/token_stream.hpp\<close> (the class \<^verbatim>\<open>token_stream\<close>), \<^verbatim>\<open>parsing/stream_window.hpp\<close> and
  \<^verbatim>\<open>parsing/parse_error.hpp\<close>: two tokens of lookahead over the lexer, on a text in memory or on a window that is
  refilled from a reader. The reader is the caller's: a function of its own state and of the room in the
  window. The field \<open>ts_window\<close> stands for the object behind the pointer, which all copies of a stream
  share; assigning a copy (\<open>ts_assign\<close>) therefore keeps the window of the target.
\<close>

section \<open>Errors\<close>

record parse_error =
  pe_message :: string
  pe_at :: token
  pe_note :: string
  pe_note_at :: token

definition default_token :: token where
  "default_token = \<lparr>tok_kind = T_end, tok_text = [], tok_offset = 0, tok_line = 1, tok_column = 1\<rparr>"

definition parse_error_at :: "string \<Rightarrow> token \<Rightarrow> parse_error" where
  "parse_error_at message at' = \<lparr>pe_message = message, pe_at = at', pe_note = [], pe_note_at = default_token\<rparr>"

definition with_note :: "parse_error \<Rightarrow> string \<Rightarrow> token \<Rightarrow> parse_error" where
  "with_note error note where' = error\<lparr>pe_note := note, pe_note_at := where'\<rparr>"

record source_site =
  site_offset :: nat
  site_line :: u32
  site_column :: u32
  site_length :: u32

record stored_error =
  se_message :: string
  se_at :: source_site
  se_note :: string
  se_note_at :: source_site

definition site_of :: "token \<Rightarrow> source_site" where
  "site_of t = \<lparr>site_offset = tok_offset t, site_line = tok_line t, site_column = tok_column t,
     site_length = of_nat (length (tok_text t))\<rparr>"

definition store_error :: "parse_error \<Rightarrow> stored_error" where
  "store_error error =
     \<lparr>se_message = pe_message error, se_at = site_of (pe_at error), se_note = pe_note error,
      se_note_at = (if pe_note error \<noteq> [] then site_of (pe_note_at error)
                    else \<lparr>site_offset = 0, site_line = 1, site_column = 1, site_length = 0\<rparr>)\<rparr>"

section \<open>stream_window\<close>

text \<open>A call of the reader gives the bytes it stored from the start of the free room on, and the number it reports.\<close>

type_synonym 'r window_reader = "'r \<Rightarrow> nat \<Rightarrow> string \<times> nat \<times> 'r"

record 'r window_state =
  ws_buffer :: string
  ws_reader :: "'r window_reader"
  ws_reader_state :: 'r
  ws_used :: nat
  ws_base :: nat
  ws_generation :: u32
  ws_eof :: bool
  ws_overflowed :: bool

definition window_init :: "nat \<Rightarrow> 'r window_reader \<Rightarrow> 'r \<Rightarrow> 'r window_state" where
  "window_init n reader r =
     \<lparr>ws_buffer = replicate n (CHR 0x00), ws_reader = reader, ws_reader_state = r, ws_used = 0, ws_base = 0,
      ws_generation = 0, ws_eof = False, ws_overflowed = False\<rparr>"

definition window_text :: "'r window_state \<Rightarrow> string" where
  "window_text w = take (ws_used w) (ws_buffer w)"

definition window_read :: "'r window_state \<Rightarrow> 'r window_state" where
  "window_read w =
     (let room = length (ws_buffer w) - ws_used w;
          (bytes, got, r') = ws_reader w (ws_reader_state w) room;
          stored = take room bytes;
          w1 = w\<lparr>ws_reader_state := r',
                 ws_buffer := take (ws_used w) (ws_buffer w) @ stored @ drop (ws_used w + length stored) (ws_buffer w)\<rparr>
      in if got = 0 then w1\<lparr>ws_eof := True\<rparr>
         else w1\<lparr>ws_used := ws_used w + (if got < room then got else room)\<rparr>)"

lemma window_read_buffer [simp]:
  "ws_used w \<le> length (ws_buffer w) \<Longrightarrow> length (ws_buffer (window_read w)) = length (ws_buffer w)"
  by (simp add: window_read_def Let_def min_def split: prod.splits)

text \<open>What bounds the number of reads: the free room, and one read for the end of the input.\<close>

definition window_room :: "'r window_state \<Rightarrow> nat" where
  "window_room w = length (ws_buffer w) - ws_used w + (if ws_eof w then 0 else 1)"

lemma window_read_room:
  "\<not> ws_eof w \<Longrightarrow> ws_used w < length (ws_buffer w) \<Longrightarrow> window_room (window_read w) < window_room w"
  by (auto simp: window_room_def window_read_def Let_def split: prod.splits)

function window_fill :: "nat \<Rightarrow> 'r window_state \<Rightarrow> 'r window_state" where
  "window_fill want w =
     (if \<not> ws_eof w \<and> ws_used w < want \<and> ws_used w < length (ws_buffer w) then window_fill want (window_read w) else w)"
  by pat_completeness auto
termination
  by (relation "measure (\<lambda>(want, w). window_room w)") (simp_all add: window_read_room)

declare window_fill.simps [simp del]

definition window_discard :: "nat \<Rightarrow> 'r window_state \<Rightarrow> 'r window_state" where
  "window_discard n w =
     (if n = 0 \<or> n > ws_used w then w
      else w\<lparr>ws_buffer := take (ws_used w - n) (drop n (ws_buffer w)) @ drop (ws_used w - n) (ws_buffer w),
             ws_used := ws_used w - n, ws_base := ws_base w + n,
             ws_generation := ws_generation w + 1, ws_overflowed := False\<rparr>)"

section \<open>token_stream\<close>

record 'r token_stream =
  ts_source :: string
  ts_lexer :: lexer
  ts_first :: token
  ts_second :: token
  ts_previous :: token
  ts_after_previous :: position
  ts_window :: "'r window_state option"
  ts_has_strings :: bool
  ts_generation :: u32
  ts_margin :: nat
  ts_cut :: bool

definition ts_assign :: "'r token_stream \<Rightarrow> 'r token_stream \<Rightarrow> 'r token_stream" where
  "ts_assign target saved = saved\<lparr>ts_window := ts_window target\<rparr>"

definition stream_margin :: "lexer_rules \<Rightarrow> nat" where
  "stream_margin r =
     (let grow = (\<lambda>margin wanted. if wanted > margin then wanted else margin);
          m1 = foldl (\<lambda>m s. grow m (length s + 2)) 16 (operators r);
          m2 = foldl (\<lambda>m s. grow m (length s + 2)) m1 (string_prefixes r);
          m3 = foldl (\<lambda>m s. grow m (length s + 2)) m2 (number_suffixes r);
          m4 = grow m3 (length (block_comment_open r) + 2);
          m5 = grow m4 (length (block_comment_close r) + 2);
          m6 = (if datetime_literals r then grow m5 40 else m5);
          m7 = (if cpp_raw_strings r then grow m6 24 else m6);
          m8 = (if long_bracket_strings r \<or> long_bracket_comments r then grow m7 64 else m7)
      in if m8 < 64 then m8 else 64)"

definition source_text :: "'r token_stream \<Rightarrow> string" where
  "source_text ts = (case ts_window ts of Some w \<Rightarrow> window_text w | None \<Rightarrow> ts_source ts)"

definition source_base :: "'r token_stream \<Rightarrow> nat" where
  "source_base ts = (case ts_window ts of Some w \<Rightarrow> ws_base w | None \<Rightarrow> 0)"

definition position_after_token :: "'r token_stream \<Rightarrow> token \<Rightarrow> position" where
  "position_after_token ts t = position_after (ts_lexer ts) (t\<lparr>tok_offset := tok_offset t - source_base ts\<rparr>)"

text \<open>The window is full and the token touches its end.\<close>

definition overflow_token :: "lexer \<Rightarrow> 'r window_state \<Rightarrow> token \<Rightarrow> token \<times> lexer \<times> 'r window_state" where
  "overflow_token lx w t =
     (let w1 = w\<lparr>ws_overflowed := True\<rparr>
      in if tok_offset t \<ge> ws_used w
         then (t\<lparr>tok_kind := T_end, tok_text := [], tok_offset := tok_offset t + ws_base w\<rparr>, lx, w1)
         else (let t1 = t\<lparr>tok_kind := T_error, tok_text := drop (tok_offset t) (window_text w)\<rparr>
               in (t1\<lparr>tok_offset := tok_offset t1 + ws_base w\<rparr>, lexer_restore lx (position_after lx t1), w1)))"

lemma window_fill_room: "window_room (window_fill want w) \<le> window_room w"
proof (induction want w rule: window_fill.induct)
  case (1 want w)
  show ?case
  proof (cases "\<not> ws_eof w \<and> ws_used w < want \<and> ws_used w < length (ws_buffer w)")
    case True
    then have "window_room (window_read w) < window_room w" by (intro window_read_room) simp_all
    then show ?thesis using 1 True by (subst window_fill.simps) simp
  next
    case False
    then show ?thesis by (subst window_fill.simps) auto
  qed
qed

lemma window_fill_progress:
  assumes "\<not> ws_eof w" and "ws_used w < want" and "ws_used w < length (ws_buffer w)"
  shows "window_room (window_fill want w) < window_room w"
proof -
  have "window_room (window_read w) < window_room w" using assms by (intro window_read_room) simp_all
  moreover have "window_fill want w = window_fill want (window_read w)" using assms by (subst window_fill.simps) simp
  ultimately show ?thesis using window_fill_room [of want "window_read w"] by simp
qed

function lex_windowed_loop :: "nat \<Rightarrow> lexer \<Rightarrow> 'r window_state \<Rightarrow> token \<times> lexer \<times> 'r window_state" where
  "lex_windowed_loop margin lx w =
     (let lx0 = lexer_set_source lx (window_text w);
          start = lexer_state lx0;
          (t, lx1) = lexer_next lx0;
          end' = tok_offset t + length (tok_text t)
      in if ws_eof w \<or> end' + margin \<le> ws_used w then (t\<lparr>tok_offset := tok_offset t + ws_base w\<rparr>, lx1, w)
         else if ws_used w \<ge> length (ws_buffer w) then overflow_token lx1 w t
         else let want = end' + margin
              in lex_windowed_loop margin (lexer_restore lx1 start)
                   (window_fill (if want < length (ws_buffer w) then want else length (ws_buffer w)) w))"
  by pat_completeness auto
termination
  by (relation "measure (\<lambda>(m, lx, w). window_room w)") (auto intro!: window_fill_progress)

definition lex_windowed :: "'r token_stream \<Rightarrow> 'r window_state \<Rightarrow> token \<times> 'r token_stream" where
  "lex_windowed ts w =
     (if ws_generation w \<noteq> ts_generation ts then (default_token, ts)
      else let (t, lx, w') = lex_windowed_loop (ts_margin ts) (ts_lexer ts) w
           in (t, ts\<lparr>ts_lexer := lx, ts_window := Some w'\<rparr>))"

definition lex_next :: "'r token_stream \<Rightarrow> token \<times> 'r token_stream" where
  "lex_next ts =
     (case ts_window ts of
        None \<Rightarrow> (let (t, lx) = lexer_next (ts_lexer ts) in (t, ts\<lparr>ts_lexer := lx\<rparr>))
      | Some w \<Rightarrow> lex_windowed ts w)"

definition refill :: "'r token_stream \<Rightarrow> 'r token_stream" where
  "refill ts =
     (let ts0 = ts\<lparr>ts_lexer := lexer_restore (ts_lexer ts) (ts_after_previous ts)\<rparr>;
          (t1, ts1) = lex_next ts0; ts1' = ts1\<lparr>ts_first := t1\<rparr>;
          (t2, ts2) = lex_next ts1'
      in ts2\<lparr>ts_second := t2\<rparr>)"

definition token_stream_init :: "string \<Rightarrow> lexer_rules \<Rightarrow> 'r token_stream" where
  "token_stream_init source rules =
     (let (t1, lx1) = lexer_next (lexer_init source rules); (t2, lx2) = lexer_next lx1
      in \<lparr>ts_source = source, ts_lexer = lx2, ts_first = t1, ts_second = t2, ts_previous = default_token,
          ts_after_previous = init_position, ts_window = None, ts_has_strings = False, ts_generation = 0,
          ts_margin = 16, ts_cut = False\<rparr>)"

definition token_stream_windowed :: "'r window_state \<Rightarrow> lexer_rules \<Rightarrow> 'r token_stream" where
  "token_stream_windowed w rules =
     refill \<lparr>ts_source = [], ts_lexer = lexer_init [] rules, ts_first = default_token, ts_second = default_token,
        ts_previous = default_token, ts_after_previous = init_position, ts_window = Some w, ts_has_strings = False,
        ts_generation = ws_generation w, ts_margin = stream_margin rules, ts_cut = False\<rparr>"

definition ts_with_strings :: "'r token_stream \<Rightarrow> 'r token_stream" where
  "ts_with_strings ts = ts\<lparr>ts_has_strings := True\<rparr>"

definition ts_peek :: "'r token_stream \<Rightarrow> token" where
  "ts_peek ts = ts_first ts"

definition ts_peek2 :: "'r token_stream \<Rightarrow> token" where
  "ts_peek2 ts = ts_second ts"

definition ts_next :: "'r token_stream \<Rightarrow> token \<times> 'r token_stream" where
  "ts_next ts =
     (let result = ts_first ts;
          ts1 = (if tok_kind result \<noteq> T_end
                 then ts\<lparr>ts_previous := result, ts_after_previous := position_after_token ts result\<rparr> else ts);
          ts2 = ts1\<lparr>ts_first := ts_second ts1\<rparr>;
          (t, ts3) = lex_next ts2
      in (result, ts3\<lparr>ts_second := t\<rparr>))"

definition ts_at_end :: "'r token_stream \<Rightarrow> bool" where
  "ts_at_end ts \<longleftrightarrow> tok_kind (ts_first ts) = T_end"

definition ts_check :: "'r token_stream \<Rightarrow> token_kind \<Rightarrow> bool" where
  "ts_check ts kind \<longleftrightarrow> tok_kind (ts_first ts) = kind"

definition ts_check_text :: "'r token_stream \<Rightarrow> token_kind \<Rightarrow> string \<Rightarrow> bool" where
  "ts_check_text ts kind txt' \<longleftrightarrow> tok_kind (ts_first ts) = kind \<and> tok_text (ts_first ts) = txt'"

definition ts_accept :: "'r token_stream \<Rightarrow> token_kind \<Rightarrow> token option \<times> 'r token_stream" where
  "ts_accept ts kind =
     (if \<not> ts_check ts kind then (None, ts) else let (t, ts') = ts_next ts in (Some t, ts'))"

definition ts_accept_text :: "'r token_stream \<Rightarrow> token_kind \<Rightarrow> string \<Rightarrow> token option \<times> 'r token_stream" where
  "ts_accept_text ts kind txt' =
     (if \<not> ts_check_text ts kind txt' then (None, ts) else let (t, ts') = ts_next ts in (Some t, ts'))"

definition ts_skip :: "'r token_stream \<Rightarrow> token_kind \<Rightarrow> bool \<times> 'r token_stream" where
  "ts_skip ts kind = (if \<not> ts_check ts kind then (False, ts) else (True, snd (ts_next ts)))"

definition ts_skip_text :: "'r token_stream \<Rightarrow> token_kind \<Rightarrow> string \<Rightarrow> bool \<times> 'r token_stream" where
  "ts_skip_text ts kind txt' = (if \<not> ts_check_text ts kind txt' then (False, ts) else (True, snd (ts_next ts)))"

definition error_here :: "'r token_stream \<Rightarrow> string \<Rightarrow> parse_error" where
  "error_here ts message = parse_error_at message (ts_first ts)"

definition ts_expect :: "'r token_stream \<Rightarrow> token_kind \<Rightarrow> string \<Rightarrow> (parse_error + token) \<times> 'r token_stream" where
  "ts_expect ts kind message =
     (if \<not> ts_check ts kind then (Inl (error_here ts message), ts) else let (t, ts') = ts_next ts in (Inr t, ts'))"

definition ts_expect_text ::
    "'r token_stream \<Rightarrow> token_kind \<Rightarrow> string \<Rightarrow> string \<Rightarrow> (parse_error + token) \<times> 'r token_stream" where
  "ts_expect_text ts kind txt' message =
     (if \<not> ts_check_text ts kind txt' then (Inl (error_here ts message), ts)
      else let (t, ts') = ts_next ts in (Inr t, ts'))"

definition ts_set_rules :: "'r token_stream \<Rightarrow> lexer_rules \<Rightarrow> 'r token_stream" where
  "ts_set_rules ts rules =
     refill (ts\<lparr>ts_lexer := lexer_set_rules (ts_lexer ts) rules, ts_margin := stream_margin rules\<rparr>)"

definition drop_bytes :: "nat \<Rightarrow> 'r window_state \<Rightarrow> 'r token_stream \<Rightarrow> 'r token_stream" where
  "drop_bytes n w ts =
     (if n = 0 then ts
      else let w' = window_discard n w
           in ts\<lparr>ts_window := Some w', ts_generation := ws_generation w',
                 ts_after_previous := (ts_after_previous ts)\<lparr>p_pos := p_pos (ts_after_previous ts) - n\<rparr>,
                 ts_previous := (ts_previous ts)\<lparr>tok_text := []\<rparr>\<rparr>)"

function take_raw_loop :: "string \<Rightarrow> lexer \<Rightarrow> 'r window_state \<Rightarrow> token \<times> bool \<times> lexer \<times> 'r window_state" where
  "take_raw_loop stop_bytes lx w =
     (let lx0 = lexer_set_source lx (window_text w);
          start = lexer_state lx0;
          (piece, lx1) = lexer_take_raw lx0 stop_bytes;
          reached_end = (tok_offset piece + length (tok_text piece) \<ge> ws_used w)
      in if \<not> reached_end \<or> ws_eof w then (piece, False, lx1, w)
         else if ws_used w \<ge> length (ws_buffer w) then (piece, True, lx1, w)
         else take_raw_loop stop_bytes (lexer_restore lx1 start) (window_fill (length (ws_buffer w)) w))"
  by pat_completeness auto
termination
  by (relation "measure (\<lambda>(s, lx, w). window_room w)") (auto intro!: window_fill_progress)

definition take_raw_windowed :: "'r token_stream \<Rightarrow> 'r window_state \<Rightarrow> string \<Rightarrow> token \<times> 'r token_stream" where
  "take_raw_windowed ts w stop_bytes =
     (if ws_generation w \<noteq> ts_generation ts then (default_token, ts)
      else let continuing = ts_cut ts;
               ts1 = ts\<lparr>ts_cut := False\<rparr>;
               ts2 = (if continuing \<and> ws_used w \<ge> length (ws_buffer w)
                      then drop_bytes (min (p_pos (ts_after_previous ts1)) (ws_used w)) w ts1 else ts1);
               w2 = the (ts_window ts2);
               (piece, cut, lx, w3) = take_raw_loop stop_bytes (lexer_restore (ts_lexer ts2) (ts_after_previous ts2)) w2;
               piece' = piece\<lparr>tok_offset := tok_offset piece + ws_base w3\<rparr>;
               ts3 = ts2\<lparr>ts_lexer := lx, ts_window := Some w3, ts_cut := cut, ts_after_previous := lexer_state lx,
                         ts_previous := piece'\<rparr>
           in if cut then (piece', ts3\<lparr>ts_first := default_token, ts_second := default_token\<rparr>)
              else (let (t1, ts4) = lex_next ts3; (t2, ts5) = lex_next (ts4\<lparr>ts_first := t1\<rparr>)
                    in (piece', ts5\<lparr>ts_second := t2\<rparr>)))"

definition take_raw_until :: "'r token_stream \<Rightarrow> string \<Rightarrow> token \<times> 'r token_stream" where
  "take_raw_until ts stop_bytes =
     (case ts_window ts of
        Some w \<Rightarrow> take_raw_windowed ts w stop_bytes
      | None \<Rightarrow>
          let (piece, lx) = lexer_take_raw (lexer_restore (ts_lexer ts) (ts_after_previous ts)) stop_bytes;
              after = lexer_state lx;
              (t1, lx1) = lexer_next lx; (t2, lx2) = lexer_next lx1
          in (piece, ts\<lparr>ts_lexer := lx2, ts_previous := piece, ts_after_previous := after, ts_first := t1, ts_second := t2\<rparr>))"

fun line_start :: "string \<Rightarrow> nat \<Rightarrow> nat" where
  "line_start txt' 0 = 0"
| "line_start txt' (Suc k) = (if txt' ! k \<noteq> CHR 0x0A then line_start txt' k else Suc k)"

definition discard_consumed :: "'r token_stream \<Rightarrow> 'r token_stream" where
  "discard_consumed ts =
     (case ts_window ts of
        None \<Rightarrow> ts
      | Some w \<Rightarrow>
          if ws_generation w \<noteq> ts_generation ts then ts
          else let consumed = min (p_pos (ts_after_previous ts)) (length (window_text w));
                   keep0 = line_start (window_text w) consumed;
                   keep = (if consumed - keep0 > length (ws_buffer w) div 2 then consumed else keep0)
               in refill (drop_bytes keep w ts))"

section \<open>depth_guard\<close>

text \<open>The counter after the constructor, and whether nesting is within the limit; the destructor restores it.\<close>

definition depth_enter :: "nat \<Rightarrow> nat \<Rightarrow> nat \<times> bool" where
  "depth_enter depth limit = (depth + 1, depth + 1 \<le> limit)"

section \<open>Source spans\<close>

record source_span =
  span_text :: string
  span_offset :: nat
  span_line :: u32
  span_column :: u32

definition span_from :: "'r token_stream \<Rightarrow> token \<Rightarrow> source_span" where
  "span_from ts first =
     (let last' = ts_previous ts; base = source_base ts;
          last_end = tok_offset last' + length (tok_text last');
          limit = base + length (source_text ts)
      in if tok_kind last' = T_end \<or> tok_offset last' < tok_offset first \<or> tok_offset first < base \<or> last_end > limit
            \<or> tok_offset first > limit
         then \<lparr>span_text = [], span_offset = tok_offset first, span_line = tok_line first, span_column = tok_column first\<rparr>
         else \<lparr>span_text = take (last_end - tok_offset first) (drop (tok_offset first - base) (source_text ts)),
               span_offset = tok_offset first, span_line = tok_line first, span_column = tok_column first\<rparr>)"

section \<open>Streams over a text\<close>

declare lex_windowed_loop.simps [simp del] take_raw_loop.simps [simp del]

text \<open>The tokens from a place of a text on, and their recursion.\<close>

definition tokens_at :: "lexer_rules \<Rightarrow> string \<Rightarrow> position \<Rightarrow> token list" where
  "tokens_at r src c = fst (lex_all (Suc (length src)) \<lparr>lx_source = src, lx_rules = r, lx_cursor = c, lx_ended = False\<rparr>)"

lemma lex_all_fuel:
  "lexer_ok lx \<Longrightarrow> length (lx_source lx) - p_pos (lx_cursor lx) < n \<Longrightarrow> n \<le> m \<Longrightarrow> lex_all m lx = lex_all n lx"
proof (induction n arbitrary: lx m)
  case (Suc n)
  obtain t lx' where nx: "lexer_next lx = (t, lx')" by fastforce
  note ok = lexer_next_ok [OF Suc.prems(1) nx]
  obtain k where m: "m = Suc k" "n \<le> k" using Suc.prems(3) by (cases m) auto
  show ?case
  proof (cases "tok_kind t = T_end")
    case False
    then have "p_pos (lx_cursor lx) < p_pos (lx_cursor lx')" "p_pos (lx_cursor lx') \<le> length (lx_source lx)"
      using scanned_token [OF ok(4) False] by blast+
    then have "length (lx_source lx') - p_pos (lx_cursor lx') < n" using Suc.prems(2) ok(2) by simp
    then show ?thesis using Suc.IH [OF ok(1) _ m(2)] m(1) by (simp add: nx)
  qed (simp add: nx m(1))
qed simp

lemma tokens_at_unfold:
  assumes "rules_ok r" and "in_sync src c" and "scan r src c = (t, c')"
  shows "tokens_at r src c = (if tok_kind t = T_end then [] else t # tokens_at r src c')"
proof -
  let ?lx = "\<lambda>c. \<lparr>lx_source = src, lx_rules = r, lx_cursor = c, lx_ended = False\<rparr>"
  have s: "scanned r src c t c'" by (rule scan_correct [OF assms])
  have nx: "lexer_next (?lx c) = (t, if tok_kind t = T_end then (?lx c')\<lparr>lx_ended := True\<rparr> else ?lx c')"
    by (simp add: lexer_next_def assms(3))
  show ?thesis
  proof (cases "tok_kind t = T_end")
    case True
    then show ?thesis by (simp add: tokens_at_def nx)
  next
    case False
    note st = scanned_token [OF s False]
    have "lexer_ok (?lx c')" using assms(1) s by (simp add: lexer_ok_def scanned_def)
    then have "lex_all (Suc (length src)) (?lx c') = lex_all (length src) (?lx c')"
      using st(5,6) by (intro lex_all_fuel) simp_all
    then show ?thesis using False by (simp add: tokens_at_def nx split: prod.splits)
  qed
qed

text \<open>The invariant of a stream over a text: the lookahead is what the lexer finds behind the last consumed
  token, and the lexer stands behind the lookahead.\<close>

definition ts_rules :: "'r token_stream \<Rightarrow> lexer_rules" where
  "ts_rules ts = lx_rules (ts_lexer ts)"

definition stream_ok :: "'r token_stream \<Rightarrow> bool" where
  "stream_ok ts \<longleftrightarrow> ts_window ts = None \<and> rules_ok (ts_rules ts) \<and> lx_source (ts_lexer ts) = ts_source ts
     \<and> in_sync (ts_source ts) (ts_after_previous ts)
     \<and> (\<exists>c. scan (ts_rules ts) (ts_source ts) (ts_after_previous ts) = (ts_first ts, c)
            \<and> scan (ts_rules ts) (ts_source ts) c = (ts_second ts, lx_cursor (ts_lexer ts)))"

definition upcoming :: "'r token_stream \<Rightarrow> token list" where
  "upcoming ts = tokens_at (ts_rules ts) (ts_source ts) (ts_after_previous ts)"

text \<open>Two streams that read the same text with the same rules.\<close>

definition same_text :: "'r token_stream \<Rightarrow> 'r token_stream \<Rightarrow> bool" where
  "same_text ts ts' \<longleftrightarrow> ts_source ts' = ts_source ts \<and> ts_rules ts' = ts_rules ts \<and> ts_has_strings ts' = ts_has_strings ts"

lemma same_text_refl [simp]: "same_text ts ts"
  by (simp add: same_text_def)

lemma same_text_trans [trans]: "same_text a b \<Longrightarrow> same_text b c \<Longrightarrow> same_text a c"
  by (simp add: same_text_def)

lemma scan_end_again:
  assumes "rules_ok r" and "in_sync src c" and "scan r src c = (t, c')" and "tok_kind t = T_end"
  shows "scan r src c' = (t, c')"
proof -
  have s: "scanned r src c t c'" by (rule scan_correct [OF assms(1-3)])
  have p: "p_pos c' = length src" "tok_offset t = length src" using scanned_end [OF s assms(4)] by simp_all
  have "in_sync src c'" "place_of src (tok_offset t) = \<lparr>p_pos = tok_offset t, p_line = tok_line t, p_column = tok_column t\<rparr>"
    "tok_text t = []" using s assms(4) by (auto simp: scanned_def)
  then have "p_line c' = tok_line t" "p_column c' = tok_column t" using p by (auto simp: in_sync_def)
  then show ?thesis using p assms(4) \<open>tok_text t = []\<close> by (simp add: scan.simps)
qed

lemma stream_ok_upcoming:
  assumes "stream_ok ts"
  shows "upcoming ts = [] \<longleftrightarrow> tok_kind (ts_first ts) = T_end"
    and "upcoming ts \<noteq> [] \<Longrightarrow> hd (upcoming ts) = ts_first ts"
  using assms tokens_at_unfold [of "ts_rules ts" "ts_source ts" "ts_after_previous ts"]
  by (auto simp: stream_ok_def upcoming_def split: if_splits)

lemma stream_ok_peek2:
  assumes "stream_ok ts" and "tok_kind (ts_first ts) \<noteq> T_end"
  shows "length (upcoming ts) = 1 \<longleftrightarrow> tok_kind (ts_second ts) = T_end"
    and "length (upcoming ts) > 1 \<Longrightarrow> upcoming ts ! 1 = ts_second ts"
proof -
  let ?r = "ts_rules ts" and ?src = "ts_source ts"
  obtain c where c: "scan ?r ?src (ts_after_previous ts) = (ts_first ts, c)" "scan ?r ?src c = (ts_second ts, lx_cursor (ts_lexer ts))"
    and ok: "rules_ok ?r" "in_sync ?src (ts_after_previous ts)" using assms(1) by (auto simp: stream_ok_def)
  have "in_sync ?src c" using scan_correct [OF ok c(1)] by (simp add: scanned_def)
  then have "upcoming ts = ts_first ts # (if tok_kind (ts_second ts) = T_end then [] else ts_second ts # tokens_at ?r ?src (lx_cursor (ts_lexer ts)))"
    using tokens_at_unfold [OF ok c(1)] tokens_at_unfold [OF ok(1) _ c(2)] assms(2) by (simp add: upcoming_def)
  then show "length (upcoming ts) = 1 \<longleftrightarrow> tok_kind (ts_second ts) = T_end"
    "length (upcoming ts) > 1 \<Longrightarrow> upcoming ts ! 1 = ts_second ts" by auto
qed

lemma token_stream_init_ok:
  "rules_ok r \<Longrightarrow> stream_ok (token_stream_init src r)" "upcoming (token_stream_init src r) = tokens_at r src init_position"
  by (auto simp: stream_ok_def upcoming_def ts_rules_def token_stream_init_def lexer_next_def lexer_init_def Let_def split: prod.splits if_splits)

lemma ts_next_ok:
  assumes "stream_ok ts" and "ts_next ts = (t, ts')"
  shows "t = ts_first ts" and "stream_ok ts'" and "upcoming ts' = tl (upcoming ts)" and "same_text ts ts'"
    and "ts_first ts' = ts_second ts" and "tok_kind t \<noteq> T_end \<Longrightarrow> ts_previous ts' = t"
    and "tok_kind t = T_end \<Longrightarrow> ts_previous ts' = ts_previous ts"
proof -
  let ?r = "ts_rules ts" and ?src = "ts_source ts" and ?lx = "ts_lexer ts"
  obtain c where c: "scan ?r ?src (ts_after_previous ts) = (ts_first ts, c)" "scan ?r ?src c = (ts_second ts, lx_cursor ?lx)"
    and ok: "rules_ok ?r" "in_sync ?src (ts_after_previous ts)" "ts_window ts = None" "lx_source ?lx = ?src"
    using assms(1) by (auto simp: stream_ok_def)
  have s: "scanned ?r ?src (ts_after_previous ts) (ts_first ts) c" by (rule scan_correct [OF ok(1,2) c(1)])
  then have ic: "in_sync ?src c" by (simp add: scanned_def)
  have i2: "in_sync ?src (lx_cursor ?lx)" using scan_correct [OF ok(1) ic c(2)] by (simp add: scanned_def)
  obtain t3 lx3 where nx: "lexer_next ?lx = (t3, lx3)" by fastforce
  have n3: "scan ?r ?src (lx_cursor ?lx) = (t3, lx_cursor lx3)" "lx_source lx3 = ?src" "lx_rules lx3 = ?r"
    using nx ok(4) by (auto simp: lexer_next_def ts_rules_def Let_def split: prod.splits if_splits)
  have pa: "position_after_token ts (ts_first ts) = c" if "tok_kind (ts_first ts) \<noteq> T_end"
    using position_after_scanned [OF s that ok(4)] ok(3) by (simp add: position_after_token_def source_base_def)
  let ?mid = "if tok_kind (ts_first ts) \<noteq> T_end then ts\<lparr>ts_previous := ts_first ts, ts_after_previous := c\<rparr> else ts"
  have nt: "t = ts_first ts" "ts' = ?mid\<lparr>ts_first := ts_second ts, ts_lexer := lx3, ts_second := t3\<rparr>"
    using assms(2) pa ok(3) nx by (auto simp: ts_next_def lex_next_def Let_def split: if_splits)
  have again: "ts_second ts = ts_first ts \<and> lx_cursor ?lx = c" if "tok_kind (ts_first ts) = T_end"
    using scan_end_again [OF ok(1,2) c(1) that] c(2) by simp
  show "t = ts_first ts" by (rule nt(1))
  show "ts_first ts' = ts_second ts" "tok_kind t \<noteq> T_end \<Longrightarrow> ts_previous ts' = t"
    "tok_kind t = T_end \<Longrightarrow> ts_previous ts' = ts_previous ts" using nt by simp_all
  show "same_text ts ts'" using nt n3 by (simp add: same_text_def ts_rules_def)
  show "stream_ok ts'"
    using nt n3 ok ic c again by (cases "tok_kind (ts_first ts) = T_end") (auto simp: stream_ok_def ts_rules_def)
  show "upcoming ts' = tl (upcoming ts)"
    using tokens_at_unfold [OF ok(1,2) c(1)] nt n3
    by (cases "tok_kind (ts_first ts) = T_end") (simp_all add: upcoming_def ts_rules_def)
qed


section \<open>Properties\<close>

text \<open>What \<open>n\<close> calls of \<^verbatim>\<open>next()\<close> give, each with the two tokens of lookahead before it.\<close>

fun ts_read :: "nat \<Rightarrow> 'r token_stream \<Rightarrow> (token \<times> token \<times> token) list" where
  "ts_read 0 ts = []"
| "ts_read (Suc n) ts = (let (t, ts') = ts_next ts in (ts_peek ts, ts_peek2 ts, t) # ts_read n ts')"

text \<open>The tokens of a text, then the end token for ever.\<close>

definition token_at :: "token list \<Rightarrow> token \<Rightarrow> nat \<Rightarrow> token" where
  "token_at toks e i = (if i < length toks then toks ! i else e)"

lemma ts_read_tokens:
  assumes "stream_ok ts" and "\<And>i. token_at (upcoming ts) e i = f i" and "ts_first ts = f 0" and "ts_second ts = f 1"
    and "\<And>c t c'. in_sync (ts_source ts) c \<Longrightarrow> scan (ts_rules ts) (ts_source ts) c = (t, c') \<Longrightarrow> tok_kind t = T_end \<Longrightarrow> t = e"
  shows "ts_read n ts = map (\<lambda>i. (f i, f (i + 1), f i)) [0..<n]"
  using assms
proof (induction n arbitrary: ts f)
  case (Suc n)
  obtain t ts' where nx: "ts_next ts = (t, ts')" by fastforce
  note s = ts_next_ok [OF Suc.prems(1) nx]
  let ?f = "\<lambda>i. f (i + 1)"
  have up: "token_at (upcoming ts') e i = ?f i" for i
    using Suc.prems(2) [of "i + 1"] s(3) by (cases "upcoming ts") (auto simp: token_at_def)
  have same: "ts_source ts' = ts_source ts" "ts_rules ts' = ts_rules ts" using s(4) by (simp_all add: same_text_def)
  obtain c c2 where sc: "in_sync (ts_source ts) (ts_after_previous ts')"
    "scan (ts_rules ts) (ts_source ts) (ts_after_previous ts') = (ts_first ts', c)"
    "scan (ts_rules ts) (ts_source ts) c = (ts_second ts', c2)" "rules_ok (ts_rules ts)"
    using s(2) same by (auto simp: stream_ok_def)
  have c: "in_sync (ts_source ts) c" using scan_correct [OF sc(4,1,2)] by (simp add: scanned_def)
  have end2: "ts_second ts' = e" if "tok_kind (ts_second ts') = T_end" using Suc.prems(5) [OF c sc(3) that] .
  have "ts_second ts' = ?f 1"
  proof (cases "tok_kind (ts_first ts') = T_end")
    case True
    then have "ts_second ts' = ts_first ts'" using scan_end_again [OF sc(4,1,2)] sc(3) by simp
    moreover have "upcoming ts' = []" using stream_ok_upcoming(1) [OF s(2)] True by simp
    ultimately show ?thesis using up [of 1] Suc.prems(5) [OF sc(1,2) True] by (simp add: token_at_def)
  next
    case False
    show ?thesis using stream_ok_peek2 [OF s(2) False] stream_ok_upcoming(1) [OF s(2)] False up [of 1] end2
      by (cases "upcoming ts'") (auto simp: token_at_def split: if_splits)
  qed
  moreover have "ts_first ts' = ?f 0" using s(5) Suc.prems(4) by simp
  ultimately have "ts_read n ts' = map (\<lambda>i. (?f i, ?f (i + 1), ?f i)) [0..<n]"
    using Suc.IH [OF s(2) up] Suc.prems(5) same by auto
  then show ?case using nx s(1) Suc.prems(3,4)
    by (simp add: ts_peek_def ts_peek2_def upt_conv_Cons map_Suc_upt [symmetric] del: upt_Suc)
qed simp

definition end_token :: "string \<Rightarrow> token" where
  "end_token src = \<lparr>tok_kind = T_end, tok_text = [], tok_offset = length src,
     tok_line = p_line (place_of src (length src)), tok_column = p_column (place_of src (length src))\<rparr>"

lemma scan_end_token:
  assumes "rules_ok r" and "in_sync src c" and "scan r src c = (t, c')" and "tok_kind t = T_end"
  shows "t = end_token src"
proof -
  have "scanned r src c t c'" by (rule scan_correct [OF assms(1-3)])
  then show ?thesis using assms(4) by (cases t) (auto simp: scanned_def end_token_def)
qed

text \<open>C10: The stream is the lexer with two tokens of lookahead: \<^verbatim>\<open>next()\<close> gives the tokens of the text one by one and
  then the end token for ever, \<^verbatim>\<open>peek()\<close> is the token that \<^verbatim>\<open>next()\<close> gives, and \<^verbatim>\<open>peek2()\<close> the one after it.\<close>

theorem token_stream_reads_lexer:
  assumes "rules_ok r"
  shows "ts_read n (token_stream_init src r :: 'r token_stream)
     = (let f = token_at (fst (lex_all (length src + 1) (lexer_init src r))) (end_token src) in map (\<lambda>i. (f i, f (i + 1), f i)) [0..<n])"
proof -
  let ?ts = "token_stream_init src r :: 'r token_stream"
  let ?f = "token_at (upcoming ?ts) (end_token src)"
  note ok = token_stream_init_ok(1) [OF assms, where 'a = 'r and src = src]
  have up: "upcoming ?ts = fst (lex_all (length src + 1) (lexer_init src r))"
    by (simp add: token_stream_init_ok(2) tokens_at_def lexer_init_def)
  have src: "ts_source ?ts = src" "ts_rules ?ts = r"
    by (auto simp: token_stream_init_def ts_rules_def lexer_next_def lexer_init_def Let_def split: prod.splits)
  note fin = scan_end_token [OF assms]
  obtain c where sc: "in_sync src (ts_after_previous ?ts)" "scan r src (ts_after_previous ?ts) = (ts_first ?ts, c)"
    "scan r src c = (ts_second ?ts, lx_cursor (ts_lexer ?ts))" using ok src by (auto simp: stream_ok_def)
  have c: "in_sync src c" using scan_correct [OF assms sc(1,2)] by (simp add: scanned_def)
  have 0: "ts_first ?ts = ?f 0"
    using stream_ok_upcoming [OF ok] fin [OF sc(1,2)] by (cases "upcoming ?ts") (auto simp: token_at_def)
  have 1: "ts_second ?ts = ?f 1"
  proof (cases "tok_kind (ts_first ?ts) = T_end")
    case True
    then show ?thesis using scan_end_again [OF assms sc(1,2)] sc(3) stream_ok_upcoming(1) [OF ok] fin [OF sc(1,2)]
      by (simp add: token_at_def)
  next
    case False
    then show ?thesis using stream_ok_peek2 [OF ok False] stream_ok_upcoming(1) [OF ok] fin [OF c sc(3)]
      by (cases "upcoming ?ts") (auto simp: token_at_def split: if_splits)
  qed
  have "ts_read n ?ts = map (\<lambda>i. (?f i, ?f (i + 1), ?f i)) [0..<n]"
    by (rule ts_read_tokens [OF ok refl 0 1]) (use src fin in auto)
  then show ?thesis by (simp add: Let_def up)
qed

theorem token_stream_reads_lexer_witness:
  "map (\<lambda>(p, q, t). (tok_text p, tok_text q, tok_text t)) (ts_read 3 (token_stream_init ''a + 1'' default_rules :: unit token_stream))
     = [(''a'', ''+'', ''a''), (''+'', ''1'', ''+''), (''1'', '''', ''1'')]"
proof -
  have "rules_ok default_rules" by (simp add: rules_ok_def default_rules_def)
  moreover have "map tok_text (fst (lex_all (length ''a + 1'' + 1) (lexer_init ''a + 1'' default_rules))) = [''a'', ''+'', ''1'']"
    by code_simp
  then obtain a b c where "fst (lex_all (length ''a + 1'' + 1) (lexer_init ''a + 1'' default_rules)) = [a, b, c]"
    "tok_text a = ''a''" "tok_text b = ''+''" "tok_text c = ''1''" by (auto simp: map_eq_Cons_conv)
  ultimately show ?thesis using token_stream_reads_lexer [of default_rules 3 "''a + 1''", where 'r = unit]
    by (simp add: token_at_def end_token_def Let_def upt_rec)
qed

end
