(* ===== verification/Window_Stream.thy ===== *)
theory Window_Stream
  imports Token_Stream
begin

text \<open>
  The token stream over a window (\<^verbatim>\<open>parsing/stream_window.hpp\<close> and the windowed half of
  \<^verbatim>\<open>parsing/token_stream.hpp\<close>) against the whole input: what a reader promises, the invariant that the window
  is a slice of the input and every stored place is a place of the input, that every operation keeps it, and
  that the tokens handed out are pieces of the input at their absolute offsets, with nothing lost between
  them.
\<close>

section \<open>Readers and windows\<close>

text \<open>A reader fills a prefix of the room with the next bytes of its input and reports their number; 0 is the end.\<close>

definition reader_ok :: "'r window_reader \<Rightarrow> ('r \<Rightarrow> string) \<Rightarrow> bool" where
  "reader_ok reader rest \<longleftrightarrow> (\<forall>r room bytes got r'. reader r room = (bytes, got, r') \<longrightarrow>
     got \<le> room \<and> got \<le> length (rest r) \<and> bytes = take got (rest r) \<and> rest r' = drop got (rest r)
     \<and> (got = 0 \<longrightarrow> room = 0 \<or> rest r = []))"

definition window_ok :: "('r \<Rightarrow> string) \<Rightarrow> string \<Rightarrow> 'r window_state \<Rightarrow> bool" where
  "window_ok rest input w \<longleftrightarrow> reader_ok (ws_reader w) rest \<and> ws_used w \<le> length (ws_buffer w)
     \<and> ws_base w + ws_used w \<le> length input \<and> window_text w = take (ws_used w) (drop (ws_base w) input)
     \<and> rest (ws_reader_state w) = drop (ws_base w + ws_used w) input
     \<and> (ws_eof w \<longrightarrow> ws_base w + ws_used w = length input)"

lemma window_init_ok: "reader_ok reader rest \<Longrightarrow> rest r = input \<Longrightarrow> window_ok rest input (window_init n reader r)"
  by (simp add: window_ok_def window_init_def window_text_def)

text \<open>A later state of the same window: more input behind the same bytes.\<close>

definition window_grown :: "'r window_state \<Rightarrow> 'r window_state \<Rightarrow> bool" where
  "window_grown w w' \<longleftrightarrow> ws_base w' = ws_base w \<and> ws_generation w' = ws_generation w
     \<and> length (ws_buffer w') = length (ws_buffer w) \<and> ws_used w \<le> ws_used w'"

lemma window_grown_refl [simp]: "window_grown w w"
  by (simp add: window_grown_def)

lemma window_grown_trans [trans]: "window_grown a b \<Longrightarrow> window_grown b c \<Longrightarrow> window_grown a c"
  by (auto simp: window_grown_def)

lemma window_read_ok:
  assumes "window_ok rest input w" and "ws_used w < length (ws_buffer w)"
  shows "window_ok rest input (window_read w) \<and> window_grown w (window_read w)"
proof -
  obtain bytes got r' where rd: "ws_reader w (ws_reader_state w) (length (ws_buffer w) - ws_used w) = (bytes, got, r')"
    by (metis prod_cases3)
  let ?rest = "drop (ws_base w + ws_used w) input"
  have w: "window_text w = take (ws_used w) (drop (ws_base w) input)" "ws_base w + ws_used w \<le> length input"
    "rest (ws_reader_state w) = ?rest" using assms(1) by (auto simp: window_ok_def)
  have g: "got \<le> length (ws_buffer w) - ws_used w" "got \<le> length ?rest" "bytes = take got ?rest" "rest r' = drop got ?rest"
    "got = 0 \<longrightarrow> ?rest = []"
    using assms rd w(3) unfolding window_ok_def reader_ok_def by (metis, metis, metis, metis, metis diff_is_0_eq leD)
  let ?buf = "take (ws_used w) (ws_buffer w) @ bytes @ drop (ws_used w + length bytes) (ws_buffer w)"
  have t: "take (ws_used w + got) ?buf = take (ws_used w + got) (drop (ws_base w) input)"
  proof -
    have "?buf = (window_text w @ bytes) @ drop (ws_used w + length bytes) (ws_buffer w)" by (simp add: window_text_def)
    moreover have "length (window_text w @ bytes) = ws_used w + got" using g assms(2) by (simp add: window_text_def)
    ultimately have "take (ws_used w + got) ?buf = window_text w @ bytes" by (metis append_eq_conv_conj)
    also have "\<dots> = take (ws_used w + got) (drop (ws_base w) input)"
      unfolding w(1) g(3) take_add drop_drop by (simp only: add.commute)
    finally show ?thesis .
  qed
  have l: "length bytes = got" "take (length (ws_buffer w) - ws_used w) bytes = bytes" using g by simp_all
  have rd': "window_read w = (if got = 0 then w\<lparr>ws_reader_state := r', ws_buffer := ?buf, ws_eof := True\<rparr>
      else w\<lparr>ws_reader_state := r', ws_buffer := ?buf, ws_used := ws_used w + got\<rparr>)"
    using g(1) l rd by (auto simp: window_read_def Let_def)
  have len: "length ?buf = length (ws_buffer w)" using g(1) l assms(2) by simp
  show ?thesis
  proof (cases "got = 0")
    case True
    then show ?thesis using assms(1) rd' g t len w by (auto simp: window_ok_def window_grown_def window_text_def)
  next
    case False
    have "reader_ok (ws_reader w) rest" "ws_eof w \<Longrightarrow> ?rest = []" using assms(1) by (auto simp: window_ok_def)
    then show ?thesis using False rd' g t len w assms(2)
      by (auto simp: window_ok_def window_grown_def window_text_def ac_simps)
  qed
qed

lemma window_fill_ok:
  "window_ok rest input w \<Longrightarrow> window_ok rest input (window_fill want w) \<and> window_grown w (window_fill want w)"
proof (induction want w rule: window_fill.induct)
  case (1 want w)
  show ?case
    using 1 window_read_ok [OF "1.prems"] by (subst (1 2) window_fill.simps) (auto intro: window_grown_trans)
qed

lemma window_fill_overflowed [simp]: "ws_overflowed (window_fill want w) = ws_overflowed w"
proof (induction want w rule: window_fill.induct)
  case (1 want w)
  have "ws_overflowed (window_read w) = ws_overflowed w" by (simp add: window_read_def Let_def split: prod.splits)
  then show ?case using 1 by (subst window_fill.simps) simp
qed

lemma window_discard_ok:
  assumes "window_ok rest input w" and "n \<le> ws_used w"
  shows "window_ok rest input (window_discard n w)" and "ws_base (window_discard n w) = ws_base w + n"
    and "ws_used (window_discard n w) = ws_used w - n" and "length (ws_buffer (window_discard n w)) = length (ws_buffer w)"
proof -
  have "take (ws_used w - n) (drop n (ws_buffer w)) = drop n (window_text w)"
    by (simp add: window_text_def drop_take)
  also have "\<dots> = take (ws_used w - n) (drop (n + ws_base w) input)"
    using assms(1) by (simp add: window_ok_def drop_take)
  finally have "take (ws_used w - n) (drop n (ws_buffer w)) = take (ws_used w - n) (drop (n + ws_base w) input)" .
  then show "window_ok rest input (window_discard n w)" "ws_base (window_discard n w) = ws_base w + n"
    "ws_used (window_discard n w) = ws_used w - n" "length (ws_buffer (window_discard n w)) = length (ws_buffer w)"
    using assms by (auto simp: window_ok_def window_discard_def window_text_def ac_simps)
qed

section \<open>Places of the input\<close>

definition shift :: "nat \<Rightarrow> position \<Rightarrow> position" where
  "shift k c = c\<lparr>p_pos := p_pos c + k\<rparr>"

definition shift_token :: "nat \<Rightarrow> token \<Rightarrow> token" where
  "shift_token k t = t\<lparr>tok_offset := tok_offset t + k\<rparr>"

lemma advance_to_shift:
  "advance_to (pre @ src) (shift (length pre) c) (target + length pre) = shift (length pre) (advance_to src c target)"
  by (simp add: advance_to_def shift_def Let_def split: prod.splits)

lemma scan_shifted:
  "rules_ok r \<Longrightarrow> in_sync (pre @ src) (shift (length pre) c) \<Longrightarrow> scan r src c = (t, c') \<Longrightarrow>
   scanned r (pre @ src) (shift (length pre) c) (shift_token (length pre) t) (shift (length pre) c')"
proof (induction r src c rule: scan.induct)
  case (1 r src c)
  let ?k = "length pre"
  have sync: "in_sync (pre @ src) (shift ?k (advance_to src c (p_pos c + n)))" for n
    using in_sync_advance [OF "1.prems"(2), of "p_pos c + n + ?k"] unfolding advance_to_shift by (simp add: shift_def)
  note place = place_of_sync [OF "1.prems"(2)]
  show ?case
  proof (cases "p_pos c \<ge> length src")
    case True
    then have "p_pos c = length src" using "1.prems"(2) by (simp add: in_sync_def shift_def)
    then show ?thesis using True "1.prems" place
      by (auto simp: scan.simps [of r src c] scanned_def shift_def shift_token_def ac_simps)
  next
    case False
    then have lt: "p_pos c < length src" by simp
    show ?thesis
    proof (cases "scan_step r src c")
      case (Inl res)
      then obtain k n where res: "res = emit src c k n" "0 < n" "k \<noteq> T_end"
        using scan_step_ok [OF lt, of r] "1.prems"(1) by (auto simp: step_ok_def emits_def)
      have "(t, c') = emit src c k n" using "1.prems"(3) lt Inl res by (simp add: scan.simps [of r src c])
      then show ?thesis using res lt place sync [of n]
        by (auto simp: emit_def scanned_def shift_def shift_token_def min_def ac_simps)
    next
      case (Inr d)
      then obtain n where d: "d = advance_to src c (p_pos c + n)" "skip_whitespace r \<or> skip_comments r"
        using scan_step_ok [OF lt, of r] by (auto simp: step_ok_def)
      have "scanned r (pre @ src) (shift ?k d) (shift_token ?k t) (shift ?k c')"
        using "1.IH" [OF False Inr] "1.prems" sync [of n] d lt Inr by (simp add: scan.simps [of r src c])
      moreover have "p_pos c < p_pos d" using scan_step_Inr_pos [OF lt Inr] .
      ultimately show ?thesis using d(2) by (auto simp: scanned_def shift_def)
    qed
  qed
qed

lemma place_of_prefix: "i \<le> n \<Longrightarrow> place_of (take n src) i = place_of src i"
  by (simp add: place_of_def min_def)

text \<open>A token that is a piece of the input at its offset, with the line and the column of that offset.\<close>

definition true_token :: "string \<Rightarrow> token \<Rightarrow> bool" where
  "true_token input t \<longleftrightarrow> tok_offset t + length (tok_text t) \<le> length input
     \<and> tok_text t = take (length (tok_text t)) (drop (tok_offset t) input)
     \<and> place_of input (tok_offset t) = \<lparr>p_pos = tok_offset t, p_line = tok_line t, p_column = tok_column t\<rparr>"

text \<open>A place of the window that is a place of the input.\<close>

definition placed :: "string \<Rightarrow> 'r window_state \<Rightarrow> position \<Rightarrow> bool" where
  "placed input w c \<longleftrightarrow> p_pos c \<le> ws_used w \<and> in_sync input (shift (ws_base w) c)"

lemma placed_grown: "placed input w c \<Longrightarrow> window_grown w w' \<Longrightarrow> placed input w' c"
  by (auto simp: placed_def window_grown_def)

text \<open>What the lexer finds in the window, from a place of the input.\<close>

lemma window_split:
  assumes "window_ok rest input w"
  shows "take (ws_base w) input @ window_text w = take (ws_base w + ws_used w) input"
    and "length (take (ws_base w) input) = ws_base w" and "length (window_text w) = ws_used w"
  using assms by (auto simp: window_ok_def take_add)

lemma in_sync_prefix: "n \<le> length input \<Longrightarrow> in_sync (take n input) c \<longleftrightarrow> in_sync input c \<and> p_pos c \<le> n"
  by (auto simp: in_sync_def place_of_prefix)

lemma placed_iff:
  assumes "window_ok rest input w"
  shows "placed input w c \<longleftrightarrow> in_sync (take (ws_base w) input @ window_text w) (shift (ws_base w) c)"
  unfolding window_split(1) [OF assms] using assms by (auto simp: placed_def in_sync_prefix window_ok_def shift_def)

text \<open>The token is one of the input and lies in the window.\<close>

definition window_token :: "string \<Rightarrow> 'r window_state \<Rightarrow> token \<Rightarrow> bool" where
  "window_token input w t \<longleftrightarrow> true_token input t \<and> ws_base w \<le> tok_offset t
     \<and> tok_offset t + length (tok_text t) \<le> ws_base w + ws_used w \<and> (tok_text t = [] \<longrightarrow> tok_kind t = T_end)"

lemma window_token_grown: "window_token input w t \<Longrightarrow> window_grown w w' \<Longrightarrow> window_token input w' t"
  by (auto simp: window_token_def window_grown_def)

lemma window_scan:
  assumes "window_ok rest input w" and "rules_ok r" and "placed input w c" and "scan r (window_text w) c = (t, c')"
  shows "placed input w c'" and "window_token input w (shift_token (ws_base w) t)"
    and "p_pos c \<le> tok_offset t" and "tok_kind t \<noteq> T_end \<longrightarrow> p_pos c' = tok_offset t + length (tok_text t)"
    and "tok_kind t = T_end \<longrightarrow> tok_text t = [] \<and> tok_offset t = ws_used w \<and> p_pos c' = ws_used w"
    and "\<not> skip_whitespace r \<and> \<not> skip_comments r \<longrightarrow> tok_offset t = p_pos c"
proof -
  let ?all = "take (ws_base w) input @ window_text w"
  note sp = window_split [OF assms(1)]
  have le: "ws_base w + ws_used w \<le> length input" using assms(1) by (simp add: window_ok_def)
  have s: "scanned r ?all (shift (ws_base w) c) (shift_token (ws_base w) t) (shift (ws_base w) c')"
    using scan_shifted [OF assms(2) _ assms(4), of "take (ws_base w) input"] assms(1,3) sp(2) by (simp add: placed_iff)
  show "placed input w c'" using s assms(1) by (simp add: placed_iff scanned_def)
  show "p_pos c \<le> tok_offset t" "tok_kind t \<noteq> T_end \<longrightarrow> p_pos c' = tok_offset t + length (tok_text t)"
    "tok_kind t = T_end \<longrightarrow> tok_text t = [] \<and> tok_offset t = ws_used w \<and> p_pos c' = ws_used w"
    "\<not> skip_whitespace r \<and> \<not> skip_comments r \<longrightarrow> tok_offset t = p_pos c"
    using s sp le by (auto simp: scanned_def shift_def shift_token_def min_absorb2 split: if_splits)
  let ?t = "shift_token (ws_base w) t" and ?n = "ws_base w + ws_used w"
  have o: "tok_offset ?t \<le> ?n" "ws_base w \<le> tok_offset ?t"
    "place_of (take ?n input) (tok_offset ?t) = \<lparr>p_pos = tok_offset ?t, p_line = tok_line ?t, p_column = tok_column ?t\<rparr>"
    using s le unfolding sp(1) scanned_def by (simp_all add: min_absorb2 shift_token_def)
  have e: "tok_offset ?t + length (tok_text ?t) \<le> ?n"
    "tok_text ?t = take (length (tok_text ?t)) (drop (tok_offset ?t) (take ?n input))" "tok_text ?t = [] \<longrightarrow> tok_kind ?t = T_end"
    using s le o(1) unfolding sp(1) scanned_def in_sync_def by (auto simp: min_absorb2 shift_def split: if_splits)
  have "tok_text ?t = take (length (tok_text ?t)) (drop (tok_offset ?t) input)"
    using e(1) by (subst e(2)) (simp add: drop_take min_def)
  then show "window_token input w ?t"
    unfolding window_token_def true_token_def using e o le place_of_prefix [OF o(1), of input] by auto
qed

section \<open>Lexing in the window\<close>

lemma window_position_after:
  assumes "window_ok rest input w" and "lx_source lx = window_text w" and "window_token input w (shift_token (ws_base w) t)"
  shows "placed input w (position_after lx t)" and "p_pos (position_after lx t) = tok_offset t + length (tok_text t)"
proof -
  let ?c = "\<lparr>p_pos = tok_offset t, p_line = tok_line t, p_column = tok_column t\<rparr>" and ?pre = "take (ws_base w) input"
  note sp = window_split [OF assms(1)]
  have "placed input w ?c"
    using assms(3) by (auto simp: placed_def window_token_def true_token_def in_sync_def shift_token_def shift_def)
  then have "in_sync (?pre @ window_text w) (shift (length ?pre) ?c)" using assms(1) sp(2) by (simp add: placed_iff)
  from in_sync_advance [OF this, of "tok_offset t + length (tok_text t) + length ?pre"]
  show "placed input w (position_after lx t)"
    unfolding advance_to_shift using assms(1,2) sp(2) by (simp add: placed_iff position_after_def shift_def)
  show "p_pos (position_after lx t) = tok_offset t + length (tok_text t)"
    using assms(2,3) sp(3) by (simp add: position_after_def window_token_def shift_token_def)
qed

text \<open>What one call of the lexer on the window gives: a token of the input, and a place directly behind it.\<close>

definition window_found :: "string \<Rightarrow> lexer_rules \<Rightarrow> 'r window_state \<Rightarrow> position \<Rightarrow> token \<Rightarrow> position \<Rightarrow> bool" where
  "window_found input r w c t c' \<longleftrightarrow> window_token input w t \<and> placed input w c' \<and> ws_base w + p_pos c \<le> tok_offset t
     \<and> ws_base w + p_pos c' = tok_offset t + length (tok_text t)
     \<and> (tok_kind t = T_end \<longrightarrow> tok_text t = [] \<and> (ws_overflowed w \<or> tok_offset t = length input))
     \<and> (\<not> skip_whitespace r \<and> \<not> skip_comments r \<longrightarrow> tok_offset t = ws_base w + p_pos c)"

lemma window_found_grown:
  "window_found input r w c t c' \<Longrightarrow> window_grown w w' \<Longrightarrow> (ws_overflowed w \<Longrightarrow> ws_overflowed w') \<Longrightarrow>
   window_found input r w' c t c'"
  unfolding window_found_def placed_def window_token_def window_grown_def by auto

lemma overflow_token_ok:
  assumes "window_ok rest input w" and "rules_ok r" and "placed input w c" and "scan r (window_text w) c = (t, lx_cursor lx)"
    and "lx_source lx = window_text w" and "overflow_token lx w t = (t', lx', w')"
  shows "window_found input r w' c t' (lx_cursor lx')" and "window_ok rest input w'" and "window_grown w w'"
    and "lx_source lx' = window_text w'" and "lx_rules lx' = lx_rules lx" and "ws_overflowed w'"
proof -
  note s = window_scan [OF assms(1-4)]
  have w': "w' = w\<lparr>ws_overflowed := True\<rparr>" using assms(6) by (simp add: overflow_token_def Let_def split: if_splits)
  show "window_ok rest input w'" "window_grown w w'" "ws_overflowed w'" "lx_rules lx' = lx_rules lx" "lx_source lx' = window_text w'"
    using assms(1,5,6) by (auto simp: w' window_ok_def window_grown_def window_text_def overflow_token_def lexer_restore_def
        Let_def split: if_splits)
  have len: "length (window_text w) = ws_used w" by (rule window_split(3) [OF assms(1)])
  show "window_found input r w' c t' (lx_cursor lx')"
  proof (cases "tok_offset t \<ge> ws_used w")
    case True
    have "tok_offset t + length (tok_text t) \<le> ws_used w" using s(2) by (simp add: window_token_def shift_token_def)
    then have "length (tok_text t) = 0" using True by linarith
    then have "tok_text t = []" by simp
    moreover from this have "tok_kind t = T_end" using s(2) by (simp add: window_token_def true_token_def shift_token_def)
    ultimately show ?thesis using True s(1,2,3,5,6) assms(6) unfolding w'
      by (auto simp: overflow_token_def window_found_def window_token_def true_token_def placed_def shift_token_def)
  next
    case False
    let ?t = "t\<lparr>tok_kind := T_error, tok_text := drop (tok_offset t) (window_text w)\<rparr>"
    have txt': "drop (tok_offset t) (window_text w) = take (ws_used w - tok_offset t) (drop (tok_offset t + ws_base w) input)"
      using assms(1) by (simp add: window_ok_def drop_take ac_simps)
    have le: "ws_base w + ws_used w \<le> length input" using assms(1) by (simp add: window_ok_def)
    have tok: "window_token input w (shift_token (ws_base w) ?t)"
      using s(2) False le len unfolding window_token_def true_token_def by (auto simp: shift_token_def txt')
    have "t' = shift_token (ws_base w) ?t" "lx_cursor lx' = position_after lx ?t"
      using False assms(6) by (auto simp: overflow_token_def shift_token_def lexer_restore_def Let_def)
    then show ?thesis using tok window_position_after [OF assms(1,5) tok] s(3,6)
      unfolding w' by (auto simp: window_found_def window_token_def placed_def shift_token_def)
  qed
qed

lemma lex_windowed_loop_ok:
  "window_ok rest input w \<Longrightarrow> rules_ok (lx_rules lx) \<Longrightarrow> placed input w (lx_cursor lx) \<Longrightarrow> 0 < margin \<Longrightarrow>
   lex_windowed_loop margin lx w = (t, lx', w') \<Longrightarrow>
   window_found input (lx_rules lx) w' (lx_cursor lx) t (lx_cursor lx') \<and> window_ok rest input w' \<and> window_grown w w'
     \<and> lx_source lx' = window_text w' \<and> lx_rules lx' = lx_rules lx \<and> (ws_overflowed w \<longrightarrow> ws_overflowed w')"
proof (induction margin lx w rule: lex_windowed_loop.induct)
  case (1 margin lx w)
  let ?start = "lexer_set_source lx (window_text w)"
  obtain t0 c0 where sc: "scan (lx_rules lx) (window_text w) (lx_cursor lx) = (t0, c0)" by fastforce
  obtain t1 lx1 where nx: "lexer_next ?start = (t1, lx1)" by fastforce
  have lx1: "t1 = t0" "lx_cursor lx1 = c0" "lx_rules lx1 = lx_rules lx" "lx_source lx1 = window_text w"
    using nx sc by (auto simp: lexer_next_def lexer_set_source_def Let_def split: if_splits)
  note s = window_scan [OF "1.prems"(1,2,3) sc]
  let ?e = "tok_offset t0 + length (tok_text t0)"
  let ?want = "if ?e + margin < length (ws_buffer w) then ?e + margin else length (ws_buffer w)"
  consider (found) "ws_eof w \<or> ?e + margin \<le> ws_used w"
    | (full) "\<not> (ws_eof w \<or> ?e + margin \<le> ws_used w)" "ws_used w \<ge> length (ws_buffer w)"
    | (more) "\<not> (ws_eof w \<or> ?e + margin \<le> ws_used w)" "ws_used w < length (ws_buffer w)" by fastforce
  then show ?case
  proof cases
    case found
    then have r: "t = shift_token (ws_base w) t0" "lx' = lx1" "w' = w"
      using "1.prems"(5) nx lx1 by (auto simp: lex_windowed_loop.simps [of margin lx w] shift_token_def)
    have "tok_kind t0 = T_end \<Longrightarrow> ws_eof w" using found s(5) \<open>0 < margin\<close> by auto
    then show ?thesis using r lx1 s "1.prems"(1)
      by (auto simp: window_found_def shift_token_def window_ok_def)
  next
    case full
    then have ov: "overflow_token lx1 w t0 = (t, lx', w')"
      using "1.prems"(5) nx lx1 by (simp add: lex_windowed_loop.simps [of margin lx w])
    have sc': "scan (lx_rules lx) (window_text w) (lx_cursor lx) = (t0, lx_cursor lx1)" using sc lx1 by simp
    show ?thesis using overflow_token_ok [OF "1.prems"(1,2,3) sc' lx1(4) ov] lx1(3) by simp
  next
    case more
    let ?lx = "lexer_restore lx1 (lx_cursor lx)" and ?w = "window_fill ?want w"
    have st: "lexer_state ?start = lx_cursor lx" by (simp add: lexer_state_def lexer_set_source_def)
    have nx': "lexer_next ?start = (t0, lx1)" using nx lx1(1) by simp
    have loop: "lex_windowed_loop margin ?lx ?w = (t, lx', w')"
      using "1.prems"(5) nx lx1(1) more st by (simp add: lex_windowed_loop.simps [of margin lx w] Let_def)
    have lx: "lx_rules ?lx = lx_rules lx" "lx_cursor ?lx = lx_cursor lx" using lx1 by (simp_all add: lexer_restore_def)
    note f = window_fill_ok [OF "1.prems"(1), of ?want]
    have "window_found input (lx_rules ?lx) w' (lx_cursor ?lx) t (lx_cursor lx') \<and> window_ok rest input w' \<and> window_grown ?w w'
        \<and> lx_source lx' = window_text w' \<and> lx_rules lx' = lx_rules ?lx \<and> (ws_overflowed ?w \<longrightarrow> ws_overflowed w')"
      using "1.IH" [OF refl st [symmetric] refl nx' [symmetric] refl more(1) _ refl _ _ _ "1.prems"(4) loop] more(2) f lx
        "1.prems"(2) placed_grown [OF "1.prems"(3)] by simp
    then show ?thesis using f lx window_grown_trans by auto
  qed
qed

section \<open>Streams over a window\<close>

text \<open>A stream whose window is a slice of the input and whose last consumed place is a place of the input.\<close>

definition windowed_base :: "('r \<Rightarrow> string) \<Rightarrow> string \<Rightarrow> 'r window_state \<Rightarrow> 'r token_stream \<Rightarrow> bool" where
  "windowed_base rest input w ts \<longleftrightarrow> ts_window ts = Some w \<and> window_ok rest input w \<and> ws_generation w = ts_generation ts
     \<and> rules_ok (ts_rules ts) \<and> 0 < ts_margin ts \<and> placed input w (ts_after_previous ts)"

text \<open>The lookahead consists of tokens of the input, or was emptied when a raw piece did not fit.\<close>

definition lookahead_ok :: "string \<Rightarrow> 'r window_state \<Rightarrow> token \<Rightarrow> bool" where
  "lookahead_ok input w t \<longleftrightarrow> true_token input t \<and> (tok_kind t \<noteq> T_end \<longrightarrow> window_token input w t)"

definition windowed_ok :: "('r \<Rightarrow> string) \<Rightarrow> string \<Rightarrow> 'r token_stream \<Rightarrow> bool" where
  "windowed_ok rest input ts \<longleftrightarrow> (\<exists>w. windowed_base rest input w ts \<and> lx_source (ts_lexer ts) = window_text w
     \<and> placed input w (lx_cursor (ts_lexer ts)) \<and> lookahead_ok input w (ts_first ts) \<and> lookahead_ok input w (ts_second ts))"

text \<open>The lookahead is what follows the last consumed token, without a gap.\<close>

definition windowed_chain :: "string \<Rightarrow> 'r token_stream \<Rightarrow> bool" where
  "windowed_chain input ts \<longleftrightarrow> (\<exists>w c. ts_window ts = Some w
     \<and> window_found input (ts_rules ts) w (ts_after_previous ts) (ts_first ts) c
     \<and> window_found input (ts_rules ts) w c (ts_second ts) (lx_cursor (ts_lexer ts)))"

lemma default_token_true [simp]: "lookahead_ok input w default_token"
  by (simp add: lookahead_ok_def true_token_def default_token_def place_of_def)

lemma lookahead_grown: "lookahead_ok input w t \<Longrightarrow> window_grown w w' \<Longrightarrow> lookahead_ok input w' t"
  by (auto simp: lookahead_ok_def intro: window_token_grown)

lemma found_lookahead: "window_found input r w c t c' \<Longrightarrow> lookahead_ok input w t"
  by (simp add: lookahead_ok_def window_found_def window_token_def)

lemma lex_next_ok:
  assumes "windowed_base rest input w ts" and "placed input w (lx_cursor (ts_lexer ts))" and "lex_next ts = (t, ts')"
  shows "\<exists>lx' w'. ts' = ts\<lparr>ts_lexer := lx', ts_window := Some w'\<rparr> \<and> windowed_base rest input w' ts'
     \<and> window_grown w w' \<and> window_found input (ts_rules ts) w' (lx_cursor (ts_lexer ts)) t (lx_cursor lx')
     \<and> lx_source lx' = window_text w' \<and> lx_rules lx' = ts_rules ts \<and> (ws_overflowed w \<longrightarrow> ws_overflowed w')"
proof -
  obtain lx' w' where loop: "lex_windowed_loop (ts_margin ts) (ts_lexer ts) w = (t, lx', w')"
    and ts': "ts' = ts\<lparr>ts_lexer := lx', ts_window := Some w'\<rparr>"
    using assms(1,3) by (auto simp: lex_next_def lex_windowed_def windowed_base_def split: prod.splits)
  have b: "window_ok rest input w" "rules_ok (lx_rules (ts_lexer ts))" "0 < ts_margin ts"
    using assms(1) by (auto simp: windowed_base_def ts_rules_def)
  note l = lex_windowed_loop_ok [OF b(1,2) assms(2) b(3) loop]
  have "windowed_base rest input w' ts'"
    using assms(1) l by (auto simp: ts' windowed_base_def ts_rules_def window_grown_def placed_def)
  then show ?thesis using ts' l by (auto simp: ts_rules_def)
qed

lemma windowed_refill_ok:
  assumes "windowed_base rest input w ts"
  shows "windowed_ok rest input (refill ts)" and "windowed_chain input (refill ts)"
    and "ts_after_previous (refill ts) = ts_after_previous ts" and "ts_rules (refill ts) = ts_rules ts"
    and "\<exists>w'. ts_window (refill ts) = Some w' \<and> window_grown w w'"
proof -
  let ?s = "ts\<lparr>ts_lexer := lexer_restore (ts_lexer ts) (ts_after_previous ts)\<rparr>"
  obtain t1 s1 where n1: "lex_next ?s = (t1, s1)" by fastforce
  have b0: "windowed_base rest input w ?s" "placed input w (lx_cursor (ts_lexer ?s))"
    using assms by (auto simp: windowed_base_def ts_rules_def lexer_restore_def)
  from lex_next_ok [OF b0 n1] obtain lx1 w1 where s1: "s1 = ?s\<lparr>ts_lexer := lx1, ts_window := Some w1\<rparr>"
    "windowed_base rest input w1 s1" "window_grown w w1" "window_found input (ts_rules ts) w1 (ts_after_previous ts) t1 (lx_cursor lx1)"
    "lx_source lx1 = window_text w1" "lx_rules lx1 = ts_rules ts"
    by (auto simp: ts_rules_def lexer_restore_def)
  let ?s' = "s1\<lparr>ts_first := t1\<rparr>"
  obtain t2 s2 where n2: "lex_next ?s' = (t2, s2)" by fastforce
  have b1: "windowed_base rest input w1 ?s'" "placed input w1 (lx_cursor (ts_lexer ?s'))"
    using s1 by (auto simp: windowed_base_def ts_rules_def window_found_def)
  from lex_next_ok [OF b1 n2] obtain lx2 w2 where s2: "s2 = ?s'\<lparr>ts_lexer := lx2, ts_window := Some w2\<rparr>"
    "windowed_base rest input w2 s2" "window_grown w1 w2" "window_found input (ts_rules ts) w2 (lx_cursor lx1) t2 (lx_cursor lx2)"
    "lx_source lx2 = window_text w2" "lx_rules lx2 = ts_rules ts" "ws_overflowed w1 \<longrightarrow> ws_overflowed w2"
    using s1(1,6) by (auto simp: ts_rules_def)
  have r: "refill ts = s2\<lparr>ts_second := t2\<rparr>" using n1 n2 by (simp add: refill_def)
  have f: "window_found input (ts_rules ts) w2 (ts_after_previous ts) t1 (lx_cursor lx1)"
    using window_found_grown [OF s1(4) s2(3)] s2(7) by simp
  show "ts_after_previous (refill ts) = ts_after_previous ts" "ts_rules (refill ts) = ts_rules ts"
    "\<exists>w'. ts_window (refill ts) = Some w' \<and> window_grown w w'"
    using r s1 s2 window_grown_trans [OF s1(3) s2(3)] by (auto simp: ts_rules_def)
  then show "windowed_chain input (refill ts)" using r f s1(1) s2(1,4) by (auto simp: windowed_chain_def)
  have "windowed_base rest input w2 (refill ts)" using s2(2) r by (simp add: windowed_base_def ts_rules_def)
  moreover have "placed input w2 (lx_cursor lx2)" using s2(4) by (simp add: window_found_def)
  ultimately show "windowed_ok rest input (refill ts)"
    using r s1(1) s2(1,5) found_lookahead [OF f] found_lookahead [OF s2(4)] by (auto simp: windowed_ok_def)
qed

lemma window_found_start:
  "window_found input r w c t c' \<Longrightarrow> p_pos d \<le> p_pos c \<Longrightarrow> (\<not> skip_whitespace r \<and> \<not> skip_comments r \<longrightarrow> p_pos d = p_pos c) \<Longrightarrow>
   window_found input r w d t c'"
  by (auto simp: window_found_def)

lemma position_after_token_ok:
  assumes "windowed_base rest input w ts" and "lx_source (ts_lexer ts) = window_text w" and "window_token input w t"
  shows "placed input w (position_after_token ts t)"
    and "ws_base w + p_pos (position_after_token ts t) = tok_offset t + length (tok_text t)"
proof -
  let ?t = "t\<lparr>tok_offset := tok_offset t - source_base ts\<rparr>"
  have ok: "window_ok rest input w" and b: "source_base ts = ws_base w" using assms(1) by (auto simp: windowed_base_def source_base_def)
  have "shift_token (ws_base w) ?t = t" using assms(3) b by (simp add: shift_token_def window_token_def)
  then have "window_token input w (shift_token (ws_base w) ?t)" using assms(3) by simp
  from window_position_after [OF ok assms(2) this] show "placed input w (position_after_token ts t)"
    "ws_base w + p_pos (position_after_token ts t) = tok_offset t + length (tok_text t)"
    using assms(3) b by (simp_all add: position_after_token_def window_token_def)
qed

lemma ts_next_windowed:
  assumes "windowed_ok rest input ts" and "ts_next ts = (t, ts')"
  shows "t = ts_first ts" and "true_token input t" and "windowed_ok rest input ts'" and "ts_rules ts' = ts_rules ts"
    and "windowed_chain input ts \<Longrightarrow> windowed_chain input ts'"
    and "windowed_chain input ts \<Longrightarrow> \<not> skip_whitespace (ts_rules ts) \<and> \<not> skip_comments (ts_rules ts) \<Longrightarrow>
      source_base ts' = source_base ts \<and> p_pos (ts_after_previous ts') = p_pos (ts_after_previous ts) + length (tok_text t)
      \<and> tok_offset t = source_base ts + p_pos (ts_after_previous ts)"
proof -
  let ?a = "if tok_kind (ts_first ts) \<noteq> T_end then position_after_token ts (ts_first ts) else ts_after_previous ts"
  let ?p = "if tok_kind (ts_first ts) \<noteq> T_end then ts_first ts else ts_previous ts"
  let ?s = "ts\<lparr>ts_previous := ?p, ts_after_previous := ?a, ts_first := ts_second ts\<rparr>"
  obtain w where w: "windowed_base rest input w ts" "lx_source (ts_lexer ts) = window_text w"
    "placed input w (lx_cursor (ts_lexer ts))" "lookahead_ok input w (ts_first ts)" "lookahead_ok input w (ts_second ts)"
    using assms(1) by (auto simp: windowed_ok_def)
  note pa = position_after_token_ok [OF w(1,2), of "ts_first ts"]
  have a: "placed input w ?a" using w(1,4) pa by (auto simp: lookahead_ok_def windowed_base_def)
  obtain t2 s2 where n: "lex_next ?s = (t2, s2)" by fastforce
  have nx: "t = ts_first ts" "ts' = s2\<lparr>ts_second := t2\<rparr>" using assms(2) n by (auto simp: ts_next_def Let_def split: if_splits)
  have "windowed_base rest input w ?s" "placed input w (lx_cursor (ts_lexer ?s))" "ts_rules ?s = ts_rules ts"
    using w(1,3) a by (auto simp: windowed_base_def ts_rules_def)
  with lex_next_ok [OF this(1,2) n] obtain lx' w' where s2: "s2 = ?s\<lparr>ts_lexer := lx', ts_window := Some w'\<rparr>"
    "windowed_base rest input w' s2" "window_grown w w'" "lx_source lx' = window_text w'" "lx_rules lx' = ts_rules ts"
    "ws_overflowed w \<longrightarrow> ws_overflowed w'"
    and f: "window_found input (ts_rules ts) w' (lx_cursor (ts_lexer ts)) t2 (lx_cursor lx')" by auto
  show "t = ts_first ts" by (rule nx)
  show "true_token input t" using w(4) nx by (simp add: lookahead_ok_def)
  show r: "ts_rules ts' = ts_rules ts" using nx s2 by (simp add: ts_rules_def)
  have "windowed_base rest input w' ts'" using s2(2) nx by (simp add: windowed_base_def ts_rules_def)
  then show "windowed_ok rest input ts'"
    using nx s2(1,4) f found_lookahead [OF f] lookahead_grown [OF w(5) s2(3)]
    by (auto simp: windowed_ok_def window_found_def)
  have b: "source_base ts = ws_base w" "source_base ts' = ws_base w"
    using w(1) nx s2(1,3) by (auto simp: source_base_def windowed_base_def window_grown_def)
  have step: "p_pos ?a \<le> p_pos c" "\<not> skip_whitespace (ts_rules ts) \<and> \<not> skip_comments (ts_rules ts) \<longrightarrow> p_pos ?a = p_pos c
      \<and> p_pos ?a = p_pos (ts_after_previous ts) + length (tok_text t) \<and> tok_offset t = ws_base w + p_pos (ts_after_previous ts)"
    if "window_found input (ts_rules ts) w (ts_after_previous ts) (ts_first ts) c" for c
    using that pa(2) nx(1) by (auto simp: window_found_def)
  have w': "ts_window ts = Some w" using w(1) by (simp add: windowed_base_def)
  show "windowed_chain input ts'" if "windowed_chain input ts"
  proof -
    from that w' obtain c where c: "window_found input (ts_rules ts) w (ts_after_previous ts) (ts_first ts) c"
      "window_found input (ts_rules ts) w c (ts_second ts) (lx_cursor (ts_lexer ts))" by (auto simp: windowed_chain_def)
    have "window_found input (ts_rules ts) w' ?a (ts_second ts) (lx_cursor (ts_lexer ts))"
      using window_found_start [OF window_found_grown [OF c(2) s2(3)]] s2(6) step [OF c(1)] by auto
    then show ?thesis using nx s2(1) f r by (auto simp: windowed_chain_def)
  qed
  show "source_base ts' = source_base ts \<and> p_pos (ts_after_previous ts') = p_pos (ts_after_previous ts) + length (tok_text t)
      \<and> tok_offset t = source_base ts + p_pos (ts_after_previous ts)"
    if "windowed_chain input ts" "\<not> skip_whitespace (ts_rules ts) \<and> \<not> skip_comments (ts_rules ts)"
  proof -
    from that(1) w' obtain c where c: "window_found input (ts_rules ts) w (ts_after_previous ts) (ts_first ts) c"
      by (auto simp: windowed_chain_def)
    have "ts_after_previous ts' = ?a" using nx(2) s2(1) by simp
    then show ?thesis using step(2) [OF c] that(2) b by simp
  qed
qed

lemma drop_bytes_ok:
  assumes "windowed_base rest input w ts" and "n \<le> p_pos (ts_after_previous ts)"
  shows "\<exists>w'. windowed_base rest input w' (drop_bytes n w ts) \<and> ts_rules (drop_bytes n w ts) = ts_rules ts
     \<and> ws_base w' + p_pos (ts_after_previous (drop_bytes n w ts)) = ws_base w + p_pos (ts_after_previous ts)
     \<and> ts_lexer (drop_bytes n w ts) = ts_lexer ts"
proof (cases "n = 0")
  case True
  then show ?thesis using assms(1) by (auto simp: drop_bytes_def)
next
  case False
  have w: "window_ok rest input w" "n \<le> ws_used w" using assms by (auto simp: windowed_base_def placed_def)
  note d = window_discard_ok [OF w]
  show ?thesis using False assms d
    by (intro exI [of _ "window_discard n w"]) (auto simp: drop_bytes_def Let_def windowed_base_def placed_def ts_rules_def shift_def ac_simps)
qed

lemma line_start_le: "line_start s n \<le> n"
  by (induction s n rule: line_start.induct) auto

lemma discard_consumed_windowed:
  assumes "windowed_ok rest input ts"
  shows "windowed_ok rest input (discard_consumed ts)" and "windowed_chain input (discard_consumed ts)"
    and "ts_rules (discard_consumed ts) = ts_rules ts"
    and "source_base (discard_consumed ts) + p_pos (ts_after_previous (discard_consumed ts))
       = source_base ts + p_pos (ts_after_previous ts)"
proof -
  obtain w where w: "windowed_base rest input w ts" using assms by (auto simp: windowed_ok_def)
  define n where "n = (let consumed = min (p_pos (ts_after_previous ts)) (length (window_text w));
      keep = line_start (window_text w) consumed in if consumed - keep > length (ws_buffer w) div 2 then consumed else keep)"
  have n: "n \<le> p_pos (ts_after_previous ts)"
    using line_start_le [of "window_text w" "min (p_pos (ts_after_previous ts)) (length (window_text w))"]
    unfolding n_def Let_def by simp
  have d: "discard_consumed ts = refill (drop_bytes n w ts)"
    using w by (simp add: discard_consumed_def windowed_base_def n_def Let_def)
  from drop_bytes_ok [OF w n] obtain w' where b: "windowed_base rest input w' (drop_bytes n w ts)"
    "ts_rules (drop_bytes n w ts) = ts_rules ts"
    "ws_base w' + p_pos (ts_after_previous (drop_bytes n w ts)) = ws_base w + p_pos (ts_after_previous ts)" by blast
  note r = windowed_refill_ok [OF b(1)]
  show "windowed_ok rest input (discard_consumed ts)" "windowed_chain input (discard_consumed ts)"
    "ts_rules (discard_consumed ts) = ts_rules ts"
    using r b(2) d by simp_all
  show "source_base (discard_consumed ts) + p_pos (ts_after_previous (discard_consumed ts))
       = source_base ts + p_pos (ts_after_previous ts)"
    using r(3,5) b(3) d w by (auto simp: source_base_def windowed_base_def window_grown_def)
qed

lemma foldl_grow_pos: "(0::nat) < m \<Longrightarrow> 0 < foldl (\<lambda>m s. if f s > m then f s else m) m xs"
  by (induction xs arbitrary: m) auto

lemma stream_margin_pos: "0 < stream_margin r"
proof -
  let ?grow = "\<lambda>xs m. foldl (\<lambda>m s. if length s + 2 > m then length s + 2 else m) m xs"
  have "0 < ?grow (number_suffixes r) (?grow (string_prefixes r) (?grow (operators r) 16))"
    by (intro foldl_grow_pos) simp
  then show ?thesis by (simp add: stream_margin_def Let_def)
qed

lemma set_rules_windowed:
  assumes "windowed_ok rest input ts" and "rules_ok r"
  shows "windowed_ok rest input (ts_set_rules ts r)"
proof -
  obtain w where "windowed_base rest input w ts" using assms(1) by (auto simp: windowed_ok_def)
  then have "windowed_base rest input w (ts\<lparr>ts_lexer := lexer_set_rules (ts_lexer ts) r, ts_margin := stream_margin r\<rparr>)"
    using assms(2) by (simp add: windowed_base_def ts_rules_def lexer_set_rules_def stream_margin_pos)
  from windowed_refill_ok(1) [OF this] show ?thesis by (simp add: ts_set_rules_def)
qed

lemma skip_while_end: "skip_while P src i \<le> max i (length src)"
proof (induction P src i rule: skip_while.induct)
  case (1 P src i)
  then show ?case by (subst skip_while.simps) (auto simp: max_def split: if_splits)
qed

text \<open>One raw piece out of the window: a slice of the input from the cursor on, and the cursor behind it.\<close>

lemma take_raw_piece:
  assumes "window_ok rest input w" and "lx_source lx = window_text w" and "placed input w (lx_cursor lx)"
    and "lexer_take_raw lx stop_bytes = (piece, lx')"
  shows "true_token input (shift_token (ws_base w) piece)" and "placed input w (lx_cursor lx')"
    and "lx_source lx' = window_text w" and "lx_rules lx' = lx_rules lx"
proof -
  let ?c = "lx_cursor lx" and ?pre = "take (ws_base w) input"
  define n where "n = skip_while (\<lambda>ch. \<not> contains_byte stop_bytes ch) (window_text w) (p_pos ?c) - p_pos ?c"
  note sp = window_split [OF assms(1)]
  have le: "ws_base w + ws_used w \<le> length input" using assms(1) by (simp add: window_ok_def)
  have p: "p_pos ?c \<le> ws_used w" "in_sync input (shift (ws_base w) ?c)" using assms(3) by (auto simp: placed_def)
  have n: "p_pos ?c + n \<le> ws_used w"
    using skip_while_end [of "\<lambda>ch. \<not> contains_byte stop_bytes ch" "window_text w" "p_pos ?c"] p(1) sp(3) by (simp add: n_def max_def)
  have r: "piece = fst (emit (window_text w) ?c T_string n)" "lx' = lx\<lparr>lx_cursor := advance_to (window_text w) ?c (p_pos ?c + n)\<rparr>"
    using assms(2,4) by (auto simp: lexer_take_raw_def emit_def n_def Let_def)
  show "lx_source lx' = window_text w" "lx_rules lx' = lx_rules lx" using r assms(2) by simp_all
  have "in_sync (?pre @ window_text w) (shift (length ?pre) ?c)" using assms(1,3) sp(2) by (simp add: placed_iff)
  from in_sync_advance [OF this, of "p_pos ?c + n + length ?pre"] show "placed input w (lx_cursor lx')"
    unfolding advance_to_shift using assms(1) r(2) sp(2) by (simp add: placed_iff shift_def)
  have "window_text w = take (ws_used w) (drop (ws_base w) input)" using assms(1) by (simp add: window_ok_def)
  then have "take n (drop (p_pos ?c) (window_text w)) = take n (drop (p_pos ?c + ws_base w) input)"
    using n by (simp add: drop_take min_def)
  then show "true_token input (shift_token (ws_base w) piece)"
    using r(1) p(2) n le place_of_sync [OF p(2)] by (simp add: true_token_def emit_def shift_token_def shift_def)
qed

lemma take_raw_loop_ok:
  "window_ok rest input w \<Longrightarrow> placed input w (lx_cursor lx) \<Longrightarrow> take_raw_loop stop_bytes lx w = (piece, ct, lx', w') \<Longrightarrow>
   true_token input (shift_token (ws_base w') piece) \<and> placed input w' (lx_cursor lx') \<and> window_ok rest input w'
     \<and> window_grown w w' \<and> lx_source lx' = window_text w' \<and> lx_rules lx' = lx_rules lx"
proof (induction stop_bytes lx w rule: take_raw_loop.induct)
  case (1 stop_bytes lx w)
  let ?start = "lexer_set_source lx (window_text w)"
  obtain p0 lx1 where nx: "lexer_take_raw ?start stop_bytes = (p0, lx1)" by fastforce
  have st: "lexer_state ?start = lx_cursor lx" "lx_source ?start = window_text w" "lx_cursor ?start = lx_cursor lx"
    "lx_rules ?start = lx_rules lx" by (simp_all add: lexer_state_def lexer_set_source_def)
  note pc = take_raw_piece [OF "1.prems"(1) st(2) _ nx, unfolded st, OF "1.prems"(2)]
  let ?fin = "\<not> (tok_offset p0 + length (tok_text p0) \<ge> ws_used w) \<or> ws_eof w"
  show ?case
  proof (cases "?fin \<or> ws_used w \<ge> length (ws_buffer w)")
    case True
    then have "piece = p0 \<and> lx' = lx1 \<and> w' = w"
      using "1.prems"(3) nx by (auto simp: take_raw_loop.simps [of stop_bytes lx w] Let_def split: if_splits)
    then show ?thesis using pc "1.prems"(1) by simp
  next
    case False
    let ?lx = "lexer_restore lx1 (lx_cursor lx)" and ?w = "window_fill (length (ws_buffer w)) w"
    have loop: "take_raw_loop stop_bytes ?lx ?w = (piece, ct, lx', w')"
      using "1.prems"(3) nx False st(1) by (simp add: take_raw_loop.simps [of stop_bytes lx w] Let_def)
    have lx: "lx_rules ?lx = lx_rules lx" "lx_cursor ?lx = lx_cursor lx" using pc by (simp_all add: lexer_restore_def)
    note f = window_fill_ok [OF "1.prems"(1), of "length (ws_buffer w)"]
    show ?thesis
      using "1.IH" [OF refl st(1) [symmetric] refl nx [symmetric] refl _ _ _ _ loop] False f lx placed_grown [OF "1.prems"(2)]
        window_grown_trans by auto
  qed
qed

lemma lex_next_restored:
  assumes "windowed_base rest input w ts" and "lx_cursor (ts_lexer ts) = c"
  shows "lex_next (ts\<lparr>ts_lexer := lexer_restore (ts_lexer ts) c\<rparr>) = lex_next ts"
proof -
  have "lexer_set_source (lexer_restore (ts_lexer ts) c) s = lexer_set_source (ts_lexer ts) s" for s
    using assms(2) by (simp add: lexer_set_source_def lexer_restore_def)
  then have "lex_windowed_loop m (lexer_restore (ts_lexer ts) c) w = lex_windowed_loop m (ts_lexer ts) w" for m
    by (simp add: lex_windowed_loop.simps [of m _ w])
  then show ?thesis using assms(1) by (simp add: lex_next_def lex_windowed_def windowed_base_def split: prod.splits)
qed

lemma take_raw_windowed:
  assumes "windowed_ok rest input ts" and "take_raw_until ts stop_bytes = (piece, ts')"
  shows "true_token input piece" and "windowed_ok rest input ts'"
proof -
  obtain w where w: "windowed_base rest input w ts" using assms(1) by (auto simp: windowed_ok_def)
  let ?ts1 = "ts\<lparr>ts_cut := False\<rparr>"
  define ts2 where "ts2 = (if ts_cut ts \<and> ws_used w \<ge> length (ws_buffer w)
      then drop_bytes (min (p_pos (ts_after_previous ?ts1)) (ws_used w)) w ?ts1 else ?ts1)"
  have b1: "windowed_base rest input w ?ts1" using w by (simp add: windowed_base_def ts_rules_def)
  obtain w2 where b2: "windowed_base rest input w2 ts2"
    using b1 drop_bytes_ok [OF b1, of "min (p_pos (ts_after_previous ?ts1)) (ws_used w)"]
    by (cases "ts_cut ts \<and> ws_used w \<ge> length (ws_buffer w)") (auto simp: ts2_def)
  let ?lx2 = "lexer_restore (ts_lexer ts2) (ts_after_previous ts2)"
  obtain p0 ct lx w3 where loop: "take_raw_loop stop_bytes ?lx2 w2 = (p0, ct, lx, w3)" by (metis prod_cases4)
  have "window_ok rest input w2" "placed input w2 (lx_cursor ?lx2)" using b2 by (auto simp: windowed_base_def lexer_restore_def)
  from take_raw_loop_ok [OF this loop] have l: "true_token input (shift_token (ws_base w3) p0)" "placed input w3 (lx_cursor lx)"
    "window_ok rest input w3" "window_grown w2 w3" "lx_source lx = window_text w3" "lx_rules lx = ts_rules ts2"
    by (simp_all add: lexer_restore_def ts_rules_def)
  let ?p = "p0\<lparr>tok_offset := tok_offset p0 + ws_base w3\<rparr>"
  define ts3 where "ts3 = ts2\<lparr>ts_lexer := lx, ts_window := Some w3, ts_cut := ct, ts_after_previous := lexer_state lx, ts_previous := ?p\<rparr>"
  have b3: "windowed_base rest input w3 ts3" "lx_cursor (ts_lexer ts3) = ts_after_previous ts3"
    using b2 l by (auto simp: windowed_base_def ts3_def ts_rules_def lexer_state_def window_grown_def)
  obtain t1 s4 where n: "lex_next ts3 = (t1, s4)" by fastforce
  obtain t2 s5 where n': "lex_next (s4\<lparr>ts_first := t1\<rparr>) = (t2, s5)" by fastforce
  have rf: "refill ts3 = s5\<lparr>ts_second := t2\<rparr>" using lex_next_restored [OF b3] n n' by (simp add: refill_def)
  have r: "piece = ?p" "ts' = (if ct then ts3\<lparr>ts_first := default_token, ts_second := default_token\<rparr> else refill ts3)"
    using assms(2) w b2 loop n n' rf
    by (auto simp: take_raw_until_def take_raw_windowed_def windowed_base_def Let_def ts2_def [symmetric] ts3_def
        split: if_splits)
  show "true_token input piece" using r(1) l(1) by (simp add: shift_token_def)
  have "windowed_ok rest input (ts3\<lparr>ts_first := default_token, ts_second := default_token\<rparr>)"
    unfolding windowed_ok_def using b3(1) l by (intro exI [of _ w3]) (auto simp: ts3_def windowed_base_def ts_rules_def)
  then show "windowed_ok rest input ts'" using r(2) windowed_refill_ok(1) [OF b3(1)] by simp
qed

lemma token_stream_windowed_ok:
  assumes "reader_ok reader rest" and "rest r = input" and "rules_ok rules"
  shows "windowed_ok rest input (token_stream_windowed (window_init n reader r) rules)"
    and "windowed_chain input (token_stream_windowed (window_init n reader r) rules)"
    and "ts_rules (token_stream_windowed (window_init n reader r) rules) = rules"
    and "source_base (token_stream_windowed (window_init n reader r) rules) = 0"
    and "p_pos (ts_after_previous (token_stream_windowed (window_init n reader r) rules)) = 0"
proof -
  let ?w = "window_init n reader r"
  let ?ts = "\<lparr>ts_source = [], ts_lexer = lexer_init [] rules, ts_first = default_token, ts_second = default_token,
        ts_previous = default_token, ts_after_previous = init_position, ts_window = Some ?w, ts_has_strings = False,
        ts_generation = ws_generation ?w, ts_margin = stream_margin rules, ts_cut = False\<rparr>"
  have b: "windowed_base rest input ?w ?ts"
    using window_init_ok [OF assms(1,2)] assms(3) stream_margin_pos
    by (simp add: windowed_base_def ts_rules_def lexer_init_def placed_def shift_def init_position_def in_sync_def place_of_def
        window_init_def)
  note r = windowed_refill_ok [OF b]
  have "token_stream_windowed ?w rules = refill ?ts" by (simp add: token_stream_windowed_def)
  then show "windowed_ok rest input (token_stream_windowed ?w rules)" "windowed_chain input (token_stream_windowed ?w rules)"
    "ts_rules (token_stream_windowed ?w rules) = rules" "source_base (token_stream_windowed ?w rules) = 0"
    "p_pos (ts_after_previous (token_stream_windowed ?w rules)) = 0"
    using r by (auto simp: ts_rules_def lexer_init_def source_base_def window_grown_def window_init_def init_position_def)
qed

section \<open>Runs\<close>

text \<open>What a parser does to a stream over a window: take a token, drop what it has finished with, change the lexer rules,
  take a raw piece; and the tokens it was handed.\<close>

datatype stream_op = Op_next | Op_discard | Op_rules lexer_rules | Op_raw string

fun run_ops :: "stream_op list \<Rightarrow> 'r token_stream \<Rightarrow> token list \<times> 'r token_stream" where
  "run_ops [] ts = ([], ts)"
| "run_ops (Op_next # ops) ts = (let (t, ts1) = ts_next ts; (toks, ts2) = run_ops ops ts1 in (t # toks, ts2))"
| "run_ops (Op_discard # ops) ts = run_ops ops (discard_consumed ts)"
| "run_ops (Op_rules r # ops) ts = run_ops ops (ts_set_rules ts r)"
| "run_ops (Op_raw stop # ops) ts = (let (t, ts1) = take_raw_until ts stop; (toks, ts2) = run_ops ops ts1 in (t # toks, ts2))"

lemma run_ops_true:
  "windowed_ok rest input ts \<Longrightarrow> (\<And>r. Op_rules r \<in> set ops \<Longrightarrow> rules_ok r) \<Longrightarrow> run_ops ops ts = (toks, ts') \<Longrightarrow>
   (\<forall>t \<in> set toks. true_token input t) \<and> windowed_ok rest input ts'"
proof (induction ops ts arbitrary: toks rule: run_ops.induct)
  case (2 ops ts)
  then show ?case using ts_next_windowed(2,3) [OF "2.prems"(1)] by (fastforce split: prod.splits)
next
  case (3 ops ts)
  then show ?case using discard_consumed_windowed(1) [OF "3.prems"(1)] by auto
next
  case (4 r ops ts)
  then show ?case using set_rules_windowed [OF "4.prems"(1)] by auto
next
  case (5 stop ops ts)
  then show ?case using take_raw_windowed [OF "5.prems"(1)] by (fastforce split: prod.splits)
qed simp

lemma run_ops_lossless:
  "windowed_ok rest input ts \<Longrightarrow> windowed_chain input ts \<Longrightarrow> \<not> skip_whitespace (ts_rules ts) \<and> \<not> skip_comments (ts_rules ts) \<Longrightarrow>
   set ops \<subseteq> {Op_next, Op_discard} \<Longrightarrow> run_ops ops ts = (toks, ts') \<Longrightarrow> n = source_base ts + p_pos (ts_after_previous ts) \<Longrightarrow>
   windowed_ok rest input ts' \<and> windowed_chain input ts' \<and> ts_rules ts' = ts_rules ts
     \<and> n + length (concat (map tok_text toks)) = source_base ts' + p_pos (ts_after_previous ts')
     \<and> concat (map tok_text toks) = take (length (concat (map tok_text toks))) (drop n input)"
proof (induction ops ts arbitrary: toks n rule: run_ops.induct)
  case (2 ops ts)
  obtain t ts1 where nx: "ts_next ts = (t, ts1)" by fastforce
  obtain toks1 where run: "run_ops ops ts1 = (toks1, ts')" "toks = t # toks1" using "2.prems"(5) nx by (auto split: prod.splits)
  note s = ts_next_windowed [OF "2.prems"(1) nx]
  have p: "source_base ts1 = source_base ts" "p_pos (ts_after_previous ts1) = p_pos (ts_after_previous ts) + length (tok_text t)"
    "tok_offset t = n" using s(6) [OF "2.prems"(2,3)] "2.prems"(6) by simp_all
  let ?m = "n + length (tok_text t)"
  have m: "?m = source_base ts1 + p_pos (ts_after_previous ts1)" using p "2.prems"(6) by simp
  have ih: "windowed_ok rest input ts' \<and> windowed_chain input ts' \<and> ts_rules ts' = ts_rules ts1
     \<and> ?m + length (concat (map tok_text toks1)) = source_base ts' + p_pos (ts_after_previous ts')
     \<and> concat (map tok_text toks1) = take (length (concat (map tok_text toks1))) (drop ?m input)"
    using "2.IH" [OF refl nx [symmetric] s(3) s(5) [OF "2.prems"(2)] _ _ run(1) m] "2.prems"(3,4) s(4) by simp
  have "tok_text t = take (length (tok_text t)) (drop n input)" using s(2) p(3) by (simp add: true_token_def)
  then have "tok_text t @ concat (map tok_text toks1)
      = take (length (tok_text t)) (drop n input) @ take (length (concat (map tok_text toks1))) (drop ?m input)"
    using ih by metis
  also have "\<dots> = take (length (tok_text t) + length (concat (map tok_text toks1))) (drop n input)"
    by (simp add: take_add add.commute)
  finally have e: "concat (map tok_text toks) = take (length (tok_text t) + length (concat (map tok_text toks1))) (drop n input)"
    using run(2) by simp
  have l: "length (concat (map tok_text toks)) = length (tok_text t) + length (concat (map tok_text toks1))" using run(2) by simp
  show ?case unfolding l using ih s(4) e by (intro conjI) (simp_all only: add.assoc)
next
  case (3 ops ts)
  note d = discard_consumed_windowed [OF "3.prems"(1)]
  show ?case using "3.IH" [OF d(1,2) _ _ _, of toks n] "3.prems" d by simp
qed auto

section \<open>Properties\<close>

text \<open>Every token that a stream over a window hands out is a piece of the input at its absolute offset, with the
  line and the column of that offset, whatever the reader's chunks are, when the window is refilled or moved, when
  the rules change, and for tokens and raw pieces that do not fit.\<close>

theorem windowed_tokens_true:
  assumes "reader_ok reader rest" and "rules_ok rules" and "\<And>r. Op_rules r \<in> set ops \<Longrightarrow> rules_ok r"
    and "run_ops ops (token_stream_windowed (window_init n reader r0) rules) = (toks, ts')"
  shows "\<forall>t \<in> set toks. true_token (rest r0) t"
  using run_ops_true [OF token_stream_windowed_ok(1) [OF assms(1) refl assms(2)] assms(3,4)] by blast

definition chunk_reader :: "nat \<Rightarrow> string window_reader" where
  "chunk_reader chunk r room = (let k = min chunk (min room (length r)) in (take k r, k, drop k r))"

lemma chunk_reader_ok: "0 < chunk \<Longrightarrow> reader_ok (chunk_reader chunk) id"
  by (auto simp: reader_ok_def chunk_reader_def Let_def min_def split: if_splits)

lemma default_rules_ok [simp]: "rules_ok default_rules"
  by (simp add: rules_ok_def default_rules_def)

theorem windowed_tokens_true_witness:
  "list_all (true_token ''ab {c} de'') (fst (run_ops [Op_next, Op_discard, Op_raw ''}'', Op_rules default_rules, Op_next]
       (token_stream_windowed (window_init 256 (chunk_reader 3) ''ab {c} de'') default_rules)))"
proof -
  let ?run = "run_ops [Op_next, Op_discard, Op_raw ''}'', Op_rules default_rules, Op_next]
       (token_stream_windowed (window_init 256 (chunk_reader 3) ''ab {c} de'') default_rules)"
  from windowed_tokens_true [OF chunk_reader_ok default_rules_ok _ prod.collapse [of ?run, symmetric]] show ?thesis by (auto simp: list_all_iff)
qed

text \<open>C5: Streaming loses nothing. With rules that skip nothing, the texts of the tokens taken one after the other,
  with discards at any moments between them, are a prefix of the input; and at the end of the stream they are the
  whole input, unless the window was too small for a token.\<close>

theorem windowed_stream_lossless:
  assumes "reader_ok reader rest" and "rules_ok rules" and "\<not> skip_whitespace rules" and "\<not> skip_comments rules"
    and "set ops \<subseteq> {Op_next, Op_discard}"
    and "run_ops ops (token_stream_windowed (window_init n reader r0) rules) = (toks, ts')"
  shows "\<exists>k \<le> length (rest r0). concat (map tok_text toks) = take k (rest r0)
     \<and> (ts_at_end ts' \<longrightarrow> k = length (rest r0) \<or> (\<exists>w. ts_window ts' = Some w \<and> ws_overflowed w))"
proof -
  let ?cs = "concat (map tok_text toks)" and ?input = "rest r0"
  note i = token_stream_windowed_ok [OF assms(1) refl assms(2), where r = r0 and n = n]
  have l: "windowed_ok rest ?input ts'" "windowed_chain ?input ts'" "ts_rules ts' = rules"
    "length ?cs = source_base ts' + p_pos (ts_after_previous ts')" "?cs = take (length ?cs) ?input"
    using run_ops_lossless [OF i(1,2) _ assms(5,6) refl, unfolded i(3-5) drop_0 add_0] assms(3,4) by blast+
  have "ts_at_end ts' \<longrightarrow> length ?cs = length ?input \<or> (\<exists>w. ts_window ts' = Some w \<and> ws_overflowed w)"
    using l(2,3,4) assms(3,4) by (auto simp: windowed_chain_def window_found_def ts_at_end_def source_base_def)
  moreover have "length ?cs \<le> length ?input" by (metis l(5) length_take min.cobounded1)
  ultimately show ?thesis using l(5) by blast
qed

theorem windowed_stream_lossless_witness:
  "let rules = default_rules\<lparr>skip_whitespace := False, skip_comments := False\<rparr>;
       run = run_ops [Op_next, Op_next, Op_discard, Op_next, Op_next]
         (token_stream_windowed (window_init 256 (chunk_reader 3) ''ab cd'') rules)
   in \<exists>k \<le> length ''ab cd''. concat (map tok_text (fst run)) = take k ''ab cd''
     \<and> (ts_at_end (snd run) \<longrightarrow> k = length ''ab cd'' \<or> (\<exists>w. ts_window (snd run) = Some w \<and> ws_overflowed w))"
proof -
  let ?rules = "default_rules\<lparr>skip_whitespace := False, skip_comments := False\<rparr>"
  let ?run = "run_ops [Op_next, Op_next, Op_discard, Op_next, Op_next]
         (token_stream_windowed (window_init 256 (chunk_reader 3) ''ab cd'') ?rules)"
  have "rules_ok ?rules" by (simp add: rules_ok_def default_rules_def)
  from windowed_stream_lossless [OF chunk_reader_ok this _ _ _ prod.collapse [of ?run, symmetric]] show ?thesis
    by (simp add: Let_def)
qed

end
