(* ===== verification/Parse_Combinators.thy ===== *)
theory Parse_Combinators
  imports Token_Stream
begin

text \<open>
  The parsing helpers of \<^verbatim>\<open>parsing/token_stream.hpp\<close> around \<^verbatim>\<open>token_stream\<close>: choice, repetition, lists, chains, error
  recovery, memoization. A rule is the caller's function; it gives an error or a value and the stream
  behind it, or \<^const>\<open>None\<close> when it does not return. Every loop is a partial function: on a rule that rewinds the stream it
  may run forever. The contract \<open>parse_rule\<close> states what the helpers need of a rule, each helper gives it
  back, and under it every loop ends. Values that a callback hands to the caller's storage are returned as a list.
\<close>

section \<open>Rules\<close>

type_synonym ('r, 'a) outcome = "((parse_error + 'a) \<times> 'r token_stream) option"

type_synonym ('r, 'a) rule = "'r token_stream \<Rightarrow> ('r, 'a) outcome"

definition expect_one_of :: "'r token_stream \<Rightarrow> token_kind list \<Rightarrow> string \<Rightarrow> (parse_error + token) \<times> 'r token_stream" where
  "expect_one_of ts kinds message =
     (if list_ex (ts_check ts) kinds then let (t, ts') = ts_next ts in (Inr t, ts')
      else (Inl (error_here ts message), ts))"

definition attempt :: "('r, 'a) rule \<Rightarrow> ('r, 'a) rule" where
  "attempt rule ts =
     (case rule ts of
        None \<Rightarrow> None
      | Some (Inl e, ts') \<Rightarrow> Some (Inl e, ts_assign ts' ts)
      | Some (Inr v, ts') \<Rightarrow> Some (Inr v, ts'))"

fun choice_step :: "'r token_stream \<Rightarrow> 'r token_stream \<Rightarrow> parse_error option \<Rightarrow> ('r, 'a) rule \<Rightarrow> ('r, 'a) rule list \<Rightarrow> ('r, 'a) outcome" where
  "choice_step ts saved best rule rest =
     (case rule (ts_assign ts saved) of
        None \<Rightarrow> None
      | Some (Inr v, ts') \<Rightarrow> Some (Inr v, ts')
      | Some (Inl e, ts') \<Rightarrow>
          (let best' = (case best of None \<Rightarrow> e
                        | Some b \<Rightarrow> if tok_offset (pe_at e) > tok_offset (pe_at b) then e else b)
           in case rest of
                [] \<Rightarrow> Some (Inl best', ts_assign ts' saved)
              | next_rule # rules \<Rightarrow> choice_step ts' saved (Some best') next_rule rules))"

declare choice_step.simps [simp del]

definition parse_choice :: "('r, 'a) rule \<Rightarrow> ('r, 'a) rule list \<Rightarrow> ('r, 'a) rule" where
  "parse_choice first rest ts = choice_step ts ts None first rest"

definition parse_optional :: "('r, 'a) rule \<Rightarrow> ('r, 'a option) rule" where
  "parse_optional rule ts =
     (case rule ts of
        None \<Rightarrow> None
      | Some (Inr v, ts') \<Rightarrow> Some (Inr (Some v), ts')
      | Some (Inl e, ts') \<Rightarrow>
          if tok_offset (ts_peek ts') \<noteq> tok_offset (ts_peek ts) then Some (Inl e, ts')
          else Some (Inr None, ts_assign ts' ts))"

record 'a spanned =
  sn_value :: 'a
  sn_span :: source_span

definition parse_spanned :: "('r, 'a) rule \<Rightarrow> ('r, 'a spanned) rule" where
  "parse_spanned rule ts =
     (case rule ts of
        None \<Rightarrow> None
      | Some (Inl e, ts') \<Rightarrow> Some (Inl e, ts')
      | Some (Inr v, ts') \<Rightarrow> Some (Inr \<lparr>sn_value = v, sn_span = span_from ts' (ts_peek ts)\<rparr>, ts'))"

definition with_rules :: "lexer_rules \<Rightarrow> ('r, 'a) rule \<Rightarrow> ('r, 'a) rule" where
  "with_rules rules rule ts =
     (let saved = lx_rules (ts_lexer ts)
      in case rule (ts_set_rules ts rules) of
           None \<Rightarrow> None
         | Some (res, ts') \<Rightarrow> Some (res, ts_set_rules ts' saved))"

section \<open>Repetition\<close>

record repeat_options =
  ro_min :: nat
  ro_max :: nat
  ro_too_few_message :: string

partial_function (option) repeat_loop ::
    "repeat_options \<Rightarrow> ('r, 'a) rule \<Rightarrow> 'a list \<Rightarrow> 'r token_stream \<Rightarrow> ((parse_error + nat) \<times> 'a list \<times> 'r token_stream) option" where
  "repeat_loop opt item acc ts =
     (let finish = (\<lambda>s. if length acc < ro_min opt
                        then Some (Inl (parse_error_at (ro_too_few_message opt) (ts_peek s)), acc, s)
                        else Some (Inr (length acc), acc, s))
      in if \<not> length acc < ro_max opt then finish ts
         else case item ts of
                None \<Rightarrow> None
              | Some (Inl e, ts') \<Rightarrow>
                  if tok_offset (ts_peek ts') \<noteq> tok_offset (ts_peek ts) then Some (Inl e, acc, ts')
                  else finish (ts_assign ts' ts)
              | Some (Inr v, ts') \<Rightarrow>
                  if tok_offset (ts_peek ts') = tok_offset (ts_peek ts) then finish ts'
                  else repeat_loop opt item (acc @ [v]) ts')"

declare repeat_loop.simps [code]

definition parse_repeat ::
    "repeat_options \<Rightarrow> ('r, 'a) rule \<Rightarrow> 'r token_stream \<Rightarrow> ((parse_error + nat) \<times> 'a list \<times> 'r token_stream) option" where
  "parse_repeat opt item ts = repeat_loop opt item [] ts"

partial_function (option) until_loop ::
    "token_kind \<Rightarrow> string \<Rightarrow> ('r, 'a) rule \<Rightarrow> 'a list \<Rightarrow> 'r token_stream \<Rightarrow> ((parse_error + nat) \<times> 'a list \<times> 'r token_stream) option" where
  "until_loop kind txt' item acc ts =
     (if ts_check_text ts kind txt' then Some (Inr (length acc), acc, ts)
      else if ts_at_end ts then Some (Inl (error_here ts ''unexpected end of input''), acc, ts)
      else case item ts of
             None \<Rightarrow> None
           | Some (Inl e, ts') \<Rightarrow> Some (Inl e, acc, ts')
           | Some (Inr v, ts') \<Rightarrow>
               if tok_offset (ts_peek ts') = tok_offset (ts_peek ts)
               then Some (Inl (error_here ts' ''item consumed no input''), acc, ts')
               else until_loop kind txt' item (acc @ [v]) ts')"

declare until_loop.simps [code]

definition parse_until ::
    "token_kind \<Rightarrow> string \<Rightarrow> ('r, 'a) rule \<Rightarrow> 'r token_stream \<Rightarrow> ((parse_error + nat) \<times> 'a list \<times> 'r token_stream) option" where
  "parse_until kind txt' item ts = until_loop kind txt' item [] ts"

partial_function (option) chain_loop ::
    "token_kind \<Rightarrow> string \<Rightarrow> ('r, 'a) rule \<Rightarrow> (token \<Rightarrow> 'a \<Rightarrow> 'a \<Rightarrow> parse_error + 'a) \<Rightarrow> nat \<Rightarrow> nat \<Rightarrow> 'a
     \<Rightarrow> 'r token_stream \<Rightarrow> ('r, 'a) outcome" where
  "chain_loop kind separator item fold' max_items items value' ts =
     (case ts_accept_text ts kind separator of
        (None, ts1) \<Rightarrow> Some (Inr value', ts1)
      | (Some sep, ts1) \<Rightarrow>
          if items \<ge> max_items then Some (Inl (parse_error_at ''too many items in chain'' sep), ts1)
          else (case item ts1 of
                  None \<Rightarrow> None
                | Some (Inl e, ts2) \<Rightarrow> Some (Inl e, ts2)
                | Some (Inr v, ts2) \<Rightarrow>
                    (case fold' sep value' v of
                       Inl e \<Rightarrow> Some (Inl e, ts2)
                     | Inr w \<Rightarrow> chain_loop kind separator item fold' max_items (items + 1) w ts2)))"

declare chain_loop.simps [code]

definition parse_chain ::
    "token_kind \<Rightarrow> string \<Rightarrow> ('r, 'a) rule \<Rightarrow> (token \<Rightarrow> 'a \<Rightarrow> 'a \<Rightarrow> parse_error + 'a) \<Rightarrow> nat \<Rightarrow> ('r, 'a) rule" where
  "parse_chain kind separator item fold' max_items ts =
     (case item ts of
        None \<Rightarrow> None
      | Some (Inl e, ts') \<Rightarrow> Some (Inl e, ts')
      | Some (Inr v, ts') \<Rightarrow> chain_loop kind separator item fold' max_items 1 v ts')"

text \<open>\<^verbatim>\<open>extend\<close> gets the value so far and gives back whether it extended it, and the value.\<close>

type_synonym ('r, 'a) extender = "'r token_stream \<Rightarrow> 'a \<Rightarrow> ((parse_error + bool) \<times> 'a \<times> 'r token_stream) option"

partial_function (option) left_recursive_loop ::
    "('r, 'a) extender \<Rightarrow> nat \<Rightarrow> nat \<Rightarrow> 'a \<Rightarrow> 'r token_stream \<Rightarrow> ('r, 'a) outcome" where
  "left_recursive_loop extender max_steps steps value' ts =
     (case extender ts value' of
        None \<Rightarrow> None
      | Some (Inl e, w, ts') \<Rightarrow> Some (Inl e, ts')
      | Some (Inr extended, w, ts') \<Rightarrow>
          if \<not> extended then Some (Inr w, ts')
          else if tok_offset (ts_previous ts') = tok_offset (ts_previous ts)
                  \<and> tok_kind (ts_previous ts') = tok_kind (ts_previous ts)
          then Some (Inl (parse_error_at ''left recursion made no progress'' (ts_peek ts)), ts')
          else if steps \<ge> max_steps then Some (Inl (parse_error_at ''too many suffixes'' (ts_previous ts')), ts')
          else left_recursive_loop extender max_steps (steps + 1) w ts')"

declare left_recursive_loop.simps [code]

definition parse_left_recursive :: "('r, 'a) rule \<Rightarrow> ('r, 'a) extender \<Rightarrow> nat \<Rightarrow> ('r, 'a) rule" where
  "parse_left_recursive seed extender max_steps ts =
     (case seed ts of
        None \<Rightarrow> None
      | Some (Inl e, ts') \<Rightarrow> Some (Inl e, ts')
      | Some (Inr v, ts') \<Rightarrow> left_recursive_loop extender max_steps 0 v ts')"

section \<open>Lists\<close>

record list_options =
  lo_open :: string
  lo_close :: string
  lo_separator :: string
  lo_allow_trailing :: bool

definition list_close ::
    "list_options \<Rightarrow> 'c \<Rightarrow> 'a list \<Rightarrow> 'r token_stream \<Rightarrow> ((parse_error + 'c) \<times> 'a list \<times> 'r token_stream) option" where
  "list_close opt result acc ts =
     (if lo_close opt \<noteq> []
      then (case ts_expect_text ts T_punctuation (lo_close opt) ''expected separator or closing bracket'' of
              (Inl e, ts') \<Rightarrow> Some (Inl e, acc, ts')
            | (Inr _, ts') \<Rightarrow> Some (Inr result, acc, ts'))
      else Some (Inr result, acc, ts))"

partial_function (option) list_loop ::
    "list_options \<Rightarrow> ('r, 'a) rule \<Rightarrow> 'a list \<Rightarrow> 'r token_stream \<Rightarrow> ((parse_error + unit) \<times> 'a list \<times> 'r token_stream) option" where
  "list_loop opt item acc ts =
     (case item ts of
        None \<Rightarrow> None
      | Some (Inl e, ts1) \<Rightarrow> Some (Inl e, acc, ts1)
      | Some (Inr v, ts1) \<Rightarrow>
          (let (separated, ts2) = ts_skip_text ts1 T_punctuation (lo_separator opt)
           in if \<not> separated then list_close opt () (acc @ [v]) ts2
              else let (closed, ts3) = (if lo_allow_trailing opt \<and> lo_close opt \<noteq> []
                                        then ts_skip_text ts2 T_punctuation (lo_close opt) else (False, ts2))
                   in if closed then Some (Inr (), acc @ [v], ts3) else list_loop opt item (acc @ [v]) ts3))"

declare list_loop.simps [code]

text \<open>The opening bracket, and the closing one directly behind it: \<^const>\<open>Inr\<close> when there are elements to read.\<close>

definition list_open :: "list_options \<Rightarrow> 'r token_stream \<Rightarrow> (parse_error + bool) \<times> 'r token_stream" where
  "list_open opt ts =
     (let (opened, ts1) = (if lo_open opt \<noteq> [] then ts_expect_text ts T_punctuation (lo_open opt) ''expected opening bracket''
                           else (Inr default_token, ts))
      in case opened of
           Inl e \<Rightarrow> (Inl e, ts1)
         | Inr _ \<Rightarrow>
             if lo_close opt \<noteq> []
             then (let (closed, ts2) = ts_skip_text ts1 T_punctuation (lo_close opt) in (Inr (\<not> closed), ts2))
             else (Inr True, ts1))"

definition parse_list ::
    "list_options \<Rightarrow> ('r, 'a) rule \<Rightarrow> 'r token_stream \<Rightarrow> ((parse_error + unit) \<times> 'a list \<times> 'r token_stream) option" where
  "parse_list opt item ts =
     (case list_open opt ts of
        (Inl e, ts1) \<Rightarrow> Some (Inl e, [], ts1)
      | (Inr False, ts1) \<Rightarrow> Some (Inr (), [], ts1)
      | (Inr True, ts1) \<Rightarrow> list_loop opt item [] ts1)"

section \<open>Error recovery\<close>

record token_sync =
  sy_kind :: token_kind
  sy_text :: string

definition sync_matches :: "token_sync list \<Rightarrow> token \<Rightarrow> bool" where
  "sync_matches sync tok \<longleftrightarrow>
     list_ex (\<lambda>s. sy_kind s = tok_kind tok \<and> (sy_text s = [] \<or> sy_text s = tok_text tok)) sync"

partial_function (option) recover_loop :: "token_sync list \<Rightarrow> nat \<Rightarrow> 'r token_stream \<Rightarrow> (nat \<times> 'r token_stream) option" where
  "recover_loop sync skipped ts =
     (if ts_at_end ts \<or> sync_matches sync (ts_peek ts) then Some (skipped, ts)
      else recover_loop sync (skipped + 1) (snd (ts_next ts)))"

declare recover_loop.simps [code]

definition recover_to :: "'r token_stream \<Rightarrow> token_sync list \<Rightarrow> (nat \<times> 'r token_stream) option" where
  "recover_to ts sync = recover_loop sync 0 ts"

record bracket_pair =
  bp_open_kind :: token_kind
  bp_open :: string
  bp_close_kind :: token_kind
  bp_close :: string

definition opens_bracket :: "bracket_pair list \<Rightarrow> token \<Rightarrow> bool" where
  "opens_bracket brackets tok \<longleftrightarrow> list_ex (\<lambda>b. bp_open_kind b = tok_kind tok \<and> bp_open b = tok_text tok) brackets"

definition closes_bracket :: "bracket_pair list \<Rightarrow> token \<Rightarrow> bool" where
  "closes_bracket brackets tok \<longleftrightarrow> list_ex (\<lambda>b. bp_close_kind b = tok_kind tok \<and> bp_close b = tok_text tok) brackets"

partial_function (option) balanced_loop ::
    "(token \<Rightarrow> bool) \<Rightarrow> bracket_pair list \<Rightarrow> nat \<Rightarrow> nat \<Rightarrow> nat \<Rightarrow> 'r token_stream \<Rightarrow> (nat \<times> 'r token_stream) option" where
  "balanced_loop is_sync brackets max_depth skipped depth ts =
     (if ts_at_end ts then Some (skipped, ts)
      else let tok = ts_peek ts; opens = opens_bracket brackets tok; closes = closes_bracket brackets tok
           in if depth = 0 \<and> is_sync tok then Some (skipped, ts)
              else if opens \<and> depth \<ge> max_depth then Some (skipped, ts)
              else balanced_loop is_sync brackets max_depth (skipped + 1)
                     (if opens then depth + 1 else if closes \<and> depth > 0 then depth - 1 else depth) (snd (ts_next ts)))"

declare balanced_loop.simps [code]

definition recover_balanced_if ::
    "'r token_stream \<Rightarrow> (token \<Rightarrow> bool) \<Rightarrow> bracket_pair list \<Rightarrow> nat \<Rightarrow> (nat \<times> 'r token_stream) option" where
  "recover_balanced_if ts is_sync brackets max_depth = balanced_loop is_sync brackets max_depth 0 0 ts"

definition recover_balanced ::
    "'r token_stream \<Rightarrow> token_sync list \<Rightarrow> bracket_pair list \<Rightarrow> nat \<Rightarrow> (nat \<times> 'r token_stream) option" where
  "recover_balanced ts sync brackets max_depth = recover_balanced_if ts (sync_matches sync) brackets max_depth"

record error_list =
  el_capacity :: nat
  el_items :: "stored_error list"
  el_total :: nat

definition error_list_init :: "nat \<Rightarrow> error_list" where
  "error_list_init n = \<lparr>el_capacity = n, el_items = [], el_total = 0\<rparr>"

definition error_list_add :: "error_list \<Rightarrow> parse_error \<Rightarrow> error_list" where
  "error_list_add l error =
     l\<lparr>el_items := (if length (el_items l) < el_capacity l then el_items l @ [store_error error] else el_items l),
       el_total := el_total l + 1\<rparr>"

definition error_list_overflowed :: "error_list \<Rightarrow> bool" where
  "error_list_overflowed l \<longleftrightarrow> el_total l > length (el_items l)"

text \<open>Lists whose failing items are recorded.\<close>

definition list_sync :: "list_options \<Rightarrow> token \<Rightarrow> bool" where
  "list_sync opt tok \<longleftrightarrow> tok_kind tok = T_punctuation
     \<and> (tok_text tok = lo_separator opt \<or> lo_close opt \<noteq> [] \<and> tok_text tok = lo_close opt)"

definition list_item_recovering ::
    "list_options \<Rightarrow> bracket_pair list \<Rightarrow> nat \<Rightarrow> ('r, 'a) rule \<Rightarrow> error_list \<Rightarrow> nat \<Rightarrow> 'a list \<Rightarrow> 'r token_stream
     \<Rightarrow> (error_list \<times> nat \<times> 'a list \<times> 'r token_stream) option" where
  "list_item_recovering opt brackets max_depth item errors failed acc ts =
     (case item ts of
        None \<Rightarrow> None
      | Some (Inr v, ts1) \<Rightarrow> Some (errors, failed, acc @ [v], ts1)
      | Some (Inl e, ts1) \<Rightarrow>
          (case recover_balanced_if ts1 (list_sync opt) brackets max_depth of
             None \<Rightarrow> None
           | Some (_, ts2) \<Rightarrow>
               Some (error_list_add errors e, failed + 1, acc,
                     if \<not> ts_at_end ts2 \<and> \<not> list_sync opt (ts_peek ts2) then snd (ts_next ts2) else ts2)))"

partial_function (option) list_recovering_loop ::
    "list_options \<Rightarrow> bracket_pair list \<Rightarrow> nat \<Rightarrow> ('r, 'a) rule \<Rightarrow> error_list \<Rightarrow> nat \<Rightarrow> 'a list \<Rightarrow> 'r token_stream
     \<Rightarrow> (error_list \<times> (parse_error + nat) \<times> 'a list \<times> 'r token_stream) option" where
  "list_recovering_loop opt brackets max_depth item errors failed acc ts =
     (case list_item_recovering opt brackets max_depth item errors failed acc ts of
        None \<Rightarrow> None
      | Some (errors1, failed1, acc1, ts1) \<Rightarrow>
          (let (separated, ts2) = ts_skip_text ts1 T_punctuation (lo_separator opt)
           in if \<not> separated then map_option (Pair errors1) (list_close opt failed1 acc1 ts2)
              else let (closed, ts3) = (if lo_allow_trailing opt \<and> lo_close opt \<noteq> []
                                        then ts_skip_text ts2 T_punctuation (lo_close opt) else (False, ts2))
                   in if closed then Some (errors1, Inr failed1, acc1, ts3)
                      else list_recovering_loop opt brackets max_depth item errors1 failed1 acc1 ts3))"

declare list_recovering_loop.simps [code]

definition parse_list_recovering ::
    "list_options \<Rightarrow> error_list \<Rightarrow> bracket_pair list \<Rightarrow> ('r, 'a) rule \<Rightarrow> nat \<Rightarrow> 'r token_stream
     \<Rightarrow> (error_list \<times> (parse_error + nat) \<times> 'a list \<times> 'r token_stream) option" where
  "parse_list_recovering opt errors brackets item max_depth ts =
     (case list_open opt ts of
        (Inl e, ts1) \<Rightarrow> Some (errors, Inl e, [], ts1)
      | (Inr False, ts1) \<Rightarrow> Some (errors, Inr 0, [], ts1)
      | (Inr True, ts1) \<Rightarrow> list_recovering_loop opt brackets max_depth item errors 0 [] ts1)"

section \<open>Statements\<close>

partial_function (option) statements_loop ::
    "('r token_stream \<Rightarrow> (nat \<times> 'r token_stream) option) \<Rightarrow> ('r, 'a) rule \<Rightarrow> error_list \<Rightarrow> 'a list \<Rightarrow> 'r token_stream
     \<Rightarrow> (error_list \<times> 'a list \<times> 'r token_stream) option" where
  "statements_loop recover statement errors acc ts =
     (if ts_at_end ts then Some (errors, acc, ts)
      else case statement ts of
             None \<Rightarrow> None
           | Some (Inr v, ts1) \<Rightarrow>
               statements_loop recover statement errors (acc @ [v])
                 (if \<not> ts_at_end ts1 \<and> tok_offset (ts_peek ts1) = tok_offset (ts_peek ts) then snd (ts_next ts1) else ts1)
           | Some (Inl e, ts1) \<Rightarrow>
               (case recover ts1 of
                  None \<Rightarrow> None
                | Some (_, ts2) \<Rightarrow>
                    if ts_at_end ts2 then Some (error_list_add errors e, acc, ts2)
                    else statements_loop recover statement (error_list_add errors e) acc (snd (ts_next ts2))))"

declare statements_loop.simps [code]

definition parse_statements ::
    "token_sync list \<Rightarrow> error_list \<Rightarrow> ('r, 'a) rule \<Rightarrow> 'r token_stream \<Rightarrow> (error_list \<times> 'a list \<times> 'r token_stream) option" where
  "parse_statements sync errors statement ts = statements_loop (\<lambda>s. recover_to s sync) statement errors [] ts"

definition parse_statements_balanced ::
    "token_sync list \<Rightarrow> bracket_pair list \<Rightarrow> error_list \<Rightarrow> ('r, 'a) rule \<Rightarrow> 'r token_stream
     \<Rightarrow> (error_list \<times> 'a list \<times> 'r token_stream) option" where
  "parse_statements_balanced sync brackets errors statement ts =
     statements_loop (\<lambda>s. recover_balanced s sync brackets 64) statement errors [] ts"

partial_function (option) statements_until_loop ::
    "token_kind \<Rightarrow> string \<Rightarrow> token_sync list \<Rightarrow> bracket_pair list \<Rightarrow> ('r, 'a) rule \<Rightarrow> error_list \<Rightarrow> 'a list \<Rightarrow> 'r token_stream
     \<Rightarrow> (error_list \<times> 'a list \<times> 'r token_stream) option" where
  "statements_until_loop close_kind close sync brackets statement errors acc ts =
     (if ts_at_end ts then Some (error_list_add errors (parse_error_at ''unexpected end of input'' (ts_peek ts)), acc, ts)
      else if ts_check_text ts close_kind close then Some (errors, acc, ts)
      else case statement ts of
             None \<Rightarrow> None
           | Some (Inr v, ts1) \<Rightarrow>
               statements_until_loop close_kind close sync brackets statement errors (acc @ [v])
                 (if tok_offset (ts_peek ts1) = tok_offset (ts_peek ts) \<and> \<not> ts_at_end ts1 \<and> \<not> ts_check_text ts1 close_kind close
                  then snd (ts_next ts1) else ts1)
           | Some (Inl e, ts1) \<Rightarrow>
               (case recover_balanced_if ts1
                       (\<lambda>tok. tok_kind tok = close_kind \<and> tok_text tok = close \<or> sync_matches sync tok) brackets 64 of
                  None \<Rightarrow> None
                | Some (_, ts2) \<Rightarrow>
                    statements_until_loop close_kind close sync brackets statement (error_list_add errors e) acc
                      (if \<not> ts_at_end ts2 \<and> \<not> ts_check_text ts2 close_kind close then snd (ts_next ts2) else ts2)))"

declare statements_until_loop.simps [code]

definition parse_statements_until ::
    "token_kind \<Rightarrow> string \<Rightarrow> token_sync list \<Rightarrow> bracket_pair list \<Rightarrow> error_list \<Rightarrow> ('r, 'a) rule \<Rightarrow> 'r token_stream
     \<Rightarrow> (error_list \<times> 'a list \<times> 'r token_stream) option" where
  "parse_statements_until close_kind close sync brackets errors statement ts =
     statements_until_loop close_kind close sync brackets statement errors [] ts"

section \<open>Memoization\<close>

record ('r, 'a) memo_entry =
  me_used :: bool
  me_rule_id :: u32
  me_offset :: nat
  me_result :: "(parse_error + 'a) option"
  me_end :: "'r token_stream option"

record ('r, 'a) memo_table =
  mt_entries :: "('r, 'a) memo_entry list"
  mt_hits :: nat
  mt_misses :: nat

definition memo_empty_entry :: "('r, 'a) memo_entry" where
  "memo_empty_entry = \<lparr>me_used = False, me_rule_id = 0, me_offset = 0, me_result = None, me_end = None\<rparr>"

definition memo_table_init :: "nat \<Rightarrow> ('r, 'a) memo_table" where
  "memo_table_init n = \<lparr>mt_entries = replicate n memo_empty_entry, mt_hits = 0, mt_misses = 0\<rparr>"

definition memo_clear :: "('r, 'a) memo_table \<Rightarrow> ('r, 'a) memo_table" where
  "memo_clear t = \<lparr>mt_entries = replicate (length (mt_entries t)) memo_empty_entry, mt_hits = 0, mt_misses = 0\<rparr>"

text \<open>The hash is computed in \<^verbatim>\<open>size_t\<close>, of 64 bits.\<close>

definition memo_slot :: "nat \<Rightarrow> u32 \<Rightarrow> nat \<Rightarrow> nat" where
  "memo_slot n rule_id offset = unat ((of_nat offset * 31 + ucast rule_id :: u64)) mod n"

definition memo_run ::
    "u32 \<Rightarrow> ('r, 'a) rule \<Rightarrow> ('r, 'a) memo_table \<Rightarrow> 'r token_stream \<Rightarrow> nat \<Rightarrow> nat
     \<Rightarrow> ((parse_error + 'a) \<times> ('r, 'a) memo_table \<times> 'r token_stream) option" where
  "memo_run rule_id rule table ts offset i =
     (case rule ts of
        None \<Rightarrow> None
      | Some (result, ts') \<Rightarrow>
          Some (result,
                table\<lparr>mt_misses := mt_misses table + 1,
                  mt_entries := (mt_entries table)[i := \<lparr>me_used = True, me_rule_id = rule_id, me_offset = offset,
                                                        me_result = Some result, me_end = Some ts'\<rparr>]\<rparr>,
                ts'))"

definition memoize ::
    "u32 \<Rightarrow> ('r, 'a) rule \<Rightarrow> ('r, 'a) memo_table \<Rightarrow> 'r token_stream
     \<Rightarrow> ((parse_error + 'a) \<times> ('r, 'a) memo_table \<times> 'r token_stream) option" where
  "memoize rule_id rule table ts =
     (let offset = tok_offset (ts_peek ts);
          i = memo_slot (length (mt_entries table)) rule_id offset;
          entry = mt_entries table ! i
      in case (me_result entry, me_end entry) of
           (Some result, Some end') \<Rightarrow>
             if me_used entry \<and> me_rule_id entry = rule_id \<and> me_offset entry = offset
             then Some (result, table\<lparr>mt_hits := mt_hits table + 1\<rparr>, ts_assign ts end')
             else memo_run rule_id rule table ts offset i
         | _ \<Rightarrow> memo_run rule_id rule table ts offset i)"

section \<open>The contract of a rule\<close>

text \<open>How much of the text is consumed, and what a rule may do to a stream: it keeps the text and the rules, and it
  does not go back.\<close>

definition consumed :: "'r token_stream \<Rightarrow> nat" where
  "consumed ts = p_pos (ts_after_previous ts)"

definition left :: "'r token_stream \<Rightarrow> nat" where
  "left ts = length (ts_source ts) - consumed ts"

definition advances :: "'r token_stream \<Rightarrow> 'r token_stream \<Rightarrow> bool" where
  "advances ts ts' \<longleftrightarrow> stream_ok ts' \<and> same_text ts ts' \<and> consumed ts \<le> consumed ts'"

locale parse_rule =
  fixes rule :: "('r, 'a) rule"
  assumes returns: "stream_ok ts \<Longrightarrow> \<exists>res ts'. rule ts = Some (res, ts') \<and> advances ts ts'"

lemma advances_refl [simp]: "stream_ok ts \<Longrightarrow> advances ts ts"
  by (simp add: advances_def)

lemma advances_ok: "advances ts ts' \<Longrightarrow> stream_ok ts'"
  by (simp add: advances_def)

lemma advances_trans [trans]: "advances a b \<Longrightarrow> advances b c \<Longrightarrow> advances a c"
  unfolding advances_def using same_text_trans by (metis le_trans)

lemma advances_left: "advances ts ts' \<Longrightarrow> left ts' \<le> left ts"
  by (simp add: advances_def left_def same_text_def diff_le_mono2)

lemma consumed_bound: "stream_ok ts \<Longrightarrow> consumed ts \<le> length (ts_source ts)"
  by (simp add: stream_ok_def in_sync_def consumed_def)

lemma ts_assign_ok [simp]: "stream_ok ts \<Longrightarrow> stream_ok ts' \<Longrightarrow> ts_assign ts' ts = ts"
  by (cases ts) (simp add: ts_assign_def stream_ok_def)

text \<open>The consumed position determines the stream up to the last consumed token.\<close>

lemma same_place:
  assumes "stream_ok ts" and "stream_ok ts'" and "same_text ts ts'" and "consumed ts' = consumed ts"
  shows "ts_after_previous ts' = ts_after_previous ts" and "ts_first ts' = ts_first ts" and "ts_second ts' = ts_second ts"
    and "upcoming ts' = upcoming ts"
proof -
  show p: "ts_after_previous ts' = ts_after_previous ts"
    using assms by (simp add: stream_ok_def in_sync_def same_text_def consumed_def)
  then show "ts_first ts' = ts_first ts" "ts_second ts' = ts_second ts"
    using assms(1-3) by (auto simp: stream_ok_def same_text_def)
  show "upcoming ts' = upcoming ts" using p assms(3) by (simp add: upcoming_def same_text_def)
qed

lemma offset_progress:
  assumes "stream_ok ts" and "advances ts ts'" and "tok_offset (ts_first ts') \<noteq> tok_offset (ts_first ts)"
  shows "left ts' < left ts"
proof -
  have "consumed ts' \<noteq> consumed ts" using same_place(2) [of ts ts'] assms by (auto simp: advances_def)
  then have "consumed ts < consumed ts'" "stream_ok ts'" "ts_source ts' = ts_source ts"
    using assms(2) by (simp_all add: advances_def same_text_def)
  then show ?thesis using consumed_bound [of ts'] by (simp add: left_def)
qed

lemma ts_next_advances:
  assumes "stream_ok ts"
  shows "advances ts (snd (ts_next ts))" and "tok_kind (ts_first ts) \<noteq> T_end \<Longrightarrow> left (snd (ts_next ts)) < left ts"
proof -
  let ?r = "ts_rules ts" and ?src = "ts_source ts"
  obtain t ts' where nx: "ts_next ts = (t, ts')" by fastforce
  note n = ts_next_ok [OF assms nx]
  obtain c where c: "scan ?r ?src (ts_after_previous ts) = (ts_first ts, c)"
    and ok: "rules_ok ?r" "in_sync ?src (ts_after_previous ts)" "ts_window ts = None" "lx_source (ts_lexer ts) = ?src"
    using assms by (auto simp: stream_ok_def)
  have s: "scanned ?r ?src (ts_after_previous ts) (ts_first ts) c" by (rule scan_correct [OF ok(1,2) c(1)])
  have cs: "consumed ts' = (if tok_kind (ts_first ts) \<noteq> T_end then p_pos c else consumed ts)"
    using nx position_after_scanned [OF s _ ok(4)] ok(3)
    by (auto simp: ts_next_def lex_next_def Let_def consumed_def position_after_token_def source_base_def split: prod.splits if_splits)
  then show "advances ts (snd (ts_next ts))"
    using n scanned_token(5) [OF s] nx by (auto simp: advances_def consumed_def less_imp_le)
  show "left (snd (ts_next ts)) < left ts" if "tok_kind (ts_first ts) \<noteq> T_end"
    using cs scanned_token(5,6) [OF s that] n(4) nx that by (simp add: left_def consumed_def same_text_def)
qed

lemma ts_expect_rule: "parse_rule (\<lambda>ts. Some (ts_expect ts kind message))"
  by unfold_locales (auto simp: ts_expect_def dest: ts_next_advances(1) split: prod.splits)

lemma ts_expect_text_rule: "parse_rule (\<lambda>ts. Some (ts_expect_text ts kind txt' message))"
  by unfold_locales (auto simp: ts_expect_text_def dest: ts_next_advances(1) split: prod.splits)

lemma expect_one_of_rule: "parse_rule (\<lambda>ts. Some (expect_one_of ts kinds message))"
  by unfold_locales (auto simp: expect_one_of_def dest: ts_next_advances(1) split: prod.splits)

lemma ts_skip_text_advances:
  "stream_ok ts \<Longrightarrow> advances ts (snd (ts_skip_text ts kind txt'))"
  by (simp add: ts_skip_text_def ts_next_advances(1))

lemma ts_skip_text_progress:
  "stream_ok ts \<Longrightarrow> kind \<noteq> T_end \<Longrightarrow> fst (ts_skip_text ts kind txt') \<Longrightarrow> left (snd (ts_skip_text ts kind txt')) < left ts"
  by (auto simp: ts_skip_text_def ts_check_text_def intro: ts_next_advances(2) split: if_splits)

lemma refill_ok:
  assumes "ts_window ts = None" and "rules_ok (ts_rules ts)" and "lx_source (ts_lexer ts) = ts_source ts"
    and "in_sync (ts_source ts) (ts_after_previous ts)"
  shows "stream_ok (refill ts) \<and> ts_source (refill ts) = ts_source ts \<and> ts_rules (refill ts) = ts_rules ts
     \<and> ts_after_previous (refill ts) = ts_after_previous ts \<and> ts_has_strings (refill ts) = ts_has_strings ts
     \<and> ts_previous (refill ts) = ts_previous ts"
  using assms by (auto simp: refill_def lex_next_def lexer_next_def lexer_restore_def stream_ok_def ts_rules_def Let_def
      split: prod.splits)

lemma ts_set_rules_ok:
  assumes "stream_ok ts" and "rules_ok r"
  shows "stream_ok (ts_set_rules ts r) \<and> ts_source (ts_set_rules ts r) = ts_source ts \<and> ts_rules (ts_set_rules ts r) = r
     \<and> consumed (ts_set_rules ts r) = consumed ts \<and> ts_has_strings (ts_set_rules ts r) = ts_has_strings ts"
proof -
  let ?ts = "ts\<lparr>ts_lexer := lexer_set_rules (ts_lexer ts) r, ts_margin := stream_margin r\<rparr>"
  have "ts_window ?ts = None" "rules_ok (ts_rules ?ts)" "lx_source (ts_lexer ?ts) = ts_source ?ts"
    "in_sync (ts_source ?ts) (ts_after_previous ?ts)" and r: "ts_rules ?ts = r"
    using assms by (simp_all add: lexer_set_rules_def stream_ok_def ts_rules_def)
  from refill_ok [OF this(1-4)] r show ?thesis by (simp add: ts_set_rules_def consumed_def)
qed

context parse_rule
begin

lemma run:
  assumes "stream_ok ts"
  obtains res ts' where "rule ts = Some (res, ts')" "advances ts ts'" "stream_ok ts'"
  using returns [OF assms] advances_ok by blast

lemma attempt_rule: "parse_rule (attempt rule)"
proof
  fix ts :: "'r token_stream"
  assume ok: "stream_ok ts"
  obtain res ts' where r: "rule ts = Some (res, ts')" "advances ts ts'" "stream_ok ts'" using run [OF ok] .
  then show "\<exists>res ts'. attempt rule ts = Some (res, ts') \<and> advances ts ts'"
    using ok by (cases res) (simp_all add: attempt_def)
qed

lemma optional_rule: "parse_rule (parse_optional rule)"
proof
  fix ts :: "'r token_stream"
  assume ok: "stream_ok ts"
  obtain res ts' where r: "rule ts = Some (res, ts')" "advances ts ts'" "stream_ok ts'" using run [OF ok] .
  then show "\<exists>res ts'. parse_optional rule ts = Some (res, ts') \<and> advances ts ts'"
    using ok by (cases res) (auto simp: parse_optional_def)
qed

lemma spanned_rule: "parse_rule (parse_spanned rule)"
proof
  fix ts :: "'r token_stream"
  assume ok: "stream_ok ts"
  obtain res ts' where r: "rule ts = Some (res, ts')" "advances ts ts'" "stream_ok ts'" using run [OF ok] .
  then show "\<exists>res ts'. parse_spanned rule ts = Some (res, ts') \<and> advances ts ts'"
    by (cases res) (simp_all add: parse_spanned_def)
qed

lemma with_rules_rule:
  assumes "rules_ok r"
  shows "parse_rule (with_rules r rule)"
proof
  fix ts :: "'r token_stream"
  assume ok: "stream_ok ts"
  note s = ts_set_rules_ok [OF ok assms]
  obtain res ts' where r: "rule (ts_set_rules ts r) = Some (res, ts')" "advances (ts_set_rules ts r) ts'" "stream_ok ts'"
    using run [of "ts_set_rules ts r"] s by blast
  have "rules_ok (ts_rules ts)" using ok by (simp add: stream_ok_def)
  then have "advances ts (ts_set_rules ts' (ts_rules ts))"
    using ts_set_rules_ok [OF r(3), of "ts_rules ts"] r(2) s by (simp add: advances_def same_text_def)
  then show "\<exists>res ts'. with_rules r rule ts = Some (res, ts') \<and> advances ts ts'"
    using r(1) by (simp add: with_rules_def ts_rules_def)
qed

end

lemma choice_step_returns:
  assumes "parse_rule rule" and "list_all parse_rule rest" and "stream_ok ts" and "stream_ok saved"
  shows "\<exists>res ts'. choice_step ts saved best rule rest = Some (res, ts') \<and> advances saved ts'"
  using assms
proof (induction rest arbitrary: ts best rule)
  case Nil
  obtain res ts' where "rule saved = Some (res, ts')" "advances saved ts'" "stream_ok ts'"
    using parse_rule.run [OF Nil.prems(1,4)] .
  then show ?case using Nil.prems by (cases res) (simp_all add: choice_step.simps Let_def)
next
  case (Cons r rs)
  obtain res ts' where r: "rule saved = Some (res, ts')" "advances saved ts'" "stream_ok ts'"
    using parse_rule.run [OF Cons.prems(1,4)] .
  show ?case
  proof (cases res)
    case (Inl e)
    show ?thesis using Cons.IH [of r ts'] Cons.prems r Inl by (subst choice_step.simps) (simp add: Let_def)
  next
    case (Inr v)
    then show ?thesis using r Cons.prems by (subst choice_step.simps) simp
  qed
qed

lemma choice_rule: "parse_rule rule \<Longrightarrow> list_all parse_rule rest \<Longrightarrow> parse_rule (parse_choice rule rest)"
  by unfold_locales (simp add: parse_choice_def choice_step_returns)


section \<open>The loops end\<close>

lemma list_close_advances:
  "stream_ok ts \<Longrightarrow> \<exists>res vs ts'. list_close opt v acc ts = Some (res, vs, ts') \<and> advances ts ts'"
  using parse_rule.returns [OF ts_expect_text_rule, of ts T_punctuation "lo_close opt" "''expected separator or closing bracket''"]
  by (auto simp: list_close_def split: sum.splits)

lemma list_open_advances:
  assumes "stream_ok ts"
  shows "\<exists>res ts'. list_open opt ts = (res, ts') \<and> advances ts ts'"
proof -
  obtain o' ts1 where o: "(if lo_open opt \<noteq> [] then ts_expect_text ts T_punctuation (lo_open opt) ''expected opening bracket''
      else (Inr default_token, ts)) = (o', ts1)" "advances ts ts1"
    using parse_rule.returns [OF ts_expect_text_rule assms, of T_punctuation "lo_open opt" "''expected opening bracket''"] assms
    by (cases "lo_open opt = []") auto
  then have "advances ts (snd (ts_skip_text ts1 T_punctuation (lo_close opt)))"
    using ts_skip_text_advances advances_ok advances_trans by blast
  then show ?thesis using o by (cases o') (auto simp: list_open_def Let_def split: prod.splits)
qed

context parse_rule
begin

lemma repeat_returns:
  "stream_ok ts \<Longrightarrow> \<exists>res vs ts'. repeat_loop opt rule acc ts = Some (res, vs, ts') \<and> advances ts ts'"
proof (induction ts arbitrary: acc rule: measure_induct_rule [where f = left])
  case (less ts)
  obtain res ts' where r: "rule ts = Some (res, ts')" "advances ts ts'" "stream_ok ts'" using run [OF less.prems] .
  show ?case
  proof (cases "\<exists>v. res = Inr v \<and> tok_offset (ts_peek ts') \<noteq> tok_offset (ts_peek ts) \<and> length acc < ro_max opt")
    case True
    then obtain v where v: "res = Inr v" "tok_offset (ts_peek ts') \<noteq> tok_offset (ts_peek ts)" "length acc < ro_max opt" by blast
    then have "left ts' < left ts" using offset_progress [OF less.prems r(2)] by (simp add: ts_peek_def)
    from less.IH [OF this r(3), of "acc @ [v]"] obtain res2 vs ts2
      where "repeat_loop opt rule (acc @ [v]) ts' = Some (res2, vs, ts2)" "advances ts' ts2" by blast
    moreover have "repeat_loop opt rule acc ts = repeat_loop opt rule (acc @ [v]) ts'"
      using r v by (subst repeat_loop.simps) (simp add: Let_def)
    ultimately show ?thesis using advances_trans [OF r(2)] by auto
  next
    case False
    then show ?thesis using r less.prems by (subst repeat_loop.simps) (auto simp: Let_def split: sum.splits)
  qed
qed

lemma until_returns:
  "stream_ok ts \<Longrightarrow> \<exists>res vs ts'. until_loop kind txt' rule acc ts = Some (res, vs, ts') \<and> advances ts ts'"
proof (induction ts arbitrary: acc rule: measure_induct_rule [where f = left])
  case (less ts)
  obtain res ts' where r: "rule ts = Some (res, ts')" "advances ts ts'" "stream_ok ts'" using run [OF less.prems] .
  show ?case
  proof (cases "\<exists>v. res = Inr v \<and> tok_offset (ts_peek ts') \<noteq> tok_offset (ts_peek ts) \<and> \<not> ts_check_text ts kind txt' \<and> \<not> ts_at_end ts")
    case True
    then obtain v where v: "res = Inr v" "tok_offset (ts_peek ts') \<noteq> tok_offset (ts_peek ts)"
      "\<not> ts_check_text ts kind txt'" "\<not> ts_at_end ts" by blast
    then have "left ts' < left ts" using offset_progress [OF less.prems r(2)] by (simp add: ts_peek_def)
    from less.IH [OF this r(3), of "acc @ [v]"] obtain res2 vs ts2
      where "until_loop kind txt' rule (acc @ [v]) ts' = Some (res2, vs, ts2)" "advances ts' ts2" by blast
    moreover have "until_loop kind txt' rule acc ts = until_loop kind txt' rule (acc @ [v]) ts'"
      using r v by (subst until_loop.simps) simp
    ultimately show ?thesis using advances_trans [OF r(2)] by auto
  next
    case False
    then show ?thesis using r less.prems by (subst until_loop.simps) (auto split: sum.splits)
  qed
qed

lemma chain_loop_returns:
  "stream_ok ts \<Longrightarrow> \<exists>res ts'. chain_loop kind sep rule f m k v ts = Some (res, ts') \<and> advances ts ts'"
proof (induction "m - k" arbitrary: ts k v rule: less_induct)
  case less
  obtain o' ts1 where a: "ts_accept_text ts kind sep = (o', ts1)" "advances ts ts1" "stream_ok ts1"
    using ts_next_advances(1) [OF less.prems] advances_ok less.prems
    by (fastforce simp: ts_accept_text_def split: prod.splits if_splits)
  obtain res ts2 where r: "rule ts1 = Some (res, ts2)" "advances ts1 ts2" "stream_ok ts2" using run [OF a(3)] .
  note tr = advances_trans [OF a(2) r(2)]
  show ?case
  proof (cases "\<exists>t x w. o' = Some t \<and> k < m \<and> res = Inr x \<and> f t v x = Inr w")
    case True
    then obtain t x w where w: "o' = Some t" "k < m" "res = Inr x" "f t v x = Inr w" by blast
    have "m - (k + 1) < m - k" using w(2) by simp
    from less.hyps [OF this r(3), of w] obtain res2 ts3
      where "chain_loop kind sep rule f m (k + 1) w ts2 = Some (res2, ts3)" "advances ts2 ts3" by blast
    then show ?thesis using a(1) r(1) w advances_trans [OF tr] by (subst chain_loop.simps) auto
  next
    case False
    then show ?thesis using a r tr by (subst chain_loop.simps) (auto split: option.splits sum.splits)
  qed
qed

lemma chain_rule: "parse_rule (parse_chain kind sep rule f m)"
proof
  fix ts :: "'r token_stream"
  assume ok: "stream_ok ts"
  obtain res ts' where r: "rule ts = Some (res, ts')" "advances ts ts'" "stream_ok ts'" using run [OF ok] .
  then show "\<exists>res ts'. parse_chain kind sep rule f m ts = Some (res, ts') \<and> advances ts ts'"
    using chain_loop_returns [OF r(3), of kind sep f m 1] advances_trans [OF r(2)]
    by (cases res) (simp_all add: parse_chain_def, blast)
qed

lemma list_loop_returns:
  "stream_ok ts \<Longrightarrow> \<exists>res vs ts'. list_loop opt rule acc ts = Some (res, vs, ts') \<and> advances ts ts'"
proof (induction ts arbitrary: acc rule: measure_induct_rule [where f = left])
  case (less ts)
  obtain res ts1 where r: "rule ts = Some (res, ts1)" "advances ts ts1" "stream_ok ts1" using run [OF less.prems] .
  show ?case
  proof (cases res)
    case (Inl e)
    then show ?thesis using r by (subst list_loop.simps) simp
  next
    case (Inr v)
    obtain sp ts2 where s: "ts_skip_text ts1 T_punctuation (lo_separator opt) = (sp, ts2)" by fastforce
    obtain cl ts3 where c: "(if lo_allow_trailing opt \<and> lo_close opt \<noteq> [] then ts_skip_text ts2 T_punctuation (lo_close opt)
        else (False, ts2)) = (cl, ts3)" by fastforce
    have a2: "advances ts1 ts2" "stream_ok ts2" using ts_skip_text_advances [OF r(3), of T_punctuation "lo_separator opt"] s advances_ok by auto
    have a3: "advances ts2 ts3" "stream_ok ts3"
      using c ts_skip_text_advances [OF a2(2), of T_punctuation "lo_close opt"] a2(2) advances_ok
      by (auto split: if_splits)
    note tr = advances_trans [OF r(2) a2(1)]
    have step: "list_loop opt rule acc ts = (if \<not> sp then list_close opt () (acc @ [v]) ts2
        else if cl then Some (Inr (), acc @ [v], ts3) else list_loop opt rule (acc @ [v]) ts3)"
      using r(1) Inr s c by (subst list_loop.simps) simp
    show ?thesis
    proof (cases "sp \<and> \<not> cl")
      case True
      have "left ts2 < left ts1" using ts_skip_text_progress [OF r(3), of T_punctuation "lo_separator opt"] s True by simp
      then have "left ts3 < left ts" using advances_left [OF a3(1)] advances_left [OF r(2)] by simp
      from less.IH [OF this a3(2), of "acc @ [v]"] show ?thesis
        using step True advances_trans [OF advances_trans [OF tr a3(1)]] by auto
    next
      case False
      then show ?thesis
        using step list_close_advances [OF a2(2), of opt "()" "acc @ [v]"] advances_trans [OF tr] a3(1) by (cases sp) auto
    qed
  qed
qed

lemma parse_list_returns:
  assumes "stream_ok ts"
  shows "\<exists>res vs ts'. parse_list opt rule ts = Some (res, vs, ts') \<and> advances ts ts'"
proof -
  obtain o' ts1 where o: "list_open opt ts = (o', ts1)" "advances ts ts1" using list_open_advances [OF assms] by blast
  then show ?thesis using list_loop_returns [OF advances_ok [OF o(2)], of opt "[]"] advances_trans [OF o(2)]
    by (cases o') (auto simp: parse_list_def split: bool.splits)
qed

end


section \<open>Recovery\<close>

text \<open>\<open>recover_to\<close> drops exactly the tokens before the first one that matches a sync point.\<close>

lemma recover_loop_skips:
  "stream_ok ts \<Longrightarrow> \<exists>ts'. recover_loop sync k ts = Some (k + length (takeWhile (\<lambda>t. \<not> sync_matches sync t) (upcoming ts)), ts')
     \<and> advances ts ts' \<and> upcoming ts' = dropWhile (\<lambda>t. \<not> sync_matches sync t) (upcoming ts)"
proof (induction ts arbitrary: k rule: measure_induct_rule [where f = left])
  case (less ts)
  note u = stream_ok_upcoming [OF less.prems]
  obtain t ts1 where nx: "ts_next ts = (t, ts1)" by fastforce
  note n = ts_next_ok [OF less.prems nx]
  show ?case
  proof (cases "ts_at_end ts \<or> sync_matches sync (ts_peek ts)")
    case True
    have "takeWhile (\<lambda>t. \<not> sync_matches sync t) (upcoming ts) = [] \<and> dropWhile (\<lambda>t. \<not> sync_matches sync t) (upcoming ts) = upcoming ts"
    proof (cases "upcoming ts")
      case (Cons a list)
      then show ?thesis using True u by (simp add: ts_at_end_def ts_peek_def)
    qed simp
    then show ?thesis using True less.prems by (subst recover_loop.simps) simp
  next
    case False
    then have e: "tok_kind (ts_first ts) \<noteq> T_end" by (simp add: ts_at_end_def)
    then have l: "left ts1 < left ts" using ts_next_advances(2) [OF less.prems] nx by simp
    have adv: "advances ts ts1" using ts_next_advances(1) [OF less.prems] nx by simp
    have up: "upcoming ts = ts_first ts # upcoming ts1" using u n(3) e by (metis list.collapse)
    have "recover_loop sync k ts = recover_loop sync (k + 1) ts1" using False nx by (subst recover_loop.simps) simp
    then show ?thesis using less.IH [OF l n(2), of "k + 1"] False up advances_trans [OF adv] by (auto simp: ts_peek_def)
  qed
qed

lemma recover_to_advances: "stream_ok ts \<Longrightarrow> \<exists>n ts'. recover_to ts sync = Some (n, ts') \<and> advances ts ts'"
  using recover_loop_skips [of ts sync 0] by (auto simp: recover_to_def)

lemma balanced_loop_advances:
  "stream_ok ts \<Longrightarrow> \<exists>n ts'. balanced_loop is_sync brackets m k d ts = Some (n, ts') \<and> advances ts ts'"
proof (induction ts arbitrary: k d rule: measure_induct_rule [where f = left])
  case (less ts)
  obtain t ts1 where nx: "ts_next ts = (t, ts1)" by fastforce
  have adv: "advances ts ts1" using ts_next_advances(1) [OF less.prems] nx by simp
  show ?case
  proof (cases "ts_at_end ts")
    case True
    then show ?thesis using less.prems by (subst balanced_loop.simps) simp
  next
    case False
    then have l: "left ts1 < left ts" using ts_next_advances(2) [OF less.prems] nx by (simp add: ts_at_end_def)
    have "\<exists>n ts'. balanced_loop is_sync brackets m (k + 1) d' ts1 = Some (n, ts') \<and> advances ts ts'" for d'
      using less.IH [OF l advances_ok [OF adv], of "k + 1" d'] advances_trans [OF adv] by blast
    then show ?thesis using False less.prems nx by (subst balanced_loop.simps) (simp add: Let_def)
  qed
qed

lemma recover_balanced_if_advances:
  "stream_ok ts \<Longrightarrow> \<exists>n ts'. recover_balanced_if ts is_sync brackets m = Some (n, ts') \<and> advances ts ts'"
  by (simp add: recover_balanced_if_def balanced_loop_advances)

text \<open>A recovery function as the statement loop uses it.\<close>

locale recovery =
  fixes recover :: "'r token_stream \<Rightarrow> (nat \<times> 'r token_stream) option"
  assumes recovers: "stream_ok ts \<Longrightarrow> \<exists>n ts'. recover ts = Some (n, ts') \<and> advances ts ts'"

interpretation to_sync: recovery "\<lambda>ts. recover_to ts sync" for sync
  by unfold_locales (rule recover_to_advances)

interpretation to_balanced: recovery "\<lambda>ts. recover_balanced ts sync brackets m" for sync brackets m
  by unfold_locales (simp add: recover_balanced_def recover_balanced_if_advances)

locale statement_loop = parse_rule rule + recovery recover
  for rule :: "('r, 'a) rule" and recover :: "'r token_stream \<Rightarrow> (nat \<times> 'r token_stream) option"
begin

lemma statements_reach_end:
  "stream_ok ts \<Longrightarrow> \<exists>errs vs ts'. statements_loop recover rule errors acc ts = Some (errs, vs, ts') \<and> advances ts ts' \<and> ts_at_end ts'"
proof (induction ts arbitrary: errors acc rule: measure_induct_rule [where f = left])
  case (less ts)
  show ?case
  proof (cases "ts_at_end ts")
    case True
    then show ?thesis using less.prems by (subst statements_loop.simps) simp
  next
    case False
    obtain res ts1 where r: "rule ts = Some (res, ts1)" "advances ts ts1" "stream_ok ts1" using run [OF less.prems] .
    show ?thesis
    proof (cases res)
      case (Inr v)
      let ?s = "if \<not> ts_at_end ts1 \<and> tok_offset (ts_peek ts1) = tok_offset (ts_peek ts) then snd (ts_next ts1) else ts1"
      have step: "statements_loop recover rule errors acc ts = statements_loop recover rule errors (acc @ [v]) ?s"
        using False r(1) Inr by (subst statements_loop.simps) simp
      have a: "advances ts ?s" using ts_next_advances(1) [OF r(3)] r(2) advances_trans by auto
      show ?thesis
      proof (cases "ts_at_end ts1")
        case True
        then have "statements_loop recover rule errors (acc @ [v]) ts1 = Some (errors, acc @ [v], ts1)"
          by (subst statements_loop.simps) simp
        then show ?thesis using step r(2) True by simp
      next
        case notend: False
        have "left ?s < left ts"
          using ts_next_advances(2) [OF r(3)] notend advances_left [OF r(2)] offset_progress [OF less.prems r(2)]
          by (auto simp: ts_at_end_def ts_peek_def)
        from less.IH [OF this advances_ok [OF a], of errors "acc @ [v]"] show ?thesis using step advances_trans [OF a] by metis
      qed
    next
      case (Inl e)
      obtain n ts2 where c: "recover ts1 = Some (n, ts2)" "advances ts1 ts2" using recovers [OF r(3)] by blast
      note a2 = advances_trans [OF r(2) c(2)]
      show ?thesis
      proof (cases "ts_at_end ts2")
        case True
        then show ?thesis using False r(1) Inl c(1) a2 by (subst statements_loop.simps) simp
      next
        case notend: False
        let ?s = "snd (ts_next ts2)"
        have "left ?s < left ts" using ts_next_advances(2) [OF advances_ok [OF a2]] notend advances_left [OF a2]
          by (simp add: ts_at_end_def)
        moreover have a: "advances ts ?s" using ts_next_advances(1) [OF advances_ok [OF a2]] a2 advances_trans by blast
        moreover have "statements_loop recover rule errors acc ts = statements_loop recover rule (error_list_add errors e) acc ?s"
          using False r(1) Inl c(1) notend by (subst statements_loop.simps) simp
        ultimately show ?thesis using less.IH [of ?s "error_list_add errors e" acc] advances_ok [OF a] advances_trans [OF a] by metis
      qed
    qed
  qed
qed

end


interpretation expect_statements: statement_loop "\<lambda>ts. Some (ts_expect ts kind message)" "\<lambda>ts. recover_to ts sync"
  for kind message sync
  by (intro statement_loop.intro ts_expect_rule to_sync.recovery_axioms)

context parse_rule
begin

lemma until_close_returns:
  "stream_ok ts \<Longrightarrow> \<exists>errs vs ts'. statements_until_loop ck close sync brackets rule errors acc ts = Some (errs, vs, ts')
     \<and> advances ts ts' \<and> (ts_at_end ts' \<or> ts_check_text ts' ck close)"
proof (induction ts arbitrary: errors acc rule: measure_induct_rule [where f = left])
  case (less ts)
  let ?stop = "\<lambda>s. ts_at_end s \<or> ts_check_text s ck close"
  have stopped: "\<exists>errs vs ts'. statements_until_loop ck close sync brackets rule errors acc s = Some (errs, vs, ts')
      \<and> advances ts ts' \<and> ?stop ts'" if "?stop s" "advances ts s" for s errors acc
    using that by (subst statements_until_loop.simps) auto
  have resume: "\<exists>errs vs ts'. statements_until_loop ck close sync brackets rule errors acc s = Some (errs, vs, ts')
      \<and> advances ts ts' \<and> ?stop ts'" if "left s < left ts" "advances ts s" for s errors acc
    using less.IH [OF that(1) advances_ok [OF that(2)], of errors acc] advances_trans [OF that(2)] by blast
  show ?case
  proof (cases "?stop ts")
    case True
    then show ?thesis using stopped [of ts] less.prems by simp
  next
    case False
    obtain res ts1 where r: "rule ts = Some (res, ts1)" "advances ts ts1" "stream_ok ts1" using run [OF less.prems] .
    show ?thesis
    proof (cases res)
      case (Inr v)
      let ?s = "if tok_offset (ts_peek ts1) = tok_offset (ts_peek ts) \<and> \<not> ts_at_end ts1 \<and> \<not> ts_check_text ts1 ck close
          then snd (ts_next ts1) else ts1"
      have step: "statements_until_loop ck close sync brackets rule errors acc ts
          = statements_until_loop ck close sync brackets rule errors (acc @ [v]) ?s"
        using False r(1) Inr by (subst statements_until_loop.simps) simp
      have "advances ts ?s" using ts_next_advances(1) [OF r(3)] r(2) advances_trans by auto
      moreover have "left ?s < left ts" if "\<not> ?stop ts1"
        using ts_next_advances(2) [OF r(3)] that advances_left [OF r(2)] offset_progress [OF less.prems r(2)]
        by (auto simp: ts_at_end_def ts_peek_def)
      ultimately show ?thesis using step stopped [of ts1 errors "acc @ [v]"] resume [of ?s errors "acc @ [v]"] r(2)
        by (cases "?stop ts1") auto
    next
      case (Inl e)
      let ?sync = "\<lambda>tok. tok_kind tok = ck \<and> tok_text tok = close \<or> sync_matches sync tok"
      obtain n ts2 where c: "recover_balanced_if ts1 ?sync brackets 64 = Some (n, ts2)" "advances ts1 ts2"
        using recover_balanced_if_advances [OF r(3)] by blast
      note a2 = advances_trans [OF r(2) c(2)]
      let ?s = "if \<not> ts_at_end ts2 \<and> \<not> ts_check_text ts2 ck close then snd (ts_next ts2) else ts2"
      have step: "statements_until_loop ck close sync brackets rule errors acc ts
          = statements_until_loop ck close sync brackets rule (error_list_add errors e) acc ?s"
        using False r(1) Inl c(1) by (subst statements_until_loop.simps) simp
      have "left (snd (ts_next ts2)) < left ts" if "\<not> ?stop ts2"
        using ts_next_advances(2) [OF advances_ok [OF a2]] that advances_left [OF a2] by (simp add: ts_at_end_def)
      moreover have "advances ts (snd (ts_next ts2))" using ts_next_advances(1) [OF advances_ok [OF a2]] a2 advances_trans by blast
      ultimately show ?thesis using step stopped [of ts2 "error_list_add errors e" acc] a2
          resume [of "snd (ts_next ts2)" "error_list_add errors e" acc]
        by (cases "?stop ts2") auto
    qed
  qed
qed

lemma list_item_recovering_returns:
  assumes "stream_ok ts"
  shows "\<exists>errs n vs ts'. list_item_recovering opt brackets m rule errors k acc ts = Some (errs, n, vs, ts') \<and> advances ts ts'"
proof -
  obtain res ts1 where r: "rule ts = Some (res, ts1)" "advances ts ts1" "stream_ok ts1" using run [OF assms] .
  obtain n ts2 where c: "recover_balanced_if ts1 (list_sync opt) brackets m = Some (n, ts2)" "advances ts1 ts2"
    using recover_balanced_if_advances [OF r(3)] by blast
  note a2 = advances_trans [OF r(2) c(2)]
  have "advances ts (snd (ts_next ts2))" using ts_next_advances(1) [OF advances_ok [OF a2]] a2 advances_trans by blast
  then show ?thesis using r c(1) a2 by (cases res) (simp_all add: list_item_recovering_def)
qed

lemma list_recovering_returns:
  "stream_ok ts \<Longrightarrow> \<exists>errs res vs ts'. list_recovering_loop opt brackets m rule errors k acc ts = Some (errs, res, vs, ts') \<and> advances ts ts'"
proof (induction ts arbitrary: errors k acc rule: measure_induct_rule [where f = left])
  case (less ts)
  obtain errs n vs ts1 where r: "list_item_recovering opt brackets m rule errors k acc ts = Some (errs, n, vs, ts1)" "advances ts ts1"
    using list_item_recovering_returns [OF less.prems] by blast
  note ok1 = advances_ok [OF r(2)]
  obtain sp ts2 where s: "ts_skip_text ts1 T_punctuation (lo_separator opt) = (sp, ts2)" by fastforce
  obtain cl ts3 where c: "(if lo_allow_trailing opt \<and> lo_close opt \<noteq> [] then ts_skip_text ts2 T_punctuation (lo_close opt)
      else (False, ts2)) = (cl, ts3)" by fastforce
  have a2: "advances ts1 ts2" "stream_ok ts2" using ts_skip_text_advances [OF ok1, of T_punctuation "lo_separator opt"] s advances_ok by auto
  have a3: "advances ts2 ts3" "stream_ok ts3"
    using c ts_skip_text_advances [OF a2(2), of T_punctuation "lo_close opt"] a2(2) advances_ok by (auto split: if_splits)
  note tr = advances_trans [OF r(2) a2(1)]
  have step: "list_recovering_loop opt brackets m rule errors k acc ts =
      (if \<not> sp then map_option (Pair errs) (list_close opt n vs ts2)
       else if cl then Some (errs, Inr n, vs, ts3) else list_recovering_loop opt brackets m rule errs n vs ts3)"
    using r(1) s c by (subst list_recovering_loop.simps) simp
  show ?case
  proof (cases "sp \<and> \<not> cl")
    case True
    have "left ts2 < left ts1" using ts_skip_text_progress [OF ok1, of T_punctuation "lo_separator opt"] s True by simp
    then have "left ts3 < left ts" using advances_left [OF a3(1)] advances_left [OF r(2)] by simp
    from less.IH [OF this a3(2), of errs n vs] show ?thesis
      using step True advances_trans [OF advances_trans [OF tr a3(1)]] by auto
  next
    case False
    then show ?thesis using step list_close_advances [OF a2(2), of opt n vs] advances_trans [OF tr] a3(1) by (cases sp) auto
  qed
qed

lemma parse_list_recovering_returns:
  assumes "stream_ok ts"
  shows "\<exists>errs res vs ts'. parse_list_recovering opt errors brackets rule m ts = Some (errs, res, vs, ts') \<and> advances ts ts'"
proof -
  obtain o' ts1 where o: "list_open opt ts = (o', ts1)" "advances ts ts1" using list_open_advances [OF assms] by blast
  then show ?thesis
    using list_recovering_returns [OF advances_ok [OF o(2)], of opt brackets m errors 0 "[]"] advances_trans [OF o(2)]
    by (cases o') (auto simp: parse_list_recovering_def split: bool.splits)
qed

end


section \<open>Ordered choice\<close>

text \<open>The error of the alternative that got furthest, the earlier one on a tie.\<close>

definition further :: "parse_error \<Rightarrow> parse_error \<Rightarrow> parse_error" where
  "further b e = (if tok_offset (pe_at e) > tok_offset (pe_at b) then e else b)"

lemma further_fold:
  "foldl further b es \<in> set (b # es) \<and> (\<forall>e \<in> set (b # es). tok_offset (pe_at e) \<le> tok_offset (pe_at (foldl further b es)))"
proof (induction es arbitrary: b)
  case (Cons e es)
  show ?case using Cons [of "further b e"] by (auto simp: further_def split: if_splits)
qed simp

lemma choice_step_spec:
  assumes "parse_rule rule" and "list_all parse_rule rest" and "stream_ok ts" and "stream_ok saved"
  shows "(\<exists>ps r qs. rule # rest = ps @ r # qs \<and> (\<forall>p \<in> set ps. \<exists>e s. p saved = Some (Inl e, s))
            \<and> (\<exists>v s. r saved = Some (Inr v, s) \<and> choice_step ts saved best rule rest = Some (Inr v, s)))
     \<or> (\<exists>es. list_all2 (\<lambda>p e. \<exists>s. p saved = Some (Inl e, s)) (rule # rest) es
            \<and> choice_step ts saved best rule rest
              = Some (Inl (case best of None \<Rightarrow> foldl further (hd es) (tl es) | Some b \<Rightarrow> foldl further b es), saved))"
  using assms
proof (induction rest arbitrary: ts best rule)
  case Nil
  obtain res ts' where r: "rule saved = Some (res, ts')" "stream_ok ts'" using parse_rule.run [OF Nil.prems(1,4)] .
  show ?case
  proof (cases res)
    case (Inl e)
    then show ?thesis using r Nil.prems by (intro disjI2 exI [of _ "[e]"]) (auto simp: choice_step.simps Let_def further_def split: option.splits)
  next
    case (Inr v)
    then show ?thesis using r Nil.prems by (intro disjI1 exI [of _ "[]"] exI [of _ rule]) (auto simp: choice_step.simps)
  qed
next
  case (Cons r2 rs)
  obtain res ts' where r: "rule saved = Some (res, ts')" "stream_ok ts'" using parse_rule.run [OF Cons.prems(1,4)] .
  show ?case
  proof (cases res)
    case (Inl e)
    let ?b = "case best of None \<Rightarrow> e | Some b \<Rightarrow> further b e"
    have step: "choice_step ts saved best rule (r2 # rs) = choice_step ts' saved (Some ?b) r2 rs"
      using Inl r Cons.prems by (subst choice_step.simps) (simp add: Let_def further_def split: option.splits)
    have pr: "parse_rule r2" "list_all parse_rule rs" using Cons.prems(2) by simp_all
    from Cons.IH [OF pr r(2) Cons.prems(4), of "Some ?b"] show ?thesis
    proof
      assume "\<exists>ps q qs. r2 # rs = ps @ q # qs \<and> (\<forall>p \<in> set ps. \<exists>e s. p saved = Some (Inl e, s))
          \<and> (\<exists>v s. q saved = Some (Inr v, s) \<and> choice_step ts' saved (Some ?b) r2 rs = Some (Inr v, s))"
      then obtain ps q qs v s where "r2 # rs = ps @ q # qs" "\<forall>p \<in> set ps. \<exists>e s. p saved = Some (Inl e, s)"
        "q saved = Some (Inr v, s)" "choice_step ts' saved (Some ?b) r2 rs = Some (Inr v, s)" by blast
      then show ?thesis using step r(1) Inl by (intro disjI1 exI [of _ "rule # ps"] exI [of _ q] exI [of _ qs]) auto
    next
      assume "\<exists>es. list_all2 (\<lambda>p e. \<exists>s. p saved = Some (Inl e, s)) (r2 # rs) es
          \<and> choice_step ts' saved (Some ?b) r2 rs = Some (Inl (case Some ?b of None \<Rightarrow> foldl further (hd es) (tl es) | Some b \<Rightarrow> foldl further b es), saved)"
      then obtain es where "list_all2 (\<lambda>p e. \<exists>s. p saved = Some (Inl e, s)) (r2 # rs) es"
        "choice_step ts' saved (Some ?b) r2 rs = Some (Inl (foldl further ?b es), saved)" by auto
      then show ?thesis using step r(1) Inl by (intro disjI2 exI [of _ "e # es"]) (auto split: option.splits)
    qed
  next
    case (Inr v)
    then show ?thesis using r Cons.prems
      by (intro disjI1 exI [of _ "[]"] exI [of _ rule] exI [of _ "r2 # rs"]) (auto simp: choice_step.simps)
  qed
qed

section \<open>Groups\<close>

text \<open>Well nested tokens, to a depth; and what balanced recovery skips: no sync point outside of the groups.\<close>

inductive nested :: "bracket_pair list \<Rightarrow> nat \<Rightarrow> token list \<Rightarrow> bool" for brackets where
  nested_Nil: "nested brackets k []"
| nested_plain: "\<not> opens_bracket brackets t \<Longrightarrow> \<not> closes_bracket brackets t \<Longrightarrow> nested brackets k xs \<Longrightarrow> nested brackets k (t # xs)"
| nested_group: "opens_bracket brackets p \<Longrightarrow> closes_bracket brackets q \<Longrightarrow> \<not> opens_bracket brackets q \<Longrightarrow>
    nested brackets k xs \<Longrightarrow> nested brackets (Suc k) ys \<Longrightarrow> nested brackets (Suc k) (p # xs @ q # ys)"

inductive skippable :: "(token \<Rightarrow> bool) \<Rightarrow> bracket_pair list \<Rightarrow> nat \<Rightarrow> token list \<Rightarrow> bool" for is_sync brackets k where
  skip_Nil: "skippable is_sync brackets k []"
| skip_plain: "\<not> is_sync t \<Longrightarrow> \<not> opens_bracket brackets t \<Longrightarrow> skippable is_sync brackets k xs \<Longrightarrow> skippable is_sync brackets k (t # xs)"
| skip_group: "\<not> is_sync p \<Longrightarrow> opens_bracket brackets p \<Longrightarrow> closes_bracket brackets q \<Longrightarrow> \<not> opens_bracket brackets q \<Longrightarrow>
    nested brackets j xs \<Longrightarrow> j < k \<Longrightarrow> skippable is_sync brackets k ys \<Longrightarrow> skippable is_sync brackets k (p # xs @ q # ys)"

lemma balanced_step:
  assumes "stream_ok ts" and "upcoming ts = t # rest" and "\<not> (d = 0 \<and> is_sync t)" and "\<not> (opens_bracket brackets t \<and> d \<ge> m)"
  shows "\<exists>ts'. stream_ok ts' \<and> upcoming ts' = rest \<and> advances ts ts' \<and> balanced_loop is_sync brackets m k d ts
      = balanced_loop is_sync brackets m (k + 1)
          (if opens_bracket brackets t then d + 1 else if closes_bracket brackets t \<and> d > 0 then d - 1 else d) ts'"
proof -
  obtain u ts' where nx: "ts_next ts = (u, ts')" by fastforce
  note n = ts_next_ok [OF assms(1) nx]
  have f: "ts_first ts = t" "tok_kind t \<noteq> T_end" using stream_ok_upcoming [OF assms(1)] assms(2) by auto
  have "balanced_loop is_sync brackets m k d ts = balanced_loop is_sync brackets m (k + 1)
      (if opens_bracket brackets t then d + 1 else if closes_bracket brackets t \<and> d > 0 then d - 1 else d) ts'"
    using assms(3,4) f nx by (subst balanced_loop.simps) (auto simp: ts_at_end_def ts_peek_def Let_def)
  then show ?thesis using n ts_next_advances(1) [OF assms(1)] nx assms(2) by auto
qed

lemma balanced_nested:
  "nested brackets j xs \<Longrightarrow> stream_ok ts \<Longrightarrow> upcoming ts = xs @ rest \<Longrightarrow> 0 < d \<Longrightarrow> d + j \<le> m \<Longrightarrow>
   \<exists>ts'. stream_ok ts' \<and> upcoming ts' = rest \<and> advances ts ts' \<and>
     balanced_loop is_sync brackets m k d ts = balanced_loop is_sync brackets m (k + length xs) d ts'"
proof (induction arbitrary: ts k d rest rule: nested.induct)
  case (nested_Nil j)
  then show ?case by auto
next
  case (nested_plain t j xs)
  have "upcoming ts = t # xs @ rest" using nested_plain.prems by simp
  then obtain ts1 where s1: "stream_ok ts1" "upcoming ts1 = xs @ rest" "advances ts ts1"
    "balanced_loop is_sync brackets m k d ts = balanced_loop is_sync brackets m (k + 1) d ts1"
    using balanced_step [of ts t "xs @ rest" d is_sync brackets m k] nested_plain.prems nested_plain.hyps by auto
  from nested_plain.IH [OF s1(1,2) nested_plain.prems(3,4), of "k + 1"] s1(3,4) show ?case
    by (auto intro: advances_trans)
next
  case (nested_group p q j xs ys)
  have "upcoming ts = p # xs @ q # ys @ rest" using nested_group.prems by simp
  then obtain ts1 where s1: "stream_ok ts1" "upcoming ts1 = xs @ q # ys @ rest" "advances ts ts1"
    "balanced_loop is_sync brackets m k d ts = balanced_loop is_sync brackets m (k + 1) (d + 1) ts1"
    using balanced_step [of ts p "xs @ q # ys @ rest" d is_sync brackets m k] nested_group.prems nested_group.hyps by auto
  obtain ts2 where s2: "stream_ok ts2" "upcoming ts2 = q # ys @ rest" "advances ts1 ts2"
    "balanced_loop is_sync brackets m (k + 1) (d + 1) ts1 = balanced_loop is_sync brackets m (k + 1 + length xs) (d + 1) ts2"
    using nested_group.IH(1) [OF s1(1,2), of "d + 1" "k + 1"] nested_group.prems by auto
  obtain ts3 where s3: "stream_ok ts3" "upcoming ts3 = ys @ rest" "advances ts2 ts3"
    "balanced_loop is_sync brackets m (k + 1 + length xs) (d + 1) ts2 = balanced_loop is_sync brackets m (k + 1 + length xs + 1) d ts3"
    using balanced_step [OF s2(1,2), of "d + 1" is_sync brackets m "k + 1 + length xs"] nested_group.hyps by auto
  from nested_group.IH(2) [OF s3(1,2) nested_group.prems(3,4), of "k + 1 + length xs + 1"] obtain ts4 where
    s4: "stream_ok ts4" "upcoming ts4 = rest" "advances ts3 ts4" "balanced_loop is_sync brackets m (k + 1 + length xs + 1) d ts3
       = balanced_loop is_sync brackets m (k + 1 + length xs + 1 + length ys) d ts4" by blast
  have "advances ts ts4" using s1(3) s2(3) s3(3) s4(3) advances_trans by blast
  then show ?case using s1(4) s2(4) s3(4) s4 by (intro exI [of _ ts4]) (simp add: ac_simps)
qed

lemma balanced_skips:
  "skippable is_sync brackets m xs \<Longrightarrow> stream_ok ts \<Longrightarrow> upcoming ts = xs @ rest \<Longrightarrow> rest = [] \<or> is_sync (hd rest) \<Longrightarrow>
   \<exists>ts'. upcoming ts' = rest \<and> advances ts ts' \<and> balanced_loop is_sync brackets m k 0 ts = Some (k + length xs, ts')"
proof (induction arbitrary: ts k rule: skippable.induct)
  case skip_Nil
  have "ts_at_end ts \<or> is_sync (ts_peek ts)"
    using stream_ok_upcoming [OF skip_Nil.prems(1)] skip_Nil.prems by (cases rest) (auto simp: ts_at_end_def ts_peek_def)
  then show ?case using skip_Nil.prems by (subst balanced_loop.simps) (auto simp: Let_def)
next
  case (skip_plain t xs)
  have "upcoming ts = t # xs @ rest" using skip_plain.prems by simp
  then obtain ts1 where s1: "stream_ok ts1" "upcoming ts1 = xs @ rest" "advances ts ts1"
    "balanced_loop is_sync brackets m k 0 ts = balanced_loop is_sync brackets m (k + 1) 0 ts1"
    using balanced_step [of ts t "xs @ rest" 0 is_sync brackets m k] skip_plain.prems skip_plain.hyps by auto
  from skip_plain.IH [OF s1(1,2) skip_plain.prems(3), of "k + 1"] s1(3,4) show ?case by (auto intro: advances_trans)
next
  case (skip_group p q j xs ys)
  have "upcoming ts = p # xs @ q # ys @ rest" using skip_group.prems by simp
  then obtain ts1 where s1: "stream_ok ts1" "upcoming ts1 = xs @ q # ys @ rest" "advances ts ts1"
    "balanced_loop is_sync brackets m k 0 ts = balanced_loop is_sync brackets m (k + 1) 1 ts1"
    using balanced_step [of ts p "xs @ q # ys @ rest" 0 is_sync brackets m k] skip_group.prems skip_group.hyps by auto
  obtain ts2 where s2: "stream_ok ts2" "upcoming ts2 = q # ys @ rest" "advances ts1 ts2"
    "balanced_loop is_sync brackets m (k + 1) 1 ts1 = balanced_loop is_sync brackets m (k + 1 + length xs) 1 ts2"
    using balanced_nested [OF skip_group.hyps(5) s1(1,2), of 1 m is_sync "k + 1"] skip_group.hyps by auto
  obtain ts3 where s3: "stream_ok ts3" "upcoming ts3 = ys @ rest" "advances ts2 ts3"
    "balanced_loop is_sync brackets m (k + 1 + length xs) 1 ts2 = balanced_loop is_sync brackets m (k + 1 + length xs + 1) 0 ts3"
    using balanced_step [OF s2(1,2), of 1 is_sync brackets m "k + 1 + length xs"] skip_group.hyps by auto
  from skip_group.IH [OF s3(1,2) skip_group.prems(3), of "k + 1 + length xs + 1"] obtain ts4 where
    s4: "upcoming ts4 = rest" "advances ts3 ts4" "balanced_loop is_sync brackets m (k + 1 + length xs + 1) 0 ts3
       = Some (k + 1 + length xs + 1 + length ys, ts4)" by blast
  have "advances ts ts4" using s1(3) s2(3) s3(3) s4(2) advances_trans by blast
  then show ?case using s1(4) s2(4) s3(4) s4 by (intro exI [of _ ts4]) simp
qed


section \<open>Memoized rules\<close>

text \<open>Scanning again from the start of the token that was found gives the same token, so the offset of the next
  token determines everything a rule can read.\<close>

lemma scan_restart:
  "rules_ok r \<Longrightarrow> in_sync src c \<Longrightarrow> scan r src c = (t, c') \<Longrightarrow> scan r src (place_of src (tok_offset t)) = (t, c')"
proof (induction r src c rule: scan.induct)
  case (1 r src c)
  show ?case
  proof (cases "p_pos c \<ge> length src")
    case True
    then have "tok_offset t = p_pos c" using "1.prems" by (auto simp: scan.simps [of r src c] in_sync_def)
    then show ?thesis using "1.prems" by (simp add: in_sync_def)
  next
    case False
    then have lt: "p_pos c < length src" by simp
    show ?thesis
    proof (cases "scan_step r src c")
      case (Inl res)
      then obtain k n where "res = emit src c k n"
        using scan_step_ok [OF lt, of r] "1.prems"(1) by (auto simp: step_ok_def emits_def)
      then have "tok_offset t = p_pos c" using "1.prems"(3) lt Inl by (auto simp: scan.simps [of r src c] emit_def)
      then show ?thesis using "1.prems" by (simp add: in_sync_def)
    next
      case (Inr d)
      then obtain n where "d = advance_to src c (p_pos c + n)" using scan_step_ok [OF lt, of r] by (auto simp: step_ok_def)
      then show ?thesis using "1.IH" [OF False Inr] "1.prems" in_sync_advance [OF "1.prems"(2), of "p_pos c + n"] lt Inr
        by (simp add: scan.simps [of r src c])
    qed
  qed
qed

lemma same_offset:
  assumes "stream_ok ts" and "stream_ok ts0" and "same_text ts ts0" and "tok_offset (ts_first ts0) = tok_offset (ts_first ts)"
  shows "ts_first ts0 = ts_first ts" and "ts_second ts0 = ts_second ts" and "upcoming ts0 = upcoming ts"
proof -
  let ?r = "ts_rules ts" and ?src = "ts_source ts"
  obtain c where c: "scan ?r ?src (ts_after_previous ts) = (ts_first ts, c)" "scan ?r ?src c = (ts_second ts, lx_cursor (ts_lexer ts))"
    and ok: "rules_ok ?r" "in_sync ?src (ts_after_previous ts)" using assms(1) by (auto simp: stream_ok_def)
  obtain c0 where c0: "scan ?r ?src (ts_after_previous ts0) = (ts_first ts0, c0)" "scan ?r ?src c0 = (ts_second ts0, lx_cursor (ts_lexer ts0))"
    and ok0: "in_sync ?src (ts_after_previous ts0)" using assms(2,3) by (auto simp: stream_ok_def same_text_def)
  have "(ts_first ts0, c0) = (ts_first ts, c)"
    using scan_restart [OF ok c(1)] scan_restart [OF ok(1) ok0 c0(1)] assms(4) by simp
  then show "ts_first ts0 = ts_first ts" "ts_second ts0 = ts_second ts" "upcoming ts0 = upcoming ts"
    using c c0 tokens_at_unfold [OF ok c(1)] tokens_at_unfold [OF ok(1) ok0 c0(1)] assms(3)
    by (auto simp: upcoming_def same_text_def)
qed

definition position_only :: "('r, 'a) rule \<Rightarrow> bool" where
  "position_only rule \<longleftrightarrow> (\<forall>ts ts0 res s. stream_ok ts \<longrightarrow> stream_ok ts0 \<longrightarrow> same_text ts ts0 \<longrightarrow>
     tok_offset (ts_first ts0) = tok_offset (ts_first ts) \<longrightarrow> rule ts = Some (res, s) \<longrightarrow>
     (\<exists>s0. rule ts0 = Some (res, s0) \<and> upcoming s0 = upcoming s))"

text \<open>Every used entry of the table is the outcome of its rule at its offset.\<close>

definition entry_ok :: "(u32 \<Rightarrow> ('r, 'a) rule) \<Rightarrow> 'r token_stream \<Rightarrow> ('r, 'a) memo_entry \<Rightarrow> bool" where
  "entry_ok rules ts e \<longleftrightarrow> (\<forall>res s. me_used e \<longrightarrow> me_result e = Some res \<longrightarrow> me_end e = Some s \<longrightarrow>
     (\<exists>ts0. stream_ok ts0 \<and> same_text ts ts0 \<and> tok_offset (ts_first ts0) = me_offset e \<and> rules (me_rule_id e) ts0 = Some (res, s)))"

definition memo_ok :: "(u32 \<Rightarrow> ('r, 'a) rule) \<Rightarrow> 'r token_stream \<Rightarrow> ('r, 'a) memo_table \<Rightarrow> bool" where
  "memo_ok rules ts table \<longleftrightarrow> mt_entries table \<noteq> [] \<and> (\<forall>e \<in> set (mt_entries table). entry_ok rules ts e)"

lemma memo_init_ok: "0 < n \<Longrightarrow> memo_ok rules ts (memo_table_init n)"
  by (auto simp: memo_ok_def memo_table_init_def memo_empty_entry_def entry_ok_def)

lemma memo_clear_ok: "mt_entries table \<noteq> [] \<Longrightarrow> memo_ok rules ts (memo_clear table)"
  by (auto simp: memo_ok_def memo_clear_def memo_empty_entry_def entry_ok_def)

lemma ts_expect_position_only: "position_only (\<lambda>ts. Some (ts_expect ts kind message))"
  unfolding position_only_def
proof (intro allI impI)
  fix ts ts0 s :: "'a token_stream" and res
  assume a: "stream_ok ts" "stream_ok ts0" "same_text ts ts0" "tok_offset (ts_first ts0) = tok_offset (ts_first ts)"
    "Some (ts_expect ts kind message) = Some (res, s)"
  obtain t s1 t0 s2 where n: "ts_next ts = (t, s1)" "ts_next ts0 = (t0, s2)" by fastforce
  note n1 = ts_next_ok [OF a(1) n(1)] and n2 = ts_next_ok [OF a(2) n(2)] and same = same_offset [OF a(1-4)]
  show "\<exists>s0. Some (ts_expect ts0 kind message) = Some (res, s0) \<and> upcoming s0 = upcoming s"
    using a(5) n n1 n2 same by (auto simp: ts_expect_def ts_check_def error_here_def split: if_splits)
qed

section \<open>Properties\<close>

text \<open>Ordered choice backtracks. From the same place, the first rule that succeeds decides the value and the
  stream, and every rule before it has failed; if all fail, the stream is exactly the one before, and the
  error is one of theirs with the largest offset.\<close>

theorem parse_choice_backtracks:
  assumes "parse_rule first" and "list_all parse_rule rest" and "stream_ok ts"
  shows "(\<exists>ps r qs v s. first # rest = ps @ r # qs \<and> (\<forall>p \<in> set ps. \<exists>e s. p ts = Some (Inl e, s))
            \<and> r ts = Some (Inr v, s) \<and> parse_choice first rest ts = Some (Inr v, s))
     \<or> (\<exists>es e. list_all2 (\<lambda>p e. \<exists>s. p ts = Some (Inl e, s)) (first # rest) es \<and> parse_choice first rest ts = Some (Inl e, ts)
            \<and> e \<in> set es \<and> (\<forall>e' \<in> set es. tok_offset (pe_at e') \<le> tok_offset (pe_at e)))"
proof -
  from choice_step_spec [OF assms(1,2,3,3), of None] show ?thesis
  proof
    assume "\<exists>es. list_all2 (\<lambda>p e. \<exists>s. p ts = Some (Inl e, s)) (first # rest) es
        \<and> choice_step ts ts None first rest = Some (Inl (case None of None \<Rightarrow> foldl further (hd es) (tl es) | Some b \<Rightarrow> foldl further b es), ts)"
    then obtain es where es: "list_all2 (\<lambda>p e. \<exists>s. p ts = Some (Inl e, s)) (first # rest) es"
      "choice_step ts ts None first rest = Some (Inl (foldl further (hd es) (tl es)), ts)" by auto
    then have "es = hd es # tl es" by (cases es) auto
    then show ?thesis using es further_fold [of "hd es" "tl es"]
      by (intro disjI2 exI [of _ es] exI [of _ "foldl further (hd es) (tl es)"]) (simp add: parse_choice_def)
  qed (auto simp: parse_choice_def)
qed

theorem parse_choice_backtracks_witness:
  "\<exists>e. parse_choice (\<lambda>ts. Some (ts_expect ts T_integer ''integer'')) [\<lambda>ts. Some (ts_expect ts T_string ''string'')]
        (token_stream_init ''x'' default_rules :: unit token_stream)
      = Some (Inl e, token_stream_init ''x'' default_rules)"
proof -
  let ?ts = "token_stream_init ''x'' default_rules :: unit token_stream"
  have ok: "stream_ok ?ts" by (rule token_stream_init_ok(1)) (simp add: rules_ok_def default_rules_def)
  have "tok_kind (ts_first ?ts) = T_identifier" by code_simp
  then have f: "ts_expect ?ts T_integer ''integer'' = (Inl (error_here ?ts ''integer''), ?ts)"
    "ts_expect ?ts T_string ''string'' = (Inl (error_here ?ts ''string''), ?ts)" by (simp_all add: ts_expect_def ts_check_def)
  have "list_all parse_rule [\<lambda>ts. Some (ts_expect ts T_string ''string'')]" by (simp add: ts_expect_rule)
  from parse_choice_backtracks [OF ts_expect_rule this ok, of T_integer "''integer''"] show ?thesis
    using f by (elim disjE exE conjE) (auto simp: Cons_eq_append_conv)
qed

text \<open>The parsing loops end. For a rule that returns and does not go back in the text, the helpers for
  repetition, terminated sequences, chains, lists and lists with recovery return on every text, with a valid stream
  that has not gone back, and so do attempts, optional rules and rules under other lexer rules around it.\<close>

theorem parse_helpers_return:
  assumes "parse_rule item" and "rules_ok r" and "stream_ok ts"
  shows "(\<exists>res vs ts'. parse_repeat ro item ts = Some (res, vs, ts') \<and> advances ts ts')
     \<and> (\<exists>res vs ts'. parse_until kind close item ts = Some (res, vs, ts') \<and> advances ts ts')
     \<and> (\<exists>res vs ts'. parse_list opt item ts = Some (res, vs, ts') \<and> advances ts ts')
     \<and> (\<exists>errs res vs ts'. parse_list_recovering opt errors brackets item depth ts = Some (errs, res, vs, ts') \<and> advances ts ts')
     \<and> parse_rule (parse_chain kind sep item f n) \<and> parse_rule (attempt item) \<and> parse_rule (parse_optional item)
     \<and> parse_rule (parse_spanned item) \<and> parse_rule (with_rules r item)"
  using assms parse_rule.repeat_returns parse_rule.until_returns parse_rule.parse_list_returns
    parse_rule.parse_list_recovering_returns parse_rule.chain_rule parse_rule.attempt_rule parse_rule.optional_rule
    parse_rule.spanned_rule parse_rule.with_rules_rule
  unfolding parse_repeat_def parse_until_def by (intro conjI) blast+

theorem parse_helpers_return_witness:
  "\<exists>res vs ts'. parse_list \<lparr>lo_open = ''['', lo_close = '']'', lo_separator = '','', lo_allow_trailing = True\<rparr>
       (\<lambda>ts. Some (ts_expect ts T_integer ''integer'')) (token_stream_init ''[1, 2'' default_rules :: unit token_stream)
     = Some (res, vs, ts')"
proof -
  have ok: "stream_ok (token_stream_init ''[1, 2'' default_rules :: unit token_stream)" "rules_ok default_rules"
    by (auto intro: token_stream_init_ok(1) simp: rules_ok_def default_rules_def)
  from parse_helpers_return [OF ts_expect_rule [of T_integer "''integer''"] ok(2,1)] show ?thesis by blast
qed

text \<open>The statements of a text: from where a statement is tried, its outcome, and where the next one is tried. A statement that
  succeeds without taking a token, and one that fails, are followed by the token behind the place they left.\<close>

inductive statement_run ::
    "('r token_stream \<Rightarrow> bool) \<Rightarrow> ('r token_stream \<Rightarrow> (nat \<times> 'r token_stream) option) \<Rightarrow> ('r, 'a) rule
     \<Rightarrow> 'r token_stream \<Rightarrow> (parse_error + 'a) list \<Rightarrow> 'r token_stream \<Rightarrow> bool"
  for stop recover statement where
  run_stop: "stop ts \<Longrightarrow> statement_run stop recover statement ts [] ts"
| run_success:
    "\<lbrakk>\<not> stop ts; statement ts = Some (Inr v, ts1);
      statement_run stop recover statement
        (if tok_offset (ts_peek ts1) = tok_offset (ts_peek ts) \<and> \<not> stop ts1 then snd (ts_next ts1) else ts1) os ts'\<rbrakk>
     \<Longrightarrow> statement_run stop recover statement ts (Inr v # os) ts'"
| run_failure:
    "\<lbrakk>\<not> stop ts; statement ts = Some (Inl e, ts1); recover ts1 = Some (n, ts2);
      statement_run stop recover statement (if stop ts2 then ts2 else snd (ts_next ts2)) os ts'\<rbrakk>
     \<Longrightarrow> statement_run stop recover statement ts (Inl e # os) ts'"

fun failures :: "('e + 'a) list \<Rightarrow> 'e list" where
  "failures [] = []"
| "failures (Inl e # os) = e # failures os"
| "failures (Inr v # os) = failures os"

fun successes :: "('e + 'a) list \<Rightarrow> 'a list" where
  "successes [] = []"
| "successes (Inl e # os) = successes os"
| "successes (Inr v # os) = v # successes os"

text \<open>A list of errors after some more: all of them are counted, and as many as there is room for are kept, in their order.\<close>

definition records :: "error_list \<Rightarrow> parse_error list \<Rightarrow> error_list \<Rightarrow> bool" where
  "records before es l \<longleftrightarrow>
     el_total l = el_total before + length es \<and> el_capacity l = el_capacity before
     \<and> el_items l = el_items before @ map store_error (take (el_capacity before - length (el_items before)) es)"

lemma records_Nil [simp]: "records l [] l"
  by (simp add: records_def)

lemma records_Cons: "records (error_list_add l e) es l' \<Longrightarrow> records l (e # es) l'"
proof (cases "length (el_items l) < el_capacity l")
  case True
  then have "el_capacity l - length (el_items l) = Suc (el_capacity l - Suc (length (el_items l)))" by simp
  then show "records (error_list_add l e) es l' \<Longrightarrow> ?thesis" using True by (simp add: records_def error_list_add_def)
qed (simp add: records_def error_list_add_def)

lemma statements_loop_run:
  "statements_loop recover statement errors acc ts = Some r \<Longrightarrow>
     \<exists>os. statement_run ts_at_end recover statement ts os (snd (snd r)) \<and> fst (snd r) = acc @ successes os
        \<and> records errors (failures os) (fst r)"
proof (induction rule: statements_loop.raw_induct [rotated 1, consumes 1])
  case (1 self recover statement errors acc ts r)
  note IH = 1(1)
  show ?case
  proof (cases "ts_at_end ts")
    case True
    then show ?thesis using 1(2) by (intro exI [of _ "[]"]) (auto intro: run_stop)
  next
    case False
    then obtain res ts1 where st: "statement ts = Some (res, ts1)" using 1(2) by (auto split: option.splits)
    show ?thesis
    proof (cases res)
      case (Inr v)
      let ?s = "if tok_offset (ts_peek ts1) = tok_offset (ts_peek ts) \<and> \<not> ts_at_end ts1 then snd (ts_next ts1) else ts1"
      have "self recover statement errors (acc @ [v]) ?s = Some r"
        using 1(2) False st Inr by (auto simp: conj_commute split: if_splits)
      from IH [OF this] obtain os where "statement_run ts_at_end recover statement ?s os (snd (snd r))"
        "fst (snd r) = (acc @ [v]) @ successes os" "records errors (failures os) (fst r)" by blast
      then show ?thesis using False st Inr by (intro exI [of _ "Inr v # os"]) (auto intro: run_success)
    next
      case (Inl e)
      then obtain n ts2 where c: "recover ts1 = Some (n, ts2)" using 1(2) False st by (auto split: option.splits)
      show ?thesis
      proof (cases "ts_at_end ts2")
        case True
        then have "r = (error_list_add errors e, acc, ts2)" using 1(2) False st Inl c by simp
        moreover have "statement_run ts_at_end recover statement ts [Inl e] ts2"
          using run_failure [of ts_at_end ts statement e ts1 recover n ts2 "[]" ts2]
            False True st Inl c run_stop [of ts_at_end ts2 recover statement] by simp
        ultimately show ?thesis using records_Cons [of errors e "[]"] by (intro exI [of _ "[Inl e]"]) simp
      next
        case more: False
        then have "self recover statement (error_list_add errors e) acc (snd (ts_next ts2)) = Some r"
          using 1(2) False st Inl c by simp
        from IH [OF this] obtain os where os: "statement_run ts_at_end recover statement (snd (ts_next ts2)) os (snd (snd r))"
          "fst (snd r) = acc @ successes os" "records (error_list_add errors e) (failures os) (fst r)" by blast
        have "statement_run ts_at_end recover statement ts (Inl e # os) (snd (snd r))"
          using run_failure [of ts_at_end ts statement e ts1 recover n ts2 os] False st Inl c os(1) more by simp
        then show ?thesis using os(2,3) records_Cons by (intro exI [of _ "Inl e # os"]) simp
      qed
    qed
  qed
qed

lemma statements_until_loop_run:
  "statements_until_loop close_kind close sync brackets statement errors acc ts = Some r \<Longrightarrow>
     \<exists>os. statement_run (\<lambda>s. ts_at_end s \<or> ts_check_text s close_kind close)
            (\<lambda>s. recover_balanced_if s (\<lambda>tok. tok_kind tok = close_kind \<and> tok_text tok = close \<or> sync_matches sync tok) brackets 64)
            statement ts os (snd (snd r))
        \<and> fst (snd r) = acc @ successes os
        \<and> records errors (failures os @ (if ts_at_end (snd (snd r))
            then [parse_error_at ''unexpected end of input'' (ts_peek (snd (snd r)))] else [])) (fst r)"
proof (induction rule: statements_until_loop.raw_induct [rotated 1, consumes 1])
  case (1 self close_kind close sync brackets statement errors acc ts r)
  note IH = 1(1)
  let ?stop = "\<lambda>s. ts_at_end s \<or> ts_check_text s close_kind close"
  let ?recover = "\<lambda>s. recover_balanced_if s (\<lambda>tok. tok_kind tok = close_kind \<and> tok_text tok = close \<or> sync_matches sync tok) brackets 64"
  show ?case
  proof (cases "?stop ts")
    case True
    then have "snd (snd r) = ts" "fst (snd r) = acc"
      "fst r = (if ts_at_end ts then error_list_add errors (parse_error_at ''unexpected end of input'' (ts_peek ts)) else errors)"
      using 1(2) by (auto split: if_splits)
    then show ?thesis
      using run_stop [of ?stop ts ?recover statement] True records_Cons [of errors _ "[]"] by (intro exI [of _ "[]"]) auto
  next
    case False
    then obtain res ts1 where st: "statement ts = Some (res, ts1)" using 1(2) by (auto split: option.splits)
    show ?thesis
    proof (cases res)
      case (Inr v)
      let ?s = "if tok_offset (ts_peek ts1) = tok_offset (ts_peek ts) \<and> \<not> ?stop ts1 then snd (ts_next ts1) else ts1"
      have "self close_kind close sync brackets statement errors (acc @ [v]) ?s = Some r"
        using 1(2) False st Inr by (auto split: if_splits)
      from IH [OF this] obtain os where os: "statement_run ?stop ?recover statement ?s os (snd (snd r))"
        "fst (snd r) = (acc @ [v]) @ successes os"
        "records errors (failures os @ (if ts_at_end (snd (snd r))
            then [parse_error_at ''unexpected end of input'' (ts_peek (snd (snd r)))] else [])) (fst r)" by blast
      have "statement_run ?stop ?recover statement ts (Inr v # os) (snd (snd r))"
        by (rule run_success [where stop = ?stop, OF False st [unfolded Inr] os(1)])
      then show ?thesis using os(2,3) by (intro exI [of _ "Inr v # os"]) simp
    next
      case (Inl e)
      then obtain n ts2 where c: "?recover ts1 = Some (n, ts2)" using 1(2) False st by (auto split: option.splits)
      let ?s = "if ?stop ts2 then ts2 else snd (ts_next ts2)"
      have "self close_kind close sync brackets statement (error_list_add errors e) acc ?s = Some r"
        using 1(2) False st Inl c by (auto split: if_splits)
      from IH [OF this] obtain os where os: "statement_run ?stop ?recover statement ?s os (snd (snd r))"
        "fst (snd r) = acc @ successes os"
        "records (error_list_add errors e) (failures os @ (if ts_at_end (snd (snd r))
            then [parse_error_at ''unexpected end of input'' (ts_peek (snd (snd r)))] else [])) (fst r)" by blast
      have "statement_run ?stop ?recover statement ts (Inl e # os) (snd (snd r))"
        by (rule run_failure [where stop = ?stop and recover = ?recover, OF False st [unfolded Inl] c os(1)])
      then show ?thesis using os(2) records_Cons [OF os(3)] by (intro exI [of _ "Inl e # os"]) simp
    qed
  qed
qed

text \<open>C21: A statement loop reaches the end of every text, whatever the statements do short of going back, with
  either recovery, and a block loop reaches its closing token or the end. The loop returns the values of the statements that
  succeed, in their order, and every statement that fails is counted and, as far as the list has room, recorded; a
  block that is not closed adds one more error.\<close>

theorem parse_statements_reach_end:
  assumes "parse_rule statement" and "stream_ok ts"
  shows "(\<exists>errs ts' os. parse_statements sync errors statement ts = Some (errs, successes os, ts') \<and> ts_at_end ts'
        \<and> statement_run ts_at_end (\<lambda>s. recover_to s sync) statement ts os ts' \<and> records errors (failures os) errs)
     \<and> (\<exists>errs ts' os. parse_statements_balanced sync brackets errors statement ts = Some (errs, successes os, ts') \<and> ts_at_end ts'
        \<and> statement_run ts_at_end (\<lambda>s. recover_balanced s sync brackets 64) statement ts os ts' \<and> records errors (failures os) errs)
     \<and> (\<exists>errs ts' os. parse_statements_until kind close sync brackets errors statement ts = Some (errs, successes os, ts')
        \<and> (ts_at_end ts' \<or> ts_check_text ts' kind close)
        \<and> statement_run (\<lambda>s. ts_at_end s \<or> ts_check_text s kind close)
            (\<lambda>s. recover_balanced_if s (\<lambda>tok. tok_kind tok = kind \<and> tok_text tok = close \<or> sync_matches sync tok) brackets 64)
            statement ts os ts'
        \<and> records errors (failures os @ (if ts_at_end ts' then [parse_error_at ''unexpected end of input'' (ts_peek ts')] else [])) errs)"
proof -
  have l: "statement_loop statement (\<lambda>s. recover_to s sync)" "statement_loop statement (\<lambda>s. recover_balanced s sync brackets 64)"
    by (intro statement_loop.intro assms(1) to_sync.recovery_axioms to_balanced.recovery_axioms)+
  obtain e1 v1 t1 where 1: "parse_statements sync errors statement ts = Some (e1, v1, t1)" "ts_at_end t1"
    using statement_loop.statements_reach_end [OF l(1) assms(2), of errors "[]"] unfolding parse_statements_def by blast
  obtain e2 v2 t2 where 2: "parse_statements_balanced sync brackets errors statement ts = Some (e2, v2, t2)" "ts_at_end t2"
    using statement_loop.statements_reach_end [OF l(2) assms(2), of errors "[]"] unfolding parse_statements_balanced_def by blast
  obtain e3 v3 t3 where 3: "parse_statements_until kind close sync brackets errors statement ts = Some (e3, v3, t3)"
    "ts_at_end t3 \<or> ts_check_text t3 kind close"
    using parse_rule.until_close_returns [OF assms, of kind close sync brackets errors "[]"] unfolding parse_statements_until_def by blast
  show ?thesis
    using 1 2 3 statements_loop_run [OF 1(1) [unfolded parse_statements_def]]
      statements_loop_run [OF 2(1) [unfolded parse_statements_balanced_def]]
      statements_until_loop_run [OF 3(1) [unfolded parse_statements_until_def]]
    by (intro conjI) fastforce+
qed

theorem parse_statements_reach_end_witness:
  "\<exists>errs ts' os. parse_statements [\<lparr>sy_kind = T_punctuation, sy_text = '';''\<rparr>] (error_list_init 4)
       (\<lambda>ts. Some (ts_expect ts T_integer ''integer'')) (token_stream_init ''1 x; 2'' default_rules :: unit token_stream)
     = Some (errs, successes os, ts') \<and> ts_at_end ts' \<and> records (error_list_init 4) (failures os) errs"
proof -
  have ok: "stream_ok (token_stream_init ''1 x; 2'' default_rules :: unit token_stream)"
    by (rule token_stream_init_ok(1)) (simp add: rules_ok_def default_rules_def)
  from parse_statements_reach_end [OF ts_expect_rule [of T_integer "''integer''"] ok] show ?thesis by blast
qed

text \<open>Recovery skips whole groups. Where the tokens ahead are plain tokens and well nested groups within the depth
  limit, and then a sync point or the end, balanced recovery stops exactly there: sync points inside the
  groups are passed over. Plain recovery stops at the first sync point.\<close>

theorem recovery_stops_at_sync:
  assumes "stream_ok ts" and "skippable (sync_matches sync) brackets depth xs" and "upcoming ts = xs @ rest"
    and "rest = [] \<or> sync_matches sync (hd rest)"
  shows "(\<exists>ts'. recover_balanced ts sync brackets depth = Some (length xs, ts') \<and> upcoming ts' = rest)
     \<and> (\<exists>ts'. recover_to ts sync = Some (length (takeWhile (\<lambda>t. \<not> sync_matches sync t) (xs @ rest)), ts')
          \<and> upcoming ts' = dropWhile (\<lambda>t. \<not> sync_matches sync t) (xs @ rest))"
  using balanced_skips [OF assms(2,1,3,4), of 0] recover_loop_skips [OF assms(1), of sync 0] assms(3)
  by (auto simp: recover_balanced_def recover_balanced_if_def recover_to_def)

theorem recovery_stops_at_sync_witness:
  "\<exists>ts'. recover_balanced (token_stream_init ''{ ; } ; x'' default_rules :: unit token_stream)
       [\<lparr>sy_kind = T_punctuation, sy_text = '';''\<rparr>]
       [\<lparr>bp_open_kind = T_punctuation, bp_open = ''{'', bp_close_kind = T_punctuation, bp_close = ''}''\<rparr>] 4 = Some (3, ts')
     \<and> map tok_text (upcoming ts') = ['';'', ''x'']"
proof -
  let ?ts = "token_stream_init ''{ ; } ; x'' default_rules :: unit token_stream"
  let ?sync = "[\<lparr>sy_kind = T_punctuation, sy_text = '';''\<rparr>]"
  let ?br = "[\<lparr>bp_open_kind = T_punctuation, bp_open = ''{'', bp_close_kind = T_punctuation, bp_close = ''}''\<rparr>]"
  have ok: "stream_ok ?ts" by (rule token_stream_init_ok(1)) (simp add: rules_ok_def default_rules_def)
  have "map tok_text (tokens_at default_rules ''{ ; } ; x'' init_position) = [''{'', '';'', ''}'', '';'', ''x'']"
    "map tok_kind (tokens_at default_rules ''{ ; } ; x'' init_position)
       = [T_punctuation, T_punctuation, T_punctuation, T_punctuation, T_identifier]" by code_simp+
  then obtain a b c d e where up: "upcoming ?ts = [a] @ [b] @ [c] @ [d, e]"
    and texts: "tok_text a = ''{''" "tok_text b = '';''" "tok_text c = ''}''" "tok_text d = '';''" "tok_text e = ''x''"
    and kind: "tok_kind a = T_punctuation" "tok_kind b = T_punctuation" "tok_kind c = T_punctuation" "tok_kind d = T_punctuation"
    unfolding token_stream_init_ok(2) by (auto simp: map_eq_Cons_conv)
  have "nested ?br 0 [b]" using texts kind by (intro nested.intros) (simp_all add: opens_bracket_def closes_bracket_def)
  then have "skippable (sync_matches ?sync) ?br 4 (a # [b] @ c # [])"
    using texts kind by (intro skip_group [where j = 0] skip_Nil) (simp_all add: opens_bracket_def closes_bracket_def sync_matches_def)
  from recovery_stops_at_sync [OF ok this, of "[d, e]"] up texts kind show ?thesis by (auto simp: sync_matches_def)
qed

text \<open>C20: Memoization does not change what a rule returns. For a rule that depends only on its place, a memoized
  run gives the outcome of the rule, hit or miss, and continues at the same place, with a table of any size, and the
  table still holds only true outcomes.\<close>

theorem memoize_transparent:
  assumes "parse_rule (rules rule_id)" and "position_only (rules rule_id)" and "memo_ok rules ts table" and "stream_ok ts"
  shows "\<exists>res table' ts' ts1. memoize rule_id (rules rule_id) table ts = Some (res, table', ts')
     \<and> rules rule_id ts = Some (res, ts1) \<and> upcoming ts' = upcoming ts1 \<and> memo_ok rules ts table'"
proof -
  let ?off = "tok_offset (ts_peek ts)" and ?n = "length (mt_entries table)"
  let ?i = "memo_slot ?n rule_id ?off"
  let ?e = "mt_entries table ! ?i"
  obtain res ts1 where r: "rules rule_id ts = Some (res, ts1)" "stream_ok ts1" using parse_rule.run [OF assms(1,4)] .
  have i: "?i < ?n" using assms(3) by (simp add: memo_slot_def memo_ok_def)
  show ?thesis
  proof (cases "\<exists>res0 s. me_used ?e \<and> me_rule_id ?e = rule_id \<and> me_offset ?e = ?off \<and> me_result ?e = Some res0 \<and> me_end ?e = Some s")
    case True
    then obtain res0 s where e: "me_used ?e" "me_rule_id ?e = rule_id" "me_offset ?e = ?off" "me_result ?e = Some res0" "me_end ?e = Some s"
      by blast
    have "entry_ok rules ts ?e" using assms(3) i by (simp add: memo_ok_def)
    then obtain ts0 where t0: "stream_ok ts0" "same_text ts ts0" "tok_offset (ts_first ts0) = ?off" "rules rule_id ts0 = Some (res0, s)"
      using e by (auto simp: entry_ok_def)
    obtain s0 where s0: "rules rule_id ts0 = Some (res, s0)" "upcoming s0 = upcoming ts1"
      using assms(2,4) t0(1-3) r(1) unfolding position_only_def ts_peek_def by blast
    have ok: "stream_ok s" using parse_rule.run [OF assms(1) t0(1)] t0(4) by auto
    have "memoize rule_id (rules rule_id) table ts = Some (res0, table\<lparr>mt_hits := mt_hits table + 1\<rparr>, ts_assign ts s)"
      using e by (simp add: memoize_def Let_def)
    then show ?thesis using s0 t0(4) r assms(3,4) ok by (auto simp: memo_ok_def)
  next
    case False
    then have "memoize rule_id (rules rule_id) table ts = memo_run rule_id (rules rule_id) table ts ?off ?i"
      by (auto simp: memoize_def Let_def split: option.splits)
    moreover have "entry_ok rules ts \<lparr>me_used = True, me_rule_id = rule_id, me_offset = ?off, me_result = Some res, me_end = Some ts1\<rparr>"
      using r assms(4) by (auto simp: entry_ok_def ts_peek_def)
    then have "memo_ok rules ts (table\<lparr>mt_misses := mt_misses table + 1, mt_entries := (mt_entries table)
        [?i := \<lparr>me_used = True, me_rule_id = rule_id, me_offset = ?off, me_result = Some res, me_end = Some ts1\<rparr>]\<rparr>)"
      using assms(3) set_update_subset_insert by (fastforce simp: memo_ok_def)
    ultimately show ?thesis using r(1) by (simp add: memo_run_def)
  qed
qed

theorem memoize_transparent_witness:
  "\<exists>res table' ts'. memoize 3 (\<lambda>ts. Some (ts_expect ts T_identifier ''name'')) (memo_table_init 2)
       (token_stream_init ''ab'' default_rules :: unit token_stream) = Some (res, table', ts')
     \<and> (\<exists>ts1. ts_expect (token_stream_init ''ab'' default_rules :: unit token_stream) T_identifier ''name'' = (res, ts1))"
proof -
  have ok: "stream_ok (token_stream_init ''ab'' default_rules :: unit token_stream)"
    by (rule token_stream_init_ok(1)) (simp add: rules_ok_def default_rules_def)
  from memoize_transparent [where rules = "\<lambda>_ ts. Some (ts_expect ts T_identifier ''name'')" and rule_id = 3,
      OF ts_expect_rule ts_expect_position_only memo_init_ok ok, of 2] show ?thesis by auto
qed


end
