(* ===== verification/Expression_Parser.thy ===== *)
theory Expression_Parser
  imports Parse_Combinators
begin

text \<open>
  The precedence-climbing expression parser of \<^verbatim>\<open>parsing/token_stream.hpp\<close>: operator tables, the class
  \<^verbatim>\<open>expression_parser\<close> and the four overloads of \<^verbatim>\<open>parse_expression\<close>. The callbacks are the caller's; those that
  parse take the stream and give it back, those that only build a value see the stream for the place of an error.
  The recursion of \<^verbatim>\<open>parse\<close> is structural on the nesting that is still allowed (\<open>max_depth\<close> less the depth), so the
  limit of \<^verbatim>\<open>depth_guard\<close> is its fuel; the operator loop is a partial function. The relation \<open>reads\<close> says which
  trees a token sequence stands for; the parser of trees is sound and complete for it.
\<close>

section \<open>Operator tables\<close>

datatype assoc = A_left | A_right | A_none

record binary_op =
  bo_text :: string
  bo_precedence :: u8
  bo_associativity :: assoc

record prefix_op =
  pr_text :: string
  pr_precedence :: u8

record postfix_op =
  po_text :: string
  po_precedence :: u8

record ternary_op =
  te_question :: string
  te_colon :: string
  te_precedence :: u8

record mixfix_op =
  mi_text :: string
  mi_precedence :: u8

record expression_grammar =
  g_binary :: "binary_op list"
  g_prefix :: "prefix_op list"
  g_postfix :: "postfix_op list"
  g_mixfix :: "mixfix_op list"
  g_ternary :: "ternary_op option"

definition has_spelling :: "token \<Rightarrow> string \<Rightarrow> bool" where
  "has_spelling tok txt' \<longleftrightarrow> (tok_kind tok = T_op \<or> tok_kind tok = T_keyword \<or> tok_kind tok = T_punctuation) \<and> tok_text tok = txt'"

definition is_operator_token :: "token \<Rightarrow> bool" where
  "is_operator_token tok \<longleftrightarrow> tok_kind tok = T_op \<or> tok_kind tok = T_keyword"

definition find_binary :: "binary_op list \<Rightarrow> token \<Rightarrow> binary_op option" where
  "find_binary ops tok = (if is_operator_token tok then find (\<lambda>o'. bo_text o' = tok_text tok) ops else None)"

definition find_prefix :: "prefix_op list \<Rightarrow> token \<Rightarrow> prefix_op option" where
  "find_prefix ops tok = (if is_operator_token tok then find (\<lambda>o'. pr_text o' = tok_text tok) ops else None)"

definition find_postfix :: "postfix_op list \<Rightarrow> token \<Rightarrow> postfix_op option" where
  "find_postfix ops tok =
     (if is_operator_token tok \<or> tok_kind tok = T_punctuation then find (\<lambda>o'. po_text o' = tok_text tok) ops else None)"

definition find_mixfix :: "mixfix_op list \<Rightarrow> token \<Rightarrow> mixfix_op option" where
  "find_mixfix ops tok =
     (if is_operator_token tok \<or> tok_kind tok = T_identifier \<or> tok_kind tok = T_punctuation
      then find (\<lambda>o'. mi_text o' = tok_text tok) ops else None)"

section \<open>expression_parser\<close>

record ('r, 'a) expression_parser =
  ep_grammar :: expression_grammar
  ep_primary :: "('r, 'a) rule"
  ep_make_binary :: "binary_op \<Rightarrow> 'a \<Rightarrow> 'a \<Rightarrow> 'r token_stream \<Rightarrow> parse_error + 'a"
  ep_make_prefix :: "prefix_op \<Rightarrow> 'a \<Rightarrow> 'r token_stream \<Rightarrow> parse_error + 'a"
  ep_make_postfix :: "postfix_op \<Rightarrow> 'a \<Rightarrow> ('r, 'a) rule"
  ep_make_ternary :: "ternary_op \<Rightarrow> 'a \<Rightarrow> 'a \<Rightarrow> 'a \<Rightarrow> 'r token_stream \<Rightarrow> parse_error + 'a"
  ep_make_mixfix :: "(mixfix_op \<Rightarrow> (nat \<Rightarrow> ('r, 'a) rule) \<Rightarrow> ('r, 'a) rule) option"
  ep_make_paren :: "(token \<Rightarrow> 'a \<Rightarrow> ('r, 'a) rule) option"

text \<open>A rule and then what is done with its value.\<close>

definition on_value :: "('r, 'a) outcome \<Rightarrow> ('a \<Rightarrow> 'r token_stream \<Rightarrow> ('r, 'b) outcome) \<Rightarrow> ('r, 'b) outcome" where
  "on_value r f = (case r of None \<Rightarrow> None | Some (Inl e, ts) \<Rightarrow> Some (Inl e, ts) | Some (Inr v, ts) \<Rightarrow> f v ts)"

lemma on_value_simps [simp]:
  "on_value None f = None" "on_value (Some (Inl e, ts)) f = Some (Inl e, ts)" "on_value (Some (Inr v, ts)) f = f v ts"
  by (simp_all add: on_value_def)

text \<open>The messages with quotes in them.\<close>

definition expected_quoted :: "char \<Rightarrow> string" where
  "expected_quoted c = ''expected '' @ [CHR 0x27, c, CHR 0x27]"

definition parse_ternary :: "('r, 'a) expression_parser \<Rightarrow> (nat \<Rightarrow> ('r, 'a) rule) \<Rightarrow> ternary_op \<Rightarrow> 'a \<Rightarrow> ('r, 'a) rule" where
  "parse_ternary p sub op condition ts =
     on_value (sub 0 (snd (ts_next ts))) (\<lambda>then_value ts1.
       if \<not> has_spelling (ts_peek ts1) (te_colon op) then Some (Inl (error_here ts1 (expected_quoted (CHR '':''))), ts1)
       else on_value (sub (unat (te_precedence op)) (snd (ts_next ts1))) (\<lambda>else_value ts2.
         Some (ep_make_ternary p op condition then_value else_value ts2, ts2)))"

definition parse_operand :: "('r, 'a) expression_parser \<Rightarrow> (nat \<Rightarrow> ('r, 'a) rule) \<Rightarrow> ('r, 'a) rule" where
  "parse_operand p sub ts =
     (case (find_mixfix (g_mixfix (ep_grammar p)) (ts_peek ts), ep_make_mixfix p) of
        (Some form, Some make_mixfix) \<Rightarrow> make_mixfix form sub (snd (ts_next ts))
      | _ \<Rightarrow>
        (case find_prefix (g_prefix (ep_grammar p)) (ts_peek ts) of
           Some op \<Rightarrow>
             on_value (sub (unat (pr_precedence op)) (snd (ts_next ts))) (\<lambda>operand ts1. Some (ep_make_prefix p op operand ts1, ts1))
         | None \<Rightarrow>
             if ts_check_text ts T_punctuation ''(''
             then let (open', ts1) = ts_next ts
                  in on_value (sub 0 ts1) (\<lambda>inner ts2.
                       case ts_expect_text ts2 T_punctuation '')'' (expected_quoted (CHR '')'')) of
                         (Inl e, ts3) \<Rightarrow> Some (Inl e, ts3)
                       | (Inr _, ts3) \<Rightarrow>
                           (case ep_make_paren p of
                              Some make_paren \<Rightarrow> make_paren open' inner ts3
                            | None \<Rightarrow> Some (Inr inner, ts3)))
             else ep_primary p ts))"

definition postfix_at :: "expression_grammar \<Rightarrow> nat \<Rightarrow> token \<Rightarrow> postfix_op option" where
  "postfix_at g min_precedence tok =
     (case find_postfix (g_postfix g) tok of
        Some post \<Rightarrow> if unat (po_precedence post) \<ge> min_precedence then Some post else None
      | None \<Rightarrow> None)"

definition ternary_at :: "expression_grammar \<Rightarrow> nat \<Rightarrow> token \<Rightarrow> ternary_op option" where
  "ternary_at g min_precedence tok =
     (case g_ternary g of
        Some op \<Rightarrow> if unat (te_precedence op) \<ge> min_precedence \<and> has_spelling tok (te_question op) then Some op else None
      | None \<Rightarrow> None)"

definition next_min :: "binary_op \<Rightarrow> nat" where
  "next_min op = (if bo_associativity op = A_right then unat (bo_precedence op) else unat (bo_precedence op) + 1)"

text \<open>One iteration of the operator loop: the loop is left with a result, or goes on with the precedence of a
  non-associative operator just applied, the value so far and the stream.\<close>

type_synonym ('r, 'a) loop_step = "((((parse_error + 'a) \<times> 'r token_stream) + (nat option \<times> 'a \<times> 'r token_stream)) option)"

definition step_on_value :: "('r, 'a) outcome \<Rightarrow> ('a \<Rightarrow> 'r token_stream \<Rightarrow> ('r, 'a) loop_step) \<Rightarrow> ('r, 'a) loop_step" where
  "step_on_value r f =
     (case r of None \<Rightarrow> None | Some (Inl e, ts) \<Rightarrow> Some (Inl (Inl e, ts)) | Some (Inr v, ts) \<Rightarrow> f v ts)"

lemma step_on_value_simps [simp]:
  "step_on_value None f = None" "step_on_value (Some (Inl e, ts)) f = Some (Inl (Inl e, ts))"
  "step_on_value (Some (Inr v, ts)) f = f v ts"
  by (simp_all add: step_on_value_def)

definition expression_step ::
    "('r, 'a) expression_parser \<Rightarrow> (nat \<Rightarrow> ('r, 'a) rule) \<Rightarrow> nat \<Rightarrow> nat option \<Rightarrow> 'a \<Rightarrow> 'r token_stream \<Rightarrow> ('r, 'a) loop_step" where
  "expression_step p sub min_precedence non_associative value' ts =
     (case postfix_at (ep_grammar p) min_precedence (ts_peek ts) of
        Some post \<Rightarrow>
          step_on_value (ep_make_postfix p post value' (snd (ts_next ts))) (\<lambda>v ts1. Some (Inr (non_associative, v, ts1)))
      | None \<Rightarrow>
          (case find_binary (g_binary (ep_grammar p)) (ts_peek ts) of
             None \<Rightarrow>
               (case ternary_at (ep_grammar p) min_precedence (ts_peek ts) of
                  Some op \<Rightarrow> step_on_value (parse_ternary p sub op value' ts) (\<lambda>v ts1. Some (Inr (non_associative, v, ts1)))
                | None \<Rightarrow> Some (Inl (Inr value', ts)))
           | Some op \<Rightarrow>
               if unat (bo_precedence op) < min_precedence then Some (Inl (Inr value', ts))
               else if non_associative = Some (unat (bo_precedence op))
               then Some (Inl (Inl (error_here ts ''operator is not associative''), ts))
               else step_on_value (sub (next_min op) (snd (ts_next ts))) (\<lambda>right' ts1.
                      case ep_make_binary p op value' right' ts1 of
                        Inl e \<Rightarrow> Some (Inl (Inl e, ts1))
                      | Inr v \<Rightarrow>
                          Some (Inr (if bo_associativity op = A_none then Some (unat (bo_precedence op)) else None, v, ts1)))))"

partial_function (option) expression_loop ::
    "('r, 'a) expression_parser \<Rightarrow> (nat \<Rightarrow> ('r, 'a) rule) \<Rightarrow> nat \<Rightarrow> nat option \<Rightarrow> 'a \<Rightarrow> 'r token_stream \<Rightarrow> ('r, 'a) outcome" where
  "expression_loop p sub min_precedence non_associative value' ts =
     (case expression_step p sub min_precedence non_associative value' ts of
        None \<Rightarrow> None
      | Some (Inl result) \<Rightarrow> Some result
      | Some (Inr (na, v, ts1)) \<Rightarrow> expression_loop p sub min_precedence na v ts1)"

declare expression_loop.simps [code]

text \<open>\<^verbatim>\<open>parse(min_precedence)\<close>, by the number of nested calls that the depth limit still allows.\<close>

primrec expression_parse :: "('r, 'a) expression_parser \<Rightarrow> nat \<Rightarrow> nat \<Rightarrow> ('r, 'a) rule" where
  "expression_parse p 0 = (\<lambda>min_precedence ts. Some (Inl (error_here ts ''nesting too deep''), ts))"
| "expression_parse p (Suc d) = (\<lambda>min_precedence ts.
     on_value (parse_operand p (expression_parse p d) ts)
       (\<lambda>value' ts1. expression_loop p (expression_parse p d) min_precedence None value' ts1))"

section \<open>parse_expression\<close>

definition no_ternary :: "ternary_op \<Rightarrow> 'a \<Rightarrow> 'a \<Rightarrow> 'a \<Rightarrow> 'r token_stream \<Rightarrow> parse_error + 'a" where
  "no_ternary op c t e ts = Inl (parse_error_at ''ternary operator is disabled'' default_token)"

definition no_postfix :: "postfix_op \<Rightarrow> 'a \<Rightarrow> ('r, 'a) rule" where
  "no_postfix op operand ts = Some (Inr operand, ts)"

definition parse_expression_ternary ::
    "binary_op list \<Rightarrow> prefix_op list \<Rightarrow> postfix_op list \<Rightarrow> ternary_op \<Rightarrow> ('r, 'a) rule \<Rightarrow> (binary_op \<Rightarrow> 'a \<Rightarrow> 'a \<Rightarrow> parse_error + 'a)
     \<Rightarrow> (prefix_op \<Rightarrow> 'a \<Rightarrow> parse_error + 'a) \<Rightarrow> (postfix_op \<Rightarrow> 'a \<Rightarrow> ('r, 'a) rule)
     \<Rightarrow> (ternary_op \<Rightarrow> 'a \<Rightarrow> 'a \<Rightarrow> 'a \<Rightarrow> parse_error + 'a) \<Rightarrow> nat \<Rightarrow> ('r, 'a) rule" where
  "parse_expression_ternary binary prefix' postfix ternary primary make_binary make_prefix make_postfix make_ternary max_depth =
     expression_parse
       \<lparr>ep_grammar = \<lparr>g_binary = binary, g_prefix = prefix', g_postfix = postfix, g_mixfix = [], g_ternary = Some ternary\<rparr>,
        ep_primary = primary, ep_make_binary = (\<lambda>op l r ts. make_binary op l r), ep_make_prefix = (\<lambda>op v ts. make_prefix op v),
        ep_make_postfix = make_postfix, ep_make_ternary = (\<lambda>op c t e ts. make_ternary op c t e),
        ep_make_mixfix = None, ep_make_paren = None\<rparr> max_depth 0"

definition parse_expression_postfix ::
    "binary_op list \<Rightarrow> prefix_op list \<Rightarrow> postfix_op list \<Rightarrow> ('r, 'a) rule \<Rightarrow> (binary_op \<Rightarrow> 'a \<Rightarrow> 'a \<Rightarrow> parse_error + 'a)
     \<Rightarrow> (prefix_op \<Rightarrow> 'a \<Rightarrow> parse_error + 'a) \<Rightarrow> (postfix_op \<Rightarrow> 'a \<Rightarrow> ('r, 'a) rule) \<Rightarrow> nat \<Rightarrow> ('r, 'a) rule" where
  "parse_expression_postfix binary prefix' postfix primary make_binary make_prefix make_postfix max_depth =
     expression_parse
       \<lparr>ep_grammar = \<lparr>g_binary = binary, g_prefix = prefix', g_postfix = postfix, g_mixfix = [], g_ternary = None\<rparr>,
        ep_primary = primary, ep_make_binary = (\<lambda>op l r ts. make_binary op l r), ep_make_prefix = (\<lambda>op v ts. make_prefix op v),
        ep_make_postfix = make_postfix, ep_make_ternary = no_ternary, ep_make_mixfix = None, ep_make_paren = None\<rparr> max_depth 0"

definition parse_expression ::
    "binary_op list \<Rightarrow> prefix_op list \<Rightarrow> ('r, 'a) rule \<Rightarrow> (binary_op \<Rightarrow> 'a \<Rightarrow> 'a \<Rightarrow> parse_error + 'a)
     \<Rightarrow> (prefix_op \<Rightarrow> 'a \<Rightarrow> parse_error + 'a) \<Rightarrow> nat \<Rightarrow> ('r, 'a) rule" where
  "parse_expression binary prefix' primary make_binary make_prefix max_depth =
     expression_parse
       \<lparr>ep_grammar = \<lparr>g_binary = binary, g_prefix = prefix', g_postfix = [], g_mixfix = [], g_ternary = None\<rparr>,
        ep_primary = primary, ep_make_binary = (\<lambda>op l r ts. make_binary op l r), ep_make_prefix = (\<lambda>op v ts. make_prefix op v),
        ep_make_postfix = no_postfix, ep_make_ternary = no_ternary, ep_make_mixfix = None, ep_make_paren = None\<rparr> max_depth 0"

text \<open>The overload with an actions object: members that the object may lack are options.\<close>

record ('r, 'a) expression_actions =
  ac_primary :: "('r, 'a) rule"
  ac_make_binary :: "(binary_op \<Rightarrow> 'a \<Rightarrow> 'a \<Rightarrow> parse_error + 'a) option"
  ac_make_prefix :: "(prefix_op \<Rightarrow> 'a \<Rightarrow> parse_error + 'a) option"
  ac_make_postfix :: "(postfix_op \<Rightarrow> 'a \<Rightarrow> ('r, 'a) rule) option"
  ac_make_ternary :: "(ternary_op \<Rightarrow> 'a \<Rightarrow> 'a \<Rightarrow> 'a \<Rightarrow> parse_error + 'a) option"
  ac_make_mixfix :: "(mixfix_op \<Rightarrow> (nat \<Rightarrow> ('r, 'a) rule) \<Rightarrow> ('r, 'a) rule) option"
  ac_make_paren :: "(token \<Rightarrow> 'a \<Rightarrow> ('r, 'a) rule) option"

definition paren_forwarder :: "('r, 'a) expression_actions \<Rightarrow> token \<Rightarrow> 'a \<Rightarrow> ('r, 'a) rule" where
  "paren_forwarder actions open' inner ts =
     (case ac_make_paren actions of Some f \<Rightarrow> f open' inner ts | None \<Rightarrow> Some (Inr inner, ts))"

definition mixfix_forwarder :: "('r, 'a) expression_actions \<Rightarrow> mixfix_op \<Rightarrow> (nat \<Rightarrow> ('r, 'a) rule) \<Rightarrow> ('r, 'a) rule" where
  "mixfix_forwarder actions op expr ts =
     (case ac_make_mixfix actions of
        Some f \<Rightarrow> f op expr ts
      | None \<Rightarrow> Some (Inl (error_here ts ''no make_mixfix callback''), ts))"

definition actions_parser :: "expression_grammar \<Rightarrow> ('r, 'a) expression_actions \<Rightarrow> ('r, 'a) expression_parser" where
  "actions_parser grammar actions =
     \<lparr>ep_grammar = grammar, ep_primary = ac_primary actions,
      ep_make_binary = (\<lambda>op l r ts. case ac_make_binary actions of
         Some f \<Rightarrow> f op l r | None \<Rightarrow> Inl (error_here ts ''no make_binary callback'')),
      ep_make_prefix = (\<lambda>op v ts. case ac_make_prefix actions of
         Some f \<Rightarrow> f op v | None \<Rightarrow> Inl (error_here ts ''no make_prefix callback'')),
      ep_make_postfix = (\<lambda>op v ts. case ac_make_postfix actions of
         Some f \<Rightarrow> f op v ts | None \<Rightarrow> Some (Inl (error_here ts ''no make_postfix callback''), ts)),
      ep_make_ternary = (\<lambda>op c t e ts. case ac_make_ternary actions of
         Some f \<Rightarrow> f op c t e | None \<Rightarrow> Inl (error_here ts ''no make_ternary callback'')),
      ep_make_mixfix = Some (mixfix_forwarder actions), ep_make_paren = Some (paren_forwarder actions)\<rparr>"

definition parse_expression_actions :: "expression_grammar \<Rightarrow> ('r, 'a) expression_actions \<Rightarrow> nat \<Rightarrow> ('r, 'a) rule" where
  "parse_expression_actions grammar actions max_depth = expression_parse (actions_parser grammar actions) max_depth 0"

section \<open>The parser returns\<close>

text \<open>What the callbacks have to do: return, and not go back in the text.\<close>

locale expression_callbacks =
  fixes p :: "('r, 'a) expression_parser"
  assumes primary_rule: "parse_rule (ep_primary p)"
    and postfix_rule: "parse_rule (ep_make_postfix p post v)"
    and mixfix_rule: "ep_make_mixfix p = Some make_mixfix \<Longrightarrow> (\<And>m. parse_rule (sub m)) \<Longrightarrow> parse_rule (make_mixfix form sub)"
    and paren_rule: "ep_make_paren p = Some make_paren \<Longrightarrow> parse_rule (make_paren open' v)"

lemma on_value_returns:
  assumes "\<exists>res ts'. r = Some (res, ts') \<and> advances ts ts'"
    and "\<And>v ts1. advances ts ts1 \<Longrightarrow> \<exists>res ts'. f v ts1 = Some (res, ts') \<and> advances ts1 ts'"
  shows "\<exists>res ts'. on_value r f = Some (res, ts') \<and> advances ts ts'"
proof -
  obtain res ts1 where r: "r = Some (res, ts1)" "advances ts ts1" using assms(1) by blast
  show ?thesis
  proof (cases res)
    case (Inl e)
    then show ?thesis using r by simp
  next
    case (Inr v)
    then show ?thesis using r assms(2) [OF r(2), of v] advances_trans by fastforce
  qed
qed

lemma rule_after_next:
  "parse_rule rule \<Longrightarrow> stream_ok ts \<Longrightarrow> \<exists>res ts'. rule (snd (ts_next ts)) = Some (res, ts') \<and> advances (snd (ts_next ts)) ts'"
  using parse_rule.returns ts_next_advances(1) advances_ok by blast

lemma rule_from_here:
  "parse_rule rule \<Longrightarrow> stream_ok ts \<Longrightarrow> \<exists>res ts'. rule (snd (ts_next ts)) = Some (res, ts') \<and> advances ts ts'"
  using rule_after_next ts_next_advances(1) advances_trans by blast

lemma parse_ternary_returns:
  assumes "\<And>m. parse_rule (sub m)" and "stream_ok ts"
  shows "\<exists>res ts'. parse_ternary p sub op c ts = Some (res, ts') \<and> advances (snd (ts_next ts)) ts'"
  unfolding parse_ternary_def
proof (rule on_value_returns [OF rule_after_next [OF assms]])
  fix v ts1
  assume "advances (snd (ts_next ts)) ts1"
  then have ok: "stream_ok ts1" by (rule advances_ok)
  have "\<exists>res ts'. on_value (sub (unat (te_precedence op)) (snd (ts_next ts1)))
      (\<lambda>else_value ts2. Some (ep_make_ternary p op c v else_value ts2, ts2)) = Some (res, ts') \<and> advances ts1 ts'"
    by (rule on_value_returns [OF rule_from_here [OF assms(1) ok]]) (simp add: advances_ok)
  then show "\<exists>res ts'. (if \<not> has_spelling (ts_peek ts1) (te_colon op) then Some (Inl (error_here ts1 (expected_quoted CHR '':'')), ts1)
      else on_value (sub (unat (te_precedence op)) (snd (ts_next ts1)))
        (\<lambda>else_value ts2. Some (ep_make_ternary p op c v else_value ts2, ts2))) = Some (res, ts') \<and> advances ts1 ts'"
    using ok by simp
qed

lemma find_not_end [simp]:
  "tok_kind t = T_end \<Longrightarrow> find_postfix ops t = None" "tok_kind t = T_end \<Longrightarrow> find_binary ops' t = None"
  "tok_kind t = T_end \<Longrightarrow> \<not> has_spelling t s"
  by (auto simp: find_postfix_def find_binary_def is_operator_token_def has_spelling_def)

lemma at_not_end [simp]: "tok_kind t = T_end \<Longrightarrow> postfix_at g m t = None" "tok_kind t = T_end \<Longrightarrow> ternary_at g m t = None"
  by (auto simp: postfix_at_def ternary_at_def split: option.splits)

lemma step_on_value_progress:
  assumes "\<exists>res ts'. r = Some (res, ts') \<and> advances ts ts'" and "\<And>v ts1. advances ts ts1 \<Longrightarrow>
      (\<exists>res. f v ts1 = Some (Inl (res, ts1))) \<or> (\<exists>na w. f v ts1 = Some (Inr (na, w, ts1)))"
  shows "(\<exists>res ts'. step_on_value r f = Some (Inl (res, ts')) \<and> advances ts ts')
     \<or> (\<exists>na v ts'. step_on_value r f = Some (Inr (na, v, ts')) \<and> advances ts ts')"
proof -
  obtain res ts1 where r: "r = Some (res, ts1)" "advances ts ts1" using assms(1) by blast
  show ?thesis
  proof (cases res)
    case (Inr v)
    then show ?thesis using r assms(2) [OF r(2), of v] by auto
  qed (use r in simp)
qed

context expression_callbacks
begin

lemma operand_rule:
  assumes "\<And>m. parse_rule (sub m)"
  shows "parse_rule (parse_operand p sub)"
proof
  fix ts :: "'r token_stream"
  assume ok: "stream_ok ts"
  have paren: "\<exists>res ts'. (case ts_expect_text ts2 T_punctuation '')'' (expected_quoted (CHR '')'')) of
        (Inl e, ts3) \<Rightarrow> Some (Inl e, ts3)
      | (Inr _, ts3) \<Rightarrow> (case ep_make_paren p of Some make_paren \<Rightarrow> make_paren open' inner ts3 | None \<Rightarrow> Some (Inr inner, ts3)))
      = Some (res, ts') \<and> advances ts2 ts'" if ok2: "stream_ok ts2" for ts2 open' inner
  proof -
    obtain res ts3 where e: "ts_expect_text ts2 T_punctuation '')'' (expected_quoted (CHR '')'')) = (res, ts3)" "advances ts2 ts3"
      using parse_rule.returns [OF ts_expect_text_rule [of T_punctuation "'')''" "expected_quoted (CHR '')'')"] ok2] by auto
    show ?thesis
    proof (cases "ep_make_paren p")
      case None
      then show ?thesis using e by (cases res) auto
    next
      case (Some f)
      then show ?thesis using e parse_rule.returns [OF paren_rule [OF Some] advances_ok [OF e(2)]] advances_trans [OF e(2)]
        by (cases res) fastforce+
    qed
  qed
  have prefix': "\<exists>res ts'. on_value (sub m (snd (ts_next ts))) (\<lambda>v ts1. Some (f v ts1, ts1)) = Some (res, ts') \<and> advances ts ts'"
    for m and f :: "'a \<Rightarrow> 'r token_stream \<Rightarrow> parse_error + 'a"
    by (rule on_value_returns [OF rule_from_here [OF assms ok]]) (simp add: advances_ok)
  have open': "\<exists>res ts'. on_value (sub 0 (snd (ts_next ts))) (\<lambda>inner ts2.
      case ts_expect_text ts2 T_punctuation '')'' (expected_quoted (CHR '')'')) of
        (Inl e, ts3) \<Rightarrow> Some (Inl e, ts3)
      | (Inr _, ts3) \<Rightarrow> (case ep_make_paren p of Some make_paren \<Rightarrow> make_paren t inner ts3 | None \<Rightarrow> Some (Inr inner, ts3)))
      = Some (res, ts') \<and> advances ts ts'" for t
    by (rule on_value_returns [OF rule_from_here [OF assms ok]]) (rule paren, erule advances_ok)
  have mixfix': "\<exists>res ts'. make form sub (snd (ts_next ts)) = Some (res, ts') \<and> advances ts ts'" if "ep_make_mixfix p = Some make" for make form
    using rule_from_here [OF mixfix_rule [OF that, where sub = sub] ok] assms by blast
  show "\<exists>res ts'. parse_operand p sub ts = Some (res, ts') \<and> advances ts ts'"
    unfolding parse_operand_def
    using prefix' open' parse_rule.returns [OF primary_rule ok] mixfix'
    by (simp add: Let_def split_beta split: option.splits)
qed

lemma step_progress:
  assumes "\<And>m. parse_rule (sub m)" and ok: "stream_ok ts"
  shows "(\<exists>res ts'. expression_step p sub m na v ts = Some (Inl (res, ts')) \<and> advances ts ts')
     \<or> (\<exists>na' v' ts'. expression_step p sub m na v ts = Some (Inr (na', v', ts')) \<and> advances ts ts' \<and> left ts' < left ts)"
proof (cases "tok_kind (ts_first ts) = T_end")
  case True
  then show ?thesis using ok by (simp add: expression_step_def ts_peek_def)
next
  case False
  let ?n = "snd (ts_next ts)"
  have n: "advances ts ?n" "left ?n < left ts" using ts_next_advances [OF ok] False by simp_all
  have less: "advances ?n ts' \<Longrightarrow> left ts' < left ts" for ts' using advances_left [of ?n ts'] n(2) by simp
  have lift: "(\<exists>res ts'. s = Some (Inl (res, ts')) \<and> advances ts ts')
      \<or> (\<exists>na' v' ts'. s = Some (Inr (na', v', ts')) \<and> advances ts ts' \<and> left ts' < left ts)"
    if "(\<exists>res ts'. s = Some (Inl (res, ts')) \<and> advances ?n ts') \<or> (\<exists>na v ts'. s = Some (Inr (na, v, ts')) \<and> advances ?n ts')"
    for s :: "('r, 'a) loop_step"
    using that advances_trans [OF n(1)] less by blast
  have post: "(\<exists>res ts'. step_on_value (ep_make_postfix p post v ?n) (\<lambda>v ts1. Some (Inr (na, v, ts1))) = Some (Inl (res, ts')) \<and> advances ?n ts')
      \<or> (\<exists>na' v' ts'. step_on_value (ep_make_postfix p post v ?n) (\<lambda>v ts1. Some (Inr (na, v, ts1))) = Some (Inr (na', v', ts')) \<and> advances ?n ts')"
    for post by (rule step_on_value_progress [OF rule_after_next [OF postfix_rule ok]]) simp
  have tern: "(\<exists>res ts'. step_on_value (parse_ternary p sub op v ts) (\<lambda>v ts1. Some (Inr (na, v, ts1))) = Some (Inl (res, ts')) \<and> advances ?n ts')
      \<or> (\<exists>na' v' ts'. step_on_value (parse_ternary p sub op v ts) (\<lambda>v ts1. Some (Inr (na, v, ts1))) = Some (Inr (na', v', ts')) \<and> advances ?n ts')"
    for op by (rule step_on_value_progress [OF parse_ternary_returns [OF assms(1) ok]]) simp
  let ?bin = "\<lambda>op. step_on_value (sub (next_min op) ?n) (\<lambda>right' ts1. case ep_make_binary p op v right' ts1 of
      Inl e \<Rightarrow> Some (Inl (Inl e, ts1))
    | Inr w \<Rightarrow> Some (Inr (if bo_associativity op = A_none then Some (unat (bo_precedence op)) else None, w, ts1)))"
  have bin: "(\<exists>res ts'. ?bin op = Some (Inl (res, ts')) \<and> advances ?n ts') \<or> (\<exists>na' v' ts'. ?bin op = Some (Inr (na', v', ts')) \<and> advances ?n ts')"
    for op by (rule step_on_value_progress [OF rule_after_next [OF assms(1) ok]]) (simp split: sum.splits)
  show ?thesis unfolding expression_step_def
    using lift [OF post] lift [OF tern] lift [OF bin] ok by (simp split: option.splits)
qed

lemma loop_returns:
  "(\<And>m. parse_rule (sub m)) \<Longrightarrow> stream_ok ts \<Longrightarrow> \<exists>res ts'. expression_loop p sub m na v ts = Some (res, ts') \<and> advances ts ts'"
proof (induction "left ts" arbitrary: na v ts rule: less_induct)
  case less
  from step_progress [where sub = sub and m = m and na = na and v = v, OF less.prems(1,2)] show ?case
  proof (elim disjE exE conjE)
    fix res ts'
    assume "expression_step p sub m na v ts = Some (Inl (res, ts'))" "advances ts ts'"
    then show ?thesis by (simp add: expression_loop.simps [of p sub m na v ts])
  next
    fix na' v' ts'
    assume s: "expression_step p sub m na v ts = Some (Inr (na', v', ts'))" "advances ts ts'" "left ts' < left ts"
    from less.hyps [OF s(3) less.prems(1) advances_ok [OF s(2)], of na' v'] s show ?thesis
      using advances_trans [OF s(2)] by (auto simp: expression_loop.simps [of p sub m na v ts])
  qed
qed

lemma expression_rule: "parse_rule (expression_parse p d m)"
proof (induction d arbitrary: m)
  case 0
  show ?case by unfold_locales simp
next
  case (Suc d)
  show ?case
  proof
    fix ts :: "'r token_stream"
    assume ok: "stream_ok ts"
    have "\<exists>res ts'. parse_operand p (expression_parse p d) ts = Some (res, ts') \<and> advances ts ts'"
      by (rule parse_rule.returns [OF operand_rule [OF Suc.IH] ok])
    then show "\<exists>res ts'. expression_parse p (Suc d) m ts = Some (res, ts') \<and> advances ts ts'"
      unfolding expression_parse.simps by (rule on_value_returns) (rule loop_returns [OF Suc.IH], erule advances_ok)
  qed
qed

end

section \<open>Trees\<close>

datatype expr =
    Atom token
  | Paren expr
  | Prefix prefix_op expr
  | Postfix postfix_op expr
  | Binary binary_op expr expr
  | Ternary ternary_op expr expr expr

text \<open>Actions that build a tree; an operand is one token of the given kinds.\<close>

definition tree_primary :: "token_kind list \<Rightarrow> ('r, expr) rule" where
  "tree_primary kinds ts = (case expect_one_of ts kinds ''expected an operand'' of (res, ts') \<Rightarrow> Some (map_sum id Atom res, ts'))"

definition tree_actions :: "token_kind list \<Rightarrow> ('r, expr) expression_actions" where
  "tree_actions kinds =
     \<lparr>ac_primary = tree_primary kinds, ac_make_binary = Some (\<lambda>op l r. Inr (Binary op l r)),
      ac_make_prefix = Some (\<lambda>op v. Inr (Prefix op v)), ac_make_postfix = Some (\<lambda>op v ts. Some (Inr (Postfix op v), ts)),
      ac_make_ternary = Some (\<lambda>op c t e. Inr (Ternary op c t e)), ac_make_mixfix = None,
      ac_make_paren = Some (\<lambda>open' v ts. Some (Inr (Paren v), ts))\<rparr>"

text \<open>A token that goes on with an expression that is parsed at a precedence.\<close>

definition continues :: "expression_grammar \<Rightarrow> nat \<Rightarrow> token \<Rightarrow> bool" where
  "continues g m t \<longleftrightarrow> postfix_at g m t \<noteq> None
     \<or> (case find_binary (g_binary g) t of Some op \<Rightarrow> m \<le> unat (bo_precedence op) | None \<Rightarrow> ternary_at g m t \<noteq> None)"

text \<open>The precedences of the operands that end where the tree ends: a token behind the tree belongs to the innermost of them
  that it continues.\<close>

fun edges :: "expr \<Rightarrow> nat set" where
  "edges (Prefix op e) = insert (unat (pr_precedence op)) (edges e)"
| "edges (Binary op l r) = insert (next_min op) (edges r)"
| "edges (Ternary op c t e) = insert (unat (te_precedence op)) (edges e)"
| "edges _ = {}"

text \<open>The precedence of the non-associative operator that was applied last at the level of the tree.\<close>

fun unchained :: "expr \<Rightarrow> nat option" where
  "unchained (Binary op l r) = (if bo_associativity op = A_none then Some (unat (bo_precedence op)) else None)"
| "unchained (Postfix op e) = unchained e"
| "unchained (Ternary op c t e) = unchained c"
| "unchained _ = None"

text \<open>How deeply \<^verbatim>\<open>parse\<close> is nested for the tree.\<close>

fun nesting :: "expr \<Rightarrow> nat" where
  "nesting (Atom t) = 1"
| "nesting (Paren e) = Suc (nesting e)"
| "nesting (Prefix op e) = Suc (nesting e)"
| "nesting (Postfix op e) = nesting e"
| "nesting (Binary op l r) = max (nesting l) (Suc (nesting r))"
| "nesting (Ternary op c t e) = max (nesting c) (Suc (max (nesting t) (nesting e)))"

definition free_of :: "expression_grammar \<Rightarrow> nat set \<Rightarrow> token \<Rightarrow> bool" where
  "free_of g ks t \<longleftrightarrow> (\<forall>k \<in> ks. \<not> continues g k t)"

text \<open>The token sequences that stand for a tree, at a precedence.\<close>

inductive reads :: "expression_grammar \<Rightarrow> token_kind list \<Rightarrow> nat \<Rightarrow> expr \<Rightarrow> token list \<Rightarrow> bool" for g kinds where
  reads_atom: "find_mixfix (g_mixfix g) t = None \<Longrightarrow> find_prefix (g_prefix g) t = None \<Longrightarrow>
     \<not> (tok_kind t = T_punctuation \<and> tok_text t = ''('') \<Longrightarrow> tok_kind t \<in> set kinds \<Longrightarrow> reads g kinds m (Atom t) [t]"
| reads_paren: "find_mixfix (g_mixfix g) t = None \<Longrightarrow> find_prefix (g_prefix g) t = None \<Longrightarrow>
     tok_kind t = T_punctuation \<Longrightarrow> tok_text t = ''('' \<Longrightarrow> reads g kinds 0 e ts \<Longrightarrow> free_of g (insert 0 (edges e)) q \<Longrightarrow>
     tok_kind q = T_punctuation \<Longrightarrow> tok_text q = '')'' \<Longrightarrow> reads g kinds m (Paren e) (t # ts @ [q])"
| reads_prefix: "find_mixfix (g_mixfix g) t = None \<Longrightarrow> find_prefix (g_prefix g) t = Some op \<Longrightarrow>
     reads g kinds (unat (pr_precedence op)) e ts \<Longrightarrow> reads g kinds m (Prefix op e) (t # ts)"
| reads_postfix: "reads g kinds m e ts \<Longrightarrow> free_of g (edges e) t \<Longrightarrow> postfix_at g m t = Some op \<Longrightarrow>
     reads g kinds m (Postfix op e) (ts @ [t])"
| reads_binary: "reads g kinds m l ts1 \<Longrightarrow> free_of g (edges l) t \<Longrightarrow> postfix_at g m t = None \<Longrightarrow>
     find_binary (g_binary g) t = Some op \<Longrightarrow> m \<le> unat (bo_precedence op) \<Longrightarrow> unchained l \<noteq> Some (unat (bo_precedence op)) \<Longrightarrow>
     reads g kinds (next_min op) r ts2 \<Longrightarrow> reads g kinds m (Binary op l r) (ts1 @ t # ts2)"
| reads_ternary: "reads g kinds m c ts1 \<Longrightarrow> free_of g (edges c) t \<Longrightarrow> postfix_at g m t = None \<Longrightarrow>
     find_binary (g_binary g) t = None \<Longrightarrow> ternary_at g m t = Some op \<Longrightarrow> reads g kinds 0 e1 ts2 \<Longrightarrow>
     free_of g (insert 0 (edges e1)) q \<Longrightarrow> has_spelling q (te_colon op) \<Longrightarrow> reads g kinds (unat (te_precedence op)) e2 ts3 \<Longrightarrow>
     reads g kinds m (Ternary op c e1 e2) (ts1 @ t # ts2 @ q # ts3)"

lemma continues_mono: "continues g m t \<Longrightarrow> k \<le> m \<Longrightarrow> continues g k t"
  by (auto simp: continues_def postfix_at_def ternary_at_def split: option.splits if_splits)

lemma continues_not_end [simp]: "tok_kind t = T_end \<Longrightarrow> \<not> continues g m t"
  by (simp add: continues_def)

lemma free_of_end [simp]: "tok_kind t = T_end \<Longrightarrow> free_of g ks t"
  by (simp add: free_of_def)

text \<open>The token behind a stream's remaining tokens is the first of them or an end token.\<close>

lemma first_of_upcoming:
  "stream_ok ts \<Longrightarrow> upcoming ts = t # rest \<Longrightarrow> ts_first ts = t \<and> tok_kind t \<noteq> T_end"
  "stream_ok ts \<Longrightarrow> tok_kind (ts_first ts) \<noteq> T_end \<Longrightarrow> upcoming ts = ts_first ts # tl (upcoming ts)"
  using stream_ok_upcoming [of ts] by (auto simp: neq_Nil_conv)

lemma next_upcoming:
  assumes "stream_ok ts"
  shows "stream_ok (snd (ts_next ts))" and "upcoming (snd (ts_next ts)) = tl (upcoming ts)" and "fst (ts_next ts) = ts_first ts"
proof -
  obtain t ts' where nx: "ts_next ts = (t, ts')" by fastforce
  show "stream_ok (snd (ts_next ts))" "upcoming (snd (ts_next ts)) = tl (upcoming ts)" "fst (ts_next ts) = ts_first ts"
    using ts_next_ok [OF assms nx] nx by simp_all
qed

text \<open>The tree parser, and its pieces.\<close>

abbreviation tree_parser :: "expression_grammar \<Rightarrow> token_kind list \<Rightarrow> ('r, expr) expression_parser" where
  "tree_parser g kinds \<equiv> actions_parser g (tree_actions kinds)"

lemma tree_parser_simps [simp]:
  "ep_grammar (tree_parser g kinds) = g" "ep_primary (tree_parser g kinds) = tree_primary kinds"
  "ep_make_binary (tree_parser g kinds) op l r ts = Inr (Binary op l r)"
  "ep_make_prefix (tree_parser g kinds) pop v ts = Inr (Prefix pop v)"
  "ep_make_postfix (tree_parser g kinds) qop v ts = Some (Inr (Postfix qop v), ts)"
  "ep_make_ternary (tree_parser g kinds) cop c t e ts = Inr (Ternary cop c t e)"
  "ep_make_mixfix (tree_parser g kinds) = Some (mixfix_forwarder (tree_actions kinds))"
  "ep_make_paren (tree_parser g kinds) = Some (\<lambda>open' v ts. Some (Inr (Paren v), ts))"
  by (simp_all add: actions_parser_def tree_actions_def paren_forwarder_def fun_eq_iff)

lemma tree_primary_rule: "parse_rule (tree_primary kinds)"
proof
  fix ts :: "'a token_stream"
  assume "stream_ok ts"
  from parse_rule.returns [OF expect_one_of_rule [of kinds "''expected an operand''"] this]
  show "\<exists>res ts'. tree_primary kinds ts = Some (res, ts') \<and> advances ts ts'" by (auto simp: tree_primary_def split: prod.splits)
qed

lemma tree_mixfix [simp]:
  "mixfix_forwarder (tree_actions kinds) op sub ts = Some (Inl (error_here ts ''no make_mixfix callback''), ts)"
  by (simp add: mixfix_forwarder_def tree_actions_def)

interpretation tree: expression_callbacks "tree_parser g kinds" for g kinds
  by unfold_locales (auto intro: parse_rule.returns [OF tree_primary_rule])

section \<open>Soundness\<close>

text \<open>The tokens between two states of a stream stand for a tree, which the next token does not continue from inside.\<close>

definition parsed :: "expression_grammar \<Rightarrow> token_kind list \<Rightarrow> nat \<Rightarrow> nat \<Rightarrow> expr \<Rightarrow> 'r token_stream \<Rightarrow> 'r token_stream \<Rightarrow> bool" where
  "parsed g kinds d m e ts ts' \<longleftrightarrow> stream_ok ts' \<and> nesting e \<le> d \<and> free_of g (edges e) (ts_first ts')
     \<and> (\<exists>toks. upcoming ts = toks @ upcoming ts' \<and> reads g kinds m e toks)"

definition sound :: "expression_grammar \<Rightarrow> token_kind list \<Rightarrow> nat \<Rightarrow> (nat \<Rightarrow> ('r, expr) rule) \<Rightarrow> bool" where
  "sound g kinds d sub \<longleftrightarrow> (\<forall>m ts e ts'. stream_ok ts \<longrightarrow> sub m ts = Some (Inr e, ts') \<longrightarrow>
     parsed g kinds d m e ts ts' \<and> \<not> continues g m (ts_first ts'))"

lemma soundD:
  assumes "sound g kinds d sub" and "stream_ok ts" and "sub m ts = Some (Inr e, ts')"
  obtains toks where "stream_ok ts'" "nesting e \<le> d" "free_of g (insert m (edges e)) (ts_first ts')"
    "upcoming ts = toks @ upcoming ts'" "reads g kinds m e toks"
proof -
  have "parsed g kinds d m e ts ts' \<and> \<not> continues g m (ts_first ts')" using assms unfolding sound_def by blast
  then show ?thesis using that by (auto simp: parsed_def free_of_def)
qed

lemma on_value_Inr:
  "on_value r f = Some (Inr w, ts') \<longleftrightarrow> (\<exists>v ts1. r = Some (Inr v, ts1) \<and> f v ts1 = Some (Inr w, ts'))"
  by (auto simp: on_value_def split: option.splits sum.splits prod.splits)

lemma step_on_value_cases:
  "step_on_value r f = Some x \<longleftrightarrow> (\<exists>e ts1. r = Some (Inl e, ts1) \<and> x = Inl (Inl e, ts1)) \<or> (\<exists>v ts1. r = Some (Inr v, ts1) \<and> f v ts1 = Some x)"
  by (auto simp: step_on_value_def split: option.splits sum.splits prod.splits)

lemma upcoming_step:
  assumes "stream_ok ts" and "tok_kind (ts_first ts) \<noteq> T_end" and "upcoming (snd (ts_next ts)) = toks @ rest"
  shows "upcoming ts = ts_first ts # toks @ rest"
  using first_of_upcoming(2) [OF assms(1,2)] next_upcoming(2) [OF assms(1)] assms(3) by simp

lemma operand_sound:
  assumes sub: "sound g kinds d sub" and kinds: "T_end \<notin> set kinds" and ok: "stream_ok ts"
    and res: "parse_operand (tree_parser g kinds) sub ts = Some (Inr e, ts')"
  shows "parsed g kinds (Suc d) m e ts ts'" and "unchained e = None"
proof -
  note nx = next_upcoming [OF ok]
  have "parsed g kinds (Suc d) m e ts ts' \<and> unchained e = None"
  proof (cases "find_mixfix (g_mixfix g) (ts_first ts)")
    case (Some form)
    then show ?thesis using res by (simp add: parse_operand_def ts_peek_def)
  next
    case mix: None
    show ?thesis
    proof (cases "find_prefix (g_prefix g) (ts_first ts)")
      case (Some op)
      then have t: "tok_kind (ts_first ts) \<noteq> T_end" by (auto simp: find_prefix_def is_operator_token_def split: if_splits)
      from mix Some res obtain v where v: "sub (unat (pr_precedence op)) (snd (ts_next ts)) = Some (Inr v, ts')" "e = Prefix op v"
        by (auto simp: parse_operand_def ts_peek_def on_value_Inr)
      obtain toks where s: "stream_ok ts'" "nesting v \<le> d" "free_of g (insert (unat (pr_precedence op)) (edges v)) (ts_first ts')"
        "upcoming (snd (ts_next ts)) = toks @ upcoming ts'" "reads g kinds (unat (pr_precedence op)) v toks"
        using soundD [OF sub nx(1) v(1)] by blast
      show ?thesis using upcoming_step [OF ok t s(4)] s v(2) reads_prefix [OF mix Some s(5)] by (auto simp: parsed_def)
    next
      case None
      show ?thesis
      proof (cases "tok_kind (ts_first ts) = T_punctuation \<and> tok_text (ts_first ts) = ''(''")
        case True
        then have t: "tok_kind (ts_first ts) \<noteq> T_end" by auto
        let ?close = "\<lambda>s. ts_expect_text s T_punctuation '')'' (expected_quoted (CHR '')''))"
        from mix None True res obtain v ts1 where v: "sub 0 (snd (ts_next ts)) = Some (Inr v, ts1)" and
          close: "(case ?close ts1 of (Inl e, ts3) \<Rightarrow> Some (Inl e, ts3) | (Inr _, ts3) \<Rightarrow> Some (Inr (Paren v), ts3)) = Some (Inr e, ts')"
          by (auto simp: parse_operand_def ts_peek_def on_value_Inr ts_check_text_def Let_def split_beta cong: sum.case_cong)
        obtain toks where s: "stream_ok ts1" "nesting v \<le> d" "free_of g (insert 0 (edges v)) (ts_first ts1)"
          "upcoming (snd (ts_next ts)) = toks @ upcoming ts1" "reads g kinds 0 v toks"
          using soundD [OF sub nx(1) v] by blast
        have q: "tok_kind (ts_first ts1) = T_punctuation" "tok_text (ts_first ts1) = '')''" "ts' = snd (ts_next ts1)" "e = Paren v"
          using close by (auto simp: ts_expect_text_def ts_check_text_def split: if_splits prod.splits)
        note nx1 = next_upcoming [OF s(1)]
        have "upcoming ts1 = ts_first ts1 # upcoming ts'" using first_of_upcoming(2) [OF s(1)] q nx1(2) by simp
        then have "upcoming ts = (ts_first ts # toks @ [ts_first ts1]) @ upcoming ts'" using upcoming_step [OF ok t s(4)] by simp
        moreover have "reads g kinds m (Paren v) (ts_first ts # toks @ [ts_first ts1])"
          using reads_paren [OF mix None _ _ s(5,3) q(1,2)] True by simp
        ultimately show ?thesis using s(2) nx1(1) q(3,4) unfolding parsed_def by (auto simp: free_of_def)
      next
        case False
        with mix None res have p: "tree_primary kinds ts = Some (Inr e, ts')"
          by (simp add: parse_operand_def ts_peek_def ts_check_text_def)
        then have k: "tok_kind (ts_first ts) \<in> set kinds" and e: "e = Atom (ts_first ts)" "ts' = snd (ts_next ts)"
          using nx(3) by (auto simp: tree_primary_def expect_one_of_def list_ex_iff ts_check_def map_sum_def split: prod.splits if_splits sum.splits)
        have t: "tok_kind (ts_first ts) \<noteq> T_end" using k kinds by auto
        have "upcoming ts = [ts_first ts] @ upcoming ts'" using first_of_upcoming(2) [OF ok t] nx(2) e(2) by simp
        then show ?thesis using reads_atom [OF mix None False k] e nx(1) unfolding parsed_def by (auto simp: free_of_def)
      qed
    qed
  qed
  then show "parsed g kinds (Suc d) m e ts ts'" "unchained e = None" by simp_all
qed

lemma parsed_extend:
  assumes "upcoming ts0 = toks @ upcoming ts" and "stream_ok ts" and "tok_kind (ts_first ts) \<noteq> T_end"
    and "upcoming (snd (ts_next ts)) = toks' @ upcoming ts'"
  shows "upcoming ts0 = (toks @ ts_first ts # toks') @ upcoming ts'"
  using assms(1) upcoming_step [OF assms(2-4)] by simp

lemma step_sound:
  assumes sub: "sound g kinds d sub" and inv: "parsed g kinds (Suc d) m v ts0 ts"
  shows "expression_step (tree_parser g kinds) sub m (unchained v) v ts = Some (Inr (na', v', ts')) \<Longrightarrow>
      parsed g kinds (Suc d) m v' ts0 ts' \<and> na' = unchained v'"
    and "expression_step (tree_parser g kinds) sub m (unchained v) v ts = Some (Inl (Inr e, ts')) \<Longrightarrow>
      e = v \<and> ts' = ts \<and> \<not> continues g m (ts_first ts)"
proof -
  obtain toks where ok: "stream_ok ts" and d: "nesting v \<le> Suc d" and free: "free_of g (edges v) (ts_first ts)"
    and toks: "upcoming ts0 = toks @ upcoming ts" "reads g kinds m v toks" using inv by (auto simp: parsed_def)
  note nx = next_upcoming [OF ok]
  have t: "tok_kind (ts_first ts) \<noteq> T_end" if "continues g m (ts_first ts)" using that by auto
  note ext = parsed_extend [OF toks(1) ok t]
  show "parsed g kinds (Suc d) m v' ts0 ts' \<and> na' = unchained v'"
    if step: "expression_step (tree_parser g kinds) sub m (unchained v) v ts = Some (Inr (na', v', ts'))"
  proof (cases "postfix_at g m (ts_first ts)")
    case (Some post)
    then have "na' = unchained v" "v' = Postfix post v" "ts' = snd (ts_next ts)"
      using step by (auto simp: expression_step_def ts_peek_def)
    then show ?thesis using reads_postfix [OF toks(2) free Some] ext [of "[]" ts'] Some d nx(1)
      by (auto simp: parsed_def free_of_def continues_def)
  next
    case post: None
    show ?thesis
    proof (cases "find_binary (g_binary g) (ts_first ts)")
      case (Some op)
      with post step have prec: "m \<le> unat (bo_precedence op)" "unchained v \<noteq> Some (unat (bo_precedence op))"
        by (auto simp: expression_step_def ts_peek_def split: if_splits)
      obtain r where r: "sub (next_min op) (snd (ts_next ts)) = Some (Inr r, ts')" "v' = Binary op v r"
        "na' = unchained v'"
        using step post Some prec by (auto simp: expression_step_def ts_peek_def step_on_value_cases)
      obtain toks' where s: "stream_ok ts'" "nesting r \<le> d" "free_of g (insert (next_min op) (edges r)) (ts_first ts')"
        "upcoming (snd (ts_next ts)) = toks' @ upcoming ts'" "reads g kinds (next_min op) r toks'"
        using soundD [OF sub nx(1) r(1)] by blast
      have "continues g m (ts_first ts)" using Some prec by (simp add: continues_def)
      then show ?thesis using reads_binary [OF toks(2) free post Some prec s(5)] ext [OF _ s(4)] s(1-3) d r
        by (auto simp: parsed_def)
    next
      case bin: None
      then obtain op where op: "ternary_at g m (ts_first ts) = Some op"
        using step post by (cases "ternary_at g m (ts_first ts)") (auto simp: expression_step_def ts_peek_def)
      with step post bin obtain e1 ts1 e2 where
        e1: "sub 0 (snd (ts_next ts)) = Some (Inr e1, ts1)" and q: "has_spelling (ts_first ts1) (te_colon op)" and
        e2: "sub (unat (te_precedence op)) (snd (ts_next ts1)) = Some (Inr e2, ts')" and
        v': "v' = Ternary op v e1 e2" "na' = unchained v"
        by (auto simp: expression_step_def ts_peek_def step_on_value_cases parse_ternary_def on_value_Inr split: if_splits)
      obtain toks1 where s: "stream_ok ts1" "nesting e1 \<le> d" "free_of g (insert 0 (edges e1)) (ts_first ts1)"
        "upcoming (snd (ts_next ts)) = toks1 @ upcoming ts1" "reads g kinds 0 e1 toks1" using soundD [OF sub nx(1) e1] by blast
      note nx1 = next_upcoming [OF s(1)]
      have q': "tok_kind (ts_first ts1) \<noteq> T_end" using q by (auto simp: has_spelling_def)
      obtain toks2 where s2: "stream_ok ts'" "nesting e2 \<le> d" "free_of g (insert (unat (te_precedence op)) (edges e2)) (ts_first ts')"
        "upcoming (snd (ts_next ts1)) = toks2 @ upcoming ts'" "reads g kinds (unat (te_precedence op)) e2 toks2"
        using soundD [OF sub nx1(1) e2] by blast
      have c: "continues g m (ts_first ts)" using op bin by (simp add: continues_def)
      have "upcoming (snd (ts_next ts)) = (toks1 @ ts_first ts1 # toks2) @ upcoming ts'"
        using s(4) upcoming_step [OF s(1) q' s2(4)] by simp
      from ext [OF c this] reads_ternary [OF toks(2) free post bin op s(5,3) q s2(5)]
      have "\<exists>toks'. upcoming ts0 = toks' @ upcoming ts' \<and> reads g kinds m (Ternary op v e1 e2) toks'" by blast
      then show ?thesis using s(2) s2(1-3) d v' by (simp add: parsed_def)
    qed
  qed
  show "e = v \<and> ts' = ts \<and> \<not> continues g m (ts_first ts)"
    if "expression_step (tree_parser g kinds) sub m (unchained v) v ts = Some (Inl (Inr e, ts'))"
    using that by (auto simp: expression_step_def ts_peek_def step_on_value_cases continues_def split: option.splits if_splits)
qed

lemma loop_sound:
  assumes sub: "sound g kinds d sub" and rules: "\<And>m. parse_rule (sub m)"
  shows "parsed g kinds (Suc d) m v ts0 ts \<Longrightarrow> expression_loop (tree_parser g kinds) sub m (unchained v) v ts = Some (Inr e, ts') \<Longrightarrow>
     parsed g kinds (Suc d) m e ts0 ts' \<and> \<not> continues g m (ts_first ts')"
proof (induction "left ts" arbitrary: v ts rule: less_induct)
  case less
  have ok: "stream_ok ts" using less.prems(1) by (simp add: parsed_def)
  note st = step_sound [OF sub less.prems(1)]
  from tree.step_progress [where sub = sub and m = m and na = "unchained v" and v = v, OF rules ok, of g kinds] show ?case
  proof (elim disjE exE conjE)
    fix res s
    assume s: "expression_step (tree_parser g kinds) sub m (unchained v) v ts = Some (Inl (res, s))"
    then have "res = Inr e \<and> s = ts'" using less.prems(2) by (simp add: expression_loop.simps [of _ sub m _ v ts])
    then show ?thesis using st(2) s less.prems(1) by auto
  next
    fix na' v' s
    assume s: "expression_step (tree_parser g kinds) sub m (unchained v) v ts = Some (Inr (na', v', s))" "left s < left ts"
    have "expression_loop (tree_parser g kinds) sub m (unchained v') v' s = Some (Inr e, ts')"
      using s(1) st(1) [OF s(1)] less.prems(2) by (simp add: expression_loop.simps [of _ sub m _ v ts])
    then show ?thesis using less.hyps [OF s(2)] st(1) [OF s(1)] by blast
  qed
qed

lemma expression_parse_sound:
  assumes "T_end \<notin> set kinds"
  shows "sound g kinds d (expression_parse (tree_parser g kinds) d :: nat \<Rightarrow> ('r, expr) rule)"
proof (induction d)
  case 0
  show ?case by (simp add: sound_def)
next
  case (Suc d)
  let ?sub = "expression_parse (tree_parser g kinds) d :: nat \<Rightarrow> ('r, expr) rule"
  show ?case unfolding sound_def
  proof (intro allI impI)
    fix m e and ts ts' :: "'r token_stream"
    assume ok: "stream_ok ts" and "expression_parse (tree_parser g kinds) (Suc d) m ts = Some (Inr e, ts')"
    then obtain v ts1 where v: "parse_operand (tree_parser g kinds) ?sub ts = Some (Inr v, ts1)"
      "expression_loop (tree_parser g kinds) ?sub m None v ts1 = Some (Inr e, ts')" by (auto simp: on_value_Inr)
    note o = operand_sound [OF Suc.IH assms ok v(1)]
    show "parsed g kinds (Suc d) m e ts ts' \<and> \<not> continues g m (ts_first ts')"
      using loop_sound [OF Suc.IH tree.expression_rule o(1) [of m]] v(2) o(2) by simp
  qed
qed

section \<open>Completeness\<close>

definition stops :: "expression_grammar \<Rightarrow> nat set \<Rightarrow> token list \<Rightarrow> bool" where
  "stops g ks rest \<longleftrightarrow> rest = [] \<or> free_of g ks (hd rest)"

lemma stops_first: "stream_ok ts \<Longrightarrow> upcoming ts = rest \<Longrightarrow> stops g ks rest \<longleftrightarrow> free_of g ks (ts_first ts)"
  using stream_ok_upcoming [of ts] by (auto simp: stops_def)

lemma loop_stop:
  assumes "free_of g {m} (ts_first ts)"
  shows "expression_loop (tree_parser g kinds) sub m na v ts = Some (Inr v, ts)"
proof -
  have "expression_step (tree_parser g kinds) sub m na v ts = Some (Inl (Inr v, ts))"
    using assms by (auto simp: free_of_def continues_def expression_step_def ts_peek_def split: option.splits)
  then show ?thesis by (simp add: expression_loop.simps [of _ sub m na v ts])
qed

text \<open>The operator loop is reached with the tree as its value.\<close>

definition reaches :: "expression_grammar \<Rightarrow> token_kind list \<Rightarrow> nat \<Rightarrow> nat \<Rightarrow> expr \<Rightarrow> 'r token_stream \<Rightarrow> token list \<Rightarrow> bool" where
  "reaches g kinds d m e ts rest \<longleftrightarrow> (\<exists>ts'. stream_ok ts' \<and> upcoming ts' = rest \<and>
     expression_parse (tree_parser g kinds) (Suc d) m ts
       = expression_loop (tree_parser g kinds) (expression_parse (tree_parser g kinds) d) m (unchained e) e ts')"

lemma nesting_pos: "0 < nesting e"
  by (induction e) auto

lemma reaches_stop:
  assumes "\<And>d. nesting e \<le> Suc d \<Longrightarrow> reaches g kinds d m e ts rest" and "nesting e \<le> d" and "stops g {m} rest"
  obtains ts' where "stream_ok ts'" "upcoming ts' = rest" "expression_parse (tree_parser g kinds) d m ts = Some (Inr e, ts')"
proof -
  obtain k where k: "d = Suc k" using assms(2) nesting_pos [of e] by (cases d) auto
  from assms(1) [of k] assms(2) k obtain ts' where t: "stream_ok ts'" "upcoming ts' = rest"
    "expression_parse (tree_parser g kinds) d m ts
       = expression_loop (tree_parser g kinds) (expression_parse (tree_parser g kinds) k) m (unchained e) e ts'"
    by (auto simp: reaches_def)
  have "free_of g {m} (ts_first ts')" using stops_first [OF t(1,2)] assms(3) by blast
  from loop_stop [OF this] t(3) have "expression_parse (tree_parser g kinds) d m ts = Some (Inr e, ts')" by simp
  then show ?thesis by (rule that [OF t(1,2)])
qed

lemma take_first:
  assumes "stream_ok ts" and "upcoming ts = t # rest"
  shows "ts_first ts = t" and "fst (ts_next ts) = t" and "stream_ok (snd (ts_next ts))" and "upcoming (snd (ts_next ts)) = rest"
  using first_of_upcoming(1) [OF assms] next_upcoming [OF assms(1)] assms(2) by auto

lemma operand_reaches:
  assumes "parse_operand (tree_parser g kinds) (expression_parse (tree_parser g kinds) d) ts = Some (Inr e, ts')"
    and "unchained e = None" and "stream_ok ts'" and "upcoming ts' = rest"
  shows "reaches g kinds d m e ts rest"
  unfolding reaches_def using assms by (intro exI [of _ ts']) simp

lemma step_reaches:
  fixes ts :: "'r token_stream"
  assumes "reaches g kinds d m l ts (t # rest)"
    and "\<And>s :: 'r token_stream. stream_ok s \<Longrightarrow> ts_first s = t \<Longrightarrow> stream_ok (snd (ts_next s)) \<Longrightarrow> upcoming (snd (ts_next s)) = rest \<Longrightarrow>
      \<exists>s'. stream_ok s' \<and> upcoming s' = rest' \<and>
        expression_step (tree_parser g kinds) (expression_parse (tree_parser g kinds) d) m (unchained l) l s = Some (Inr (unchained e, e, s'))"
  shows "reaches g kinds d m e ts rest'"
proof -
  let ?sub = "expression_parse (tree_parser g kinds) d :: nat \<Rightarrow> ('r, expr) rule"
  obtain s where s: "stream_ok s" "upcoming s = t # rest"
    "expression_parse (tree_parser g kinds) (Suc d) m ts = expression_loop (tree_parser g kinds) ?sub m (unchained l) l s"
    using assms(1) by (auto simp: reaches_def)
  note f = take_first [OF s(1,2)]
  obtain s' where s': "stream_ok s'" "upcoming s' = rest'"
    "expression_step (tree_parser g kinds) ?sub m (unchained l) l s = Some (Inr (unchained e, e, s'))"
    using assms(2) [OF s(1) f(1,3,4)] by blast
  have "expression_loop (tree_parser g kinds) ?sub m (unchained l) l s = expression_loop (tree_parser g kinds) ?sub m (unchained e) e s'"
    using s'(3) by (simp add: expression_loop.simps [of _ ?sub m _ l s])
  then show ?thesis unfolding reaches_def using s s' by auto
qed

lemma reads_reaches:
  "reads g kinds m e toks \<Longrightarrow> stream_ok ts \<Longrightarrow> upcoming ts = toks @ rest \<Longrightarrow> stops g (edges e) rest \<Longrightarrow> nesting e \<le> Suc d \<Longrightarrow>
   reaches g kinds d m e ts rest"
proof (induction arbitrary: ts rest d rule: reads.induct)
  case (reads_atom t m)
  note f = take_first [OF reads_atom.prems(1) reads_atom.prems(2) [simplified]]
  have "tree_primary kinds ts = Some (Inr (Atom t), snd (ts_next ts))"
    using reads_atom.hyps(4) f(1,2) by (auto simp: tree_primary_def expect_one_of_def list_ex_iff ts_check_def split_beta)
  then show ?case using reads_atom.hyps f
    by (intro operand_reaches) (auto simp: parse_operand_def ts_peek_def ts_check_text_def)
next
  case (reads_paren t e toks q m)
  have up: "upcoming ts = t # toks @ q # rest" using reads_paren.prems(2) by simp
  note f = take_first [OF reads_paren.prems(1) up]
  have d: "nesting e \<le> d" and st: "stops g (edges e) (q # rest)" "stops g {0} (q # rest)"
    using reads_paren.prems(4) reads_paren.hyps(6) by (auto simp: stops_def free_of_def)
  obtain ts1 where s: "stream_ok ts1" "upcoming ts1 = q # rest"
    "expression_parse (tree_parser g kinds) d 0 (snd (ts_next ts)) = Some (Inr e, ts1)"
    using reaches_stop [OF reads_paren.IH [OF f(3,4) st(1)] d st(2)] by blast
  note f1 = take_first [OF s(1,2)]
  have "ts_expect_text ts1 T_punctuation '')'' (expected_quoted (CHR '')'')) = (Inr q, snd (ts_next ts1))"
    using f1(1,2) reads_paren.hyps(7,8) by (simp add: ts_expect_text_def ts_check_text_def split_beta)
  then have "parse_operand (tree_parser g kinds) (expression_parse (tree_parser g kinds) d) ts = Some (Inr (Paren e), snd (ts_next ts1))"
    using reads_paren.hyps(1-4) f(1) s(3) by (simp add: parse_operand_def ts_peek_def ts_check_text_def Let_def split_beta)
  then show ?case using f1(3,4) by (intro operand_reaches) simp_all
next
  case (reads_prefix t op e toks m)
  have up: "upcoming ts = t # toks @ rest" using reads_prefix.prems(2) by simp
  note f = take_first [OF reads_prefix.prems(1) up]
  have d: "nesting e \<le> d" and st: "stops g (edges e) rest" "stops g {unat (pr_precedence op)} rest"
    using reads_prefix.prems(3,4) by (auto simp: stops_def free_of_def)
  obtain ts1 where s: "stream_ok ts1" "upcoming ts1 = rest"
    "expression_parse (tree_parser g kinds) d (unat (pr_precedence op)) (snd (ts_next ts)) = Some (Inr e, ts1)"
    using reaches_stop [OF reads_prefix.IH [OF f(3,4) st(1)] d st(2)] by blast
  show ?case using s f(1) reads_prefix.hyps(1,2) by (intro operand_reaches [of _ _ _ _ _ ts1]) (simp_all add: parse_operand_def ts_peek_def)
next
  case (reads_postfix m e toks t op)
  have "reaches g kinds d m e ts (t # rest)"
    using reads_postfix by (intro reads_postfix.IH) (simp_all add: stops_def)
  then show ?case
    by (rule step_reaches) (use reads_postfix.hyps(3) in \<open>auto simp: expression_step_def ts_peek_def\<close>)
next
  case (reads_binary m l toks1 t op r toks2)
  have "reaches g kinds d m l ts (t # toks2 @ rest)"
    using reads_binary.prems reads_binary.hyps(2) by (intro reads_binary.IH(1)) (simp_all add: stops_def)
  then show ?case
  proof (rule step_reaches)
    fix s :: "'a token_stream"
    assume s: "ts_first s = t" "stream_ok (snd (ts_next s))" "upcoming (snd (ts_next s)) = toks2 @ rest"
    have d: "nesting r \<le> d" and st: "stops g (edges r) rest" "stops g {next_min op} rest"
      using reads_binary.prems(3,4) by (auto simp: stops_def free_of_def)
    obtain s' where s': "stream_ok s'" "upcoming s' = rest"
      "expression_parse (tree_parser g kinds) d (next_min op) (snd (ts_next s)) = Some (Inr r, s')"
      using reaches_stop [OF reads_binary.IH(2) [OF s(2,3) st(1)] d st(2)] by blast
    then show "\<exists>s'. stream_ok s' \<and> upcoming s' = rest \<and> expression_step (tree_parser g kinds)
        (expression_parse (tree_parser g kinds) d) m (unchained l) l s = Some (Inr (unchained (Binary op l r), Binary op l r, s'))"
      using reads_binary.hyps(3-6) s(1) by (auto simp: expression_step_def ts_peek_def)
  qed
next
  case (reads_ternary m c toks1 t op e1 toks2 q e2 toks3)
  have "reaches g kinds d m c ts (t # toks2 @ q # toks3 @ rest)"
    using reads_ternary.prems reads_ternary.hyps(2) by (intro reads_ternary.IH(1)) (simp_all add: stops_def)
  then show ?case
  proof (rule step_reaches)
    fix s :: "'a token_stream"
    assume s: "ts_first s = t" "stream_ok (snd (ts_next s))" "upcoming (snd (ts_next s)) = toks2 @ q # toks3 @ rest"
    have d: "nesting e1 \<le> d" "nesting e2 \<le> d" and st: "stops g (edges e1) (q # toks3 @ rest)" "stops g {0} (q # toks3 @ rest)"
      "stops g (edges e2) rest" "stops g {unat (te_precedence op)} rest"
      using reads_ternary.prems(3,4) reads_ternary.hyps(7) by (auto simp: stops_def free_of_def)
    obtain s1 where s1: "stream_ok s1" "upcoming s1 = q # toks3 @ rest"
      "expression_parse (tree_parser g kinds) d 0 (snd (ts_next s)) = Some (Inr e1, s1)"
      using reaches_stop [OF reads_ternary.IH(2) [OF s(2,3) st(1)] d(1) st(2)] by blast
    note f1 = take_first [OF s1(1,2)]
    obtain s2 where s2: "stream_ok s2" "upcoming s2 = rest"
      "expression_parse (tree_parser g kinds) d (unat (te_precedence op)) (snd (ts_next s1)) = Some (Inr e2, s2)"
      using reaches_stop [OF reads_ternary.IH(3) [OF f1(3,4) st(3)] d(2) st(4)] by blast
    then show "\<exists>s'. stream_ok s' \<and> upcoming s' = rest \<and> expression_step (tree_parser g kinds)
        (expression_parse (tree_parser g kinds) d) m (unchained c) c s = Some (Inr (unchained (Ternary op c e1 e2), Ternary op c e1 e2, s'))"
      using reads_ternary.hyps(3-5,8) s(1) s1(3) f1(1) by (auto simp: expression_step_def parse_ternary_def ts_peek_def)
  qed
qed

section \<open>Precedence and associativity\<close>

text \<open>Where operators meet without parentheses: the right operand of a binary operator binds tighter, or equally if the
  operator is right associative; the left operand, if it ends in an open operand, binds tighter, or equally if it is
  left associative.\<close>

fun well_bound :: "expr \<Rightarrow> bool" where
  "well_bound (Atom t) \<longleftrightarrow> True"
| "well_bound (Paren e) \<longleftrightarrow> well_bound e"
| "well_bound (Prefix op e) \<longleftrightarrow> well_bound e \<and>
     (case e of Binary op2 l r \<Rightarrow> pr_precedence op \<le> bo_precedence op2 | Ternary op2 c t f \<Rightarrow> pr_precedence op \<le> te_precedence op2
      | Postfix op2 f \<Rightarrow> pr_precedence op \<le> po_precedence op2 | _ \<Rightarrow> True)"
| "well_bound (Postfix op e) \<longleftrightarrow> well_bound e \<and>
     (case e of Prefix op2 f \<Rightarrow> po_precedence op < pr_precedence op2 | Ternary op2 c t f \<Rightarrow> po_precedence op < te_precedence op2
      | Binary op2 l r \<Rightarrow> po_precedence op < bo_precedence op2 \<or> (po_precedence op = bo_precedence op2 \<and> bo_associativity op2 \<noteq> A_right)
      | _ \<Rightarrow> True)"
| "well_bound (Binary op l r) \<longleftrightarrow> well_bound l \<and> well_bound r \<and>
     (case l of
        Binary op2 a b \<Rightarrow> bo_precedence op < bo_precedence op2 \<or> (bo_precedence op = bo_precedence op2 \<and> bo_associativity op2 = A_left)
      | Prefix op2 a \<Rightarrow> bo_precedence op < pr_precedence op2
      | Ternary op2 a b c \<Rightarrow> bo_precedence op < te_precedence op2 | _ \<Rightarrow> True) \<and>
     (case r of
        Binary op2 a b \<Rightarrow> bo_precedence op < bo_precedence op2 \<or> (bo_precedence op = bo_precedence op2 \<and> bo_associativity op = A_right)
      | Postfix op2 a \<Rightarrow> bo_precedence op \<le> po_precedence op2
      | Ternary op2 a b c \<Rightarrow> bo_precedence op \<le> te_precedence op2 | _ \<Rightarrow> True)"
| "well_bound (Ternary op c t e) \<longleftrightarrow> well_bound c \<and> well_bound t \<and> well_bound e \<and>
     (case c of Ternary op2 a b d \<Rightarrow> te_precedence op < te_precedence op2 | Prefix op2 a \<Rightarrow> te_precedence op < pr_precedence op2
      | Binary op2 a b \<Rightarrow> te_precedence op < bo_precedence op2 \<or> (te_precedence op = bo_precedence op2 \<and> bo_associativity op2 \<noteq> A_right)
      | _ \<Rightarrow> True)"

lemma postfix_at_precedence: "postfix_at g m t = Some op \<Longrightarrow> m \<le> unat (po_precedence op) \<and> (\<forall>k \<le> unat (po_precedence op). continues g k t)"
  by (auto simp: postfix_at_def continues_def split: option.splits if_splits)

lemma ternary_at_precedence:
  "ternary_at g m t = Some op \<Longrightarrow> find_binary (g_binary g) t = None \<Longrightarrow> m \<le> unat (te_precedence op) \<and> (\<forall>k \<le> unat (te_precedence op). continues g k t)"
  by (auto simp: ternary_at_def continues_def split: option.splits if_splits)

lemma binary_precedence: "find_binary (g_binary g) t = Some op \<Longrightarrow> k \<le> unat (bo_precedence op) \<Longrightarrow> continues g k t"
  by (simp add: continues_def)

lemma edge_greater: "free_of g ks t \<Longrightarrow> (\<And>k. k \<le> n \<Longrightarrow> continues g k t) \<Longrightarrow> k \<in> ks \<Longrightarrow> n < k"
  unfolding free_of_def by (meson not_le)

text \<open>The operator at the top of a tree read at a precedence has at least that precedence.\<close>

lemma reads_top:
  "reads g kinds m e toks \<Longrightarrow> case e of Binary op l r \<Rightarrow> m \<le> unat (bo_precedence op) | Postfix op l \<Rightarrow> m \<le> unat (po_precedence op)
     | Ternary op c t f \<Rightarrow> m \<le> unat (te_precedence op) | _ \<Rightarrow> True"
  by (cases rule: reads.cases) (auto dest: postfix_at_precedence ternary_at_precedence)

lemma reads_well_bound: "reads g kinds m e toks \<Longrightarrow> well_bound e"
proof (induction rule: reads.induct)
  case (reads_prefix t op e ts m)
  then show ?case using reads_top [OF reads_prefix.hyps(3)] by (cases e) (simp_all add: word_le_nat_alt)
next
  case (reads_postfix m e ts t op)
  have "\<forall>k \<in> edges e. unat (po_precedence op) < k"
    using edge_greater [OF reads_postfix.hyps(2)] postfix_at_precedence [OF reads_postfix.hyps(3)] by blast
  then show ?case using reads_postfix.IH
    by (cases e) (auto simp: word_less_nat_alt word_unat_eq_iff next_min_def less_Suc_eq split: if_splits)
next
  case (reads_binary m l ts1 t op r ts2)
  have "\<forall>k \<in> edges l. unat (bo_precedence op) < k"
    using edge_greater [OF reads_binary.hyps(2)] binary_precedence [OF reads_binary.hyps(4)] by blast
  then have "case l of
        Binary op2 a b \<Rightarrow> bo_precedence op < bo_precedence op2 \<or> (bo_precedence op = bo_precedence op2 \<and> bo_associativity op2 = A_left)
      | Prefix op2 a \<Rightarrow> bo_precedence op < pr_precedence op2
      | Ternary op2 a b c \<Rightarrow> bo_precedence op < te_precedence op2 | _ \<Rightarrow> True"
    using reads_binary.hyps(6)
    by (cases l) (auto simp: word_less_nat_alt word_unat_eq_iff next_min_def less_Suc_eq intro: assoc.exhaust split: if_splits)
  moreover have "case r of
        Binary op2 a b \<Rightarrow> bo_precedence op < bo_precedence op2 \<or> (bo_precedence op = bo_precedence op2 \<and> bo_associativity op = A_right)
      | Postfix op2 a \<Rightarrow> bo_precedence op \<le> po_precedence op2
      | Ternary op2 a b c \<Rightarrow> bo_precedence op \<le> te_precedence op2 | _ \<Rightarrow> True"
    using reads_top [OF reads_binary.hyps(7)]
    by (cases r) (auto simp: word_less_nat_alt word_le_nat_alt word_unat_eq_iff next_min_def split: if_splits)
  ultimately show ?case using reads_binary.IH by simp
next
  case (reads_ternary m c ts1 t op e1 ts2 q e2 ts3)
  have "\<forall>k \<in> edges c. unat (te_precedence op) < k"
    using edge_greater [OF reads_ternary.hyps(2)] ternary_at_precedence [OF reads_ternary.hyps(5,4)] by blast
  then show ?case using reads_ternary.IH
    by (cases c) (auto simp: word_less_nat_alt word_unat_eq_iff next_min_def less_Suc_eq split: if_splits)
qed auto

text \<open>An example: \<open>1 - 2 * 3\<close> with the usual precedences.\<close>

definition minus_times :: expression_grammar where
  "minus_times =
     \<lparr>g_binary = [\<lparr>bo_text = ''-'', bo_precedence = 10, bo_associativity = A_left\<rparr>,
                  \<lparr>bo_text = ''*'', bo_precedence = 20, bo_associativity = A_left\<rparr>],
      g_prefix = [], g_postfix = [], g_mixfix = [], g_ternary = None\<rparr>"

definition minus_times_text :: "unit token_stream" where
  "minus_times_text = token_stream_init ''1-2*3'' (default_rules\<lparr>operators := [''-'', ''*'']\<rparr>)"

definition minus_times_tree :: "token list \<Rightarrow> expr" where
  "minus_times_tree ts = Binary \<lparr>bo_text = ''-'', bo_precedence = 10, bo_associativity = A_left\<rparr> (Atom (ts ! 0))
     (Binary \<lparr>bo_text = ''*'', bo_precedence = 20, bo_associativity = A_left\<rparr> (Atom (ts ! 2)) (Atom (ts ! 4)))"

lemma minus_times_reads:
  shows "stream_ok minus_times_text" and "reads minus_times [T_integer] 0 (minus_times_tree (upcoming minus_times_text)) (upcoming minus_times_text)"
    and "map tok_text (upcoming minus_times_text) = [''1'', ''-'', ''2'', ''*'', ''3'']"
proof -
  let ?r = "default_rules\<lparr>operators := [''-'', ''*'']\<rparr>" and ?g = minus_times
  show "stream_ok minus_times_text"
    unfolding minus_times_text_def by (rule token_stream_init_ok(1)) (simp add: rules_ok_def default_rules_def)
  have up: "upcoming minus_times_text = tokens_at ?r ''1-2*3'' init_position" by (simp add: minus_times_text_def token_stream_init_ok(2))
  have "map tok_text (tokens_at ?r ''1-2*3'' init_position) = [''1'', ''-'', ''2'', ''*'', ''3'']" by code_simp
  then show txts: "map tok_text (upcoming minus_times_text) = [''1'', ''-'', ''2'', ''*'', ''3'']" by (simp add: up)
  have "map tok_kind (tokens_at ?r ''1-2*3'' init_position) = [T_integer, T_op, T_integer, T_op, T_integer]" by code_simp
  with txts up obtain a m b t c where toks: "upcoming minus_times_text = [a] @ m # ([b] @ t # [c])"
    and kind: "tok_kind a = T_integer" "tok_kind m = T_op" "tok_kind b = T_integer" "tok_kind t = T_op" "tok_kind c = T_integer"
    and txt': "tok_text m = ''-''" "tok_text t = ''*''" by (auto simp: map_eq_Cons_conv)
  have atom: "reads ?g [T_integer] k (Atom x) [x]" if "tok_kind x = T_integer" for k x
    using that by (intro reads_atom) (auto simp: minus_times_def find_prefix_def find_mixfix_def is_operator_token_def)
  have "reads ?g [T_integer] 0 (Binary \<lparr>bo_text = ''-'', bo_precedence = 10, bo_associativity = A_left\<rparr> (Atom a)
      (Binary \<lparr>bo_text = ''*'', bo_precedence = 20, bo_associativity = A_left\<rparr> (Atom b) (Atom c))) ([a] @ m # ([b] @ t # [c]))"
    using kind txt' by (intro reads_binary atom) (simp_all add: free_of_def postfix_at_def find_postfix_def find_binary_def
        is_operator_token_def minus_times_def next_min_def)
  then show "reads ?g [T_integer] 0 (minus_times_tree (upcoming minus_times_text)) (upcoming minus_times_text)"
    by (simp add: toks minus_times_tree_def)
qed

lemma minus_times_parses:
  "\<exists>ts'. parse_expression_actions minus_times (tree_actions [T_integer]) 8 minus_times_text
     = Some (Inr (minus_times_tree (upcoming minus_times_text)), ts')"
proof -
  have "reaches minus_times [T_integer] d 0 (minus_times_tree (upcoming minus_times_text)) minus_times_text []"
    if "nesting (minus_times_tree (upcoming minus_times_text)) \<le> Suc d" for d
    by (rule reads_reaches [OF minus_times_reads(2,1)]) (use that in \<open>simp_all add: stops_def\<close>)
  then show ?thesis
    by (rule reaches_stop [where d = 8]) (auto simp: minus_times_tree_def stops_def parse_expression_actions_def)
qed

section \<open>Properties\<close>

text \<open>C11: Expression parsing returns on every stream over a text, also a malformed one, for every grammar and depth limit, if the
  callbacks return and do not go back, also where a mixfix callback re-enters the parser; the stream does not go back.
  (A stream over a reader has no end that the parser could rely on: an endless reader is an endless expression.)\<close>

theorem parse_expression_returns:
  assumes "parse_rule (ac_primary actions)" and "stream_ok ts"
    and "\<And>f op v. ac_make_postfix actions = Some f \<Longrightarrow> parse_rule (f op v)"
    and "\<And>f t v. ac_make_paren actions = Some f \<Longrightarrow> parse_rule (f t v)"
    and "\<And>f op sub. ac_make_mixfix actions = Some f \<Longrightarrow> (\<And>m. parse_rule (sub m)) \<Longrightarrow> parse_rule (f op sub)"
  shows "\<exists>res ts'. parse_expression_actions grammar actions max_depth ts = Some (res, ts') \<and> advances ts ts'"
proof -
  have mix: "parse_rule (mixfix_forwarder actions form sub)" if "\<And>m. parse_rule (sub m)" for form sub
  proof (cases "ac_make_mixfix actions")
    case (Some f)
    then have "mixfix_forwarder actions form sub = f form sub" by (simp add: mixfix_forwarder_def fun_eq_iff)
    then show ?thesis using assms(5) [OF Some that] by simp
  qed (unfold_locales, simp add: mixfix_forwarder_def)
  have paren: "parse_rule (paren_forwarder actions t v)" for t v
  proof (cases "ac_make_paren actions")
    case (Some f)
    then have "paren_forwarder actions t v = f t v" by (simp add: paren_forwarder_def fun_eq_iff)
    then show ?thesis using assms(4) [OF Some] by simp
  qed (unfold_locales, simp add: paren_forwarder_def)
  have "parse_rule (ep_make_postfix (actions_parser grammar actions) op v)" for op v
  proof (cases "ac_make_postfix actions")
    case (Some f)
    then have "ep_make_postfix (actions_parser grammar actions) op v = f op v" by (simp add: actions_parser_def fun_eq_iff)
    then show ?thesis using assms(3) [OF Some] by simp
  qed (unfold_locales, simp add: actions_parser_def)
  then have "expression_callbacks (actions_parser grammar actions)"
    using assms(1) mix paren by (intro expression_callbacks.intro) (auto simp: actions_parser_def)
  from parse_rule.returns [OF expression_callbacks.expression_rule [OF this] assms(2)] show ?thesis
    by (simp add: parse_expression_actions_def)
qed

theorem parse_expression_returns_witness:
  "\<exists>res ts'. parse_expression_actions \<lparr>g_binary = [], g_prefix = [], g_postfix = [], g_mixfix = [], g_ternary = None\<rparr>
       (tree_actions [T_integer]) 8 (token_stream_init ''(1'' default_rules :: unit token_stream) = Some (res, ts')
     \<and> advances (token_stream_init ''(1'' default_rules) ts'"
proof -
  have ok: "stream_ok (token_stream_init ''(1'' default_rules :: unit token_stream)"
    by (rule token_stream_init_ok(1)) (simp add: rules_ok_def default_rules_def)
  have rule: "parse_rule (\<lambda>ts. Some (Inr (f v), ts))" for f :: "expr \<Rightarrow> expr" and v by unfold_locales simp
  show ?thesis
    by (rule parse_expression_returns)
      (use ok tree_primary_rule [of "[T_integer]"] rule in \<open>auto simp: tree_actions_def\<close>)
qed



text \<open>C12: Precedence and associativity hold in every tree the parser builds: wherever an operator is an operand of another one
  without parentheses, it binds tighter, or equally on the side that its associativity allows, and non-associative
  operators of one precedence are never chained.\<close>

theorem parse_expression_precedence:
  assumes "stream_ok ts" and "T_end \<notin> set kinds"
    and "parse_expression_actions g (tree_actions kinds) max_depth ts = Some (Inr e, ts')"
  shows "well_bound e \<and> nesting e \<le> max_depth"
proof -
  have "expression_parse (tree_parser g kinds) max_depth 0 ts = Some (Inr e, ts')"
    using assms(3) by (simp add: parse_expression_actions_def)
  then obtain toks where "nesting e \<le> max_depth" "reads g kinds 0 e toks"
    using soundD [OF expression_parse_sound [OF assms(2)] assms(1)] by metis
  then show ?thesis using reads_well_bound by blast
qed

theorem parse_expression_precedence_witness:
  "well_bound (minus_times_tree (upcoming minus_times_text)) \<and> nesting (minus_times_tree (upcoming minus_times_text)) \<le> 8"
proof -
  obtain ts' where "parse_expression_actions minus_times (tree_actions [T_integer]) 8 minus_times_text
     = Some (Inr (minus_times_tree (upcoming minus_times_text)), ts')" using minus_times_parses by blast
  from parse_expression_precedence [OF minus_times_reads(1) _ this] show ?thesis by simp
qed

end
