(* ===== verification/Operator_Table.thy ===== *)
theory Operator_Table
  imports Expression_Parser
begin

text \<open>
  \<^verbatim>\<open>parsing/operator_table.hpp\<close>: operators declared at run time, with ordered levels in place of precedence numbers, and
  the views for the expression parser and the lexer that every declaration rebuilds. The vectors are of another
  library: whether an append succeeds, and whether it moves the text arena, is a parameter of each call
  (\<open>table_memory\<close>). The block of memory that the views borrow from is a number, so that views of a block that was
  left behind are visible in the model.
\<close>

section \<open>State\<close>

datatype op_category = C_binary | C_prefix | C_postfix | C_mixfix

record span_ref =
  sr_offset :: u32
  sr_length :: u32

record op_entry =
  en_text :: span_ref
  en_category :: op_category
  en_level :: u16
  en_associativity :: assoc

record level_info =
  li_numeric :: bool
  li_number :: u8

record ternary_slot =
  tl_enabled :: bool
  tl_question :: span_ref
  tl_colon :: span_ref
  tl_precedence :: u8

record operator_table =
  ot_max_operators :: nat
  ot_entries :: "op_entry list"
  ot_arena :: string
  ot_arena_block :: nat
  ot_levels :: "level_info list"
  ot_order :: "u16 list"
  ot_punctuation :: string
  ot_ternary :: ternary_slot
  ot_grammar :: expression_grammar
  ot_spellings :: "string list"
  ot_keywords :: "string list"
  ot_view_block :: nat
  ot_generation :: u32

text \<open>What the vectors do in one call: the appends of texts and of the other records, whether a text append moves the
  arena, the appends of a rebuild, and those of the rebuild and the append after a rollback.\<close>

record table_memory =
  tm_store :: "nat \<Rightarrow> bool"
  tm_moves :: "nat \<Rightarrow> bool"
  tm_insert :: "nat \<Rightarrow> bool"
  tm_rebuild :: "nat \<Rightarrow> bool"
  tm_restore :: "nat \<Rightarrow> bool"

definition kInvalid :: u16 where
  "kInvalid = 0xFFFF"

definition level_valid :: "u16 \<Rightarrow> bool" where
  "level_valid l \<longleftrightarrow> l \<noteq> kInvalid"

definition kMaxLevels :: nat where
  "kMaxLevels = 62"

definition kBase :: nat where
  "kBase = 8"

definition kStep :: nat where
  "kStep = 4"

definition no_ternary_slot :: ternary_slot where
  "no_ternary_slot =
     \<lparr>tl_enabled = False, tl_question = \<lparr>sr_offset = 0, sr_length = 0\<rparr>, tl_colon = \<lparr>sr_offset = 0, sr_length = 0\<rparr>, tl_precedence = 5\<rparr>"

definition empty_grammar :: expression_grammar where
  "empty_grammar = \<lparr>g_binary = [], g_prefix = [], g_postfix = [], g_mixfix = [], g_ternary = None\<rparr>"

definition operator_table_init :: "nat \<Rightarrow> operator_table" where
  "operator_table_init max_operators =
     \<lparr>ot_max_operators = max_operators, ot_entries = [], ot_arena = [], ot_arena_block = 0, ot_levels = [], ot_order = [],
      ot_punctuation = ''(){}[],;'', ot_ternary = no_ternary_slot, ot_grammar = empty_grammar, ot_spellings = [],
      ot_keywords = [], ot_view_block = 0, ot_generation = 0\<rparr>"

section \<open>Spellings\<close>

definition valid_spelling :: "string \<Rightarrow> bool" where
  "valid_spelling txt' \<longleftrightarrow> txt' \<noteq> [] \<and> list_all (\<lambda>ch. \<not> (code ch \<le> 0x20 \<or> code ch = 0x7F)) txt'"

fun is_word_from :: "nat \<Rightarrow> string \<Rightarrow> bool" where
  "is_word_from i [] = True"
| "is_word_from i (ch # cs) =
     (let letter = (97 \<le> code ch \<and> code ch \<le> 122) \<or> (65 \<le> code ch \<and> code ch \<le> 90) \<or> ch = CHR ''_'';
          digit = 48 \<le> code ch \<and> code ch \<le> 57
      in if \<not> letter \<and> \<not> (digit \<and> i > 0) then False else is_word_from (i + 1) cs)"

definition is_word :: "string \<Rightarrow> bool" where
  "is_word txt' = is_word_from 0 txt'"

definition text_at :: "string \<Rightarrow> span_ref \<Rightarrow> string" where
  "text_at arena r = take (unat (sr_length r)) (drop (unat (sr_offset r)) arena)"

definition spelling_of :: "operator_table \<Rightarrow> op_entry \<Rightarrow> string" where
  "spelling_of t e = text_at (ot_arena t) (en_text e)"

definition position_of :: "u16 list \<Rightarrow> u16 \<Rightarrow> nat option" where
  "position_of order l = find (\<lambda>i. order ! i = l) [0..<length order]"

definition is_punctuation :: "operator_table \<Rightarrow> char \<Rightarrow> bool" where
  "is_punctuation t ch \<longleftrightarrow> list_ex (\<lambda>c. c = ch) (ot_punctuation t)"

definition has_word :: "string \<Rightarrow> string list \<Rightarrow> bool" where
  "has_word txt' ws \<longleftrightarrow> list_ex (\<lambda>w. w = txt') ws"

section \<open>rebuild\<close>

record table_views =
  vw_grammar :: expression_grammar
  vw_spellings :: "string list"
  vw_keywords :: "string list"

text \<open>The rank of an unknown level is \<^verbatim>\<open>size_t(-1)\<close>, which the arithmetic maps to 4.\<close>

definition rank_precedence :: "nat option \<Rightarrow> u8" where
  "rank_precedence rank = (case rank of Some r \<Rightarrow> of_nat (kBase + r * kStep) | None \<Rightarrow> of_nat (kBase + (2 ^ 64 - 1) * kStep))"

definition push_operator :: "operator_table \<Rightarrow> op_entry \<Rightarrow> expression_grammar \<Rightarrow> expression_grammar" where
  "push_operator t e g =
     (let txt' = spelling_of t e; precedence = rank_precedence (position_of (ot_order t) (en_level e))
      in case en_category e of
           C_binary \<Rightarrow> g\<lparr>g_binary := g_binary g @ [\<lparr>bo_text = txt', bo_precedence = precedence, bo_associativity = en_associativity e\<rparr>]\<rparr>
         | C_prefix \<Rightarrow> g\<lparr>g_prefix := g_prefix g @ [\<lparr>pr_text = txt', pr_precedence = precedence\<rparr>]\<rparr>
         | C_postfix \<Rightarrow> g\<lparr>g_postfix := g_postfix g @ [\<lparr>po_text = txt', po_precedence = precedence\<rparr>]\<rparr>
         | C_mixfix \<Rightarrow> g\<lparr>g_mixfix := g_mixfix g @ [\<lparr>mi_text = txt', mi_precedence = precedence\<rparr>]\<rparr>)"

definition insert_keyword :: "string \<Rightarrow> string list \<Rightarrow> string list" where
  "insert_keyword txt' ws = takeWhile (\<lambda>w. w < txt') ws @ txt' # dropWhile (\<lambda>w. w < txt') ws"

text \<open>The lexer list that a spelling has to be added to, if any.\<close>

definition add_spelling :: "operator_table \<Rightarrow> string \<Rightarrow> table_views \<Rightarrow> table_views option" where
  "add_spelling t txt' v =
     (if is_word txt'
      then if \<not> has_word txt' (vw_keywords v) then Some (v\<lparr>vw_keywords := insert_keyword txt' (vw_keywords v)\<rparr>) else None
      else if \<not> (length txt' = 1 \<and> is_punctuation t (hd txt')) \<and> \<not> has_word txt' (vw_spellings v)
           then Some (v\<lparr>vw_spellings := vw_spellings v @ [txt']\<rparr>) else None)"

fun rebuild_loop :: "(nat \<Rightarrow> bool) \<Rightarrow> nat \<Rightarrow> operator_table \<Rightarrow> op_entry list \<Rightarrow> table_views \<Rightarrow> bool \<times> table_views" where
  "rebuild_loop mem i t [] v = (True, v)"
| "rebuild_loop mem i t (e # es) v =
     (if \<not> mem (2 * i) then (False, v)
      else let v1 = v\<lparr>vw_grammar := push_operator t e (vw_grammar v)\<rparr>
           in case add_spelling t (spelling_of t e) v1 of
                None \<Rightarrow> rebuild_loop mem (i + 1) t es v1
              | Some v2 \<Rightarrow> if \<not> mem (2 * i + 1) then (False, v1) else rebuild_loop mem (i + 1) t es v2)"

definition ternary_view :: "operator_table \<Rightarrow> ternary_op option" where
  "ternary_view t =
     (let s = ot_ternary t
      in if tl_enabled s
         then Some \<lparr>te_question = text_at (ot_arena t) (tl_question s), te_colon = text_at (ot_arena t) (tl_colon s),
                    te_precedence = tl_precedence s\<rparr>
         else None)"

definition rebuild :: "(nat \<Rightarrow> bool) \<Rightarrow> bool \<Rightarrow> operator_table \<Rightarrow> bool \<times> operator_table" where
  "rebuild mem count_generation t =
     (let (ok, v) = rebuild_loop mem 0 t (ot_entries t) \<lparr>vw_grammar = empty_grammar, vw_spellings = [], vw_keywords = []\<rparr>
      in (ok, t\<lparr>ot_grammar := (vw_grammar v)\<lparr>g_ternary := ternary_view t\<rparr>, ot_spellings := vw_spellings v,
                ot_keywords := vw_keywords v, ot_view_block := ot_arena_block t,
                ot_generation := (if ok \<and> count_generation then ot_generation t + 1 else ot_generation t)\<rparr>))"

section \<open>Levels\<close>

definition insert_at :: "nat \<Rightarrow> 'a \<Rightarrow> 'a list \<Rightarrow> 'a list" where
  "insert_at i x xs = take i xs @ x # drop i xs"

definition erase_at :: "nat \<Rightarrow> 'a list \<Rightarrow> 'a list" where
  "erase_at i xs = take i xs @ drop (i + 1) xs"

definition table_full :: string where
  "table_full = ''operator table full''"

definition insert_level :: "table_memory \<Rightarrow> nat \<Rightarrow> bool \<Rightarrow> u8 \<Rightarrow> operator_table \<Rightarrow> (string + u16) \<times> operator_table" where
  "insert_level mem at' numeric number t =
     (if length (ot_order t) \<ge> kMaxLevels \<or> length (ot_levels t) \<ge> kMaxLevels then (Inl table_full, t)
      else let id' = of_nat (length (ot_levels t)) :: u16
           in if \<not> tm_insert mem 0 then (Inl table_full, t)
              else if \<not> tm_insert mem 1 then (Inl table_full, t)
              else let t1 = t\<lparr>ot_levels := ot_levels t @ [\<lparr>li_numeric = numeric, li_number = number\<rparr>],
                              ot_order := insert_at at' id' (ot_order t)\<rparr>;
                       (ok, t2) = rebuild (tm_rebuild mem) True t1
                   in if \<not> ok
                      then (Inl table_full,
                            snd (rebuild (tm_restore mem) False
                              (t2\<lparr>ot_order := erase_at at' (ot_order t2), ot_levels := butlast (ot_levels t2)\<rparr>)))
                      else (Inr id', t2))"

definition add_level :: "table_memory \<Rightarrow> operator_table \<Rightarrow> (string + u16) \<times> operator_table" where
  "add_level mem t = insert_level mem (length (ot_order t)) False 0 t"

definition add_level_above :: "table_memory \<Rightarrow> u16 \<Rightarrow> operator_table \<Rightarrow> (string + u16) \<times> operator_table" where
  "add_level_above mem reference t =
     (case position_of (ot_order t) reference of
        None \<Rightarrow> (Inl ''bad precedence'', t)
      | Some i \<Rightarrow> insert_level mem (i + 1) False 0 t)"

definition add_level_below :: "table_memory \<Rightarrow> u16 \<Rightarrow> operator_table \<Rightarrow> (string + u16) \<times> operator_table" where
  "add_level_below mem reference t =
     (case position_of (ot_order t) reference of
        None \<Rightarrow> (Inl ''bad precedence'', t)
      | Some i \<Rightarrow> insert_level mem i False 0 t)"

definition precedence_of :: "operator_table \<Rightarrow> u16 \<Rightarrow> nat" where
  "precedence_of t l = (case position_of (ot_order t) l of None \<Rightarrow> 0 | Some i \<Rightarrow> kBase + i * kStep)"

definition level_of :: "operator_table \<Rightarrow> string \<Rightarrow> u16" where
  "level_of t txt' =
     (case find (\<lambda>(c, e). en_category e = c \<and> spelling_of t e = txt')
             (concat (map (\<lambda>c. map (Pair c) (ot_entries t)) [C_binary, C_prefix, C_postfix, C_mixfix])) of
        Some (c, e) \<Rightarrow> en_level e
      | None \<Rightarrow> kInvalid)"

fun level_for_number_loop :: "level_info list \<Rightarrow> u8 \<Rightarrow> nat \<Rightarrow> u16 list \<Rightarrow> nat option \<Rightarrow> nat option \<Rightarrow> u16 + nat option \<times> nat option" where
  "level_for_number_loop levels number i [] after_smaller before_greater = Inr (after_smaller, before_greater)"
| "level_for_number_loop levels number i (l # order) after_smaller before_greater =
     (let info = levels ! unat l
      in if \<not> li_numeric info then level_for_number_loop levels number (i + 1) order after_smaller before_greater
         else if li_number info = number then Inl l
         else if li_number info < number then level_for_number_loop levels number (i + 1) order (Some i) before_greater
         else level_for_number_loop levels number (i + 1) order after_smaller
                (if before_greater = None then Some i else before_greater))"

definition level_for_number :: "table_memory \<Rightarrow> u8 \<Rightarrow> operator_table \<Rightarrow> (string + u16) \<times> operator_table" where
  "level_for_number mem number t =
     (case level_for_number_loop (ot_levels t) number 0 (ot_order t) None None of
        Inl l \<Rightarrow> (Inr l, t)
      | Inr (after_smaller, before_greater) \<Rightarrow>
          let at' = (case after_smaller of
                       Some i \<Rightarrow> i + 1
                     | None \<Rightarrow> (case before_greater of Some i \<Rightarrow> i | None \<Rightarrow> length (ot_order t)))
          in insert_level mem at' True number t)"

section \<open>Declarations\<close>

text \<open>\<^verbatim>\<open>store\<close>: the j-th text append of the call.\<close>

definition store :: "table_memory \<Rightarrow> nat \<Rightarrow> string \<Rightarrow> operator_table \<Rightarrow> span_ref option \<times> operator_table" where
  "store mem j txt' t =
     (if \<not> tm_store mem j then (None, t)
      else (Some \<lparr>sr_offset = of_nat (length (ot_arena t)), sr_length = of_nat (length txt')\<rparr>,
            t\<lparr>ot_arena := ot_arena t @ txt',
              ot_arena_block := (if tm_moves mem j then ot_arena_block t + 1 else ot_arena_block t)\<rparr>))"

definition precheck :: "op_category \<Rightarrow> string \<Rightarrow> operator_table \<Rightarrow> string option" where
  "precheck kind txt' t =
     (if \<not> valid_spelling txt' then Some ''empty operator''
      else if list_ex (\<lambda>e. en_category e = kind \<and> spelling_of t e = txt') (ot_entries t) then Some ''duplicate operator''
      else None)"

definition truncate_arena :: "nat \<Rightarrow> operator_table \<Rightarrow> operator_table" where
  "truncate_arena mark t = t\<lparr>ot_arena := take mark (ot_arena t)\<rparr>"

definition declare_operator :: "table_memory \<Rightarrow> op_category \<Rightarrow> string \<Rightarrow> u16 \<Rightarrow> assoc \<Rightarrow> operator_table \<Rightarrow> (string + unit) \<times> operator_table" where
  "declare_operator mem kind txt' at' associativity t =
     (case precheck kind txt' t of
        Some message \<Rightarrow> (Inl message, t)
      | None \<Rightarrow>
          if position_of (ot_order t) at' = None then (Inl ''bad precedence'', t)
          else if length (ot_entries t) \<ge> ot_max_operators t then (Inl table_full, t)
          else let mark = length (ot_arena t); (stored, t1) = store mem 0 txt' t
               in (case stored of
                    None \<Rightarrow> (Inl table_full, truncate_arena mark t1)
                  | Some r \<Rightarrow>
                      if \<not> tm_insert mem 2 then (Inl table_full, truncate_arena mark t1)
                      else let t2 = t1\<lparr>ot_entries := ot_entries t1 @
                                 [\<lparr>en_text = r, en_category = kind, en_level = at', en_associativity = associativity\<rparr>]\<rparr>;
                               (ok, t3) = rebuild (tm_rebuild mem) True t2
                           in if \<not> ok
                              then (Inl table_full,
                                    snd (rebuild (tm_restore mem) False (truncate_arena mark (t3\<lparr>ot_entries := butlast (ot_entries t3)\<rparr>))))
                              else (Inr (), t3)))"

text \<open>The level may be made by one rebuild and the declaration by another: the memory of each is a parameter.\<close>

definition declare_numeric ::
    "table_memory \<Rightarrow> table_memory \<Rightarrow> op_category \<Rightarrow> string \<Rightarrow> u8 \<Rightarrow> assoc \<Rightarrow> operator_table \<Rightarrow> (string + unit) \<times> operator_table" where
  "declare_numeric mem mem' kind txt' number associativity t =
     (case precheck kind txt' t of
        Some message \<Rightarrow> (Inl message, t)
      | None \<Rightarrow>
          (case level_for_number mem number t of
             (Inl message, t1) \<Rightarrow> (Inl message, t1)
           | (Inr l, t1) \<Rightarrow> declare_operator mem' kind txt' l associativity t1))"

definition add_binary :: "table_memory \<Rightarrow> string \<Rightarrow> u16 \<Rightarrow> assoc \<Rightarrow> operator_table \<Rightarrow> (string + unit) \<times> operator_table" where
  "add_binary mem txt' at' associativity = declare_operator mem C_binary txt' at' associativity"

definition add_prefix :: "table_memory \<Rightarrow> string \<Rightarrow> u16 \<Rightarrow> operator_table \<Rightarrow> (string + unit) \<times> operator_table" where
  "add_prefix mem txt' at' = declare_operator mem C_prefix txt' at' A_left"

definition add_postfix :: "table_memory \<Rightarrow> string \<Rightarrow> u16 \<Rightarrow> operator_table \<Rightarrow> (string + unit) \<times> operator_table" where
  "add_postfix mem txt' at' = declare_operator mem C_postfix txt' at' A_left"

definition add_mixfix :: "table_memory \<Rightarrow> string \<Rightarrow> u16 \<Rightarrow> operator_table \<Rightarrow> (string + unit) \<times> operator_table" where
  "add_mixfix mem txt' at' = declare_operator mem C_mixfix txt' at' A_left"

definition set_ternary :: "table_memory \<Rightarrow> ternary_op \<Rightarrow> operator_table \<Rightarrow> (string + unit) \<times> operator_table" where
  "set_ternary mem op t =
     (if \<not> valid_spelling (te_question op) \<or> \<not> valid_spelling (te_colon op) then (Inl ''empty operator'', t)
      else let mark = length (ot_arena t);
               (question, t1) = store mem 0 (te_question op) t;
               (colon, t2) = (if question \<noteq> None then store mem 1 (te_colon op) t1 else (None, t1))
           in case (question, colon) of
                (Some q, Some c) \<Rightarrow>
                  let saved = ot_ternary t2;
                      t3 = t2\<lparr>ot_ternary := \<lparr>tl_enabled = True, tl_question = q, tl_colon = c, tl_precedence = te_precedence op\<rparr>\<rparr>;
                      (ok, t4) = rebuild (tm_rebuild mem) True t3
                  in if \<not> ok
                     then (Inl table_full, snd (rebuild (tm_restore mem) False (truncate_arena mark (t4\<lparr>ot_ternary := saved\<rparr>))))
                     else (Inr (), t4)
              | _ \<Rightarrow> (Inl table_full, truncate_arena mark t2))"

definition set_punctuation :: "table_memory \<Rightarrow> string \<Rightarrow> operator_table \<Rightarrow> (string + unit) \<times> operator_table" where
  "set_punctuation mem bytes t =
     (if \<not> tm_insert mem 0 then (Inl table_full, t)
      else let saved = ot_punctuation t;
               appended = tm_insert mem 1;
               t1 = t\<lparr>ot_punctuation := (if appended then bytes else [])\<rparr>;
               (ok, t2) = (if appended then rebuild (tm_rebuild mem) True t1 else (False, t1))
           in if \<not> ok
              then (Inl table_full,
                    snd (rebuild (tm_restore mem) False (t2\<lparr>ot_punctuation := (if tm_insert mem 3 then saved else [])\<rparr>)))
              else (Inr (), t2))"

definition table_clear :: "(nat \<Rightarrow> bool) \<Rightarrow> operator_table \<Rightarrow> operator_table" where
  "table_clear mem t =
     snd (rebuild mem True (t\<lparr>ot_entries := [], ot_arena := [], ot_levels := [], ot_order := [], ot_ternary := no_ternary_slot\<rparr>))"

definition table_size :: "operator_table \<Rightarrow> nat" where
  "table_size t = length (ot_entries t)"

text \<open>\<^verbatim>\<open>keywords()\<close> asserts that the list is sorted.\<close>

definition table_keywords :: "operator_table \<Rightarrow> sorted_words option" where
  "table_keywords t = from_sorted (ot_keywords t)"

section \<open>Positions and precedences\<close>

lemma position_of_None [simp]: "position_of order l = None \<longleftrightarrow> l \<notin> set order"
  by (auto simp: position_of_def find_None_iff in_set_conv_nth)

lemma position_of_Some:
  "distinct order \<Longrightarrow> position_of order l = Some i \<longleftrightarrow> i < length order \<and> order ! i = l"
  by (auto simp: position_of_def find_Some_iff nth_eq_iff_index_eq)

lemma position_of_bound: "position_of order l = Some i \<Longrightarrow> i < length order"
  by (auto simp: position_of_def find_Some_iff)

lemma position_of_in: "l \<in> set order \<Longrightarrow> \<exists>i < length order. position_of order l = Some i"
proof -
  assume "l \<in> set order"
  then obtain i where i: "position_of order l = Some i" using position_of_None [of order l] by blast
  then have "i < length order" by (auto simp: position_of_def find_Some_iff)
  then show ?thesis using i by blast
qed

lemma set_insert_at [simp]: "set (insert_at i x xs) = insert x (set xs)"
  by (metis insert_at_def Un_insert_right append_take_drop_id list.simps(15) set_append)

lemma length_insert_at [simp]: "length (insert_at i x xs) = Suc (length xs)"
  by (simp add: insert_at_def)

lemma distinct_insert_at [simp]: "distinct (insert_at i x xs) \<longleftrightarrow> distinct xs \<and> x \<notin> set xs"
proof -
  have "distinct (a @ x # b) \<longleftrightarrow> distinct (x # a @ b)" for a b by auto
  then show ?thesis unfolding insert_at_def by (metis append_take_drop_id distinct.simps(2))
qed

lemma nth_insert_at:
  "i \<le> length xs \<Longrightarrow> j \<le> length xs \<Longrightarrow> insert_at i x xs ! j = (if j < i then xs ! j else if j = i then x else xs ! (j - 1))"
  by (auto simp: insert_at_def nth_append nth_Cons' min_def)

lemma erase_insert_at [simp]: "i \<le> length xs \<Longrightarrow> erase_at i (insert_at i x xs) = xs"
  by (simp add: insert_at_def erase_at_def)

lemma position_of_insert:
  assumes "distinct order" and "x \<notin> set order" and "i \<le> length order"
  shows "position_of (insert_at i x order) x = Some i"
    and "position_of order l = Some j \<Longrightarrow> position_of (insert_at i x order) l = Some (if j < i then j else j + 1)"
proof -
  have d: "distinct (insert_at i x order)" using assms by simp
  show "position_of (insert_at i x order) x = Some i" using assms by (simp add: position_of_Some [OF d] nth_insert_at)
  assume "position_of order l = Some j"
  then show "position_of (insert_at i x order) l = Some (if j < i then j else j + 1)"
    using assms by (auto simp: position_of_Some [OF d] position_of_Some nth_insert_at)
qed

text \<open>With at most 62 levels the precedences are below 256 and do not wrap.\<close>

lemma rank_precedence_unat: "r < kMaxLevels \<Longrightarrow> unat (rank_precedence (Some r)) = kBase + r * kStep"
  unfolding rank_precedence_def option.case unat_of_nat by (simp add: kMaxLevels_def kBase_def kStep_def)

section \<open>What the views contain\<close>

definition operator_precedence :: "operator_table \<Rightarrow> op_entry \<Rightarrow> u8" where
  "operator_precedence t e = rank_precedence (position_of (ot_order t) (en_level e))"

definition of_category :: "op_category \<Rightarrow> op_entry list \<Rightarrow> op_entry list" where
  "of_category c es = filter (\<lambda>e. en_category e = c) es"

definition binary_of :: "operator_table \<Rightarrow> op_entry \<Rightarrow> binary_op" where
  "binary_of t e = \<lparr>bo_text = spelling_of t e, bo_precedence = operator_precedence t e, bo_associativity = en_associativity e\<rparr>"

definition prefix_of :: "operator_table \<Rightarrow> op_entry \<Rightarrow> prefix_op" where
  "prefix_of t e = \<lparr>pr_text = spelling_of t e, pr_precedence = operator_precedence t e\<rparr>"

definition postfix_of :: "operator_table \<Rightarrow> op_entry \<Rightarrow> postfix_op" where
  "postfix_of t e = \<lparr>po_text = spelling_of t e, po_precedence = operator_precedence t e\<rparr>"

definition mixfix_of :: "operator_table \<Rightarrow> op_entry \<Rightarrow> mixfix_op" where
  "mixfix_of t e = \<lparr>mi_text = spelling_of t e, mi_precedence = operator_precedence t e\<rparr>"

definition symbol_spelling :: "operator_table \<Rightarrow> string \<Rightarrow> bool" where
  "symbol_spelling t s \<longleftrightarrow> \<not> is_word s \<and> \<not> (length s = 1 \<and> is_punctuation t (hd s))"

definition first_occurrences :: "'a list \<Rightarrow> 'a list" where
  "first_occurrences xs = rev (remdups (rev xs))"

definition grammar_of :: "operator_table \<Rightarrow> op_entry list \<Rightarrow> expression_grammar" where
  "grammar_of t es =
     \<lparr>g_binary = map (binary_of t) (of_category C_binary es), g_prefix = map (prefix_of t) (of_category C_prefix es),
      g_postfix = map (postfix_of t) (of_category C_postfix es), g_mixfix = map (mixfix_of t) (of_category C_mixfix es),
      g_ternary = None\<rparr>"

text \<open>The views of a list of declarations: the operators in order, the words sorted and the other spellings in the order of their
  first declaration, each once.\<close>

definition views_of :: "operator_table \<Rightarrow> op_entry list \<Rightarrow> table_views \<Rightarrow> bool" where
  "views_of t es v \<longleftrightarrow> vw_grammar v = grammar_of t es
     \<and> sorted_wrt (<) (vw_keywords v) \<and> set (vw_keywords v) = {s \<in> spelling_of t ` set es. is_word s}
     \<and> vw_spellings v = first_occurrences (filter (symbol_spelling t) (map (spelling_of t) es))"

definition table_view :: "operator_table \<Rightarrow> table_views" where
  "table_view t = \<lparr>vw_grammar = (ot_grammar t)\<lparr>g_ternary := None\<rparr>, vw_spellings = ot_spellings t, vw_keywords = ot_keywords t\<rparr>"

definition views_ok :: "operator_table \<Rightarrow> bool" where
  "views_ok t \<longleftrightarrow> views_of t (ot_entries t) (table_view t) \<and> g_ternary (ot_grammar t) = ternary_view t"

lemma set_first_occurrences [simp]: "set (first_occurrences xs) = set xs"
  by (simp add: first_occurrences_def)

lemma distinct_first_occurrences [simp]: "distinct (first_occurrences xs)"
  by (simp add: first_occurrences_def)

lemma first_occurrences_snoc:
  "first_occurrences (xs @ [x]) = (if x \<in> set xs then first_occurrences xs else first_occurrences xs @ [x])"
  by (simp add: first_occurrences_def)

lemma insert_keyword_props:
  "set (insert_keyword s ws) = insert s (set ws)"
  "sorted_wrt (<) ws \<Longrightarrow> s \<notin> set ws \<Longrightarrow> sorted_wrt (<) (insert_keyword s ws)"
proof -
  show "set (insert_keyword s ws) = insert s (set ws)"
    unfolding insert_keyword_def by (metis Un_insert_right list.simps(15) set_append takeWhile_dropWhile_id)
  show "sorted_wrt (<) (insert_keyword s ws)" if "sorted_wrt (<) ws" "s \<notin> set ws"
    using that
  proof (induction ws)
    case (Cons w ws)
    show ?case
    proof (cases "w < s")
      case True
      have "set (insert_keyword s ws) = insert s (set ws)"
        unfolding insert_keyword_def by (metis Un_insert_right list.simps(15) set_append takeWhile_dropWhile_id)
      then show ?thesis using Cons True by (auto simp: insert_keyword_def)
    next
      case False
      then have "s < w" using Cons.prems(2) by auto
      then show ?thesis using Cons.prems False by (auto simp: insert_keyword_def intro: less_trans)
    qed
  qed (simp add: insert_keyword_def)
qed

lemma has_word_iff [simp]: "has_word s ws \<longleftrightarrow> s \<in> set ws"
  by (auto simp: has_word_def list_ex_iff)

lemma push_operator_of: "push_operator t e (grammar_of t es) = grammar_of t (es @ [e])"
  by (cases "en_category e") (simp_all add: push_operator_def grammar_of_def of_category_def binary_of_def prefix_of_def
      postfix_of_def mixfix_of_def operator_precedence_def Let_def)

lemma add_spelling_of:
  assumes "views_of t es v" and "v1 = v\<lparr>vw_grammar := grammar_of t (es @ [e])\<rparr>"
  shows "add_spelling t (spelling_of t e) v1 = None \<Longrightarrow> views_of t (es @ [e]) v1"
    and "add_spelling t (spelling_of t e) v1 = Some v2 \<Longrightarrow> views_of t (es @ [e]) v2"
proof -
  let ?s = "spelling_of t e"
  have v: "sorted_wrt (<) (vw_keywords v)" "set (vw_keywords v) = {s \<in> spelling_of t ` set es. is_word s}"
    "vw_spellings v = first_occurrences (filter (symbol_spelling t) (map (spelling_of t) es))"
    using assms(1) by (auto simp: views_of_def)
  show "views_of t (es @ [e]) v1" if "add_spelling t ?s v1 = None"
    using that v by (auto simp: add_spelling_def assms(2) views_of_def symbol_spelling_def first_occurrences_snoc split: if_splits)
  show "views_of t (es @ [e]) v2" if "add_spelling t ?s v1 = Some v2"
    using that v insert_keyword_props(2) [OF v(1)] insert_keyword_props(1) [of ?s "vw_keywords v"]
    by (auto simp: add_spelling_def assms(2) views_of_def symbol_spelling_def first_occurrences_snoc split: if_splits)
qed

lemma rebuild_loop_views:
  "views_of t ds v \<Longrightarrow> rebuild_loop mem i t es v = (True, v') \<Longrightarrow> views_of t (ds @ es) v'"
proof (induction es arbitrary: ds i v)
  case (Cons e es)
  let ?v = "v\<lparr>vw_grammar := push_operator t e (vw_grammar v)\<rparr>"
  have v1: "?v = v\<lparr>vw_grammar := grammar_of t (ds @ [e])\<rparr>" using Cons.prems(1) push_operator_of by (simp add: views_of_def)
  show ?case
  proof (cases "add_spelling t (spelling_of t e) ?v")
    case None
    then have "rebuild_loop mem (i + 1) t es ?v = (True, v')" using Cons.prems(2) by (simp split: if_splits)
    from Cons.IH [OF add_spelling_of(1) [OF Cons.prems(1) v1 None] this] show ?thesis by simp
  next
    case (Some v2)
    then have "rebuild_loop mem (i + 1) t es v2 = (True, v')" using Cons.prems(2) by (simp split: if_splits)
    from Cons.IH [OF add_spelling_of(2) [OF Cons.prems(1) v1 Some] this] show ?thesis by simp
  qed
qed simp

lemma rebuild_loop_all: "(\<And>k. mem k) \<Longrightarrow> fst (rebuild_loop mem i t es v)"
  by (induction es arbitrary: i v) (simp_all add: Let_def split: option.splits)

text \<open>The declarations of a table, without the views made of them.\<close>

definition same_declarations :: "operator_table \<Rightarrow> operator_table \<Rightarrow> bool" where
  "same_declarations t t' \<longleftrightarrow> ot_max_operators t' = ot_max_operators t \<and> ot_entries t' = ot_entries t \<and> ot_arena t' = ot_arena t
     \<and> ot_levels t' = ot_levels t \<and> ot_order t' = ot_order t \<and> ot_punctuation t' = ot_punctuation t \<and> ot_ternary t' = ot_ternary t"

lemma same_declarations_views:
  assumes "same_declarations t t'"
  shows "spelling_of t' = spelling_of t" and "views_of t' = views_of t" and "ternary_view t' = ternary_view t"
    and "operator_precedence t' = operator_precedence t"
proof -
  show s: "spelling_of t' = spelling_of t" and p: "operator_precedence t' = operator_precedence t" and "ternary_view t' = ternary_view t"
    using assms by (simp_all add: same_declarations_def spelling_of_def operator_precedence_def ternary_view_def Let_def fun_eq_iff)
  have "grammar_of t' = grammar_of t" "symbol_spelling t' = symbol_spelling t"
    using assms s p by (simp_all add: same_declarations_def grammar_of_def binary_of_def prefix_of_def postfix_of_def mixfix_of_def
        symbol_spelling_def is_punctuation_def fun_eq_iff)
  then show "views_of t' = views_of t" using s by (intro ext) (simp only: views_of_def)
qed

lemma rebuild_ok:
  assumes "rebuild mem c t = (ok, t')"
  shows "same_declarations t t'" and "ok \<Longrightarrow> views_ok t'" and "ot_view_block t' = ot_arena_block t'"
    and "ot_arena_block t' = ot_arena_block t" and "ot_generation t' = (if ok \<and> c then ot_generation t + 1 else ot_generation t)"
    and "(\<And>k. mem k) \<Longrightarrow> ok"
proof -
  let ?v0 = "\<lparr>vw_grammar = empty_grammar, vw_spellings = [], vw_keywords = []\<rparr>"
  obtain v where v: "rebuild_loop mem 0 t (ot_entries t) ?v0 = (ok, v)" using assms by (auto simp: rebuild_def split: prod.splits)
  have t': "t' = t\<lparr>ot_grammar := (vw_grammar v)\<lparr>g_ternary := ternary_view t\<rparr>, ot_spellings := vw_spellings v,
                ot_keywords := vw_keywords v, ot_view_block := ot_arena_block t,
                ot_generation := (if ok \<and> c then ot_generation t + 1 else ot_generation t)\<rparr>"
    using assms v by (simp add: rebuild_def)
  show same: "same_declarations t t'" and "ot_view_block t' = ot_arena_block t'" and "ot_arena_block t' = ot_arena_block t"
    and "ot_generation t' = (if ok \<and> c then ot_generation t + 1 else ot_generation t)"
    by (simp_all add: t' same_declarations_def)
  show "views_ok t'" if ok
  proof -
    have "views_of t [] ?v0"
      by (simp add: views_of_def empty_grammar_def grammar_of_def of_category_def first_occurrences_def)
    from rebuild_loop_views [OF this, of mem 0 "ot_entries t" v] v that have "views_of t (ot_entries t) v" by simp
    moreover from this have "table_view t' = v" by (cases v) (simp add: t' table_view_def views_of_def grammar_of_def)
    ultimately show ?thesis
      unfolding views_ok_def same_declarations_views(2,3) [OF same] by (simp add: t')
  qed
  show ok if "\<And>k. mem k" using rebuild_loop_all [where mem = mem and i = 0 and t = t and es = "ot_entries t" and v = ?v0, OF that] v by simp
qed

text \<open>Two tables with the same declarations and the views of them have the same views.\<close>

lemma views_unique:
  assumes "views_ok t" and "views_ok t'" and "same_declarations t t'"
  shows "ot_grammar t' = ot_grammar t" and "ot_spellings t' = ot_spellings t" and "ot_keywords t' = ot_keywords t"
proof -
  note s = same_declarations_views [OF assms(3)]
  have v: "views_of t (ot_entries t) (table_view t)" "views_of t (ot_entries t) (table_view t')"
    "g_ternary (ot_grammar t') = g_ternary (ot_grammar t)"
    using assms s by (auto simp: views_ok_def same_declarations_def)
  then show "ot_spellings t' = ot_spellings t" by (simp add: views_of_def table_view_def)
  have "(ot_grammar t')\<lparr>g_ternary := None\<rparr> = (ot_grammar t)\<lparr>g_ternary := None\<rparr>" using v by (simp add: views_of_def table_view_def)
  then show "ot_grammar t' = ot_grammar t" using v(3) by (cases "ot_grammar t"; cases "ot_grammar t'") simp
  show "ot_keywords t' = ot_keywords t"
    using v by (intro sorted_distinct_set_unique) (auto simp: views_of_def table_view_def strict_sorted_iff)
qed

section \<open>Failures\<close>

text \<open>Nothing a caller can see has changed.\<close>

definition unchanged :: "operator_table \<Rightarrow> operator_table \<Rightarrow> bool" where
  "unchanged t t' \<longleftrightarrow> same_declarations t t' \<and> ot_grammar t' = ot_grammar t \<and> ot_spellings t' = ot_spellings t
     \<and> ot_keywords t' = ot_keywords t \<and> ot_generation t' = ot_generation t"

lemma unchanged_refl [simp]: "unchanged t t"
  by (simp add: unchanged_def same_declarations_def)

text \<open>A rebuild that failed, with its change taken back, and the rebuild of the old declarations.\<close>

lemma rollback_unchanged:
  assumes "views_ok t" and "rebuild mem True t1 = (False, t2)" and "\<And>k. mem' k"
    and "same_declarations t t3" and "ot_generation t1 = ot_generation t" and "ot_generation t3 = ot_generation t2"
  shows "unchanged t (snd (rebuild mem' False t3))"
proof -
  obtain ok t4 where r: "rebuild mem' False t3 = (ok, t4)" by fastforce
  note f = rebuild_ok [OF assms(2)] and b = rebuild_ok [OF r]
  have same: "same_declarations t t4" using assms(4) b(1) by (simp add: same_declarations_def)
  note u = views_unique [OF assms(1) b(2) [OF b(6) [OF assms(3)]] same]
  show ?thesis using r same u b(5) f(5) assms(5,6) by (simp add: unchanged_def)
qed

lemma insert_level_failed:
  assumes "views_ok t" and "\<And>k. tm_restore mem k" and "i \<le> length (ot_order t)" and "insert_level mem i num n t = (Inl msg, t')"
  shows "unchanged t t' \<and> msg = table_full"
proof -
  let ?t1 = "t\<lparr>ot_levels := ot_levels t @ [\<lparr>li_numeric = num, li_number = n\<rparr>],
      ot_order := insert_at i (of_nat (length (ot_levels t))) (ot_order t)\<rparr>"
  obtain ok t2 where r: "rebuild (tm_rebuild mem) True ?t1 = (ok, t2)" by fastforce
  note f = rebuild_ok(1) [OF r]
  let ?t3 = "t2\<lparr>ot_order := erase_at i (ot_order t2), ot_levels := butlast (ot_levels t2)\<rparr>"
  show ?thesis
  proof (cases "t' = t \<or> ok")
    case True
    then show ?thesis using assms(4) r by (auto simp: insert_level_def Let_def split: if_splits)
  next
    case False
    then have "t' = snd (rebuild (tm_restore mem) False ?t3)" "msg = table_full"
      using assms(4) r by (auto simp: insert_level_def Let_def split: if_splits)
    moreover have "same_declarations t ?t3" using f assms(3) by (simp add: same_declarations_def)
    ultimately show ?thesis using rollback_unchanged [OF assms(1), of "tm_rebuild mem" ?t1 t2 "tm_restore mem" ?t3] assms(2) r False by simp
  qed
qed

lemma declare_operator_failed:
  assumes "views_ok t" and "\<And>k. tm_restore mem k" and "declare_operator mem kind s l a t = (Inl msg, t')"
  shows "unchanged t t' \<and> msg \<in> {''empty operator'', ''duplicate operator'', ''bad precedence'', table_full}"
proof (cases "precheck kind s t \<noteq> None \<or> position_of (ot_order t) l = None \<or> length (ot_entries t) \<ge> ot_max_operators t")
  case True
  then show ?thesis using assms(3) by (auto simp: declare_operator_def precheck_def split: if_splits option.splits)
next
  case False
  let ?e = "\<lparr>en_text = \<lparr>sr_offset = of_nat (length (ot_arena t)), sr_length = of_nat (length s)\<rparr>, en_category = kind, en_level = l, en_associativity = a\<rparr>"
  let ?t1 = "t\<lparr>ot_arena := ot_arena t @ s, ot_arena_block := (if tm_moves mem 0 then ot_arena_block t + 1 else ot_arena_block t)\<rparr>"
  let ?t2 = "?t1\<lparr>ot_entries := ot_entries t @ [?e]\<rparr>"
  obtain ok t3 where r: "rebuild (tm_rebuild mem) True ?t2 = (ok, t3)" by fastforce
  note f = rebuild_ok(1) [OF r]
  let ?t4 = "truncate_arena (length (ot_arena t)) (t3\<lparr>ot_entries := butlast (ot_entries t3)\<rparr>)"
  have msg: "msg = table_full" using False assms(3) r by (auto simp: declare_operator_def store_def Let_def split: if_splits)
  show ?thesis
  proof (cases "tm_store mem 0 \<and> tm_insert mem 2")
    case True
    then have ok: "\<not> ok" "t' = snd (rebuild (tm_restore mem) False ?t4)"
      using False assms(3) r by (auto simp: declare_operator_def store_def Let_def split: if_splits)
    have "same_declarations t ?t4" using f by (simp add: same_declarations_def truncate_arena_def)
    then show ?thesis using rollback_unchanged [OF assms(1), of "tm_rebuild mem" ?t2 t3 "tm_restore mem" ?t4] assms(2) r ok msg
      by (simp add: truncate_arena_def)
  next
    case False': False
    then have "t' = truncate_arena (length (ot_arena t)) (if tm_store mem 0 then ?t1 else t)"
      using False assms(3) by (auto simp: declare_operator_def store_def Let_def split: if_splits)
    then show ?thesis using msg by (auto simp: unchanged_def same_declarations_def truncate_arena_def)
  qed
qed

lemma set_ternary_failed:
  assumes "views_ok t" and "\<And>k. tm_restore mem k" and "set_ternary mem op t = (Inl msg, t')"
  shows "unchanged t t'"
proof (cases "valid_spelling (te_question op) \<and> valid_spelling (te_colon op) \<and> tm_store mem 0 \<and> tm_store mem 1")
  case True
  let ?b = "\<lambda>j b. if tm_moves mem j then b + 1 else (b :: nat)"
  let ?a = "ot_arena t @ te_question op"
  let ?t2 = "t\<lparr>ot_arena := ?a @ te_colon op, ot_arena_block := ?b 1 (?b 0 (ot_arena_block t))\<rparr>"
  let ?t3 = "?t2\<lparr>ot_ternary := \<lparr>tl_enabled = True, tl_question = \<lparr>sr_offset = of_nat (length (ot_arena t)), sr_length = of_nat (length (te_question op))\<rparr>,
      tl_colon = \<lparr>sr_offset = of_nat (length ?a), sr_length = of_nat (length (te_colon op))\<rparr>, tl_precedence = te_precedence op\<rparr>\<rparr>"
  obtain ok t4 where r: "rebuild (tm_rebuild mem) True ?t3 = (ok, t4)" by fastforce
  let ?t5 = "truncate_arena (length (ot_arena t)) (t4\<lparr>ot_ternary := ot_ternary t\<rparr>)"
  have ok: "\<not> ok" "t' = snd (rebuild (tm_restore mem) False ?t5)"
    using True assms(3) r by (auto simp: set_ternary_def store_def Let_def split: if_splits)
  have "same_declarations t ?t5" using rebuild_ok(1) [OF r] by (simp add: same_declarations_def truncate_arena_def)
  then show ?thesis using rollback_unchanged [OF assms(1), of "tm_rebuild mem" ?t3 t4 "tm_restore mem" ?t5] assms(2) r ok
    by (simp add: truncate_arena_def)
next
  case False
  then show ?thesis using assms(3)
    by (auto simp: set_ternary_def store_def Let_def unchanged_def same_declarations_def truncate_arena_def split: if_splits)
qed

lemma set_punctuation_failed:
  assumes "views_ok t" and "\<And>k. tm_restore mem k" and "tm_insert mem 3" and "set_punctuation mem bytes t = (Inl msg, t')"
  shows "unchanged t t'"
proof (cases "tm_insert mem 0 \<and> tm_insert mem 1")
  case True
  let ?t1 = "t\<lparr>ot_punctuation := bytes\<rparr>"
  obtain ok t2 where r: "rebuild (tm_rebuild mem) True ?t1 = (ok, t2)" by fastforce
  let ?t3 = "t2\<lparr>ot_punctuation := ot_punctuation t\<rparr>"
  have ok: "\<not> ok" "t' = snd (rebuild (tm_restore mem) False ?t3)"
    using True assms(3,4) r by (auto simp: set_punctuation_def Let_def split: if_splits)
  have "same_declarations t ?t3" using rebuild_ok(1) [OF r] by (simp add: same_declarations_def)
  then show ?thesis using rollback_unchanged [OF assms(1), of "tm_rebuild mem" ?t1 t2 "tm_restore mem" ?t3] assms(2) r ok by simp
next
  case False
  have "unchanged t (snd (rebuild (tm_restore mem) False t))"
  proof -
    obtain ok t2 where r: "rebuild (tm_restore mem) False t = (ok, t2)" by fastforce
    note b = rebuild_ok [OF r]
    show ?thesis using views_unique [OF assms(1) b(2) [OF b(6) [OF assms(2)]] b(1)] b(1,5) r by (simp add: unchanged_def)
  qed
  then show ?thesis using False assms(3,4) by (auto simp: set_punctuation_def Let_def split: if_splits)
qed

section \<open>The invariant\<close>

definition span_ok :: "string \<Rightarrow> span_ref \<Rightarrow> bool" where
  "span_ok arena r \<longleftrightarrow> unat (sr_offset r) + unat (sr_length r) \<le> length arena"

definition level_number :: "level_info list \<Rightarrow> u16 \<Rightarrow> u8 option" where
  "level_number levels l = (let info = levels ! unat l in if li_numeric info then Some (li_number info) else None)"

text \<open>The numbers of the numeric levels, from the loosest level on.\<close>

definition numbers :: "level_info list \<Rightarrow> u16 list \<Rightarrow> u8 list" where
  "numbers levels order = List.map_filter (level_number levels) order"

definition levels_ok :: "operator_table \<Rightarrow> bool" where
  "levels_ok t \<longleftrightarrow> length (ot_order t) = length (ot_levels t) \<and> length (ot_levels t) \<le> kMaxLevels \<and> distinct (ot_order t)
     \<and> set (ot_order t) = of_nat ` {0..<length (ot_levels t)} \<and> sorted_wrt (<) (numbers (ot_levels t) (ot_order t))"

definition entries_ok :: "operator_table \<Rightarrow> bool" where
  "entries_ok t \<longleftrightarrow> (\<forall>e \<in> set (ot_entries t). en_level e \<in> set (ot_order t) \<and> span_ok (ot_arena t) (en_text e))
     \<and> distinct (map (\<lambda>e. (en_category e, spelling_of t e)) (ot_entries t)) \<and> length (ot_entries t) \<le> ot_max_operators t
     \<and> length (ot_arena t) < 2 ^ 32
     \<and> (tl_enabled (ot_ternary t) \<longrightarrow> span_ok (ot_arena t) (tl_question (ot_ternary t)) \<and> span_ok (ot_arena t) (tl_colon (ot_ternary t)))"

definition table_ok :: "operator_table \<Rightarrow> bool" where
  "table_ok t \<longleftrightarrow> levels_ok t \<and> entries_ok t \<and> views_ok t"

lemma operator_table_init_ok: "table_ok (operator_table_init n)"
  by (simp add: table_ok_def levels_ok_def entries_ok_def views_ok_def views_of_def table_view_def operator_table_init_def
      empty_grammar_def grammar_of_def of_category_def first_occurrences_def ternary_view_def no_ternary_slot_def numbers_def
      List.map_filter_def)

lemma same_declarations_ok: "same_declarations t t' \<Longrightarrow> levels_ok t \<Longrightarrow> entries_ok t \<Longrightarrow> levels_ok t' \<and> entries_ok t'"
  using same_declarations_views(1) [of t t'] by (simp add: same_declarations_def levels_ok_def entries_ok_def)

lemma unchanged_ok: "unchanged t t' \<Longrightarrow> table_ok t \<Longrightarrow> table_ok t'"
  using same_declarations_ok [of t t'] same_declarations_views [of t t']
  by (auto simp: unchanged_def table_ok_def views_ok_def table_view_def same_declarations_def)

lemma of_nat_level: "n < kMaxLevels \<Longrightarrow> unat (of_nat n :: u16) = n"
  by (simp add: kMaxLevels_def unat_of_nat)

lemma level_bound: "levels_ok t \<Longrightarrow> l \<in> set (ot_order t) \<Longrightarrow> unat l < length (ot_levels t)"
  using of_nat_level by (auto simp: levels_ok_def)

lemma new_level: "levels_ok t \<Longrightarrow> length (ot_levels t) < kMaxLevels \<Longrightarrow> (of_nat (length (ot_levels t)) :: u16) \<notin> set (ot_order t)"
  using level_bound [of t] of_nat_level [of "length (ot_levels t)"] by fastforce

text \<open>The numbers around the place of a new level.\<close>

definition number_fits :: "operator_table \<Rightarrow> nat \<Rightarrow> bool \<Rightarrow> u8 \<Rightarrow> bool" where
  "number_fits t i numeric n \<longleftrightarrow> (numeric \<longrightarrow> (\<forall>m \<in> set (numbers (ot_levels t) (take i (ot_order t))). m < n)
     \<and> (\<forall>m \<in> set (numbers (ot_levels t) (drop i (ot_order t))). n < m))"

lemma numbers_append: "numbers levels (xs @ ys) = numbers levels xs @ numbers levels ys"
  by (simp add: numbers_def List.map_filter_def)

lemma numbers_snoc_level: "(\<And>l. l \<in> set order \<Longrightarrow> unat l < length levels) \<Longrightarrow> numbers (levels @ [info]) order = numbers levels order"
  by (induction order) (simp_all add: numbers_def List.map_filter_def level_number_def nth_append)

lemma insert_level_levels_ok:
  assumes "levels_ok t" and "i \<le> length (ot_order t)" and "length (ot_levels t) < kMaxLevels" and "number_fits t i numeric n"
  shows "levels_ok (t\<lparr>ot_levels := ot_levels t @ [\<lparr>li_numeric = numeric, li_number = n\<rparr>],
      ot_order := insert_at i (of_nat (length (ot_levels t))) (ot_order t)\<rparr>)"
proof -
  let ?k = "length (ot_levels t)" and ?info = "\<lparr>li_numeric = numeric, li_number = n\<rparr>"
  let ?levels = "ot_levels t @ [?info]"
  have b: "unat l < ?k" if "l \<in> set (take i (ot_order t)) \<or> l \<in> set (drop i (ot_order t))" for l
    using that level_bound [OF assms(1)] by (meson in_set_dropD in_set_takeD)
  have num: "numbers ?levels (insert_at i (of_nat ?k) (ot_order t))
      = numbers (ot_levels t) (take i (ot_order t)) @ (if numeric then [n] else []) @ numbers (ot_levels t) (drop i (ot_order t))"
  proof -
    have "numbers ?levels (insert_at i (of_nat ?k) (ot_order t))
        = numbers ?levels (take i (ot_order t)) @ numbers ?levels [of_nat ?k] @ numbers ?levels (drop i (ot_order t))"
      unfolding insert_at_def by (metis numbers_append append_Cons append_Nil)
    moreover have "numbers ?levels [of_nat ?k] = (if numeric then [n] else [])"
      using of_nat_level [OF assms(3)] by (simp add: numbers_def List.map_filter_def level_number_def)
    ultimately show ?thesis using b by (simp add: numbers_snoc_level)
  qed
  have old: "sorted_wrt (<) (numbers (ot_levels t) (take i (ot_order t)) @ numbers (ot_levels t) (drop i (ot_order t)))"
    using assms(1) by (metis levels_ok_def append_take_drop_id numbers_append)
  have "sorted_wrt (<) (numbers ?levels (insert_at i (of_nat ?k) (ot_order t)))"
    using old assms(4) unfolding num by (auto simp: sorted_wrt_append number_fits_def)
  moreover have "of_nat ` {0..<Suc ?k} = insert (of_nat ?k :: u16) (set (ot_order t))"
    using assms(1) by (simp add: levels_ok_def atLeast0_lessThan_Suc)
  ultimately show ?thesis using assms(1,3) new_level [OF assms(1,3)] by (simp add: levels_ok_def)
qed

lemma insert_level_ok:
  assumes "table_ok t" and "i \<le> length (ot_order t)" and "number_fits t i numeric n" and "insert_level mem i numeric n t = (Inr l, t')"
  shows "table_ok t'" and "l = of_nat (length (ot_levels t))" and "l \<notin> set (ot_order t)"
    and "ot_order t' = insert_at i l (ot_order t)" and "ot_entries t' = ot_entries t" and "ot_arena t' = ot_arena t"
    and "ot_levels t' = ot_levels t @ [\<lparr>li_numeric = numeric, li_number = n\<rparr>]" and "ot_view_block t' = ot_arena_block t'"
    and "ot_max_operators t' = ot_max_operators t"
proof -
  let ?t1 = "t\<lparr>ot_levels := ot_levels t @ [\<lparr>li_numeric = numeric, li_number = n\<rparr>],
      ot_order := insert_at i (of_nat (length (ot_levels t))) (ot_order t)\<rparr>"
  have r: "rebuild (tm_rebuild mem) True ?t1 = (True, t')" and l: "l = of_nat (length (ot_levels t))" and k: "length (ot_levels t) < kMaxLevels"
    using assms(4) by (auto simp: insert_level_def Let_def split: if_splits prod.splits)
  note f = rebuild_ok [OF r]
  have ok: "levels_ok t" "entries_ok t" using assms(1) by (auto simp: table_ok_def)
  have "levels_ok ?t1" by (rule insert_level_levels_ok [OF ok(1) assms(2) k assms(3)])
  moreover have "spelling_of ?t1 = spelling_of t" by (simp add: spelling_of_def fun_eq_iff)
  then have "entries_ok ?t1" using ok(2) by (simp add: entries_ok_def)
  ultimately show "table_ok t'" using same_declarations_ok [OF f(1)] f(2) by (simp add: table_ok_def)
  show "l = of_nat (length (ot_levels t))" by (rule l)
  show "l \<notin> set (ot_order t)" using new_level [OF ok(1) k] l by simp
  show "ot_order t' = insert_at i l (ot_order t)" "ot_entries t' = ot_entries t" "ot_arena t' = ot_arena t"
    "ot_levels t' = ot_levels t @ [\<lparr>li_numeric = numeric, li_number = n\<rparr>]" "ot_view_block t' = ot_arena_block t'"
    "ot_max_operators t' = ot_max_operators t"
    using f(1,3) l by (simp_all add: same_declarations_def)
qed

lemma number_fits_other [simp]: "number_fits t i False n"
  by (simp add: number_fits_def)

text \<open>What the search for a number finds: a level with it, or the place among the smaller and greater ones.\<close>

definition last_smaller :: "level_info list \<Rightarrow> u8 \<Rightarrow> u16 list \<Rightarrow> nat option \<Rightarrow> bool" where
  "last_smaller levels n order a \<longleftrightarrow> (\<forall>m \<in> set (numbers levels (case a of None \<Rightarrow> order | Some j \<Rightarrow> drop (j + 1) order)). n < m)
     \<and> (case a of None \<Rightarrow> True | Some j \<Rightarrow> j < length order \<and> (\<exists>m < n. level_number levels (order ! j) = Some m))"

definition first_greater :: "level_info list \<Rightarrow> u8 \<Rightarrow> u16 list \<Rightarrow> nat option \<Rightarrow> bool" where
  "first_greater levels n order b \<longleftrightarrow> (\<forall>m \<in> set (numbers levels (case b of None \<Rightarrow> order | Some j \<Rightarrow> take j order)). m < n)
     \<and> (case b of None \<Rightarrow> True | Some j \<Rightarrow> j < length order)"

lemma numbers_Cons: "numbers levels (l # ls) = (case level_number levels l of None \<Rightarrow> numbers levels ls | Some m \<Rightarrow> m # numbers levels ls)"
  by (simp add: numbers_def List.map_filter_def split: option.splits)

lemma numbers_Nil [simp]: "numbers levels [] = []"
  by (simp add: numbers_def List.map_filter_def)

lemma level_for_number_loop_spec:
  "last_smaller levels n ps a \<Longrightarrow> first_greater levels n ps b \<Longrightarrow>
   (case level_for_number_loop levels n (length ps) ls a b of
      Inl l \<Rightarrow> l \<in> set ls \<and> level_number levels l = Some n
    | Inr (a', b') \<Rightarrow> last_smaller levels n (ps @ ls) a' \<and> first_greater levels n (ps @ ls) b')"
proof (induction ls arbitrary: ps a b)
  case (Cons l ls)
  have len: "length (ps @ [l]) = length ps + 1" and app: "(ps @ [l]) @ ls = ps @ l # ls" by simp_all
  note ih = Cons.IH [of "ps @ [l]", unfolded len app]
  show ?case
  proof (cases "level_number levels l")
    case None
    then have "\<not> li_numeric (levels ! unat l)" by (auto simp: level_number_def Let_def split: if_splits)
    moreover have "last_smaller levels n (ps @ [l]) a" "first_greater levels n (ps @ [l]) b"
      using Cons.prems None by (auto simp: last_smaller_def first_greater_def numbers_append numbers_Cons nth_append split: option.splits)
    ultimately show ?thesis using ih [of a b] by (auto split: sum.splits)
  next
    case (Some m)
    then have i: "li_numeric (levels ! unat l)" "li_number (levels ! unat l) = m" by (auto simp: level_number_def Let_def split: if_splits)
    consider "m = n" | "m < n" | "n < m" by fastforce
    then show ?thesis
    proof cases
      case 1
      then show ?thesis using i Some by simp
    next
      case 2
      have "last_smaller levels n (ps @ [l]) (Some (length ps))" "first_greater levels n (ps @ [l]) b"
        using Cons.prems Some 2 by (auto simp: last_smaller_def first_greater_def numbers_append numbers_Cons split: option.splits)
      then show ?thesis using ih [of "Some (length ps)" b] i 2 by (auto split: sum.splits)
    next
      case 3
      have "last_smaller levels n (ps @ [l]) a" "first_greater levels n (ps @ [l]) (if b = None then Some (length ps) else b)"
        using Cons.prems Some 3 by (auto simp: last_smaller_def first_greater_def numbers_append numbers_Cons nth_append split: option.splits)
      then show ?thesis using ih [of a "if b = None then Some (length ps) else b"] i 3 by (auto split: sum.splits)
    qed
  qed
qed simp

lemma level_for_number_fits:
  assumes "levels_ok t" and "last_smaller (ot_levels t) n (ot_order t) a" and "first_greater (ot_levels t) n (ot_order t) b"
    and "i = (case a of Some i \<Rightarrow> i + 1 | None \<Rightarrow> (case b of Some i \<Rightarrow> i | None \<Rightarrow> length (ot_order t)))"
  shows "number_fits t i True n" and "i \<le> length (ot_order t)"
proof -
  let ?num = "numbers (ot_levels t)" and ?o = "ot_order t"
  have sorted: "sorted_wrt (<) (?num (take i ?o) @ ?num (drop i ?o))"
    using assms(1) by (metis levels_ok_def append_take_drop_id numbers_append)
  show "i \<le> length ?o" using assms(2-4) by (auto simp: last_smaller_def first_greater_def split: option.splits)
  show "number_fits t i True n"
  proof (cases a)
    case (Some j)
    then obtain m where j: "j < length ?o" "m < n" "level_number (ot_levels t) (?o ! j) = Some m" and i: "i = j + 1"
      and gt: "\<forall>k \<in> set (?num (drop i ?o)). n < k" using assms(2,4) by (auto simp: last_smaller_def)
    have "?num (take i ?o) = ?num (take j ?o) @ [m]"
      using j i by (simp add: take_Suc_conv_app_nth numbers_append numbers_Cons)
    then show ?thesis using sorted j(2) gt by (auto simp: number_fits_def sorted_wrt_append intro: less_trans)
  next
    case None
    then have gt: "\<forall>k \<in> set (?num ?o). n < k" using assms(2) by (simp add: last_smaller_def)
    have lt: "\<forall>k \<in> set (?num (take i ?o)). k < n" using None assms(3,4) by (auto simp: first_greater_def split: option.splits)
    have "?num ?o = ?num (take i ?o) @ ?num (drop i ?o)" by (metis append_take_drop_id numbers_append)
    then show ?thesis using gt lt by (auto simp: number_fits_def)
  qed
qed

lemma level_for_number_cases:
  assumes "table_ok t"
  obtains (found) l where "level_for_number mem n t = (Inr l, t)" "l \<in> set (ot_order t)" "level_number (ot_levels t) l = Some n"
    | (new) i where "level_for_number mem n t = insert_level mem i True n t" "i \<le> length (ot_order t)" "number_fits t i True n"
proof -
  have lo: "levels_ok t" using assms by (simp add: table_ok_def)
  have start: "last_smaller (ot_levels t) n [] None" "first_greater (ot_levels t) n [] None"
    by (simp_all add: last_smaller_def first_greater_def)
  note s = level_for_number_loop_spec [OF start, of "ot_order t", simplified]
  show ?thesis
  proof (cases "level_for_number_loop (ot_levels t) n 0 (ot_order t) None None")
    case (Inl l)
    then show ?thesis using found s by (simp add: level_for_number_def)
  next
    case (Inr ab)
    obtain a b where ab: "ab = (a, b)" by fastforce
    have "last_smaller (ot_levels t) n (ot_order t) a" "first_greater (ot_levels t) n (ot_order t) b" using s Inr ab by simp_all
    note f = level_for_number_fits [OF lo this refl]
    show ?thesis by (rule new [OF _ f(2,1)]) (simp add: level_for_number_def Inr ab)
  qed
qed

lemma text_at_append [simp]: "span_ok arena r \<Longrightarrow> text_at (arena @ s) r = text_at arena r"
  by (simp add: text_at_def span_ok_def)

lemma span_ok_append [simp]: "span_ok arena r \<Longrightarrow> span_ok (arena @ s) r"
  by (simp add: span_ok_def)

lemma unat_of_nat_u32: "n < 2 ^ 32 \<Longrightarrow> unat (of_nat n :: u32) = n"
  by (simp add: unat_of_nat)

lemma text_at_new:
  assumes "length arena + length s < 2 ^ 32"
  shows "text_at (arena @ s) \<lparr>sr_offset = of_nat (length arena), sr_length = of_nat (length s)\<rparr> = s"
    and "span_ok (arena @ s) \<lparr>sr_offset = of_nat (length arena), sr_length = of_nat (length s)\<rparr>"
  using assms unat_of_nat_u32 [of "length arena"] unat_of_nat_u32 [of "length s"] by (simp_all add: text_at_def span_ok_def)

lemma declare_operator_ok:
  assumes "table_ok t" and "length (ot_arena t) + length s < 2 ^ 32" and "declare_operator mem kind s l a t = (Inr (), t')"
  shows "table_ok t'" and "ot_order t' = ot_order t" and "ot_levels t' = ot_levels t" and "l \<in> set (ot_order t)"
    and "ot_view_block t' = ot_arena_block t'"
    and "\<exists>e. ot_entries t' = ot_entries t @ [e] \<and> spelling_of t' e = s \<and> en_category e = kind \<and> en_level e = l \<and> en_associativity e = a"
    and "\<forall>e \<in> set (ot_entries t). spelling_of t' e = spelling_of t e"
proof -
  let ?e = "\<lparr>en_text = \<lparr>sr_offset = of_nat (length (ot_arena t)), sr_length = of_nat (length s)\<rparr>, en_category = kind, en_level = l, en_associativity = a\<rparr>"
  let ?t2 = "t\<lparr>ot_arena := ot_arena t @ s, ot_arena_block := (if tm_moves mem 0 then ot_arena_block t + 1 else ot_arena_block t),
      ot_entries := ot_entries t @ [?e]\<rparr>"
  have r: "rebuild (tm_rebuild mem) True ?t2 = (True, t')" and pre: "precheck kind s t = None" "l \<in> set (ot_order t)"
    "length (ot_entries t) < ot_max_operators t"
    using assms(3) by (auto simp: declare_operator_def store_def Let_def split: if_splits prod.splits option.splits)
  note f = rebuild_ok [OF r]
  have ok: "levels_ok t" "entries_ok t" using assms(1) by (auto simp: table_ok_def)
  have new: "spelling_of ?t2 ?e = s" "span_ok (ot_arena ?t2) (en_text ?e)" using text_at_new [OF assms(2)] by (simp_all add: spelling_of_def)
  have old: "\<forall>e \<in> set (ot_entries t). spelling_of ?t2 e = spelling_of t e" using ok(2) by (simp add: entries_ok_def spelling_of_def)
  have dup: "(kind, s) \<notin> (\<lambda>e. (en_category e, spelling_of t e)) ` set (ot_entries t)"
    using pre(1) by (auto simp: precheck_def list_ex_iff split: if_splits)
  have "map (\<lambda>e. (en_category e, spelling_of ?t2 e)) (ot_entries t) = map (\<lambda>e. (en_category e, spelling_of t e)) (ot_entries t)" using old by simp
  then have "distinct (map (\<lambda>e. (en_category e, spelling_of ?t2 e)) (ot_entries ?t2))"
    using ok(2) dup new(1) by (simp add: entries_ok_def image_image [symmetric] del: map_eq_conv)
  then have "entries_ok ?t2" using ok(2) assms(2) pre new(2) by (auto simp: entries_ok_def)
  moreover have "levels_ok ?t2" using ok(1) by (simp add: levels_ok_def)
  ultimately show "table_ok t'" using same_declarations_ok [OF f(1)] f(2) by (simp add: table_ok_def)
  show "ot_order t' = ot_order t" "ot_levels t' = ot_levels t" "l \<in> set (ot_order t)" "ot_view_block t' = ot_arena_block t'"
    using f(1,3) pre(2) by (simp_all add: same_declarations_def)
  have same: "spelling_of t' = spelling_of ?t2" by (rule same_declarations_views(1) [OF f(1)])
  show "\<exists>e. ot_entries t' = ot_entries t @ [e] \<and> spelling_of t' e = s \<and> en_category e = kind \<and> en_level e = l \<and> en_associativity e = a"
    using f(1) new(1) by (intro exI [of _ ?e]) (simp add: same same_declarations_def)
  show "\<forall>e \<in> set (ot_entries t). spelling_of t' e = spelling_of t e" using old by (simp add: same)
qed

lemma entries_ok_append:
  assumes "entries_ok t" and "ot_entries t' = ot_entries t" and "ot_order t' = ot_order t" and "ot_max_operators t' = ot_max_operators t"
    and "ot_arena t' = ot_arena t @ s" and "length (ot_arena t') < 2 ^ 32"
    and "span_ok (ot_arena t') (tl_question (ot_ternary t'))" and "span_ok (ot_arena t') (tl_colon (ot_ternary t'))"
  shows "entries_ok t'"
proof -
  have "\<forall>e \<in> set (ot_entries t). spelling_of t' e = spelling_of t e" using assms(1,5) by (simp add: entries_ok_def spelling_of_def)
  then have "map (\<lambda>e. (en_category e, spelling_of t' e)) (ot_entries t) = map (\<lambda>e. (en_category e, spelling_of t e)) (ot_entries t)" by simp
  then show ?thesis using assms by (simp add: entries_ok_def del: map_eq_conv)
qed

lemma set_ternary_ok:
  assumes "table_ok t" and "length (ot_arena t) + length (te_question op) + length (te_colon op) < 2 ^ 32"
    and "set_ternary mem op t = (Inr (), t')"
  shows "table_ok t'" and "g_ternary (ot_grammar t') = Some op" and "ot_entries t' = ot_entries t" and "ot_order t' = ot_order t"
proof -
  let ?b = "\<lambda>j b. if tm_moves mem j then b + 1 else (b :: nat)"
  let ?a = "ot_arena t @ te_question op"
  let ?q = "\<lparr>sr_offset = of_nat (length (ot_arena t)), sr_length = of_nat (length (te_question op))\<rparr>"
  let ?c = "\<lparr>sr_offset = of_nat (length ?a), sr_length = of_nat (length (te_colon op))\<rparr>"
  let ?t3 = "t\<lparr>ot_arena := ?a @ te_colon op, ot_arena_block := ?b 1 (?b 0 (ot_arena_block t)),
      ot_ternary := \<lparr>tl_enabled = True, tl_question = ?q, tl_colon = ?c, tl_precedence = te_precedence op\<rparr>\<rparr>"
  have r: "rebuild (tm_rebuild mem) True ?t3 = (True, t')"
    using assms(3) by (auto simp: set_ternary_def store_def Let_def split: if_splits prod.splits)
  note f = rebuild_ok [OF r]
  have ok: "levels_ok t" "entries_ok t" using assms(1) by (auto simp: table_ok_def)
  have q: "text_at (?a @ te_colon op) ?q = te_question op" "span_ok (?a @ te_colon op) ?q"
    using text_at_new [of "ot_arena t" "te_question op"] assms(2) by (simp_all del: append_assoc)
  have c: "text_at (?a @ te_colon op) ?c = te_colon op" "span_ok (?a @ te_colon op) ?c"
    using text_at_new [of ?a "te_colon op"] assms(2) by (simp_all del: append_assoc)
  have "entries_ok ?t3"
    by (rule entries_ok_append [OF ok(2), of _ "te_question op @ te_colon op"]) (use assms(2) q(2) c(2) in simp_all)
  moreover have "levels_ok ?t3" using ok(1) by (simp add: levels_ok_def)
  ultimately show "table_ok t'" using same_declarations_ok [OF f(1)] f(2) by (simp add: table_ok_def)
  have "g_ternary (ot_grammar t') = ternary_view ?t3"
    using f(2) same_declarations_views(3) [OF f(1)] by (simp add: views_ok_def)
  then show "g_ternary (ot_grammar t') = Some op" using q(1) c(1) by (simp add: ternary_view_def)
  show "ot_entries t' = ot_entries t" "ot_order t' = ot_order t" using f(1) by (simp_all add: same_declarations_def)
qed

lemma set_punctuation_ok:
  assumes "table_ok t" and "set_punctuation mem bytes t = (Inr (), t')"
  shows "table_ok t'" and "ot_punctuation t' = bytes"
proof -
  have r: "rebuild (tm_rebuild mem) True (t\<lparr>ot_punctuation := bytes\<rparr>) = (True, t')"
    using assms(2) by (auto simp: set_punctuation_def Let_def split: if_splits prod.splits)
  note f = rebuild_ok [OF r]
  have "levels_ok (t\<lparr>ot_punctuation := bytes\<rparr>)" "entries_ok (t\<lparr>ot_punctuation := bytes\<rparr>)"
    using assms(1) unfolding table_ok_def by (simp add: levels_ok_def, simp add: entries_ok_def spelling_of_def)
  then show "table_ok t'" "ot_punctuation t' = bytes" using same_declarations_ok [OF f(1)] f(1,2) by (simp_all add: table_ok_def same_declarations_def)
qed

lemma table_clear_ok: "table_ok t \<Longrightarrow> table_ok (table_clear mem t)"
proof -
  assume ok: "table_ok t"
  let ?t = "t\<lparr>ot_entries := [], ot_arena := [], ot_levels := [], ot_order := [], ot_ternary := no_ternary_slot\<rparr>"
  obtain b t' where r: "rebuild mem True ?t = (b, t')" by fastforce
  note f = rebuild_ok [OF r]
  have "b" using r by (auto simp: rebuild_def)
  moreover have "levels_ok ?t" "entries_ok ?t" by (simp_all add: levels_ok_def entries_ok_def no_ternary_slot_def)
  ultimately show ?thesis using same_declarations_ok [OF f(1)] f(2) r by (simp add: table_ok_def table_clear_def)
qed

section \<open>Properties\<close>

text \<open>A change of a table, and the table after a sequence of changes, each with the memory of its call.\<close>

datatype table_change =
    Add_level
  | Add_above u16
  | Add_below u16
  | Declare op_category string u16 assoc
  | Declare_numeric table_memory op_category string u8 assoc
  | Set_ternary ternary_op
  | Set_punctuation string
  | Clear

fun change :: "table_memory \<Rightarrow> table_change \<Rightarrow> operator_table \<Rightarrow> operator_table" where
  "change mem Add_level t = snd (add_level mem t)"
| "change mem (Add_above l) t = snd (add_level_above mem l t)"
| "change mem (Add_below l) t = snd (add_level_below mem l t)"
| "change mem (Declare kind s l a) t = snd (declare_operator mem kind s l a t)"
| "change mem (Declare_numeric mem' kind s n a) t = snd (declare_numeric mem mem' kind s n a t)"
| "change mem (Set_ternary op) t = snd (set_ternary mem op t)"
| "change mem (Set_punctuation bytes) t = snd (set_punctuation mem bytes t)"
| "change mem Clear t = table_clear (tm_rebuild mem) t"

fun change_text :: "table_change \<Rightarrow> nat" where
  "change_text (Declare kind s l a) = length s"
| "change_text (Declare_numeric mem' kind s n a) = length s"
| "change_text (Set_ternary op) = length (te_question op) + length (te_colon op)"
| "change_text _ = 0"

text \<open>The storage that held the old views is enough to build them again.\<close>

definition memory_ok :: "table_memory \<Rightarrow> bool" where
  "memory_ok mem \<longleftrightarrow> (\<forall>k. tm_restore mem k) \<and> tm_insert mem 3"

fun change_memory_ok :: "table_memory \<Rightarrow> table_change \<Rightarrow> bool" where
  "change_memory_ok mem (Declare_numeric mem' kind s n a) \<longleftrightarrow> memory_ok mem \<and> memory_ok mem'"
| "change_memory_ok mem _ \<longleftrightarrow> memory_ok mem"

lemma insert_level_table_ok:
  assumes "table_ok t" and "memory_ok mem" and "i \<le> length (ot_order t)" and "number_fits t i numeric n"
  shows "table_ok (snd (insert_level mem i numeric n t))"
proof -
  obtain res t' where r: "insert_level mem i numeric n t = (res, t')" by fastforce
  have v: "views_ok t" and m: "\<And>k. tm_restore mem k" using assms(1,2) by (auto simp: table_ok_def memory_ok_def)
  show ?thesis
  proof (cases res)
    case (Inl msg)
    have "unchanged t t'" using insert_level_failed [OF v m assms(3) r [unfolded Inl]] by simp
    then show ?thesis using r unchanged_ok assms(1) by simp
  next
    case (Inr l)
    then show ?thesis using insert_level_ok(1) [OF assms(1,3,4)] r by simp
  qed
qed

lemma declare_table_ok:
  assumes "table_ok t" and "memory_ok mem" and "length (ot_arena t) + length s < 2 ^ 32"
  shows "table_ok (snd (declare_operator mem kind s l a t))"
proof -
  obtain res t' where r: "declare_operator mem kind s l a t = (res, t')" by fastforce
  have v: "views_ok t" and m: "\<And>k. tm_restore mem k" using assms(1,2) by (auto simp: table_ok_def memory_ok_def)
  show ?thesis
  proof (cases res)
    case (Inl msg)
    have "unchanged t t'" using declare_operator_failed [OF v m r [unfolded Inl]] by simp
    then show ?thesis using r unchanged_ok assms(1) by simp
  next
    case (Inr u)
    then show ?thesis using declare_operator_ok(1) [OF assms(1,3)] r by simp
  qed
qed

lemma level_for_number_table_ok:
  assumes "table_ok t" and "memory_ok mem" and "level_for_number mem n t = (res, t')"
  shows "table_ok t'" and "ot_arena t' = ot_arena t"
proof -
  have v: "views_ok t" and m: "\<And>k. tm_restore mem k" using assms(1,2) by (auto simp: table_ok_def memory_ok_def)
  show "table_ok t'" by (rule level_for_number_cases [OF assms(1), where mem = mem and n = n])
    (use assms insert_level_table_ok [OF assms(1,2)] in \<open>metis snd_conv\<close>)+
  show "ot_arena t' = ot_arena t"
  proof (rule level_for_number_cases [OF assms(1), where mem = mem and n = n])
    fix i assume i: "level_for_number mem n t = insert_level mem i True n t" "i \<le> length (ot_order t)" "number_fits t i True n"
    show ?thesis
    proof (cases res)
      case (Inl msg)
      have "insert_level mem i True n t = (Inl msg, t')" using i(1) assms(3) Inl by simp
      from insert_level_failed [OF v m i(2) this] show ?thesis by (simp add: unchanged_def same_declarations_def)
    next
      case (Inr l)
      then have "insert_level mem i True n t = (Inr l, t')" using i(1) assms(3) by simp
      from insert_level_ok(6) [OF assms(1) i(2,3) this] show ?thesis .
    qed
  qed (use assms(3) in simp)
qed

text \<open>The views borrow from the block that the arena is in.\<close>

definition views_live :: "operator_table \<Rightarrow> bool" where
  "views_live t \<longleftrightarrow> ot_view_block t = ot_arena_block t"

fun change_succeeds :: "table_memory \<Rightarrow> table_change \<Rightarrow> operator_table \<Rightarrow> bool" where
  "change_succeeds mem Add_level t \<longleftrightarrow> \<not> isl (fst (add_level mem t))"
| "change_succeeds mem (Add_above l) t \<longleftrightarrow> \<not> isl (fst (add_level_above mem l t))"
| "change_succeeds mem (Add_below l) t \<longleftrightarrow> \<not> isl (fst (add_level_below mem l t))"
| "change_succeeds mem (Declare kind s l a) t \<longleftrightarrow> \<not> isl (fst (declare_operator mem kind s l a t))"
| "change_succeeds mem (Declare_numeric mem' kind s n a) t \<longleftrightarrow> \<not> isl (fst (declare_numeric mem mem' kind s n a t))"
| "change_succeeds mem (Set_ternary op) t \<longleftrightarrow> \<not> isl (fst (set_ternary mem op t))"
| "change_succeeds mem (Set_punctuation bytes) t \<longleftrightarrow> \<not> isl (fst (set_punctuation mem bytes t))"
| "change_succeeds mem Clear t \<longleftrightarrow> True"

text \<open>No text append of the change moves the arena.\<close>

fun arena_stays :: "table_memory \<Rightarrow> table_change \<Rightarrow> bool" where
  "arena_stays mem (Declare kind s l a) \<longleftrightarrow> \<not> tm_moves mem 0"
| "arena_stays mem (Declare_numeric mem' kind s n a) \<longleftrightarrow> \<not> tm_moves mem' 0"
| "arena_stays mem (Set_ternary op) \<longleftrightarrow> \<not> tm_moves mem 0 \<and> \<not> tm_moves mem 1"
| "arena_stays mem _ \<longleftrightarrow> True"

lemma rebuild_live [simp]: "views_live (snd (rebuild mem c t))"
  by (simp add: views_live_def rebuild_def split: prod.splits)

lemma rebuild_live_pair: "rebuild mem c t = (ok, t') \<Longrightarrow> views_live t'"
  using rebuild_live [of mem c t] by simp

lemma insert_level_live: "\<not> isl (fst (insert_level mem i num n t)) \<or> views_live t \<Longrightarrow> views_live (snd (insert_level mem i num n t))"
  by (auto simp: insert_level_def Let_def dest: rebuild_live_pair split: prod.splits)

lemma views_live_updates [simp]:
  "views_live (truncate_arena k t) = views_live t"
  "views_live (t\<lparr>ot_arena := x, ot_arena_block := b\<rparr>) = (ot_view_block t = b)"
  by (simp_all add: views_live_def truncate_arena_def)

lemma declare_operator_live:
  "\<not> isl (fst (declare_operator mem kind s l a t)) \<or> views_live t \<and> \<not> tm_moves mem 0 \<Longrightarrow> views_live (snd (declare_operator mem kind s l a t))"
  unfolding declare_operator_def store_def Let_def case_prod_unfold
  by (cases "precheck kind s t") (auto simp: views_live_def [of t])

lemma level_for_number_live: "views_live t \<Longrightarrow> views_live (snd (level_for_number mem n t))"
  by (auto simp: level_for_number_def Let_def insert_level_live split: sum.splits prod.splits)

lemma set_ternary_live:
  assumes "\<not> isl (fst (set_ternary mem op t)) \<or> views_live t \<and> \<not> tm_moves mem 0 \<and> \<not> tm_moves mem 1"
  shows "views_live (snd (set_ternary mem op t))"
proof (cases "valid_spelling (te_question op) \<and> valid_spelling (te_colon op) \<and> tm_store mem 0 \<and> tm_store mem 1")
  case True
  let ?b = "\<lambda>j b. if tm_moves mem j then b + 1 else (b :: nat)"
  let ?a = "ot_arena t @ te_question op"
  let ?t3 = "t\<lparr>ot_arena := ?a @ te_colon op, ot_arena_block := ?b 1 (?b 0 (ot_arena_block t)),
      ot_ternary := \<lparr>tl_enabled = True, tl_question = \<lparr>sr_offset = of_nat (length (ot_arena t)), sr_length = of_nat (length (te_question op))\<rparr>,
      tl_colon = \<lparr>sr_offset = of_nat (length ?a), sr_length = of_nat (length (te_colon op))\<rparr>, tl_precedence = te_precedence op\<rparr>\<rparr>"
  obtain ok t4 where r: "rebuild (tm_rebuild mem) True ?t3 = (ok, t4)" by fastforce
  have "snd (set_ternary mem op t) =
      (if ok then t4 else snd (rebuild (tm_restore mem) False (truncate_arena (length (ot_arena t)) (t4\<lparr>ot_ternary := ot_ternary t\<rparr>))))"
    using True r by (auto simp: set_ternary_def store_def Let_def)
  then show ?thesis using rebuild_live_pair [OF r] by simp
next
  case False
  then have failed: "isl (fst (set_ternary mem op t)) \<and> (\<not> tm_moves mem 0 \<longrightarrow> ot_view_block (snd (set_ternary mem op t)) = ot_view_block t
      \<and> ot_arena_block (snd (set_ternary mem op t)) = ot_arena_block t)"
    by (cases "tm_store mem 0"; cases "tm_store mem (Suc 0)"; cases "valid_spelling (te_question op)"; cases "valid_spelling (te_colon op)")
      (simp_all add: set_ternary_def store_def truncate_arena_def Let_def)
  then show ?thesis using assms by (simp add: views_live_def)
qed

lemma set_punctuation_live:
  "\<not> isl (fst (set_punctuation mem bytes t)) \<or> views_live t \<Longrightarrow> views_live (snd (set_punctuation mem bytes t))"
  by (auto simp: set_punctuation_def Let_def dest: rebuild_live_pair split: prod.splits)

lemma change_live:
  "change_succeeds mem c t \<or> views_live t \<and> arena_stays mem c \<Longrightarrow> views_live (change mem c t)"
proof (cases c)
  case (Declare_numeric mem' kind s n a)
  moreover assume "change_succeeds mem c t \<or> views_live t \<and> arena_stays mem c"
  ultimately show ?thesis using level_for_number_live [of t mem n] declare_operator_live [of mem' kind s _ a]
    by (auto simp: declare_numeric_def split: option.splits prod.splits sum.splits)
qed (auto simp: add_level_def add_level_above_def add_level_below_def table_clear_def
    insert_level_live declare_operator_live set_ternary_live set_punctuation_live simp del: position_of_None split: option.splits)

text \<open>C18: Every change keeps a table consistent, whether it succeeds or fails, wherever memory runs out on the way in; the
  rebuild after a change is taken back writes no more than the old views, into storage that held them, and does not run
  out. The levels are a permutation of at most 62, the numeric ones ascend, no operator is declared twice in a category,
  and the grammar, the keyword list and the symbol list have the contents of the declarations, the keywords
  strictly sorted. The views borrow from the current block of the arena after every change that succeeds, and still do after a
  change that fails unless one of its text appends moved the arena (which is where they can be left dangling).\<close>

theorem operator_table_invariant:
  assumes "table_ok t" and "change_memory_ok mem c" and "length (ot_arena t) + change_text c < 2 ^ 32"
  shows "table_ok (change mem c t) \<and> table_keywords (change mem c t) = Some (ot_keywords (change mem c t))
     \<and> (change_succeeds mem c t \<or> views_live t \<and> arena_stays mem c \<longrightarrow> views_live (change mem c t))"
proof -
  have "table_ok (change mem c t)"
  proof (cases c)
    case (Add_above l)
    then show ?thesis using assms insert_level_table_ok [OF assms(1)] position_of_bound [of "ot_order t" l]
      by (cases "position_of (ot_order t) l") (auto simp: add_level_above_def Suc_le_eq simp del: position_of_None)
  next
    case (Add_below l)
    then show ?thesis using assms insert_level_table_ok [OF assms(1)] position_of_bound [of "ot_order t" l]
      by (cases "position_of (ot_order t) l") (auto simp: add_level_below_def Suc_le_eq simp del: position_of_None)
  next
    case (Declare_numeric mem' kind s n a)
    then have m: "memory_ok mem" "memory_ok mem'" using assms(2) by simp_all
    obtain res t1 where r: "level_for_number mem n t = (res, t1)" by fastforce
    note l = level_for_number_table_ok [OF assms(1) m(1) r]
    have "table_ok (snd (declare_operator mem' kind s x a t1))" for x
      using declare_table_ok [OF l(1) m(2)] l(2) assms(3) Declare_numeric by simp
    then show ?thesis using Declare_numeric r l(1) assms(1) by (auto simp: declare_numeric_def split: option.splits sum.splits)
  next
    case (Set_ternary op)
    then show ?thesis using assms set_ternary_failed [of t mem op] set_ternary_ok(1) [OF assms(1), of op mem] unchanged_ok
      by (cases "set_ternary mem op t"; cases "fst (set_ternary mem op t)") (auto simp: table_ok_def [of t] memory_ok_def)
  next
    case (Set_punctuation bytes)
    then show ?thesis using assms set_punctuation_failed [of t mem bytes] set_punctuation_ok(1) [OF assms(1), of mem bytes] unchanged_ok
      by (cases "set_punctuation mem bytes t"; cases "fst (set_punctuation mem bytes t)") (auto simp: table_ok_def [of t] memory_ok_def)
  qed (use assms insert_level_table_ok [OF assms(1)] declare_table_ok [OF assms(1)] table_clear_ok in \<open>simp_all add: add_level_def\<close>)
  then show ?thesis using change_live [of mem c t]
    by (auto simp: table_ok_def views_ok_def views_of_def table_view_def table_keywords_def from_sorted_def is_strictly_sorted_iff)
qed

lemma precedence_of_entry:
  assumes "table_ok t" and "l \<in> set (ot_order t)"
  shows "unat (rank_precedence (position_of (ot_order t) l)) = precedence_of t l" and "precedence_of t l \<le> 252"
proof -
  obtain i where i: "position_of (ot_order t) l = Some i" "i < length (ot_order t)" using position_of_in [OF assms(2)] by blast
  moreover have "length (ot_order t) \<le> kMaxLevels" using assms(1) by (simp add: table_ok_def levels_ok_def)
  ultimately have "i < kMaxLevels" by simp
  then show "unat (rank_precedence (position_of (ot_order t) l)) = precedence_of t l" "precedence_of t l \<le> 252"
    using i rank_precedence_unat by (simp_all add: precedence_of_def kBase_def kStep_def kMaxLevels_def)
qed

text \<open>Precedences compare as positions, before and after a level is put in.\<close>

lemma precedence_of_less:
  assumes "levels_ok t" and "a \<in> set (ot_order t)" and "b \<in> set (ot_order t)"
  shows "precedence_of t a < precedence_of t b \<longleftrightarrow> the (position_of (ot_order t) a) < the (position_of (ot_order t) b)"
  using position_of_in [OF assms(2)] position_of_in [OF assms(3)] by (auto simp: precedence_of_def kStep_def)

lemma insert_level_order:
  assumes "levels_ok t" and "i \<le> length (ot_order t)" and "l \<notin> set (ot_order t)" and "ot_order t' = insert_at i l (ot_order t)"
    and "a \<in> set (ot_order t)"
  shows "precedence_of t' l = kBase + i * kStep"
    and "precedence_of t' a = (if the (position_of (ot_order t) a) < i then precedence_of t a else precedence_of t a + kStep)"
proof -
  have d: "distinct (ot_order t)" using assms(1) by (simp add: levels_ok_def)
  obtain j where j: "position_of (ot_order t) a = Some j" using position_of_in [OF assms(5)] by blast
  note p = position_of_insert [OF d assms(3,2)]
  show "precedence_of t' l = kBase + i * kStep" using p(1) by (simp add: precedence_of_def assms(4))
  show "precedence_of t' a = (if the (position_of (ot_order t) a) < i then precedence_of t a else precedence_of t a + kStep)"
    using p(2) [OF j] j by (simp add: precedence_of_def assms(4))
qed

lemma insert_level_kept:
  assumes "levels_ok t" and "i \<le> length (ot_order t)" and "l \<notin> set (ot_order t)" and "ot_order t' = insert_at i l (ot_order t)"
    and "a \<in> set (ot_order t)" and "b \<in> set (ot_order t)"
  shows "precedence_of t' a < precedence_of t' b \<longleftrightarrow> precedence_of t a < precedence_of t b"
proof -
  obtain j k where "position_of (ot_order t) a = Some j" "position_of (ot_order t) b = Some k"
    using position_of_in [OF assms(5)] position_of_in [OF assms(6)] by blast
  then show ?thesis using insert_level_order(2) [OF assms(1-4)] assms(5,6) by (auto simp: precedence_of_def kStep_def)
qed

text \<open>A new level lands where it was asked for, directly above or below its reference, and no existing pair of levels
  changes its order, so operators declared before bind as they did; and the precedence of every operator in the
  grammar is that of its level, without wrap-around.\<close>

theorem level_inserted_in_place:
  assumes "table_ok t" and "add_level_above mem ref t = (Inr l, t') \<or> add_level_below mem ref t = (Inr l, t')"
  shows "l \<notin> set (ot_order t) \<and> ref \<in> set (ot_order t)
     \<and> (add_level_above mem ref t = (Inr l, t') \<longrightarrow> precedence_of t' l = precedence_of t' ref + kStep)
     \<and> (add_level_below mem ref t = (Inr l, t') \<longrightarrow> precedence_of t' l + kStep = precedence_of t' ref)
     \<and> (\<forall>a \<in> set (ot_order t). \<forall>b \<in> set (ot_order t). precedence_of t' a < precedence_of t' b \<longleftrightarrow> precedence_of t a < precedence_of t b)
     \<and> (\<forall>e \<in> set (ot_entries t'). unat (operator_precedence t' e) = precedence_of t' (en_level e))"
proof -
  have lo: "levels_ok t" using assms(1) by (simp add: table_ok_def)
  have ref: "ref \<in> set (ot_order t)"
  proof (rule ccontr)
    assume "ref \<notin> set (ot_order t)"
    then have "position_of (ot_order t) ref = None" by simp
    then show False using assms(2) by (simp add: add_level_above_def add_level_below_def del: position_of_None)
  qed
  then obtain j where j: "position_of (ot_order t) ref = Some j" "j < length (ot_order t)" using position_of_in by blast
  define i where "i = (if add_level_above mem ref t = (Inr l, t') then j + 1 else j)"
  have i: "i \<le> length (ot_order t)" "insert_level mem i False 0 t = (Inr l, t')"
    using assms(2) j by (auto simp: i_def add_level_above_def add_level_below_def)
  note ok = insert_level_ok [OF assms(1) i(1) number_fits_other i(2)]
  note ord = insert_level_order [OF lo i(1) ok(3,4)] and kept = insert_level_kept [OF lo i(1) ok(3,4)]
  have above: "precedence_of t' l = precedence_of t' ref + kStep" if "add_level_above mem ref t = (Inr l, t')"
    using ord [OF ref] j that by (simp add: i_def precedence_of_def)
  have below: "precedence_of t' l + kStep = precedence_of t' ref" if below: "add_level_below mem ref t = (Inr l, t')"
  proof (cases "add_level_above mem ref t = (Inr l, t')")
    case True
    then have "ot_order t' = insert_at j l (ot_order t)" "j \<le> length (ot_order t)"
      using below j insert_level_ok(4) [OF assms(1) _ number_fits_other, where i = j and mem = mem and l = l and t' = t' and n = 0] by (simp_all add: add_level_below_def)
    from insert_level_order [OF lo this(2) ok(3) this(1) ref] j show ?thesis by (simp add: precedence_of_def)
  next
    case False
    then show ?thesis using ord [OF ref] j by (simp add: i_def precedence_of_def)
  qed
  have ent: "unat (operator_precedence t' e) = precedence_of t' (en_level e)" if "e \<in> set (ot_entries t')" for e
    using precedence_of_entry(1) [OF ok(1)] ok(1) that by (simp add: operator_precedence_def table_ok_def entries_ok_def)
  show ?thesis using above below kept ent ok(3) ref by blast
qed

text \<open>Looking an operator up in the grammar is looking its declaration up.\<close>

lemma find_map_filter: "find P (map f (filter Q xs)) = map_option f (find (\<lambda>x. Q x \<and> P (f x)) xs)"
  by (induction xs) auto

lemma find_binary_grammar:
  assumes "table_ok t"
  shows "find_binary (g_binary (ot_grammar t)) tok = (if is_operator_token tok
      then map_option (binary_of t) (find (\<lambda>e. en_category e = C_binary \<and> spelling_of t e = tok_text tok) (ot_entries t)) else None)"
proof -
  have "(ot_grammar t)\<lparr>g_ternary := None\<rparr> = grammar_of t (ot_entries t)"
    using assms by (simp add: table_ok_def views_ok_def views_of_def table_view_def)
  then have "g_binary (ot_grammar t) = map (binary_of t) (of_category C_binary (ot_entries t))"
    by (cases "ot_grammar t") (simp add: grammar_of_def)
  then show ?thesis by (simp add: find_binary_def of_category_def find_map_filter binary_of_def)
qed

lemma find_in_set: "find P xs = Some x \<Longrightarrow> x \<in> set xs \<and> P x"
  by (auto simp: find_Some_iff)

text \<open>A declared binary operator is found: the parser then reads its spelling as that operator, with the precedence of its level
  and its associativity; every other spelling is found as before; and the lexer is told about the spelling.\<close>

theorem add_binary_found:
  assumes "table_ok t" and "length (ot_arena t) + length s < 2 ^ 32" and "add_binary mem s l a t = (Inr (), t')" and "is_operator_token tok"
  shows "find_binary (g_binary (ot_grammar t')) tok =
      (if tok_text tok = s then Some \<lparr>bo_text = s, bo_precedence = of_nat (precedence_of t l), bo_associativity = a\<rparr>
       else find_binary (g_binary (ot_grammar t)) tok)
     \<and> (s \<in> set (ot_keywords t') \<or> s \<in> set (ot_spellings t') \<or> (length s = 1 \<and> is_punctuation t' (hd s)))"
proof -
  have decl: "declare_operator mem C_binary s l a t = (Inr (), t')" using assms(3) by (simp add: add_binary_def)
  note ok = declare_operator_ok [OF assms(1,2) decl]
  obtain e where e: "ot_entries t' = ot_entries t @ [e]" "spelling_of t' e = s" "en_category e = C_binary" "en_level e = l" "en_associativity e = a"
    using ok(6) by blast
  have pre: "find (\<lambda>e. en_category e = C_binary \<and> spelling_of t e = s) (ot_entries t) = None"
    using decl by (auto simp: declare_operator_def precheck_def find_None_iff list_ex_iff split: if_splits option.splits)
  have same: "find (\<lambda>e. en_category e = C_binary \<and> spelling_of t' e = x) (ot_entries t)
      = find (\<lambda>e. en_category e = C_binary \<and> spelling_of t e = x) (ot_entries t)" for x
    by (rule find_cong) (use ok(7) in auto)
  have old: "binary_of t' d = binary_of t d" if "d \<in> set (ot_entries t)" for d
    using ok(2,7) that by (simp add: binary_of_def operator_precedence_def)
  have new: "binary_of t' e = \<lparr>bo_text = s, bo_precedence = of_nat (precedence_of t l), bo_associativity = a\<rparr>"
  proof -
    have "rank_precedence (position_of (ot_order t) l) = of_nat (precedence_of t l)"
      using precedence_of_entry [OF assms(1) ok(4)] by (simp add: word_unat_eq_iff unat_of_nat)
    then show ?thesis using e(2,4,5) ok(2) by (simp add: binary_of_def operator_precedence_def)
  qed
  have "find_binary (g_binary (ot_grammar t')) tok =
      (if tok_text tok = s then Some (binary_of t' e) else find_binary (g_binary (ot_grammar t)) tok)"
    using assms(4) pre old unfolding find_binary_grammar [OF ok(1)] find_binary_grammar [OF assms(1)] e(1) find_append same
    by (auto simp: e dest: find_in_set split: option.splits)
  moreover have "s \<in> set (ot_keywords t') \<or> s \<in> set (ot_spellings t') \<or> (length s = 1 \<and> is_punctuation t' (hd s))"
    using ok(1) e(1,2) by (auto simp: table_ok_def views_ok_def views_of_def table_view_def symbol_spelling_def)
  ultimately show ?thesis using new by simp
qed

text \<open>An example: a table with two levels and one operator, in memory that suffices.\<close>

definition enough_memory :: table_memory where
  "enough_memory = \<lparr>tm_store = (\<lambda>_. True), tm_moves = (\<lambda>_. False), tm_insert = (\<lambda>_. True), tm_rebuild = (\<lambda>_. True), tm_restore = (\<lambda>_. True)\<rparr>"

definition two_levels :: operator_table where
  "two_levels = snd (add_level enough_memory (snd (add_level enough_memory (operator_table_init 4))))"

lemma two_levels_ok: "table_ok two_levels"
proof -
  have m: "memory_ok enough_memory" by (simp add: memory_ok_def enough_memory_def)
  have add: "table_ok (snd (add_level enough_memory t))" if "table_ok t" for t
    using insert_level_table_ok [OF that m, of "length (ot_order t)" False 0] by (simp add: add_level_def)
  show ?thesis unfolding two_levels_def by (intro add operator_table_init_ok)
qed

theorem operator_table_invariant_witness:
  "let c = Declare C_binary ''div'' 1 A_left
   in table_ok (change enough_memory c two_levels) \<and> change_succeeds enough_memory c two_levels \<and> views_live (change enough_memory c two_levels)"
proof -
  let ?c = "Declare C_binary ''div'' 1 A_left"
  have s: "change_succeeds enough_memory ?c two_levels" and "length (ot_arena two_levels) = 0" by code_simp+
  then have "length (ot_arena two_levels) + change_text ?c < 2 ^ 32" "change_memory_ok enough_memory ?c"
    by (simp_all add: memory_ok_def enough_memory_def)
  then show ?thesis using operator_table_invariant [OF two_levels_ok, of enough_memory ?c] s by simp
qed

theorem level_inserted_in_place_witness:
  "let (res, t) = add_level_above enough_memory 0 two_levels
   in res = Inr 2 \<and> precedence_of t 2 = precedence_of t 0 + kStep \<and> precedence_of t 2 < precedence_of t 1"
proof -
  have r: "fst (add_level_above enough_memory 0 two_levels) = Inr 2" by code_simp
  obtain t where t: "add_level_above enough_memory 0 two_levels = (Inr 2, t)"
    using r by (cases "add_level_above enough_memory 0 two_levels") simp
  have "precedence_of (snd (add_level_above enough_memory 0 two_levels)) 2 < precedence_of (snd (add_level_above enough_memory 0 two_levels)) 1"
    by code_simp
  then show ?thesis using level_inserted_in_place [OF two_levels_ok, of enough_memory 0 2 t] t by simp
qed

theorem add_binary_found_witness:
  "find_binary (g_binary (ot_grammar (snd (add_binary enough_memory ''div'' 1 A_left two_levels))))
      \<lparr>tok_kind = T_keyword, tok_text = ''div'', tok_offset = 0, tok_line = 1, tok_column = 1\<rparr>
    = Some \<lparr>bo_text = ''div'', bo_precedence = 12, bo_associativity = A_left\<rparr>"
proof -
  let ?tok = "\<lparr>tok_kind = T_keyword, tok_text = ''div'', tok_offset = 0, tok_line = 1, tok_column = 1\<rparr>"
  obtain t where t: "add_binary enough_memory ''div'' 1 A_left two_levels = (Inr (), t)"
  proof -
    have "fst (add_binary enough_memory ''div'' 1 A_left two_levels) = Inr ()" by code_simp
    then show ?thesis using that by (cases "add_binary enough_memory ''div'' 1 A_left two_levels") simp
  qed
  have "length (ot_arena two_levels) = 0" "precedence_of two_levels 1 = 12" by code_simp+
  then show ?thesis using add_binary_found [OF two_levels_ok _ t, of ?tok] t by (simp add: is_operator_token_def)
qed

text \<open>What a numeric declaration can leave behind when it fails after its level was made: the table with that one level more.\<close>

definition one_level_more :: "u8 \<Rightarrow> operator_table \<Rightarrow> operator_table \<Rightarrow> bool" where
  "one_level_more n t t' \<longleftrightarrow> (\<exists>i l. i \<le> length (ot_order t) \<and> l \<notin> set (ot_order t) \<and> ot_order t' = insert_at i l (ot_order t)
     \<and> ot_levels t' = ot_levels t @ [\<lparr>li_numeric = True, li_number = n\<rparr>] \<and> ot_generation t' = ot_generation t + 1)
     \<and> ot_entries t' = ot_entries t \<and> ot_arena t' = ot_arena t \<and> ot_punctuation t' = ot_punctuation t \<and> ot_ternary t' = ot_ternary t
     \<and> ot_spellings t' = ot_spellings t \<and> ot_keywords t' = ot_keywords t \<and> table_ok t'"

lemma insert_level_one_more:
  assumes "table_ok t" and "i \<le> length (ot_order t)" and "number_fits t i True n" and "insert_level mem i True n t = (Inr l, t')"
  shows "one_level_more n t t'"
proof -
  note ok = insert_level_ok [OF assms]
  let ?t1 = "t\<lparr>ot_levels := ot_levels t @ [\<lparr>li_numeric = True, li_number = n\<rparr>],
      ot_order := insert_at i (of_nat (length (ot_levels t))) (ot_order t)\<rparr>"
  have r: "rebuild (tm_rebuild mem) True ?t1 = (True, t')"
    using assms(4) by (auto simp: insert_level_def Let_def split: if_splits prod.splits)
  note f = rebuild_ok [OF r]
  have same: "spelling_of t' = spelling_of t" "symbol_spelling t' = symbol_spelling t"
    using f(1) by (auto simp: same_declarations_def spelling_of_def symbol_spelling_def is_punctuation_def fun_eq_iff)
  have v: "views_of t (ot_entries t) (table_view t)" "views_of t' (ot_entries t) (table_view t')"
    using assms(1) ok(1,5) by (auto simp: table_ok_def views_ok_def)
  have "ot_spellings t' = ot_spellings t" using v same by (simp add: views_of_def table_view_def)
  moreover have "ot_keywords t' = ot_keywords t"
    using v same by (intro sorted_distinct_set_unique) (auto simp: views_of_def table_view_def strict_sorted_iff)
  ultimately show ?thesis using ok f(1,5) assms(2) unfolding one_level_more_def same_declarations_def by auto
qed

lemma declare_numeric_failed:
  assumes "table_ok t" and "memory_ok mem" and "memory_ok mem'" and "declare_numeric mem mem' kind s n a t = (Inl msg, t')"
  shows "unchanged t t' \<or> (\<exists>t1. one_level_more n t t1 \<and> unchanged t1 t')"
proof (cases "precheck kind s t")
  case None
  have v: "views_ok t" and m: "\<And>k. tm_restore mem k" "\<And>k. tm_restore mem' k" using assms(1-3) by (auto simp: table_ok_def memory_ok_def)
  note failed = declare_operator_failed [OF _ m(2)]
  show ?thesis
  proof (rule level_for_number_cases [OF assms(1), where mem = mem and n = n])
    fix l assume "level_for_number mem n t = (Inr l, t)"
    then show ?thesis using assms(4) None failed [OF v] by (auto simp: declare_numeric_def)
  next
    fix i assume i: "level_for_number mem n t = insert_level mem i True n t" "i \<le> length (ot_order t)" "number_fits t i True n"
    obtain res t1 where r: "insert_level mem i True n t = (res, t1)" by fastforce
    show ?thesis
    proof (cases res)
      case (Inl e)
      then show ?thesis using insert_level_failed [OF v m(1) i(2)] r i(1) assms(4) None by (auto simp: declare_numeric_def)
    next
      case (Inr l)
      note more = insert_level_one_more [OF assms(1) i(2,3) r [unfolded Inr]]
      then have "views_ok t1" by (simp add: one_level_more_def table_ok_def)
      then show ?thesis using failed [of t1] more r Inr i(1) assms(4) None by (auto simp: declare_numeric_def)
    qed
  qed
qed (use assms(4) in \<open>simp add: declare_numeric_def\<close>)

text \<open>C19: A change that fails changes nothing a caller can see: the declarations, the levels, the grammar, the keyword and symbol
  lists and the generation count are as before, wherever memory ran out on the way in (the rebuild of the old views needs no
  more storage than they had). The exception is a declaration with a precedence number that makes the level of the number and
  then fails: it leaves that one level behind, with the declarations and lists as before, and nothing else. The views still borrow
  from the block of the arena, unless the text that was appended for the declaration moved it.\<close>

theorem failed_change_unchanged:
  assumes "table_ok t" and "memory_ok mem" and "memory_ok mem'"
  shows "(add_level mem t = (Inl msg, t') \<longrightarrow> unchanged t t' \<and> (views_live t \<longrightarrow> views_live t'))
     \<and> (add_level_above mem l t = (Inl msg, t') \<longrightarrow> unchanged t t' \<and> (views_live t \<longrightarrow> views_live t'))
     \<and> (add_level_below mem l t = (Inl msg, t') \<longrightarrow> unchanged t t' \<and> (views_live t \<longrightarrow> views_live t'))
     \<and> (declare_operator mem kind s l a t = (Inl msg, t') \<longrightarrow>
          unchanged t t' \<and> (views_live t \<and> \<not> tm_moves mem 0 \<longrightarrow> views_live t'))
     \<and> (declare_numeric mem mem' kind s n a t = (Inl msg, t') \<longrightarrow>
          (unchanged t t' \<or> (\<exists>t1. one_level_more n t t1 \<and> unchanged t1 t')) \<and> (views_live t \<and> \<not> tm_moves mem' 0 \<longrightarrow> views_live t'))
     \<and> (set_ternary mem op t = (Inl msg, t') \<longrightarrow>
          unchanged t t' \<and> (views_live t \<and> \<not> tm_moves mem 0 \<and> \<not> tm_moves mem 1 \<longrightarrow> views_live t'))
     \<and> (set_punctuation mem bytes t = (Inl msg, t') \<longrightarrow> unchanged t t' \<and> (views_live t \<longrightarrow> views_live t'))"
proof -
  have v: "views_ok t" and m: "\<And>k. tm_restore mem k" "tm_insert mem 3" using assms by (auto simp: table_ok_def memory_ok_def)
  have lvl: "insert_level mem i num n t = (Inl msg, t') \<Longrightarrow> i \<le> length (ot_order t) \<Longrightarrow> unchanged t t'" for i num n
    using insert_level_failed [OF v m(1)] by blast
  have "add_level_above mem l t = (Inl msg, t') \<longrightarrow> unchanged t t'" "add_level_below mem l t = (Inl msg, t') \<longrightarrow> unchanged t t'"
    using lvl position_of_bound [of "ot_order t" l]
    by (cases "position_of (ot_order t) l"; auto simp: add_level_above_def add_level_below_def Suc_le_eq simp del: position_of_None)+
  moreover have "add_level mem t = (Inl msg, t') \<longrightarrow> unchanged t t'" using lvl [of "length (ot_order t)"] by (simp add: add_level_def)
  moreover have "declare_operator mem kind s l a t = (Inl msg, t') \<Longrightarrow> unchanged t t'"
    by (rule conjunct1 [OF declare_operator_failed [OF v m(1)]])
  moreover note declare_numeric_failed [OF assms, of kind s n a msg t']
    set_ternary_failed [OF v m(1), of op msg t'] set_punctuation_failed [OF v m, of bytes msg t']
  moreover have "add_level mem t = (Inl msg, t') \<Longrightarrow> views_live t \<Longrightarrow> views_live t'"
    "add_level_above mem l t = (Inl msg, t') \<Longrightarrow> views_live t \<Longrightarrow> views_live t'"
    "add_level_below mem l t = (Inl msg, t') \<Longrightarrow> views_live t \<Longrightarrow> views_live t'"
    "set_punctuation mem bytes t = (Inl msg, t') \<Longrightarrow> views_live t \<Longrightarrow> views_live t'"
    using change_live [of mem Add_level t] change_live [of mem "Add_above l" t] change_live [of mem "Add_below l" t]
      change_live [of mem "Set_punctuation bytes" t] by simp_all
  moreover have "declare_operator mem kind s l a t = (Inl msg, t') \<Longrightarrow> views_live t \<Longrightarrow> \<not> tm_moves mem 0 \<Longrightarrow> views_live t'"
    "declare_numeric mem mem' kind s n a t = (Inl msg, t') \<Longrightarrow> views_live t \<Longrightarrow> \<not> tm_moves mem' 0 \<Longrightarrow> views_live t'"
    "set_ternary mem op t = (Inl msg, t') \<Longrightarrow> views_live t \<Longrightarrow> \<not> tm_moves mem 0 \<Longrightarrow> \<not> tm_moves mem 1 \<Longrightarrow> views_live t'"
    using change_live [of mem "Declare kind s l a" t] change_live [of mem "Declare_numeric mem' kind s n a" t]
      change_live [of mem "Set_ternary op" t] by simp_all
  ultimately show ?thesis by (intro conjI impI) blast+
qed

theorem failed_change_unchanged_witness:
  "unchanged two_levels (snd (declare_operator (enough_memory\<lparr>tm_rebuild := (\<lambda>k. False)\<rparr>) C_binary ''div'' 1 A_left two_levels))"
proof -
  let ?mem = "enough_memory\<lparr>tm_rebuild := (\<lambda>k. False)\<rparr>"
  have "fst (declare_operator ?mem C_binary ''div'' 1 A_left two_levels) = Inl table_full" by code_simp
  then obtain t where "declare_operator ?mem C_binary ''div'' 1 A_left two_levels = (Inl table_full, t)"
    by (cases "declare_operator ?mem C_binary ''div'' 1 A_left two_levels") simp
  moreover have "memory_ok ?mem" by (simp add: memory_ok_def enough_memory_def)
  ultimately show ?thesis
    using failed_change_unchanged [OF two_levels_ok, of ?mem enough_memory table_full t 1 C_binary "''div''" A_left]
    by (simp add: memory_ok_def enough_memory_def)
qed

text \<open>Numeric levels: the order of the numbers is the order of the precedences.\<close>

lemma numbers_ordered:
  "sorted_wrt (<) (numbers levels order) \<Longrightarrow> i < length order \<Longrightarrow> j < length order \<Longrightarrow>
   level_number levels (order ! i) = Some m \<Longrightarrow> level_number levels (order ! j) = Some n \<Longrightarrow> m < n \<Longrightarrow> i < j"
proof (induction order arbitrary: i j)
  case (Cons l order)
  show ?case
  proof (cases j)
    case 0
    show ?thesis
    proof (cases i)
      case (Suc k)
      then have "m \<in> set (numbers levels order)" using Cons.prems(2,4) by (force simp: numbers_def List.map_filter_def)
      then show ?thesis using Cons.prems(1,5,6) 0 by (auto simp: numbers_Cons)
    qed (use Cons.prems 0 in simp)
  next
    case (Suc j')
    then show ?thesis using Cons.IH [of "i - 1" j'] Cons.prems by (cases i) (auto simp: numbers_Cons split: option.splits)
  qed
qed simp

lemma distinct_numbers:
  "distinct (numbers levels order) \<Longrightarrow> i < length order \<Longrightarrow> j < length order \<Longrightarrow> i \<noteq> j \<Longrightarrow>
   level_number levels (order ! i) = Some n \<Longrightarrow> level_number levels (order ! j) = Some n \<Longrightarrow> False"
proof (induction order arbitrary: i j)
  case (Cons l order)
  have in_rest: "n \<in> set (numbers levels order)" if "k < length order" "level_number levels (order ! k) = Some n" for k
    using that by (force simp: numbers_def List.map_filter_def)
  show ?case
    using Cons.IH [of "i - 1" "j - 1"] Cons.prems in_rest
    by (cases i; cases j) (auto simp: numbers_Cons split: option.splits)
qed simp

text \<open>Numeric precedences mean what they say: operators declared with numbers get levels whose precedences are ordered as the
  numbers, whatever the order of the declarations and whatever other levels there are, and equal numbers share a level.\<close>

theorem numeric_precedences_ordered:
  assumes "table_ok t" and "k \<in> set (ot_order t)" and "l \<in> set (ot_order t)"
    and "level_number (ot_levels t) k = Some m" and "level_number (ot_levels t) l = Some n"
  shows "(precedence_of t k < precedence_of t l \<longleftrightarrow> m < n) \<and> (m = n \<longrightarrow> k = l)"
proof -
  have lo: "levels_ok t" using assms(1) by (simp add: table_ok_def)
  have s: "sorted_wrt (<) (numbers (ot_levels t) (ot_order t))" and d: "distinct (ot_order t)" using lo by (simp_all add: levels_ok_def)
  obtain i j where p: "position_of (ot_order t) k = Some i" "position_of (ot_order t) l = Some j"
    using position_of_in [OF assms(2)] position_of_in [OF assms(3)] by blast
  then have ij: "i < length (ot_order t)" "j < length (ot_order t)" "ot_order t ! i = k" "ot_order t ! j = l" by (simp_all add: position_of_Some [OF d])
  have less: "m < n \<Longrightarrow> i < j" "n < m \<Longrightarrow> j < i" using numbers_ordered [OF s] ij assms(4,5) by blast+
  have eq: "k = l" if "m = n"
  proof (rule ccontr)
    assume "k \<noteq> l"
    then have "i \<noteq> j" using ij by auto
    have "distinct (numbers (ot_levels t) (ot_order t))" using s by (simp add: strict_sorted_iff)
    then show False using \<open>i \<noteq> j\<close> that ij assms(4,5) distinct_numbers by blast
  qed
  have "precedence_of t k < precedence_of t l \<longleftrightarrow> i < j" using precedence_of_less [OF lo assms(2,3)] p by simp
  then show ?thesis using less eq p by (metis linorder_less_linear option.inject order_less_imp_not_less)
qed

theorem numeric_precedences_ordered_witness:
  "let t = snd (declare_numeric enough_memory enough_memory C_binary ''-'' 10 A_left
             (snd (declare_numeric enough_memory enough_memory C_binary ''*'' 20 A_left (operator_table_init 4))))
   in precedence_of t (level_of t ''-'') < precedence_of t (level_of t ''*'')"
proof -
  define u where "u = snd (declare_numeric enough_memory enough_memory C_binary ''*'' 20 A_left (operator_table_init 4))"
  define t where "t = snd (declare_numeric enough_memory enough_memory C_binary ''-'' 10 A_left u)"
  have m: "memory_ok enough_memory" by (simp add: memory_ok_def enough_memory_def)
  have num: "table_ok (snd (declare_numeric enough_memory enough_memory C_binary s n A_left v))"
    if ok: "table_ok v" and len: "length (ot_arena v) + length s < 2 ^ 32" for s n v
  proof -
    obtain res v1 where r: "level_for_number enough_memory n v = (res, v1)" by fastforce
    note l = level_for_number_table_ok [OF ok m r]
    have "table_ok (snd (declare_operator enough_memory C_binary s x A_left v1))" for x
      using declare_table_ok [OF l(1) m] l(2) len by simp
    then show ?thesis using r l(1) ok by (auto simp: declare_numeric_def split: option.splits sum.splits)
  qed
  have "length (ot_arena u) = 1" unfolding u_def by code_simp
  then have "table_ok t" unfolding t_def u_def by (intro num operator_table_init_ok) (simp_all add: u_def operator_table_init_def)
  moreover have "level_of t ''-'' \<in> set (ot_order t)" "level_of t ''*'' \<in> set (ot_order t)"
    "level_number (ot_levels t) (level_of t ''-'') = Some 10" "level_number (ot_levels t) (level_of t ''*'') = Some 20"
    unfolding t_def u_def by code_simp+
  ultimately show ?thesis using numeric_precedences_ordered [of t "level_of t ''-''" "level_of t ''*''" 10 20]
    by (simp add: t_def u_def Let_def)
qed

text \<open>Two failures that do leave something behind. A numeric declaration that is refused because the table is full has already made
  its level, and a declaration whose text was stored in a moved arena but whose entry did not fit leaves the views borrowing from
  the old block.\<close>

theorem full_table_makes_level:
  "let t = snd (declare_numeric enough_memory enough_memory C_binary ''*'' 20 A_left (operator_table_init 1));
       (res, t') = declare_numeric enough_memory enough_memory C_binary ''-'' 10 A_left t
   in res = Inl table_full \<and> length (ot_order t') = length (ot_order t) + 1 \<and> ot_generation t' = ot_generation t + 1"
  by code_simp

theorem failed_declaration_dangling:
  "let t = snd (add_binary enough_memory ''+'' 0 A_left two_levels);
       (res, t') = add_binary (enough_memory\<lparr>tm_moves := (\<lambda>_. True), tm_insert := (\<lambda>_. False)\<rparr>) ''*'' 1 A_left t
   in ot_view_block t = ot_arena_block t \<and> res = Inl table_full \<and> ot_view_block t' \<noteq> ot_arena_block t'"
  by code_simp

end
