(* ===== verification/String_Decode.thy ===== *)
theory String_Decode
  imports String_Pool
begin

text \<open>
  \<^verbatim>\<open>parsing/string_pool_ref.hpp\<close>: the sink a decoder writes to, the decoders of C, JSON and SQL string bodies, and
  \<^verbatim>\<open>decode_erased\<close> of \<^verbatim>\<open>parsing/string_pool.hpp\<close>, which runs a decoder into a builder of the pool. The append
  callback of the sink is a parameter, a function on the state behind it. The value of a body is given apart from the
  decoders, by a grammar per language (\<open>c_literal\<close>, \<open>json_literal\<close>, \<open>sql_literal\<close>); the locale \<open>literal_decoder\<close> is the
  contract of a decoder towards the pool, and each of the three decoders interprets it.
\<close>

unbundle bit_operations_syntax

section \<open>string_sink\<close>

record 's string_sink =
  sk_target :: 's
  sk_failure :: string

type_synonym 's sink_append = "'s \<Rightarrow> string \<Rightarrow> 's"
type_synonym 's string_decoder = "'s sink_append \<Rightarrow> 's string_sink \<Rightarrow> string \<Rightarrow> 's string_sink"

definition string_sink_init :: "'s \<Rightarrow> 's string_sink" where
  "string_sink_init target = \<lparr>sk_target = target, sk_failure = []\<rparr>"

definition sink_append :: "'s sink_append \<Rightarrow> 's string_sink \<Rightarrow> string \<Rightarrow> 's string_sink" where
  "sink_append wr out piece =
     (if sk_failure out = [] then out\<lparr>sk_target := wr (sk_target out) piece\<rparr> else out)"

definition sink_push_back :: "'s sink_append \<Rightarrow> 's string_sink \<Rightarrow> char \<Rightarrow> 's string_sink" where
  "sink_push_back wr out c = sink_append wr out [c]"

definition sink_fail :: "'s string_sink \<Rightarrow> string \<Rightarrow> 's string_sink" where
  "sink_fail out message = (if sk_failure out = [] then out\<lparr>sk_failure := message\<rparr> else out)"

definition sink_failed :: "'s string_sink \<Rightarrow> bool" where
  "sink_failed out \<longleftrightarrow> sk_failure out \<noteq> []"

section \<open>Bytes\<close>

definition hex_digit_value :: "char \<Rightarrow> int" where
  "hex_digit_value c =
     (if 48 \<le> code c \<and> code c \<le> 57 then of_char c - 48
      else if 97 \<le> code c \<and> code c \<le> 102 then of_char c - 97 + 10
      else if 65 \<le> code c \<and> code c \<le> 70 then of_char c - 65 + 10
      else - 1)"

fun read_hex_loop :: "string \<Rightarrow> nat \<Rightarrow> nat \<Rightarrow> u32 \<Rightarrow> u32 option" where
  "read_hex_loop raw i 0 result = Some result"
| "read_hex_loop raw i (Suc n) result =
     (let digit = hex_digit_value (raw ! i)
      in if digit < 0 then None
         else read_hex_loop raw (Suc i) n (push_bit 4 result OR of_int (digit AND 0xF)))"

definition read_hex :: "string \<Rightarrow> nat \<Rightarrow> nat \<Rightarrow> u32 option" where
  "read_hex raw index n =
     (if index > length raw \<or> n > length raw - index then None else read_hex_loop raw index n 0)"

definition byte_char :: "u32 \<Rightarrow> char" where
  "byte_char v = chr (unat (v AND 0xFF))"

definition put_utf8 :: "'s sink_append \<Rightarrow> 's string_sink \<Rightarrow> u32 \<Rightarrow> 's string_sink" where
  "put_utf8 wr out cp =
     (let put1 = (\<lambda>out v. sink_push_back wr out (byte_char v))
      in if cp < 0x80 then put1 out cp
         else if cp < 0x800 then put1 (put1 out (0xC0 OR drop_bit 6 cp)) (0x80 OR (cp AND 0x3F))
         else if cp < 0x10000
         then put1 (put1 (put1 out (0xE0 OR drop_bit 12 cp)) (0x80 OR (drop_bit 6 cp AND 0x3F))) (0x80 OR (cp AND 0x3F))
         else put1 (put1 (put1 (put1 out (0xF0 OR drop_bit 18 cp)) (0x80 OR (drop_bit 12 cp AND 0x3F)))
                      (0x80 OR (drop_bit 6 cp AND 0x3F))) (0x80 OR (cp AND 0x3F)))"

function run_end :: "char \<Rightarrow> string \<Rightarrow> nat \<Rightarrow> nat" where
  "run_end stop raw j = (if j < length raw \<and> raw ! j \<noteq> stop then run_end stop raw (Suc j) else j)"
  by pat_completeness auto
termination
  by (relation "measure (\<lambda>(stop, raw, j). length raw - j)") auto

declare run_end.simps [simp del]

definition copy_plain_run :: "'s sink_append \<Rightarrow> 's string_sink \<Rightarrow> string \<Rightarrow> nat \<Rightarrow> 's string_sink \<times> nat" where
  "copy_plain_run wr out raw i =
     (let j = run_end (CHR 0x5C) raw i in (sink_append wr out (take (j - i) (drop i raw)), j))"

lemma run_end_ge: "j \<le> run_end stop raw j"
proof (induction stop raw j rule: run_end.induct)
  case (1 stop raw j)
  then show ?case by (subst run_end.simps) (simp add: Suc_leD)
qed

lemma run_end_progress: "i < length raw \<Longrightarrow> run_end stop raw i < j \<Longrightarrow> length raw - j < length raw - i"
  using run_end_ge [of i stop raw] by arith

section \<open>Decoders\<close>

definition c_escape :: "char \<Rightarrow> char option" where
  "c_escape e = map_of
     [(CHR ''n'', CHR 0x0A), (CHR ''t'', CHR 0x09), (CHR ''r'', CHR 0x0D), (CHR ''a'', CHR 0x07), (CHR ''b'', CHR 0x08),
      (CHR ''f'', CHR 0x0C), (CHR ''v'', CHR 0x0B), (CHR ''0'', CHR 0x00), (CHR 0x22, CHR 0x22), (CHR 0x27, CHR 0x27),
      (CHR 0x5C, CHR 0x5C)] e"

function decode_c_loop :: "'s sink_append \<Rightarrow> 's string_sink \<Rightarrow> string \<Rightarrow> nat \<Rightarrow> 's string_sink" where
  "decode_c_loop wr out raw i =
     (if i < length raw \<and> \<not> sink_failed out
      then let out1 = fst (copy_plain_run wr out raw i); i1 = snd (copy_plain_run wr out raw i)
           in if i1 \<ge> length raw then out1
              else if i1 + 1 \<ge> length raw then sink_fail out1 ''bad escape sequence''
              else (case c_escape (raw ! (i1 + 1)) of
                      Some c \<Rightarrow> decode_c_loop wr (sink_push_back wr out1 c) raw (i1 + 2)
                    | None \<Rightarrow>
                        if raw ! (i1 + 1) = CHR ''x''
                        then (case read_hex raw (i1 + 2) 2 of
                                None \<Rightarrow> sink_fail out1 (''bad '' @ [CHR 0x5C] @ ''x escape'')
                              | Some v \<Rightarrow> decode_c_loop wr (sink_push_back wr out1 (byte_char v)) raw (i1 + 2 + 2))
                        else sink_fail out1 ''bad escape sequence'')
      else out)"
  by pat_completeness auto
termination
  by (relation "measure (\<lambda>(wr, out, raw, i). length raw - i)")
    (auto simp: copy_plain_run_def Let_def intro!: run_end_progress [where stop = "CHR 0x5C"])

declare decode_c_loop.simps [simp del]

definition decode_c_escapes :: "'s string_decoder" where
  "decode_c_escapes wr out raw = decode_c_loop wr out raw 0"


definition json_escape :: "char \<Rightarrow> char option" where
  "json_escape e = map_of
     [(CHR 0x22, CHR 0x22), (CHR 0x5C, CHR 0x5C), (CHR ''/'', CHR ''/''), (CHR ''b'', CHR 0x08), (CHR ''f'', CHR 0x0C),
      (CHR ''n'', CHR 0x0A), (CHR ''r'', CHR 0x0D), (CHR ''t'', CHR 0x09)] e"

text \<open>The case \<^verbatim>\<open>'u'\<close> of the switch, behind the two letters of the escape: the code point and the index behind it,
  or the message of the failure.\<close>

definition json_code_point :: "string \<Rightarrow> nat \<Rightarrow> string + u32 \<times> nat" where
  "json_code_point raw i =
     (case read_hex raw i 4 of
        None \<Rightarrow> Inl (''bad '' @ [CHR 0x5C] @ ''u escape'')
      | Some cp \<Rightarrow>
          let unpaired = ''unpaired surrogate in '' @ [CHR 0x5C] @ ''u escape''; i' = i + 4
          in if cp \<ge> 0xD800 \<and> cp \<le> 0xDBFF
             then (if i' + 1 < length raw \<and> raw ! i' = CHR 0x5C \<and> raw ! (i' + 1) = CHR ''u''
                   then (case read_hex raw (i' + 2) 4 of
                           None \<Rightarrow> Inl unpaired
                         | Some low \<Rightarrow>
                             if low \<ge> 0xDC00 \<and> low \<le> 0xDFFF
                             then Inr (0x10000 + push_bit 10 (cp - 0xD800) + (low - 0xDC00), i' + 6)
                             else Inl unpaired)
                   else Inl unpaired)
             else if cp \<ge> 0xDC00 \<and> cp \<le> 0xDFFF then Inl unpaired
             else Inr (cp, i'))"

lemma json_code_point_ge: "json_code_point raw i = Inr (cp, j) \<Longrightarrow> i < j"
  by (auto simp: json_code_point_def Let_def split: option.splits if_splits)

function decode_json_loop :: "'s sink_append \<Rightarrow> 's string_sink \<Rightarrow> string \<Rightarrow> nat \<Rightarrow> 's string_sink" where
  "decode_json_loop wr out raw i =
     (if i < length raw \<and> \<not> sink_failed out
      then let out1 = fst (copy_plain_run wr out raw i); i1 = snd (copy_plain_run wr out raw i)
           in if i1 \<ge> length raw then out1
              else if i1 + 1 \<ge> length raw then sink_fail out1 ''bad escape sequence''
              else (case json_escape (raw ! (i1 + 1)) of
                      Some c \<Rightarrow> decode_json_loop wr (sink_push_back wr out1 c) raw (i1 + 2)
                    | None \<Rightarrow>
                        if raw ! (i1 + 1) = CHR ''u''
                        then (case json_code_point raw (i1 + 2) of
                                Inl message \<Rightarrow> sink_fail out1 message
                              | Inr (cp, j) \<Rightarrow> decode_json_loop wr (put_utf8 wr out1 cp) raw j)
                        else sink_fail out1 ''bad escape sequence'')
      else out)"
  by pat_completeness auto
termination
  by (relation "measure (\<lambda>(wr, out, raw, i). length raw - i)")
    (auto simp: copy_plain_run_def Let_def intro!: run_end_progress [where stop = "CHR 0x5C"] dest!: json_code_point_ge)

declare decode_json_loop.simps [simp del]

definition decode_json_string :: "'s string_decoder" where
  "decode_json_string wr out raw = decode_json_loop wr out raw 0"

function decode_sql_loop :: "'s sink_append \<Rightarrow> 's string_sink \<Rightarrow> string \<Rightarrow> nat \<Rightarrow> 's string_sink" where
  "decode_sql_loop wr out raw i =
     (if i < length raw
      then let j = run_end (CHR 0x27) raw i; out1 = sink_append wr out (take (j - i) (drop i raw))
           in if j \<ge> length raw then out1
              else if j + 1 \<ge> length raw \<or> raw ! (j + 1) \<noteq> CHR 0x27 then sink_fail out1 ''unescaped quote in string''
              else decode_sql_loop wr (sink_push_back wr out1 (CHR 0x27)) raw (j + 2)
      else out)"
  by pat_completeness auto
termination
  by (relation "measure (\<lambda>(wr, out, raw, i). length raw - i)")
    (auto simp: Let_def intro!: run_end_progress [where stop = "CHR 0x27"])

declare decode_sql_loop.simps [simp del]

definition decode_sql_string :: "'s string_decoder" where
  "decode_sql_string wr out raw = decode_sql_loop wr out raw 0"

section \<open>Decoding into the pool\<close>

text \<open>The message of a failed decode is the one of the decoder or the one of the pool.\<close>

definition pool_message :: "pool_error \<Rightarrow> string" where
  "pool_message e = (case e of Pool_full \<Rightarrow> ''string pool full'' | Pool_busy \<Rightarrow> ''string pool busy'')"

definition decode_erased ::
    "pool_memory \<Rightarrow> string_pool \<Rightarrow> string \<Rightarrow> (pool_builder \<times> string_pool) string_decoder
     \<Rightarrow> ((string + nat) \<times> string_pool) option" where
  "decode_erased mem pool raw decoder =
     (let text_out = decoder (builder_append mem) (string_sink_init (pool_begin pool)) raw
      in if sink_failed text_out
         then Some (Inl (sk_failure text_out), snd (builder_abandon (sk_target text_out)))
         else case builder_finish mem (sk_target text_out) of
                None \<Rightarrow> None
              | Some (Inl e, b, q) \<Rightarrow> Some (Inl (pool_message e), q)
              | Some (Inr i, b, q) \<Rightarrow> Some (Inr i, q))"

definition intern_erased :: "pool_memory \<Rightarrow> string_pool \<Rightarrow> string \<Rightarrow> ((string + nat) \<times> string_pool) option" where
  "intern_erased mem pool s =
     (case pool_intern mem pool s of
        None \<Rightarrow> None
      | Some (Inl e, q) \<Rightarrow> Some (Inl (pool_message e), q)
      | Some (Inr i, q) \<Rightarrow> Some (Inr i, q))"

section \<open>The value of a literal\<close>

text \<open>Hexadecimal numbers, and the UTF-8 form of a code point by the arithmetic of RFC 3629.\<close>

definition nibble :: "char \<Rightarrow> nat option" where
  "nibble c =
     (if code c \<in> {48..57} then Some (code c - 48) else if code c \<in> {97..102} then Some (code c - 87)
      else if code c \<in> {65..70} then Some (code c - 55) else None)"

fun hex_number_from :: "nat \<Rightarrow> string \<Rightarrow> nat option" where
  "hex_number_from n [] = Some n"
| "hex_number_from n (c # cs) = (case nibble c of None \<Rightarrow> None | Some d \<Rightarrow> hex_number_from (16 * n + d) cs)"

definition hex_number :: "string \<Rightarrow> nat option" where
  "hex_number s = hex_number_from 0 s"

definition utf8 :: "nat \<Rightarrow> string" where
  "utf8 n = map chr
     (if n < 0x80 then [n]
      else if n < 0x800 then [0xC0 + n div 64, 0x80 + n mod 64]
      else if n < 0x10000 then [0xE0 + n div 4096, 0x80 + n div 64 mod 64, 0x80 + n mod 64]
      else [0xF0 + n div 262144, 0x80 + n div 4096 mod 64, 0x80 + n div 64 mod 64, 0x80 + n mod 64])"

definition surrogate :: "nat \<Rightarrow> bool" where
  "surrogate n \<longleftrightarrow> 0xD800 \<le> n \<and> n \<le> 0xDFFF"

inductive c_literal :: "string \<Rightarrow> string \<Rightarrow> bool" where
  c_empty: "c_literal [] []"
| c_plain: "c \<noteq> CHR 0x5C \<Longrightarrow> c_literal raw v \<Longrightarrow> c_literal (c # raw) (c # v)"
| c_short: "c_escape e = Some c \<Longrightarrow> c_literal raw v \<Longrightarrow> c_literal (CHR 0x5C # e # raw) (c # v)"
| c_hex: "length h = 2 \<Longrightarrow> hex_number h = Some n \<Longrightarrow> c_literal raw v \<Longrightarrow> c_literal (CHR 0x5C # CHR ''x'' # h @ raw) (chr n # v)"

inductive json_literal :: "string \<Rightarrow> string \<Rightarrow> bool" where
  json_empty: "json_literal [] []"
| json_plain: "c \<noteq> CHR 0x5C \<Longrightarrow> json_literal raw v \<Longrightarrow> json_literal (c # raw) (c # v)"
| json_short: "json_escape e = Some c \<Longrightarrow> json_literal raw v \<Longrightarrow> json_literal (CHR 0x5C # e # raw) (c # v)"
| json_unit: "length h = 4 \<Longrightarrow> hex_number h = Some n \<Longrightarrow> \<not> surrogate n \<Longrightarrow> json_literal raw v
    \<Longrightarrow> json_literal (CHR 0x5C # CHR ''u'' # h @ raw) (utf8 n @ v)"
| json_pair: "length h = 4 \<Longrightarrow> hex_number h = Some (0xD800 + a) \<Longrightarrow> a < 0x400 \<Longrightarrow> length l = 4
    \<Longrightarrow> hex_number l = Some (0xDC00 + b) \<Longrightarrow> b < 0x400 \<Longrightarrow> json_literal raw v
    \<Longrightarrow> json_literal (CHR 0x5C # CHR ''u'' # h @ CHR 0x5C # CHR ''u'' # l @ raw) (utf8 (0x10000 + 0x400 * a + b) @ v)"

inductive sql_literal :: "string \<Rightarrow> string \<Rightarrow> bool" where
  sql_empty: "sql_literal [] []"
| sql_plain: "c \<noteq> CHR 0x27 \<Longrightarrow> sql_literal raw v \<Longrightarrow> sql_literal (c # raw) (c # v)"
| sql_quote: "sql_literal raw v \<Longrightarrow> sql_literal (CHR 0x27 # CHR 0x27 # raw) (CHR 0x27 # v)"

inductive_cases c_literal_nilE [elim!]: "c_literal [] v"
inductive_cases c_literal_consE: "c_literal (c # raw) v"
inductive_cases json_literal_nilE [elim!]: "json_literal [] v"
inductive_cases json_literal_consE: "json_literal (c # raw) v"
inductive_cases sql_literal_nilE [elim!]: "sql_literal [] v"
inductive_cases sql_literal_consE: "sql_literal (c # raw) v"

section \<open>Reading and writing code points\<close>

lemma hex_digit_value_nibble: "hex_digit_value c = (case nibble c of None \<Rightarrow> - 1 | Some d \<Rightarrow> int d)"
  by (simp add: hex_digit_value_def nibble_def of_nat_diff of_nat_of_char)

lemma nibble_less: "nibble c = Some d \<Longrightarrow> d < 16"
  by (auto simp: nibble_def split: if_splits)

lemma read_hex_loop_number:
  "i + n \<le> length raw \<Longrightarrow> read_hex_loop raw i n (of_nat m) = map_option of_nat (hex_number_from m (take n (drop i raw)))"
proof (induction n arbitrary: i m)
  case (Suc n)
  then have "i < length raw" by simp
  then have d: "take (Suc n) (drop i raw) = raw ! i # take n (drop (Suc i) raw)"
    unfolding Cons_nth_drop_Suc [OF \<open>i < length raw\<close>, symmetric] by simp
  show ?case
  proof (cases "nibble (raw ! i)")
    case None
    then show ?thesis using d by (simp add: hex_digit_value_nibble)
  next
    case (Some k)
    have k: "k < 16" using Some by (rule nibble_less)
    then have "int k AND 0xF = int k" using take_bit_int_eq_self [of "int k" 4] by (simp add: take_bit_eq_mask mask_eq_exp_minus_1)
    then have "push_bit 4 (of_nat m :: u32) OR of_int (int k AND 0xF) = of_nat (16 * m + k)"
      using k or_push_bit_add [of "of_nat k :: u32" 4 "of_nat m"] by (simp add: unsigned_of_nat take_bit_nat_eq_self)
    then show ?thesis using Some d Suc.IH [of "Suc i" "16 * m + k"] Suc.prems by (simp add: hex_digit_value_nibble)
  qed
qed simp

lemma read_hex_number:
  "read_hex raw i n = (if i + n \<le> length raw then map_option of_nat (hex_number (take n (drop i raw))) else None)"
  using read_hex_loop_number [of i n raw 0] by (auto simp: read_hex_def hex_number_def)

lemma hex_number_from_less: "hex_number_from m s = Some n \<Longrightarrow> n < 16 ^ length s * (m + 1)"
proof (induction s arbitrary: m)
  case (Cons c s)
  then obtain d where d: "nibble c = Some d" "n < 16 ^ length s * (16 * m + d + 1)" by (auto split: option.splits)
  have "16 * m + d + 1 \<le> 16 * (m + 1)" using nibble_less [OF d(1)] by simp
  then have "16 ^ length s * (16 * m + d + 1) \<le> 16 ^ length s * (16 * (m + 1))" by (rule mult_le_mono2)
  then have "n < 16 ^ length s * (16 * (m + 1))" by (rule less_le_trans [OF d(2)])
  then show ?case unfolding list.size(4) add_0_right One_nat_def add_Suc_right power_Suc by (simp only: ac_simps)
qed simp

lemma hex_number_less: "hex_number s = Some n \<Longrightarrow> n < 16 ^ length s"
  using hex_number_from_less [of 0 s n] by (simp add: hex_number_def)

lemma byte_char_small: "unat v < 256 \<Longrightarrow> byte_char v = chr (unat v)"
  using take_bit_nat_eq_self [of "unat v" 8]
  by (simp add: byte_char_def unsigned_and_eq take_bit_eq_mask mask_eq_exp_minus_1)

lemma byte_char_pack:
  assumes "unat x < 2 ^ k" and "a * 2 ^ k + unat x < 256"
  shows "byte_char (push_bit k (of_nat a) OR x) = chr (a * 2 ^ k + unat x)"
proof -
  have "push_bit k (of_nat a) OR x = (of_nat (a * 2 ^ k + unat x) :: u32)"
    using or_push_bit_add [OF assms(1), of "of_nat a"] by simp
  moreover have "unat (of_nat m :: u32) = m" if "m < 256" for m
    using that by (simp add: unsigned_of_nat take_bit_nat_eq_self)
  ultimately show ?thesis using byte_char_small assms(2) by metis
qed

lemma lead_bytes:
  "unat x < 32 \<Longrightarrow> byte_char (0xC0 OR x) = chr (0xC0 + unat x)"
  "unat x < 16 \<Longrightarrow> byte_char (0xE0 OR x) = chr (0xE0 + unat x)"
  "unat x < 8 \<Longrightarrow> byte_char (0xF0 OR x) = chr (0xF0 + unat x)"
  using byte_char_pack [of x 5 6] byte_char_pack [of x 4 14] byte_char_pack [of x 3 30] by simp_all

lemma continuation_byte: "byte_char (0x80 OR (x AND 0x3F)) = chr (0x80 + unat x mod 64)"
proof -
  have m: "unat (x AND 0x3F) = unat x mod 64"
    using take_bit_eq_mod [of 6 "unat x"] by (simp add: unsigned_and_eq take_bit_eq_mask mask_eq_exp_minus_1)
  have "unat x mod 64 < 64" by simp
  then show ?thesis using byte_char_pack [of "x AND 0x3F" 6 2] by (simp add: m)
qed

text \<open>What a sink holds after the given writes.\<close>

definition after :: "'s sink_append \<Rightarrow> 's string_sink \<Rightarrow> string list \<Rightarrow> 's string_sink" where
  "after wr out pieces = out\<lparr>sk_target := foldl wr (sk_target out) pieces\<rparr>"

lemma after_simps [simp]:
  "after wr out [] = out" "after wr (after wr out ps) qs = after wr out (ps @ qs)"
  "sink_failed (after wr out ps) = sink_failed out" "sk_target (after wr out ps) = foldl wr (sk_target out) ps"
  by (simp_all add: after_def sink_failed_def)

lemma sink_append_after [simp]: "\<not> sink_failed out \<Longrightarrow> sink_append wr out piece = after wr out [piece]"
  by (simp add: sink_append_def sink_failed_def after_def)

lemma sink_push_back_after [simp]: "\<not> sink_failed out \<Longrightarrow> sink_push_back wr out c = after wr out [[c]]"
  by (simp add: sink_push_back_def)

lemma sink_fail_failed [simp]:
  "message \<noteq> [] \<Longrightarrow> sink_failed (sink_fail out message)" "sk_target (sink_fail out message) = sk_target out"
  by (simp_all add: sink_fail_def sink_failed_def)

lemma concat_singletons [simp]: "concat (map (\<lambda>c. [c]) s) = s"
  by (induction s) simp_all

lemma put_utf8_after:
  assumes "\<not> sink_failed out" and "n < 0x110000"
  shows "put_utf8 wr out (of_nat n) = after wr out (map (\<lambda>c. [c]) (utf8 n))"
proof -
  let ?w = "of_nat n :: u32"
  have w: "unat ?w = n" using assms(2) by (simp add: unsigned_of_nat take_bit_nat_eq_self)
  have lt: "(?w < k) = (n < unat k)" for k by (simp add: word_less_nat_alt w)
  have sh: "unat (drop_bit k ?w) = n div 2 ^ k" for k by (simp add: unat_drop_bit_div w)
  show ?thesis
    using assms lead_bytes(1) [of "drop_bit 6 ?w"] lead_bytes(2) [of "drop_bit 12 ?w"] lead_bytes(3) [of "drop_bit 18 ?w"]
    by (simp add: put_utf8_def utf8_def lt sh w continuation_byte byte_char_small Let_def div_less_iff_less_mult)
qed

section \<open>Decoding follows the grammar\<close>

lemma run_end_run:
  "set (take (run_end stop raw i - i) (drop i raw)) \<subseteq> - {stop}"
  "run_end stop raw i < length raw \<Longrightarrow> raw ! run_end stop raw i = stop"
  "i \<le> length raw \<Longrightarrow> run_end stop raw i \<le> length raw"
proof (induction stop raw i rule: run_end.induct)
  case (1 stop raw i)
  {
    case 1
    show ?case
    proof (cases "i < length raw \<and> raw ! i \<noteq> stop")
      case True
      then have e: "run_end stop raw i = run_end stop raw (Suc i)" by (subst run_end.simps) simp
      have d: "drop i raw = raw ! i # drop (Suc i) raw" using True by (simp add: Cons_nth_drop_Suc)
      have "run_end stop raw (Suc i) - i = Suc (run_end stop raw (Suc i) - Suc i)" using run_end_ge [of "Suc i" stop raw] by simp
      then show ?thesis using "1.IH"(1) True unfolding e d by auto
    qed (subst run_end.simps, auto)
  next
    case 2
    then show ?case using "1.IH"(2) by (cases "i < length raw \<and> raw ! i \<noteq> stop") (simp_all add: run_end.simps [of stop raw i])
  next
    case 3
    then show ?case using "1.IH"(3) by (cases "i < length raw \<and> raw ! i \<noteq> stop") (simp_all add: run_end.simps [of stop raw i])
  }
qed

text \<open>The loops cut the rest of the body into a run without the escape character and what follows it.\<close>

lemma run_split:
  assumes "i < length raw" and "j = run_end stop raw i"
  obtains run where "run = take (j - i) (drop i raw)" "drop i raw = run @ drop j raw" "stop \<notin> set run" "i \<le> j" "j \<le> length raw"
    "j < length raw \<Longrightarrow> drop j raw = stop # drop (Suc j) raw"
proof -
  let ?run = "take (j - i) (drop i raw)"
  have ij: "i \<le> j" using run_end_ge assms(2) by simp
  have d: "drop i raw = ?run @ drop j raw" using ij by (metis append_take_drop_id drop_drop le_add_diff_inverse2)
  have r: "stop \<notin> set ?run" using run_end_run(1) [where stop = stop and raw = raw and i = i] assms(2) by auto
  have n: "j < length raw \<Longrightarrow> drop j raw = stop # drop (Suc j) raw"
    using run_end_run(2) [where stop = stop and raw = raw and i = i] assms(2) by (metis Cons_nth_drop_Suc)
  have "j \<le> length raw" using run_end_run(3) [where stop = stop and raw = raw and i = i] assms by simp
  from that [OF refl d r ij this n] show thesis by blast
qed

lemma c_literal_escape:
  "\<not> c_literal [CHR 0x5C] v"
  "c_escape e = Some c \<Longrightarrow> c_literal (CHR 0x5C # e # raw) v \<longleftrightarrow> (\<exists>u. v = c # u \<and> c_literal raw u)"
  "c_escape e = None \<Longrightarrow> e \<noteq> CHR ''x'' \<Longrightarrow> \<not> c_literal (CHR 0x5C # e # raw) v"
  "c_literal (CHR 0x5C # CHR ''x'' # raw) v \<longleftrightarrow>
     (\<exists>n u. 2 \<le> length raw \<and> hex_number (take 2 raw) = Some n \<and> v = chr n # u \<and> c_literal (drop 2 raw) u)"
proof -
  have x: "c_escape (CHR ''x'') = None" by (simp add: c_escape_def)
  show "\<not> c_literal [CHR 0x5C] v" by (auto elim: c_literal_consE)
  show "c_escape e = Some c \<Longrightarrow> c_literal (CHR 0x5C # e # raw) v \<longleftrightarrow> (\<exists>u. v = c # u \<and> c_literal raw u)"
    using x by (auto elim: c_literal_consE intro: c_short)
  show "c_escape e = None \<Longrightarrow> e \<noteq> CHR ''x'' \<Longrightarrow> \<not> c_literal (CHR 0x5C # e # raw) v"
    by (auto elim: c_literal_consE)
  show "c_literal (CHR 0x5C # CHR ''x'' # raw) v \<longleftrightarrow>
     (\<exists>n u. 2 \<le> length raw \<and> hex_number (take 2 raw) = Some n \<and> v = chr n # u \<and> c_literal (drop 2 raw) u)"
  proof
    assume "c_literal (CHR 0x5C # CHR ''x'' # raw) v"
    then show "\<exists>n u. 2 \<le> length raw \<and> hex_number (take 2 raw) = Some n \<and> v = chr n # u \<and> c_literal (drop 2 raw) u"
      using x by (auto elim: c_literal_consE)
  next
    assume "\<exists>n u. 2 \<le> length raw \<and> hex_number (take 2 raw) = Some n \<and> v = chr n # u \<and> c_literal (drop 2 raw) u"
    then show "c_literal (CHR 0x5C # CHR ''x'' # raw) v" using c_hex [of "take 2 raw" _ "drop 2 raw"] by auto
  qed
qed

text \<open>A decoder that starts with the sink \<open>out\<close> on \<open>raw\<close> and ends with \<open>out'\<close> has read the value of \<open>raw\<close>.\<close>

definition follows :: "(string \<Rightarrow> string \<Rightarrow> bool) \<Rightarrow> 's sink_append \<Rightarrow> 's string_sink \<Rightarrow> string \<Rightarrow> 's string_sink \<Rightarrow> bool" where
  "follows literal wr out raw out' \<longleftrightarrow>
     (\<exists>pieces. sk_target out' = foldl wr (sk_target out) pieces
        \<and> (\<forall>v. literal raw v \<longleftrightarrow> \<not> sink_failed out' \<and> v = concat pieces))"

lemma follows_step:
  assumes "follows literal wr (after wr out ps) raw' out'"
    and "\<And>v. literal raw v \<longleftrightarrow> (\<exists>u. v = concat ps @ u \<and> literal raw' u)"
  shows "follows literal wr out raw out'"
proof -
  from assms(1) obtain qs where q: "sk_target out' = foldl wr (sk_target (after wr out ps)) qs"
    "\<forall>v. literal raw' v \<longleftrightarrow> \<not> sink_failed out' \<and> v = concat qs" unfolding follows_def by blast
  show ?thesis unfolding follows_def using q assms(2) by (intro exI [of _ "ps @ qs"]) auto
qed

lemma follows_end: "\<not> sink_failed out \<Longrightarrow> (\<And>v. literal raw v \<longleftrightarrow> v = concat ps) \<Longrightarrow> follows literal wr out raw (after wr out ps)"
  unfolding follows_def by (intro exI [of _ ps]) auto

lemma follows_fail: "(\<And>v. \<not> literal raw v) \<Longrightarrow> message \<noteq> [] \<Longrightarrow> follows literal wr out raw (sink_fail (after wr out ps) message)"
  unfolding follows_def by (intro exI [of _ ps]) auto

text \<open>What the three grammars have in common: text without the escape character stands for itself.\<close>

locale escaped_text =
  fixes literal :: "string \<Rightarrow> string \<Rightarrow> bool" and stop :: char
  assumes nil: "literal [] v \<longleftrightarrow> v = []"
    and plain: "c \<noteq> stop \<Longrightarrow> literal (c # raw) v \<longleftrightarrow> (\<exists>u. v = c # u \<and> literal raw u)"
    and bare: "\<not> literal [stop] v"
begin

lemma run: "stop \<notin> set body \<Longrightarrow> literal (body @ raw) v \<longleftrightarrow> (\<exists>u. v = body @ u \<and> literal raw u)"
  by (induction body arbitrary: v) (auto simp: plain)

lemma follows_run:
  assumes "i < length raw" and "\<not> sink_failed out" and "j = run_end stop raw i"
    and o_def: "out1 = after wr out [take (j - i) (drop i raw)]"
  shows "j \<ge> length raw \<Longrightarrow> follows literal wr out (drop i raw) (after wr out [drop i raw])"
    and "j < length raw \<Longrightarrow> Suc j \<ge> length raw \<Longrightarrow> message \<noteq> [] \<Longrightarrow> follows literal wr out (drop i raw) (sink_fail out1 message)"
    and "Suc j < length raw \<Longrightarrow> follows literal wr out1 (stop # raw ! Suc j # drop (j + 2) raw) out' \<Longrightarrow> follows literal wr out (drop i raw) out'"
proof -
  from run_split [OF assms(1,3)]
  obtain body where r: "body = take (j - i) (drop i raw)" "drop i raw = body @ drop j raw" "stop \<notin> set body"
    "j < length raw \<Longrightarrow> drop j raw = stop # drop (Suc j) raw" by metis
  note lit = run [OF r(3)]
  have o: "out1 = after wr out [body]" by (simp add: o_def r(1))
  show "j \<ge> length raw \<Longrightarrow> follows literal wr out (drop i raw) (after wr out [drop i raw])"
    using assms(2) r(2) lit [of "[]"] by (simp add: follows_end nil)
  show "follows literal wr out (drop i raw) (sink_fail out1 message)" if "j < length raw" "Suc j \<ge> length raw" "message \<noteq> []"
    unfolding o using that lit bare r(2,4) by (intro follows_fail) simp_all
  show "follows literal wr out (drop i raw) out'"
    if "Suc j < length raw" "follows literal wr out1 (stop # raw ! Suc j # drop (j + 2) raw) out'"
  proof -
    have "drop i raw = body @ stop # raw ! Suc j # drop (j + 2) raw" using r(2,4) that(1) by (simp add: Cons_nth_drop_Suc)
    then show ?thesis using that(2) unfolding o by (elim follows_step) (simp add: lit)
  qed
qed

end

interpretation c: escaped_text c_literal "CHR 0x5C"
  by unfold_locales (auto elim: c_literal_consE intro: c_literal.intros)

interpretation json: escaped_text json_literal "CHR 0x5C"
  by unfold_locales (auto elim: json_literal_consE intro: json_literal.intros)

interpretation sql: escaped_text sql_literal "CHR 0x27"
  by unfold_locales (auto elim: sql_literal_consE intro: sql_literal.intros)

lemma copy_plain_run_after [simp]:
  "\<not> sink_failed out \<Longrightarrow> copy_plain_run wr out raw i =
     (after wr out [take (run_end (CHR 0x5C) raw i - i) (drop i raw)], run_end (CHR 0x5C) raw i)"
  by (simp add: copy_plain_run_def Let_def)

lemma decode_c_loop_follows: "\<not> sink_failed out \<Longrightarrow> follows c_literal wr out (drop i raw) (decode_c_loop wr out raw i)"
proof (induction wr out raw i rule: decode_c_loop.induct)
  case (1 wr out raw i)
  let ?j = "run_end (CHR 0x5C) raw i"
  let ?out = "after wr out [take (?j - i) (drop i raw)]" and ?e = "raw ! Suc ?j" and ?rest = "drop (?j + 2) raw"
  note ok = "1.prems" and loop = decode_c_loop.simps [of wr out raw i, unfolded Let_def]
  show ?case
  proof (cases "i < length raw \<and> Suc ?j < length raw")
    case False
    then show ?thesis using ok follows_end [of out c_literal "[]" "[]" wr]
      by (auto simp: loop c.nil not_less not_le intro: c.follows_run(1,2) [OF _ ok refl refl])
  next
    case True
    have "follows c_literal wr ?out (CHR 0x5C # ?e # ?rest) (decode_c_loop wr out raw i)"
    proof (cases "c_escape ?e")
      case (Some x)
      have "follows c_literal wr (after wr ?out [[x]]) ?rest (decode_c_loop wr out raw i)"
        using "1.IH"(2) [OF _ refl refl, of x] True ok Some by (simp add: loop)
      then show ?thesis by (rule follows_step) (simp add: c_literal_escape(2) [OF Some])
    next
      case None
      show ?thesis
      proof (cases "?e = CHR ''x'' \<and> read_hex raw (?j + 2) 2 \<noteq> None")
        case x: True
        then obtain n where n: "read_hex raw (?j + 2) 2 = Some (of_nat n)" "hex_number (take 2 ?rest) = Some n"
          "?j + 4 \<le> length raw" by (auto simp: read_hex_number split: if_splits)
        have "length (take 2 ?rest) = 2" using n(3) by simp
        then have "n < 256" using hex_number_less [OF n(2)] by simp
        then have b: "byte_char (of_nat n) = chr n" by (simp add: byte_char_small unsigned_of_nat take_bit_nat_eq_self)
        have "follows c_literal wr (after wr ?out [[chr n]]) (drop (?j + 2 + 2) raw) (decode_c_loop wr out raw i)"
          using "1.IH"(1) [OF _ refl refl, of "of_nat n"] True ok None x n(1) b by (simp add: loop)
        then show ?thesis using x n by (elim follows_step) (auto simp: c_literal_escape(4) numeral_2_eq_2)
      next
        case False
        then have "\<not> c_literal (CHR 0x5C # ?e # ?rest) v" for v
          using c_literal_escape(3) [OF None] c_literal_escape(4) [of ?rest v]
          by (cases "?e = CHR ''x''") (auto simp: read_hex_number split: if_splits)
        then have "follows c_literal wr ?out (CHR 0x5C # ?e # ?rest) (sink_fail (after wr ?out []) message)"
          if "message \<noteq> []" for message using that by (intro follows_fail) simp_all
        then show ?thesis using True ok None False by (auto simp: loop)
      qed
    qed
    then show ?thesis using c.follows_run(3) [OF _ ok refl refl] True by blast
  qed
qed

text \<open>The code point of a \<open>\u\<close> escape, behind its two letters, and its length.\<close>

definition json_point :: "string \<Rightarrow> (nat \<times> nat) option" where
  "json_point raw =
     (case hex_number (take 4 raw) of
        None \<Rightarrow> None
      | Some a \<Rightarrow>
          if length raw < 4 then None
          else if \<not> surrogate a then Some (a, 4)
          else (case hex_number (take 4 (drop 6 raw)) of
                 None \<Rightarrow> None
               | Some b \<Rightarrow>
                   if a < 0xDC00 \<and> 10 \<le> length raw \<and> raw ! 4 = CHR 0x5C \<and> raw ! 5 = CHR ''u'' \<and> 0xDC00 \<le> b \<and> b \<le> 0xDFFF
                   then Some (0x10000 + 0x400 * (a - 0xD800) + (b - 0xDC00), 10) else None))"

lemma json_point_less: "json_point raw = Some (n, k) \<Longrightarrow> n < 0x110000"
proof -
  assume a: "json_point raw = Some (n, k)"
  have "hex_number (take 4 raw) = Some m \<Longrightarrow> 4 \<le> length raw \<Longrightarrow> m < 0x10000" for m
    using hex_number_less [of "take 4 raw" m] by simp
  then show ?thesis using a
    by (fastforce simp: json_point_def surrogate_def split: option.splits if_splits)
qed

lemma word_bounds:
  assumes "n < 0x110000"
  shows "((of_nat n :: u32) \<ge> 0xD800) = (n \<ge> 0xD800)" "((of_nat n :: u32) \<le> 0xDBFF) = (n \<le> 0xDBFF)"
    "((of_nat n :: u32) \<ge> 0xDC00) = (n \<ge> 0xDC00)" "((of_nat n :: u32) \<le> 0xDFFF) = (n \<le> 0xDFFF)"
  using assms by (simp_all add: word_le_nat_alt unsigned_of_nat take_bit_nat_eq_self)

lemma surrogate_pair_value:
  assumes "0xD800 \<le> a" and "a < 0xDC00" and "0xDC00 \<le> b" and "b \<le> 0xDFFF"
  shows "0x10000 + push_bit 10 (of_nat a - 0xD800) + (of_nat b - 0xDC00) = (of_nat (0x10000 + 0x400 * (a - 0xD800) + (b - 0xDC00)) :: u32)"
  using assms by (simp add: push_bit_eq_mult of_nat_diff mult.commute)

lemma json_code_point_value:
  "case json_point (drop i raw) of
     None \<Rightarrow> \<exists>message. message \<noteq> [] \<and> json_code_point raw i = Inl message
   | Some (n, k) \<Rightarrow> json_code_point raw i = Inr (of_nat n, i + k)"
proof (cases "read_hex raw i 4")
  case None
  then have "json_point (drop i raw) = None" by (auto simp: read_hex_number json_point_def split: option.splits if_splits)
  then show ?thesis using None by (simp add: json_code_point_def)
next
  case (Some w)
  then obtain a where a: "w = of_nat a" "hex_number (take 4 (drop i raw)) = Some a" "i + 4 \<le> length raw"
    by (auto simp: read_hex_number split: if_splits)
  have less: "n < 0x10000" if "hex_number (take 4 (drop k raw)) = Some n" "k + 4 \<le> length raw" for n k
    using hex_number_less [OF that(1)] that(2) by simp
  have "a < 0x110000" using less [OF a(2,3)] by simp
  note cmp = word_bounds [OF this]
  show ?thesis
  proof (cases "0xD800 \<le> a \<and> a < 0xDC00")
    case False
    then show ?thesis using Some a by (auto simp: json_code_point_def json_point_def surrogate_def Let_def cmp split: option.splits)
  next
    case True
    show ?thesis
    proof (cases "read_hex raw (i + 6) 4")
      case None
      then show ?thesis using Some a True
        by (auto simp: json_code_point_def json_point_def surrogate_def Let_def cmp read_hex_number add.commute split: option.splits if_splits)
    next
      case (Some v)
      then obtain b where b: "v = of_nat b" "hex_number (take 4 (drop (i + 6) raw)) = Some b" "i + 10 \<le> length raw"
        by (auto simp: read_hex_number split: if_splits)
      have "b < 0x110000" using less [OF b(2)] b(3) by simp
      note cmp_b = word_bounds [OF this]
      show ?thesis using \<open>read_hex raw i 4 = Some w\<close> Some a b True surrogate_pair_value [of a b]
        by (auto simp: json_code_point_def json_point_def surrogate_def Let_def cmp cmp_b add.commute)
    qed
  qed
qed

lemma json_literal_escape:
  "json_escape e = Some c \<Longrightarrow> json_literal (CHR 0x5C # e # raw) v \<longleftrightarrow> (\<exists>u. v = c # u \<and> json_literal raw u)"
  "json_escape e = None \<Longrightarrow> e \<noteq> CHR ''u'' \<Longrightarrow> \<not> json_literal (CHR 0x5C # e # raw) v"
  "json_literal (CHR 0x5C # CHR ''u'' # raw) v \<longleftrightarrow>
     (\<exists>n k u. json_point raw = Some (n, k) \<and> v = utf8 n @ u \<and> json_literal (drop k raw) u)"
proof -
  have x: "json_escape (CHR ''u'') = None" by (simp add: json_escape_def)
  show "json_escape e = Some c \<Longrightarrow> json_literal (CHR 0x5C # e # raw) v \<longleftrightarrow> (\<exists>u. v = c # u \<and> json_literal raw u)"
    using x by (auto elim: json_literal_consE intro: json_short)
  show "json_escape e = None \<Longrightarrow> e \<noteq> CHR ''u'' \<Longrightarrow> \<not> json_literal (CHR 0x5C # e # raw) v"
    by (auto elim: json_literal_consE)
  show "json_literal (CHR 0x5C # CHR ''u'' # raw) v \<longleftrightarrow>
     (\<exists>n k u. json_point raw = Some (n, k) \<and> v = utf8 n @ u \<and> json_literal (drop k raw) u)" (is "_ = ?r")
  proof
    assume "json_literal (CHR 0x5C # CHR ''u'' # raw) v"
    then show ?r using x by (cases rule: json_literal_consE) (auto simp: json_point_def surrogate_def nth_append)
  next
    assume ?r
    then obtain n k u where p: "json_point raw = Some (n, k)" "v = utf8 n @ u" "json_literal (drop k raw) u" by blast
    obtain a where a: "hex_number (take 4 raw) = Some a" "4 \<le> length raw" using p(1)
      by (auto simp: json_point_def split: option.splits if_splits)
    show "json_literal (CHR 0x5C # CHR ''u'' # raw) v"
    proof (cases "surrogate a")
      case False
      then show ?thesis using p a json_unit [of "take 4 raw" a "drop 4 raw" u] by (simp add: json_point_def)
    next
      case True
      then obtain b where b: "hex_number (take 4 (drop 6 raw)) = Some b" "a < 0xDC00" "10 \<le> length raw" "raw ! 4 = CHR 0x5C"
        "raw ! 5 = CHR ''u''" "0xDC00 \<le> b" "b \<le> 0xDFFF" "n = 0x10000 + 0x400 * (a - 0xD800) + (b - 0xDC00)" "k = 10"
        using p(1) a by (auto simp: json_point_def split: option.splits if_splits)
      have "drop 4 raw = raw ! 4 # raw ! 5 # drop 6 raw" using b(3)
        by (simp add: Cons_nth_drop_Suc [symmetric] numeral_eq_Suc)
      moreover have "drop 6 raw = take 4 (drop 6 raw) @ drop 10 raw" using append_take_drop_id [of 4 "drop 6 raw"] by simp
      ultimately have "raw = take 4 raw @ CHR 0x5C # CHR ''u'' # take 4 (drop 6 raw) @ drop 10 raw"
        using append_take_drop_id [of 4 raw] b(4,5) by metis
      moreover have "json_literal (CHR 0x5C # CHR ''u'' # take 4 raw @ CHR 0x5C # CHR ''u'' # take 4 (drop 6 raw) @ drop 10 raw) v"
        using json_pair [of "take 4 raw" "a - 0xD800" "take 4 (drop 6 raw)" "b - 0xDC00" "drop 10 raw" u] a b p True
        by (simp add: surrogate_def)
      ultimately show ?thesis by metis
    qed
  qed
qed

lemma decode_json_loop_follows: "\<not> sink_failed out \<Longrightarrow> follows json_literal wr out (drop i raw) (decode_json_loop wr out raw i)"
proof (induction wr out raw i rule: decode_json_loop.induct)
  case (1 wr out raw i)
  let ?j = "run_end (CHR 0x5C) raw i"
  let ?out = "after wr out [take (?j - i) (drop i raw)]" and ?e = "raw ! Suc ?j" and ?rest = "drop (?j + 2) raw"
  note ok = "1.prems" and loop = decode_json_loop.simps [of wr out raw i, unfolded Let_def]
  show ?case
  proof (cases "i < length raw \<and> Suc ?j < length raw")
    case False
    then show ?thesis using ok follows_end [of out json_literal "[]" "[]" wr]
      by (auto simp: loop json.nil not_less not_le intro: json.follows_run(1,2) [OF _ ok refl refl])
  next
    case True
    have fail: "follows json_literal wr ?out (CHR 0x5C # ?e # ?rest) (sink_fail ?out message)"
      if "message \<noteq> []" "\<And>v. \<not> json_literal (CHR 0x5C # ?e # ?rest) v" for message
      using that follows_fail [of json_literal "CHR 0x5C # ?e # ?rest" message wr ?out "[]"] by simp
    have "follows json_literal wr ?out (CHR 0x5C # ?e # ?rest) (decode_json_loop wr out raw i)"
    proof (cases "json_escape ?e")
      case (Some x)
      have "follows json_literal wr (after wr ?out [[x]]) ?rest (decode_json_loop wr out raw i)"
        using "1.IH"(2) [OF _ refl refl, of x] True ok Some by (simp add: loop)
      then show ?thesis by (rule follows_step) (simp add: json_literal_escape(1) [OF Some])
    next
      case None
      show ?thesis
      proof (cases "if ?e = CHR ''u'' then json_point ?rest else None")
        case (Some nk)
        then obtain n k where p: "?e = CHR ''u''" "json_point ?rest = Some (n, k)" by (cases nk) (auto split: if_splits)
        then have cp: "json_code_point raw (?j + 2) = Inr (of_nat n, ?j + 2 + k)"
          using json_code_point_value [where i = "?j + 2" and raw = raw] by simp
        let ?utf8 = "map (\<lambda>c. [c]) (utf8 n)"
        have "follows json_literal wr (after wr ?out ?utf8) (drop (?j + 2 + k) raw) (decode_json_loop wr out raw i)"
          using "1.IH"(1) [OF _ refl refl, of _ "of_nat n" "?j + 2 + k"] True ok None p cp json_point_less [OF p(2)]
          by (simp add: loop put_utf8_after)
        then show ?thesis using p by (elim follows_step) (auto simp: json_literal_escape(3) add.commute)
      next
        case bad: None
        then have "\<not> json_literal (CHR 0x5C # ?e # ?rest) v" for v
          using json_literal_escape(2) [OF None] by (auto simp: json_literal_escape(3) split: if_splits)
        then show ?thesis using fail True ok None bad json_code_point_value [where i = "?j + 2" and raw = raw]
          by (auto simp: loop split: if_splits)
      qed
    qed
    then show ?thesis using json.follows_run(3) [OF _ ok refl refl] True by blast
  qed
qed

lemma decode_sql_loop_follows: "\<not> sink_failed out \<Longrightarrow> follows sql_literal wr out (drop i raw) (decode_sql_loop wr out raw i)"
proof (induction wr out raw i rule: decode_sql_loop.induct)
  case (1 wr out raw i)
  let ?j = "run_end (CHR 0x27) raw i"
  let ?out = "after wr out [take (?j - i) (drop i raw)]" and ?e = "raw ! Suc ?j" and ?rest = "drop (?j + 2) raw"
  note ok = "1.prems" and loop = decode_sql_loop.simps [of wr out raw i, unfolded Let_def]
  show ?case
  proof (cases "i < length raw \<and> Suc ?j < length raw")
    case False
    then show ?thesis using ok follows_end [of out sql_literal "[]" "[]" wr]
      by (auto simp: loop sql.nil not_less not_le intro: sql.follows_run(1,2) [OF _ ok refl refl])
  next
    case True
    have "follows sql_literal wr ?out (CHR 0x27 # ?e # ?rest) (decode_sql_loop wr out raw i)"
    proof (cases "?e = CHR 0x27")
      case e: True
      have "follows sql_literal wr (after wr ?out [[CHR 0x27]]) ?rest (decode_sql_loop wr out raw i)"
        using "1.IH" [OF _ refl refl] True ok e by (simp add: loop)
      then show ?thesis using e by (elim follows_step) (auto elim: sql_literal_consE intro: sql_quote)
    next
      case False
      then have "\<not> sql_literal (CHR 0x27 # ?e # ?rest) v" for v by (auto elim: sql_literal_consE)
      then show ?thesis using True ok False follows_fail [of sql_literal "CHR 0x27 # ?e # ?rest" _ wr ?out "[]"] by (simp add: loop)
    qed
    then show ?thesis using sql.follows_run(3) [OF _ ok refl refl] True by blast
  qed
qed

section \<open>Storing a decoded literal\<close>

text \<open>The contract of a decoder, and what it gives the pool.\<close>

locale literal_decoder =
  fixes decoder :: "(pool_builder \<times> string_pool) string_decoder" and literal :: "string \<Rightarrow> string \<Rightarrow> bool"
  assumes decodes: "follows literal wr (string_sink_init s) raw (decoder wr (string_sink_init s) raw)"
begin

lemma decode_erased_stores:
  assumes "pool_ok p" and "\<not> sp_building p"
  shows "\<exists>r q. decode_erased mem p raw decoder = Some (r, q) \<and> \<not> sp_building q
     \<and> (if \<exists>v. literal raw v
        then \<exists>v r'. literal raw v \<and> stored p v r' q \<and> (case r' of Inl e \<Rightarrow> r = Inl ''string pool full'' | Inr i \<Rightarrow> r = Inr i)
        else q = p \<and> (\<exists>m. r = Inl m \<and> m \<noteq> []))"
proof -
  let ?b = "\<lambda>f. \<lparr>pb_start = length (sp_arena p), pb_active = True, pb_failed = f, pb_message = Pool_full\<rparr>"
  let ?out = "decoder (builder_append mem) (string_sink_init (pool_begin p)) raw"
  from decodes [of "builder_append mem" "pool_begin p" raw] obtain pieces where
    d: "sk_target ?out = foldl (builder_append mem) (pool_begin p) pieces" "\<And>v. literal raw v \<longleftrightarrow> \<not> sink_failed ?out \<and> v = concat pieces"
    by (auto simp: follows_def string_sink_init_def)
  have "length (sp_arena p @ []) \<le> sp_max_bytes p" using assms(1) by (simp add: pool_ok_def content_ok_def)
  from builder_fold [OF refl this, of mem "length (sp_arena p)" False Pool_full pieces]
  obtain t f where f: "foldl (builder_append mem) (?b False, building p []) pieces = (?b f, building p t)"
    "\<not> f \<Longrightarrow> t = concat pieces" "length (sp_arena p @ t) \<le> sp_max_bytes p" by auto
  have st: "sk_target ?out = (?b f, building p t)" using f(1) assms(2) d(1) by (simp add: pool_begin_def building_def)
  show ?thesis
  proof (cases "sink_failed ?out")
    case True
    then have "decode_erased mem p raw decoder = Some (Inl (sk_failure ?out), p)"
      using building_abandoned [OF assms(2), of t] by (simp add: decode_erased_def st builder_abandon_def Let_def)
    then show ?thesis using True d(2) assms(2) by (auto simp: sink_failed_def)
  next
    case False
    from builder_finish_stored [OF assms(1) f(3) f(2) assms(2) refl, of f mem Pool_full]
    obtain r b q where r: "builder_finish mem (?b f, building p t) = Some (r, b, q)" "stored p (concat pieces) r q"
      "\<not> sp_building q" "\<And>e. r = Inl e \<Longrightarrow> e = Pool_full" by blast
    then have "decode_erased mem p raw decoder = Some (case r of Inl e \<Rightarrow> Inl ''string pool full'' | Inr i \<Rightarrow> Inr i, q)"
      using False by (auto simp: decode_erased_def st pool_message_def Let_def split: sum.splits)
    then show ?thesis using d(2) False r(2,3) by (auto split: sum.splits)
  qed
qed

end

lemma string_sink_init_ok [simp]: "\<not> sink_failed (string_sink_init s)" "sk_target (string_sink_init s) = s"
  by (simp_all add: string_sink_init_def sink_failed_def)

lemma decoders_follow:
  "follows c_literal wr (string_sink_init s) raw (decode_c_escapes wr (string_sink_init s) raw)"
  "follows json_literal wr (string_sink_init s) raw (decode_json_string wr (string_sink_init s) raw)"
  "follows sql_literal wr (string_sink_init s) raw (decode_sql_string wr (string_sink_init s) raw)"
  using decode_c_loop_follows [of "string_sink_init s" wr 0 raw] decode_json_loop_follows [of "string_sink_init s" wr 0 raw]
    decode_sql_loop_follows [of "string_sink_init s" wr 0 raw]
  by (simp_all add: decode_c_escapes_def decode_json_string_def decode_sql_string_def)

interpretation c_dec: literal_decoder decode_c_escapes c_literal
  by unfold_locales (rule decoders_follow)

interpretation json_dec: literal_decoder decode_json_string json_literal
  by unfold_locales (rule decoders_follow)

interpretation sql_dec: literal_decoder decode_sql_string sql_literal
  by unfold_locales (rule decoders_follow)

section \<open>Writing literals\<close>

text \<open>Printers for the three languages, and the strict reader of UTF-8 (shortest form, no surrogate, at most
  \<open>0x10FFFF\<close>).\<close>

definition hex_digit :: "nat \<Rightarrow> char" where
  "hex_digit n = ''0123456789abcdef'' ! n"

definition hex4 :: "nat \<Rightarrow> string" where
  "hex4 n = [hex_digit (n div 4096 mod 16), hex_digit (n div 256 mod 16), hex_digit (n div 16 mod 16), hex_digit (n mod 16)]"

fun sql_quoted :: "string \<Rightarrow> string" where
  "sql_quoted [] = []"
| "sql_quoted (c # s) = (if c = CHR 0x27 then [c, c] else [c]) @ sql_quoted s"

definition c_quoted :: "string \<Rightarrow> string" where
  "c_quoted s = concat (map (\<lambda>c. [CHR 0x5C, CHR ''x'', hex_digit (code c div 16), hex_digit (code c mod 16)]) s)"

definition json_quoted :: "nat list \<Rightarrow> string" where
  "json_quoted cps = concat (map (\<lambda>n.
     if n < 0x10000 then [CHR 0x5C, CHR ''u''] @ hex4 n
     else [CHR 0x5C, CHR ''u''] @ hex4 (0xD800 + (n - 0x10000) div 0x400) @ [CHR 0x5C, CHR ''u''] @ hex4 (0xDC00 + n mod 0x400)) cps)"

definition scalar :: "nat \<Rightarrow> bool" where
  "scalar n \<longleftrightarrow> n < 0x110000 \<and> \<not> surrogate n"

definition tail_byte :: "char \<Rightarrow> nat option" where
  "tail_byte c = (if 0x80 \<le> code c \<and> code c < 0xC0 then Some (code c - 0x80) else None)"

fun utf8_tail :: "nat \<Rightarrow> nat \<Rightarrow> string \<Rightarrow> (nat \<times> string) option" where
  "utf8_tail 0 n s = Some (n, s)"
| "utf8_tail (Suc k) n [] = None"
| "utf8_tail (Suc k) n (c # s) = (case tail_byte c of None \<Rightarrow> None | Some d \<Rightarrow> utf8_tail k (64 * n + d) s)"

definition utf8_from :: "nat \<Rightarrow> nat \<Rightarrow> nat \<Rightarrow> string \<Rightarrow> (nat \<times> string) option" where
  "utf8_from least k n s =
     (case utf8_tail k n s of None \<Rightarrow> None | Some (m, r) \<Rightarrow> if least \<le> m \<and> scalar m then Some (m, r) else None)"

fun utf8_read :: "string \<Rightarrow> (nat \<times> string) option" where
  "utf8_read [] = None"
| "utf8_read (c # s) =
     (let a = code c
      in if a < 0x80 then Some (a, s)
         else if 0xC0 \<le> a \<and> a < 0xE0 then utf8_from 0x80 1 (a - 0xC0) s
         else if 0xE0 \<le> a \<and> a < 0xF0 then utf8_from 0x800 2 (a - 0xE0) s
         else if 0xF0 \<le> a \<and> a < 0xF8 then utf8_from 0x10000 3 (a - 0xF0) s
         else None)"

inductive utf8_text :: "string \<Rightarrow> nat list \<Rightarrow> bool" where
  utf8_nil: "utf8_text [] []"
| utf8_cons: "utf8_read s = Some (n, r) \<Longrightarrow> utf8_text r cps \<Longrightarrow> utf8_text s (n # cps)"

lemma tail_byte_chr [simp]: "d < 64 \<Longrightarrow> tail_byte (chr (0x80 + d)) = Some d"
  by (simp add: tail_byte_def)

lemma digits_64: "64 * (n div 64) + n mod 64 = n" "64 * (n div 4096) + n div 64 mod 64 = n div 64"
  "64 * (n div 262144) + n div 4096 mod 64 = n div 4096" for n :: nat
proof -
  have "n div 4096 = n div 64 div 64" "n div 262144 = n div 4096 div 64" by (simp_all add: div_mult2_eq [symmetric])
  then show "64 * (n div 64) + n mod 64 = n" "64 * (n div 4096) + n div 64 mod 64 = n div 64"
    "64 * (n div 262144) + n div 4096 mod 64 = n div 4096" by simp_all
qed

lemma utf8_read_utf8:
  assumes "scalar n"
  shows "utf8_read (utf8 n @ r) = Some (n, r)"
proof -
  have n: "n < 0x110000" using assms by (simp add: scalar_def)
  consider "n < 0x80" | "0x80 \<le> n" "n < 0x800" | "0x800 \<le> n" "n < 0x10000" | "0x10000 \<le> n" by linarith
  then show ?thesis
  proof cases
    case 1
    then show ?thesis by (simp add: utf8_def)
  next
    case 2
    then have "n div 64 < 32" by (simp add: div_less_iff_less_mult)
    then show ?thesis using 2 assms by (simp add: utf8_def utf8_from_def digits_64)
  next
    case 3
    then have "n div 4096 < 16" by (simp add: div_less_iff_less_mult)
    then show ?thesis using 3 assms by (simp add: utf8_def utf8_from_def digits_64 numeral_2_eq_2)
  next
    case 4
    have "n div 262144 < 8" using n by (simp add: div_less_iff_less_mult)
    then show ?thesis using 4 assms by (simp add: utf8_def utf8_from_def digits_64 numeral_3_eq_3)
  qed
qed

lemma utf8_text_concat: "list_all scalar cps \<Longrightarrow> utf8_text (concat (map utf8 cps)) cps"
  by (induction cps) (auto intro: utf8_text.intros utf8_read_utf8)

lemma nibble_hex_digit [simp]: "n < 16 \<Longrightarrow> nibble (hex_digit n) = Some n"
proof -
  have "list_all (\<lambda>n. nibble (hex_digit n) = Some n) [0..<16]"
    by (simp add: upt_conv_Cons hex_digit_def nibble_def)
  then show "n < 16 \<Longrightarrow> nibble (hex_digit n) = Some n" by (simp add: list_all_iff)
qed

lemma hex_number_hex4: "n < 0x10000 \<Longrightarrow> hex_number (hex4 n) = Some n"
proof -
  assume n: "n < 0x10000"
  have "n div 4096 < 16" using n by (simp add: div_less_iff_less_mult)
  moreover have "n div 4096 = n div 256 div 16" "n div 256 = n div 16 div 16" by (simp_all add: div_mult2_eq [symmetric])
  ultimately show ?thesis by (simp add: hex_number_def hex4_def)
qed

lemma sql_quoted_literal: "sql_literal (sql_quoted s) s"
  by (induction s) (auto intro: sql_literal.intros)

lemma c_quoted_literal: "c_literal (c_quoted s) s"
proof (induction s)
  case (Cons c s)
  have "code c div 16 < 16" using nat_of_char_less_256 [of c] by (simp add: div_less_iff_less_mult)
  then have "hex_number [hex_digit (code c div 16), hex_digit (code c mod 16)] = Some (code c)" by (simp add: hex_number_def)
  then show ?case using c_hex [of "[hex_digit (code c div 16), hex_digit (code c mod 16)]" "code c", OF _ _ Cons.IH] by (simp add: c_quoted_def)
qed (simp add: c_quoted_def c_empty)

lemma json_quoted_literal: "list_all scalar cps \<Longrightarrow> json_literal (json_quoted cps) (concat (map utf8 cps))"
proof (induction cps)
  case (Cons n cps)
  then have IH: "json_literal (json_quoted cps) (concat (map utf8 cps))" and n: "scalar n" by simp_all
  show ?case
  proof (cases "n < 0x10000")
    case True
    then show ?thesis using json_unit [OF _ hex_number_hex4 [OF True] _ IH] n by (simp add: json_quoted_def scalar_def hex4_def)
  next
    case False
    let ?a = "(n - 0x10000) div 0x400" and ?b = "n mod 0x400"
    have "n - 0x10000 < 0x100000" using n False unfolding scalar_def by linarith
    then have a: "?a < 0x400" by (simp add: div_less_iff_less_mult)
    have b: "?b = (n - 0x10000) mod 0x400" using False by (simp add: le_mod_geq mod_nat_eqI)
    then have "0x10000 + 0x400 * ?a + ?b = n" using False by simp
    then show ?thesis
      using json_pair [OF _ hex_number_hex4 [of "0xD800 + ?a"] a _ hex_number_hex4 [of "0xDC00 + ?b"] _ IH] a False
      by (simp add: json_quoted_def hex4_def)
  qed
qed (simp add: json_quoted_def json_empty)

lemma follows_literal:
  assumes "follows literal (@) (string_sink_init []) raw out" and "literal raw v"
  shows "out = string_sink_init v"
proof -
  have f: "foldl (@) s ps = s @ concat ps" for s :: string and ps by (induction ps arbitrary: s) simp_all
  from assms obtain ps where "sk_target out = foldl (@) [] ps" "\<not> sink_failed out" "v = concat ps"
    unfolding follows_def by (metis string_sink_init_ok(2))
  then show ?thesis by (cases out) (simp add: string_sink_init_def sink_failed_def f)
qed

lemma follows_unique: "follows literal wr out raw out' \<Longrightarrow> literal raw u \<Longrightarrow> literal raw v \<Longrightarrow> u = v"
  unfolding follows_def by metis

context literal_decoder
begin

lemma decode_erased_value:
  assumes "pool_ok p" and "\<not> sp_building p"
  shows "\<exists>r q. decode_erased mem p raw decoder = Some (r, q) \<and> pool_ok q \<and> \<not> sp_building q
     \<and> (if \<exists>v. literal raw v
        then (\<exists>!v. literal raw v)
           \<and> (case r of
                Inl m \<Rightarrow> m = ''string pool full'' \<and> pool_strings q = pool_strings p \<and> sp_arena q = sp_arena p
              | Inr i \<Rightarrow> i < length (sp_entries q) \<and> literal raw (pool_view q i)
                  \<and> pool_strings q = (if pool_view q i \<in> set (pool_strings p) then pool_strings p
                                      else pool_strings p @ [pool_view q i]))
        else q = p \<and> (\<exists>m. r = Inl m \<and> m \<noteq> []))"
proof -
  from decode_erased_stores [OF assms, of mem raw]
  obtain r q where d: "decode_erased mem p raw decoder = Some (r, q)" "\<not> sp_building q"
    "if \<exists>v. literal raw v
     then \<exists>v r'. literal raw v \<and> stored p v r' q \<and> (case r' of Inl e \<Rightarrow> r = Inl ''string pool full'' | Inr i \<Rightarrow> r = Inr i)
     else q = p \<and> (\<exists>m. r = Inl m \<and> m \<noteq> [])" by blast
  show ?thesis
  proof (cases "\<exists>v. literal raw v")
    case False
    then show ?thesis using d assms by simp
  next
    case True
    then obtain v r' where v: "literal raw v" "stored p v r' q" "case r' of Inl e \<Rightarrow> r = Inl ''string pool full'' | Inr i \<Rightarrow> r = Inr i"
      using d(3) by auto
    have u: "\<exists>!v. literal raw v" using v(1) follows_unique [OF decodes] by blast
    have ok: "pool_ok q" using v(2) by (simp add: stored_def)
    show ?thesis
    proof (cases r')
      case (Inl e)
      then show ?thesis using d(1,2) ok u v by (auto simp: stored_def)
    next
      case (Inr i)
      then have "i < length (sp_entries q)" "pool_view q i = v" using v(2) pool_view_strings [OF ok, of i] by (simp_all add: stored_def)
      then show ?thesis using d(1,2) ok u v Inr by (auto simp: stored_def)
    qed
  qed
qed

end

lemma decode_into_pool:
  assumes "pool_ok p" and "\<not> sp_building p"
    and "(decoder, literal) \<in> {(decode_c_escapes, c_literal), (decode_json_string, json_literal), (decode_sql_string, sql_literal)}"
  shows "\<exists>r q. decode_erased mem p raw decoder = Some (r, q) \<and> pool_ok q \<and> \<not> sp_building q
     \<and> (if \<exists>v. literal raw v
        then (case r of
                Inl m \<Rightarrow> m = ''string pool full'' \<and> pool_strings q = pool_strings p
              | Inr i \<Rightarrow> literal raw (pool_view q i))
        else q = p \<and> (\<exists>m. r = Inl m \<and> m \<noteq> []))"
proof -
  have "\<exists>r q. decode_erased mem p raw d = Some (r, q) \<and> pool_ok q \<and> \<not> sp_building q
     \<and> (if \<exists>v. l raw v
        then (case r of Inl m \<Rightarrow> m = ''string pool full'' \<and> pool_strings q = pool_strings p | Inr i \<Rightarrow> l raw (pool_view q i))
        else q = p \<and> (\<exists>m. r = Inl m \<and> m \<noteq> []))" if "literal_decoder d l" for d l
    using literal_decoder.decode_erased_value [OF that assms(1,2), of mem raw]
    by (elim exE, rename_tac r q, case_tac r) (auto split: if_splits)
  then show ?thesis using assms(3) c_dec.literal_decoder_axioms json_dec.literal_decoder_axioms sql_dec.literal_decoder_axioms by blast
qed

section \<open>Properties\<close>



text \<open>C17: What can be written can be read. Any bytes doubled as SQL does, any bytes written with \<open>\x\<close>, and any Unicode
  text written with \<open>\u\<close> escapes (surrogate pairs above the basic plane) are decoded without failure
  to exactly those bytes; the JSON value is well-formed UTF-8 that reads, by the strict reader, as the same code points.\<close>

theorem literal_roundtrip:
  assumes "list_all scalar cps"
  shows "decode_sql_string (@) (string_sink_init []) (sql_quoted s) = string_sink_init s
     \<and> decode_c_escapes (@) (string_sink_init []) (c_quoted s) = string_sink_init s
     \<and> (\<exists>t. decode_json_string (@) (string_sink_init []) (json_quoted cps) = string_sink_init t \<and> utf8_text t cps)"
proof (intro conjI)
  show "decode_sql_string (@) (string_sink_init []) (sql_quoted s) = string_sink_init s"
    by (rule follows_literal [OF decoders_follow(3) sql_quoted_literal])
  show "decode_c_escapes (@) (string_sink_init []) (c_quoted s) = string_sink_init s"
    by (rule follows_literal [OF decoders_follow(1) c_quoted_literal])
  show "\<exists>t. decode_json_string (@) (string_sink_init []) (json_quoted cps) = string_sink_init t \<and> utf8_text t cps"
    using follows_literal [OF decoders_follow(2) json_quoted_literal [OF assms]] utf8_text_concat [OF assms] by blast
qed

theorem literal_roundtrip_witness:
  "\<exists>t. decode_json_string (@) (string_sink_init []) (json_quoted [0x41, 0x1F600]) = string_sink_init t \<and> utf8_text t [0x41, 0x1F600]"
  using literal_roundtrip [of "[0x41, 0x1F600]" "[]"] by (simp add: scalar_def surrogate_def)

end
