(* ===== verification/Parse_Strings.thy ===== *)
theory Parse_Strings
  imports String_Decode Parse_Combinators
begin

text \<open>
  The end of \<^verbatim>\<open>parsing/token_stream.hpp\<close> (names, literals and tokens kept in the string pool) and \<^verbatim>\<open>parsing/ast_pool.hpp\<close>
  (the node pool), with the wrappers \<^verbatim>\<open>pooled\<close> of both pools. The pool behind the handle of a stream is passed beside the
  stream. A rule that allocates is a function on a pool and a stream.
\<close>

section \<open>Names and literals\<close>

definition ts_intern :: "pool_memory \<Rightarrow> string_pool \<Rightarrow> 'r token_stream \<Rightarrow> token \<Rightarrow> ((parse_error + nat) \<times> string_pool) option" where
  "ts_intern mem pool ts t =
     (if \<not> ts_has_strings ts then Some (Inl (parse_error_at ''no string pool'' t), pool)
      else case intern_erased mem pool (tok_text t) of
             None \<Rightarrow> None
           | Some (Inl error, pool') \<Rightarrow> Some (Inl (parse_error_at error t), pool')
           | Some (Inr i, pool') \<Rightarrow> Some (Inr i, pool'))"

definition expect_name ::
    "pool_memory \<Rightarrow> string \<Rightarrow> string_pool \<Rightarrow> 'r token_stream \<Rightarrow> ((parse_error + nat) \<times> string_pool \<times> 'r token_stream) option" where
  "expect_name mem message pool ts =
     (if \<not> ts_check ts T_identifier then Some (Inl (error_here ts message), pool, ts)
      else case ts_intern mem pool ts (ts_peek ts) of
             None \<Rightarrow> None
           | Some (Inl e, pool') \<Rightarrow> Some (Inl e, pool', ts)
           | Some (Inr i, pool') \<Rightarrow> Some (Inr i, pool', snd (ts_next ts)))"

definition is_quote :: "lexer_rules \<Rightarrow> char \<Rightarrow> bool" where
  "is_quote rules c \<longleftrightarrow> c \<in> set (quotes rules) \<or> c \<in> set (raw_quotes rules) \<or> c \<in> set (char_quotes rules)"

function open_quote :: "lexer_rules \<Rightarrow> string \<Rightarrow> nat \<Rightarrow> nat" where
  "open_quote rules s i = (if i < length s \<and> \<not> is_quote rules (s ! i) then open_quote rules s (Suc i) else i)"
  by pat_completeness auto
termination
  by (relation "measure (\<lambda>(rules, s, i). length s - i)") auto

declare open_quote.simps [simp del]

definition string_body :: "lexer_rules \<Rightarrow> string \<Rightarrow> string" where
  "string_body rules s =
     (let i = open_quote rules s 0
      in if i \<ge> length s then s
         else let quote = s ! i; from' = i + 1; n = length s - from'
              in if n > 0 \<and> s ! (length s - 1) = quote then take (n - 1) (drop from' s) else drop from' s)"

definition expect_string ::
    "pool_memory \<Rightarrow> string \<Rightarrow> (pool_builder \<times> string_pool) string_decoder \<Rightarrow> string_pool \<Rightarrow> 'r token_stream
     \<Rightarrow> ((parse_error + nat) \<times> string_pool \<times> 'r token_stream) option" where
  "expect_string mem message decoder pool ts =
     (if \<not> ts_check ts T_string then Some (Inl (error_here ts message), pool, ts)
      else let literal = ts_peek ts
           in if \<not> ts_has_strings ts then Some (Inl (parse_error_at ''no string pool'' literal), pool, ts)
              else case decode_erased mem pool (string_body (ts_rules ts) (tok_text literal)) decoder of
                     None \<Rightarrow> None
                   | Some (Inl error, pool') \<Rightarrow> Some (Inl (parse_error_at error literal), pool', ts)
                   | Some (Inr i, pool') \<Rightarrow> Some (Inr i, pool', snd (ts_next ts)))"

section \<open>Stored tokens\<close>

record stored_token =
  st_kind :: token_kind
  st_text :: nat
  st_offset :: nat
  st_line :: u32
  st_column :: u32

definition store_token ::
    "pool_memory \<Rightarrow> string_pool \<Rightarrow> 'r token_stream \<Rightarrow> token \<Rightarrow> ((parse_error + stored_token) \<times> string_pool) option" where
  "store_token mem pool ts t =
     (case ts_intern mem pool ts t of
        None \<Rightarrow> None
      | Some (Inl e, pool') \<Rightarrow> Some (Inl e, pool')
      | Some (Inr i, pool') \<Rightarrow>
          Some (Inr \<lparr>st_kind = tok_kind t, st_text = i, st_offset = tok_offset t, st_line = tok_line t, st_column = tok_column t\<rparr>, pool'))"

definition view_token :: "string_pool \<Rightarrow> stored_token \<Rightarrow> token" where
  "view_token pool st =
     \<lparr>tok_kind = st_kind st, tok_text = pool_view pool (st_text st), tok_offset = st_offset st, tok_line = st_line st,
      tok_column = st_column st\<rparr>"

section \<open>The node pool\<close>

record 'n node_pool =
  np_nodes :: "'n list"
  np_max_nodes :: nat

definition kDefaultMaxNodes :: nat where
  "kDefaultMaxNodes = 0xFFFFFFFE"

definition node_pool_init :: "nat \<Rightarrow> 'n node_pool" where
  "node_pool_init max_nodes = \<lparr>np_nodes = [], np_max_nodes = (if max_nodes < kDefaultMaxNodes then max_nodes else kDefaultMaxNodes)\<rparr>"

text \<open>Whether the vector can grow to a size is a parameter, as for the string pool.\<close>

definition node_make :: "(nat \<Rightarrow> bool) \<Rightarrow> 'n node_pool \<Rightarrow> token \<Rightarrow> 'n \<Rightarrow> (parse_error + nat) \<times> 'n node_pool" where
  "node_make can_grow pool at' v =
     (if length (np_nodes pool) \<ge> np_max_nodes pool \<or> \<not> can_grow (length (np_nodes pool) + 1)
      then (Inl (parse_error_at ''node pool full'' at'), pool)
      else let nodes = np_nodes pool @ [v] in (Inr ((length nodes - 1) mod 2 ^ 32), pool\<lparr>np_nodes := nodes\<rparr>))"

definition node_try_get :: "'n node_pool \<Rightarrow> nat \<Rightarrow> 'n option" where
  "node_try_get pool i = (if i = 0xFFFFFFFF \<or> i \<ge> length (np_nodes pool) then None else Some (np_nodes pool ! i))"

definition node_mark :: "'n node_pool \<Rightarrow> nat" where
  "node_mark pool = length (np_nodes pool)"

definition node_rollback :: "'n node_pool \<Rightarrow> nat \<Rightarrow> 'n node_pool" where
  "node_rollback pool m = (if m < length (np_nodes pool) then pool\<lparr>np_nodes := take m (np_nodes pool)\<rparr> else pool)"

definition node_clear :: "'n node_pool \<Rightarrow> 'n node_pool" where
  "node_clear pool = pool\<lparr>np_nodes := []\<rparr>"

section \<open>Rules that allocate\<close>

type_synonym ('p, 'r, 'a) pool_rule = "'p \<Rightarrow> 'r token_stream \<Rightarrow> ((parse_error + 'a) \<times> 'p \<times> 'r token_stream) option"

definition pooled_nodes :: "('n node_pool, 'r, 'a) pool_rule \<Rightarrow> ('n node_pool, 'r, 'a) pool_rule" where
  "pooled_nodes wrapped pool ts =
     (let before = node_mark pool
      in case wrapped pool ts of
           None \<Rightarrow> None
         | Some (Inl e, pool', ts') \<Rightarrow> Some (Inl e, node_rollback pool' before, ts')
         | Some (Inr v, pool', ts') \<Rightarrow> Some (Inr v, pool', ts'))"

definition pooled_strings :: "(string_pool, 'r, 'a) pool_rule \<Rightarrow> (string_pool, 'r, 'a) pool_rule" where
  "pooled_strings wrapped pool ts =
     (let before = pool_mark pool
      in case wrapped pool ts of
           None \<Rightarrow> None
         | Some (Inl e, pool', ts') \<Rightarrow> Some (Inl e, pool_rollback pool' before, ts')
         | Some (Inr v, pool', ts') \<Rightarrow> Some (Inr v, pool', ts'))"

definition end_statement ::
    "'r token_stream \<Rightarrow> ('r, 'a) memo_table \<Rightarrow> 'n node_pool list \<Rightarrow> 'r token_stream \<times> ('r, 'a) memo_table \<times> 'n node_pool list" where
  "end_statement ts memo node_pools = (discard_consumed ts, memo_clear memo, map node_clear node_pools)"

section \<open>Lemmas\<close>

lemma stored_prefix: "stored p s r q \<Longrightarrow> \<exists>ss. pool_strings q = pool_strings p @ ss"
  by (auto simp: stored_def split: sum.splits if_splits)

lemma pool_view_prefix:
  "pool_ok p \<Longrightarrow> pool_ok q \<Longrightarrow> pool_strings q = pool_strings p @ ss \<Longrightarrow> i < length (sp_entries p) \<Longrightarrow> pool_view q i = pool_view p i"
  by (metis le_add1 length_append nth_append order_less_le_trans pool_strings_length pool_view_strings)

lemma pool_intern_all_prefix:
  "pool_ok p \<Longrightarrow> \<not> sp_building p \<Longrightarrow>
     \<exists>r q ss. pool_intern_all mem p ws = Some (r, q) \<and> pool_ok q \<and> pool_strings q = pool_strings p @ ss"
proof (induction ws arbitrary: p)
  case (Cons w ws)
  from pool_intern_stored [OF Cons.prems, of mem w]
  obtain r q where q: "pool_intern mem p w = Some (r, q)" "stored p w r q" "\<not> sp_building q" by blast
  have ok: "pool_ok q" using q(2) by (simp add: stored_def)
  obtain ss where ss: "pool_strings q = pool_strings p @ ss" using stored_prefix [OF q(2)] by blast
  show ?case using Cons.IH [OF ok q(3)] q(1) ok ss by (cases r) auto
qed simp

lemma intern_erased_stored:
  assumes "pool_ok p" and "\<not> sp_building p"
  shows "\<exists>r q. intern_erased mem p s = Some (r, q) \<and> pool_ok q \<and> \<not> sp_building q \<and> (\<exists>ss. pool_strings q = pool_strings p @ ss)
     \<and> (case r of Inl m \<Rightarrow> m = ''string pool full'' \<and> pool_strings q = pool_strings p
                | Inr i \<Rightarrow> i < length (sp_entries q) \<and> pool_view q i = s)"
proof -
  from pool_intern_stored [OF assms, of mem s] obtain r q where q: "pool_intern mem p s = Some (r, q)" "stored p s r q"
    "\<not> sp_building q" "\<forall>e. r = Inl e \<longrightarrow> e = Pool_full \<and> s \<notin> set (pool_strings p)" by blast
  have ok: "pool_ok q" using q(2) by (simp add: stored_def)
  show ?thesis using q ok stored_prefix [OF q(2)] pool_view_strings [OF ok]
    by (cases r) (auto simp: intern_erased_def pool_message_def stored_def)
qed

lemma open_quote_prefix:
  assumes "\<forall>c\<in>set pre. \<not> is_quote rules c" and "is_quote rules q"
  shows "open_quote rules (done' @ pre @ q # rest) (length done') = length done' + length pre"
  using assms(1)
proof (induction pre arbitrary: done')
  case Nil
  then show ?case using assms(2) by (subst open_quote.simps) simp
next
  case (Cons c pre)
  then have "open_quote rules ((done' @ [c]) @ pre @ q # rest) (length (done' @ [c])) = length (done' @ [c]) + length pre"
    by (intro Cons.IH) simp
  then show ?case using Cons.prems by (subst open_quote.simps) (simp add: nth_append)
qed

lemma string_body_quoted:
  assumes "\<forall>c\<in>set pre. \<not> is_quote rules c" and "is_quote rules q"
  shows "string_body rules (pre @ q # body @ [q]) = body"
  using open_quote_prefix [OF assms, of "[]"] by (simp add: string_body_def Let_def nth_append)

lemma node_rollback_made: "np_nodes q = np_nodes p @ ns \<Longrightarrow> np_max_nodes q = np_max_nodes p \<Longrightarrow> node_rollback q (node_mark p) = p"
  by (cases p; cases q) (simp add: node_rollback_def node_mark_def)

section \<open>Properties\<close>

text \<open>Reading a string literal from the stream gives its value. On a string token with any prefix, whose body
  stands between two equal quotes, \<open>expect_string\<close> with the C, JSON or SQL decoder returns: the id of
  the value of the body, with the token consumed; or pool full, located at the token, with the stream where it was;
  or, for a body outside the grammar of the language, the decoder's message at the token, with stream and pool
  exactly as before.\<close>

theorem expect_string_value:
  assumes "pool_ok p" and "\<not> sp_building p" and "ts_has_strings ts" and "tok_kind (ts_peek ts) = T_string"
    and "tok_text (ts_peek ts) = pre @ q # body @ [q]" and "is_quote (ts_rules ts) q" and "\<forall>c\<in>set pre. \<not> is_quote (ts_rules ts) c"
    and "(decoder, literal) \<in> {(decode_c_escapes, c_literal), (decode_json_string, json_literal), (decode_sql_string, sql_literal)}"
  shows "\<exists>r p' ts'. expect_string mem message decoder p ts = Some (r, p', ts') \<and> pool_ok p' \<and> \<not> sp_building p'
     \<and> (if \<exists>v. literal body v
        then (case r of
                Inl e \<Rightarrow> e = parse_error_at ''string pool full'' (ts_peek ts) \<and> ts' = ts \<and> pool_strings p' = pool_strings p
              | Inr i \<Rightarrow> literal body (pool_view p' i) \<and> ts' = snd (ts_next ts))
        else (\<exists>m. m \<noteq> [] \<and> r = Inl (parse_error_at m (ts_peek ts))) \<and> ts' = ts \<and> p' = p)"
proof -
  have b: "string_body (ts_rules ts) (tok_text (ts_peek ts)) = body" using string_body_quoted assms(5-7) by metis
  obtain r p' where d: "decode_erased mem p body decoder = Some (r, p')" "pool_ok p'" "\<not> sp_building p'"
    "if \<exists>v. literal body v
     then case r of Inl m \<Rightarrow> m = ''string pool full'' \<and> pool_strings p' = pool_strings p | Inr i \<Rightarrow> literal body (pool_view p' i)
     else p' = p \<and> (\<exists>m. r = Inl m \<and> m \<noteq> [])"
    using decode_into_pool [OF assms(1,2,8), of mem body] by blast
  show ?thesis using d b assms(3,4) by (cases r) (auto simp: expect_string_def ts_check_def ts_peek_def split: if_splits)
qed

theorem expect_string_value_witness:
  "\<exists>r p' ts'. expect_string all_memory ''text expected'' decode_sql_string (string_pool_init 8 4)
       (ts_with_strings (token_stream_init [CHR 0x22, CHR ''a'', CHR 0x22] default_rules) :: unit token_stream) = Some (r, p', ts')
     \<and> (\<forall>i. r = Inr i \<longrightarrow> pool_view p' i = ''a'')"
proof -
  let ?ts = "ts_with_strings (token_stream_init [CHR 0x22, CHR ''a'', CHR 0x22] default_rules) :: unit token_stream"
  have t: "tok_kind (ts_peek ?ts) = T_string" "tok_text (ts_peek ?ts) = [] @ CHR 0x22 # ''a'' @ [CHR 0x22]" "ts_has_strings ?ts"
    "is_quote (ts_rules ?ts) (CHR 0x22)" by code_simp+
  have e: "\<forall>c\<in>set []. \<not> is_quote (ts_rules ?ts) c" by simp
  have l: "sql_literal ''a'' v \<longleftrightarrow> v = ''a''" for v by (auto simp: sql.plain sql.nil)
  have m: "(decode_sql_string, sql_literal)
      \<in> {(decode_c_escapes, c_literal), (decode_json_string, json_literal), (decode_sql_string, sql_literal)}" by simp
  from expect_string_value [where p = "string_pool_init 8 4" and mem = all_memory and message = "''text expected''",
      OF string_pool_init_ok(1,3) t(3,1,2,4) e m] show ?thesis
    by (elim exE, rename_tac r q u, case_tac r) (auto simp: l)
qed

text \<open>A stored token is the token. Detaching a token from the source by interning its text fails only with
  pool full, located at the token, and then the strings of the pool are as before; otherwise the token
  read back from the pool is the original, text and position, also after any further words were interned.\<close>

theorem stored_token_roundtrip:
  assumes "pool_ok p" and "\<not> sp_building p" and "ts_has_strings ts"
  shows "\<exists>r q. store_token mem p ts t = Some (r, q)
     \<and> (case r of
          Inl e \<Rightarrow> e = parse_error_at ''string pool full'' t \<and> pool_strings q = pool_strings p
        | Inr st \<Rightarrow> \<forall>mem' ws. \<exists>r' q'. pool_intern_all mem' q ws = Some (r', q') \<and> view_token q' st = t)"
proof -
  from intern_erased_stored [OF assms(1,2), of mem "tok_text t"]
  obtain r q where i: "intern_erased mem p (tok_text t) = Some (r, q)" "pool_ok q" "\<not> sp_building q"
    "case r of Inl m \<Rightarrow> m = ''string pool full'' \<and> pool_strings q = pool_strings p
             | Inr i \<Rightarrow> i < length (sp_entries q) \<and> pool_view q i = tok_text t" by blast
  have later: "\<exists>r' q'. pool_intern_all mem' q ws = Some (r', q') \<and> pool_view q' j = pool_view q j"
    if "j < length (sp_entries q)" for j mem' ws
    using pool_intern_all_prefix [OF i(2,3), of mem' ws] pool_view_prefix [OF i(2) _ _ that] by blast
  show ?thesis
  proof (cases r)
    case (Inl m)
    then show ?thesis using i assms(3) by (simp add: store_token_def ts_intern_def)
  next
    case (Inr j)
    then have j: "j < length (sp_entries q)" "pool_view q j = tok_text t" using i(4) by simp_all
    let ?st = "\<lparr>st_kind = tok_kind t, st_text = j, st_offset = tok_offset t, st_line = tok_line t, st_column = tok_column t\<rparr>"
    have "view_token q' ?st = t" if "pool_view q' j = pool_view q j" for q' using that j(2) by (cases t) (simp add: view_token_def)
    then have "\<forall>mem' ws. \<exists>r' q'. pool_intern_all mem' q ws = Some (r', q') \<and> view_token q' ?st = t" using later [OF j(1)] by metis
    then show ?thesis using i(1) assms(3) Inr by (simp add: store_token_def ts_intern_def)
  qed
qed

theorem stored_token_roundtrip_witness:
  "\<exists>r q. store_token all_memory (string_pool_init 8 4) (ts_with_strings (token_stream_init [] default_rules) :: unit token_stream)
       (default_token\<lparr>tok_text := ''ab'', tok_line := 7\<rparr>) = Some (r, q)
     \<and> (\<forall>st. r = Inr st \<longrightarrow> (\<exists>r' q'. pool_intern_all all_memory q [''cd'', ''ab''] = Some (r', q')
           \<and> view_token q' st = default_token\<lparr>tok_text := ''ab'', tok_line := 7\<rparr>))"
proof -
  have "ts_has_strings (ts_with_strings (token_stream_init [] default_rules) :: unit token_stream)" by (simp add: ts_with_strings_def)
  from stored_token_roundtrip [OF string_pool_init_ok(1,3) this, of all_memory 8 4 "default_token\<lparr>tok_text := ''ab'', tok_line := 7\<rparr>"]
  show ?thesis by (elim exE, rename_tac r q, case_tac r) (auto simp del: pool_intern_all.simps)
qed

text \<open>A failed alternative leaves nothing in the pools. When a rule that only makes nodes fails, the wrapped rule
  leaves the node pool exactly as it found it; when a rule that only interns strings fails, the
  wrapped rule leaves a pool with the same strings, bytes and ids; a rule that succeeds keeps its result and
  what it made.\<close>

theorem pooled_rule_leaves_nothing:
  assumes "rule p ts = Some (res, q, ts')" and "np_nodes q = np_nodes p @ ns" and "np_max_nodes q = np_max_nodes p"
    and "srule sp ts = Some (sres, sq, ts'')" and "pool_ok sp" and "pool_ok sq" and "extends sp sq"
    and "\<not> sp_building sq" and "sp_arena sq = sp_arena sp @ bytes"
  shows "pooled_nodes rule p ts = Some (res, case res of Inl e \<Rightarrow> p | Inr v \<Rightarrow> q, ts')
     \<and> (\<exists>sq'. pooled_strings srule sp ts = Some (sres, sq', ts'')
          \<and> (case sres of
               Inl e \<Rightarrow> pool_ok sq' \<and> sp_arena sq' = sp_arena sp \<and> pool_strings sq' = pool_strings sp
                  \<and> (\<forall>s. pool_find sq' s = pool_find sp s)
             | Inr v \<Rightarrow> sq' = sq))"
proof
  show "pooled_nodes rule p ts = Some (res, case res of Inl e \<Rightarrow> p | Inr v \<Rightarrow> q, ts')"
    using assms(1) node_rollback_made [OF assms(2,3)] by (simp add: pooled_nodes_def Let_def split: sum.splits)
  show "\<exists>sq'. pooled_strings srule sp ts = Some (sres, sq', ts'')
          \<and> (case sres of
               Inl e \<Rightarrow> pool_ok sq' \<and> sp_arena sq' = sp_arena sp \<and> pool_strings sq' = pool_strings sp
                  \<and> (\<forall>s. pool_find sq' s = pool_find sp s)
             | Inr v \<Rightarrow> sq' = sq)"
    using assms(4) pool_rollback_extends [OF assms(5-9)] pool_find_cong [OF assms(5)]
    by (cases sres) (auto simp: pooled_strings_def Let_def)
qed

theorem pooled_rule_leaves_nothing_witness:
  "\<exists>sq'. pooled_nodes (\<lambda>p ts. Some (Inl (error_here ts ''no''), p\<lparr>np_nodes := np_nodes p @ [''x'']\<rparr>, ts)) (node_pool_init 2)
       (token_stream_init [] default_rules :: unit token_stream)
     = Some (Inl (error_here (token_stream_init [] default_rules :: unit token_stream) ''no''), node_pool_init 2, token_stream_init [] default_rules)
     \<and> pooled_strings (\<lambda>p ts. map_option (\<lambda>(r, q). (Inl (error_here ts ''no''), q, ts)) (pool_intern_all all_memory p [''ab'']))
         (string_pool_init 8 4) (token_stream_init [] default_rules :: unit token_stream)
       = Some (Inl (error_here (token_stream_init [] default_rules :: unit token_stream) ''no'') :: parse_error + unit, sq', token_stream_init [] default_rules)
     \<and> pool_strings sq' = []"
proof -
  let ?ts = "token_stream_init [] default_rules :: unit token_stream"
  let ?srule = "\<lambda>p ts. map_option (\<lambda>(r, q). (Inl (error_here ts ''no'') :: parse_error + unit, q, ts)) (pool_intern_all all_memory p [''ab''])"
  from pool_intern_all_stored [OF string_pool_init_ok(1,3), of all_memory 8 4 "[''ab'']"]
  obtain r q t where q: "pool_intern_all all_memory (string_pool_init 8 4) [''ab''] = Some (r, q)" "pool_ok q"
    "extends (string_pool_init 8 4) q" "\<not> sp_building q" "sp_arena q = sp_arena (string_pool_init 8 4) @ t" by blast
  have s: "?srule (string_pool_init 8 4) ?ts = Some (Inl (error_here ?ts ''no''), q, ?ts)" using q(1) by simp
  from pooled_rule_leaves_nothing [where rule = "\<lambda>p ts. Some (Inl (error_here ts ''no''), p\<lparr>np_nodes := np_nodes p @ [''x'']\<rparr>, ts)"
      and p = "node_pool_init 2" and ts = ?ts and srule = ?srule and sp = "string_pool_init 8 4", OF refl _ _ s string_pool_init_ok(1) q(2-5)]
  show ?thesis using string_pool_init_ok(2) [of 8 4] by (auto simp del: pool_intern_all.simps)
qed

end
