(* ===== verification/Json.thy ===== *)
theory Json
  imports Int_Format String_Decode
begin

text \<open>
  \<^verbatim>\<open>formatters/json.hpp\<close>: the streaming writer of JSON objects and arrays. A writer keeps whether its next entry is the
  first and whether its container is closed; an operation gives the writer behind it and the chunks it wrote, or
  \<^const>\<open>None\<close> when the integer formatter leaves its buffer. As in \<open>Cbor\<close>, the calls of a program on a writer and the
  writers nested in it are a tree. The meaning of the text is a reader of RFC 8259 for the compact form, in
  which string bodies have the value that the decoder of the parser library gives them.
\<close>

section \<open>Strings and integers\<close>

definition write_integer :: "bool \<Rightarrow> u64 \<Rightarrow> chunks option" where
  "write_integer is_signed v =
     (if is_signed \<and> sint v < 0
      then seq_chunks (Some (put (CHR ''-''))) (format_unsigned decimal (0 - v) False 0)
      else format_unsigned decimal v False 0)"

definition json_escaped_char :: "char \<Rightarrow> chunks" where
  "json_escaped_char c =
     (if c = CHR 0x22 then out_write [CHR 0x5C, CHR 0x22]
      else if c = CHR 0x5C then out_write [CHR 0x5C, CHR 0x5C]
      else if c = CHR 0x08 then out_write [CHR 0x5C, CHR ''b'']
      else if c = CHR 0x0C then out_write [CHR 0x5C, CHR ''f'']
      else if c = CHR 0x0A then out_write [CHR 0x5C, CHR ''n'']
      else if c = CHR 0x0D then out_write [CHR 0x5C, CHR ''r'']
      else if c = CHR 0x09 then out_write [CHR 0x5C, CHR ''t'']
      else if code c < 0x20
      then out_write [CHR 0x5C, CHR ''u'', CHR ''0'', CHR ''0'']
           @ put (hex_digits_upper ! (code c div 16 mod 16)) @ put (hex_digits_upper ! (code c mod 16))
      else put c)"

definition write_escaped_string :: "string \<Rightarrow> chunks" where
  "write_escaped_string s = put (CHR 0x22) @ concat (map json_escaped_char s) @ put (CHR 0x22)"

section \<open>Writers\<close>

record json_writer =
  jw_first :: bool
  jw_closed :: bool

type_synonym json_step = "json_writer \<Rightarrow> json_writer \<times> chunks option"

definition object_writer_new :: "json_writer \<times> chunks" where
  "object_writer_new = (\<lparr>jw_first = True, jw_closed = False\<rparr>, put (CHR ''{''))"

definition json_array_writer_new :: "json_writer \<times> chunks" where
  "json_array_writer_new = (\<lparr>jw_first = True, jw_closed = False\<rparr>, put (CHR ''[''))"

definition object_end :: "json_writer \<Rightarrow> json_writer \<times> chunks" where
  "object_end w = (if \<not> jw_closed w then (w\<lparr>jw_closed := True\<rparr>, put (CHR ''}'')) else (w, []))"

definition json_array_end :: "json_writer \<Rightarrow> json_writer \<times> chunks" where
  "json_array_end w = (if \<not> jw_closed w then (w\<lparr>jw_closed := True\<rparr>, put (CHR '']'')) else (w, []))"

definition json_writer_move :: "json_writer \<Rightarrow> json_writer \<times> json_writer" where
  "json_writer_move other = (other, other\<lparr>jw_closed := True\<rparr>)"

definition json_prefix :: "json_writer \<Rightarrow> json_writer \<times> chunks" where
  "json_prefix w = (w\<lparr>jw_first := False\<rparr>, if \<not> jw_first w then put (CHR '','') else [])"

definition object_key :: "string \<Rightarrow> json_writer \<Rightarrow> json_writer \<times> chunks" where
  "object_key k w = (let (w', comma) = json_prefix w in (w', comma @ write_escaped_string k @ put (CHR '':'')))"

section \<open>Values\<close>

text \<open>The value of a \<open>kv\<close> or \<open>val\<close> call by overload; an integer of at most 64 bits, extended to 64 bits.\<close>

datatype json_scalar =
  Json_text string | Json_cstr "string option" | Json_bool bool | Json_null | Json_int bool u64

definition kv_text :: "string \<Rightarrow> string \<Rightarrow> json_step" where
  "kv_text k v w = (let (w', c) = object_key k w in (w', Some (c @ write_escaped_string v)))"

definition kv_cstr :: "string \<Rightarrow> string option \<Rightarrow> json_step" where
  "kv_cstr k v w = (let (w', c) = object_key k w
     in (w', Some (c @ (case v of None \<Rightarrow> out_write ''null'' | Some s \<Rightarrow> write_escaped_string s))))"

definition kv_bool :: "string \<Rightarrow> bool \<Rightarrow> json_step" where
  "kv_bool k v w = (let (w', c) = object_key k w in (w', Some (c @ out_write (if v then ''true'' else ''false''))))"

definition kv_null :: "string \<Rightarrow> json_step" where
  "kv_null k w = (let (w', c) = object_key k w in (w', Some (c @ out_write ''null'')))"

definition kv_int :: "string \<Rightarrow> bool \<Rightarrow> u64 \<Rightarrow> json_step" where
  "kv_int k is_signed v w = (let (w', c) = object_key k w in (w', seq_chunks (Some c) (write_integer is_signed v)))"

definition val_text :: "string \<Rightarrow> json_step" where
  "val_text v w = (let (w', c) = json_prefix w in (w', Some (c @ write_escaped_string v)))"

definition val_cstr :: "string option \<Rightarrow> json_step" where
  "val_cstr v w = (let (w', c) = json_prefix w
     in (w', Some (c @ (case v of None \<Rightarrow> out_write ''null'' | Some s \<Rightarrow> write_escaped_string s))))"

definition val_bool :: "bool \<Rightarrow> json_step" where
  "val_bool v w = (let (w', c) = json_prefix w in (w', Some (c @ out_write (if v then ''true'' else ''false''))))"

definition val_null :: json_step where
  "val_null w = (let (w', c) = json_prefix w in (w', Some (c @ out_write ''null'')))"

definition val_int :: "bool \<Rightarrow> u64 \<Rightarrow> json_step" where
  "val_int is_signed v w = (let (w', c) = json_prefix w in (w', seq_chunks (Some c) (write_integer is_signed v)))"

fun object_kv :: "string \<Rightarrow> json_scalar \<Rightarrow> json_step" where
  "object_kv k (Json_text s) = kv_text k s"
| "object_kv k (Json_cstr s) = kv_cstr k s"
| "object_kv k (Json_bool b) = kv_bool k b"
| "object_kv k Json_null = kv_null k"
| "object_kv k (Json_int sg v) = kv_int k sg v"

fun json_array_val :: "json_scalar \<Rightarrow> json_step" where
  "json_array_val (Json_text s) = val_text s"
| "json_array_val (Json_cstr s) = val_cstr s"
| "json_array_val (Json_bool b) = val_bool b"
| "json_array_val Json_null = val_null"
| "json_array_val (Json_int sg v) = val_int sg v"

text \<open>The writer behind the call, the nested writer, and what was written.\<close>

definition nested_object :: "string \<Rightarrow> json_writer \<Rightarrow> json_writer \<times> json_writer \<times> chunks" where
  "nested_object k w = (let (w', c) = object_key k w; (n, opening) = object_writer_new in (w', n, c @ opening))"

definition nested_array :: "string \<Rightarrow> json_writer \<Rightarrow> json_writer \<times> json_writer \<times> chunks" where
  "nested_array k w = (let (w', c) = object_key k w; (n, opening) = json_array_writer_new in (w', n, c @ opening))"

definition array_obj :: "json_writer \<Rightarrow> json_writer \<times> json_writer \<times> chunks" where
  "array_obj w = (let (w', c) = json_prefix w; (n, opening) = object_writer_new in (w', n, c @ opening))"

section \<open>Programs\<close>

datatype object_call =
  Object_kv string json_scalar
| In_object string "object_call list" bool
| In_array string "element_call list" bool
and element_call =
  Element json_scalar | Object_in_array "object_call list" bool

text \<open>The end of a writer: an explicit \<^verbatim>\<open>end\<close> where the program has one, then the destructor.\<close>

definition object_close :: "json_writer \<Rightarrow> bool \<Rightarrow> chunks" where
  "object_close w explicit =
     (let (w1, c1) = (if explicit then object_end w else (w, [])); (w2, c2) = object_end w1 in c1 @ c2)"

definition json_array_close :: "json_writer \<Rightarrow> bool \<Rightarrow> chunks" where
  "json_array_close w explicit =
     (let (w1, c1) = (if explicit then json_array_end w else (w, [])); (w2, c2) = json_array_end w1 in c1 @ c2)"

fun run_object_call :: "object_call \<Rightarrow> json_step"
  and run_object_calls :: "object_call list \<Rightarrow> json_step"
  and run_element_call :: "element_call \<Rightarrow> json_step"
  and run_element_calls :: "element_call list \<Rightarrow> json_step" where
  "run_object_call (Object_kv k v) w = object_kv k v w"
| "run_object_call (In_object k cs e) w =
     (let (w', n, opening) = nested_object k w; (n', body) = run_object_calls cs n
      in (w', seq_chunks (Some opening) (seq_chunks body (Some (object_close n' e)))))"
| "run_object_call (In_array k cs e) w =
     (let (w', n, opening) = nested_array k w; (n', body) = run_element_calls cs n
      in (w', seq_chunks (Some opening) (seq_chunks body (Some (json_array_close n' e)))))"
| "run_object_calls [] w = (w, Some [])"
| "run_object_calls (c # cs) w =
     (let (w1, c1) = run_object_call c w; (w2, c2) = run_object_calls cs w1 in (w2, seq_chunks c1 c2))"
| "run_element_call (Element v) w = json_array_val v w"
| "run_element_call (Object_in_array cs e) w =
     (let (w', n, opening) = array_obj w; (n', body) = run_object_calls cs n
      in (w', seq_chunks (Some opening) (seq_chunks body (Some (object_close n' e)))))"
| "run_element_calls [] w = (w, Some [])"
| "run_element_calls (c # cs) w =
     (let (w1, c1) = run_element_call c w; (w2, c2) = run_element_calls cs w1 in (w2, seq_chunks c1 c2))"

definition format_json_obj :: "object_call list \<Rightarrow> bool \<Rightarrow> chunks option" where
  "format_json_obj cs explicit =
     (let (w, opening) = object_writer_new; (w', body) = run_object_calls cs w
      in seq_chunks (Some opening) (seq_chunks body (Some (object_close w' explicit))))"

section \<open>Reference reader\<close>

datatype json = J_string string | J_int int | J_bool bool | J_null | J_array "json list" | J_object "(string \<times> json) list"

text \<open>The raw body of a string up to its closing quote; control characters are not allowed in it.\<close>

fun split_body :: "string \<Rightarrow> (string \<times> string) option" where
  "split_body [] = None"
| "split_body (c # s) =
     (if c = CHR 0x22 then Some ([], s)
      else if code c < 0x20 then None
      else if c = CHR 0x5C
      then (case s of [] \<Rightarrow> None | e # t \<Rightarrow> map_option (\<lambda>(b, r). (c # e # b, r)) (split_body t))
      else map_option (\<lambda>(b, r). (c # b, r)) (split_body s))"

definition read_string :: "string \<Rightarrow> (string \<times> string) option" where
  "read_string s =
     (case s of
        [] \<Rightarrow> None
      | c # r \<Rightarrow>
          if c \<noteq> CHR 0x22 then None
          else (case split_body r of
                  None \<Rightarrow> None
                | Some (body, t) \<Rightarrow>
                    let out = decode_json_string (@) (string_sink_init []) body
                    in if sink_failed out then None else Some (sk_target out, t)))"

text \<open>An integer: no leading zero, no fraction.\<close>

definition read_digits :: "string \<Rightarrow> (nat \<times> string) option" where
  "read_digits s =
     (let ds = takeWhile is_dec_digit s
      in if ds = [] \<or> (hd ds = CHR ''0'' \<and> length ds > 1) then None
         else Some (foldl (\<lambda>n c. n * 10 + (code c - 48)) 0 ds, dropWhile is_dec_digit s))"

definition read_int :: "string \<Rightarrow> (json \<times> string) option" where
  "read_int s =
     (case s of
        [] \<Rightarrow> None
      | c # r \<Rightarrow>
          if c = CHR ''-'' then map_option (\<lambda>(n, t). (J_int (- int n), t)) (read_digits r)
          else map_option (\<lambda>(n, t). (J_int (int n), t)) (read_digits s))"

fun json_value :: "nat \<Rightarrow> string \<Rightarrow> (json \<times> string) option"
  and json_elements :: "nat \<Rightarrow> string \<Rightarrow> (json list \<times> string) option"
  and json_members :: "nat \<Rightarrow> string \<Rightarrow> ((string \<times> json) list \<times> string) option" where
  "json_value 0 s = None"
| "json_value (Suc fuel) s =
     (case s of
        [] \<Rightarrow> None
      | c # r \<Rightarrow>
          if c = CHR 0x22 then map_option (\<lambda>(v, t). (J_string v, t)) (read_string s)
          else if c = CHR ''{''
          then (if r \<noteq> [] \<and> hd r = CHR ''}'' then Some (J_object [], tl r)
                else map_option (\<lambda>(ms, t). (J_object ms, t)) (json_members fuel r))
          else if c = CHR ''[''
          then (if r \<noteq> [] \<and> hd r = CHR '']'' then Some (J_array [], tl r)
                else map_option (\<lambda>(xs, t). (J_array xs, t)) (json_elements fuel r))
          else if take 4 s = ''true'' then Some (J_bool True, drop 4 s)
          else if take 5 s = ''false'' then Some (J_bool False, drop 5 s)
          else if take 4 s = ''null'' then Some (J_null, drop 4 s)
          else read_int s)"
| "json_elements 0 s = None"
| "json_elements (Suc fuel) s =
     (case json_value fuel s of
        None \<Rightarrow> None
      | Some (x, t) \<Rightarrow>
          if t = [] then None
          else if hd t = CHR '','' then map_option (\<lambda>(xs, u). (x # xs, u)) (json_elements fuel (tl t))
          else if hd t = CHR '']'' then Some ([x], tl t) else None)"
| "json_members 0 s = None"
| "json_members (Suc fuel) s =
     (case read_string s of
        None \<Rightarrow> None
      | Some (k, t) \<Rightarrow>
          if t = [] \<or> hd t \<noteq> CHR '':'' then None
          else (case json_value fuel (tl t) of
                  None \<Rightarrow> None
                | Some (x, u) \<Rightarrow>
                    if u = [] then None
                    else if hd u = CHR '','' then map_option (\<lambda>(ms, v). ((k, x) # ms, v)) (json_members fuel (tl u))
                    else if hd u = CHR ''}'' then Some ([(k, x)], tl u) else None))"

definition json_read :: "string \<Rightarrow> (json \<times> string) option" where
  "json_read s = json_value (length s) s"

text \<open>The document that a program writes.\<close>

fun json_scalar_value :: "json_scalar \<Rightarrow> json" where
  "json_scalar_value (Json_text s) = J_string s"
| "json_scalar_value (Json_cstr s) = (case s of None \<Rightarrow> J_null | Some t \<Rightarrow> J_string t)"
| "json_scalar_value (Json_bool b) = J_bool b"
| "json_scalar_value Json_null = J_null"
| "json_scalar_value (Json_int sg v) = J_int (if sg then sint v else uint v)"

fun object_call_member :: "object_call \<Rightarrow> string \<times> json"
  and element_call_value :: "element_call \<Rightarrow> json" where
  "object_call_member (Object_kv k v) = (k, json_scalar_value v)"
| "object_call_member (In_object k cs e) = (k, J_object (map object_call_member cs))"
| "object_call_member (In_array k cs e) = (k, J_array (map element_call_value cs))"
| "element_call_value (Element v) = json_scalar_value v"
| "element_call_value (Object_in_array cs e) = J_object (map object_call_member cs)"

section \<open>Strings\<close>

definition escaped :: "string \<Rightarrow> string" where
  "escaped s = concat (concat (map json_escaped_char s))"

lemma escaped_simps [simp]: "escaped [] = []" "escaped (c # s) = concat (json_escaped_char c) @ escaped s"
  by (simp_all add: escaped_def)

lemma write_escaped_string_text [simp]: "concat (write_escaped_string s) = CHR 0x22 # escaped s @ [CHR 0x22]"
  by (simp add: write_escaped_string_def escaped_def)

lemma nibble_upper: "n < 16 \<Longrightarrow> nibble (hex_digits_upper ! n) = Some n"
proof -
  have "list_all (\<lambda>n. nibble (hex_digits_upper ! n) = Some n) [0..<16]"
    by (simp add: upt_conv_Cons hex_digits_upper_def nibble_def)
  then show "n < 16 \<Longrightarrow> nibble (hex_digits_upper ! n) = Some n" by (simp add: list_all_iff)
qed

lemma upper_digit_plain: "n < 16 \<Longrightarrow> 0x20 \<le> code (hex_digits_upper ! n) \<and> hex_digits_upper ! n \<notin> {CHR 0x22, CHR 0x5C}"
proof -
  have "list_all (\<lambda>n. 0x20 \<le> code (hex_digits_upper ! n) \<and> hex_digits_upper ! n \<notin> {CHR 0x22, CHR 0x5C}) [0..<16]"
    by (simp add: upt_conv_Cons hex_digits_upper_def)
  then show "n < 16 \<Longrightarrow> 0x20 \<le> code (hex_digits_upper ! n) \<and> hex_digits_upper ! n \<notin> {CHR 0x22, CHR 0x5C}"
    unfolding list_all_iff by (metis atLeastLessThan_iff set_upt zero_le)
qed

text \<open>Every character of a string is a short escape, a \<open>\u\<close> escape or itself.\<close>

lemma json_escaped_char_cases:
  obtains (short) e where "json_escaped_char c = [[CHR 0x5C, e]]" "json_escape e = Some c" "e \<noteq> CHR ''u''"
  | (unit) d1 d2 where "concat (json_escaped_char c) = [CHR 0x5C, CHR ''u'', CHR ''0'', CHR ''0'', hex_digits_upper ! d1, hex_digits_upper ! d2]"
      "d1 < 16" "d2 < 16" "16 * d1 + d2 = code c" "code c < 0x20"
  | (plain) "json_escaped_char c = [[c]]" "c \<noteq> CHR 0x22" "c \<noteq> CHR 0x5C" "0x20 \<le> code c"
proof -
  consider (a) "c \<in> {CHR 0x22, CHR 0x5C, CHR 0x08, CHR 0x0C, CHR 0x0A, CHR 0x0D, CHR 0x09}"
    | (b) "c \<notin> {CHR 0x22, CHR 0x5C, CHR 0x08, CHR 0x0C, CHR 0x0A, CHR 0x0D, CHR 0x09}" "code c < 0x20"
    | (c) "c \<notin> {CHR 0x22, CHR 0x5C, CHR 0x08, CHR 0x0C, CHR 0x0A, CHR 0x0D, CHR 0x09}" "0x20 \<le> code c" by force
  then show thesis
  proof cases
    case a
    then show ?thesis by (auto simp: json_escaped_char_def json_escape_def intro!: short)
  next
    case b
    then have "16 * (code c div 16 mod 16) + code c mod 16 = code c" by simp
    then show ?thesis using b by (intro unit [of "code c div 16 mod 16" "code c mod 16"]) (simp_all add: json_escaped_char_def)
  next
    case c
    then show ?thesis by (intro plain) (simp_all add: json_escaped_char_def)
  qed
qed

lemma escaped_literal: "json_literal (escaped s) s"
proof (induction s)
  case (Cons c s)
  show ?case
  proof (cases c rule: json_escaped_char_cases)
    case (short e)
    then show ?thesis using json_short [OF short(2) Cons.IH] by simp
  next
    case (unit d1 d2)
    have h: "hex_number [CHR ''0'', CHR ''0'', hex_digits_upper ! d1, hex_digits_upper ! d2] = Some (code c)"
      using unit by (simp add: hex_number_def nibble_upper nibble_def [of "CHR ''0''"])
    have "utf8 (code c) = [c]" "\<not> surrogate (code c)" using unit(5) by (simp_all add: utf8_def surrogate_def)
    then show ?thesis using json_unit [OF _ h _ Cons.IH] unit(1) by simp
  next
    case plain
    then show ?thesis using json_plain [OF plain(3) Cons.IH] by simp
  qed
qed (simp add: json_empty)

lemma split_body_escaped: "split_body (escaped s @ CHR 0x22 # t) = Some (escaped s, t)"
proof (induction s)
  case (Cons c s)
  show ?case
  proof (cases c rule: json_escaped_char_cases)
    case (short e)
    then show ?thesis using Cons.IH by simp
  next
    case (unit d1 d2)
    then show ?thesis using Cons.IH upper_digit_plain [of d1] upper_digit_plain [of d2] by simp
  next
    case plain
    then show ?thesis using Cons.IH by simp
  qed
qed simp

lemma read_string_written: "read_string (concat (write_escaped_string s) @ t) = Some (s, t)"
  using follows_literal [OF decoders_follow(2) escaped_literal, of s]
  by (simp add: read_string_def split_body_escaped Let_def)

section \<open>Integers\<close>

lemma dec_digit_char:
  assumes "d < 10"
  shows "is_dec_digit (hex_digits_lower ! d)" "code (hex_digits_lower ! d) - 48 = d" "hex_digits_lower ! d = CHR ''0'' \<longleftrightarrow> d = 0"
proof -
  have "list_all (\<lambda>d. is_dec_digit (hex_digits_lower ! d) \<and> code (hex_digits_lower ! d) - 48 = d \<and> (hex_digits_lower ! d = CHR ''0'' \<longleftrightarrow> d = 0)) [0..<10]"
    by (simp add: upt_conv_Cons hex_digits_lower_def is_dec_digit_def)
  then show "is_dec_digit (hex_digits_lower ! d)" "code (hex_digits_lower ! d) - 48 = d" "hex_digits_lower ! d = CHR ''0'' \<longleftrightarrow> d = 0"
    using assms by (simp_all add: list_all_iff)
qed

lemma written_digits:
  "(\<forall>c\<in>set (dec_string n). is_dec_digit c) \<and> foldl (\<lambda>n c. n * 10 + (code c - 48)) 0 (dec_string n) = n
     \<and> (0 < n \<longrightarrow> hd (dec_string n) \<noteq> CHR ''0'')"
proof (induction n rule: less_induct)
  case (less n)
  show ?case
  proof (cases "n < 10")
    case True
    then show ?thesis by (simp add: radix_string_small dec_digit_char)
  next
    case False
    then have "n div 10 < n" "0 < n div 10" by simp_all
    then show ?thesis using less.IH [of "n div 10"] False
      by (auto simp: radix_string_big dec_digit_char)
  qed
qed

definition ends :: "string \<Rightarrow> bool" where
  "ends s \<longleftrightarrow> s = [] \<or> \<not> is_dec_digit (hd s)"

lemma read_digits_dec: "ends s \<Longrightarrow> read_digits (dec_string n @ s) = Some (n, s)"
proof -
  assume s: "ends s"
  note d = written_digits [of n]
  have t: "takeWhile is_dec_digit (dec_string n @ s) = dec_string n" "dropWhile is_dec_digit (dec_string n @ s) = s"
    using d s by (cases s; auto simp: takeWhile_append dropWhile_append ends_def)+
  have "hd (dec_string n) = CHR ''0'' \<Longrightarrow> length (dec_string n) = 1"
    using d by (cases "n = 0") (simp_all add: radix_string_small)
  then show ?thesis using d by (auto simp: read_digits_def t Let_def)
qed

lemma write_integer_text:
  "\<exists>ch. write_integer sg v = Some ch \<and> concat ch = (if sg \<and> sint v < 0 then [CHR ''-''] else []) @ dec_string (int_magnitude sg v)"
proof -
  have "\<exists>ch. format_unsigned decimal x False 0 = Some ch \<and> concat ch = dec_string (unat x)" for x
    using format_integer_core_decimal [of x False False 0] by (auto simp: format_unsigned_def)
  then obtain f where f: "\<And>x. format_unsigned decimal x False 0 = Some (f x) \<and> concat (f x) = dec_string (unat x)" by metis
  then show ?thesis using sint_neg_magnitude(1) [of v] sint_nonneg_unat [of v]
    by (auto simp: write_integer_def int_magnitude_def)
qed

lemma written_hd: "is_dec_digit (hd (dec_string n @ s))" "hd (dec_string n @ s) \<noteq> CHR ''-''"
proof -
  obtain c r where c: "dec_string n = c # r" by (metis radix_string_nonempty neq_Nil_conv)
  then have "is_dec_digit c" using written_digits [of n] by simp
  then show "is_dec_digit (hd (dec_string n @ s))" "hd (dec_string n @ s) \<noteq> CHR ''-''" by (auto simp: c is_dec_digit_def)
qed

lemma read_int_written:
  assumes "ends s" and "b = (if sg \<and> sint v < 0 then [CHR ''-''] else []) @ dec_string (int_magnitude sg v)"
  shows "read_int (b @ s) = Some (J_int (if sg then sint v else uint v), s)"
proof (cases "sg \<and> sint v < 0")
  case True
  then show ?thesis using read_digits_dec [OF assms(1)] by (simp add: read_int_def assms(2) int_magnitude_def)
next
  case False
  obtain c r where c: "dec_string (int_magnitude sg v) @ s = c # r" by (metis radix_string_nonempty append_is_Nil_conv neq_Nil_conv)
  have "int (int_magnitude sg v) = (if sg then sint v else uint v)" using False by (auto simp: int_magnitude_def)
  moreover have "read_int (c # r) = Some (J_int (int (int_magnitude sg v)), s)"
    using read_digits_dec [OF assms(1), of "int_magnitude sg v"] written_hd(2) [of "int_magnitude sg v" s] by (simp add: read_int_def c)
  ultimately show ?thesis using False by (auto simp: assms(2) c)
qed

section \<open>Documents\<close>

text \<open>\<open>writes b x\<close>: with any fuel from the length of \<open>b\<close> on, and whatever follows that does not continue a number, the
  reader reads \<open>b\<close> as \<open>x\<close>.\<close>

definition writes :: "string \<Rightarrow> json \<Rightarrow> bool" where
  "writes b x \<longleftrightarrow> b \<noteq> [] \<and> hd b \<noteq> CHR '']'' \<and> (\<forall>fuel s. length b \<le> fuel \<longrightarrow> ends s \<longrightarrow> json_value fuel (b @ s) = Some (x, s))"

definition writes_member :: "string \<Rightarrow> string \<times> json \<Rightarrow> bool" where
  "writes_member b m \<longleftrightarrow> (\<exists>vb. b = concat (write_escaped_string (fst m)) @ CHR '':'' # vb \<and> writes vb (snd m))"

definition with_commas :: "bool \<Rightarrow> string list \<Rightarrow> string" where
  "with_commas first bs = (case bs of [] \<Rightarrow> [] | b # r \<Rightarrow> (if first then b else CHR '','' # b) @ concat (map (Cons (CHR '','')) r))"

lemma ends_simps [simp]: "ends []" "ends (c # s) \<longleftrightarrow> \<not> is_dec_digit c"
  by (simp_all add: ends_def)

lemma punctuation_ends [simp]:
  "\<not> is_dec_digit (CHR '','')" "\<not> is_dec_digit (CHR ''}'')" "\<not> is_dec_digit (CHR '']'')"
  by (simp_all add: is_dec_digit_def)

lemma all_fuel: "(\<forall>fuel. Suc n \<le> fuel \<longrightarrow> P fuel) \<longleftrightarrow> (\<forall>fuel. n \<le> fuel \<longrightarrow> P (Suc fuel))"
  by (metis Suc_le_D Suc_le_mono)

lemma writes_string: "writes (concat (write_escaped_string s)) (J_string s)"
  using read_string_written [of s] by (simp add: writes_def all_fuel)

lemma writes_words: "writes ''null'' J_null" "writes (if b then ''true'' else ''false'') (J_bool b)"
  by (simp_all add: writes_def all_fuel)

lemma writes_int:
  assumes "b = (if sg \<and> sint v < 0 then [CHR ''-''] else []) @ dec_string (int_magnitude sg v)"
  shows "writes b (J_int (if sg then sint v else uint v))"
proof -
  have "\<exists>c r. b = c # r \<and> (is_dec_digit c \<or> c = CHR ''-'')"
    using written_hd(1) [of "int_magnitude sg v" "[]"] assms by (cases "dec_string (int_magnitude sg v)") auto
  then obtain c r where b: "b = c # r" "is_dec_digit c \<or> c = CHR ''-''" by blast
  then have "c \<notin> {CHR 0x22, CHR ''{'', CHR ''['', CHR '']'', CHR ''t'', CHR ''f'', CHR ''n''}" by (auto simp: is_dec_digit_def)
  then show ?thesis using read_int_written [OF _ assms] by (simp add: writes_def b(1) all_fuel)
qed

lemma members_read:
  "list_all2 writes_member (b # bs) (m # ms) \<Longrightarrow> length (with_commas True (b # bs)) < fuel
     \<Longrightarrow> json_members fuel (with_commas True (b # bs) @ CHR ''}'' # s) = Some (m # ms, s)"
proof (induction bs arbitrary: b m ms fuel)
  case Nil
  then obtain f vb where f: "fuel = Suc f" "b = concat (write_escaped_string (fst m)) @ CHR '':'' # vb" "writes vb (snd m)"
    by (cases fuel) (auto simp: writes_member_def with_commas_def)
  have "json_value f (vb @ CHR ''}'' # s) = Some (snd m, CHR ''}'' # s)"
    using f Nil.prems(2) by (simp add: writes_def with_commas_def)
  then show ?case using Nil.prems read_string_written [of "fst m" "CHR '':'' # vb @ CHR ''}'' # s"] f(1,2)
    by (simp add: with_commas_def)
next
  case (Cons b' bs)
  then obtain m' ms' f vb where f: "ms = m' # ms'" "fuel = Suc f" "b = concat (write_escaped_string (fst m)) @ CHR '':'' # vb" "writes vb (snd m)"
    by (cases fuel) (auto simp: writes_member_def with_commas_def list_all2_Cons1)
  let ?rest = "with_commas True (b' # bs)"
  have w: "with_commas True (b # b' # bs) = b @ CHR '','' # ?rest" by (simp add: with_commas_def)
  have "json_value f (vb @ CHR '','' # ?rest @ CHR ''}'' # s) = Some (snd m, CHR '','' # ?rest @ CHR ''}'' # s)"
    using f Cons.prems(2) unfolding w by (simp add: writes_def)
  moreover have "json_members f (?rest @ CHR ''}'' # s) = Some (m' # ms', s)"
    using Cons.prems f w by (intro Cons.IH) simp_all
  ultimately show ?case using read_string_written [of "fst m" "CHR '':'' # vb @ CHR '','' # ?rest @ CHR ''}'' # s"]
    unfolding w f(1,2) by (simp add: f(3))
qed

lemma elements_read:
  "list_all2 writes (b # bs) (x # xs) \<Longrightarrow> length (with_commas True (b # bs)) < fuel
     \<Longrightarrow> json_elements fuel (with_commas True (b # bs) @ CHR '']'' # s) = Some (x # xs, s)"
proof (induction bs arbitrary: b x xs fuel)
  case Nil
  then obtain f where f: "fuel = Suc f" by (cases fuel) simp_all
  have "json_value f (b @ CHR '']'' # s) = Some (x, CHR '']'' # s)" using f Nil.prems by (simp add: writes_def with_commas_def)
  then show ?case using Nil.prems(1) f by (simp add: with_commas_def)
next
  case (Cons b' bs)
  then obtain x' xs' f where f: "xs = x' # xs'" "fuel = Suc f" by (cases fuel) (auto simp: list_all2_Cons1)
  let ?rest = "with_commas True (b' # bs)"
  have w: "with_commas True (b # b' # bs) = b @ CHR '','' # ?rest" by (simp add: with_commas_def)
  have "json_value f (b @ CHR '','' # ?rest @ CHR '']'' # s) = Some (x, CHR '','' # ?rest @ CHR '']'' # s)"
    using f Cons.prems unfolding w by (simp add: writes_def)
  moreover have "json_elements f (?rest @ CHR '']'' # s) = Some (x' # xs', s)"
    using Cons.prems f w by (intro Cons.IH) simp_all
  ultimately show ?case using f by (simp add: w)
qed

lemma object_read:
  assumes "list_all2 writes_member bs ms" and "Suc (Suc (length (with_commas True bs))) \<le> fuel"
  shows "json_value fuel (CHR ''{'' # with_commas True bs @ CHR ''}'' # s) = Some (J_object ms, s)"
proof (cases bs)
  case Nil
  then show ?thesis using assms by (cases fuel) (simp_all add: with_commas_def)
next
  case (Cons b r)
  then obtain m n where m: "ms = m # n" using assms by (auto simp: list_all2_Cons1)
  have "hd (with_commas True bs @ t) \<noteq> CHR ''}''" "with_commas True bs \<noteq> []" for t
    using assms Cons m by (auto simp: with_commas_def writes_member_def)
  then show ?thesis using members_read [of b r m n] assms Cons m by (cases fuel) simp_all
qed

lemma writes_object: "list_all2 writes_member bs ms \<Longrightarrow> writes (CHR ''{'' # with_commas True bs @ [CHR ''}'']) (J_object ms)"
  using object_read [of bs ms] by (simp add: writes_def)

lemma writes_array:
  assumes "list_all2 writes bs xs"
  shows "writes (CHR ''['' # with_commas True bs @ [CHR '']'']) (J_array xs)"
proof (cases bs)
  case Nil
  then show ?thesis using assms by (simp add: writes_def with_commas_def all_fuel)
next
  case (Cons b r)
  then obtain m n where m: "xs = m # n" using assms by (auto simp: list_all2_Cons1)
  have "hd (with_commas True bs @ t) \<noteq> CHR '']''" "with_commas True bs \<noteq> []" for t
    using assms Cons m by (auto simp: with_commas_def writes_def)
  then show ?thesis using elements_read [of b r m n] assms Cons m by (simp add: writes_def all_fuel less_eq_Suc_le)
qed

section \<open>Runs\<close>

text \<open>A call writes, behind its comma, a text that does not depend on the state of the writer.\<close>

definition gives :: "json_step \<Rightarrow> json_writer \<Rightarrow> string \<Rightarrow> bool" where
  "gives step w b \<longleftrightarrow> (\<exists>ch. step w = (w\<lparr>jw_first := False\<rparr>, Some ch) \<and> concat ch = with_commas (jw_first w) [b])"

lemma json_prefix_text: "json_prefix w = (w\<lparr>jw_first := False\<rparr>, snd (json_prefix w))" "concat (snd (json_prefix w)) @ b = with_commas (jw_first w) [b]"
  by (simp_all add: json_prefix_def with_commas_def)

lemma object_key_text:
  "object_key k w = (w\<lparr>jw_first := False\<rparr>, snd (object_key k w))"
  "concat (snd (object_key k w)) @ b = with_commas (jw_first w) [concat (write_escaped_string k) @ CHR '':'' # b]"
  by (simp_all add: object_key_def json_prefix_def with_commas_def)

fun scalar_chunks :: "json_scalar \<Rightarrow> chunks option" where
  "scalar_chunks (Json_text s) = Some (write_escaped_string s)"
| "scalar_chunks (Json_cstr s) = Some (case s of None \<Rightarrow> out_write ''null'' | Some t \<Rightarrow> write_escaped_string t)"
| "scalar_chunks (Json_bool b) = Some (out_write (if b then ''true'' else ''false''))"
| "scalar_chunks Json_null = Some (out_write ''null'')"
| "scalar_chunks (Json_int sg v) = write_integer sg v"

lemma scalar_chunks_write: "\<exists>ch. scalar_chunks v = Some ch \<and> writes (concat ch) (json_scalar_value v)"
proof (cases v)
  case (Json_int sg x)
  then show ?thesis using write_integer_text [of sg x] writes_int [of _ sg x] by auto
qed (use writes_words writes_string in \<open>simp_all split: option.split\<close>)

lemma scalar_calls:
  "object_kv k v w = (fst (object_key k w), seq_chunks (Some (snd (object_key k w))) (scalar_chunks v))"
  "json_array_val v w = (fst (json_prefix w), seq_chunks (Some (snd (json_prefix w))) (scalar_chunks v))"
  by (cases v; simp add: kv_text_def kv_cstr_def kv_bool_def kv_null_def kv_int_def val_text_def val_cstr_def val_bool_def
      val_null_def val_int_def Let_def split_beta)+

lemma gives_key:
  "step w = (fst (object_key k w), Some (snd (object_key k w) @ ch)) \<Longrightarrow> gives step w (concat (write_escaped_string k) @ CHR '':'' # concat ch)"
  "step w = (fst (json_prefix w), Some (snd (json_prefix w) @ ch)) \<Longrightarrow> gives step w (concat ch)"
  by (simp_all add: gives_def object_key_def json_prefix_def with_commas_def)

lemma close_text:
  "\<not> jw_closed w \<Longrightarrow> concat (object_close w e) = [CHR ''}'']" "\<not> jw_closed w \<Longrightarrow> concat (json_array_close w e) = [CHR '']'']"
  by (simp_all add: object_close_def object_end_def json_array_close_def json_array_end_def Let_def)

lemma with_commas_Cons: "with_commas first [b] @ with_commas False bs = with_commas first (b # bs)"
  by (cases bs) (simp_all add: with_commas_def)

definition gives_all :: "json_step \<Rightarrow> string list \<Rightarrow> bool" where
  "gives_all step bs \<longleftrightarrow> (\<forall>w. \<exists>ch. step w = (w\<lparr>jw_first := jw_first w \<and> bs = []\<rparr>, Some ch) \<and> concat ch = with_commas (jw_first w) bs)"

lemma gives_all_Nil: "gives_all (\<lambda>w. (w, Some [])) []"
  by (simp add: gives_all_def with_commas_def)

lemma gives_all_Cons:
  assumes "\<And>w. gives step w b" and "gives_all steps bs"
  shows "gives_all (\<lambda>w. let (w1, c1) = step w; (w2, c2) = steps w1 in (w2, seq_chunks c1 c2)) (b # bs)"
  unfolding gives_all_def
proof
  fix w
  obtain c1 where c1: "step w = (w\<lparr>jw_first := False\<rparr>, Some c1)" "concat c1 = with_commas (jw_first w) [b]"
    using assms(1) by (auto simp: gives_def)
  obtain c2 where c2: "steps (w\<lparr>jw_first := False\<rparr>) = (w\<lparr>jw_first := False\<rparr>, Some c2)" "concat c2 = with_commas False bs"
    using assms(2) [unfolded gives_all_def, rule_format, of "w\<lparr>jw_first := False\<rparr>"] by auto
  show "\<exists>ch. (let (w1, c1) = step w; (w2, c2) = steps w1 in (w2, seq_chunks c1 c2))
        = (w\<lparr>jw_first := jw_first w \<and> b # bs = []\<rparr>, Some ch) \<and> concat ch = with_commas (jw_first w) (b # bs)"
    using c1 c2 with_commas_Cons [of "jw_first w" b bs] by simp
qed

text \<open>The body of a nested writer, with its brackets.\<close>

lemma nested_text:
  assumes "gives_all steps bs" and "n = \<lparr>jw_first = True, jw_closed = False\<rparr>"
  obtains n' body where "steps n = (n', Some body)" "concat body = with_commas True bs" "\<not> jw_closed n'"
  using assms(1) [unfolded gives_all_def, rule_format, of n] assms(2) by auto

lemma object_in:
  assumes "gives_all (run_object_calls cs) bs"
  shows "gives (run_object_call (In_object k cs e)) w (concat (write_escaped_string k) @ CHR '':'' # CHR ''{'' # with_commas True bs @ [CHR ''}''])"
    and "gives (run_element_call (Object_in_array cs e)) w (CHR ''{'' # with_commas True bs @ [CHR ''}''])"
proof -
  obtain n' body where n: "run_object_calls cs \<lparr>jw_first = True, jw_closed = False\<rparr> = (n', Some body)"
    "concat body = with_commas True bs" "\<not> jw_closed n'" using nested_text [OF assms refl] by blast
  show "gives (run_object_call (In_object k cs e)) w (concat (write_escaped_string k) @ CHR '':'' # CHR ''{'' # with_commas True bs @ [CHR ''}''])"
    using gives_key(1) [of "run_object_call (In_object k cs e)" w k "put (CHR ''{'') @ body @ object_close n' e"] n close_text(1) [of n' e]
    by (simp add: nested_object_def object_writer_new_def Let_def split_beta)
  show "gives (run_element_call (Object_in_array cs e)) w (CHR ''{'' # with_commas True bs @ [CHR ''}''])"
    using gives_key(2) [of "run_element_call (Object_in_array cs e)" w "put (CHR ''{'') @ body @ object_close n' e"] n close_text(1) [of n' e]
    by (simp add: array_obj_def object_writer_new_def Let_def split_beta)
qed

lemma array_in:
  assumes "gives_all (run_element_calls cs) bs"
  shows "gives (run_object_call (In_array k cs e)) w (concat (write_escaped_string k) @ CHR '':'' # CHR ''['' # with_commas True bs @ [CHR '']''])"
proof -
  obtain n' body where n: "run_element_calls cs \<lparr>jw_first = True, jw_closed = False\<rparr> = (n', Some body)"
    "concat body = with_commas True bs" "\<not> jw_closed n'" using nested_text [OF assms refl] by blast
  show ?thesis
    using gives_key(1) [of "run_object_call (In_array k cs e)" w k "put (CHR ''['') @ body @ json_array_close n' e"] n close_text(2) [of n' e]
    by (simp add: nested_array_def json_array_writer_new_def Let_def split_beta)
qed

definition member_written :: "object_call \<Rightarrow> bool" where
  "member_written c \<longleftrightarrow> (\<exists>b. (\<forall>w. gives (run_object_call c) w b) \<and> writes_member b (object_call_member c))"

definition element_written :: "element_call \<Rightarrow> bool" where
  "element_written a \<longleftrightarrow> (\<exists>b. (\<forall>w. gives (run_element_call a) w b) \<and> writes b (element_call_value a))"

lemma member_writtenI:
  "(\<And>w. gives (run_object_call c) w (concat (write_escaped_string (fst (object_call_member c))) @ CHR '':'' # vb))
     \<Longrightarrow> writes vb (snd (object_call_member c)) \<Longrightarrow> member_written c"
  unfolding member_written_def writes_member_def by blast

lemma members_written:
  "(\<And>c. c \<in> set cs \<Longrightarrow> member_written c) \<Longrightarrow>
     \<exists>bs. gives_all (run_object_calls cs) bs \<and> list_all2 writes_member bs (map object_call_member cs)"
proof (induction cs)
  case Nil
  show ?case using gives_all_Nil by (intro exI [of _ "[]"]) (simp add: fun_eq_iff gives_all_def)
next
  case (Cons c cs)
  have "member_written c" using Cons.prems by simp
  then obtain b where b: "\<And>w. gives (run_object_call c) w b" "writes_member b (object_call_member c)" by (auto simp: member_written_def)
  obtain bs where bs: "gives_all (run_object_calls cs) bs" "list_all2 writes_member bs (map object_call_member cs)" using Cons by auto
  show ?case using gives_all_Cons [OF b(1) bs(1)] b(2) bs(2) by (intro exI [of _ "b # bs"]) (simp add: gives_all_def)
qed

lemma elements_written:
  "(\<And>c. c \<in> set cs \<Longrightarrow> element_written c) \<Longrightarrow>
     \<exists>bs. gives_all (run_element_calls cs) bs \<and> list_all2 writes bs (map element_call_value cs)"
proof (induction cs)
  case Nil
  show ?case using gives_all_Nil by (intro exI [of _ "[]"]) (simp add: fun_eq_iff gives_all_def)
next
  case (Cons c cs)
  have "element_written c" using Cons.prems by simp
  then obtain b where b: "\<And>w. gives (run_element_call c) w b" "writes b (element_call_value c)" by (auto simp: element_written_def)
  obtain bs where bs: "gives_all (run_element_calls cs) bs" "list_all2 writes bs (map element_call_value cs)" using Cons by auto
  show ?case using gives_all_Cons [OF b(1) bs(1)] b(2) bs(2) by (intro exI [of _ "b # bs"]) (simp add: gives_all_def)
qed

lemma calls_written: "member_written c" "element_written a"
proof (induction c and a)
  case (Object_kv k v)
  obtain ch where "scalar_chunks v = Some ch" "writes (concat ch) (json_scalar_value v)" using scalar_chunks_write by blast
  then have "gives (run_object_call (Object_kv k v)) w (concat (write_escaped_string k) @ CHR '':'' # concat ch)" for w
    by (intro gives_key(1)) (simp add: scalar_calls)
  then show ?case using \<open>writes (concat ch) (json_scalar_value v)\<close> by (intro member_writtenI) simp_all
next
  case (In_object k cs e)
  then obtain bs where "gives_all (run_object_calls cs) bs" "list_all2 writes_member bs (map object_call_member cs)"
    using members_written by blast
  then show ?case using object_in(1) [of cs bs k e] writes_object by (intro member_writtenI) simp_all
next
  case (In_array k cs e)
  then obtain bs where "gives_all (run_element_calls cs) bs" "list_all2 writes bs (map element_call_value cs)"
    using elements_written by blast
  then show ?case using array_in [of cs bs k e] writes_array by (intro member_writtenI) simp_all
next
  case (Element v)
  obtain ch where "scalar_chunks v = Some ch" "writes (concat ch) (json_scalar_value v)" using scalar_chunks_write by blast
  then have "gives (run_element_call (Element v)) w (concat ch)" for w by (intro gives_key(2)) (simp add: scalar_calls)
  then show ?case using \<open>writes (concat ch) (json_scalar_value v)\<close> unfolding element_written_def element_call_value.simps by blast
next
  case (Object_in_array cs e)
  then obtain bs where "gives_all (run_object_calls cs) bs" "list_all2 writes_member bs (map object_call_member cs)"
    using members_written by blast
  then show ?case using object_in(2) writes_object unfolding element_written_def element_call_value.simps by blast
qed

section \<open>Properties\<close>

text \<open>C22: A JSON object written by any tree of calls, with nested objects and arrays ended explicitly or by their destructor,
  is written without leaving a buffer, and the reader of RFC 8259 reads it back as exactly the keys and values of
  the calls, in their order, with what the sink receives afterwards left over. Keys and texts may be any bytes: quotes,
  backslashes and control characters come back through the decoder of JSON literals; integers keep
  their value over both 64-bit ranges.\<close>

theorem json_object_roundtrip:
  "\<exists>ch. format_json_obj calls explicit = Some ch
     \<and> json_read (concat ch @ rest) = Some (J_object (map object_call_member calls), rest)"
proof -
  obtain bs where bs: "gives_all (run_object_calls calls) bs" "list_all2 writes_member bs (map object_call_member calls)"
    using members_written calls_written(1) by blast
  obtain w' body where w: "run_object_calls calls \<lparr>jw_first = True, jw_closed = False\<rparr> = (w', Some body)"
    "concat body = with_commas True bs" "\<not> jw_closed w'" using nested_text [OF bs(1) refl] by blast
  let ?b = "CHR ''{'' # with_commas True bs @ [CHR ''}'']"
  have f: "format_json_obj calls explicit = Some (put (CHR ''{'') @ body @ object_close w' explicit)"
    by (simp add: format_json_obj_def object_writer_new_def w(1) Let_def)
  have c: "concat (put (CHR ''{'') @ body @ object_close w' explicit) = ?b" using close_text(1) [OF w(3)] w(2) by simp
  have "json_value (length (?b @ rest)) (?b @ rest) = Some (J_object (map object_call_member calls), rest)"
    using object_read [OF bs(2), of "length (?b @ rest)" rest] by simp
  then show ?thesis using f c by (simp add: json_read_def)
qed

end
