(* ===== verification/Address_Space.thy ===== *)
theory Address_Space
  imports Microfmt_Prelude
begin

text \<open>
  \<^verbatim>\<open>inspector/address_space.hpp\<close>: the handle through which the inspector reads the memory of another process. The backend
  behind the handle is the caller's: functions for reading and, where it can be written, for writing. A handle
  without a backend is \<^const>\<open>None\<close>. An address has 64 bits. Objects are read as their bytes, least significant first.
\<close>

unbundle bit_operations_syntax

datatype address_space_error =
  As_invalid_handle | As_invalid_address | As_invalid_buffer | As_empty_buffer | As_read_failed | As_write_unsupported | As_write_failed

record space_vtable =
  vt_read_bytes :: "u64 \<Rightarrow> nat \<Rightarrow> u8 list option"
  vt_can_write :: bool
  vt_write_bytes :: "u64 \<Rightarrow> u8 list \<Rightarrow> bool"
  vt_read_string :: "u64 \<Rightarrow> nat \<Rightarrow> (u8 list \<times> bool) option"

type_synonym address_space_ref = "space_vtable option"

definition add_address_offset :: "u64 \<Rightarrow> u64 \<Rightarrow> u64" where
  "add_address_offset address offset =
     (if sint offset \<ge> 0 then address + offset else address - ((- (offset + 1)) + 1))"

definition read_bytes :: "address_space_ref \<Rightarrow> u64 \<Rightarrow> nat \<Rightarrow> address_space_error + u8 list" where
  "read_bytes space addr size' =
     (case space of
        None \<Rightarrow> Inl As_invalid_handle
      | Some vt \<Rightarrow>
          if addr = 0 then Inl As_invalid_address
          else (case vt_read_bytes vt addr size' of None \<Rightarrow> Inl As_read_failed | Some bs \<Rightarrow> Inr bs))"

definition write_bytes :: "address_space_ref \<Rightarrow> u64 \<Rightarrow> u8 list \<Rightarrow> address_space_error + unit" where
  "write_bytes space addr src =
     (case space of
        None \<Rightarrow> Inl As_invalid_handle
      | Some vt \<Rightarrow>
          if addr = 0 then Inl As_invalid_address
          else if \<not> vt_can_write vt then Inl As_write_unsupported
          else if \<not> vt_write_bytes vt addr src then Inl As_write_failed
          else Inr ())"

definition read_string_chunk :: "address_space_ref \<Rightarrow> u64 \<Rightarrow> nat \<Rightarrow> address_space_error + (u8 list \<times> bool)" where
  "read_string_chunk space addr buffer_size =
     (case space of
        None \<Rightarrow> Inl As_invalid_handle
      | Some vt \<Rightarrow>
          if addr = 0 then Inl As_invalid_address
          else if buffer_size = 0 then Inl As_empty_buffer
          else (case vt_read_string vt addr buffer_size of None \<Rightarrow> Inl As_read_failed | Some chunk \<Rightarrow> Inr chunk))"

text \<open>An integer object of the given bytes, and the same as an option.\<close>

fun le_value :: "u8 list \<Rightarrow> u64" where
  "le_value [] = 0"
| "le_value (b # bs) = ucast b + 256 * le_value bs"

definition read_object :: "address_space_ref \<Rightarrow> u64 \<Rightarrow> nat \<Rightarrow> u64 option" where
  "read_object space addr size' = (case read_bytes space addr size' of Inl e \<Rightarrow> None | Inr bs \<Rightarrow> Some (le_value bs))"

text \<open>A signed offset is added to an address as in modular arithmetic, also the least one, whose magnitude is not a
  signed number.\<close>

lemma add_address_offset_wraps: "add_address_offset address offset = address + offset"
  by (simp add: add_address_offset_def)

section \<open>Contents of memory\<close>

text \<open>The bytes at an address are readable in all their pieces, and a space that holds nothing but some bytes.\<close>

definition holds :: "address_space_ref \<Rightarrow> u64 \<Rightarrow> u8 list \<Rightarrow> bool" where
  "holds space addr bs \<longleftrightarrow>
     (\<forall>k n. 0 < n \<longrightarrow> k + n \<le> length bs \<longrightarrow> read_bytes space (addr + of_nat k) n = Inr (take n (drop k bs)))"

definition flat_memory :: "u64 \<Rightarrow> u8 list \<Rightarrow> address_space_ref" where
  "flat_memory base bs =
     Some \<lparr>vt_read_bytes = (\<lambda>addr n. if base \<le> addr \<and> unat (addr - base) + n \<le> length bs
                                     then Some (take n (drop (unat (addr - base)) bs)) else None),
           vt_can_write = False, vt_write_bytes = (\<lambda>addr src. False), vt_read_string = (\<lambda>addr n. None)\<rparr>"

lemma holds_read:
  assumes "holds space addr (bs @ rest)" and "bs \<noteq> []"
  shows "read_bytes space addr (length bs) = Inr bs"
  using assms(1) [unfolded holds_def, THEN spec [of _ 0], THEN spec [of _ "length bs"]] assms(2) by simp

lemma holds_append: "holds space addr (bs @ rest) \<Longrightarrow> holds space (addr + of_nat (length bs)) rest"
  unfolding holds_def
proof (intro allI impI)
  fix k n
  assume h: "\<forall>k n. 0 < n \<longrightarrow> k + n \<le> length (bs @ rest)
               \<longrightarrow> read_bytes space (addr + of_nat k) n = Inr (take n (drop k (bs @ rest)))"
    and "0 < n" "k + n \<le> length rest"
  then show "read_bytes space (addr + of_nat (length bs) + of_nat k) n = Inr (take n (drop k rest))"
    using h [THEN spec [of _ "length bs + k"], THEN spec [of _ n]] by (simp add: add.assoc)
qed

lemma holds_prefix: "holds space addr (bs @ rest) \<Longrightarrow> holds space addr bs"
  by (auto simp: holds_def)

lemma holds_Cons:
  assumes "holds space addr (b # bs)"
  shows "read_bytes space addr 1 = Inr [b]" and "holds space (addr + 1) bs"
  using holds_read [of space addr "[b]" bs] holds_append [of space addr "[b]" bs] assms by simp_all

lemma flat_memory_holds:
  assumes "base \<noteq> 0" and "unat base + length bs \<le> 2 ^ 64"
  shows "holds (flat_memory base bs) base bs"
  unfolding holds_def
proof (intro allI impI)
  fix k n :: nat
  assume kn: "0 < n" "k + n \<le> length bs"
  have k: "unat (of_nat k :: u64) = k" using kn assms(2) by (simp add: unat_of_nat)
  have "unat base + unat (of_nat k :: u64) < 2 ^ 64" unfolding k using kn assms(2) by linarith
  then have sum: "unat (base + of_nat k) = unat base + k" using k unat_add_lem [of base "of_nat k"] by simp
  then have le: "base \<le> base + of_nat k" by (simp add: word_le_nat_alt)
  moreover have "base + of_nat k \<noteq> 0" using sum assms(1) by (auto simp: unat_eq_0)
  ultimately show "read_bytes (flat_memory base bs) (base + of_nat k) n = Inr (take n (drop k bs))"
    using kn k by (simp add: read_bytes_def flat_memory_def)
qed

text \<open>From some address on nothing can be read, as in the upper half of an address space.\<close>

definition unreadable_from :: "address_space_ref \<Rightarrow> u64 \<Rightarrow> bool" where
  "unreadable_from space hi \<longleftrightarrow> (\<forall>addr n. hi \<le> addr \<longrightarrow> 0 < n \<longrightarrow> (\<exists>e. read_bytes space addr n = Inl e))"

lemma unreadable_read: "unreadable_from space hi \<Longrightarrow> \<not> addr < hi \<Longrightarrow> 0 < n \<Longrightarrow> \<exists>e. read_bytes space addr n = Inl e"
  by (simp add: unreadable_from_def)

text \<open>A backend fills the buffer it is given.\<close>

definition fills_buffer :: "address_space_ref \<Rightarrow> bool" where
  "fills_buffer space \<longleftrightarrow> (\<forall>addr n bs. read_bytes space addr n = Inr bs \<longrightarrow> length bs = n)"

lemma flat_memory_unreadable:
  assumes "unat base + length bs \<le> unat hi"
  shows "unreadable_from (flat_memory base bs) hi"
  unfolding unreadable_from_def
proof (intro allI impI)
  fix addr :: u64 and n :: nat
  assume a: "hi \<le> addr" "0 < n"
  then have "unat (addr - base) = unat addr - unat base" using assms by (intro unat_sub) (simp add: word_le_nat_alt)
  then have "\<not> unat (addr - base) + n \<le> length bs" using a assms by (simp add: word_le_nat_alt)
  then show "\<exists>e. read_bytes (flat_memory base bs) addr n = Inl e" by (simp add: read_bytes_def flat_memory_def)
qed

lemma flat_memory_fills: "fills_buffer (flat_memory base bs)"
  by (auto simp: fills_buffer_def flat_memory_def read_bytes_def split: if_splits)

lemma le_value_less: "8 * length bs \<le> 56 \<Longrightarrow> unat (le_value bs) < 2 ^ (8 * length bs)"
proof (induction bs)
  case (Cons b bs)
  have b: "unat b < 256" using unsigned_less [of b, where 'a = nat] by simp
  have IH: "unat (le_value bs) < 2 ^ (8 * length bs)" using Cons by simp
  have p: "(2 :: nat) ^ (8 * length bs) \<le> 2 ^ 48" using Cons.prems by (intro power_increasing) auto
  have s: "unat b + 256 * unat (le_value bs) < 2 ^ (8 * length (b # bs))" using b IH by (simp add: power_add)
  have "2 ^ (8 * length (b # bs)) \<le> (2 :: nat) ^ 56" using Cons.prems by (intro power_increasing) auto
  then have "unat (ucast b + 256 * le_value bs) = unat b + 256 * unat (le_value bs)"
    using b IH s p by (simp add: unat_word_ariths unsigned_ucast_eq take_bit_nat_eq_self)
  then show ?case using s by simp
qed simp

lemma read_object_less:
  assumes "fills_buffer space" and "read_object space addr n = Some v" and "n \<le> 7"
  shows "unat v < 2 ^ (8 * n)"
  using assms le_value_less by (force simp: read_object_def fills_buffer_def split: sum.splits)

end
