(* ===== verification/Leb128.thy ===== *)
theory Leb128
  imports Address_Space
begin

text \<open>
  The LEB128 readers of \<^verbatim>\<open>inspector/dwarf_decoder.hpp\<close>, against the encoders of the DWARF standard: a number is
  written seven bits at a time, the least significant first, and every byte but the last has its top bit set.
\<close>

unbundle bit_operations_syntax

section \<open>Readers\<close>

definition read_byte :: "address_space_ref \<Rightarrow> u64 \<Rightarrow> u8 option" where
  "read_byte space addr = (case read_bytes space addr 1 of Inl e \<Rightarrow> None | Inr bs \<Rightarrow> Some (hd bs))"

text \<open>The loops of at most ten rounds. The address is passed by reference: it has moved also on failure.\<close>

fun uleb_loop :: "nat \<Rightarrow> address_space_ref \<Rightarrow> u64 \<Rightarrow> u64 \<Rightarrow> nat \<Rightarrow> u64 option \<times> u64" where
  "uleb_loop 0 space addr result shift = (None, addr)"
| "uleb_loop (Suc n) space addr result shift =
     (case read_byte space addr of
        None \<Rightarrow> (None, addr + 1)
      | Some byte \<Rightarrow>
          let result' = result OR push_bit shift (ucast (byte AND 0x7F))
          in if byte AND 0x80 = 0 then (Some result', addr + 1)
             else uleb_loop n space (addr + 1) result' (shift + 7))"

definition read_uleb128 :: "address_space_ref \<Rightarrow> u64 \<Rightarrow> u64 option \<times> u64" where
  "read_uleb128 space addr = uleb_loop 10 space addr 0 0"

fun sleb_loop :: "nat \<Rightarrow> address_space_ref \<Rightarrow> u64 \<Rightarrow> u64 \<Rightarrow> nat \<Rightarrow> u64 option \<times> u64" where
  "sleb_loop 0 space addr result shift = (None, addr)"
| "sleb_loop (Suc n) space addr result shift =
     (case read_byte space addr of
        None \<Rightarrow> (None, addr + 1)
      | Some byte \<Rightarrow>
          let result' = result OR push_bit shift (ucast (byte AND 0x7F)); shift' = shift + 7
          in if byte AND 0x80 = 0
             then (Some (if shift' < 64 \<and> byte AND 0x40 \<noteq> 0 then result' OR push_bit shift' (- 1) else result'), addr + 1)
             else sleb_loop n space (addr + 1) result' shift')"

definition read_sleb128 :: "address_space_ref \<Rightarrow> u64 \<Rightarrow> u64 option \<times> u64" where
  "read_sleb128 space addr = sleb_loop 10 space addr 0 0"

section \<open>Encoders\<close>

function uleb_bytes :: "nat \<Rightarrow> u8 list" where
  "uleb_bytes n = (if n < 128 then [of_nat n] else of_nat (n mod 128 + 128) # uleb_bytes (n div 128))"
  by auto
termination by (relation "measure id") auto

function sleb_bytes :: "int \<Rightarrow> u8 list" where
  "sleb_bytes v = (if - 64 \<le> v \<and> v < 64 then [of_int (v mod 128)] else of_int (v mod 128 + 128) # sleb_bytes (v div 128))"
  by auto
termination by (relation "measure (\<lambda>v. nat \<bar>v\<bar>)") auto

declare uleb_bytes.simps [simp del] sleb_bytes.simps [simp del]

lemma uleb_bytes_length: "n < 128 ^ Suc k \<Longrightarrow> length (uleb_bytes n) \<le> Suc k"
proof (induction k arbitrary: n)
  case (Suc k)
  then have "n div 128 < 128 ^ Suc k" by (simp add: less_mult_imp_div_less)
  from Suc.IH [OF this] show ?case by (subst uleb_bytes.simps) simp
qed (simp add: uleb_bytes.simps)

lemma sleb_bytes_length: "- 64 * 128 ^ k \<le> v \<Longrightarrow> v < 64 * 128 ^ k \<Longrightarrow> length (sleb_bytes v) \<le> Suc k"
proof (induction k arbitrary: v)
  case (Suc k)
  then have "- 64 * 128 ^ k \<le> v div 128" by simp
  moreover have "v div 128 < 64 * 128 ^ k" using Suc.prems by simp
  ultimately show ?case using Suc.IH [of "v div 128"] by (subst sleb_bytes.simps) simp
qed (simp add: sleb_bytes.simps)

section \<open>Round trips\<close>

lemma read_byte_Cons: "holds space addr (b # bs) \<Longrightarrow> read_byte space addr = Some b"
  using holds_Cons(1) [of space addr b bs] by (simp add: read_byte_def)

text \<open>The two parts of a byte: seven bits of payload and the mark that more follow.\<close>

lemma byte_parts:
  assumes "d < 128"
  shows "(of_nat d :: u8) AND 0x7F = of_nat d" "(of_nat d :: u8) AND 0x80 = 0"
    "(of_nat (d + 128) :: u8) AND 0x7F = of_nat d" "(of_nat (d + 128) :: u8) AND 0x80 \<noteq> 0"
proof -
  have "\<forall>d \<in> set [0..<128]. (of_nat d :: u8) AND 0x7F = of_nat d \<and> (of_nat d :: u8) AND 0x80 = 0
          \<and> (of_nat (d + 128) :: u8) AND 0x7F = of_nat d \<and> (of_nat (d + 128) :: u8) AND 0x80 \<noteq> 0"
    by code_simp
  then show "(of_nat d :: u8) AND 0x7F = of_nat d" "(of_nat d :: u8) AND 0x80 = 0"
    "(of_nat (d + 128) :: u8) AND 0x7F = of_nat d" "(of_nat (d + 128) :: u8) AND 0x80 \<noteq> 0"
    using assms by auto
qed

lemma payload_added:
  fixes result :: u64
  assumes "unat result < 2 ^ shift" and "d < 128"
  shows "result OR push_bit shift (ucast (of_nat d :: u8)) = result + of_nat d * 2 ^ shift"
    and "unat (result + of_nat d * 2 ^ shift) < 2 ^ (shift + 7)"
proof -
  have "ucast (of_nat d :: u8) = (of_nat d :: u64)" using assms(2) by (simp add: unsigned_of_nat take_bit_nat_eq_self)
  then show "result OR push_bit shift (ucast (of_nat d :: u8)) = result + of_nat d * 2 ^ shift"
    using or_push_bit_add [OF assms(1), of "of_nat d"] by (simp add: or.commute add.commute)
  have "result + of_nat d * 2 ^ shift = of_nat (unat result + d * 2 ^ shift)" by simp
  moreover have "unat (of_nat x :: u64) \<le> x" for x by (simp add: unat_of_nat)
  ultimately have "unat (result + of_nat d * 2 ^ shift) \<le> unat result + d * 2 ^ shift" by metis
  also have "\<dots> < 2 ^ shift + 127 * 2 ^ shift" using assms by (intro add_less_le_mono mult_right_mono) auto
  finally show "unat (result + of_nat d * 2 ^ shift) < 2 ^ (shift + 7)" by (simp add: power_add)
qed

lemma uleb_loop_reads:
  assumes "holds space addr (uleb_bytes n @ rest)" and "unat result < 2 ^ shift" and "length (uleb_bytes n) \<le> fuel"
  shows "uleb_loop fuel space addr result shift
           = (Some (result + of_nat n * 2 ^ shift), addr + of_nat (length (uleb_bytes n)))"
  using assms
proof (induction n arbitrary: addr result shift fuel rule: uleb_bytes.induct)
  case (1 n)
  show ?case
  proof (cases "n < 128")
    case True
    then have b: "uleb_bytes n = [of_nat n]" by (simp add: uleb_bytes.simps)
    obtain f where f: "fuel = Suc f" using "1.prems"(3) b by (cases fuel) auto
    have "read_byte space addr = Some (of_nat n)" using "1.prems"(1) b by (auto intro: read_byte_Cons)
    then show ?thesis using True byte_parts [OF True] payload_added(1) [OF "1.prems"(2) True] by (simp add: f b)
  next
    case False
    let ?d = "n mod 128" and ?n = "n div 128"
    have d: "?d < 128" by simp
    have b: "uleb_bytes n = of_nat (?d + 128) # uleb_bytes ?n" using False by (subst uleb_bytes.simps) simp
    obtain f where f: "fuel = Suc f" using "1.prems"(3) b by (cases fuel) auto
    have r: "read_byte space addr = Some (of_nat (?d + 128))" using "1.prems"(1) unfolding b by (auto intro: read_byte_Cons)
    have h: "holds space (addr + 1) (uleb_bytes ?n @ rest)" using "1.prems"(1) unfolding b by (auto dest: holds_Cons)
    have l: "length (uleb_bytes ?n) \<le> f" using "1.prems"(3) by (simp add: b f)
    have "(of_nat n :: u64) = of_nat ?d + 128 * of_nat ?n" by (metis mod_mult_div_eq of_nat_add of_nat_mult of_nat_numeral)
    then have v: "result + of_nat n * 2 ^ shift = result + of_nat ?d * 2 ^ shift + of_nat ?n * 2 ^ (shift + 7)"
      by (simp add: power_add algebra_simps)
    show ?thesis
      using "1.IH" [OF False h payload_added(2) [OF "1.prems"(2) d] l] byte_parts [OF d]
      by (simp add: f r b payload_added(1) [OF "1.prems"(2) d] v Let_def)
  qed
qed

lemma sign_bit:
  assumes "- 64 \<le> v" and "v < 64"
  shows "(of_int (v mod 128) :: u8) AND 0x40 \<noteq> 0 \<longleftrightarrow> v < 0"
proof -
  have "\<forall>v \<in> {- 64..63}. (of_int (v mod 128) :: u8) AND 0x40 \<noteq> 0 \<longleftrightarrow> v < 0" by code_simp
  from this [rule_format, of v] show ?thesis using assms by simp
qed

text \<open>The last byte of a signed number, with its sign extended to the rest of the word.\<close>

lemma sign_extended:
  fixes result :: u64
  assumes "unat result < 2 ^ shift" and "- 64 \<le> v" and "v < 64"
  defines "d \<equiv> nat (v mod 128)"
  shows "(if shift + 7 < 64 \<and> v < 0 then (result + of_nat d * 2 ^ shift) OR push_bit (shift + 7) (- 1)
          else result + of_nat d * 2 ^ shift) = result + of_int v * 2 ^ shift"
proof -
  have d: "int d = (if v < 0 then v + 128 else v)" 
  proof (cases "v < 0")
    case True
    then have "(v + 128) mod 128 = v + 128" using assms(2) by (intro mod_pos_pos_trivial) auto
    then show ?thesis using True assms(2) by (simp add: d_def)
  qed (use assms(3) in \<open>simp add: d_def\<close>)
  then have "of_nat d = (of_int (if v < 0 then v + 128 else v) :: u64)" by (metis of_int_of_nat_eq)
  then have w: "(of_nat d :: u64) = (if v < 0 then of_int v + 128 else of_int v)" by simp
  have "d < 128" using d assms(2,3) by (auto split: if_splits)
  note bound = payload_added(2) [OF assms(1) this]
  have "(result + of_nat d * 2 ^ shift) OR push_bit (shift + 7) (- 1) = result + of_nat d * 2 ^ shift - 2 ^ (shift + 7)"
    using or_push_bit_add [OF bound, of "- 1"] by (simp add: or.commute)
  moreover have "(2 :: u64) ^ (shift + 7) = 0" if "\<not> shift + 7 < 64" using that by (simp add: exp_eq_zero_iff)
  moreover have "of_int v * 2 ^ shift = (of_nat d :: u64) * 2 ^ shift - (if v < 0 then 2 ^ (shift + 7) else 0)"
    unfolding w by (simp add: power_add algebra_simps)
  ultimately show ?thesis by (cases "v < 0"; cases "shift + 7 < 64") simp_all
qed

lemma sleb_loop_reads:
  assumes "holds space addr (sleb_bytes v @ rest)" and "unat result < 2 ^ shift" and "length (sleb_bytes v) \<le> fuel"
  shows "sleb_loop fuel space addr result shift
           = (Some (result + of_int v * 2 ^ shift), addr + of_nat (length (sleb_bytes v)))"
  using assms
proof (induction v arbitrary: addr result shift fuel rule: sleb_bytes.induct)
  case (1 v)
  let ?d = "nat (v mod 128)" and ?v = "v div 128"
  have d: "?d < 128" by simp
  have c: "(of_int (v mod 128) :: u8) = of_nat ?d" "(of_int (v mod 128 + 128) :: u8) = of_nat (?d + 128)" by simp_all
  show ?case
  proof (cases "- 64 \<le> v \<and> v < 64")
    case True
    then have b: "sleb_bytes v = [of_nat ?d]" using c by (simp add: sleb_bytes.simps)
    obtain f where f: "fuel = Suc f" using "1.prems"(3) b by (cases fuel) auto
    have r: "read_byte space addr = Some (of_nat ?d)" using "1.prems"(1) unfolding b by (auto intro: read_byte_Cons)
    show ?thesis
      using True byte_parts [OF d] sign_bit [of v] sign_extended [OF "1.prems"(2), of v]
      by (simp add: f b r payload_added(1) [OF "1.prems"(2) d] Let_def c del: of_nat_nat)
  next
    case False
    have b: "sleb_bytes v = of_nat (?d + 128) # sleb_bytes ?v" using False c by (subst sleb_bytes.simps) simp
    obtain f where f: "fuel = Suc f" using "1.prems"(3) b by (cases fuel) auto
    have r: "read_byte space addr = Some (of_nat (?d + 128))" using "1.prems"(1) unfolding b by (auto intro: read_byte_Cons)
    have h: "holds space (addr + 1) (sleb_bytes ?v @ rest)" using "1.prems"(1) unfolding b by (auto dest: holds_Cons)
    have l: "length (sleb_bytes ?v) \<le> f" using "1.prems"(3) by (simp add: b f)
    have "(of_int v :: u64) = of_int (v mod 128 + 128 * ?v)" by (simp only: mod_mult_div_eq)
    also have "\<dots> = of_nat ?d + 128 * of_int ?v" by (simp only: of_int_add of_int_mult of_int_numeral) simp
    finally have v: "result + of_int v * 2 ^ shift = result + of_nat ?d * 2 ^ shift + of_int ?v * 2 ^ (shift + 7)"
      by (simp add: power_add algebra_simps)
    show ?thesis
      using "1.IH" [OF False h payload_added(2) [OF "1.prems"(2) d] l] byte_parts [OF d]
      by (simp add: f r b payload_added(1) [OF "1.prems"(2) d] v Let_def del: of_nat_nat of_nat_add)
  qed
qed

section \<open>Operands\<close>

text \<open>What the interpreter of call frame instructions needs of a number format: an encoded operand is read back and the
  address moves behind it, and no read moves the address by more than ten bytes.\<close>

locale operand_format =
  fixes enc :: "u64 \<Rightarrow> u8 list"
    and rd :: "address_space_ref \<Rightarrow> u64 \<Rightarrow> u64 option \<times> u64"
  assumes reads_back: "holds space addr (enc v @ rest) \<Longrightarrow> rd space addr = (Some v, addr + of_nat (length (enc v)))"
    and moves: "\<exists>d. snd (rd space addr) = addr + of_nat d \<and> 1 \<le> d \<and> d \<le> 10"
begin

text \<open>Code that reads an operand and goes on behind it, or gives up.\<close>

lemma operand_read:
  assumes "holds space addr (enc v @ rest)"
  shows "(case rd space addr of (None, addr') \<Rightarrow> failed addr' | (Some x, addr') \<Rightarrow> k x addr') = k v (addr + of_nat (length (enc v)))"
    and "holds space (addr + of_nat (length (enc v))) rest"
  using reads_back [OF assms] holds_append [OF assms] by simp_all

lemma read_moves: "rd space addr = (r, addr') \<Longrightarrow> \<exists>d. addr' = addr + of_nat d \<and> 1 \<le> d \<and> d \<le> 10"
  using moves [of space addr] by simp

end

lemma uleb_loop_moves: "\<exists>d. snd (uleb_loop (Suc n) space addr result shift) = addr + of_nat d \<and> 1 \<le> d \<and> d \<le> Suc n"
proof (induction n arbitrary: addr result shift)
  case 0
  show ?case by (rule exI [of _ 1]) (auto simp: Let_def split: option.splits)
next
  case (Suc n)
  have moved: "\<exists>d. snd (uleb_loop (Suc n) space (addr + 1) result' shift') = addr + of_nat d \<and> 1 \<le> d \<and> d \<le> Suc (Suc n)"
    for result' shift'
  proof -
    obtain d where "snd (uleb_loop (Suc n) space (addr + 1) result' shift') = addr + 1 + of_nat d" "1 \<le> d" "d \<le> Suc n"
      using Suc by blast
    then show ?thesis by (intro exI [of _ "Suc d"]) (simp add: add.assoc)
  qed
  have one: "\<exists>d. addr + 1 = addr + of_nat d \<and> 1 \<le> d \<and> d \<le> Suc (Suc n)" by (rule exI [of _ 1]) simp
  show ?case
    by (subst uleb_loop.simps) (use moved one in \<open>auto simp: Let_def split: option.splits simp del: uleb_loop.simps\<close>)
qed

lemma sleb_loop_moves: "\<exists>d. snd (sleb_loop (Suc n) space addr result shift) = addr + of_nat d \<and> 1 \<le> d \<and> d \<le> Suc n"
proof (induction n arbitrary: addr result shift)
  case 0
  show ?case by (rule exI [of _ 1]) (auto simp: Let_def split: option.splits)
next
  case (Suc n)
  have moved: "\<exists>d. snd (sleb_loop (Suc n) space (addr + 1) result' shift') = addr + of_nat d \<and> 1 \<le> d \<and> d \<le> Suc (Suc n)"
    for result' shift'
  proof -
    obtain d where "snd (sleb_loop (Suc n) space (addr + 1) result' shift') = addr + 1 + of_nat d" "1 \<le> d" "d \<le> Suc n"
      using Suc by blast
    then show ?thesis by (intro exI [of _ "Suc d"]) (simp add: add.assoc)
  qed
  have one: "\<exists>d. addr + 1 = addr + of_nat d \<and> 1 \<le> d \<and> d \<le> Suc (Suc n)" by (rule exI [of _ 1]) simp
  show ?case
    by (subst sleb_loop.simps) (use moved one in \<open>auto simp: Let_def split: option.splits simp del: sleb_loop.simps\<close>)
qed

abbreviation uleb_word :: "u64 \<Rightarrow> u8 list" where
  "uleb_word v \<equiv> uleb_bytes (unat v)"

abbreviation sleb_word :: "u64 \<Rightarrow> u8 list" where
  "sleb_word v \<equiv> sleb_bytes (sint v)"

interpretation uleb: operand_format uleb_word read_uleb128
proof unfold_locales
  fix space :: address_space_ref and addr v :: u64 and rest
  have "unat v < 128 ^ Suc 9" using unsigned_less [of v, where 'a = nat] by simp
  then have "length (uleb_word v) \<le> 10" using uleb_bytes_length [of "unat v" 9] by simp
  then show "read_uleb128 space addr = (Some v, addr + of_nat (length (uleb_word v)))" if "holds space addr (uleb_word v @ rest)"
    using uleb_loop_reads [OF that, of 0 0 10] by (simp add: read_uleb128_def)
  show "\<exists>d. snd (read_uleb128 space addr) = addr + of_nat d \<and> 1 \<le> d \<and> d \<le> 10"
    using uleb_loop_moves [of 9 space addr 0 0] by (simp add: read_uleb128_def del: uleb_loop.simps)
qed

interpretation sleb: operand_format sleb_word read_sleb128
proof unfold_locales
  fix space :: address_space_ref and addr v :: u64 and rest
  have "- 64 * 128 ^ 9 \<le> sint v" "sint v < 64 * 128 ^ 9" using sint_greater_eq [of v] sint_less [of v] by simp_all
  then have "length (sleb_word v) \<le> 10" using sleb_bytes_length [of 9 "sint v"] by simp
  then show "read_sleb128 space addr = (Some v, addr + of_nat (length (sleb_word v)))" if "holds space addr (sleb_word v @ rest)"
    using sleb_loop_reads [OF that, of 0 0 10] by (simp add: read_sleb128_def)
  show "\<exists>d. snd (read_sleb128 space addr) = addr + of_nat d \<and> 1 \<le> d \<and> d \<le> 10"
    using sleb_loop_moves [of 9 space addr 0 0] by (simp add: read_sleb128_def del: sleb_loop.simps)
qed

section \<open>Properties\<close>

text \<open>An unsigned and a signed number of 64 bits in the LEB128 encoding of the DWARF standard, one behind the other at any
  readable address, are read back exactly: every value of both ranges, ten bytes long or one, with the sign extended,
  and the address passed by reference stands behind the bytes read.\<close>

theorem leb128_roundtrip:
  assumes "holds space addr (uleb_bytes (unat u) @ sleb_bytes (sint s) @ rest)"
  shows "read_uleb128 space addr = (Some u, addr + of_nat (length (uleb_bytes (unat u))))
         \<and> read_sleb128 space (addr + of_nat (length (uleb_bytes (unat u))))
             = (Some s, addr + of_nat (length (uleb_bytes (unat u))) + of_nat (length (sleb_bytes (sint s))))"
  using uleb.reads_back [OF assms] sleb.reads_back [OF holds_append [OF assms]] by (simp add: add.assoc)

theorem leb128_roundtrip_witness:
  "read_uleb128 (flat_memory 0x1000 [0xE5, 0x8E, 0x26, 0x80, 0x7F]) 0x1000 = (Some 624485, 0x1003)
   \<and> read_sleb128 (flat_memory 0x1000 [0xE5, 0x8E, 0x26, 0x80, 0x7F]) 0x1003 = (Some (- 128), 0x1005)"
proof -
  have u: "uleb_bytes (unat (624485 :: u64)) = [0xE5, 0x8E, 0x26]" by (simp add: uleb_bytes.simps)
  have s: "sleb_bytes (sint (- 128 :: u64)) = [0x80, 0x7F]" by (simp add: sleb_bytes.simps)
  have "holds (flat_memory 0x1000 [0xE5, 0x8E, 0x26, 0x80, 0x7F]) 0x1000 ([0xE5, 0x8E, 0x26] @ [0x80, 0x7F] @ [])"
    using flat_memory_holds [of "0x1000" "[0xE5, 0x8E, 0x26, 0x80, 0x7F]"] by simp
  then show ?thesis
    using leb128_roundtrip [of "flat_memory 0x1000 [0xE5, 0x8E, 0x26, 0x80, 0x7F]" "0x1000" 624485 "- 128" "[]"]
    unfolding u s by simp
qed

end
