(* ===== verification/Dwarf_Cfi.thy ===== *)
theory Dwarf_Cfi
  imports Leb128
begin

text \<open>
  \<^verbatim>\<open>inspector/dwarf_decoder.hpp\<close> with the traits of \<^verbatim>\<open>inspector/dwarf_abi.hpp\<close>: the interpreter of call frame
  instructions, the unwinding of one frame and the search of the frame section. Memory and registers of the target are
  behind handles, parameters of every definition. A destination of a failed read keeps its value. The
  instruction loop and the search walk addresses of the target, which may wrap; they are partial functions, and
  \<^const>\<open>None\<close> is a loop that does not end.
\<close>

section \<open>ABI traits\<close>

record abi_traits =
  ab_pointer_size :: nat
  ab_sp_reg :: u32
  ab_ra_reg :: u32
  ab_fp_reg :: u32
  ab_is_frame_pointer :: "u32 \<Rightarrow> bool"
  ab_normalize_pc :: "u64 \<Rightarrow> u64"

definition is_return_address_register :: "abi_traits \<Rightarrow> u32 \<Rightarrow> bool" where
  "is_return_address_register abi reg \<longleftrightarrow> reg = ab_ra_reg abi"

definition arm_abi_traits :: abi_traits where
  "arm_abi_traits =
     \<lparr>ab_pointer_size = 4, ab_sp_reg = 13, ab_ra_reg = 14, ab_fp_reg = 11, ab_is_frame_pointer = (\<lambda>reg. reg = 11 \<or> reg = 7),
      ab_normalize_pc = (\<lambda>ra. ra AND NOT 1)\<rparr>"

definition aarch64_normalize_pc :: "u64 \<Rightarrow> u64" where
  "aarch64_normalize_pc raw_ra =
     (let pc = raw_ra AND NOT 1
      in if pc AND push_bit 63 1 \<noteq> 0 then (pc AND 0x0000FFFFFFFFFFFF) OR 0xFFFF000000000000
         else pc AND 0x0000FFFFFFFFFFFF)"

definition aarch64_abi_traits :: abi_traits where
  "aarch64_abi_traits =
     \<lparr>ab_pointer_size = 8, ab_sp_reg = 31, ab_ra_reg = 30, ab_fp_reg = 29, ab_is_frame_pointer = (\<lambda>reg. reg = 29),
      ab_normalize_pc = aarch64_normalize_pc\<rparr>"

definition riscv32_abi_traits :: abi_traits where
  "riscv32_abi_traits =
     \<lparr>ab_pointer_size = 4, ab_sp_reg = 2, ab_ra_reg = 1, ab_fp_reg = 8, ab_is_frame_pointer = (\<lambda>reg. reg = 8),
      ab_normalize_pc = (\<lambda>ra. ra)\<rparr>"

definition riscv64_abi_traits :: abi_traits where
  "riscv64_abi_traits =
     \<lparr>ab_pointer_size = 8, ab_sp_reg = 2, ab_ra_reg = 1, ab_fp_reg = 8, ab_is_frame_pointer = (\<lambda>reg. reg = 8),
      ab_normalize_pc = (\<lambda>ra. ra)\<rparr>"

definition x86_abi_traits :: abi_traits where
  "x86_abi_traits =
     \<lparr>ab_pointer_size = 4, ab_sp_reg = 4, ab_ra_reg = 8, ab_fp_reg = 5, ab_is_frame_pointer = (\<lambda>reg. reg = 5),
      ab_normalize_pc = (\<lambda>ra. ra)\<rparr>"

definition x86_64_abi_traits :: abi_traits where
  "x86_64_abi_traits =
     \<lparr>ab_pointer_size = 8, ab_sp_reg = 7, ab_ra_reg = 16, ab_fp_reg = 6, ab_is_frame_pointer = (\<lambda>reg. reg = 6),
      ab_normalize_pc = (\<lambda>ra. ra)\<rparr>"

section \<open>Frame state\<close>

datatype reg_rule_type = Unspecified | From_memory_cfa_offset | From_register

record reg_location =
  rl_type :: reg_rule_type
  rl_value :: u64

record frame_state =
  fs_cfa_reg :: u32
  fs_cfa_offset :: u64
  fs_ra_loc :: reg_location
  fs_fp_loc :: reg_location
  fs_current_loc :: u64

record scratch_context =
  sc_state :: frame_state
  sc_stack :: "frame_state list"

definition frame_state_init :: "abi_traits \<Rightarrow> frame_state" where
  "frame_state_init abi =
     \<lparr>fs_cfa_reg = ab_sp_reg abi, fs_cfa_offset = 0,
      fs_ra_loc = \<lparr>rl_type = From_memory_cfa_offset, rl_value = - of_nat (ab_pointer_size abi)\<rparr>,
      fs_fp_loc = \<lparr>rl_type = From_memory_cfa_offset, rl_value = - of_nat (ab_pointer_size abi * 2)\<rparr>,
      fs_current_loc = 0\<rparr>"

definition context_reset :: "abi_traits \<Rightarrow> u64 \<Rightarrow> scratch_context" where
  "context_reset abi initial_loc =
     \<lparr>sc_state = (frame_state_init abi)\<lparr>fs_current_loc := initial_loc\<rparr>, sc_stack = []\<rparr>"

text \<open>The rule of a register goes to the return address, to the frame pointer, or is dropped.\<close>

definition set_rule :: "abi_traits \<Rightarrow> u32 \<Rightarrow> reg_location \<Rightarrow> frame_state \<Rightarrow> frame_state" where
  "set_rule abi reg loc st =
     (if is_return_address_register abi reg then st\<lparr>fs_ra_loc := loc\<rparr>
      else if ab_is_frame_pointer abi reg then st\<lparr>fs_fp_loc := loc\<rparr> else st)"

definition advance :: "u64 \<Rightarrow> frame_state \<Rightarrow> frame_state" where
  "advance delta st = st\<lparr>fs_current_loc := fs_current_loc st + delta\<rparr>"

section \<open>Call frame instructions\<close>

text \<open>How one instruction ends: with the place of the next one, by leaving the loop, or by failing the unwinding.\<close>

datatype cfi_outcome = Cfi_next u64 scratch_context | Cfi_break scratch_context | Cfi_fail

definition with_uleb :: "address_space_ref \<Rightarrow> u64 \<Rightarrow> (u64 \<Rightarrow> u64 \<Rightarrow> cfi_outcome) \<Rightarrow> cfi_outcome" where
  "with_uleb space ptr k = (case read_uleb128 space ptr of (None, ptr') \<Rightarrow> Cfi_fail | (Some v, ptr') \<Rightarrow> k v ptr')"

definition with_sleb :: "address_space_ref \<Rightarrow> u64 \<Rightarrow> (u64 \<Rightarrow> u64 \<Rightarrow> cfi_outcome) \<Rightarrow> cfi_outcome" where
  "with_sleb space ptr k = (case read_sleb128 space ptr of (None, ptr') \<Rightarrow> Cfi_fail | (Some v, ptr') \<Rightarrow> k v ptr')"

definition on_state :: "(frame_state \<Rightarrow> frame_state) \<Rightarrow> scratch_context \<Rightarrow> scratch_context" where
  "on_state f sc = sc\<lparr>sc_state := f (sc_state sc)\<rparr>"

definition remember_state :: "nat \<Rightarrow> scratch_context \<Rightarrow> scratch_context" where
  "remember_state max_depth sc =
     (if length (sc_stack sc) < max_depth then sc\<lparr>sc_stack := sc_stack sc @ [sc_state sc]\<rparr> else sc)"

definition restore_state :: "scratch_context \<Rightarrow> scratch_context" where
  "restore_state sc =
     (if length (sc_stack sc) > 0 then sc\<lparr>sc_state := last (sc_stack sc), sc_stack := butlast (sc_stack sc)\<rparr> else sc)"

definition memory_rule :: "u64 \<Rightarrow> reg_location" where
  "memory_rule v = \<lparr>rl_type = From_memory_cfa_offset, rl_value = v\<rparr>"

definition register_rule :: "u64 \<Rightarrow> reg_location" where
  "register_rule v = \<lparr>rl_type = From_register, rl_value = v\<rparr>"

text \<open>The switch over the opcodes below \<open>0x40\<close> (and those from \<open>0xC0\<close> on, which are ignored).\<close>

definition cfi_switch :: "abi_traits \<Rightarrow> nat \<Rightarrow> address_space_ref \<Rightarrow> u8 \<Rightarrow> u64 \<Rightarrow> scratch_context \<Rightarrow> cfi_outcome" where
  "cfi_switch abi max_depth space op ptr sc =
     (if op = 0x00 then Cfi_next ptr sc
      else if op = 0x09
      then with_uleb space ptr (\<lambda>reg ptr1. with_uleb space ptr1 (\<lambda>target_reg ptr2.
             Cfi_next ptr2 (on_state (set_rule abi (ucast reg) (register_rule target_reg)) sc)))
      else if op = 0x02
      then (case read_object space ptr 1 of None \<Rightarrow> Cfi_fail | Some delta \<Rightarrow> Cfi_next (ptr + 1) (on_state (advance delta) sc))
      else if op = 0x03
      then (case read_object space ptr 2 of None \<Rightarrow> Cfi_fail | Some delta \<Rightarrow> Cfi_next (ptr + 2) (on_state (advance delta) sc))
      else if op = 0x05
      then with_uleb space ptr (\<lambda>reg ptr1. with_uleb space ptr1 (\<lambda>offset ptr2.
             Cfi_next ptr2 (on_state (set_rule abi (ucast reg) (memory_rule (- (offset * of_nat (ab_pointer_size abi))))) sc)))
      else if op = 0x11
      then with_uleb space ptr (\<lambda>reg ptr1. with_sleb space ptr1 (\<lambda>offset ptr2.
             Cfi_next ptr2 (on_state (set_rule abi (ucast reg) (memory_rule offset)) sc)))
      else if op = 0x0A then Cfi_next ptr (remember_state max_depth sc)
      else if op = 0x0B then Cfi_next ptr (restore_state sc)
      else if op = 0x0C
      then with_uleb space ptr (\<lambda>reg ptr1. with_uleb space ptr1 (\<lambda>offset ptr2.
             Cfi_next ptr2 (on_state (\<lambda>st. st\<lparr>fs_cfa_reg := ucast reg, fs_cfa_offset := offset\<rparr>) sc)))
      else if op = 0x0D
      then with_uleb space ptr (\<lambda>reg ptr1. Cfi_next ptr1 (on_state (\<lambda>st. st\<lparr>fs_cfa_reg := ucast reg\<rparr>) sc))
      else if op = 0x0E
      then with_uleb space ptr (\<lambda>offset ptr1. Cfi_next ptr1 (on_state (\<lambda>st. st\<lparr>fs_cfa_offset := offset\<rparr>) sc))
      else if op = 0x13
      then with_sleb space ptr (\<lambda>offset ptr1. Cfi_next ptr1 (on_state (\<lambda>st. st\<lparr>fs_cfa_offset := offset\<rparr>) sc))
      else Cfi_next ptr sc)"

text \<open>One round of the instruction loop.\<close>

definition cfi_step :: "abi_traits \<Rightarrow> nat \<Rightarrow> address_space_ref \<Rightarrow> u64 \<Rightarrow> scratch_context \<Rightarrow> cfi_outcome" where
  "cfi_step abi max_depth space ptr sc =
     (case read_byte space ptr of
        None \<Rightarrow> Cfi_break sc
      | Some op \<Rightarrow>
          if op AND 0xC0 = 0x40 then Cfi_next (ptr + 1) (on_state (advance (ucast (op AND 0x3F))) sc)
          else if op AND 0xC0 = 0x80
          then (case read_uleb128 space (ptr + 1) of
                  (None, ptr') \<Rightarrow> Cfi_break sc
                | (Some offset, ptr') \<Rightarrow>
                    Cfi_next ptr' (on_state (set_rule abi (ucast (op AND 0x3F))
                      (memory_rule (- (offset * of_nat (ab_pointer_size abi))))) sc))
          else cfi_switch abi max_depth space op (ptr + 1) sc)"

partial_function (option) cfi_loop ::
    "abi_traits \<Rightarrow> nat \<Rightarrow> address_space_ref \<Rightarrow> u64 \<Rightarrow> u64 \<Rightarrow> u64 \<Rightarrow> scratch_context \<Rightarrow> scratch_context option option" where
  "cfi_loop abi max_depth space entry_end target_pc ptr sc =
     (if ptr < entry_end \<and> fs_current_loc (sc_state sc) \<le> target_pc
      then (case cfi_step abi max_depth space ptr sc of
              Cfi_next ptr' sc' \<Rightarrow> cfi_loop abi max_depth space entry_end target_pc ptr' sc'
            | Cfi_break sc' \<Rightarrow> Some (Some sc')
            | Cfi_fail \<Rightarrow> Some None)
      else Some (Some sc))"

declare cfi_loop.simps [code]

section \<open>One frame\<close>

text \<open>The register context: a register is read and written with the size of a pointer.\<close>

record 'c register_context =
  rc_valid :: bool
  rc_state :: 'c
  rc_space :: address_space_ref
  rc_read :: "'c \<Rightarrow> u32 \<Rightarrow> u64 option"
  rc_write :: "'c \<Rightarrow> u32 \<Rightarrow> u64 \<Rightarrow> 'c option"

text \<open>A value of \<^verbatim>\<open>register_type\<close>, which has the width of a pointer.\<close>

definition register_value :: "abi_traits \<Rightarrow> u64 \<Rightarrow> u64" where
  "register_value abi v = (if ab_pointer_size abi = 4 then v AND 0xFFFFFFFF else v)"

definition read_raw :: "abi_traits \<Rightarrow> 'c register_context \<Rightarrow> u32 \<Rightarrow> u64 option" where
  "read_raw abi rc reg = map_option (register_value abi) (rc_read rc (rc_state rc) reg)"

text \<open>A write that fails is ignored.\<close>

definition write_raw :: "u32 \<Rightarrow> u64 \<Rightarrow> 'c register_context \<Rightarrow> 'c register_context" where
  "write_raw reg v rc = (case rc_write rc (rc_state rc) reg v of None \<Rightarrow> rc | Some s \<Rightarrow> rc\<lparr>rc_state := s\<rparr>)"

definition saved_frame_pointer :: "abi_traits \<Rightarrow> 'c register_context \<Rightarrow> u64 \<Rightarrow> frame_state \<Rightarrow> u64" where
  "saved_frame_pointer abi rc cfa st =
     (case rl_type (fs_fp_loc st) of
        From_memory_cfa_offset \<Rightarrow>
          (case read_object (rc_space rc) (cfa + rl_value (fs_fp_loc st)) (ab_pointer_size abi) of None \<Rightarrow> 0 | Some v \<Rightarrow> v)
      | From_register \<Rightarrow> (case read_raw abi rc (ucast (rl_value (fs_fp_loc st))) of None \<Rightarrow> 0 | Some v \<Rightarrow> v)
      | Unspecified \<Rightarrow> 0)"

definition saved_return_address :: "abi_traits \<Rightarrow> 'c register_context \<Rightarrow> u64 \<Rightarrow> frame_state \<Rightarrow> u64 option" where
  "saved_return_address abi rc cfa st =
     (case rl_type (fs_ra_loc st) of
        From_memory_cfa_offset \<Rightarrow> read_object (rc_space rc) (cfa + rl_value (fs_ra_loc st)) (ab_pointer_size abi)
      | From_register \<Rightarrow> read_raw abi rc (ucast (rl_value (fs_ra_loc st)))
      | Unspecified \<Rightarrow> Some 0)"

text \<open>What the rules of the row give: frame pointer and program counter of the caller, and the registers written back.\<close>

definition apply_row ::
    "abi_traits \<Rightarrow> 'c register_context \<Rightarrow> frame_state \<Rightarrow> ((u64 \<times> u64) \<times> 'c register_context) option" where
  "apply_row abi rc st =
     (case read_raw abi rc (fs_cfa_reg st) of
        None \<Rightarrow> None
      | Some cfa_base \<Rightarrow>
          let cfa = cfa_base + fs_cfa_offset st; saved_fp = saved_frame_pointer abi rc cfa st
          in (case saved_return_address abi rc cfa st of
               None \<Rightarrow> None
             | Some saved_ra \<Rightarrow>
                 Some ((saved_fp, ab_normalize_pc abi saved_ra),
                       write_raw (ab_ra_reg abi) saved_ra (write_raw (ab_fp_reg abi) saved_fp
                         (write_raw (ab_sp_reg abi) (register_value abi cfa) rc)))))"

text \<open>The entry header; the end of the covered range is computed in 32 bits.\<close>

definition fde_header :: "address_space_ref \<Rightarrow> u64 \<Rightarrow> (u64 \<times> u64 \<times> u32 \<times> u32) option" where
  "fde_header space fde_addr =
     (case read_object space fde_addr 4 of
        None \<Rightarrow> None
      | Some len \<Rightarrow>
          if len = 0 \<or> len = 0xFFFFFFFF then None
          else let entry_start = fde_addr + 4; entry_end = entry_start + len
               in (case read_object space entry_start 4 of
                    None \<Rightarrow> None
                  | Some cie_pointer \<Rightarrow>
                      (case read_object space (entry_start + 4) 4 of
                         None \<Rightarrow> None
                       | Some initial_loc \<Rightarrow>
                           (case read_object space (entry_start + 8) 4 of
                              None \<Rightarrow> None
                            | Some address_range \<Rightarrow>
                                Some (entry_start + 12, entry_end, ucast initial_loc, ucast address_range)))))"

definition execute_fde ::
    "abi_traits \<Rightarrow> nat \<Rightarrow> 'c register_context \<Rightarrow> u64 \<Rightarrow> u64 \<Rightarrow> ((u64 \<times> u64) \<times> 'c register_context) option option" where
  "execute_fde abi max_depth rc fde_addr target_pc =
     (if \<not> rc_valid rc then Some None
      else case fde_header (rc_space rc) fde_addr of
        None \<Rightarrow> Some None
      | Some (start, entry_end, initial_loc, address_range) \<Rightarrow>
          if target_pc < ucast initial_loc \<or> target_pc \<ge> ucast (initial_loc + address_range) then Some None
          else (case cfi_loop abi max_depth (rc_space rc) entry_end target_pc start (context_reset abi (ucast initial_loc)) of
                 None \<Rightarrow> None
               | Some None \<Rightarrow> Some None
               | Some (Some sc) \<Rightarrow> Some (apply_row abi rc (sc_state sc))))"

text \<open>The search of the frame section for the entry of a program counter.\<close>

partial_function (option) frame_search ::
    "abi_traits \<Rightarrow> nat \<Rightarrow> 'c register_context \<Rightarrow> address_space_ref \<Rightarrow> u64 \<Rightarrow> u64 \<Rightarrow> u64
     \<Rightarrow> ((u64 \<times> u64) \<times> 'c register_context) option option" where
  "frame_search abi max_depth rc space frame_end fault_pc place =
     (if \<not> place < frame_end then Some None
      else (case read_object space place 4 of
             None \<Rightarrow> Some None
           | Some len \<Rightarrow>
               if len = 0 then Some None
               else (case execute_fde abi max_depth rc place fault_pc of
                      None \<Rightarrow> None
                    | Some (Some result) \<Rightarrow> Some (Some result)
                    | Some None \<Rightarrow> frame_search abi max_depth rc space frame_end fault_pc (place + ucast (4 + ucast len :: u32)))))"

declare frame_search.simps [code]

section \<open>Images\<close>

text \<open>The images of \<^verbatim>\<open>inspector/elf_enumerator.hpp\<close>, the registry of a fixed number of them, and the step of the
  unwinder, which asks an enumerator of the caller for the image of a program counter.\<close>

record elf_image_info =
  el_image_name :: string
  el_load_base :: u64
  el_image_size :: u64
  el_exidx_start :: u64
  el_exidx_end :: u64
  el_debug_frame_start :: u64
  el_debug_frame_end :: u64

definition elf_contains :: "u64 \<Rightarrow> elf_image_info \<Rightarrow> bool" where
  "elf_contains addr img \<longleftrightarrow> addr \<ge> el_load_base img \<and> addr < el_load_base img + el_image_size img"

definition has_exidx :: "elf_image_info \<Rightarrow> bool" where
  "has_exidx img \<longleftrightarrow> el_exidx_start img \<noteq> 0 \<and> el_exidx_end img > el_exidx_start img"

definition has_debug_frame :: "elf_image_info \<Rightarrow> bool" where
  "has_debug_frame img \<longleftrightarrow> el_debug_frame_start img \<noteq> 0 \<and> el_debug_frame_end img > el_debug_frame_start img"

definition register_image :: "nat \<Rightarrow> elf_image_info \<Rightarrow> elf_image_info list \<Rightarrow> bool \<times> elf_image_info list" where
  "register_image max_images info images = (if length images \<ge> max_images then (False, images) else (True, images @ [info]))"

definition enumerate_images :: "elf_image_info list \<Rightarrow> elf_image_info list \<Rightarrow> elf_image_info list \<times> nat" where
  "enumerate_images images buffer =
     (let copy_count = (if length images < length buffer then length images else length buffer)
      in (take copy_count images @ drop copy_count buffer, copy_count))"

definition find_by_pc :: "elf_image_info list \<Rightarrow> u64 \<Rightarrow> elf_image_info option" where
  "find_by_pc images pc = find (elf_contains pc) images"

definition dwarf_step ::
    "abi_traits \<Rightarrow> nat \<Rightarrow> address_space_ref \<Rightarrow> (u64 \<Rightarrow> elf_image_info option) option \<Rightarrow> bool \<Rightarrow> 'c register_context \<Rightarrow> u64
     \<Rightarrow> ((u64 \<times> u64) \<times> 'c register_context) option option" where
  "dwarf_step abi max_depth space enumerator has_storage rc current_pc =
     (if \<not> rc_valid rc \<or> \<not> has_storage then Some None
      else case enumerator of
        None \<Rightarrow> Some None
      | Some finder \<Rightarrow>
          let fault_pc = ab_normalize_pc abi current_pc
          in (case finder fault_pc of
               None \<Rightarrow> Some None
             | Some img \<Rightarrow>
                 if \<not> has_debug_frame img then Some None
                 else frame_search abi max_depth rc space (el_debug_frame_end img) fault_pc (el_debug_frame_start img)))"

section \<open>Instructions\<close>

text \<open>The instructions that the decoder executes, their bytes by the DWARF standard, and what the decoder does with each.\<close>

datatype cfi_instr =
  Advance_loc "6 word" | Advance_loc1 u8 | Advance_loc2 u16
| Offset "6 word" u64 | Offset_extended u64 u64 | Offset_extended_sf u64 u64 | Register_rule u64 u64
| Remember_state | Restore_state
| Def_cfa u64 u64 | Def_cfa_register u64 | Def_cfa_offset u64 | Def_cfa_offset_sf u64
| Nop

fun encode_instr :: "cfi_instr \<Rightarrow> u8 list" where
  "encode_instr (Advance_loc d) = [0x40 OR ucast d]"
| "encode_instr (Advance_loc1 d) = [0x02, d]"
| "encode_instr (Advance_loc2 d) = [0x03, ucast d, ucast (drop_bit 8 d)]"
| "encode_instr (Offset reg off) = (0x80 OR ucast reg) # uleb_word off"
| "encode_instr (Offset_extended reg off) = 0x05 # uleb_word reg @ uleb_word off"
| "encode_instr (Offset_extended_sf reg off) = 0x11 # uleb_word reg @ sleb_word off"
| "encode_instr (Register_rule reg src) = 0x09 # uleb_word reg @ uleb_word src"
| "encode_instr Remember_state = [0x0A]"
| "encode_instr Restore_state = [0x0B]"
| "encode_instr (Def_cfa reg off) = 0x0C # uleb_word reg @ uleb_word off"
| "encode_instr (Def_cfa_register reg) = 0x0D # uleb_word reg"
| "encode_instr (Def_cfa_offset off) = 0x0E # uleb_word off"
| "encode_instr (Def_cfa_offset_sf off) = 0x13 # sleb_word off"
| "encode_instr Nop = [0x00]"

definition scaled_offset :: "abi_traits \<Rightarrow> u64 \<Rightarrow> reg_location" where
  "scaled_offset abi off = memory_rule (- (off * of_nat (ab_pointer_size abi)))"

fun exec_instr :: "abi_traits \<Rightarrow> nat \<Rightarrow> cfi_instr \<Rightarrow> scratch_context \<Rightarrow> scratch_context" where
  "exec_instr abi depth (Advance_loc d) = on_state (advance (ucast d))"
| "exec_instr abi depth (Advance_loc1 d) = on_state (advance (ucast d))"
| "exec_instr abi depth (Advance_loc2 d) = on_state (advance (ucast d))"
| "exec_instr abi depth (Offset reg off) = on_state (set_rule abi (ucast reg) (scaled_offset abi off))"
| "exec_instr abi depth (Offset_extended reg off) = on_state (set_rule abi (ucast reg) (scaled_offset abi off))"
| "exec_instr abi depth (Offset_extended_sf reg off) = on_state (set_rule abi (ucast reg) (memory_rule off))"
| "exec_instr abi depth (Register_rule reg src) = on_state (set_rule abi (ucast reg) (register_rule src))"
| "exec_instr abi depth Remember_state = remember_state depth"
| "exec_instr abi depth Restore_state = restore_state"
| "exec_instr abi depth (Def_cfa reg off) = on_state (\<lambda>st. st\<lparr>fs_cfa_reg := ucast reg, fs_cfa_offset := off\<rparr>)"
| "exec_instr abi depth (Def_cfa_register reg) = on_state (\<lambda>st. st\<lparr>fs_cfa_reg := ucast reg\<rparr>)"
| "exec_instr abi depth (Def_cfa_offset off) = on_state (\<lambda>st. st\<lparr>fs_cfa_offset := off\<rparr>)"
| "exec_instr abi depth (Def_cfa_offset_sf off) = on_state (\<lambda>st. st\<lparr>fs_cfa_offset := off\<rparr>)"
| "exec_instr abi depth Nop = (\<lambda>sc. sc)"

text \<open>The row of a program counter: instructions up to the first one behind it.\<close>

fun run_instrs :: "abi_traits \<Rightarrow> nat \<Rightarrow> u64 \<Rightarrow> cfi_instr list \<Rightarrow> scratch_context \<Rightarrow> scratch_context" where
  "run_instrs abi depth target_pc [] sc = sc"
| "run_instrs abi depth target_pc (i # is) sc =
     (if fs_current_loc (sc_state sc) \<le> target_pc then run_instrs abi depth target_pc is (exec_instr abi depth i sc) else sc)"

lemma opcode_parts:
  fixes d :: "6 word"
  shows "((0x40 :: u8) OR ucast d) AND 0xC0 = 0x40" "((0x80 :: u8) OR ucast d) AND 0xC0 = 0x80"
    "((0x40 :: u8) OR ucast d) AND 0x3F = ucast d" "((0x80 :: u8) OR ucast d) AND 0x3F = ucast d"
proof -
  have "\<forall>n \<in> set [0..<64]. ((0x40 :: u8) OR of_nat n) AND 0xC0 = 0x40 \<and> ((0x80 :: u8) OR of_nat n) AND 0xC0 = 0x80
          \<and> ((0x40 :: u8) OR of_nat n) AND 0x3F = of_nat n \<and> ((0x80 :: u8) OR of_nat n) AND 0x3F = of_nat n"
    by code_simp
  moreover have "unat d \<in> set [0..<64]" using unsigned_less [of d, where 'a = nat] by simp
  moreover have "(ucast d :: u8) = of_nat (unat d)" by simp
  ultimately show "((0x40 :: u8) OR ucast d) AND 0xC0 = 0x40" "((0x80 :: u8) OR ucast d) AND 0xC0 = 0x80"
    "((0x40 :: u8) OR ucast d) AND 0x3F = ucast d" "((0x80 :: u8) OR ucast d) AND 0x3F = ucast d"
    by metis+
qed

lemma ucast_through_byte:
  fixes d :: "6 word"
  shows "(ucast (ucast d :: u8) :: u64) = ucast d" "(ucast (ucast d :: u8) :: u32) = ucast d"
proof -
  have "unat d < 64" using unsigned_less [of d, where 'a = nat] by simp
  then show "(ucast (ucast d :: u8) :: u64) = ucast d" "(ucast (ucast d :: u8) :: u32) = ucast d"
    by (simp_all add: word_eq_iff_unsigned [where 'a = nat] unsigned_ucast_eq unsigned_take_bit_eq take_bit_nat_eq_self)
qed

lemma le_value_u16: "le_value [ucast d, ucast (drop_bit 8 (d :: u16))] = ucast d"
proof -
  have d: "unat d < 2 ^ 16" using unsigned_less [of d, where 'a = nat] by simp
  have lo: "unat (ucast d :: u8) = unat d mod 256" by (simp add: unsigned_ucast_eq take_bit_eq_mod)
  have hi: "unat (ucast (drop_bit 8 d) :: u8) = unat d div 256"
    using d by (simp add: unsigned_ucast_eq unsigned_drop_bit_eq drop_bit_eq_div take_bit_eq_mod unat_div)
  have bytes: "le_value [a, b] = of_nat (unat a + 256 * unat b)" for a b by simp
  show ?thesis unfolding bytes lo hi by simp
qed

lemma with_uleb_reads:
  "holds space ptr (uleb_word v @ rest) \<Longrightarrow> with_uleb space ptr k = k v (ptr + of_nat (length (uleb_word v)))"
  unfolding with_uleb_def by (rule uleb.operand_read(1))

lemma with_sleb_reads:
  "holds space ptr (sleb_word v @ rest) \<Longrightarrow> with_sleb space ptr k = k v (ptr + of_nat (length (sleb_word v)))"
  unfolding with_sleb_def by (rule sleb.operand_read(1))

lemma two_operands_read:
  "holds space ptr (uleb_word a @ uleb_word b @ rest)
     \<Longrightarrow> with_uleb space ptr (\<lambda>x p. with_uleb space p (k x)) = k a b (ptr + of_nat (length (uleb_word a) + length (uleb_word b)))"
  "holds space ptr (uleb_word a @ sleb_word b @ rest)
     \<Longrightarrow> with_uleb space ptr (\<lambda>x p. with_sleb space p (k x)) = k a b (ptr + of_nat (length (uleb_word a) + length (sleb_word b)))"
  by (simp_all add: with_uleb_reads with_uleb_reads [OF uleb.operand_read(2)] with_sleb_reads [OF uleb.operand_read(2)] add.assoc)

lemma cfi_step_instr:
  assumes "holds space ptr (encode_instr i @ rest)"
  shows "cfi_step abi depth space ptr sc = Cfi_next (ptr + of_nat (length (encode_instr i))) (exec_instr abi depth i sc)"
proof -
  obtain op args where e: "encode_instr i = op # args" by (cases i) auto
  have op: "read_byte space ptr = Some op" using assms unfolding e by (auto intro: read_byte_Cons)
  have args: "holds space (ptr + 1) (args @ rest)" using assms unfolding e by (auto dest: holds_Cons)
  have obj: "read_object space (ptr + 1) (length args) = Some (le_value args)" if "args \<noteq> []"
    using holds_read [OF args that] by (simp add: read_object_def)
  note step = cfi_step_def cfi_switch_def op add.assoc
  show ?thesis
  proof (cases i)
    case (Advance_loc d)
    then have a: "op = 0x40 OR ucast d" "args = []" using e by auto
    show ?thesis using Advance_loc by (simp add: step a opcode_parts ucast_through_byte)
  next
    case (Advance_loc1 d)
    then have a: "op = 0x02" "args = [d]" using e by auto
    show ?thesis using Advance_loc1 obj by (simp add: step a)
  next
    case (Advance_loc2 d)
    then have a: "op = 0x03" "args = [ucast d, ucast (drop_bit 8 d)]" using e by auto
    then have "read_object space (ptr + 1) 2 = Some (ucast d)" using obj le_value_u16 [of d] by (simp add: numeral_2_eq_2 del: le_value.simps)
    then show ?thesis using Advance_loc2 by (simp add: step a)
  next
    case (Offset reg off)
    then have a: "op = 0x80 OR ucast reg" "args = uleb_word off" using e by auto
    show ?thesis using Offset uleb.reads_back [OF args [unfolded a]]
      by (simp add: step a opcode_parts ucast_through_byte scaled_offset_def)
  next
    case (Offset_extended reg off)
    then have a: "op = 0x05" "args = uleb_word reg @ uleb_word off" using e by auto
    show ?thesis using Offset_extended two_operands_read(1) [of space "ptr + 1" reg off rest] args
      by (simp add: step a scaled_offset_def)
  next
    case (Offset_extended_sf reg off)
    then have a: "op = 0x11" "args = uleb_word reg @ sleb_word off" using e by auto
    show ?thesis using Offset_extended_sf two_operands_read(2) [of space "ptr + 1" reg off rest] args by (simp add: step a)
  next
    case (Register_rule reg src)
    then have a: "op = 0x09" "args = uleb_word reg @ uleb_word src" using e by auto
    show ?thesis using Register_rule two_operands_read(1) [of space "ptr + 1" reg src rest] args by (simp add: step a)
  next
    case (Def_cfa reg off)
    then have a: "op = 0x0C" "args = uleb_word reg @ uleb_word off" using e by auto
    show ?thesis using Def_cfa two_operands_read(1) [of space "ptr + 1" reg off rest] args by (simp add: step a)
  next
    case (Def_cfa_register reg)
    then have a: "op = 0x0D" "args = uleb_word reg" using e by auto
    show ?thesis using Def_cfa_register with_uleb_reads [OF args [unfolded a]] by (simp add: step a)
  next
    case (Def_cfa_offset off)
    then have a: "op = 0x0E" "args = uleb_word off" using e by auto
    show ?thesis using Def_cfa_offset with_uleb_reads [OF args [unfolded a]] by (simp add: step a)
  next
    case (Def_cfa_offset_sf off)
    then have a: "op = 0x13" "args = sleb_word off" using e by auto
    show ?thesis using Def_cfa_offset_sf with_sleb_reads [OF args [unfolded a]] by (simp add: step a)
  qed (use e op in \<open>auto simp: cfi_step_def cfi_switch_def\<close>)
qed

abbreviation encode_instrs :: "cfi_instr list \<Rightarrow> u8 list" where
  "encode_instrs is \<equiv> concat (map encode_instr is)"

lemma encode_instr_nonempty: "encode_instr i \<noteq> []"
  by (cases i) auto

lemma cfi_loop_instrs:
  assumes "holds space ptr (encode_instrs is @ rest)" and "unat entry_end = unat ptr + length (encode_instrs is)"
  shows "cfi_loop abi depth space entry_end target_pc ptr sc = Some (Some (run_instrs abi depth target_pc is sc))"
  using assms
proof (induction "is" arbitrary: ptr sc)
  case Nil
  then have "\<not> ptr < entry_end" by (simp add: word_less_nat_alt)
  then show ?case by (subst cfi_loop.simps) simp
next
  case (Cons i "is")
  let ?n = "length (encode_instr i)"
  have h: "holds space ptr (encode_instr i @ encode_instrs is @ rest)" using Cons.prems(1) by simp
  have n: "0 < ?n" using encode_instr_nonempty by simp
  have e: "unat ptr + ?n + length (encode_instrs is) < 2 ^ 64"
    using Cons.prems(2) unsigned_less [of entry_end, where 'a = nat] by simp
  have "unat (of_nat ?n :: u64) = ?n" using e by (simp add: unat_of_nat)
  then have p: "unat (ptr + of_nat ?n) = unat ptr + ?n" using e unat_add_lem [of ptr "of_nat ?n"] by simp
  have "ptr < entry_end" using n Cons.prems(2) by (simp add: word_less_nat_alt)
  then show ?case
    using Cons.IH [OF holds_append [OF h], of "exec_instr abi depth i sc"] p Cons.prems(2)
    by (subst cfi_loop.simps) (simp add: cfi_step_instr [OF h] add.assoc)
qed

section \<open>Entries\<close>

text \<open>An entry of the frame table, in the layout that the decoder reads.\<close>

record fde =
  fde_cie :: u32
  fde_initial :: u32
  fde_range :: u32
  fde_instrs :: "cfi_instr list"

fun le_bytes :: "nat \<Rightarrow> nat \<Rightarrow> u8 list" where
  "le_bytes 0 v = []"
| "le_bytes (Suc n) v = of_nat (v mod 256) # le_bytes n (v div 256)"

definition fde_length :: "fde \<Rightarrow> nat" where
  "fde_length e = 12 + length (encode_instrs (fde_instrs e))"

definition fde_bytes :: "fde \<Rightarrow> u8 list" where
  "fde_bytes e = le_bytes 4 (fde_length e) @ le_bytes 4 (unat (fde_cie e)) @ le_bytes 4 (unat (fde_initial e))
     @ le_bytes 4 (unat (fde_range e)) @ encode_instrs (fde_instrs e)"

definition fde_ok :: "fde \<Rightarrow> bool" where
  "fde_ok e \<longleftrightarrow> fde_length e < 0xFFFFFFFC \<and> unat (fde_initial e) + unat (fde_range e) < 2 ^ 32"

definition fde_covers :: "u64 \<Rightarrow> fde \<Rightarrow> bool" where
  "fde_covers pc e \<longleftrightarrow> unat (fde_initial e) \<le> unat pc \<and> unat pc < unat (fde_initial e) + unat (fde_range e)"

definition fde_row :: "abi_traits \<Rightarrow> nat \<Rightarrow> u64 \<Rightarrow> fde \<Rightarrow> frame_state" where
  "fde_row abi depth pc e = sc_state (run_instrs abi depth pc (fde_instrs e) (context_reset abi (ucast (fde_initial e))))"

lemma length_le_bytes [simp]: "length (le_bytes n v) = n"
  by (induction n v rule: le_bytes.induct) simp_all

lemma le_value_le_bytes: "v < 256 ^ n \<Longrightarrow> le_value (le_bytes n v) = of_nat v"
proof (induction n v rule: le_bytes.induct)
  case (2 n v)
  have "(of_nat v :: u64) = of_nat (v mod 256 + 256 * (v div 256))" by simp
  also have "\<dots> = of_nat (v mod 256) + 256 * of_nat (v div 256)" by (simp only: of_nat_add of_nat_mult of_nat_numeral)
  finally have v: "(of_nat v :: u64) = of_nat (v mod 256) + 256 * of_nat (v div 256)" .
  have "(ucast (of_nat (v mod 256) :: u8) :: u64) = of_nat (v mod 256)" by (simp add: unsigned_of_nat take_bit_nat_eq_self)
  then show ?case using 2 v by (simp add: less_mult_imp_div_less)
qed simp

lemma read_le_bytes:
  assumes "holds space addr (le_bytes 4 v @ rest)" and "v < 2 ^ 32"
  shows "read_object space addr 4 = Some (of_nat v)" and "holds space (addr + 4) rest"
proof -
  have "le_bytes 4 v \<noteq> []" using length_le_bytes [of 4 v] by (metis length_0_conv zero_neq_numeral)
  then show "read_object space addr 4 = Some (of_nat v)"
    using holds_read [OF assms(1)] le_value_le_bytes [of v 4] assms(2) by (simp add: read_object_def)
  show "holds space (addr + 4) rest" using holds_append [OF assms(1)] by simp
qed

lemma length_fde_bytes: "length (fde_bytes e) = 4 + fde_length e"
  by (simp add: fde_bytes_def fde_length_def)

lemma unat_ucast_u32: "unat (ucast (x :: u32) :: u64) = unat x"
  using unsigned_less [of x, where 'a = nat] by (simp add: unsigned_ucast_eq take_bit_nat_eq_self)

lemma ucast_u32_back: "(ucast (ucast (x :: u32) :: u64) :: u32) = x"
proof -
  have "unat (ucast (ucast x :: u64) :: u32) = take_bit 32 (unat x)" by (simp only: unsigned_ucast_eq [of "ucast x :: u64"] unat_ucast_u32) simp
  then have "unat (ucast (ucast x :: u64) :: u32) = unat x"
    using unsigned_less [of x, where 'a = nat] by (simp add: take_bit_nat_eq_self)
  then show ?thesis by (simp only: word_unat_eq_iff)
qed

lemma fde_length_bounds:
  assumes "fde_ok e"
  shows "0 < fde_length e" "fde_length e < 0xFFFFFFFC" "unat (of_nat (fde_length e) :: u64) = fde_length e"
  using assms by (auto simp: fde_ok_def unat_of_nat) (simp add: fde_length_def)

lemma fde_header_read:
  assumes h: "holds space addr (fde_bytes e @ rest)" and ok: "fde_ok e"
  shows "fde_header space addr = Some (addr + 16, addr + 4 + of_nat (fde_length e), fde_initial e, fde_range e)"
    and "read_object space addr 4 = Some (of_nat (fde_length e))"
    and "holds space (addr + 16) (encode_instrs (fde_instrs e) @ rest)"
proof -
  have w: "unat x < 2 ^ 32" for x :: u32 using unsigned_less [of x, where 'a = nat] by simp
  have l: "fde_length e < 2 ^ 32" using ok by (simp add: fde_ok_def)
  note h1 = read_le_bytes [OF h [unfolded fde_bytes_def append_assoc] l]
  note h2 = read_le_bytes [OF h1(2) w] note h3 = read_le_bytes [OF h2(2) w] note h4 = read_le_bytes [OF h3(2) w]
  have "of_nat (fde_length e) \<noteq> (0 :: u64)" "of_nat (fde_length e) \<noteq> (0xFFFFFFFF :: u64)"
    using fde_length_bounds [OF ok] by (auto dest: arg_cong [where f = unat])
  then show "fde_header space addr = Some (addr + 16, addr + 4 + of_nat (fde_length e), fde_initial e, fde_range e)"
    using h1(1) h2(1) h3(1) h4(1) by (simp add: fde_header_def Let_def add.assoc ucast_u32_back)
  show "read_object space addr 4 = Some (of_nat (fde_length e))" by (rule h1(1))
  show "holds space (addr + 16) (encode_instrs (fde_instrs e) @ rest)" using h4(2) by (simp add: add.assoc)
qed

lemma fde_range_test:
  assumes "fde_ok e"
  shows "pc < ucast (fde_initial e) \<or> pc \<ge> ucast (fde_initial e + fde_range e) \<longleftrightarrow> \<not> fde_covers pc e"
proof -
  have "unat (fde_initial e + fde_range e) = unat (fde_initial e) + unat (fde_range e)"
    using assms unat_add_lem [of "fde_initial e" "fde_range e"] by (simp add: fde_ok_def)
  then show ?thesis
    by (auto simp: fde_covers_def word_less_nat_alt word_le_nat_alt unat_ucast_u32)
qed

lemma execute_fde_entry:
  assumes "rc_valid rc" and h: "holds (rc_space rc) addr (fde_bytes e @ rest)" and ok: "fde_ok e"
    and "unat addr + length (fde_bytes e) < 2 ^ 64"
  shows "execute_fde abi depth rc addr pc = Some (if fde_covers pc e then apply_row abi rc (fde_row abi depth pc e) else None)"
proof -
  note hd = fde_header_read [OF h ok]
  have l: "4 + fde_length e + unat addr < 2 ^ 64" using assms(4) by (simp add: length_fde_bytes)
  have "unat (addr + 16) = unat addr + 16" using l unat_add_lem [of addr 16] by (simp add: fde_length_def)
  moreover have "unat (of_nat (4 + fde_length e) :: u64) = 4 + fde_length e" using l by (simp only: unat_of_nat) simp
  then have "unat (addr + of_nat (4 + fde_length e)) = unat addr + (4 + fde_length e)"
    using l unat_add_lem [of addr "of_nat (4 + fde_length e)"] by simp
  ultimately have "unat (addr + 4 + of_nat (fde_length e)) = unat (addr + 16) + length (encode_instrs (fde_instrs e))"
    by (simp add: fde_length_def add.assoc)
  from cfi_loop_instrs [OF hd(3) this] show ?thesis
    using assms(1) fde_range_test [OF ok, of pc] by (auto simp: execute_fde_def hd(1) fde_row_def)
qed

section \<open>Search\<close>

text \<open>The first entry that covers the program counter and whose row can be applied.\<close>

fun find_row :: "abi_traits \<Rightarrow> nat \<Rightarrow> 'c register_context \<Rightarrow> u64 \<Rightarrow> fde list \<Rightarrow> ((u64 \<times> u64) \<times> 'c register_context) option" where
  "find_row abi depth rc pc [] = None"
| "find_row abi depth rc pc (e # es) =
     (case (if fde_covers pc e then apply_row abi rc (fde_row abi depth pc e) else None) of
        Some result \<Rightarrow> Some result
      | None \<Rightarrow> find_row abi depth rc pc es)"

lemma next_entry: "fde_ok e \<Longrightarrow> (ucast (4 + ucast (of_nat (fde_length e) :: u64) :: u32) :: u64) = of_nat (length (fde_bytes e))"
proof -
  assume ok: "fde_ok e"
  note l = fde_length_bounds [OF ok]
  have "unat (ucast (of_nat (fde_length e) :: u64) :: u32) = fde_length e"
    using l(2,3) by (simp only: unsigned_ucast_eq) (simp add: take_bit_nat_eq_self)
  then have "unat (4 + ucast (of_nat (fde_length e) :: u64) :: u32) = 4 + fde_length e"
    using l(2) unat_add_lem [of "4 :: u32" "ucast (of_nat (fde_length e) :: u64)"] by simp
  then have "unat (ucast (4 + ucast (of_nat (fde_length e) :: u64) :: u32) :: u64) = 4 + fde_length e"
    by (simp only: unat_ucast_u32)
  moreover have "unat (of_nat (4 + fde_length e) :: u64) = 4 + fde_length e" using l(2) by (simp only: unat_of_nat) simp
  ultimately show ?thesis unfolding length_fde_bytes by (simp only: word_unat_eq_iff)
qed

abbreviation table_bytes :: "fde list \<Rightarrow> u8 list" where
  "table_bytes es \<equiv> concat (map fde_bytes es)"

lemma frame_search_table:
  assumes "rc_valid rc" and "holds (rc_space rc) place (table_bytes es)" and "list_all fde_ok es"
    and "unat frame_end = unat place + length (table_bytes es)"
  shows "frame_search abi depth rc (rc_space rc) frame_end pc place = Some (find_row abi depth rc pc es)"
  using assms(2-)
proof (induction es arbitrary: place)
  case Nil
  then have "\<not> place < frame_end" by (simp add: word_less_nat_alt)
  then show ?case by (subst frame_search.simps) simp
next
  case (Cons e es)
  let ?n = "length (fde_bytes e)"
  have ok: "fde_ok e" and h: "holds (rc_space rc) place (fde_bytes e @ table_bytes es)" using Cons.prems by simp_all
  have n: "0 < ?n" by (simp add: length_fde_bytes)
  have e: "unat place + ?n + length (table_bytes es) < 2 ^ 64"
    using Cons.prems(3) unsigned_less [of frame_end, where 'a = nat] by simp
  have "unat (of_nat ?n :: u64) = ?n" using e by (simp add: unat_of_nat)
  then have p: "unat (place + of_nat ?n) = unat place + ?n" using e unat_add_lem [of place "of_nat ?n"] by simp
  have "place < frame_end" using n Cons.prems(3) by (simp add: word_less_nat_alt)
  moreover have "of_nat (fde_length e) \<noteq> (0 :: u64)" using fde_length_bounds [OF ok] by (auto dest: arg_cong [where f = unat])
  moreover have "frame_search abi depth rc (rc_space rc) frame_end pc (place + of_nat ?n) = Some (find_row abi depth rc pc es)"
    using Cons.IH [OF holds_append [OF h]] p Cons.prems(2,3) by simp
  moreover have "unat place + ?n < 2 ^ 64" using e by simp
  note execute_fde_entry [OF assms(1) h ok this, of abi depth pc]
  ultimately show ?case
    by (subst frame_search.simps) (simp add: fde_header_read(2) [OF h ok] next_entry [OF ok] split: option.splits)
qed

section \<open>The rows of the standard\<close>

text \<open>A row of the unwind table as the DWARF standard describes it: the location from which it holds, the rule of the
  canonical frame address, and a rule for every register that has one. What the common entry of the standard would say is what the
  decoder has fixed: offsets are factored by minus the size of a pointer, the frame address starts as the stack
  pointer, and the return address and the frame pointer lie below it.\<close>

datatype dw_rule = Dw_offset u64 | Dw_register u64

record dw_row =
  dr_location :: u64
  dr_cfa_register :: u64
  dr_cfa_offset :: u64
  dr_rules :: "u64 \<Rightarrow> dw_rule option"

text \<open>The numbers of registers have 32 bits.\<close>

definition dw_number :: "u64 \<Rightarrow> bool" where
  "dw_number reg \<longleftrightarrow> reg \<le> 0xFFFFFFFF"

definition dw_factored :: "abi_traits \<Rightarrow> u64 \<Rightarrow> u64" where
  "dw_factored abi off = off * (- of_nat (ab_pointer_size abi))"

definition dw_initial :: "abi_traits \<Rightarrow> u64 \<Rightarrow> dw_row" where
  "dw_initial abi loc =
     \<lparr>dr_location = loc, dr_cfa_register = ucast (ab_sp_reg abi), dr_cfa_offset = 0,
      dr_rules = [ucast (ab_ra_reg abi) \<mapsto> Dw_offset (dw_factored abi 1), ucast (ab_fp_reg abi) \<mapsto> Dw_offset (dw_factored abi 2)]\<rparr>"

definition dw_set :: "u64 \<Rightarrow> dw_rule \<Rightarrow> dw_row \<Rightarrow> dw_row" where
  "dw_set reg rule row = row\<lparr>dr_rules := (dr_rules row)(reg \<mapsto> rule)\<rparr>"

text \<open>The instructions on a row and the rows that were remembered, the last one first. Restoring takes the rules
  and the frame address of the remembered row and leaves the location alone.\<close>

fun dw_exec :: "abi_traits \<Rightarrow> cfi_instr \<Rightarrow> dw_row \<times> dw_row list \<Rightarrow> dw_row \<times> dw_row list" where
  "dw_exec abi (Advance_loc d) (row, rows) = (row\<lparr>dr_location := dr_location row + ucast d\<rparr>, rows)"
| "dw_exec abi (Advance_loc1 d) (row, rows) = (row\<lparr>dr_location := dr_location row + ucast d\<rparr>, rows)"
| "dw_exec abi (Advance_loc2 d) (row, rows) = (row\<lparr>dr_location := dr_location row + ucast d\<rparr>, rows)"
| "dw_exec abi (Offset reg off) (row, rows) = (dw_set (ucast reg) (Dw_offset (dw_factored abi off)) row, rows)"
| "dw_exec abi (Offset_extended reg off) (row, rows) = (dw_set reg (Dw_offset (dw_factored abi off)) row, rows)"
| "dw_exec abi (Offset_extended_sf reg off) (row, rows) = (dw_set reg (Dw_offset (dw_factored abi off)) row, rows)"
| "dw_exec abi (Register_rule reg src) (row, rows) = (dw_set reg (Dw_register src) row, rows)"
| "dw_exec abi Remember_state (row, rows) = (row, row # rows)"
| "dw_exec abi Restore_state (row, rows) =
     (case rows of [] \<Rightarrow> (row, []) | saved # rest \<Rightarrow> (saved\<lparr>dr_location := dr_location row\<rparr>, rest))"
| "dw_exec abi (Def_cfa reg off) (row, rows) = (row\<lparr>dr_cfa_register := reg, dr_cfa_offset := off\<rparr>, rows)"
| "dw_exec abi (Def_cfa_register reg) (row, rows) = (row\<lparr>dr_cfa_register := reg\<rparr>, rows)"
| "dw_exec abi (Def_cfa_offset off) (row, rows) = (row\<lparr>dr_cfa_offset := off\<rparr>, rows)"
| "dw_exec abi (Def_cfa_offset_sf off) (row, rows) = (row\<lparr>dr_cfa_offset := dw_factored abi off\<rparr>, rows)"
| "dw_exec abi Nop (row, rows) = (row, rows)"

fun dw_run :: "abi_traits \<Rightarrow> u64 \<Rightarrow> cfi_instr list \<Rightarrow> dw_row \<times> dw_row list \<Rightarrow> dw_row" where
  "dw_run abi pc [] s = fst s"
| "dw_run abi pc (i # is) s = (if pc < dr_location (fst s) then fst s else dw_run abi pc is (dw_exec abi i s))"

definition dw_read_register :: "abi_traits \<Rightarrow> 'c register_context \<Rightarrow> u64 \<Rightarrow> u64 option" where
  "dw_read_register abi rc reg =
     (if dw_number reg then map_option (take_bit (8 * ab_pointer_size abi)) (rc_read rc (rc_state rc) (ucast reg)) else None)"

definition dw_write_register :: "u32 \<Rightarrow> u64 \<Rightarrow> 'c register_context \<Rightarrow> 'c register_context" where
  "dw_write_register reg v rc =
     (if rc_write rc (rc_state rc) reg v = None then rc else rc\<lparr>rc_state := the (rc_write rc (rc_state rc) reg v)\<rparr>)"

text \<open>A register of the caller: saved below the frame address, kept in another register, or not changed.\<close>

definition dw_value :: "abi_traits \<Rightarrow> 'c register_context \<Rightarrow> dw_row \<Rightarrow> u64 \<Rightarrow> u64 \<Rightarrow> u64 option" where
  "dw_value abi rc row cfa reg =
     (case dr_rules row reg of
        Some (Dw_offset off) \<Rightarrow> read_object (rc_space rc) (cfa + off) (ab_pointer_size abi)
      | Some (Dw_register src) \<Rightarrow> dw_read_register abi rc src
      | None \<Rightarrow> dw_read_register abi rc reg)"

text \<open>The caller's frame: frame pointer (zero where it cannot be read) and program counter, and the registers with the stack
  pointer at the frame address and the frame pointer and return address found.\<close>

definition dw_caller :: "abi_traits \<Rightarrow> 'c register_context \<Rightarrow> dw_row \<Rightarrow> ((u64 \<times> u64) \<times> 'c register_context) option" where
  "dw_caller abi rc row =
     (case dw_read_register abi rc (dr_cfa_register row) of
        None \<Rightarrow> None
      | Some base \<Rightarrow>
          let cfa = base + dr_cfa_offset row;
              fp = (case dw_value abi rc row cfa (ucast (ab_fp_reg abi)) of Some v \<Rightarrow> v | None \<Rightarrow> 0)
          in map_option (\<lambda>ra. ((fp, ab_normalize_pc abi ra),
               fold (\<lambda>(reg, v). dw_write_register reg v)
                 [(ab_sp_reg abi, take_bit (8 * ab_pointer_size abi) cfa), (ab_fp_reg abi, fp), (ab_ra_reg abi, ra)] rc))
             (dw_value abi rc row cfa (ucast (ab_ra_reg abi))))"

definition dw_find :: "abi_traits \<Rightarrow> 'c register_context \<Rightarrow> u64 \<Rightarrow> fde list \<Rightarrow> ((u64 \<times> u64) \<times> 'c register_context) option" where
  "dw_find abi rc pc es =
     (let callers = map (\<lambda>e. dw_caller abi rc (dw_run abi pc (fde_instrs e) (dw_initial abi (ucast (fde_initial e)), [])))
                      (filter (fde_covers pc) es)
      in case filter (\<lambda>c. c \<noteq> None) callers of [] \<Rightarrow> None | c # _ \<Rightarrow> c)"

text \<open>The instructions for which the decoder follows the standard: register numbers of 32 bits, one register for the frame pointer, no
  signed operands, as many remembered rows as there is room for, and none restored that was not remembered. The
  location is known until a row is restored that was remembered at another location; from then on it does not advance.\<close>

definition dw_rule_register :: "abi_traits \<Rightarrow> u64 \<Rightarrow> bool" where
  "dw_rule_register abi reg \<longleftrightarrow> dw_number reg \<and> (ab_is_frame_pointer abi (ucast reg) \<longrightarrow> ucast reg = ab_fp_reg abi)"

fun conforming :: "abi_traits \<Rightarrow> nat \<Rightarrow> u64 option list \<Rightarrow> u64 option \<Rightarrow> cfi_instr list \<Rightarrow> bool" where
  "conforming abi depth marks at' [] \<longleftrightarrow> True"
| "conforming abi depth marks at' (i # is) \<longleftrightarrow>
     (case i of
        Advance_loc d \<Rightarrow> at' \<noteq> None \<and> conforming abi depth marks (map_option (\<lambda>l. l + ucast d) at') is
      | Advance_loc1 d \<Rightarrow> at' \<noteq> None \<and> conforming abi depth marks (map_option (\<lambda>l. l + ucast d) at') is
      | Advance_loc2 d \<Rightarrow> at' \<noteq> None \<and> conforming abi depth marks (map_option (\<lambda>l. l + ucast d) at') is
      | Offset reg off \<Rightarrow> dw_rule_register abi (ucast reg) \<and> conforming abi depth marks at' is
      | Offset_extended reg off \<Rightarrow> dw_rule_register abi reg \<and> conforming abi depth marks at' is
      | Offset_extended_sf reg off \<Rightarrow> False
      | Register_rule reg src \<Rightarrow> dw_rule_register abi reg \<and> dw_number src \<and> conforming abi depth marks at' is
      | Remember_state \<Rightarrow> length marks < depth \<and> conforming abi depth (at' # marks) at' is
      | Restore_state \<Rightarrow> marks \<noteq> [] \<and> conforming abi depth (tl marks) (if hd marks = at' then at' else None) is
      | Def_cfa reg off \<Rightarrow> dw_number reg \<and> conforming abi depth marks at' is
      | Def_cfa_register reg \<Rightarrow> dw_number reg \<and> conforming abi depth marks at' is
      | Def_cfa_offset off \<Rightarrow> conforming abi depth marks at' is
      | Def_cfa_offset_sf off \<Rightarrow> False
      | Nop \<Rightarrow> conforming abi depth marks at' is)"

definition fde_conforming :: "abi_traits \<Rightarrow> nat \<Rightarrow> fde \<Rightarrow> bool" where
  "fde_conforming abi depth e \<longleftrightarrow> conforming abi depth [] (Some (ucast (fde_initial e))) (fde_instrs e)"

definition known_abis :: "abi_traits list" where
  "known_abis = [arm_abi_traits, aarch64_abi_traits, riscv32_abi_traits, riscv64_abi_traits, x86_abi_traits, x86_64_abi_traits]"

text \<open>The two locations of the decoder stand for the rules of the two registers.\<close>

definition stands_for :: "reg_location \<Rightarrow> dw_rule option \<Rightarrow> bool" where
  "stands_for loc rule \<longleftrightarrow> rl_type loc = From_memory_cfa_offset \<and> rule = Some (Dw_offset (rl_value loc))
     \<or> rl_type loc = From_register \<and> rule = Some (Dw_register (rl_value loc)) \<and> dw_number (rl_value loc)"

definition agrees :: "abi_traits \<Rightarrow> frame_state \<Rightarrow> dw_row \<Rightarrow> bool" where
  "agrees abi st row \<longleftrightarrow> fs_cfa_reg st = ucast (dr_cfa_register row) \<and> dw_number (dr_cfa_register row)
     \<and> fs_cfa_offset st = dr_cfa_offset row
     \<and> stands_for (fs_ra_loc st) (dr_rules row (ucast (ab_ra_reg abi))) \<and> stands_for (fs_fp_loc st) (dr_rules row (ucast (ab_fp_reg abi)))"

definition located :: "u64 \<Rightarrow> u64 option \<Rightarrow> u64 \<Rightarrow> bool" where
  "located pc at' loc \<longleftrightarrow> (case at' of Some l \<Rightarrow> loc = l | None \<Rightarrow> loc \<le> pc)"

text \<open>The decoder's context and the standard's rows in step: the rules agree, also those remembered, and both are where the location is
  known, or not behind the program counter.\<close>

definition in_step :: "abi_traits \<Rightarrow> u64 \<Rightarrow> u64 option list \<Rightarrow> u64 option \<Rightarrow> scratch_context \<Rightarrow> dw_row \<times> dw_row list \<Rightarrow> bool" where
  "in_step abi pc marks at' sc s \<longleftrightarrow> agrees abi (sc_state sc) (fst s)
     \<and> located pc at' (fs_current_loc (sc_state sc)) \<and> located pc at' (dr_location (fst s))
     \<and> list_all2 (agrees abi) (rev (sc_stack sc)) (snd s)
     \<and> list_all2 (\<lambda>m st. located pc m (fs_current_loc st) \<and> fs_current_loc st \<le> pc) marks (rev (sc_stack sc))"

lemma known_abi_facts:
  assumes "abi \<in> set known_abis"
  shows "ab_pointer_size abi = 4 \<or> ab_pointer_size abi = 8" and "ab_ra_reg abi \<noteq> ab_fp_reg abi"
    and "ab_is_frame_pointer abi (ab_fp_reg abi)" and "\<not> ab_is_frame_pointer abi (ab_ra_reg abi)"
  using assms by (auto simp: known_abis_def arm_abi_traits_def aarch64_abi_traits_def riscv32_abi_traits_def riscv64_abi_traits_def
      x86_abi_traits_def x86_64_abi_traits_def)

lemma dw_number_ucast [simp]: "dw_number (ucast (x :: u32))"
  using unsigned_less [of x, where 'a = nat] by (simp add: dw_number_def word_le_nat_alt unat_ucast_u32)

lemma register_number:
  assumes "dw_number r"
  shows "r = ucast (q :: u32) \<longleftrightarrow> ucast r = q"
proof -
  have "unat (ucast r :: u32) = unat r" using assms by (simp add: dw_number_def word_le_nat_alt unsigned_ucast_eq take_bit_nat_eq_self)
  then show ?thesis using ucast_u32_back [of q] unat_ucast_u32 [of "ucast r"] by (metis word_unat_eq_iff)
qed

lemma agrees_set_rule:
  assumes "abi \<in> set known_abis" and "agrees abi st row" and "dw_rule_register abi r" and "stands_for loc (Some rule)"
  shows "agrees abi (set_rule abi (ucast r) loc st) (dw_set r rule row)"
proof -
  note a = known_abi_facts [OF assms(1)]
  have n: "dw_number r" "ab_is_frame_pointer abi (ucast r) \<longleftrightarrow> ucast r = ab_fp_reg abi"
    using assms(3) a(3) by (auto simp: dw_rule_register_def)
  then show ?thesis using assms(2,4) a(2)
    by (auto simp: agrees_def set_rule_def is_return_address_register_def dw_set_def register_number [OF n(1)] eq_commute [of "ucast _ :: u64" r])
qed

lemma register_value_take_bit:
  assumes "ab_pointer_size abi = 4 \<or> ab_pointer_size abi = 8"
  shows "register_value abi v = take_bit (8 * ab_pointer_size abi) v"
  using assms
proof
  assume "ab_pointer_size abi = 4"
  then show ?thesis by (simp add: register_value_def take_bit_eq_mask mask_eq_exp_minus_1)
next
  assume "ab_pointer_size abi = 8"
  then show ?thesis by (simp add: register_value_def take_bit_word_eq_self)
qed

lemma read_raw_register:
  assumes "ab_pointer_size abi = 4 \<or> ab_pointer_size abi = 8" and "dw_number r"
  shows "read_raw abi rc (ucast r) = dw_read_register abi rc r"
proof -
  have "register_value abi = take_bit (8 * ab_pointer_size abi)" using register_value_take_bit [OF assms(1)] by (simp add: fun_eq_iff)
  then show ?thesis using assms(2) by (simp add: read_raw_def dw_read_register_def)
qed

lemma write_raw_register: "write_raw reg v rc = dw_write_register reg v rc"
  by (simp add: write_raw_def dw_write_register_def split: option.split)

lemma apply_row_caller:
  assumes "abi \<in> set known_abis" and "agrees abi st row"
  shows "apply_row abi rc st = dw_caller abi rc row"
proof -
  note p = known_abi_facts(1) [OF assms(1)]
  note g = assms(2) [unfolded agrees_def]
  have ra: "saved_return_address abi rc cfa st = dw_value abi rc row cfa (ucast (ab_ra_reg abi))" for cfa
    using g read_raw_register [OF p, of "rl_value (fs_ra_loc st)" rc]
    by (auto simp: stands_for_def saved_return_address_def dw_value_def memory_rule_def register_rule_def)
  have fp: "saved_frame_pointer abi rc cfa st = (case dw_value abi rc row cfa (ucast (ab_fp_reg abi)) of Some v \<Rightarrow> v | None \<Rightarrow> 0)" for cfa
    using g read_raw_register [OF p, of "rl_value (fs_fp_loc st)" rc]
    by (auto simp: stands_for_def saved_frame_pointer_def dw_value_def memory_rule_def register_rule_def split: option.splits)
  have base: "read_raw abi rc (fs_cfa_reg st) = dw_read_register abi rc (dr_cfa_register row)" "fs_cfa_offset st = dr_cfa_offset row"
    using g read_raw_register [OF p] by auto
  show ?thesis unfolding apply_row_def dw_caller_def base ra fp
    by (simp add: Let_def write_raw_register register_value_take_bit [OF p] split: option.split)
qed

lemma agrees_location [simp]:
  "agrees abi (advance d st) row = agrees abi st row" "agrees abi st (row\<lparr>dr_location := l\<rparr>) = agrees abi st row"
  by (simp_all add: agrees_def advance_def)

lemma set_rule_location [simp]: "fs_current_loc (set_rule abi r loc st) = fs_current_loc st" "dr_location (dw_set q rule row) = dr_location row"
  by (simp_all add: set_rule_def dw_set_def)

lemma in_step_rule:
  assumes "abi \<in> set known_abis" and "in_step abi pc marks at' sc (row, rows)" and "dw_rule_register abi r" and "stands_for loc (Some rule)"
  shows "in_step abi pc marks at' (on_state (set_rule abi (ucast r) loc) sc) (dw_set r rule row, rows)"
  using assms(2) agrees_set_rule [OF assms(1) _ assms(3,4)] by (simp add: in_step_def on_state_def)

lemma in_step_advance:
  assumes "in_step abi pc marks (Some l) sc (row, rows)"
  shows "in_step abi pc marks (Some (l + d)) (on_state (advance d) sc) (row\<lparr>dr_location := dr_location row + d\<rparr>, rows)"
  using assms by (simp add: in_step_def on_state_def located_def) (simp add: advance_def)

lemma in_step_remember:
  assumes "in_step abi pc marks at' sc (row, rows)" and "length marks < depth" and "fs_current_loc (sc_state sc) \<le> pc"
  shows "in_step abi pc (at' # marks) at' (remember_state depth sc) (row, row # rows)"
  using assms list_all2_lengthD [of _ marks "rev (sc_stack sc)"] by (auto simp: in_step_def remember_state_def)

lemma in_step_restore:
  assumes "in_step abi pc marks at' sc (row, rows)" and "marks \<noteq> []" and "dr_location row \<le> pc"
  shows "in_step abi pc (tl marks) (if hd marks = at' then at' else None) (restore_state sc) (dw_exec abi Restore_state (row, rows))"
proof -
  obtain m ms where m: "marks = m # ms" using assms(2) by (cases marks) auto
  then obtain st sts where st: "rev (sc_stack sc) = st # sts" using assms(1) by (auto simp: in_step_def list_all2_Cons1)
  then have stack: "sc_stack sc = rev sts @ [st]" by (metis rev_rev_ident rev.simps(2))
  obtain saved rest where rows: "rows = saved # rest" using assms(1) st by (auto simp: in_step_def list_all2_Cons1)
  show ?thesis using assms(1,3) unfolding m rows in_step_def
    by (auto simp: restore_state_def stack located_def split: option.splits)
qed

lemma ucast_ucast_6: "(ucast (ucast (d :: 6 word) :: u64) :: u32) = ucast d"
proof -
  have "unat d < 64" using unsigned_less [of d, where 'a = nat] by simp
  then show ?thesis by (simp add: word_eq_iff_unsigned [where 'a = nat] unsigned_ucast_eq unsigned_take_bit_eq take_bit_nat_eq_self)
qed

lemma stands_for_rules [simp]:
  "stands_for (scaled_offset abi off) (Some (Dw_offset (dw_factored abi off)))"
  "stands_for (register_rule v) (Some (Dw_register v)) \<longleftrightarrow> dw_number v"
  by (auto simp: stands_for_def scaled_offset_def memory_rule_def register_rule_def dw_factored_def)

lemma in_step_exec:
  assumes abi: "abi \<in> set known_abis" and s: "in_step abi pc marks at' sc (row, rows)"
    and loc: "fs_current_loc (sc_state sc) \<le> pc" "dr_location row \<le> pc" and c: "conforming abi depth marks at' (i # is)"
  shows "\<exists>marks' at''. in_step abi pc marks' at'' (exec_instr abi depth i sc) (dw_exec abi i (row, rows)) \<and> conforming abi depth marks' at'' is"
proof (cases i)
  case (Offset reg off)
  then show ?thesis using in_step_rule [OF abi s, of "ucast reg" "scaled_offset abi off" "Dw_offset (dw_factored abi off)"] c by (auto simp: ucast_ucast_6)
next
  case Remember_state
  then show ?thesis using in_step_remember [OF s _ loc(1), of depth] c by auto
next
  case Restore_state
  then show ?thesis using in_step_restore [OF s _ loc(2)] c by (auto simp del: dw_exec.simps)
next
  case (Offset_extended reg off)
  then show ?thesis using in_step_rule [OF abi s, of reg "scaled_offset abi off" "Dw_offset (dw_factored abi off)"] c by auto
next
  case (Register_rule reg src)
  then show ?thesis using in_step_rule [OF abi s, of reg "register_rule src" "Dw_register src"] c by auto
next
  case (Advance_loc d)
  then obtain l where "at' = Some l" using c by auto
  then show ?thesis using in_step_advance [of abi pc marks l sc row rows "ucast d"] Advance_loc s c by auto
next
  case (Advance_loc1 d)
  then obtain l where "at' = Some l" using c by auto
  then show ?thesis using in_step_advance [of abi pc marks l sc row rows "ucast d"] Advance_loc1 s c by auto
next
  case (Advance_loc2 d)
  then obtain l where "at' = Some l" using c by auto
  then show ?thesis using in_step_advance [of abi pc marks l sc row rows "ucast d"] Advance_loc2 s c by auto
qed (use c s in \<open>auto simp: in_step_def on_state_def agrees_def intro!: exI [of _ marks] exI [of _ at']\<close>)

lemma in_step_run:
  assumes "abi \<in> set known_abis"
  shows "in_step abi pc marks at' sc s \<Longrightarrow> conforming abi depth marks at' is
     \<Longrightarrow> agrees abi (sc_state (run_instrs abi depth pc is sc)) (dw_run abi pc is s)"
proof (induction "is" arbitrary: marks at' sc s)
  case Nil
  then show ?case by (simp add: in_step_def)
next
  case (Cons i "is")
  obtain row rows where s: "s = (row, rows)" by fastforce
  have same: "fs_current_loc (sc_state sc) \<le> pc \<longleftrightarrow> dr_location row \<le> pc"
    using Cons.prems(1) by (auto simp: in_step_def located_def s split: option.splits)
  show ?case
  proof (cases "dr_location row \<le> pc")
    case True
    then have loc: "fs_current_loc (sc_state sc) \<le> pc" using same by simp
    from in_step_exec [OF assms Cons.prems(1) [unfolded s] loc True Cons.prems(2)] obtain marks' at'' where
      "in_step abi pc marks' at'' (exec_instr abi depth i sc) (dw_exec abi i s)" "conforming abi depth marks' at'' is" unfolding s by blast
    from Cons.IH [OF this] show ?thesis using True loc by (simp add: s leD)
  next
    case False
    then have "\<not> fs_current_loc (sc_state sc) \<le> pc" "pc < dr_location row" using same by simp_all
    then show ?thesis using Cons.prems(1) by (simp add: s in_step_def)
  qed
qed

lemma fde_row_agrees:
  assumes "abi \<in> set known_abis" and "fde_conforming abi depth e"
  shows "agrees abi (fde_row abi depth pc e) (dw_run abi pc (fde_instrs e) (dw_initial abi (ucast (fde_initial e)), []))"
proof -
  have "agrees abi (frame_state_init abi\<lparr>fs_current_loc := l\<rparr>) (dw_initial abi l)" for l
    using known_abi_facts(2) [OF assms(1)] register_number [OF dw_number_ucast, of "ab_ra_reg abi" "ab_fp_reg abi"]
    by (auto simp: agrees_def frame_state_init_def dw_initial_def stands_for_def dw_factored_def ucast_u32_back)
  then have "in_step abi pc [] (Some (ucast (fde_initial e))) (context_reset abi (ucast (fde_initial e))) (dw_initial abi (ucast (fde_initial e)), [])"
    by (simp add: in_step_def context_reset_def located_def) (simp add: dw_initial_def)
  from in_step_run [OF assms(1) this] assms(2) show ?thesis unfolding fde_row_def fde_conforming_def by blast
qed

lemma find_row_standard:
  assumes "abi \<in> set known_abis"
  shows "list_all (fde_conforming abi depth) es \<Longrightarrow> find_row abi depth rc pc es = dw_find abi rc pc es"
proof (induction es)
  case (Cons e es)
  then show ?case using apply_row_caller [OF assms fde_row_agrees [OF assms], of depth e rc pc]
    by (auto simp: dw_find_def Let_def split: option.splits)
qed (simp add: dw_find_def)

section \<open>Termination\<close>

text \<open>An instruction whose operands are read at a place ends at most ten bytes per operand behind it.\<close>

definition lands :: "nat \<Rightarrow> u64 \<Rightarrow> cfi_outcome \<Rightarrow> bool" where
  "lands k ptr out \<longleftrightarrow> (\<forall>p s. out = Cfi_next p s \<longrightarrow> (\<exists>d \<le> 10 * k. p = ptr + of_nat d))"

lemma lands_here: "d \<le> 10 * k \<Longrightarrow> lands k ptr (Cfi_next (ptr + of_nat d) s)"
  by (auto simp: lands_def)

lemma lands_stop [simp]: "lands k ptr Cfi_fail" "lands k ptr (Cfi_break s)"
  by (simp_all add: lands_def)

lemma lands_same [simp]: "lands k ptr (Cfi_next ptr s)"
  using lands_here [of 0] by simp

lemma lands_behind:
  assumes "\<exists>d. q = ptr + of_nat d \<and> 1 \<le> d \<and> d \<le> 10" and "lands k q out"
  shows "lands (Suc k) ptr out"
  unfolding lands_def
proof (intro allI impI)
  fix p s assume "out = Cfi_next p s"
  then obtain d' where d': "d' \<le> 10 * k" "p = q + of_nat d'" using assms(2) by (auto simp: lands_def)
  obtain d where "q = ptr + of_nat d" "d \<le> 10" using assms(1) by blast
  then show "\<exists>d \<le> 10 * Suc k. p = ptr + of_nat d" using d' by (intro exI [of _ "d + d'"]) (simp add: add.assoc)
qed

lemma lands_if: "lands k ptr x \<Longrightarrow> lands k ptr y \<Longrightarrow> lands k ptr (if c then x else y)"
  by simp

lemma lands_option: "(\<And>v. lands k ptr (f v)) \<Longrightarrow> lands k ptr (case r of None \<Rightarrow> Cfi_fail | Some v \<Rightarrow> f v)"
  by (simp split: option.split)

lemma lands_operand:
  assumes "\<And>v p. lands k p (f v p)"
  shows "lands (Suc k) ptr (with_uleb space ptr f)" and "lands (Suc k) ptr (with_sleb space ptr f)"
  using lands_behind [OF uleb.read_moves assms] lands_behind [OF sleb.read_moves assms]
  by (auto simp: with_uleb_def with_sleb_def split: prod.splits option.splits)

lemma cfi_switch_lands: "lands (Suc (Suc 0)) ptr (cfi_switch abi depth space op ptr sc)"
proof -
  have near: "lands (Suc (Suc 0)) ptr (Cfi_next (ptr + 1) s)" "lands (Suc (Suc 0)) ptr (Cfi_next (ptr + 2) s)" for s
    using lands_here [of 1 "Suc (Suc 0)" ptr] lands_here [of 2 "Suc (Suc 0)" ptr] by simp_all
  show ?thesis unfolding cfi_switch_def
    by (intro lands_if lands_option lands_operand lands_same near)
qed

lemma cfi_step_moves:
  assumes "cfi_step abi depth space ptr sc = Cfi_next p s"
  shows "\<exists>d. p = ptr + of_nat d \<and> 1 \<le> d \<and> d \<le> 21"
proof -
  have "lands (Suc (Suc 0)) (ptr + 1) (case read_uleb128 space (ptr + 1) of (None, q) \<Rightarrow> Cfi_break sc | (Some v, q) \<Rightarrow> Cfi_next q (g v))" for g
    using lands_behind [OF uleb.read_moves lands_same] by (auto split: prod.splits option.splits)
  then have "lands (Suc (Suc 0)) (ptr + 1) (cfi_step abi depth space ptr sc)"
    using cfi_switch_lands by (simp add: cfi_step_def split: option.split)
  then obtain d where "d \<le> 20" "p = ptr + 1 + of_nat d" using assms by (auto simp: lands_def)
  then show ?thesis by (intro exI [of _ "Suc d"]) (simp add: add.assoc)
qed

lemma address_moves:
  assumes "ptr < hi" and "unat hi + d < 2 ^ 64" and "1 \<le> d"
  shows "unat (ptr + of_nat d :: u64) = unat ptr + d"
proof -
  have "unat ptr + d < 2 ^ 64" using assms by (simp add: word_less_nat_alt)
  moreover have "unat (of_nat d :: u64) = d" using calculation by (simp add: unat_of_nat)
  ultimately show ?thesis using unat_add_lem [of ptr "of_nat d"] by simp
qed

lemma cfi_loop_returns:
  assumes "unreadable_from space hi" and "unat hi + 21 < 2 ^ 64"
  shows "\<exists>r. cfi_loop abi depth space entry_end target_pc ptr sc = Some r"
proof (induction "2 ^ 64 - unat ptr" arbitrary: ptr sc rule: less_induct)
  case less
  show ?case
  proof (cases "cfi_step abi depth space ptr sc")
    case (Cfi_next p s)
    have "ptr < hi"
    proof (rule ccontr)
      assume "\<not> ptr < hi"
      then obtain e where "read_bytes space ptr 1 = Inl e" using unreadable_read [OF assms(1)] zero_less_one by blast
      then show False using Cfi_next by (simp add: cfi_step_def read_byte_def)
    qed
    moreover obtain d where d: "p = ptr + of_nat d" "1 \<le> d" "d \<le> 21" using cfi_step_moves [OF Cfi_next] by blast
    ultimately have "unat p = unat ptr + d" using address_moves [of ptr hi d] assms(2) by simp
    then have "2 ^ 64 - unat p < 2 ^ 64 - unat ptr"
      using d(2) unsigned_less [of p, where 'a = nat] by simp
    from less [OF this, of s] show ?thesis by (subst cfi_loop.simps) (simp add: Cfi_next)
  qed (subst cfi_loop.simps, simp)+
qed

lemma execute_fde_returns:
  assumes "unreadable_from (rc_space rc) hi" and "unat hi + 21 < 2 ^ 64"
  shows "\<exists>r. execute_fde abi depth rc addr pc = Some r"
proof -
  have "\<exists>r. (case cfi_loop abi depth (rc_space rc) entry_end pc start sc of None \<Rightarrow> None | Some None \<Rightarrow> Some None
      | Some (Some sc') \<Rightarrow> Some (apply_row abi rc (sc_state sc'))) = Some r" for entry_end start sc
    using cfi_loop_returns [OF assms, of abi depth entry_end pc start sc] by (auto split: option.splits)
  then show ?thesis by (auto simp: execute_fde_def split: option.splits prod.splits)
qed

lemma entry_moves:
  assumes "unat len < 2 ^ 32" and "len \<noteq> (0xFFFFFFFC :: u64)"
  shows "\<exists>d. ucast (4 + ucast len :: u32) = (of_nat d :: u64) \<and> 1 \<le> d \<and> d < 2 ^ 32"
proof (intro exI conjI)
  let ?d = "4 + ucast len :: u32"
  show "ucast ?d = (of_nat (unat ?d) :: u64)" by simp
  show "unat ?d < 2 ^ 32" using unsigned_less [of ?d, where 'a = nat] by simp
  have l: "unat (ucast len :: u32) = unat len" using assms(1) by (simp add: unsigned_ucast_eq take_bit_nat_eq_self)
  have "?d \<noteq> 0"
  proof
    assume "?d = 0"
    then have "ucast len = - (4 :: u32)" by (simp add: eq_neg_iff_add_eq_0 add.commute)
    then have "unat len = unat (- 4 :: u32)" using l by simp
    then show False using assms(2) by (simp add: word_unat_eq_iff)
  qed
  then show "1 \<le> unat ?d" by (simp add: unat_gt_0 Suc_le_eq)
qed

lemma frame_search_returns:
  assumes "unreadable_from space hi" and "unreadable_from (rc_space rc) hi" and "unat hi + 2 ^ 32 < 2 ^ 64"
    and "fills_buffer space" and "\<And>addr. read_object space addr 4 \<noteq> Some 0xFFFFFFFC"
  shows "\<exists>r. frame_search abi depth rc space frame_end pc place = Some r"
proof (induction "2 ^ 64 - unat place" arbitrary: place rule: less_induct)
  case less
  show ?case
  proof (cases "read_object space place 4")
    case None
    then show ?thesis by (subst frame_search.simps) simp
  next
    case (Some len)
    have "place < hi"
    proof (rule ccontr)
      assume "\<not> place < hi"
      then obtain e where "read_bytes space place 4 = Inl e" using unreadable_read [OF assms(1), of place 4] by auto
      then show False using Some by (simp add: read_object_def)
    qed
    moreover have "len \<noteq> 0xFFFFFFFC" "unat len < 2 ^ 32" using assms(5) [of place] Some read_object_less [OF assms(4) Some] by auto
    then obtain d where d: "ucast (4 + ucast len :: u32) = (of_nat d :: u64)" "1 \<le> d" "d < 2 ^ 32" using entry_moves by blast
    ultimately have "unat (place + of_nat d) = unat place + d" using address_moves [of place hi d] assms(3) by simp
    then have "2 ^ 64 - unat (place + of_nat d) < 2 ^ 64 - unat place"
      using d(2) unsigned_less [of "place + of_nat d", where 'a = nat] by simp
    then obtain r where "frame_search abi depth rc space frame_end pc (place + of_nat d) = Some r" using less by blast
    moreover obtain r' where "execute_fde abi depth rc place pc = Some r'"
      using execute_fde_returns [OF assms(2), of abi depth place pc] assms(3) by auto
    ultimately show ?thesis by (subst frame_search.simps) (auto simp: Some d(1) split: option.splits)
  qed
qed

text \<open>An entry whose length field makes the search stay where it is.\<close>

lemma frame_search_stays:
  assumes "read_object space place 4 = Some 0xFFFFFFFC" and "execute_fde abi depth rc place pc = Some None" and "place < frame_end"
  shows "frame_search abi depth rc space frame_end pc place = None"
proof -
  have never: "\<not> (r = abi \<and> d = depth \<and> c = rc \<and> s = space \<and> fe = frame_end \<and> q = pc \<and> p = place)"
    if found: "frame_search r d c s fe q p = Some y" for r d c s fe q p y
    by (rule frame_search.raw_induct [OF _ found,
          where P = "\<lambda>r d c s fe q p y. \<not> (r = abi \<and> d = depth \<and> c = rc \<and> s = space \<and> fe = frame_end \<and> q = pc \<and> p = place)"])
       (use assms in \<open>force split: if_splits\<close>)
  show ?thesis
    using never [of abi depth rc space frame_end pc place] by (cases "frame_search abi depth rc space frame_end pc place") auto
qed

section \<open>An example\<close>

text \<open>A function with a frame pointer on x86-64, its entry, its stack frame behind the table, and its registers.\<close>

definition example_entry :: fde where
  "example_entry = \<lparr>fde_cie = 0, fde_initial = 0x80, fde_range = 0x20,
     fde_instrs = [Def_cfa 7 8, Offset 16 1, Advance_loc 1, Def_cfa_offset 16, Offset 6 2, Advance_loc 3, Def_cfa_register 6,
       Advance_loc1 24, Def_cfa 7 8]\<rparr>"

definition example_memory :: address_space_ref where
  "example_memory = flat_memory 0x10 (fde_bytes example_entry @ le_bytes 8 0xF0 @ le_bytes 8 0x95)"

definition example_image :: elf_image_info where
  "example_image = \<lparr>el_image_name = ''a.out'', el_load_base = 0x80, el_image_size = 0x40, el_exidx_start = 0, el_exidx_end = 0,
     el_debug_frame_start = 0x10, el_debug_frame_end = 0x32\<rparr>"

definition example_registers :: "(u32 \<Rightarrow> u64) register_context" where
  "example_registers = \<lparr>rc_valid = True, rc_state = (\<lambda>r. if r = 6 then 0x32 else 0), rc_space = example_memory,
     rc_read = (\<lambda>s r. Some (s r)), rc_write = (\<lambda>s r v. Some (s(r := v)))\<rparr>"

lemma example_length: "length (fde_bytes example_entry) = 34"
  by code_simp

lemma example_holds: "holds example_memory 0x10 (fde_bytes example_entry)"
  unfolding example_memory_def by (rule holds_prefix, rule flat_memory_holds) (simp_all add: example_length)

section \<open>Properties\<close>



text \<open>C24: A step of the DWARF unwinder returns on every table, also a malformed or truncated one and one whose end is not
  known: the addresses from some point on are unreadable, and no length field is \<open>0xFFFFFFFC\<close>.\<close>

theorem dwarf_step_returns:
  assumes "unreadable_from space hi" and "unreadable_from (rc_space rc) hi" and "unat hi + 2 ^ 32 < 2 ^ 64"
    and "fills_buffer space" and "\<And>addr. read_object space addr 4 \<noteq> Some 0xFFFFFFFC"
  shows "\<exists>r. dwarf_step abi depth space enumerator has_storage rc current_pc = Some r"
  using frame_search_returns [OF assms] by (auto simp: dwarf_step_def Let_def split: option.splits)

theorem dwarf_step_returns_witness:
  "\<exists>r. dwarf_step x86_64_abi_traits 8 (flat_memory 0x10 [0x14, 0, 0]) (Some (find_by_pc [example_image])) True
         (example_registers\<lparr>rc_space := flat_memory 0x10 [0x14, 0, 0]\<rparr>) 0x90 = Some r"
proof (rule dwarf_step_returns)
  let ?m = "flat_memory 0x10 [0x14, 0, 0]"
  show u: "unreadable_from ?m 0x1000" by (rule flat_memory_unreadable) simp
  then show "unreadable_from (rc_space (example_registers\<lparr>rc_space := ?m\<rparr>)) 0x1000" by simp
  show "fills_buffer ?m" by (rule flat_memory_fills)
  show "read_object ?m addr 4 \<noteq> Some 0xFFFFFFFC" for addr
    by (simp add: read_object_def flat_memory_def read_bytes_def)
qed simp

section \<open>Departures from the standard\<close>

text \<open>The distance to the next entry is computed in 32 bits: with the length field \<open>0xFFFFFFFC\<close> it is zero, and a step that
  meets such an entry does not return.\<close>

theorem frame_search_hangs:
  "dwarf_step x86_64_abi_traits 8 (flat_memory 0x10 [0xFC, 0xFF, 0xFF, 0xFF]) (Some (find_by_pc [example_image])) True
     (example_registers\<lparr>rc_space := flat_memory 0x10 [0xFC, 0xFF, 0xFF, 0xFF]\<rparr>) 0x90 = None"
proof -
  let ?m = "flat_memory 0x10 [0xFC, 0xFF, 0xFF, 0xFF]" and ?rc = "example_registers\<lparr>rc_space := flat_memory 0x10 [0xFC, 0xFF, 0xFF, 0xFF]\<rparr>"
  have l: "read_object ?m 0x10 4 = Some 0xFFFFFFFC" by (simp add: read_object_def read_bytes_def flat_memory_def)
  have "fde_header ?m 0x10 = None" by (simp add: fde_header_def l Let_def) (simp add: read_object_def read_bytes_def flat_memory_def)
  then have "execute_fde x86_64_abi_traits 8 ?rc 0x10 0x90 = Some None" by (simp add: execute_fde_def)
  from frame_search_stays [OF l this, of "0x32"] show ?thesis
    by (simp add: dwarf_step_def Let_def x86_64_abi_traits_def find_by_pc_def elf_contains_def example_image_def
      has_debug_frame_def example_registers_def)
qed

text \<open>The common information entry that compilers emit for x86-64 is taken for an entry of its own: version, alignment
  factors and return column are read as a range of addresses, and its remaining instructions as a row.\<close>

definition common_entry :: "u8 list" where
  "common_entry = [0x14, 0, 0, 0, 0xFF, 0xFF, 0xFF, 0xFF, 1, 0, 1, 0x78, 0x10, 0x0C, 7, 8, 0x90, 1, 0, 0, 0, 0, 0, 0]"

lemma le_bytes_4:
  "le_bytes 4 v = [of_nat (v mod 256), of_nat (v div 256 mod 256), of_nat (v div 256 div 256 mod 256),
     of_nat (v div 256 div 256 div 256 mod 256)]"
proof -
  have "(4 :: nat) = Suc (Suc (Suc (Suc 0)))" by simp
  then show ?thesis by (simp only: le_bytes.simps)
qed

theorem common_entry_executed:
  assumes "rc_valid rc" and "holds (rc_space rc) addr common_entry" and "unat addr + 24 < 2 ^ 64"
    and "0x78010001 \<le> pc" and "pc < 0x80080C11"
  shows "execute_fde x86_64_abi_traits depth rc addr pc
           = Some (apply_row x86_64_abi_traits rc ((frame_state_init x86_64_abi_traits)\<lparr>fs_current_loc := 0x78010001\<rparr>))"
proof -
  let ?e = "\<lparr>fde_cie = 0xFFFFFFFF, fde_initial = 0x78010001, fde_range = 0x08070C10,
              fde_instrs = [Offset 16 1, Nop, Nop, Nop, Nop, Nop, Nop]\<rparr>"
  have l: "fde_length ?e = 20" by (simp add: fde_length_def uleb_bytes.simps)
  have b: "fde_bytes ?e = common_entry"
    by (simp add: fde_bytes_def l le_bytes_4) (simp add: common_entry_def uleb_bytes.simps)
  have ok: "fde_ok ?e" by (simp add: fde_ok_def l)
  have c: "fde_covers pc ?e" using assms(4,5) by (simp add: fde_covers_def word_le_nat_alt word_less_nat_alt)
  have r: "fde_row x86_64_abi_traits depth pc ?e = (frame_state_init x86_64_abi_traits)\<lparr>fs_current_loc := 0x78010001\<rparr>"
    using assms(4)
    by (simp add: fde_row_def context_reset_def frame_state_init_def on_state_def set_rule_def is_return_address_register_def
      x86_64_abi_traits_def scaled_offset_def memory_rule_def)
  have len: "length common_entry = 24" by (simp add: common_entry_def)
  show ?thesis
    using execute_fde_entry [of rc addr ?e "[]" x86_64_abi_traits depth pc] assms(1,2,3) ok c r by (simp add: b len)
qed

text \<open>Restoring a remembered state moves the location back too, so that later rows apply too early: here the row of
  \<open>0x88\<close> at the program counter \<open>0x86\<close>.\<close>

theorem restore_state_moves_location:
  "fs_cfa_offset (fde_row x86_64_abi_traits 8 0x86 \<lparr>fde_cie = 0, fde_initial = 0x80, fde_range = 0x20,
     fde_instrs = [Remember_state, Advance_loc 4, Restore_state, Advance_loc 4, Def_cfa_offset 16]\<rparr>) = 16"
  by code_simp

text \<open>The signed instructions do not scale their operand: the unsigned form with 2 means 16 bytes below the frame address,
  the signed form 2 bytes above it.\<close>

theorem signed_offset_unscaled:
  "fs_ra_loc (sc_state (exec_instr x86_64_abi_traits depth (Offset_extended 16 2) sc)) = memory_rule (- 16)
   \<and> fs_ra_loc (sc_state (exec_instr x86_64_abi_traits depth (Offset_extended_sf 16 2) sc)) = memory_rule 2"
  by (simp add: on_state_def set_rule_def is_return_address_register_def x86_64_abi_traits_def scaled_offset_def)

text \<open>An instruction that the decoder does not know is skipped without its operands, which then run as instructions:
  \<^verbatim>\<open>DW_CFA_def_cfa_sf\<close>, for which the class has a name, and \<^verbatim>\<open>DW_CFA_advance_loc4\<close>.\<close>

theorem unknown_instruction_operands:
  assumes "read_byte space ptr = Some op" and "op = 0x12 \<or> op = 0x04"
  shows "cfi_step abi depth space ptr sc = Cfi_next (ptr + 1) sc"
  using assms by (auto simp: cfi_step_def cfi_switch_def)

end
