(* ===== verification/Unwind.thy ===== *)
theory Unwind
  imports Dwarf_Cfi
begin

text \<open>
  The unwinders around the DWARF decoder: frame pointer chains (\<^verbatim>\<open>inspector/fp_unwinder.hpp\<close>, with the slots of
  \<^verbatim>\<open>dwarf_abi.hpp\<close>), hints (\<^verbatim>\<open>unwind_hint.hpp\<close>), the chain of tiers (\<^verbatim>\<open>chained_unwinder.hpp\<close>), the cursor over frames
  (\<^verbatim>\<open>frame_pointer.hpp\<close>) and the cursor that crosses traps (\<^verbatim>\<open>hybrid_unwinder.hpp\<close>). An unwinder takes the registers and a program
  counter and gives frame pointer and program counter of the caller, or fails; it may have changed the registers
  in both cases. \<^const>\<open>None\<close> is a step that does not return. Unwinders, hint routines, trap matchers and
  trap decoders behind a handle are the caller's and are parameters.
\<close>

type_synonym 'c unwinder = "'c register_context \<Rightarrow> u64 \<Rightarrow> ((u64 \<times> u64) option \<times> 'c register_context) option"

section \<open>Frame slots\<close>

text \<open>Where a frame keeps the frame pointer and the return address of its caller. Only 32-bit ARM looks at the state of
  the processor.\<close>

record frame_slots =
  sl_abi :: abi_traits
  sl_fp_slot_offset :: u64
  sl_ra_slot_offset :: u64
  sl_dynamic :: bool

definition arm_slots :: frame_slots where
  "arm_slots = \<lparr>sl_abi = arm_abi_traits, sl_fp_slot_offset = - 4, sl_ra_slot_offset = 0, sl_dynamic = True\<rparr>"

definition aarch64_slots :: frame_slots where
  "aarch64_slots = \<lparr>sl_abi = aarch64_abi_traits, sl_fp_slot_offset = 0, sl_ra_slot_offset = 8, sl_dynamic = False\<rparr>"

definition riscv32_slots :: frame_slots where
  "riscv32_slots = \<lparr>sl_abi = riscv32_abi_traits, sl_fp_slot_offset = 0, sl_ra_slot_offset = 4, sl_dynamic = False\<rparr>"

definition riscv64_slots :: frame_slots where
  "riscv64_slots = \<lparr>sl_abi = riscv64_abi_traits, sl_fp_slot_offset = 0, sl_ra_slot_offset = 8, sl_dynamic = False\<rparr>"

definition x86_slots :: frame_slots where
  "x86_slots = \<lparr>sl_abi = x86_abi_traits, sl_fp_slot_offset = 0, sl_ra_slot_offset = 4, sl_dynamic = False\<rparr>"

definition x86_64_slots :: frame_slots where
  "x86_64_slots = \<lparr>sl_abi = x86_64_abi_traits, sl_fp_slot_offset = 0, sl_ra_slot_offset = 8, sl_dynamic = False\<rparr>"

definition thumb_state :: "'c register_context \<Rightarrow> bool" where
  "thumb_state rc \<longleftrightarrow> rc_valid rc \<and> (case read_raw arm_abi_traits rc 259 of None \<Rightarrow> False | Some cpsr \<Rightarrow> cpsr AND 0x20 \<noteq> 0)"

definition resolve_fp_register :: "frame_slots \<Rightarrow> 'c register_context \<Rightarrow> u32" where
  "resolve_fp_register sl rc = (if sl_dynamic sl \<and> thumb_state rc then 7 else ab_fp_reg (sl_abi sl))"

definition resolve_frame_slot_offsets :: "frame_slots \<Rightarrow> 'c register_context \<Rightarrow> (u64 \<times> u64) option" where
  "resolve_frame_slot_offsets sl rc =
     (if sl_dynamic sl \<and> thumb_state rc then None else Some (sl_fp_slot_offset sl, sl_ra_slot_offset sl))"

section \<open>Frame pointer chains\<close>

definition fp_step :: "frame_slots \<Rightarrow> address_space_ref \<Rightarrow> 'c unwinder" where
  "fp_step sl space rc current_pc =
     (if \<not> rc_valid rc then Some (None, rc)
      else let abi = sl_abi sl; fp_reg = resolve_fp_register sl rc; ptr_size = ab_pointer_size abi
           in (case read_raw abi rc fp_reg of
                None \<Rightarrow> Some (None, rc)
              | Some current_fp \<Rightarrow>
                  if current_fp = 0 \<or> current_fp mod of_nat ptr_size \<noteq> 0 then Some (None, rc)
                  else (case resolve_frame_slot_offsets sl rc of
                         None \<Rightarrow> Some (None, rc)
                       | Some (fp_slot, ra_slot) \<Rightarrow>
                           (case (read_object space (add_address_offset current_fp fp_slot) ptr_size,
                                  read_object space (add_address_offset current_fp ra_slot) ptr_size) of
                              (Some saved_fp, Some saved_ra) \<Rightarrow>
                                if saved_fp \<le> current_fp \<or> saved_ra = 0 then Some (None, rc)
                                else Some (Some (saved_fp, ab_normalize_pc abi saved_ra),
                                           write_raw (ab_ra_reg abi) saved_ra (write_raw fp_reg saved_fp rc))
                            | _ \<Rightarrow> Some (None, rc)))))"

section \<open>Hints\<close>

record 'c unwind_hint =
  uh_pc_start :: u64
  uh_pc_end :: u64
  uh_routine :: "(address_space_ref \<Rightarrow> 'c register_context \<Rightarrow> ((u64 \<times> u64) option \<times> 'c register_context) option) option"

definition hint_contains :: "u64 \<Rightarrow> 'c unwind_hint \<Rightarrow> bool" where
  "hint_contains pc h \<longleftrightarrow> pc \<ge> uh_pc_start h \<and> pc < uh_pc_end h"

definition add_hint :: "nat \<Rightarrow> 'c unwind_hint \<Rightarrow> 'c unwind_hint list \<Rightarrow> bool \<times> 'c unwind_hint list" where
  "add_hint max_hints h hints = (if length hints \<ge> max_hints then (False, hints) else (True, hints @ [h]))"

definition find_hint :: "'c unwind_hint list \<Rightarrow> u64 \<Rightarrow> 'c unwind_hint option" where
  "find_hint hints pc = find (hint_contains pc) hints"

section \<open>Tiers\<close>

text \<open>The DWARF decoder as an unwinder: a step that fails has not touched the registers.\<close>

definition dwarf_unwinder :: "abi_traits \<Rightarrow> nat \<Rightarrow> address_space_ref \<Rightarrow> (u64 \<Rightarrow> elf_image_info option) option \<Rightarrow> bool \<Rightarrow> 'c unwinder" where
  "dwarf_unwinder abi max_depth space enumerator has_storage rc current_pc =
     (case dwarf_step abi max_depth space enumerator has_storage rc current_pc of
        None \<Rightarrow> None
      | Some None \<Rightarrow> Some (None, rc)
      | Some (Some (frame, rc')) \<Rightarrow> Some (Some frame, rc'))"

text \<open>A handle without an unwinder fails.\<close>

definition unwinder_step :: "'c unwinder option \<Rightarrow> 'c unwinder" where
  "unwinder_step u rc pc = (case u of None \<Rightarrow> Some (None, rc) | Some step \<Rightarrow> step rc pc)"

text \<open>The tiers are tried in order; each sees the registers as the one before left them.\<close>

fun try_tiers :: "'c unwinder option list \<Rightarrow> 'c unwinder" where
  "try_tiers [] rc pc = Some (None, rc)"
| "try_tiers (u # us) rc pc =
     (case unwinder_step u rc pc of
        None \<Rightarrow> None
      | Some (Some frame, rc') \<Rightarrow> Some (Some frame, rc')
      | Some (None, rc') \<Rightarrow> try_tiers us rc' pc)"

definition hint_step :: "frame_slots \<Rightarrow> address_space_ref \<Rightarrow> (u64 \<Rightarrow> 'c unwind_hint option) option \<Rightarrow> 'c unwinder" where
  "hint_step sl space hints rc current_pc =
     (let abi = sl_abi sl
      in (case hints of
            None \<Rightarrow> Some (None, rc)
          | Some lookup \<Rightarrow>
              if current_pc = 0 then Some (None, rc)
              else (case lookup (ab_normalize_pc abi current_pc) of
                     None \<Rightarrow> Some (None, rc)
                   | Some hint \<Rightarrow>
                       (case uh_routine hint of
                          None \<Rightarrow> Some (None, rc)
                        | Some routine \<Rightarrow>
                            (case routine space rc of
                               None \<Rightarrow> None
                             | Some (None, rc') \<Rightarrow> Some (None, rc')
                             | Some (Some (fp, pc), rc') \<Rightarrow>
                                 Some (Some (fp, pc),
                                       write_raw (ab_ra_reg abi) (register_value abi pc)
                                         (write_raw (resolve_fp_register sl rc') (register_value abi fp) rc')))))))"

definition chained_step ::
    "frame_slots \<Rightarrow> address_space_ref \<Rightarrow> 'c unwinder option \<Rightarrow> 'c unwinder option \<Rightarrow> 'c unwinder option
     \<Rightarrow> (u64 \<Rightarrow> 'c unwind_hint option) option \<Rightarrow> 'c unwinder" where
  "chained_step sl space exidx dwarf fp hints rc current_pc =
     (if \<not> rc_valid rc then Some (None, rc)
      else (case try_tiers [exidx, dwarf, fp] rc current_pc of
             None \<Rightarrow> None
           | Some (Some frame, rc') \<Rightarrow> Some (Some frame, rc')
           | Some (None, rc') \<Rightarrow> hint_step sl space hints rc' current_pc))"

section \<open>The cursor\<close>

record stack_frame =
  sf_frame_index :: u32
  sf_fp :: u64
  sf_pc :: u64

record 'c frame_pointer_iterator =
  it_unwinder :: "'c unwinder option"
  it_reg_ctx :: "'c register_context"
  it_frame :: stack_frame
  it_is_valid :: bool

definition iterator_init :: "'c unwinder option \<Rightarrow> 'c register_context \<Rightarrow> u64 \<Rightarrow> u64 \<Rightarrow> 'c frame_pointer_iterator" where
  "iterator_init u rc initial_fp initial_pc =
     \<lparr>it_unwinder = u, it_reg_ctx = rc, it_frame = \<lparr>sf_frame_index = 0, sf_fp = initial_fp, sf_pc = initial_pc\<rparr>,
      it_is_valid = (initial_fp \<noteq> 0 \<and> initial_pc \<noteq> 0)\<rparr>"

definition iterator_next :: "'c frame_pointer_iterator \<Rightarrow> (bool \<times> 'c frame_pointer_iterator) option" where
  "iterator_next it =
     (if \<not> it_is_valid it then Some (False, it)
      else case unwinder_step (it_unwinder it) (it_reg_ctx it) (sf_pc (it_frame it)) of
        None \<Rightarrow> None
      | Some (None, rc) \<Rightarrow> Some (False, it\<lparr>it_reg_ctx := rc, it_is_valid := False\<rparr>)
      | Some (Some (fp, pc), rc) \<Rightarrow>
          Some (True, it\<lparr>it_reg_ctx := rc,
                         it_frame := \<lparr>sf_frame_index = sf_frame_index (it_frame it) + 1, sf_fp = fp, sf_pc = pc\<rparr>\<rparr>))"

lemma index_moves: "i < n \<Longrightarrow> unat (i + 1) = unat i + 1" for i n :: u32
proof -
  assume "i < n"
  then have "unat i + 1 < 2 ^ 32" using unsigned_less [of n, where 'a = nat] by (simp add: word_less_nat_alt)
  then show ?thesis using unat_add_lem [of i 1] by simp
qed

text \<open>The loop over the frames, with the state of the visitor.\<close>

function for_each_frame ::
    "(stack_frame \<Rightarrow> 's \<Rightarrow> bool \<times> 's) \<Rightarrow> u32 \<Rightarrow> 'c frame_pointer_iterator \<Rightarrow> 's \<Rightarrow> ('c frame_pointer_iterator \<times> 's) option" where
  "for_each_frame visitor max_depth it s =
     (if it_is_valid it \<and> sf_frame_index (it_frame it) < max_depth
      then (let (continue, s') = visitor (it_frame it) s
            in if \<not> continue then Some (it, s')
               else (case iterator_next it of
                      None \<Rightarrow> None
                    | Some (_, it') \<Rightarrow> for_each_frame visitor max_depth it' s'))
      else Some (it, s))"
  by pat_completeness auto

termination
proof (relation "measure (\<lambda>(visitor, n, it, s). if it_is_valid it then Suc (unat n - unat (sf_frame_index (it_frame it))) else 0)",
    goal_cases)
  case (2 visitor n it s cs continue s' r b it')
  then have i: "it_is_valid it" "sf_frame_index (it_frame it) < n" and n: "iterator_next it = Some (b, it')" by auto
  show ?case
  proof (cases "it_is_valid it'")
    case True
    then have "sf_frame_index (it_frame it') = sf_frame_index (it_frame it) + 1"
      using n i(1) by (auto simp: iterator_next_def split: if_splits option.splits prod.splits)
    then have "unat n - unat (sf_frame_index (it_frame it')) < unat n - unat (sf_frame_index (it_frame it))"
      using i(2) index_moves [OF i(2)] by (intro diff_less_mono2) (simp_all add: word_less_nat_alt)
    then show ?thesis using i(1) by simp
  qed (use i in simp)
qed simp

declare for_each_frame.simps [simp del]

section \<open>Frames in order\<close>

text \<open>The visitor that keeps every frame.\<close>

definition collect_frame :: "stack_frame \<Rightarrow> stack_frame list \<Rightarrow> bool \<times> stack_frame list" where
  "collect_frame frame fs = (True, fs @ [frame])"

definition unwinder_returns :: "'c unwinder option \<Rightarrow> bool" where
  "unwinder_returns u \<longleftrightarrow> (\<forall>rc pc. \<exists>r. unwinder_step u rc pc = Some r)"

lemma iterator_next_cases [consumes 2, case_names stop move]:
  assumes "unwinder_returns (it_unwinder it)" and "it_is_valid it"
  obtains (stop) it' where "iterator_next it = Some (False, it')" "\<not> it_is_valid it'"
  | (move) fp pc rc where
      "unwinder_step (it_unwinder it) (it_reg_ctx it) (sf_pc (it_frame it)) = Some (Some (fp, pc), rc)"
      "iterator_next it = Some (True, it\<lparr>it_reg_ctx := rc,
         it_frame := \<lparr>sf_frame_index = sf_frame_index (it_frame it) + 1, sf_fp = fp, sf_pc = pc\<rparr>\<rparr>)"
proof -
  obtain r rc where "unwinder_step (it_unwinder it) (it_reg_ctx it) (sf_pc (it_frame it)) = Some (r, rc)"
    using assms(1) unfolding unwinder_returns_def by (metis surj_pair)
  then show ?thesis using assms(2) by (cases r) (auto simp: iterator_next_def intro: stop move)
qed

text \<open>One round of the loop with this visitor, as a rule for proofs about the list of frames.\<close>

lemma collect_invalid: "\<not> it_is_valid it \<Longrightarrow> for_each_frame collect_frame n it fs = Some (it, fs)"
  by (subst for_each_frame.simps) simp

lemma collect_deep: "\<not> sf_frame_index (it_frame it) < n \<Longrightarrow> for_each_frame collect_frame n it fs = Some (it, fs)"
  by (subst for_each_frame.simps) simp

lemma collect_round:
  "it_is_valid it \<Longrightarrow> sf_frame_index (it_frame it) < n \<Longrightarrow> iterator_next it = Some (b, it')
     \<Longrightarrow> for_each_frame collect_frame n it fs = for_each_frame collect_frame n it' (fs @ [it_frame it])"
  by (subst for_each_frame.simps) (simp add: collect_frame_def)

lemma collect_frames:
  assumes "unwinder_returns (it_unwinder it)"
  shows "\<exists>it' new. for_each_frame collect_frame n it fs = Some (it', fs @ new)
           \<and> map (\<lambda>f. unat (sf_frame_index f)) new
               = [unat (sf_frame_index (it_frame it))..<unat (sf_frame_index (it_frame it)) + length new]
           \<and> (new = [] \<or> unat (sf_frame_index (it_frame it)) + length new \<le> unat n)"
  using assms
proof (induction "unat n - unat (sf_frame_index (it_frame it))" arbitrary: it fs rule: less_induct)
  case less
  let ?i = "sf_frame_index (it_frame it)"
  show ?case
  proof (cases "it_is_valid it \<and> ?i < n")
    case False
    then show ?thesis using collect_invalid [of it n fs] collect_deep [of it n fs] by force
  next
    case True
    then have valid: "it_is_valid it" by simp
    show ?thesis
      using less.prems valid
    proof (cases rule: iterator_next_cases)
      case (stop it')
      then show ?thesis
        using True collect_round [of it n False it' fs] collect_invalid [of it' n "fs @ [it_frame it]"]
        by (intro exI [of _ it'] exI [of _ "[it_frame it]"]) (simp add: word_less_nat_alt)
    next
      case (move fp pc rc)
      let ?it = "it\<lparr>it_reg_ctx := rc, it_frame := \<lparr>sf_frame_index = ?i + 1, sf_fp = fp, sf_pc = pc\<rparr>\<rparr>"
      have i: "unat (sf_frame_index (it_frame ?it)) = Suc (unat ?i)" using index_moves True by force
      then have "unat n - unat (sf_frame_index (it_frame ?it)) < unat n - unat ?i"
        using True by (intro diff_less_mono2) (simp_all add: word_less_nat_alt)
      from less.hyps [OF this, of "fs @ [it_frame it]"] obtain it' new where
        f: "for_each_frame collect_frame n ?it (fs @ [it_frame it]) = Some (it', (fs @ [it_frame it]) @ new)"
          "map (\<lambda>f. unat (sf_frame_index f)) new = [Suc (unat ?i)..<Suc (unat ?i) + length new]"
          "new = [] \<or> Suc (unat ?i) + length new \<le> unat n"
        using less.prems i by auto
      have "for_each_frame collect_frame n it fs = Some (it', fs @ it_frame it # new)"
        using f(1) True collect_round [of it n True ?it fs] move(2) by simp
      then show ?thesis
        using f(2,3) True
        by (intro exI [of _ it'] exI [of _ "it_frame it # new"]) (auto simp: upt_conv_Cons word_less_nat_alt simp del: upt_Suc)
    qed
  qed
qed

section \<open>Ascending frames\<close>

text \<open>Registers that keep what is written to them.\<close>

definition registers_keep :: "'c register_context \<Rightarrow> bool" where
  "registers_keep rc \<longleftrightarrow>
     (\<forall>s reg v. \<exists>s'. rc_write rc s reg v = Some s'
        \<and> (\<forall>reg'. rc_read rc s' reg' = (if reg' = reg then Some v else rc_read rc s reg')))"

lemma write_raw_keeps:
  assumes "registers_keep rc"
  shows "registers_keep (write_raw reg v rc)" and "rc_valid (write_raw reg v rc) = rc_valid rc"
    and "read_raw abi (write_raw reg v rc) reg' = (if reg' = reg then Some (register_value abi v) else read_raw abi rc reg')"
proof -
  obtain s' where s': "rc_write rc (rc_state rc) reg v = Some s'"
    "\<And>reg'. rc_read rc s' reg' = (if reg' = reg then Some v else rc_read rc (rc_state rc) reg')"
    using assms unfolding registers_keep_def by meson
  have "rc_write (write_raw reg v rc) = rc_write rc" "rc_read (write_raw reg v rc) = rc_read rc"
    by (simp_all add: write_raw_def s'(1))
  then show "registers_keep (write_raw reg v rc)" using assms by (simp only: registers_keep_def simp_thms)
  show "rc_valid (write_raw reg v rc) = rc_valid rc" by (simp add: write_raw_def s'(1))
  show "read_raw abi (write_raw reg v rc) reg' = (if reg' = reg then Some (register_value abi v) else read_raw abi rc reg')"
    by (simp add: write_raw_def s' read_raw_def)
qed

text \<open>The frame layouts of the library.\<close>

definition known_slots :: "frame_slots list" where
  "known_slots = [arm_slots, aarch64_slots, riscv32_slots, riscv64_slots, x86_slots, x86_64_slots]"

lemmas slots_defs = known_slots_def arm_slots_def aarch64_slots_def riscv32_slots_def riscv64_slots_def x86_slots_def x86_64_slots_def
  arm_abi_traits_def aarch64_abi_traits_def riscv32_abi_traits_def riscv64_abi_traits_def x86_abi_traits_def x86_64_abi_traits_def

lemma known_slots_registers:
  assumes "sl \<in> set known_slots"
  shows "ab_ra_reg (sl_abi sl) \<noteq> resolve_fp_register sl rc" "ab_ra_reg (sl_abi sl) \<noteq> 259" "resolve_fp_register sl rc \<noteq> 259"
    "ab_pointer_size (sl_abi sl) = 4 \<or> ab_pointer_size (sl_abi sl) = 8"
  using assms by (auto simp: slots_defs resolve_fp_register_def)

lemma register_value_read:
  assumes "fills_buffer space" and "read_object space addr (ab_pointer_size abi) = Some v"
  shows "register_value abi v = v"
proof (cases "ab_pointer_size abi = 4")
  case True
  then have "unat v < 2 ^ 32" using read_object_less [OF assms] by simp
  then have "take_bit 32 v = v" by (simp add: word_eq_iff_unsigned [where 'a = nat] unsigned_take_bit_eq take_bit_nat_eq_self)
  then show ?thesis using True by (simp add: register_value_def take_bit_eq_mask mask_eq_exp_minus_1)
qed (simp add: register_value_def)

lemma fp_step_ascends:
  assumes "fp_step sl space rc pc = Some (Some (fp', pc'), rc')" and "sl \<in> set known_slots" and "registers_keep rc" and "fills_buffer space"
  shows "\<exists>fp. read_raw (sl_abi sl) rc (resolve_fp_register sl rc) = Some fp \<and> fp < fp'"
    and "read_raw (sl_abi sl) rc' (resolve_fp_register sl rc') = Some fp'" and "registers_keep rc'"
proof -
  let ?abi = "sl_abi sl" and ?r = "resolve_fp_register sl rc"
  note regs = known_slots_registers(1,3) [OF assms(2), of rc] known_slots_registers(2) [OF assms(2)]
  obtain fp ra a where s: "read_raw ?abi rc ?r = Some fp" "fp < fp'" "rc' = write_raw (ab_ra_reg ?abi) ra (write_raw ?r fp' rc)"
    "read_object space a (ab_pointer_size ?abi) = Some fp'"
    using assms(1) by (auto simp: fp_step_def Let_def not_le split: if_splits option.splits)
  show "\<exists>fp. read_raw ?abi rc ?r = Some fp \<and> fp < fp'" using s by blast
  note keep = write_raw_keeps [OF assms(3)]
  note keep' = write_raw_keeps [OF keep(1)]
  show "registers_keep rc'" using keep'(1) s(3) by simp
  have "thumb_state rc' = thumb_state rc" using regs by (simp add: thumb_state_def s(3) keep' keep)
  then have "resolve_fp_register sl rc' = ?r" by (simp add: resolve_fp_register_def)
  then show "read_raw ?abi rc' (resolve_fp_register sl rc') = Some fp'"
    using regs by (simp add: s(3) keep' keep register_value_read [OF assms(4) s(4)])
qed

lemma fp_unwinder_returns: "unwinder_returns (Some (fp_step sl space))"
  by (auto simp: unwinder_returns_def unwinder_step_def fp_step_def Let_def split: option.splits prod.splits)

text \<open>The frames from a cursor whose frame is the one of its registers.\<close>

lemma collect_ascending:
  assumes "it_unwinder it = Some (fp_step sl space)" and "sl \<in> set known_slots" and "fills_buffer space"
    and "registers_keep (it_reg_ctx it)"
    and "read_raw (sl_abi sl) (it_reg_ctx it) (resolve_fp_register sl (it_reg_ctx it)) = Some (sf_fp (it_frame it))"
  shows "\<exists>it' new. for_each_frame collect_frame n it fs = Some (it', fs @ new)
           \<and> sorted_wrt (<) (map sf_fp new) \<and> (\<forall>f \<in> set new. sf_fp (it_frame it) \<le> sf_fp f)"
  using assms(1,4,5)
proof (induction "unat n - unat (sf_frame_index (it_frame it))" arbitrary: it fs rule: less_induct)
  case less
  let ?i = "sf_frame_index (it_frame it)"
  have ret: "unwinder_returns (it_unwinder it)" using less.prems(1) fp_unwinder_returns by simp
  show ?case
  proof (cases "it_is_valid it \<and> ?i < n")
    case False
    then show ?thesis using collect_invalid [of it n fs] collect_deep [of it n fs] by force
  next
    case True
    then have valid: "it_is_valid it" by simp
    show ?thesis
      using ret valid
    proof (cases rule: iterator_next_cases)
      case (stop it')
      then show ?thesis
        using True collect_round [of it n False it' fs] collect_invalid [of it' n "fs @ [it_frame it]"]
        by (intro exI [of _ it'] exI [of _ "[it_frame it]"]) simp
    next
      case (move fp pc rc)
      let ?it = "it\<lparr>it_reg_ctx := rc, it_frame := \<lparr>sf_frame_index = ?i + 1, sf_fp = fp, sf_pc = pc\<rparr>\<rparr>"
      have "fp_step sl space (it_reg_ctx it) (sf_pc (it_frame it)) = Some (Some (fp, pc), rc)"
        using move(1) less.prems(1) by (simp add: unwinder_step_def)
      note up = fp_step_ascends [OF this assms(2) less.prems(2) assms(3)]
      have lt: "sf_fp (it_frame it) < fp" using up(1) less.prems(3) by auto
      have "unat n - unat (sf_frame_index (it_frame ?it)) < unat n - unat ?i"
        using True index_moves [of ?i n] by (intro diff_less_mono2) (simp_all add: word_less_nat_alt)
      from less.hyps [OF this, of "fs @ [it_frame it]"] obtain it' new where
        f: "for_each_frame collect_frame n ?it (fs @ [it_frame it]) = Some (it', (fs @ [it_frame it]) @ new)"
          "sorted_wrt (<) (map sf_fp new)" "\<forall>f \<in> set new. fp \<le> sf_fp f"
        using less.prems(1) up(2,3) by auto
      have "for_each_frame collect_frame n it fs = Some (it', fs @ it_frame it # new)"
        using f(1) True collect_round [of it n True ?it fs] move(2) by simp
      then show ?thesis
        using f(2,3) lt by (intro exI [of _ it'] exI [of _ "it_frame it # new"]) force
    qed
  qed
qed

section \<open>Registers that refuse writes\<close>

text \<open>A write is kept or refused, as by a read-only context; a refused write of the frame pointer makes the next step repeat
  the frame.\<close>

definition registers_honest :: "'c register_context \<Rightarrow> bool" where
  "registers_honest rc \<longleftrightarrow>
     (\<forall>s reg v s'. rc_write rc s reg v = Some s' \<longrightarrow>
        (\<forall>reg'. rc_read rc s' reg' = (if reg' = reg then Some v else rc_read rc s reg')))"

lemma registers_keep_honest: "registers_keep rc \<Longrightarrow> registers_honest rc"
  unfolding registers_keep_def registers_honest_def by (metis option.inject)

lemma write_raw_honest:
  assumes "registers_honest rc"
  shows "registers_honest (write_raw reg v rc)" and "rc_valid (write_raw reg v rc) = rc_valid rc"
    and "read_raw abi (write_raw reg v rc) reg' =
      (if reg' = reg \<and> rc_write rc (rc_state rc) reg v \<noteq> None then Some (register_value abi v) else read_raw abi rc reg')"
proof -
  have "rc_write (write_raw reg v rc) = rc_write rc" "rc_read (write_raw reg v rc) = rc_read rc"
    by (simp_all add: write_raw_def split: option.split)
  then show "registers_honest (write_raw reg v rc)" using assms by (simp only: registers_honest_def simp_thms)
  show "rc_valid (write_raw reg v rc) = rc_valid rc" by (simp add: write_raw_def split: option.split)
  show "read_raw abi (write_raw reg v rc) reg' =
      (if reg' = reg \<and> rc_write rc (rc_state rc) reg v \<noteq> None then Some (register_value abi v) else read_raw abi rc reg')"
    using assms by (auto simp: write_raw_def read_raw_def registers_honest_def split: option.split)
qed

text \<open>The frame of a cursor is that of its registers, or the one that the frame of its registers points to.\<close>

definition frame_follows :: "frame_slots \<Rightarrow> address_space_ref \<Rightarrow> 'c register_context \<Rightarrow> u64 \<Rightarrow> bool" where
  "frame_follows sl space rc fp \<longleftrightarrow>
     (\<exists>v. read_raw (sl_abi sl) rc (resolve_fp_register sl rc) = Some v
        \<and> (v = fp \<or> read_object space (add_address_offset v (sl_fp_slot_offset sl)) (ab_pointer_size (sl_abi sl)) = Some fp))"

lemma fp_step_follows:
  assumes "fp_step sl space rc pc = Some (Some (fp', pc'), rc')" and "sl \<in> set known_slots" and "registers_honest rc" and "fills_buffer space"
    and "frame_follows sl space rc fp"
  shows "fp \<le> fp'" and "frame_follows sl space rc' fp'" and "registers_honest rc'"
proof -
  let ?abi = "sl_abi sl" and ?r = "resolve_fp_register sl rc"
  note regs = known_slots_registers(1,3) [OF assms(2), of rc] known_slots_registers(2) [OF assms(2)]
  obtain v ra where s: "read_raw ?abi rc ?r = Some v" "v < fp'" "rc' = write_raw (ab_ra_reg ?abi) ra (write_raw ?r fp' rc)"
    "read_object space (add_address_offset v (sl_fp_slot_offset sl)) (ab_pointer_size ?abi) = Some fp'"
    using assms(1) by (auto simp: fp_step_def Let_def not_le resolve_frame_slot_offsets_def split: if_splits option.splits)
  show "fp \<le> fp'" using assms(5) s(1,2,4) by (auto simp: frame_follows_def)
  note honest = write_raw_honest [OF assms(3)]
  note honest' = write_raw_honest [OF honest(1)]
  show "registers_honest rc'" using honest'(1) s(3) by simp
  have "thumb_state rc' = thumb_state rc" using regs by (simp add: thumb_state_def s(3) honest'(2,3) honest(2,3))
  then have r: "resolve_fp_register sl rc' = ?r" by (simp add: resolve_fp_register_def)
  have "read_raw ?abi rc' ?r = Some fp' \<or> read_raw ?abi rc' ?r = Some v"
    using regs s(1) by (simp add: s(3) honest'(2,3) honest(2,3) register_value_read [OF assms(4) s(4)])
  then show "frame_follows sl space rc' fp'" using s(4) unfolding frame_follows_def r by auto
qed

lemma collect_sorted:
  assumes "it_unwinder it = Some (fp_step sl space)" and "sl \<in> set known_slots" and "fills_buffer space"
    and "registers_honest (it_reg_ctx it)" and "frame_follows sl space (it_reg_ctx it) (sf_fp (it_frame it))"
  shows "\<exists>it' new. for_each_frame collect_frame n it fs = Some (it', fs @ new)
           \<and> sorted (map sf_fp new) \<and> (\<forall>f \<in> set new. sf_fp (it_frame it) \<le> sf_fp f)"
  using assms(1,4,5)
proof (induction "unat n - unat (sf_frame_index (it_frame it))" arbitrary: it fs rule: less_induct)
  case less
  let ?i = "sf_frame_index (it_frame it)"
  have ret: "unwinder_returns (it_unwinder it)" using less.prems(1) fp_unwinder_returns by simp
  show ?case
  proof (cases "it_is_valid it \<and> ?i < n")
    case False
    then show ?thesis using collect_invalid [of it n fs] collect_deep [of it n fs] by force
  next
    case True
    then have valid: "it_is_valid it" by simp
    show ?thesis
      using ret valid
    proof (cases rule: iterator_next_cases)
      case (stop it')
      then show ?thesis
        using True collect_round [of it n False it' fs] collect_invalid [of it' n "fs @ [it_frame it]"]
        by (intro exI [of _ it'] exI [of _ "[it_frame it]"]) simp
    next
      case (move fp pc rc)
      let ?it = "it\<lparr>it_reg_ctx := rc, it_frame := \<lparr>sf_frame_index = ?i + 1, sf_fp = fp, sf_pc = pc\<rparr>\<rparr>"
      have "fp_step sl space (it_reg_ctx it) (sf_pc (it_frame it)) = Some (Some (fp, pc), rc)"
        using move(1) less.prems(1) by (simp add: unwinder_step_def)
      note up = fp_step_follows [OF this assms(2) less.prems(2) assms(3) less.prems(3)]
      have "unat n - unat (sf_frame_index (it_frame ?it)) < unat n - unat ?i"
        using True index_moves [of ?i n] by (intro diff_less_mono2) (simp_all add: word_less_nat_alt)
      from less.hyps [OF this, of "fs @ [it_frame it]"] obtain it' new where
        f: "for_each_frame collect_frame n ?it (fs @ [it_frame it]) = Some (it', (fs @ [it_frame it]) @ new)"
          "sorted (map sf_fp new)" "\<forall>f \<in> set new. fp \<le> sf_fp f"
        using less.prems(1) up(2,3) by auto
      have "for_each_frame collect_frame n it fs = Some (it', fs @ it_frame it # new)"
        using f(1) True collect_round [of it n True ?it fs] move(2) by simp
      then show ?thesis
        using f(2,3) up(1) by (intro exI [of _ it'] exI [of _ "it_frame it # new"]) force
    qed
  qed
qed

section \<open>Tiers in order\<close>

definition tier_succeeds :: "'c register_context \<Rightarrow> u64 \<Rightarrow> 'c unwinder option \<Rightarrow> bool" where
  "tier_succeeds rc pc u \<longleftrightarrow> (case unwinder_step u rc pc of Some (Some frame, rc') \<Rightarrow> True | _ \<Rightarrow> False)"

definition clean_failure :: "'c unwinder option \<Rightarrow> bool" where
  "clean_failure u \<longleftrightarrow> (\<forall>rc pc rc'. unwinder_step u rc pc = Some (None, rc') \<longrightarrow> rc' = rc)"

lemma clean_fp: "clean_failure (Some (fp_step sl space))"
  by (auto simp: clean_failure_def unwinder_step_def fp_step_def Let_def split: if_splits option.splits prod.splits)

lemma clean_dwarf: "clean_failure (Some (dwarf_unwinder abi max_depth space enumerator has_storage))"
  by (auto simp: clean_failure_def unwinder_step_def dwarf_unwinder_def split: option.splits prod.splits)

lemma clean_none: "clean_failure None"
  by (simp add: clean_failure_def unwinder_step_def)

lemma tier_result: "tier_succeeds rc pc u \<Longrightarrow> \<exists>frame rc'. unwinder_step u rc pc = Some (Some frame, rc')"
  by (auto simp: tier_succeeds_def split: option.splits prod.splits)

lemma try_tiers_first:
  assumes "list_all clean_failure us" and "list_all unwinder_returns us"
  shows "try_tiers us rc pc = (case find (tier_succeeds rc pc) us of Some u \<Rightarrow> unwinder_step u rc pc | None \<Rightarrow> Some (None, rc))"
  using assms
proof (induction us)
  case (Cons u us)
  show ?case
  proof (cases "tier_succeeds rc pc u")
    case True
    then show ?thesis using tier_result [OF True] by auto
  next
    case False
    have "unwinder_returns u" using Cons.prems(2) by simp
    then obtain r rc' where s: "unwinder_step u rc pc = Some (r, rc')" unfolding unwinder_returns_def by (metis surj_pair)
    then have "r = None" "rc' = rc" using False Cons.prems(1) by (auto simp: tier_succeeds_def clean_failure_def split: option.splits)
    then show ?thesis using Cons False s by simp
  qed
qed simp

section \<open>Traps\<close>

text \<open>The cursor of \<^verbatim>\<open>hybrid_unwinder.hpp\<close>. The matcher tells at which address a trap frame lies, the decoder reads it;
  a decoder that fails has written nothing.\<close>

record trap_context =
  tr_trap_level :: u32
  tr_trap_frame_addr :: u64
  tr_pc :: u64
  tr_sp :: u64
  tr_fp :: u64
  tr_lr :: u64
  tr_vector_or_reason :: u64
  tr_is_user_mode :: bool

definition trap_context_init :: trap_context where
  "trap_context_init = \<lparr>tr_trap_level = 0, tr_trap_frame_addr = 0, tr_pc = 0, tr_sp = 0, tr_fp = 0, tr_lr = 0,
     tr_vector_or_reason = 0, tr_is_user_mode = False\<rparr>"

datatype frame_kind = Standard | Trap_transition

record hybrid_frame =
  hf_frame_index :: u32
  hf_fp :: u64
  hf_pc :: u64
  hf_kind :: frame_kind
  hf_trap :: trap_context

record 'c hybrid_stack_unwinder =
  hu_fp_unwinder :: "'c unwinder option"
  hu_trap_decoder :: "(u64 \<Rightarrow> trap_context option) option"
  hu_matcher :: "(u64 \<Rightarrow> u64 \<Rightarrow> u64 option) option"
  hu_reg_ctx :: "'c register_context"
  hu_current :: hybrid_frame
  hu_is_valid :: bool

definition hybrid_init ::
    "'c unwinder option \<Rightarrow> (u64 \<Rightarrow> trap_context option) option \<Rightarrow> (u64 \<Rightarrow> u64 \<Rightarrow> u64 option) option \<Rightarrow> 'c register_context
     \<Rightarrow> u64 \<Rightarrow> u64 \<Rightarrow> 'c hybrid_stack_unwinder" where
  "hybrid_init u decoder matcher rc initial_fp initial_pc =
     \<lparr>hu_fp_unwinder = u, hu_trap_decoder = decoder, hu_matcher = matcher, hu_reg_ctx = rc,
      hu_current = \<lparr>hf_frame_index = 0, hf_fp = initial_fp, hf_pc = initial_pc, hf_kind = Standard, hf_trap = trap_context_init\<rparr>,
      hu_is_valid = (initial_fp \<noteq> 0 \<or> initial_pc \<noteq> 0)\<rparr>"

definition match_trap_frame :: "'c hybrid_stack_unwinder \<Rightarrow> u64 option" where
  "match_trap_frame hu =
     (case hu_matcher hu of None \<Rightarrow> None | Some m \<Rightarrow> m (hf_fp (hu_current hu)) (hf_pc (hu_current hu)))"

definition decode_trap_frame :: "'c hybrid_stack_unwinder \<Rightarrow> u64 \<Rightarrow> trap_context option" where
  "decode_trap_frame hu addr = (case hu_trap_decoder hu of None \<Rightarrow> None | Some d \<Rightarrow> d addr)"

definition hybrid_next :: "'c hybrid_stack_unwinder \<Rightarrow> (bool \<times> 'c hybrid_stack_unwinder) option" where
  "hybrid_next hu =
     (if \<not> hu_is_valid hu then Some (False, hu)
      else let cur = hu_current hu; index' = hf_frame_index cur + 1
           in (case Option.bind (match_trap_frame hu) (decode_trap_frame hu) of
                Some trap \<Rightarrow>
                  Some (True, hu\<lparr>hu_current := \<lparr>hf_frame_index = index', hf_fp = tr_fp trap, hf_pc = tr_pc trap,
                                               hf_kind = Trap_transition, hf_trap = trap\<rparr>\<rparr>)
              | None \<Rightarrow>
                  let cur' = (if match_trap_frame hu = None then cur else cur\<lparr>hf_trap := trap_context_init\<rparr>)
                  in (case unwinder_step (hu_fp_unwinder hu) (hu_reg_ctx hu) (hf_pc cur) of
                       None \<Rightarrow> None
                     | Some (None, rc) \<Rightarrow> Some (False, hu\<lparr>hu_reg_ctx := rc, hu_current := cur', hu_is_valid := False\<rparr>)
                     | Some (Some (fp, pc), rc) \<Rightarrow>
                         Some (True, hu\<lparr>hu_reg_ctx := rc,
                                        hu_current := cur'\<lparr>hf_frame_index := index', hf_fp := fp, hf_pc := pc, hf_kind := Standard\<rparr>\<rparr>))))"

section \<open>Properties\<close>

text \<open>C34: A backtrace is bounded, whatever unwinder is behind the cursor: the loop over the frames returns when the unwinder
  does, the frames are numbered from zero without a gap, and there are at most \<open>max_depth\<close> of them, also when
  the stack is corrupt or circular.\<close>

theorem backtrace_bounded:
  assumes "unwinder_returns u"
  shows "\<exists>it frames. for_each_frame collect_frame max_depth (iterator_init u rc initial_fp initial_pc) [] = Some (it, frames)
           \<and> map (\<lambda>f. unat (sf_frame_index f)) frames = [0..<length frames] \<and> length frames \<le> unat max_depth"
  using collect_frames [of "iterator_init u rc initial_fp initial_pc" max_depth "[]"] assms
  by (auto simp: iterator_init_def)

theorem backtrace_bounded_witness:
  "\<exists>it frames. for_each_frame collect_frame 3 (iterator_init (Some (\<lambda>rc pc. Some (Some (0x10, pc), rc))) example_registers 0x10 0x90) []
       = Some (it, frames) \<and> map (\<lambda>f. unat (sf_frame_index f)) frames = [0..<length frames] \<and> length frames \<le> unat (3 :: u32)"
  by (rule backtrace_bounded) (simp add: unwinder_returns_def unwinder_step_def)

text \<open>C33: Walking frame pointers never goes down the stack, with the frame layout of any supported processor and whatever
  the memory holds: the frame pointers of a backtrace ascend. If the registers keep what is written to them, every frame
  lies strictly above the frame before it, so that a circular chain is cut; registers may also refuse writes,
  as read-only contexts do, and then a frame may repeat.\<close>

theorem fp_backtrace_ascending:
  assumes "sl \<in> set known_slots" and "fills_buffer space" and "registers_honest rc"
    and "read_raw (sl_abi sl) rc (resolve_fp_register sl rc) = Some initial_fp"
  shows "\<exists>it frames. for_each_frame collect_frame max_depth (iterator_init (Some (fp_step sl space)) rc initial_fp initial_pc) []
             = Some (it, frames) \<and> sorted (map sf_fp frames) \<and> (registers_keep rc \<longrightarrow> sorted_wrt (<) (map sf_fp frames))"
proof -
  let ?it = "iterator_init (Some (fp_step sl space)) rc initial_fp initial_pc"
  obtain it frames where f: "for_each_frame collect_frame max_depth ?it [] = Some (it, frames)" "sorted (map sf_fp frames)"
    using collect_sorted [of ?it sl space max_depth "[]"] assms by (auto simp: iterator_init_def frame_follows_def)
  moreover have "sorted_wrt (<) (map sf_fp frames)" if "registers_keep rc"
    using collect_ascending [of ?it sl space max_depth "[]"] assms that f(1) by (auto simp: iterator_init_def)
  ultimately show ?thesis by blast
qed

theorem fp_backtrace_ascending_witness:
  "\<exists>it frames. for_each_frame collect_frame 8 (iterator_init (Some (fp_step x86_64_slots example_memory)) example_registers 0x32 0x90) []
     = Some (it, frames) \<and> sorted_wrt (<) (map sf_fp frames)"
proof -
  have keep: "registers_keep example_registers" by (simp add: registers_keep_def example_registers_def)
  have "\<exists>it frames. for_each_frame collect_frame 8 (iterator_init (Some (fp_step x86_64_slots example_memory)) example_registers 0x32 0x90) []
      = Some (it, frames) \<and> sorted (map sf_fp frames) \<and> (registers_keep example_registers \<longrightarrow> sorted_wrt (<) (map sf_fp frames))"
  proof (rule fp_backtrace_ascending)
    show "x86_64_slots \<in> set known_slots" by (simp add: known_slots_def)
    show "fills_buffer example_memory" unfolding example_memory_def by (rule flat_memory_fills)
    show "registers_honest example_registers" by (rule registers_keep_honest [OF keep])
    show "read_raw (sl_abi x86_64_slots) example_registers (resolve_fp_register x86_64_slots example_registers) = Some 0x32"
      by (simp add: read_raw_def example_registers_def register_value_def resolve_fp_register_def x86_64_slots_def x86_64_abi_traits_def)
  qed
  then show ?thesis using keep by blast
qed

text \<open>The chained unwinder answers with its first tier that succeeds: a tier is asked only when all tiers before it failed,
  the hints come last, and when everything fails so does the step. It holds for tiers that leave the registers alone
  when they fail, as the DWARF decoder and the frame pointer walker do.\<close>

theorem chained_step_first:
  assumes "rc_valid rc" and "list_all clean_failure [exidx, dwarf, fp]" and "list_all unwinder_returns [exidx, dwarf, fp]"
  shows "chained_step sl space exidx dwarf fp hints rc pc
           = (case find (tier_succeeds rc pc) [exidx, dwarf, fp] of
                Some u \<Rightarrow> unwinder_step u rc pc
              | None \<Rightarrow> hint_step sl space hints rc pc)"
  unfolding chained_step_def try_tiers_first [OF assms(2,3)]
  using assms(1) tier_result by (auto simp: find_Some_iff tier_succeeds_def split: option.splits prod.splits)

theorem chained_step_first_witness:
  "chained_step x86_64_slots example_memory None (Some (dwarf_unwinder x86_64_abi_traits 8 example_memory None True))
     (Some (fp_step x86_64_slots example_memory)) None example_registers 0x90
   = (case find (tier_succeeds example_registers 0x90)
         [None, Some (dwarf_unwinder x86_64_abi_traits 8 example_memory None True), Some (fp_step x86_64_slots example_memory)] of
        Some u \<Rightarrow> unwinder_step u example_registers 0x90
      | None \<Rightarrow> hint_step x86_64_slots example_memory None example_registers 0x90)"
proof (rule chained_step_first)
  show "rc_valid example_registers" by (simp add: example_registers_def)
  show "list_all clean_failure [None, Some (dwarf_unwinder x86_64_abi_traits 8 example_memory None True), Some (fp_step x86_64_slots example_memory)]"
    by (simp add: clean_none clean_dwarf clean_fp)
  have "unwinder_returns (Some (dwarf_unwinder x86_64_abi_traits 8 example_memory None True))"
    by (simp add: unwinder_returns_def unwinder_step_def dwarf_unwinder_def dwarf_step_def)
  then show "list_all unwinder_returns [None, Some (dwarf_unwinder x86_64_abi_traits 8 example_memory None True), Some (fp_step x86_64_slots example_memory)]"
    by (simp add: fp_unwinder_returns) (simp add: unwinder_returns_def unwinder_step_def)
qed

text \<open>After a trap the registers are still those of the handler: the frame behind the interrupted one is the caller of the
  handler, not of the interrupted function.\<close>

theorem trap_registers_stale:
  assumes "hu_is_valid hu" and "match_trap_frame hu = Some addr" and "decode_trap_frame hu addr = Some trap"
    and "hybrid_next hu = Some (True, hu1)" and "match_trap_frame hu1 = None"
    and "hu_fp_unwinder hu = Some (fp_step sl space)"
    and "fp_step sl space (hu_reg_ctx hu) pc = Some (Some (handler_fp, handler_pc), rc)"
  shows "\<exists>hu2. hybrid_next hu1 = Some (True, hu2) \<and> hf_fp (hu_current hu1) = tr_fp trap
           \<and> hf_fp (hu_current hu2) = handler_fp \<and> hf_pc (hu_current hu2) = handler_pc"
proof -
  have "fp_step sl space (hu_reg_ctx hu) (hf_pc (hu_current hu1)) = fp_step sl space (hu_reg_ctx hu) pc"
    by (simp add: fp_step_def)
  then show ?thesis
    using assms by (auto simp: hybrid_next_def Let_def unwinder_step_def)
qed

end
