(* ===== verification/Arm_Exidx.thy ===== *)
theory Arm_Exidx
  imports Unwind
begin

text \<open>
  The unwinder of 32-bit ARM: the search of the index table (\<^verbatim>\<open>inspector/arm_exidx_search.hpp\<close>), the byte stream and the
  executor of exception tables (\<^verbatim>\<open>arm_extab_stream.hpp\<close>), the executor of inline words (\<^verbatim>\<open>arm_exidx_decoder.hpp\<close>) and the step
  (\<^verbatim>\<open>arm_exidx_unwinder.hpp\<close>). The executors change registers one by one, so a failure returns the registers as they
  are then.
\<close>

section \<open>Index table\<close>

definition decode_prel31 :: "u64 \<Rightarrow> u32 \<Rightarrow> u64" where
  "decode_prel31 entry_addr prel31 =
     (let signed_offset = signed_drop_bit 1 (push_bit 1 prel31) :: u32
      in add_address_offset entry_addr (scast signed_offset))"

definition exidx_entry_addr :: "u64 \<Rightarrow> nat \<Rightarrow> u64" where
  "exidx_entry_addr table_base i = table_base + of_nat i * 8"

text \<open>The highest entry whose function starts at or before the program counter. A read that fails gives up.\<close>

function find_exidx_loop :: "address_space_ref \<Rightarrow> u64 \<Rightarrow> u64 \<Rightarrow> nat \<Rightarrow> nat \<Rightarrow> nat \<Rightarrow> nat option" where
  "find_exidx_loop space table_base target_pc low high match_index =
     (if low < high
      then (let mid = low + (high - low) div 2; entry_addr = exidx_entry_addr table_base mid
            in (case read_object space entry_addr 4 of
                  None \<Rightarrow> None
                | Some prel31 \<Rightarrow>
                    if decode_prel31 entry_addr (ucast prel31) \<le> target_pc
                    then find_exidx_loop space table_base target_pc (mid + 1) high mid
                    else find_exidx_loop space table_base target_pc low mid match_index))
      else Some match_index)"
  by pat_completeness auto
termination by (relation "measure (\<lambda>(space, base, pc, low, high, m). high - low)") auto

declare find_exidx_loop.simps [simp del]

definition find_exidx_entry :: "address_space_ref \<Rightarrow> u64 \<Rightarrow> nat \<Rightarrow> u64 \<Rightarrow> u64 option" where
  "find_exidx_entry space table_base num_entries target_pc =
     (if num_entries = 0 \<or> table_base = 0 then None
      else (case find_exidx_loop space table_base target_pc 0 num_entries num_entries of
             None \<Rightarrow> None
           | Some match_index \<Rightarrow>
               if match_index = num_entries then None
               else (case read_object space (exidx_entry_addr table_base match_index + 4) 4 of
                      None \<Rightarrow> None
                    | Some unwind_data \<Rightarrow> if unwind_data = 1 then None else Some unwind_data)))"

text \<open>The same loop in the step of the unwinder, which goes on with the candidate it has when a read fails.\<close>

function exidx_step_loop :: "address_space_ref \<Rightarrow> u64 \<Rightarrow> u64 \<Rightarrow> nat \<Rightarrow> nat \<Rightarrow> nat \<Rightarrow> nat" where
  "exidx_step_loop space exidx_start fault_pc low high match_index =
     (if low < high
      then (let mid = low + (high - low) div 2; entry_addr = exidx_entry_addr exidx_start mid
            in (case read_object space entry_addr 4 of
                  None \<Rightarrow> match_index
                | Some prel31 \<Rightarrow>
                    if decode_prel31 entry_addr (ucast prel31) \<le> fault_pc
                    then exidx_step_loop space exidx_start fault_pc (mid + 1) high mid
                    else exidx_step_loop space exidx_start fault_pc low mid match_index))
      else match_index)"
  by pat_completeness auto
termination by (relation "measure (\<lambda>(space, base, pc, low, high, m). high - low)") auto

declare exidx_step_loop.simps [simp del]

section \<open>Register pops\<close>

definition write_register :: "u32 \<Rightarrow> u64 \<Rightarrow> 'c register_context \<Rightarrow> 'c register_context option" where
  "write_register reg v rc = map_option (\<lambda>s. rc\<lparr>rc_state := s\<rparr>) (rc_write rc (rc_state rc) reg v)"

type_synonym 'c exidx_result = "bool \<times> u64 \<times> 'c register_context"

text \<open>The registers of a mask: the stack pointer stays where a word cannot be read.\<close>

fun pop_masked :: "address_space_ref \<Rightarrow> u16 \<Rightarrow> nat list \<Rightarrow> u64 \<Rightarrow> 'c register_context \<Rightarrow> 'c exidx_result" where
  "pop_masked space reg_mask [] sp rc = (True, sp, rc)"
| "pop_masked space reg_mask (i # is) sp rc =
     (if reg_mask AND push_bit i 1 \<noteq> 0
      then (case read_object space sp 4 of
              None \<Rightarrow> pop_masked space reg_mask is sp rc
            | Some val \<Rightarrow>
                (case write_register (4 + of_nat i) val rc of
                   None \<Rightarrow> (False, sp, rc)
                 | Some rc' \<Rightarrow> pop_masked space reg_mask is (sp + 4) rc'))
      else pop_masked space reg_mask is sp rc)"

text \<open>A run of registers from a number on: a word that cannot be read is skipped.\<close>

fun pop_run :: "address_space_ref \<Rightarrow> nat \<Rightarrow> u32 list \<Rightarrow> u64 \<Rightarrow> 'c register_context \<Rightarrow> 'c exidx_result" where
  "pop_run space width [] sp rc = (True, sp, rc)"
| "pop_run space width (reg # regs) sp rc =
     (case read_object space sp width of
        None \<Rightarrow> pop_run space width regs (sp + of_nat width) rc
      | Some val \<Rightarrow>
          (case write_register reg val rc of
             None \<Rightarrow> (False, sp, rc)
           | Some rc' \<Rightarrow> pop_run space width regs (sp + of_nat width) rc'))"

definition core_registers :: "u8 \<Rightarrow> u32 list" where
  "core_registers opcode = map (\<lambda>i. 4 + of_nat i) [0..<unat (opcode AND 0x07) + 1] @ (if opcode AND 0x08 \<noteq> 0 then [14] else [])"

definition vfp_registers :: "u8 \<Rightarrow> u32 list" where
  "vfp_registers opcode = map (\<lambda>i. 64 + 8 + of_nat i) [0..<unat (opcode AND 0x07) + 1]"

definition vsp_offset :: "u8 \<Rightarrow> u64" where
  "vsp_offset opcode = push_bit 2 (ucast (opcode AND 0x3F)) + 4"

definition pop_mask :: "u8 \<Rightarrow> u8 \<Rightarrow> u16" where
  "pop_mask opcode low = push_bit 8 (ucast (opcode AND 0x0F)) OR ucast low"

definition vsp_from_register :: "u8 \<Rightarrow> 'c register_context \<Rightarrow> u64 option" where
  "vsp_from_register opcode rc = read_raw arm_abi_traits rc (ucast (opcode AND 0x0F))"

section \<open>Inline words\<close>

fun parse_and_apply_bytes :: "address_space_ref \<Rightarrow> u8 list \<Rightarrow> u64 \<Rightarrow> 'c register_context \<Rightarrow> 'c exidx_result" where
  "parse_and_apply_bytes space [] sp rc = (True, sp, rc)"
| "parse_and_apply_bytes space (opcode # bs) sp rc =
     (if opcode = 0x00 then parse_and_apply_bytes space bs sp rc
      else if opcode = 0xB0 then (True, sp, rc)
      else if opcode AND 0xC0 = 0x00 then parse_and_apply_bytes space bs (sp + vsp_offset opcode) rc
      else if opcode AND 0xC0 = 0x40 then parse_and_apply_bytes space bs (sp - vsp_offset opcode) rc
      else if opcode AND 0xF0 = 0x80
      then (case bs of
              [] \<Rightarrow> (True, sp, rc)
            | low # bs' \<Rightarrow>
                (case pop_masked space (pop_mask opcode low) [0..<12] sp rc of
                   (False, sp', rc') \<Rightarrow> (False, sp', rc')
                 | (True, sp', rc') \<Rightarrow> parse_and_apply_bytes space bs' sp' rc'))
      else if opcode AND 0xF0 = 0x90 \<and> opcode \<noteq> 0x9D \<and> opcode \<noteq> 0x9F
      then (case vsp_from_register opcode rc of
              None \<Rightarrow> (False, sp, rc)
            | Some v \<Rightarrow> parse_and_apply_bytes space bs v rc)
      else if opcode AND 0xF0 = 0xA0
      then (case pop_run space 4 (core_registers opcode) sp rc of
              (False, sp', rc') \<Rightarrow> (False, sp', rc')
            | (True, sp', rc') \<Rightarrow> parse_and_apply_bytes space bs sp' rc')
      else if opcode AND 0xF8 = 0xB8
      then (case pop_run space 8 (vfp_registers opcode) sp rc of
              (False, sp', rc') \<Rightarrow> (False, sp', rc')
            | (True, sp', rc') \<Rightarrow> parse_and_apply_bytes space bs sp' rc')
      else parse_and_apply_bytes space bs sp rc)"

text \<open>The bytes of a word, most significant first.\<close>

definition word_byte :: "u32 \<Rightarrow> nat \<Rightarrow> u8" where
  "word_byte w k = ucast (drop_bit k w AND 0xFF)"

definition execute_bytecode :: "address_space_ref \<Rightarrow> u32 \<Rightarrow> u64 \<Rightarrow> 'c register_context \<Rightarrow> 'c exidx_result" where
  "execute_bytecode space unwind_word sp rc =
     (let personality = drop_bit 24 unwind_word AND 0x0F
      in if personality = 0 \<or> personality = 1
         then parse_and_apply_bytes space [word_byte unwind_word 16, word_byte unwind_word 8, word_byte unwind_word 0] sp rc
         else (False, sp, rc))"

section \<open>Exception tables\<close>

record extab_byte_stream =
  xs_space :: address_space_ref
  xs_current_word_addr :: u64
  xs_buffer :: "u8 list"
  xs_buffer_idx :: nat
  xs_bytes_remaining :: nat
  xs_is_first_word :: bool
  xs_failed :: bool
  xs_words_remaining :: nat

definition extab_stream_init :: "address_space_ref \<Rightarrow> u64 \<Rightarrow> extab_byte_stream" where
  "extab_stream_init space extab_addr =
     \<lparr>xs_space = space, xs_current_word_addr = extab_addr, xs_buffer = [0, 0, 0, 0], xs_buffer_idx = 0, xs_bytes_remaining = 0,
      xs_is_first_word = True, xs_failed = False, xs_words_remaining = 1\<rparr>"

text \<open>Loading the next word: the first one tells how many follow.\<close>

definition load_word :: "u32 \<Rightarrow> extab_byte_stream \<Rightarrow> bool \<times> extab_byte_stream" where
  "load_word w xs =
     (let xs1 = xs\<lparr>xs_current_word_addr := xs_current_word_addr xs + 4, xs_words_remaining := xs_words_remaining xs - 1\<rparr>
      in if xs_is_first_word xs
         then (let xs2 = xs1\<lparr>xs_is_first_word := False\<rparr>
               in if w AND 0x80000000 = 0 then (False, xs2\<lparr>xs_failed := True\<rparr>)
                  else if drop_bit 24 w AND 0x7F = 0
                  then (True, xs2\<lparr>xs_buffer_idx := 0, xs_bytes_remaining := 3,
                         xs_buffer := [word_byte w 16, word_byte w 8, word_byte w 0] @ drop 3 (xs_buffer xs)\<rparr>)
                  else (True, xs2\<lparr>xs_buffer_idx := 0, xs_bytes_remaining := 2, xs_words_remaining := unat (word_byte w 16),
                         xs_buffer := [word_byte w 8, word_byte w 0] @ drop 2 (xs_buffer xs)\<rparr>))
         else (True, xs1\<lparr>xs_buffer_idx := 0, xs_bytes_remaining := 4,
                xs_buffer := [word_byte w 24, word_byte w 16, word_byte w 8, word_byte w 0]\<rparr>))"

definition next_byte :: "extab_byte_stream \<Rightarrow> u8 option \<times> extab_byte_stream" where
  "next_byte xs =
     (if xs_failed xs then (None, xs)
      else let (ok, xs') =
             (if xs_bytes_remaining xs = 0
              then if xs_words_remaining xs = 0 then (False, xs)
                   else (case read_object (xs_space xs) (xs_current_word_addr xs) 4 of
                          None \<Rightarrow> (False, xs)
                        | Some w \<Rightarrow> load_word (ucast w) xs)
              else (True, xs))
           in if ok \<and> xs_bytes_remaining xs' > 0
              then (Some (xs_buffer xs' ! xs_buffer_idx xs'),
                    xs'\<lparr>xs_buffer_idx := xs_buffer_idx xs' + 1, xs_bytes_remaining := xs_bytes_remaining xs' - 1\<rparr>)
              else (None, xs'))"

definition stream_measure :: "extab_byte_stream \<Rightarrow> nat" where
  "stream_measure xs = (if xs_is_first_word xs then 2000 else 0) + 4 * xs_words_remaining xs + xs_bytes_remaining xs"

lemma load_word_measure:
  assumes "load_word w xs = (ok, xs')" and "xs_words_remaining xs \<noteq> 0" and "xs_bytes_remaining xs = 0"
  shows "stream_measure xs' \<le> stream_measure xs"
proof -
  have "unat (word_byte w 16) < 256" using unsigned_less [of "word_byte w 16", where 'a = nat] by simp
  then show ?thesis
    using assms by (auto simp: load_word_def stream_measure_def Let_def split: if_splits)
qed

lemma next_byte_measure:
  assumes "next_byte xs = (Some b, xs')"
  shows "stream_measure xs' < stream_measure xs"
proof -
  have "\<exists>xs1. xs' = xs1\<lparr>xs_buffer_idx := xs_buffer_idx xs1 + 1, xs_bytes_remaining := xs_bytes_remaining xs1 - 1\<rparr>
          \<and> xs_bytes_remaining xs1 > 0 \<and> stream_measure xs1 \<le> stream_measure xs"
    using assms load_word_measure [of _ xs]
    by (auto simp: next_byte_def Let_def split: if_splits option.splits prod.splits)
  then show ?thesis by (force simp: stream_measure_def)
qed

function extab_run :: "address_space_ref \<Rightarrow> extab_byte_stream \<Rightarrow> u64 \<Rightarrow> 'c register_context \<Rightarrow> 'c exidx_result" where
  "extab_run space xs sp rc =
     (case next_byte xs of
        (None, xs1) \<Rightarrow> (\<not> xs_failed xs1, sp, rc)
      | (Some opcode, xs1) \<Rightarrow>
          if opcode = 0xB0 then (True, sp, rc)
          else if opcode AND 0xC0 = 0x00 then extab_run space xs1 (sp + vsp_offset opcode) rc
          else if opcode AND 0xC0 = 0x40 then extab_run space xs1 (sp - vsp_offset opcode) rc
          else if opcode AND 0xF0 = 0x80
          then (case next_byte xs1 of
                  (None, xs2) \<Rightarrow> (\<not> xs_failed xs2, sp, rc)
                | (Some low, xs2) \<Rightarrow>
                    (case pop_masked space (pop_mask opcode low) [0..<12] sp rc of
                       (False, sp', rc') \<Rightarrow> (False, sp', rc')
                     | (True, sp', rc') \<Rightarrow> extab_run space xs2 sp' rc'))
          else if opcode AND 0xF0 = 0x90 \<and> opcode \<noteq> 0x9D \<and> opcode \<noteq> 0x9F
          then (case vsp_from_register opcode rc of
                  None \<Rightarrow> (False, sp, rc)
                | Some v \<Rightarrow> extab_run space xs1 v rc)
          else if opcode AND 0xF0 = 0xA0
          then (case pop_run space 4 (core_registers opcode) sp rc of
                  (False, sp', rc') \<Rightarrow> (False, sp', rc')
                | (True, sp', rc') \<Rightarrow> extab_run space xs1 sp' rc')
          else if opcode AND 0xF8 = 0xB8
          then (case pop_run space 8 (vfp_registers opcode) sp rc of
                  (False, sp', rc') \<Rightarrow> (False, sp', rc')
                | (True, sp', rc') \<Rightarrow> extab_run space xs1 sp' rc')
          else extab_run space xs1 sp rc)"
  by pat_completeness auto
termination
  by (relation "measure (\<lambda>(space, xs, sp, rc). stream_measure xs)") (auto dest!: next_byte_measure [OF sym])

declare extab_run.simps [simp del]

definition extab_execute :: "address_space_ref \<Rightarrow> u64 \<Rightarrow> u64 \<Rightarrow> 'c register_context \<Rightarrow> 'c exidx_result" where
  "extab_execute space extab_addr sp rc = extab_run space (extab_stream_init space extab_addr) sp rc"

section \<open>One step\<close>

text \<open>What runs for the word of an entry.\<close>

definition exidx_apply :: "address_space_ref \<Rightarrow> u64 \<Rightarrow> u64 \<Rightarrow> u64 \<Rightarrow> 'c register_context \<Rightarrow> 'c exidx_result" where
  "exidx_apply space word2_address raw_unwind_data virtual_sp rc =
     (if raw_unwind_data AND 0x80000000 \<noteq> 0
      then execute_bytecode space (ucast raw_unwind_data) virtual_sp rc
      else extab_execute space (decode_prel31 word2_address (ucast raw_unwind_data)) virtual_sp rc)"

text \<open>The entry of a program counter in an image: not found, refused, or the address and the value of its word.\<close>

definition exidx_lookup :: "address_space_ref \<Rightarrow> elf_image_info option \<Rightarrow> u64 \<Rightarrow> (u64 \<times> u64) option" where
  "exidx_lookup space owner fault_pc =
     (case owner of
        None \<Rightarrow> None
      | Some img \<Rightarrow>
          if \<not> has_exidx img then None
          else let exidx_start = el_exidx_start img;
                   num_entries = unat ((el_exidx_end img - exidx_start) div 8);
                   match_index = exidx_step_loop space exidx_start fault_pc 0 num_entries num_entries
               in if match_index = num_entries then None
                  else let word2_address = exidx_entry_addr exidx_start match_index + 4
                       in (case read_object space word2_address 4 of
                            None \<Rightarrow> None
                          | Some raw \<Rightarrow> if raw = 1 then None else Some (word2_address, raw)))"

definition exidx_finish :: "frame_slots \<Rightarrow> u64 \<Rightarrow> 'c register_context \<Rightarrow> (u64 \<times> u64) option \<times> 'c register_context" where
  "exidx_finish sl virtual_sp rc =
     (let abi = sl_abi sl; updated_sp = register_value abi virtual_sp
      in (case write_register (ab_sp_reg abi) updated_sp rc of
            None \<Rightarrow> (None, rc)
          | Some rc' \<Rightarrow>
              (case read_raw abi rc' (ab_ra_reg abi) of
                 None \<Rightarrow> (None, rc')
               | Some updated_lr \<Rightarrow>
                   (Some ((case read_raw abi rc' (resolve_fp_register sl rc') of None \<Rightarrow> updated_sp | Some fp \<Rightarrow> fp),
                          ab_normalize_pc abi updated_lr), rc'))))"

definition exidx_step ::
    "frame_slots \<Rightarrow> address_space_ref \<Rightarrow> (u64 \<Rightarrow> elf_image_info option) option \<Rightarrow> bool \<Rightarrow> 'c unwinder" where
  "exidx_step sl space enumerator has_storage rc current_pc =
     (if \<not> rc_valid rc \<or> \<not> has_storage then Some (None, rc)
      else case enumerator of
        None \<Rightarrow> Some (None, rc)
      | Some finder \<Rightarrow>
          let abi = sl_abi sl; fault_pc = ab_normalize_pc abi current_pc
          in (case (read_raw abi rc (ab_sp_reg abi), read_raw abi rc (ab_ra_reg abi)) of
                (Some current_sp, Some return_lr) \<Rightarrow>
                  (case exidx_lookup space (finder fault_pc) fault_pc of
                     None \<Rightarrow> Some (None, rc)
                   | Some (word2_address, raw) \<Rightarrow>
                       (case exidx_apply space word2_address raw current_sp rc of
                          (False, virtual_sp, rc') \<Rightarrow> Some (None, rc')
                        | (True, virtual_sp, rc') \<Rightarrow> Some (exidx_finish sl virtual_sp rc')))
              | _ \<Rightarrow> Some (None, rc)))"

section \<open>Offsets of 31 bits\<close>

lemma prel31_value: "decode_prel31 addr w = addr + scast (ucast w :: 31 word)"
proof -
  define p where "p = push_bit 1 w"
  have p: "bit p k \<longleftrightarrow> 1 \<le> k \<and> k < 32 \<and> bit w (k - 1)" for k
    unfolding p_def by (simp only: bit_push_bit_iff possible_bit_word) simp
  have thirty: "\<not> 31 \<le> n \<Longrightarrow> 30 \<le> n \<Longrightarrow> n = 30" for n :: nat by simp
  have "scast (signed_drop_bit 1 p :: u32) = (scast (ucast w :: 31 word) :: u64)"
    by (rule bit_word_eqI) (auto simp: bit_simps p min_def split: if_splits dest: thirty)
  then show ?thesis by (simp only: decode_prel31_def add_address_offset_wraps Let_def p_def)
qed

section \<open>Search\<close>

lemma step_loop_found:
  "find_exidx_loop space base pc low high m = Some k \<Longrightarrow> exidx_step_loop space base pc low high m = k"
proof (induction space base pc low high m rule: find_exidx_loop.induct)
  case (1 space base pc low high m)
  then show ?case
    by (subst exidx_step_loop.simps, subst (asm) (3) find_exidx_loop.simps) (auto simp: Let_def split: if_splits option.splits)
qed

text \<open>The index that the binary search ends with, on functions in ascending order: the first \<open>k\<close> functions start at or
  before the program counter.\<close>

lemma find_exidx_loop_finds:
  assumes "\<And>i. i < n \<Longrightarrow> read_object space (exidx_entry_addr base i) 4 = Some (w i)"
    and "\<And>i. i < n \<Longrightarrow> decode_prel31 (exidx_entry_addr base i) (ucast (w i)) \<le> pc \<longleftrightarrow> i < k"
    and "low \<le> k" "k \<le> high" "high \<le> n" "m = (if low = 0 then n else low - 1)"
  shows "find_exidx_loop space base pc low high m = Some (if k = 0 then n else k - 1)"
  using assms(3-)
proof (induction "high - low" arbitrary: low high m rule: less_induct)
  case less
  show ?case
  proof (cases "low < high")
    case False
    then have "k = low" using less.prems by simp
    then show ?thesis using False less.prems(4) by (subst find_exidx_loop.simps) simp
  next
    case True
    define mid where "mid = low + (high - low) div 2"
    have mid: "low \<le> mid" "mid < high" using True by (auto simp: mid_def)
    note r = assms(1) [of mid] assms(2) [of mid]
    show ?thesis
    proof (cases "mid < k")
      case True
      then have "find_exidx_loop space base pc (mid + 1) high mid = Some (if k = 0 then n else k - 1)"
        using less.hyps [of high "mid + 1" mid] less.prems mid by simp
      then show ?thesis
        using True r mid \<open>low < high\<close> less.prems(3) by (subst find_exidx_loop.simps) (simp add: mid_def [symmetric] Let_def)
    next
      case False
      then have "find_exidx_loop space base pc low mid m = Some (if k = 0 then n else k - 1)"
        using less.hyps [of mid low m] less.prems mid by simp
      then show ?thesis
        using False r mid \<open>low < high\<close> less.prems(3) by (subst find_exidx_loop.simps) (simp add: mid_def [symmetric] Let_def)
    qed
  qed
qed

text \<open>A table in memory: offsets to the functions, each with its word.\<close>

definition exidx_bytes :: "u32 \<times> u32 \<Rightarrow> u8 list" where
  "exidx_bytes e = le_bytes 4 (unat (fst e)) @ le_bytes 4 (unat (snd e))"

definition entry_function :: "u64 \<Rightarrow> (u32 \<times> u32) list \<Rightarrow> nat \<Rightarrow> u64" where
  "entry_function base es i = decode_prel31 (exidx_entry_addr base i) (fst (es ! i))"

text \<open>The entry by a scan from the back.\<close>

definition exidx_reference :: "u64 \<Rightarrow> (u32 \<times> u32) list \<Rightarrow> u64 \<Rightarrow> u64 option" where
  "exidx_reference base es pc =
     (case rev (filter (\<lambda>i. entry_function base es i \<le> pc) [0..<length es]) of
        [] \<Rightarrow> None
      | i # _ \<Rightarrow> if snd (es ! i) = 1 then None else Some (ucast (snd (es ! i))))"

lemma read_le_word:
  fixes w :: u32
  assumes "holds space addr (le_bytes 4 (unat w) @ rest)"
  shows "read_object space addr 4 = Some (ucast w)" and "holds space (addr + 4) rest"
  using read_le_bytes [OF assms] unsigned_less [of w, where 'a = nat] by simp_all

lemma length_exidx_bytes: "length (concat (map exidx_bytes es)) = 8 * length es"
  by (induction es) (simp_all add: exidx_bytes_def)

lemma table_read:
  assumes "holds space base (concat (map exidx_bytes es))" and "i < length es"
  shows "read_object space (exidx_entry_addr base i) 4 = Some (ucast (fst (es ! i)))"
    and "read_object space (exidx_entry_addr base i + 4) 4 = Some (ucast (snd (es ! i)))"
proof -
  have "es = take i es @ es ! i # drop (Suc i) es" using assms(2) by (rule id_take_nth_drop)
  then have "concat (map exidx_bytes es)
      = concat (map exidx_bytes (take i es)) @ exidx_bytes (es ! i) @ concat (map exidx_bytes (drop (Suc i) es))"
    by (metis concat.simps(2) concat_append list.simps(9) map_append)
  then have "holds space (base + of_nat (length (concat (map exidx_bytes (take i es)))))
      (exidx_bytes (es ! i) @ concat (map exidx_bytes (drop (Suc i) es)))"
    using assms(1) holds_append by metis
  moreover have "of_nat (length (concat (map exidx_bytes (take i es)))) = (of_nat i * 8 :: u64)"
    using assms(2) unfolding length_exidx_bytes by (simp add: min_def mult.commute)
  ultimately have h: "holds space (exidx_entry_addr base i)
      (le_bytes 4 (unat (fst (es ! i))) @ le_bytes 4 (unat (snd (es ! i))) @ concat (map exidx_bytes (drop (Suc i) es)))"
    by (simp add: exidx_entry_addr_def exidx_bytes_def)
  show "read_object space (exidx_entry_addr base i) 4 = Some (ucast (fst (es ! i)))"
    and "read_object space (exidx_entry_addr base i + 4) 4 = Some (ucast (snd (es ! i)))"
    using read_le_word [OF h] read_le_word(1) by blast+
qed

lemma ascending_prefix:
  fixes f :: "nat \<Rightarrow> u64"
  assumes "sorted (map f [0..<n])"
  obtains k where "k \<le> n" "\<And>i. i < n \<Longrightarrow> f i \<le> pc \<longleftrightarrow> i < k"
proof -
  let ?k = "length (takeWhile (\<lambda>i. f i \<le> pc) [0..<n])"
  have k: "?k \<le> n" using length_takeWhile_le [of "\<lambda>i. f i \<le> pc" "[0..<n]"] by simp
  have "f i \<le> pc \<longleftrightarrow> i < ?k" if "i < n" for i
  proof
    assume "i < ?k"
    then show "f i \<le> pc" using set_takeWhileD [of "[0..<n] ! i" "\<lambda>i. f i \<le> pc" "[0..<n]"] takeWhile_nth [of i "\<lambda>i. f i \<le> pc" "[0..<n]"] that
      by (metis (no_types, lifting) add_0 nth_mem nth_upt)
  next
    assume le: "f i \<le> pc"
    show "i < ?k"
    proof (rule ccontr)
      assume "\<not> i < ?k"
      then have ki: "?k \<le> i" "?k < n" using that by simp_all
      then have "\<not> f ([0..<n] ! ?k) \<le> pc" using nth_length_takeWhile [of "\<lambda>i. f i \<le> pc" "[0..<n]"] by simp
      moreover have "f ?k \<le> f i" using assms ki that by (simp add: sorted_iff_nth_mono)
      ultimately show False using le ki by simp
    qed
  qed
  with k show ?thesis by (rule that)
qed

lemma find_exidx_entry_reference:
  assumes "holds space base (concat (map exidx_bytes es))" and "base \<noteq> 0"
    and "sorted (map (entry_function base es) [0..<length es])"
  shows "find_exidx_entry space base (length es) pc = exidx_reference base es pc"
proof (cases "es = []")
  case True
  then show ?thesis by (simp add: find_exidx_entry_def exidx_reference_def)
next
  case False
  let ?n = "length es"
  obtain k where k: "k \<le> ?n" "\<And>i. i < ?n \<Longrightarrow> entry_function base es i \<le> pc \<longleftrightarrow> i < k"
    using ascending_prefix [OF assms(3)] by metis
  have loop: "find_exidx_loop space base pc 0 ?n ?n = Some (if k = 0 then ?n else k - 1)"
    by (rule find_exidx_loop_finds [where w = "\<lambda>i. ucast (fst (es ! i))"])
       (use table_read(1) [OF assms(1)] k in \<open>auto simp: entry_function_def ucast_u32_back\<close>)
  have "[0..<?n] = [0..<k] @ [k..<?n]" using k(1) upt_add_eq_append [of 0 k "?n - k"] by simp
  then have "filter (\<lambda>i. i < k) [0..<?n] = [0..<k]" by (simp add: filter_id_conv)
  moreover have "filter (\<lambda>i. entry_function base es i \<le> pc) [0..<?n] = filter (\<lambda>i. i < k) [0..<?n]"
    using k(2) by (intro filter_cong) auto
  ultimately have f: "filter (\<lambda>i. entry_function base es i \<le> pc) [0..<?n] = [0..<k]" by simp
  show ?thesis
  proof (cases k)
    case 0
    then show ?thesis using False loop f by (simp add: find_exidx_entry_def exidx_reference_def)
  next
    case (Suc j)
    have "snd (es ! j) = 1 \<longleftrightarrow> (ucast (snd (es ! j)) :: u64) = 1"
      by (metis ucast_u32_back unsigned_1)
    then show ?thesis
      using False loop f k(1) assms(2) table_read(2) [OF assms(1), of j] Suc
      by (simp add: find_exidx_entry_def exidx_reference_def)
  qed
qed

section \<open>The byte stream\<close>

text \<open>The bytes of a table entry by the layout of the ABI, and the stream that delivers them one by one.\<close>

definition word_bytes :: "u32 \<Rightarrow> u8 list" where
  "word_bytes w = [word_byte w 24, word_byte w 16, word_byte w 8, word_byte w 0]"

fun extab_bytes :: "u32 list \<Rightarrow> u8 list" where
  "extab_bytes [] = []"
| "extab_bytes (w # ws) =
     (if drop_bit 24 w AND 0x7F = 0 then drop 1 (word_bytes w)
      else drop 2 (word_bytes w) @ concat (map word_bytes (take (unat (word_byte w 16)) ws)))"

fun delivers :: "extab_byte_stream \<Rightarrow> u8 list \<Rightarrow> bool" where
  "delivers xs [] \<longleftrightarrow> (case next_byte xs of (None, xs') \<Rightarrow> \<not> xs_failed xs' | _ \<Rightarrow> False)"
| "delivers xs (b # bs) \<longleftrightarrow> (case next_byte xs of (Some b', xs') \<Rightarrow> b' = b \<and> delivers xs' bs | _ \<Rightarrow> False)"

text \<open>A stream in the middle of its words: what is left of the buffer, and the words behind it.\<close>

definition stream_at :: "extab_byte_stream \<Rightarrow> u8 list \<Rightarrow> u32 list \<Rightarrow> bool" where
  "stream_at xs buf ws \<longleftrightarrow>
     \<not> xs_failed xs \<and> \<not> xs_is_first_word xs \<and> xs_words_remaining xs = length ws \<and> xs_bytes_remaining xs = length buf
     \<and> xs_buffer_idx xs + length buf \<le> length (xs_buffer xs)
     \<and> take (length buf) (drop (xs_buffer_idx xs) (xs_buffer xs)) = buf
     \<and> holds (xs_space xs) (xs_current_word_addr xs) (concat (map (\<lambda>w. le_bytes 4 (unat w)) ws))"

lemma next_byte_buffered:
  assumes "stream_at xs (b # buf) ws"
  shows "\<exists>xs'. next_byte xs = (Some b, xs') \<and> stream_at xs' buf ws"
proof -
  let ?xs = "xs\<lparr>xs_buffer_idx := xs_buffer_idx xs + 1, xs_bytes_remaining := xs_bytes_remaining xs - 1\<rparr>"
  have i: "xs_buffer_idx xs < length (xs_buffer xs)" using assms by (simp add: stream_at_def)
  then have "drop (xs_buffer_idx xs) (xs_buffer xs) = xs_buffer xs ! xs_buffer_idx xs # drop (Suc (xs_buffer_idx xs)) (xs_buffer xs)"
    by (simp add: Cons_nth_drop_Suc)
  then have b: "xs_buffer xs ! xs_buffer_idx xs = b" "take (length buf) (drop (Suc (xs_buffer_idx xs)) (xs_buffer xs)) = buf"
    using assms by (simp_all add: stream_at_def)
  then have "next_byte xs = (Some b, ?xs)" using assms by (simp add: next_byte_def stream_at_def)
  moreover have "stream_at ?xs buf ws" using assms b(2) by (simp add: stream_at_def)
  ultimately show ?thesis by blast
qed

lemma next_byte_word:
  assumes "stream_at xs [] (w # ws)"
  shows "\<exists>xs'. next_byte xs = (Some (word_byte w 24), xs') \<and> stream_at xs' [word_byte w 16, word_byte w 8, word_byte w 0] ws"
proof -
  have h: "holds (xs_space xs) (xs_current_word_addr xs) (le_bytes 4 (unat w) @ concat (map (\<lambda>w. le_bytes 4 (unat w)) ws))"
    using assms by (simp add: stream_at_def)
  note r = read_le_word [OF h]
  then show ?thesis using assms
    by (simp add: next_byte_def load_word_def stream_at_def Let_def ucast_u32_back)
qed

lemma stream_delivers: "stream_at xs buf ws \<Longrightarrow> delivers xs (buf @ concat (map word_bytes ws))"
proof (induction "length buf + 4 * length ws" arbitrary: xs buf ws rule: less_induct)
  case less
  show ?case
  proof (cases buf)
    case (Cons b buf')
    then obtain xs' where "next_byte xs = (Some b, xs')" "stream_at xs' buf' ws" using next_byte_buffered less.prems by blast
    then show ?thesis using less.hyps [of buf' ws xs'] Cons by simp
  next
    case Nil
    show ?thesis
    proof (cases ws)
      case Nil
      then show ?thesis using \<open>buf = []\<close> less.prems by (simp add: next_byte_def stream_at_def)
    next
      case (Cons w ws')
      then obtain xs' where "next_byte xs = (Some (word_byte w 24), xs')"
        "stream_at xs' [word_byte w 16, word_byte w 8, word_byte w 0] ws'" using next_byte_word less.prems \<open>buf = []\<close> by blast
      then show ?thesis
        using less.hyps [of "[word_byte w 16, word_byte w 8, word_byte w 0]" ws' xs'] Cons \<open>buf = []\<close> by (simp add: word_bytes_def)
    qed
  qed
qed

abbreviation memory_words :: "u32 list \<Rightarrow> u8 list" where
  "memory_words ws \<equiv> concat (map (\<lambda>w. le_bytes 4 (unat w)) ws)"

lemma stream_init_delivers:
  assumes h: "holds space addr (memory_words (w # ws))" and "w AND 0x80000000 \<noteq> 0"
    and n: "drop_bit 24 w AND 0x7F \<noteq> 0 \<Longrightarrow> unat (word_byte w 16) \<le> length ws"
  shows "delivers (extab_stream_init space addr) (extab_bytes (w # ws))"
proof -
  have h': "holds space addr (le_bytes 4 (unat w) @ memory_words ws)" using h by simp
  note r = read_le_word [OF h']
  show ?thesis
  proof (cases "drop_bit 24 w AND 0x7F = 0")
    case True
    have "\<exists>xs'. next_byte (extab_stream_init space addr) = (Some (word_byte w 16), xs') \<and> stream_at xs' [word_byte w 8, word_byte w 0] []"
      using assms(2) r(1) True
      by (simp add: next_byte_def load_word_def stream_at_def extab_stream_init_def Let_def ucast_u32_back holds_def)
    then show ?thesis using True stream_delivers by (auto simp: word_bytes_def dest!: stream_delivers)
  next
    case False
    let ?ws = "take (unat (word_byte w 16)) ws"
    have "memory_words ws = memory_words ?ws @ memory_words (drop (unat (word_byte w 16)) ws)"
      by (metis append_take_drop_id concat_append map_append)
    then have "holds space (addr + 4) (memory_words ?ws)" using r(2) holds_prefix by metis
    then have "\<exists>xs'. next_byte (extab_stream_init space addr) = (Some (word_byte w 8), xs') \<and> stream_at xs' [word_byte w 0] ?ws"
      using assms(2) r(1) False n
      by (simp add: next_byte_def load_word_def stream_at_def extab_stream_init_def Let_def ucast_u32_back min_def)
    then show ?thesis using False by (auto simp: word_bytes_def dest!: stream_delivers)
  qed
qed

section \<open>Reference executor\<close>

text \<open>The effect of a program of unwinding bytes, as the ABI has it for the opcodes that are handled.\<close>

fun run_opcodes :: "address_space_ref \<Rightarrow> u8 list \<Rightarrow> u64 \<Rightarrow> 'c register_context \<Rightarrow> 'c exidx_result" where
  "run_opcodes space [] sp rc = (True, sp, rc)"
| "run_opcodes space (opcode # bs) sp rc =
     (if opcode = 0xB0 then (True, sp, rc)
      else if opcode AND 0xC0 = 0x00 then run_opcodes space bs (sp + vsp_offset opcode) rc
      else if opcode AND 0xC0 = 0x40 then run_opcodes space bs (sp - vsp_offset opcode) rc
      else if opcode AND 0xF0 = 0x80
      then (case bs of
              [] \<Rightarrow> (True, sp, rc)
            | low # bs' \<Rightarrow>
                (case pop_masked space (pop_mask opcode low) [0..<12] sp rc of
                   (False, sp', rc') \<Rightarrow> (False, sp', rc')
                 | (True, sp', rc') \<Rightarrow> run_opcodes space bs' sp' rc'))
      else if opcode AND 0xF0 = 0x90 \<and> opcode \<noteq> 0x9D \<and> opcode \<noteq> 0x9F
      then (case vsp_from_register opcode rc of None \<Rightarrow> (False, sp, rc) | Some v \<Rightarrow> run_opcodes space bs v rc)
      else if opcode AND 0xF0 = 0xA0 \<or> opcode AND 0xF8 = 0xB8
      then (case (if opcode AND 0xF0 = 0xA0 then pop_run space 4 (core_registers opcode) sp rc
                  else pop_run space 8 (vfp_registers opcode) sp rc) of
              (False, sp', rc') \<Rightarrow> (False, sp', rc')
            | (True, sp', rc') \<Rightarrow> run_opcodes space bs sp' rc')
      else run_opcodes space bs sp rc)"

lemma extab_run_opcodes: "delivers xs bs \<Longrightarrow> extab_run space xs sp rc = run_opcodes space bs sp rc"
proof (induction space bs sp rc arbitrary: xs rule: run_opcodes.induct)
  case (1 space sp rc)
  then show ?case by (subst extab_run.simps) (auto split: prod.splits option.splits)
next
  case (2 space opcode bs sp rc)
  obtain xs1 where n: "next_byte xs = (Some opcode, xs1)" "delivers xs1 bs"
    using "2.prems" by (auto split: prod.splits option.splits)
  show ?case
  proof (cases "opcode \<noteq> 0xB0 \<and> opcode AND 0xC0 \<noteq> 0x00 \<and> opcode AND 0xC0 \<noteq> 0x40 \<and> opcode AND 0xF0 = 0x80")
    case True
    then show ?thesis
    proof (cases bs)
      case Nil
      then show ?thesis using True n by (subst extab_run.simps) (auto split: prod.splits option.splits)
    next
      case (Cons low bs')
      then obtain xs2 where "next_byte xs1 = (Some low, xs2)" "delivers xs2 bs'" using n(2) by (auto split: prod.splits option.splits)
      then show ?thesis using True n Cons "2.IH"(3)
        by (subst extab_run.simps) (auto split: prod.splits bool.splits)
    qed
  next
    case False
    then show ?thesis
      using n "2.IH"(1,2,4-) by (subst extab_run.simps) (auto split: prod.splits bool.splits option.splits)
  qed
qed

lemma inline_run_opcodes: "0 \<notin> set bs \<Longrightarrow> parse_and_apply_bytes space bs sp rc = run_opcodes space bs sp rc"
  by (induction space bs sp rc rule: run_opcodes.induct) (auto split: prod.splits bool.splits option.splits list.splits)

section \<open>Restored registers\<close>

definition register_of :: "'c register_context \<Rightarrow> u32 \<Rightarrow> u64 option" where
  "register_of rc reg = rc_read rc (rc_state rc) reg"

lemma write_register_keeps:
  assumes "registers_keep rc"
  shows "\<exists>rc'. write_register reg v rc = Some rc' \<and> registers_keep rc' \<and> rc_valid rc' = rc_valid rc
           \<and> (\<forall>reg'. register_of rc' reg' = (if reg' = reg then Some v else register_of rc reg'))"
proof -
  obtain s' where s': "rc_write rc (rc_state rc) reg v = Some s'"
    "\<And>reg'. rc_read rc s' reg' = (if reg' = reg then Some v else rc_read rc (rc_state rc) reg')"
    using assms unfolding registers_keep_def by meson
  have "rc_write (rc\<lparr>rc_state := s'\<rparr>) = rc_write rc" "rc_read (rc\<lparr>rc_state := s'\<rparr>) = rc_read rc" by simp_all
  then have "registers_keep (rc\<lparr>rc_state := s'\<rparr>)" using assms by (simp only: registers_keep_def simp_thms)
  then show ?thesis using s' by (simp add: write_register_def register_of_def)
qed

lemma pop_run_restores:
  assumes "registers_keep rc" and "distinct regs" and "length vals = length regs" and "holds space sp (memory_words vals)"
  shows "\<exists>rc'. pop_run space 4 regs sp rc = (True, sp + 4 * of_nat (length regs), rc') \<and> registers_keep rc' \<and> rc_valid rc' = rc_valid rc
           \<and> (\<forall>reg. register_of rc' reg
                 = (case map_of (zip regs vals) reg of None \<Rightarrow> register_of rc reg | Some v \<Rightarrow> Some (ucast v)))"
  using assms
proof (induction regs arbitrary: vals sp rc)
  case (Cons reg regs)
  then obtain v vals' where v: "vals = v # vals'" by (cases vals) auto
  have h: "holds space sp (le_bytes 4 (unat v) @ memory_words vals')" using Cons.prems(4) v by simp
  note r = read_le_word [OF h]
  obtain rc1 where rc1: "write_register reg (ucast v) rc = Some rc1" "registers_keep rc1" "rc_valid rc1 = rc_valid rc"
    "\<And>reg'. register_of rc1 reg' = (if reg' = reg then Some (ucast v) else register_of rc reg')"
    using write_register_keeps [OF Cons.prems(1), of reg "ucast v"] by blast
  obtain rc' where rc': "pop_run space 4 regs (sp + 4) rc1 = (True, sp + 4 + 4 * of_nat (length regs), rc')" "registers_keep rc'"
    "rc_valid rc' = rc_valid rc1"
    "\<And>reg. register_of rc' reg = (case map_of (zip regs vals') reg of None \<Rightarrow> register_of rc1 reg | Some v \<Rightarrow> Some (ucast v))"
    using Cons.IH [OF rc1(2), of vals' "sp + 4"] Cons.prems(2,3) r(2) v by auto
  have "map_of (zip regs vals') reg = None" using Cons.prems(2,3) v by (simp add: map_of_zip_is_None)
  then show ?case
    using r(1) rc1 rc' by (intro exI [of _ rc']) (auto simp: v algebra_simps split: option.splits)
qed simp

text \<open>The words for the common prologue that saves a run of registers and the return address.\<close>

definition pop_word :: "nat \<Rightarrow> u32" where
  "pop_word n = 0x80A8B0B0 + push_bit 16 (of_nat n)"

definition pop_registers :: "nat \<Rightarrow> u32 list" where
  "pop_registers n = map (\<lambda>i. 4 + of_nat i) [0..<n + 1] @ [14]"

lemma pop_word_bytes:
  assumes "n < 8"
  shows "[word_byte (pop_word n) 16, word_byte (pop_word n) 8, word_byte (pop_word n) 0] = [0xA8 + of_nat n, 0xB0, 0xB0]"
    and "drop_bit 24 (pop_word n) AND 0x0F = 0" and "pop_word n AND 0x80000000 \<noteq> 0"
    and "core_registers (0xA8 + of_nat n) = pop_registers n" and "distinct (pop_registers n)"
    and "(0xA8 + of_nat n :: u8) AND 0xF0 = 0xA0" and "(0xA8 + of_nat n :: u8) AND 0xC0 = 0x80" "(0xA8 + of_nat n :: u8) \<noteq> 0xB0"
    and "259 \<notin> set (pop_registers n)" and "13 \<notin> set (pop_registers n)"
proof -
  have "\<forall>n \<in> set [0..<8]. [word_byte (pop_word n) 16, word_byte (pop_word n) 8, word_byte (pop_word n) 0] = [0xA8 + of_nat n, 0xB0, 0xB0]
      \<and> drop_bit 24 (pop_word n) AND 0x0F = 0 \<and> pop_word n AND 0x80000000 \<noteq> 0
      \<and> core_registers (0xA8 + of_nat n) = pop_registers n \<and> distinct (pop_registers n)
      \<and> (0xA8 + of_nat n :: u8) AND 0xF0 = 0xA0 \<and> (0xA8 + of_nat n :: u8) AND 0xC0 = 0x80 \<and> (0xA8 + of_nat n :: u8) \<noteq> 0xB0
      \<and> 259 \<notin> set (pop_registers n) \<and> 13 \<notin> set (pop_registers n)"
    by code_simp
  moreover have "n \<in> set [0..<8]" using assms by simp
  ultimately show "[word_byte (pop_word n) 16, word_byte (pop_word n) 8, word_byte (pop_word n) 0] = [0xA8 + of_nat n, 0xB0, 0xB0]"
    and "drop_bit 24 (pop_word n) AND 0x0F = 0" and "pop_word n AND 0x80000000 \<noteq> 0"
    and "core_registers (0xA8 + of_nat n) = pop_registers n" and "distinct (pop_registers n)"
    and "(0xA8 + of_nat n :: u8) AND 0xF0 = 0xA0" and "(0xA8 + of_nat n :: u8) AND 0xC0 = 0x80" "(0xA8 + of_nat n :: u8) \<noteq> 0xB0"
    and "259 \<notin> set (pop_registers n)" and "13 \<notin> set (pop_registers n)"
    by blast+
qed

lemma pop_word_restores:
  assumes "n < 8" and "registers_keep rc" and "length vals = n + 2" and "holds space sp (memory_words vals)"
  shows "\<exists>rc'. execute_bytecode space (pop_word n) sp rc = (True, sp + 4 * of_nat (n + 2), rc') \<and> registers_keep rc'
           \<and> rc_valid rc' = rc_valid rc
           \<and> (\<forall>reg. register_of rc' reg
                 = (case map_of (zip (pop_registers n) vals) reg of None \<Rightarrow> register_of rc reg | Some v \<Rightarrow> Some (ucast v)))"
proof -
  note w = pop_word_bytes [OF assms(1)]
  have l: "length (pop_registers n) = n + 2" by (simp add: pop_registers_def)
  have nz: "(0xA8 + of_nat n :: u8) \<noteq> 0" using w(7) by auto
  obtain rc' where rc': "pop_run space 4 (pop_registers n) sp rc = (True, sp + 4 * of_nat (n + 2), rc')" "registers_keep rc'"
    "rc_valid rc' = rc_valid rc"
    "\<And>reg. register_of rc' reg = (case map_of (zip (pop_registers n) vals) reg of None \<Rightarrow> register_of rc reg | Some v \<Rightarrow> Some (ucast v))"
    using pop_run_restores [OF assms(2) w(5), of vals space sp] assms(3,4) unfolding l by auto
  then have "execute_bytecode space (pop_word n) sp rc = (True, sp + 4 * of_nat (n + 2), rc')"
    using w nz unfolding execute_bytecode_def Let_def w(1,2) by simp
  then show ?thesis using rc' by auto
qed

lemma exidx_lookup_found:
  assumes "find_exidx_entry space (el_exidx_start img) n pc = Some raw" and "has_exidx img"
    and "unat ((el_exidx_end img - el_exidx_start img) div 8) = n"
  shows "\<exists>addr. exidx_lookup space (Some img) pc = Some (addr, raw)"
proof -
  obtain k where k: "find_exidx_loop space (el_exidx_start img) pc 0 n n = Some k" "k \<noteq> n"
    "read_object space (exidx_entry_addr (el_exidx_start img) k + 4) 4 = Some raw" "raw \<noteq> 1"
    using assms(1) by (auto simp: find_exidx_entry_def split: if_splits option.splits)
  then show ?thesis using assms(2,3) step_loop_found [OF k(1)] by (simp add: exidx_lookup_def Let_def)
qed

lemma pop_word_inline: "n < 8 \<Longrightarrow> (ucast (pop_word n) :: u64) AND 0x80000000 \<noteq> 0"
proof -
  have "\<forall>n \<in> set [0..<8]. (ucast (pop_word n) :: u64) AND 0x80000000 \<noteq> 0" by code_simp
  then show "n < 8 \<Longrightarrow> (ucast (pop_word n) :: u64) AND 0x80000000 \<noteq> 0" by simp
qed

lemma pop_registers_last:
  assumes "distinct (pop_registers n)" and "length vals = n + 2"
  shows "map_of (zip (pop_registers n) vals) 14 = Some (last vals)"
proof -
  have "pop_registers n ! (n + 1) = 14" "length (pop_registers n) = n + 2" by (simp_all add: pop_registers_def nth_append)
  then show ?thesis
    using map_of_zip_nth [of "pop_registers n" vals "n + 1"] assms last_conv_nth [of vals] by (cases "vals = []") simp_all
qed

lemma register_value_word: "register_value arm_abi_traits (ucast (w :: u32)) = ucast w"
proof -
  have "(ucast w :: u64) AND mask 32 = take_bit 32 (ucast w)" by (simp only: take_bit_eq_mask)
  also have "\<dots> = ucast w"
    using unsigned_less [of w, where 'a = nat]
    by (simp add: word_eq_iff_unsigned [where 'a = nat] unsigned_take_bit_eq take_bit_nat_eq_self unat_ucast_u32)
  finally show ?thesis by (simp add: register_value_def arm_abi_traits_def mask_eq_exp_minus_1)
qed

text \<open>A table of three functions, the second of which refuses unwinding.\<close>

definition example_table :: "(u32 \<times> u32) list" where
  "example_table = [(0x10, 0x80B0B0B0), (0x18, 1), (0x30, 0x80A8B0B0)]"

text \<open>A function that saved \<open>r4\<close> and the return address: its table of one entry with the stack behind it, its image and
  its registers.\<close>

definition example_frame :: "u8 list" where
  "example_frame = exidx_bytes (0x70, pop_word 0) @ le_bytes 4 (unat (0x11 :: u32)) @ le_bytes 4 (unat (0x95 :: u32))"

definition arm_image :: elf_image_info where
  "arm_image = \<lparr>el_image_name = ''a.out'', el_load_base = 0x80, el_image_size = 0x40, el_exidx_start = 0x10, el_exidx_end = 0x18,
     el_debug_frame_start = 0, el_debug_frame_end = 0\<rparr>"

definition arm_registers :: "(u32 \<Rightarrow> u64) register_context" where
  "arm_registers = \<lparr>rc_valid = True, rc_state = (\<lambda>r. if r = 13 then 0x18 else if r = 14 then 0x84 else 0),
     rc_space = flat_memory 0x10 example_frame, rc_read = (\<lambda>s r. Some (s r)), rc_write = (\<lambda>s r v. Some (s(r := v)))\<rparr>"

section \<open>Properties\<close>

text \<open>C26: The binary search of the index table finds what a scan from the back finds: on a table in memory whose functions
  are in ascending order, the word of the last function that starts at or before the program counter, and nothing
  when the counter precedes all functions or the word refuses unwinding; also for the empty table.\<close>

theorem find_exidx_entry_correct:
  assumes "holds space base (concat (map exidx_bytes es))" and "base \<noteq> 0"
    and "sorted (map (entry_function base es) [0..<length es])"
  shows "find_exidx_entry space base (length es) pc = exidx_reference base es pc"
  using find_exidx_entry_reference [OF assms] .

theorem find_exidx_entry_correct_witness:
  "find_exidx_entry (flat_memory 0x10 (concat (map exidx_bytes example_table))) 0x10 (length example_table) 0x55 = Some 0x80A8B0B0"
proof -
  have "holds (flat_memory 0x10 (concat (map exidx_bytes example_table))) 0x10 (concat (map exidx_bytes example_table))"
    by (rule flat_memory_holds) (simp_all add: length_exidx_bytes example_table_def del: concat.simps list.map)
  moreover have "sorted (map (entry_function 0x10 example_table) [0..<length example_table])" by code_simp
  moreover have "exidx_reference 0x10 example_table 0x55 = Some 0x80A8B0B0" by code_simp
  ultimately show ?thesis using find_exidx_entry_correct [of _ "0x10" example_table "0x55"] by simp
qed

text \<open>The two encodings of the unwinding opcodes agree: a short word of three opcodes without a zero byte does the same
  inline in the index table and out of line in an exception table, down to the registers at a failure; and a long
  entry of several words does what its bytes do in the order of the ABI.\<close>

theorem exidx_encodings_agree:
  assumes "holds space addr (concat (map (\<lambda>w. le_bytes 4 (unat w)) (w # ws)))" and "w AND 0x80000000 \<noteq> 0"
    and "drop_bit 24 w AND 0x7F \<noteq> 0 \<longrightarrow> unat (word_byte w 16) \<le> length ws"
  shows "extab_execute space addr sp rc = run_opcodes space (extab_bytes (w # ws)) sp rc
         \<and> (drop_bit 24 w AND 0x7F = 0 \<longrightarrow> 0 \<notin> set (extab_bytes (w # ws))
              \<longrightarrow> execute_bytecode space w sp rc = extab_execute space addr sp rc)"
proof -
  have run: "extab_execute space addr sp rc = run_opcodes space (extab_bytes (w # ws)) sp rc"
    unfolding extab_execute_def by (rule extab_run_opcodes, rule stream_init_delivers) (use assms in auto)
  have "drop_bit 24 w AND 0x0F = (drop_bit 24 w AND 0x7F) AND 0x0F" by (simp add: and.assoc)
  then show ?thesis
    using run inline_run_opcodes [of "drop 1 (word_bytes w)" space sp rc]
    by (auto simp: execute_bytecode_def word_bytes_def)
qed

theorem exidx_encodings_agree_witness:
  "extab_execute (flat_memory 0x10 (le_bytes 4 (unat (0x80A8B0B0 :: u32)))) 0x10 0x200 example_registers
     = run_opcodes (flat_memory 0x10 (le_bytes 4 (unat (0x80A8B0B0 :: u32)))) [0xA8, 0xB0, 0xB0] 0x200 example_registers
   \<and> execute_bytecode (flat_memory 0x10 (le_bytes 4 (unat (0x80A8B0B0 :: u32)))) 0x80A8B0B0 0x200 example_registers
     = extab_execute (flat_memory 0x10 (le_bytes 4 (unat (0x80A8B0B0 :: u32)))) 0x10 0x200 example_registers"
proof -
  let ?m = "flat_memory 0x10 (le_bytes 4 (unat (0x80A8B0B0 :: u32)))"
  have "holds ?m 0x10 (concat (map (\<lambda>w. le_bytes 4 (unat w)) [0x80A8B0B0 :: u32]))"
    using flat_memory_holds [of "0x10" "le_bytes 4 (unat (0x80A8B0B0 :: u32))"] by simp
  moreover have "(0x80A8B0B0 :: u32) AND 0x80000000 \<noteq> 0" by simp
  moreover have p: "drop_bit 24 (0x80A8B0B0 :: u32) AND 0x7F = 0" by code_simp
  moreover have b: "extab_bytes [0x80A8B0B0] = [0xA8, 0xB0, 0xB0]" by code_simp
  ultimately show ?thesis
    using exidx_encodings_agree [of ?m "0x10" "0x80A8B0B0" "[]" "0x200" example_registers] by simp
qed

text \<open>C25: A step over a function that saved \<open>r4\<close> to \<open>r(4+n)\<close> and the return address restores them: with the word of that
  prologue in the table, the program counter becomes the saved return address, the saved registers come back
  from the stack, the stack pointer moves behind them, and no other register changes.\<close>

theorem exidx_step_restores:
  fixes vals :: "u32 list"
  assumes "rc_valid rc" and "registers_keep rc" and "n < 8"
    and "find_by_pc images (ab_normalize_pc arm_abi_traits pc) = Some img" and "has_exidx img"
    and "unat ((el_exidx_end img - el_exidx_start img) div 8) = length es"
    and "holds space (el_exidx_start img) (concat (map exidx_bytes es))"
    and "sorted (map (entry_function (el_exidx_start img) es) [0..<length es])"
    and "exidx_reference (el_exidx_start img) es (ab_normalize_pc arm_abi_traits pc) = Some (ucast (pop_word n))"
    and "read_raw arm_abi_traits rc 13 = Some sp" and "read_raw arm_abi_traits rc 14 = Some lr"
    and "length vals = n + 2" and "holds space sp (concat (map (\<lambda>w. le_bytes 4 (unat w)) vals))"
  shows "\<exists>fp rc'. exidx_step arm_slots space (Some (find_by_pc images)) True rc pc
             = Some (Some (fp, ucast (last vals) AND NOT 1), rc')
           \<and> (\<forall>reg. register_of rc' reg
                 = (if reg = 13 then Some (register_value arm_abi_traits (sp + 4 * of_nat (n + 2)))
                    else case map_of (zip (pop_registers n) vals) reg of None \<Rightarrow> register_of rc reg | Some v \<Rightarrow> Some (ucast v)))"
proof -
  note w = pop_word_bytes [OF assms(3)]
  have base: "el_exidx_start img \<noteq> 0" using assms(5) by (simp add: has_exidx_def)
  have "find_exidx_entry space (el_exidx_start img) (length es) (ab_normalize_pc arm_abi_traits pc) = Some (ucast (pop_word n))"
    using find_exidx_entry_reference [OF assms(7) base assms(8)] assms(9) by simp
  from exidx_lookup_found [OF this assms(5,6)] obtain addr where
    found: "exidx_lookup space (Some img) (ab_normalize_pc arm_abi_traits pc) = Some (addr, ucast (pop_word n))" by blast
  obtain rc1 where rc1: "execute_bytecode space (pop_word n) sp rc = (True, sp + 4 * of_nat (n + 2), rc1)" "registers_keep rc1"
    "rc_valid rc1 = rc_valid rc"
    "\<And>reg. register_of rc1 reg = (case map_of (zip (pop_registers n) vals) reg of None \<Rightarrow> register_of rc reg | Some v \<Rightarrow> Some (ucast v))"
    using pop_word_restores [OF assms(3,2,12,13)] by blast
  let ?sp = "register_value arm_abi_traits (sp + 4 * of_nat (n + 2))"
  obtain rc' where rc': "write_register 13 ?sp rc1 = Some rc'"
    "\<And>reg. register_of rc' reg = (if reg = 13 then Some ?sp else register_of rc1 reg)"
    using write_register_keeps [OF rc1(2), of 13 ?sp] by blast
  have "register_of rc' 14 = Some (ucast (last vals))"
    using rc'(2) rc1(4) pop_registers_last [OF w(5) assms(12)] by simp
  then have lr: "read_raw arm_abi_traits rc' 14 = Some (ucast (last vals))"
    by (simp add: read_raw_def register_of_def register_value_word)
  have "exidx_apply space addr (ucast (pop_word n)) sp rc = (True, sp + 4 * of_nat (n + 2), rc1)"
    using rc1(1) pop_word_inline [OF assms(3)] by (simp add: exidx_apply_def ucast_u32_back)
  moreover have "\<exists>fp. exidx_finish arm_slots (sp + 4 * of_nat (n + 2)) rc1 = (Some (fp, ucast (last vals) AND NOT 1), rc')"
    using rc'(1) lr by (simp add: exidx_finish_def Let_def arm_slots_def arm_abi_traits_def)
  ultimately show ?thesis
    using assms(1,4,10,11) found rc'(2) rc1(4)
    by (auto simp: exidx_step_def Let_def arm_slots_def arm_abi_traits_def)
qed

theorem exidx_step_restores_witness:
  "\<exists>fp rc'. exidx_step arm_slots (flat_memory 0x10 example_frame) (Some (find_by_pc [arm_image])) True arm_registers 0x90
       = Some (Some (fp, 0x94), rc') \<and> register_of rc' 4 = Some 0x11 \<and> register_of rc' 13 = Some 0x20"
proof -
  let ?m = "flat_memory 0x10 example_frame" and ?es = "[(0x70, pop_word 0)]" and ?vals = "[0x11, 0x95 :: u32]"
  have h: "holds ?m 0x10 (exidx_bytes (0x70, pop_word 0) @ concat (map (\<lambda>w. le_bytes 4 (unat w)) ?vals))"
    using flat_memory_holds [of "0x10" example_frame] by (simp add: example_frame_def exidx_bytes_def)
  have stack: "holds ?m 0x18 (concat (map (\<lambda>w. le_bytes 4 (unat w)) ?vals))"
    using holds_append [OF h] by (simp add: exidx_bytes_def)
  have "\<exists>fp rc'. exidx_step arm_slots ?m (Some (find_by_pc [arm_image])) True arm_registers 0x90
             = Some (Some (fp, ucast (last ?vals) AND NOT 1), rc')
           \<and> (\<forall>reg. register_of rc' reg
                 = (if reg = 13 then Some (register_value arm_abi_traits (0x18 + 4 * of_nat (0 + 2)))
                    else case map_of (zip (pop_registers 0) ?vals) reg of None \<Rightarrow> register_of arm_registers reg | Some v \<Rightarrow> Some (ucast v)))"
  proof (rule exidx_step_restores [where es = ?es and img = arm_image])
    show "registers_keep arm_registers" by (simp add: registers_keep_def arm_registers_def)
    show "find_by_pc [arm_image] (ab_normalize_pc arm_abi_traits 0x90) = Some arm_image" by code_simp
    show "holds ?m (el_exidx_start arm_image) (concat (map exidx_bytes ?es))" using holds_prefix [OF h] by (simp add: arm_image_def)
    show "exidx_reference (el_exidx_start arm_image) ?es (ab_normalize_pc arm_abi_traits 0x90) = Some (ucast (pop_word 0))" by code_simp
  qed (use stack in \<open>simp_all add: arm_registers_def arm_image_def has_exidx_def read_raw_def register_value_def arm_abi_traits_def\<close>)
  then obtain fp rc' where s: "exidx_step arm_slots ?m (Some (find_by_pc [arm_image])) True arm_registers 0x90
      = Some (Some (fp, ucast (last ?vals) AND NOT 1), rc')"
    "\<And>reg. register_of rc' reg = (if reg = 13 then Some (register_value arm_abi_traits (0x18 + 4 * of_nat (0 + 2)))
        else case map_of (zip (pop_registers 0) ?vals) reg of None \<Rightarrow> register_of arm_registers reg | Some v \<Rightarrow> Some (ucast v))" by blast
  have "register_of rc' 4 = Some 0x11" "register_of rc' 13 = Some 0x20"
    by (simp_all add: s(2) pop_registers_def register_value_def arm_abi_traits_def)
  then show ?thesis using s(1) by auto
qed

section \<open>Departures from the ABI\<close>

text \<open>A zero byte is padding inline and an adjustment by four bytes, as the ABI has it, in an exception table.\<close>

theorem zero_opcode_differs:
  assumes "holds space addr (le_bytes 4 (unat (0x8000B0B0 :: u32)))"
  shows "execute_bytecode space 0x8000B0B0 sp rc = (True, sp, rc) \<and> extab_execute space addr sp rc = (True, sp + 4, rc)"
proof -
  have b: "extab_bytes [0x8000B0B0] = [0x00, 0xB0, 0xB0]" "drop_bit 24 (0x8000B0B0 :: u32) AND 0x0F = 0"
    "drop_bit 24 (0x8000B0B0 :: u32) AND 0x7F = 0" by code_simp+
  have w: "[word_byte 0x8000B0B0 16, word_byte 0x8000B0B0 8, word_byte 0x8000B0B0 0] = [0x00, 0xB0, 0xB0]" by code_simp
  have "delivers (extab_stream_init space addr) (extab_bytes [0x8000B0B0])"
    by (rule stream_init_delivers) (use assms b(3) in simp_all)
  from extab_run_opcodes [OF this] have "extab_execute space addr sp rc = (True, sp + 4, rc)"
    unfolding extab_execute_def b(1) by (simp add: vsp_offset_def)
  then show ?thesis unfolding execute_bytecode_def w by (simp add: b(2) Let_def)
qed

text \<open>An exception table that cannot be read counts as executed.\<close>

theorem unreadable_extab_succeeds:
  assumes "read_object space addr 4 = None"
  shows "extab_execute space addr sp rc = (True, sp, rc)"
  using assms by (simp add: extab_execute_def extab_run.simps next_byte_def extab_stream_init_def)

text \<open>Where the table cannot be read to its end, the searcher answers nothing and the step of the unwinder takes the entry it
  has, here the third of four.\<close>

theorem unreadable_table_guessed:
  "find_exidx_loop (flat_memory 0x10 (concat (map exidx_bytes [(0x10, 2), (0x10, 2), (0x10, 2)]))) 0x10 0x90 0 4 4 = None
   \<and> exidx_step_loop (flat_memory 0x10 (concat (map exidx_bytes [(0x10, 2), (0x10, 2), (0x10, 2)]))) 0x10 0x90 0 4 4 = 2"
  by code_simp

text \<open>The opcodes for registers saved with \<^verbatim>\<open>vpush\<close> and for large adjustments are skipped; of the second the operand then
  runs as an opcode.\<close>

theorem unhandled_opcodes_skipped:
  "run_opcodes space (0xD0 # bs) sp rc = run_opcodes space bs sp rc
   \<and> run_opcodes space (0xB2 # 0x04 # bs) sp rc = run_opcodes space bs (sp + 20) rc"
  by (simp add: vsp_offset_def)

end
