(* ===== verification/Memory_Scan.thy ===== *)
theory Memory_Scan
  imports Address_Space
begin

text \<open>
  The memory scanners: byte patterns with an optional mask (\<^verbatim>\<open>inspector/memory_pattern_scanner.hpp\<close>), values in a range and
  windows that satisfy a predicate of the caller (\<^verbatim>\<open>inspector/advanced_scanners.hpp\<close>). Each reads memory in chunks of
  the size of the caller's scratch buffer. Sizes of buffers and of searches are natural numbers: an offset into the
  scratch buffer and the advance of a window are below \<open>2 ^ 64\<close> as long as the scratch buffer has at most half of the
  address space (lemma \<open>advance_fits\<close>). A loop is an optional result; \<^const>\<open>None\<close> is a loop that never ends. All
  three loops are shown to implement one search over the whole memory, through the locale \<open>chunked_scan\<close>.
\<close>

record memory_scan_result =
  msr_found :: bool
  msr_address :: u64

record linear_memory_scanner_context =
  lsc_space :: address_space_ref
  lsc_scratch :: nat

type_synonym scan_outcome = "address_space_error + memory_scan_result"

text \<open>The check before an address moves, \<open>current_addr > max - n\<close>.\<close>

definition moves_past_end :: "u64 \<Rightarrow> nat \<Rightarrow> bool" where
  "moves_past_end current_addr n \<longleftrightarrow> - 1 - of_nat n < current_addr"

definition scan_hit :: "u64 \<Rightarrow> nat \<Rightarrow> scan_outcome" where
  "scan_hit current_addr i =
     (if moves_past_end current_addr i then Inl As_invalid_address
      else Inr \<lparr>msr_found = True, msr_address = current_addr + of_nat i\<rparr>)"

section \<open>Byte patterns\<close>

definition check_match :: "u8 list \<Rightarrow> u8 list \<Rightarrow> u8 list \<Rightarrow> bool" where
  "check_match mem_window pattern mask' =
     list_all (\<lambda>i. if mask' \<noteq> [] then and (mem_window ! i) (mask' ! i) = and (pattern ! i) (mask' ! i)
                   else mem_window ! i = pattern ! i) [0 ..< length pattern]"

function find_match :: "u8 list \<Rightarrow> u8 list \<Rightarrow> u8 list \<Rightarrow> nat \<Rightarrow> nat \<Rightarrow> nat option" where
  "find_match scratch pattern mask' search_limit i =
     (if i \<le> search_limit
      then (if check_match (drop i scratch) pattern mask' then Some i
            else find_match scratch pattern mask' search_limit (i + 1))
      else None)"
  by pat_completeness auto
termination by (relation "measure (\<lambda>(_, _, _, search_limit, i). Suc search_limit - i)") auto

declare find_match.simps [simp del]

partial_function (option) pattern_loop ::
    "address_space_ref \<Rightarrow> nat \<Rightarrow> u8 list \<Rightarrow> u8 list \<Rightarrow> u64 \<Rightarrow> nat \<Rightarrow> scan_outcome option" where
  "pattern_loop space scratch pattern mask' current_addr remaining_search =
     (if length pattern \<le> remaining_search
      then (let to_read = (if remaining_search < scratch then remaining_search else scratch) in
            case read_bytes space current_addr to_read of
              Inl e \<Rightarrow> Some (Inl e)
            | Inr chunk \<Rightarrow>
                (case find_match chunk pattern mask' (to_read - length pattern) 0 of
                   Some i \<Rightarrow> Some (scan_hit current_addr i)
                 | None \<Rightarrow>
                     (let advance = to_read - length pattern + 1 in
                      if moves_past_end current_addr advance then Some (Inl As_invalid_address)
                      else pattern_loop space scratch pattern mask' (current_addr + of_nat advance)
                             (remaining_search - advance))))
      else Some (Inr \<lparr>msr_found = False, msr_address = 0\<rparr>))"

definition pattern_scan ::
    "linear_memory_scanner_context \<Rightarrow> u64 \<Rightarrow> nat \<Rightarrow> u8 list \<Rightarrow> u8 list \<Rightarrow> scan_outcome option" where
  "pattern_scan ctx start_addr search_length pattern mask' =
     (if pattern = [] then Some (Inr \<lparr>msr_found = True, msr_address = start_addr\<rparr>)
      else if lsc_scratch ctx < length pattern then Some (Inl As_invalid_buffer)
      else if mask' \<noteq> [] \<and> length mask' \<noteq> length pattern then Some (Inl As_invalid_buffer)
      else if lsc_space ctx = None then Some (Inl As_invalid_handle)
      else pattern_loop (lsc_space ctx) (lsc_scratch ctx) pattern mask' start_addr search_length)"

section \<open>Windows with a predicate\<close>

text \<open>The predicate has a state of its own, the context of the caller.\<close>

type_synonym 's dependent_predicate_fn = "u8 list \<Rightarrow> 's \<Rightarrow> bool \<times> 's"

partial_function (option) test_windows ::
    "'s dependent_predicate_fn \<Rightarrow> u8 list \<Rightarrow> nat \<Rightarrow> nat \<Rightarrow> nat \<Rightarrow> nat \<Rightarrow> 's \<Rightarrow> (nat option \<times> 's) option" where
  "test_windows predicate scratch window_size stride search_limit offset user =
     (if offset \<le> search_limit
      then (case predicate (take window_size (drop offset scratch)) user of
              (hit, user') \<Rightarrow>
                if hit then Some (Some offset, user')
                else test_windows predicate scratch window_size stride search_limit (offset + stride) user')
      else Some (None, user))"

definition window_advance :: "nat \<Rightarrow> nat \<Rightarrow> nat" where
  "window_advance search_limit stride = (search_limit div stride) * stride + stride"

partial_function (option) dependent_loop ::
    "address_space_ref \<Rightarrow> nat \<Rightarrow> nat \<Rightarrow> nat \<Rightarrow> 's dependent_predicate_fn \<Rightarrow> u64 \<Rightarrow> nat \<Rightarrow> 's
       \<Rightarrow> (scan_outcome \<times> 's) option" where
  "dependent_loop space scratch window_size stride predicate current_addr remaining user =
     (if window_size \<le> remaining
      then (let to_read = (if remaining < scratch then remaining else scratch) in
            case read_bytes space current_addr to_read of
              Inl e \<Rightarrow> Some (Inl e, user)
            | Inr chunk \<Rightarrow>
                Option.bind (test_windows predicate chunk window_size stride (to_read - window_size) 0 user)
                  (\<lambda>(hit, user').
                     case hit of
                       Some offset \<Rightarrow> Some (scan_hit current_addr offset, user')
                     | None \<Rightarrow>
                         (let advance = window_advance (to_read - window_size) stride in
                          if moves_past_end current_addr advance then Some (Inl As_invalid_address, user')
                          else dependent_loop space scratch window_size stride predicate (current_addr + of_nat advance)
                                 (if remaining < advance then 0 else remaining - advance) user')))
      else Some (Inr \<lparr>msr_found = False, msr_address = 0\<rparr>, user))"

text \<open>A missing predicate is \<^const>\<open>None\<close>.\<close>

definition dependent_scan ::
    "linear_memory_scanner_context \<Rightarrow> u64 \<Rightarrow> nat \<Rightarrow> nat \<Rightarrow> nat \<Rightarrow> 's dependent_predicate_fn option \<Rightarrow> 's
       \<Rightarrow> (scan_outcome \<times> 's) option" where
  "dependent_scan ctx start_addr search_length window_size stride predicate user =
     (let stride = (if stride = 0 then 1 else stride) in
      if window_size = 0 then Some (Inl As_invalid_buffer, user)
      else if lsc_scratch ctx < window_size then Some (Inl As_invalid_buffer, user)
      else if lsc_space ctx = None then Some (Inl As_invalid_handle, user)
      else case predicate of
             None \<Rightarrow> Some (Inl As_invalid_buffer, user)
           | Some p \<Rightarrow> dependent_loop (lsc_space ctx) (lsc_scratch ctx) window_size stride p start_addr search_length user)"

section \<open>Values in a range\<close>

text \<open>The scanned type is an integer of one to eight bytes, signed or not.\<close>

record scalar_type =
  st_size :: nat
  st_signed :: bool

definition scalar_value :: "scalar_type \<Rightarrow> u8 list \<Rightarrow> int" where
  "scalar_value t bs =
     (if st_signed t then signed_take_bit (8 * st_size t - 1) (uint (le_value (take (st_size t) bs)))
      else uint (le_value (take (st_size t) bs)))"

partial_function (option) test_values ::
    "scalar_type \<Rightarrow> int \<Rightarrow> int \<Rightarrow> u8 list \<Rightarrow> nat \<Rightarrow> nat \<Rightarrow> nat \<Rightarrow> nat option option" where
  "test_values t min_val max_val scratch stride search_limit offset =
     (if offset \<le> search_limit
      then (let val = scalar_value t (drop offset scratch) in
            if min_val \<le> val \<and> val \<le> max_val then Some (Some offset)
            else test_values t min_val max_val scratch stride search_limit (offset + stride))
      else Some None)"

partial_function (option) range_loop ::
    "address_space_ref \<Rightarrow> nat \<Rightarrow> scalar_type \<Rightarrow> int \<Rightarrow> int \<Rightarrow> nat \<Rightarrow> u64 \<Rightarrow> nat \<Rightarrow> scan_outcome option" where
  "range_loop space scratch t min_val max_val stride current_addr remaining =
     (if st_size t \<le> remaining
      then (let to_read = (if remaining < scratch then remaining else scratch) in
            case read_bytes space current_addr to_read of
              Inl e \<Rightarrow> Some (Inl e)
            | Inr chunk \<Rightarrow>
                Option.bind (test_values t min_val max_val chunk stride (to_read - st_size t) 0)
                  (\<lambda>hit.
                     case hit of
                       Some offset \<Rightarrow> Some (scan_hit current_addr offset)
                     | None \<Rightarrow>
                         (let advance = window_advance (to_read - st_size t) stride in
                          if moves_past_end current_addr advance then Some (Inl As_invalid_address)
                          else range_loop space scratch t min_val max_val stride (current_addr + of_nat advance)
                                 (if remaining < advance then 0 else remaining - advance))))
      else Some (Inr \<lparr>msr_found = False, msr_address = 0\<rparr>))"

definition range_scan ::
    "linear_memory_scanner_context \<Rightarrow> scalar_type \<Rightarrow> u64 \<Rightarrow> nat \<Rightarrow> int \<Rightarrow> int \<Rightarrow> nat \<Rightarrow> scan_outcome option" where
  "range_scan ctx t start_addr search_length min_val max_val stride =
     (let stride = (if stride = 0 then 1 else stride) in
      if lsc_scratch ctx < st_size t then Some (Inl As_invalid_buffer)
      else if lsc_space ctx = None then Some (Inl As_invalid_handle)
      else range_loop (lsc_space ctx) (lsc_scratch ctx) t min_val max_val stride start_addr search_length)"

lemma advance_fits:
  assumes "search_limit < 2 ^ 63" and "stride < 2 ^ 64" and "0 < stride"
  shows "window_advance search_limit stride < 2 ^ 64"
proof (cases "stride \<le> search_limit")
  case True
  have "search_limit div stride * stride \<le> search_limit" by simp
  then have "window_advance search_limit stride \<le> 2 * search_limit"
    unfolding window_advance_def using True by linarith
  moreover have "2 * search_limit < 2 ^ 64" using assms(1) by simp
  ultimately show ?thesis by (rule le_less_trans)
qed (use assms in \<open>simp add: window_advance_def\<close>)

section \<open>One search over the whole memory\<close>

text \<open>The windows of a memory in order, at multiples of the stride, until one is hit.\<close>

function first_window :: "'s dependent_predicate_fn \<Rightarrow> nat \<Rightarrow> nat \<Rightarrow> u8 list \<Rightarrow> nat \<Rightarrow> 's \<Rightarrow> nat option \<times> 's" where
  "first_window hits size' stride mem offset s =
     (if offset + size' \<le> length mem \<and> 0 < size' \<and> 0 < stride
      then (case hits (take size' (drop offset mem)) s of
              (hit, s') \<Rightarrow> if hit then (Some offset, s') else first_window hits size' stride mem (offset + stride) s')
      else (None, s))"
  by pat_completeness auto
termination by (relation "measure (\<lambda>(_, _, _, mem, offset, _). Suc (length mem) - offset)") auto

declare first_window.simps [simp del]

definition scan_answer :: "u64 \<Rightarrow> nat option \<Rightarrow> memory_scan_result" where
  "scan_answer start_addr i =
     (case i of None \<Rightarrow> \<lparr>msr_found = False, msr_address = 0\<rparr>
      | Some i \<Rightarrow> \<lparr>msr_found = True, msr_address = start_addr + of_nat i\<rparr>)"

lemma moves_past_end_iff: "n < 2 ^ 64 \<Longrightarrow> moves_past_end a n \<longleftrightarrow> 2 ^ 64 \<le> unat a + n"
proof -
  assume n: "n < 2 ^ 64"
  have "unat (- 1 - of_nat n :: u64) = 2 ^ 64 - 1 - n"
    using n by (subst unat_sub) (simp_all add: unat_of_nat word_le_nat_alt unsigned_minus_1_eq_mask mask_eq_exp_minus_1)
  then show ?thesis using n by (auto simp: moves_past_end_def word_less_nat_alt)
qed

lemma first_window_step:
  assumes "offset + size' \<le> length mem" and "0 < size'" and "0 < stride"
    and "hits (take size' (drop offset mem)) s = (hit, s')"
  shows "first_window hits size' stride mem offset s =
     (if hit then (Some offset, s') else first_window hits size' stride mem (offset + stride) s')"
  using assms by (subst first_window.simps) simp

lemma first_window_none:
  "\<not> (offset + size' \<le> length mem \<and> 0 < size' \<and> 0 < stride) \<Longrightarrow> first_window hits size' stride mem offset s = (None, s)"
  by (subst first_window.simps) (rule if_not_P)

lemma first_window_drop:
  "first_window hits size' stride mem (a + o') s =
     (case first_window hits size' stride (drop a mem) o' s of (i, s') \<Rightarrow> (map_option ((+) a) i, s'))"
  if "a \<le> length mem"
proof (induction "length mem - o'" arbitrary: o' s rule: less_induct)
  case less
  show ?case
  proof (cases "o' + size' \<le> length (drop a mem) \<and> 0 < size' \<and> 0 < stride")
    case True
    obtain hit s' where h: "hits (take size' (drop o' (drop a mem))) s = (hit, s')" by fastforce
    then have h': "hits (take size' (drop (a + o') mem)) s = (hit, s')" by (simp add: add.commute)
    have t: "a + o' + size' \<le> length mem" using True that by auto
    have "length mem - (o' + stride) < length mem - o'" using True that by auto
    note IH = less [OF this, of s']
    show ?thesis
      using first_window_step [of o' size' "drop a mem" stride hits s]
        first_window_step [of "a + o'" size' mem stride hits s] h h' t True IH
      by (auto simp: add.assoc)
  next
    case False
    then have "\<not> (a + o' + size' \<le> length mem \<and> 0 < size' \<and> 0 < stride)" using that by auto
    then have "first_window hits size' stride mem (a + o') s = (None, s)" by (rule first_window_none)
    then show ?thesis using first_window_none [OF False, of hits s] by simp
  qed
qed

lemma first_window_bound: "first_window hits size' stride mem o' s = (Some k, s') \<Longrightarrow> k + size' \<le> length mem"
proof (induction hits size' stride mem o' s rule: first_window.induct)
  case (1 hits size' stride mem o' s)
  then show ?case
  proof (cases "o' + size' \<le> length mem \<and> 0 < size' \<and> 0 < stride")
    case True
    obtain hit t where h: "hits (take size' (drop o' mem)) s = (hit, t)" by fastforce
    then show ?thesis
      using "1.prems" "1.IH" [OF True, of hit t] first_window_step [of o' size' mem stride hits s] True by (auto split: if_splits)
  qed (simp add: first_window_none)
qed

text \<open>The windows inside a prefix come first; the search goes on at the first window that is not inside.\<close>

lemma window_in_prefix: "(o' :: nat) + w \<le> n \<Longrightarrow> take w (drop o' (take n mem)) = take w (drop o' mem)"
  by (simp add: drop_take min_absorb1)

lemma multiple_le_advance:
  assumes "stride dvd o'" and "0 < (stride :: nat)"
  shows "o' \<le> limit \<Longrightarrow> o' + stride \<le> window_advance limit stride"
    and "\<not> o' \<le> limit \<Longrightarrow> window_advance limit stride \<le> o'"
proof -
  obtain k where k: "o' = stride * k" using assms(1) by (elim dvdE)
  show "o' + stride \<le> window_advance limit stride" if "o' \<le> limit"
    using div_le_mono [OF that, of stride] assms(2) by (simp add: k window_advance_def mult.commute)
  show "window_advance limit stride \<le> o'" if "\<not> o' \<le> limit"
  proof -
    have "limit div stride < k" using that assms(2) by (simp add: k div_less_iff_less_mult mult.commute)
    then have "Suc (limit div stride) * stride \<le> k * stride" by (intro mult_right_mono) auto
    then show ?thesis by (simp add: k window_advance_def mult.commute)
  qed
qed

lemma first_window_prefix:
  assumes "n \<le> length mem" and "size' \<le> n" and "0 < size'" and "0 < stride"
    and "stride dvd o'" and "o' \<le> window_advance (n - size') stride"
  shows "first_window hits size' stride mem o' s =
     (case first_window hits size' stride (take n mem) o' s of
        (Some i, s') \<Rightarrow> (Some i, s')
      | (None, s') \<Rightarrow> first_window hits size' stride mem (window_advance (n - size') stride) s')"
  using assms(5, 6)
proof (induction "length mem - o'" arbitrary: o' s rule: less_induct)
  case less
  let ?adv = "window_advance (n - size') stride"
  show ?case
  proof (cases "o' \<le> n - size'")
    case True
    then have w: "o' + size' \<le> n" using assms(2) by simp
    obtain hit s' where h: "hits (take size' (drop o' mem)) s = (hit, s')" by fastforce
    then have h': "hits (take size' (drop o' (take n mem))) s = (hit, s')" by (simp only: window_in_prefix [OF w])
    have "length mem - (o' + stride) < length mem - o'" using w assms(1, 3, 4) by auto
    moreover have "o' + stride \<le> ?adv" using multiple_le_advance(1) [OF less.prems(1) assms(4) True] .
    ultimately have IH: "\<not> hit \<Longrightarrow> first_window hits size' stride mem (o' + stride) s' =
       (case first_window hits size' stride (take n mem) (o' + stride) s' of
          (Some i, s') \<Rightarrow> (Some i, s') | (None, s') \<Rightarrow> first_window hits size' stride mem ?adv s')"
      using less.hyps [of "o' + stride" s'] less.prems(1) by simp
    show ?thesis
      using first_window_step [of o' size' mem stride hits s] first_window_step [of o' size' "take n mem" stride hits s]
        h h' w assms(1, 3, 4) IH by simp
  next
    case False
    then have "o' = ?adv" using multiple_le_advance(2) [OF less.prems(1) assms(4) False] less.prems(2) by simp
    moreover have "first_window hits size' stride (take n mem) o' s = (None, s)"
      using False assms(1, 2) by (intro first_window_none) auto
    ultimately show ?thesis by simp
  qed
qed

section \<open>Chunks\<close>

text \<open>What a chunked search is: on a chunk it looks at its windows in order, and without a hit it moves on by the
  advance. Every such loop returns, and finds what a search over the whole memory finds.\<close>

locale chunked_scan =
  fixes size' stride :: nat
    and hits :: "'s dependent_predicate_fn"
    and loop :: "address_space_ref \<Rightarrow> nat \<Rightarrow> u64 \<Rightarrow> nat \<Rightarrow> 's \<Rightarrow> (scan_outcome \<times> 's) option"
  assumes size_pos: "0 < size'" and stride_pos: "0 < stride"
    and loop_done: "remaining < size' \<Longrightarrow>
          loop space scratch current_addr remaining s = Some (Inr \<lparr>msr_found = False, msr_address = 0\<rparr>, s)"
    and loop_unread: "\<lbrakk>size' \<le> remaining; read_bytes space current_addr (min remaining scratch) = Inl e\<rbrakk> \<Longrightarrow>
          loop space scratch current_addr remaining s = Some (Inl e, s)"
    and loop_read: "\<lbrakk>size' \<le> remaining; size' \<le> scratch; length chunk = min remaining scratch;
          read_bytes space current_addr (min remaining scratch) = Inr chunk\<rbrakk> \<Longrightarrow>
          loop space scratch current_addr remaining s =
            (let advance = window_advance (min remaining scratch - size') stride in
             case first_window hits size' stride chunk 0 s of
               (Some i, s') \<Rightarrow> Some (scan_hit current_addr i, s')
             | (None, s') \<Rightarrow>
                 if moves_past_end current_addr advance then Some (Inl As_invalid_address, s')
                 else loop space scratch (current_addr + of_nat advance) (remaining - advance) s')"
begin

lemma advance_pos: "0 < window_advance limit stride"
  using stride_pos by (simp add: window_advance_def)

lemma loop_returns:
  assumes "size' \<le> scratch" and "fills_buffer space"
  shows "\<exists>r. loop space scratch current_addr remaining s = Some r"
proof (induction remaining arbitrary: current_addr s rule: less_induct)
  case (less remaining)
  show ?case
  proof (cases "size' \<le> remaining")
    case True
    show ?thesis
    proof (cases "read_bytes space current_addr (min remaining scratch)")
      case (Inr chunk)
      then have "length chunk = min remaining scratch" using assms(2) by (auto simp: fills_buffer_def)
      moreover have "remaining - window_advance limit stride < remaining" for limit
        using True size_pos advance_pos [of limit] by simp
      ultimately show ?thesis using less loop_read [OF True assms(1) _ Inr]
        by (auto simp: Let_def split: prod.splits option.splits)
    qed (use loop_unread [OF True] in simp)
  qed (use loop_done in simp)
qed

text \<open>The search of a memory that can be read, below the end of the address space.\<close>

lemma advance_bound: "size' \<le> n \<Longrightarrow> window_advance (n - size') stride \<le> n - size' + stride"
  using div_times_less_eq_dividend [of "n - size'" stride] unfolding window_advance_def by linarith

lemma loop_finds:
  assumes "size' \<le> scratch" and "holds space current_addr mem" and "unat current_addr + length mem + stride \<le> 2 ^ 64"
  shows "loop space scratch current_addr (length mem) s =
     (case first_window hits size' stride mem 0 s of (i, s') \<Rightarrow> Some (Inr (scan_answer current_addr i), s'))"
  using assms(2, 3)
proof (induction "length mem" arbitrary: mem current_addr s rule: less_induct)
  case less
  define n where "n = min (length mem) scratch"
  define adv where "adv = window_advance (n - size') stride"
  show ?case
  proof (cases "size' \<le> length mem")
    case True
    then have n: "size' \<le> n" "n \<le> length mem" "0 < n" using assms(1) size_pos by (auto simp: n_def)
    have adv: "0 < adv" "unat current_addr + adv < 2 ^ 64"
      using advance_bound [OF n(1)] less.prems(2) n size_pos advance_pos by (auto simp: adv_def)
    have rd: "read_bytes space current_addr n = Inr (take n mem)"
      using less.prems(1) n holds_read [of space current_addr "take n mem" "drop n mem"]
      by (cases "mem = []") (auto simp: min_absorb2)
    obtain i s' where fw: "first_window hits size' stride (take n mem) 0 s = (i, s')" by fastforce
    have pre: "first_window hits size' stride mem 0 s =
       (case i of Some i \<Rightarrow> (Some i, s') | None \<Rightarrow> first_window hits size' stride mem adv s')"
      using first_window_prefix [OF n(2, 1) size_pos stride_pos, of 0 hits s] fw by (simp add: adv_def split: option.splits)
    have moved: "loop space scratch (current_addr + of_nat adv) (length mem - adv) s' =
       (case first_window hits size' stride mem adv s' of (i, s') \<Rightarrow> Some (Inr (scan_answer current_addr i), s'))"
    proof (cases "adv \<le> length mem")
      case True
      have h: "holds space (current_addr + of_nat adv) (drop adv mem)"
        using holds_append [of space current_addr "take adv mem" "drop adv mem"] less.prems(1) True by (simp add: min_absorb2)
      have "unat (current_addr + of_nat adv) = unat current_addr + adv"
        using adv by (subst unat_add_lem [THEN iffD1]) (simp_all add: unat_of_nat)
      then have "unat (current_addr + of_nat adv) + length (drop adv mem) + stride \<le> 2 ^ 64" using True less.prems(2) by simp
      then show ?thesis
        using less.hyps [OF _ h] adv(1) True first_window_drop [OF True, of hits size' stride 0 s']
        by (auto simp: scan_answer_def split: option.splits prod.splits)
    next
      case False
      then show ?thesis using loop_done [of 0] size_pos by (subst first_window.simps) (simp add: scan_answer_def)
    qed
    note step = loop_read [OF True assms(1), of "take n mem" space current_addr s, folded n_def, folded adv_def, unfolded fw Let_def]
    show ?thesis
    proof (cases i)
      case (Some k)
      then have "k + size' \<le> n" using first_window_bound [of hits size' stride "take n mem"] fw n by (auto simp: min_absorb2)
      then have "k < 2 ^ 64 \<and> unat current_addr + k < 2 ^ 64" using less.prems(2) n stride_pos by linarith
      then show ?thesis using step rd n pre Some by (simp add: scan_hit_def moves_past_end_iff scan_answer_def min_absorb2)
    next
      case None
      have "loop space scratch current_addr (length mem) s =
        loop space scratch (current_addr + of_nat adv) (length mem - adv) s'"
        using step rd n None adv by (simp add: moves_past_end_iff min_absorb2)
      also have "\<dots> = (case first_window hits size' stride mem adv s' of
                       (i, s') \<Rightarrow> Some (Inr (scan_answer current_addr i), s'))"
        by (rule moved)
      finally show ?thesis using pre None by simp
    qed
  next
    case False
    then show ?thesis using loop_done [of "length mem"] by (subst first_window.simps) (simp add: scan_answer_def)
  qed
qed

end

section \<open>The scanners\<close>

text \<open>A test without a state.\<close>

definition pure_test :: "(u8 list \<Rightarrow> bool) \<Rightarrow> unit dependent_predicate_fn" where
  "pure_test f w u = (f w, ())"

definition stateless :: "scan_outcome option \<Rightarrow> (scan_outcome \<times> unit) option" where
  "stateless r = map_option (\<lambda>r. (r, ())) r"

lemma pure_first_step:
  assumes "offset + size' \<le> length mem" and "0 < size'" and "0 < stride"
  shows "first_window (pure_test f) size' stride mem offset u =
     (if f (take size' (drop offset mem)) then (Some offset, ())
      else first_window (pure_test f) size' stride mem (offset + stride) ())"
  using assms by (intro first_window_step) (simp_all add: pure_test_def)

text \<open>Induction over the offsets of the windows of a chunk.\<close>

lemma window_induct [consumes 3, case_names inside outside]:
  assumes "0 < size'" and "0 < stride" and "size' \<le> length chunk"
    and step: "\<And>o' s. o' + size' \<le> length chunk \<Longrightarrow> (\<And>s'. P (o' + stride) s') \<Longrightarrow> P o' s"
    and stop: "\<And>o' s. \<not> o' + size' \<le> length chunk \<Longrightarrow> P o' s"
  shows "P o' s"
proof (induction "Suc (length chunk) - o'" arbitrary: o' s rule: less_induct)
  case less
  then show ?case using step stop assms(2) by (cases "o' + size' \<le> length chunk") auto
qed

lemma test_windows_first:
  assumes "0 < size'" and "0 < stride" and "size' \<le> length chunk"
  shows "test_windows hits chunk size' stride (length chunk - size') o' s = Some (first_window hits size' stride chunk o' s)"
  using assms
proof (induction o' s rule: window_induct)
  case (inside o' s)
  then show ?case using assms
    by (subst test_windows.simps, subst first_window.simps) (auto split: prod.splits)
next
  case (outside o' s)
  then show ?case using assms by (subst test_windows.simps) (auto simp: first_window_none)
qed

lemma check_match_window: "check_match (take (length pattern) w) pattern mask' = check_match w pattern mask'"
  by (auto simp: check_match_def list_all_iff)

lemma find_match_first:
  assumes "0 < length pattern" and "0 < (1 :: nat)" and "length pattern \<le> length chunk"
  shows "find_match chunk pattern mask' (length chunk - length pattern) o' =
     fst (first_window (pure_test (\<lambda>w. check_match w pattern mask')) (length pattern) 1 chunk o' u)"
  using assms
proof (induction o' u rule: window_induct)
  case (inside o' u)
  show ?case unfolding pure_first_step [OF inside(1) assms(1, 2)]
    by (subst find_match.simps) (use inside assms in \<open>auto simp: check_match_window\<close>)
next
  case (outside o' u)
  then show ?case using assms by (subst find_match.simps) (auto simp: first_window_none)
qed

definition in_range :: "scalar_type \<Rightarrow> int \<Rightarrow> int \<Rightarrow> u8 list \<Rightarrow> bool" where
  "in_range t min_val max_val w \<longleftrightarrow> min_val \<le> scalar_value t w \<and> scalar_value t w \<le> max_val"

lemma test_values_first:
  assumes "0 < st_size t" and "0 < stride" and "st_size t \<le> length chunk"
  shows "test_values t lo hi chunk stride (length chunk - st_size t) o' =
     Some (fst (first_window (pure_test (in_range t lo hi)) (st_size t) stride chunk o' u))"
  using assms
proof (induction o' u rule: window_induct)
  case (inside o' u)
  let ?v = "scalar_value t (drop o' chunk)"
  have r: "in_range t lo hi (take (st_size t) (drop o' chunk)) \<longleftrightarrow> lo \<le> ?v \<and> ?v \<le> hi"
    by (simp add: scalar_value_def in_range_def)
  show ?case unfolding pure_first_step [OF inside(1) assms(1, 2)] r
    by (subst test_values.simps) (use inside assms in \<open>auto simp: Let_def\<close>)
next
  case (outside o' u)
  then show ?case using assms by (subst test_values.simps) (auto simp: first_window_none)
qed

lemma to_read_min: "(if r < n then r else n) = min r n" for r n :: nat
  by simp

lemma remaining_monus: "(if r < n then 0 else r - n) = r - n" for r n :: nat
  by simp

interpretation dependent: chunked_scan "Suc w" "Suc d" predicate "\<lambda>space scratch. dependent_loop space scratch (Suc w) (Suc d) predicate"
proof (unfold_locales, goal_cases)
  case (3 remaining space scratch a s)
  then show ?case by (subst dependent_loop.simps) simp
next
  case (4 remaining space a scratch e s)
  then show ?case by (subst dependent_loop.simps) (simp add: to_read_min)
next
  case (5 remaining scratch chunk space a s)
  then show ?case
    using test_windows_first [of "Suc w" "Suc d" chunk predicate 0 s]
    by (subst dependent_loop.simps) (simp add: to_read_min remaining_monus Let_def split: prod.splits option.splits)
qed simp_all

interpretation patterns: chunked_scan "length (b # bs)" 1 "pure_test (\<lambda>w. check_match w (b # bs) mask')"
    "\<lambda>space scratch a n u. stateless (pattern_loop space scratch (b # bs) mask' a n)"
proof (unfold_locales, goal_cases)
  case (3 remaining space scratch a s)
  then show ?case by (subst pattern_loop.simps) (simp add: stateless_def)
next
  case (4 remaining space a scratch e s)
  then show ?case by (subst pattern_loop.simps) (simp add: to_read_min stateless_def)
next
  case (5 remaining scratch chunk space a s)
  then show ?case
    using find_match_first [of "b # bs" chunk mask' 0 s]
    by (subst pattern_loop.simps)
      (auto simp: to_read_min window_advance_def stateless_def Let_def split: prod.splits option.splits)
qed simp_all

interpretation ranges: chunked_scan "Suc k" "Suc d" "pure_test (in_range \<lparr>st_size = Suc k, st_signed = sg\<rparr> lo hi)"
    "\<lambda>space scratch a n u. stateless (range_loop space scratch \<lparr>st_size = Suc k, st_signed = sg\<rparr> lo hi (Suc d) a n)"
proof (unfold_locales, goal_cases)
  case (3 remaining space scratch a s)
  then show ?case by (subst range_loop.simps) (simp add: stateless_def)
next
  case (4 remaining space a scratch e s)
  then show ?case by (subst range_loop.simps) (simp add: to_read_min stateless_def)
next
  case (5 remaining scratch chunk space a s)
  then show ?case
    using test_values_first [of "\<lparr>st_size = Suc k, st_signed = sg\<rparr>" "Suc d" chunk lo hi 0 s]
    by (subst range_loop.simps)
      (auto simp: to_read_min remaining_monus stateless_def Let_def split: prod.splits option.splits)
qed simp_all

section \<open>What a scan finds\<close>

lemma find_skip:
  assumes "\<And>i. a < i \<Longrightarrow> i < b \<Longrightarrow> \<not> P i" and "a < b"
  shows "find P [Suc a ..< n] = find P [b ..< n]"
proof (cases "b \<le> n")
  case True
  then have "[Suc a ..< n] = [Suc a ..< b] @ [b ..< n]" using assms(2) upt_add_eq_append [of "Suc a" b "n - b"] by simp
  moreover have "find P [Suc a ..< b] = None" using assms(1) by (auto simp: find_None_iff)
  ultimately show ?thesis by (simp add: find_append)
qed (use assms in \<open>auto simp: find_None_iff\<close>)

text \<open>The first window that passes a test, as a search through all offsets.\<close>

definition first_offset :: "(u8 list \<Rightarrow> bool) \<Rightarrow> nat \<Rightarrow> nat \<Rightarrow> u8 list \<Rightarrow> nat option" where
  "first_offset f size' stride mem =
     find (\<lambda>i. stride dvd i \<and> f (take size' (drop i mem))) [0 ..< Suc (length mem) - size']"

lemma pure_first_find:
  assumes "0 < size'" and "0 < stride" and "size' \<le> length mem"
  shows "stride dvd o' \<Longrightarrow> fst (first_window (pure_test f) size' stride mem o' u) =
     find (\<lambda>i. stride dvd i \<and> f (take size' (drop i mem))) [o' ..< Suc (length mem) - size']"
  using assms
proof (induction o' u rule: window_induct)
  case (inside o' u)
  have "o' < Suc (length mem) - size'" using inside(1) assms(1) by simp
  then have u: "[o' ..< Suc (length mem) - size'] = o' # [Suc o' ..< Suc (length mem) - size']" by (rule upt_conv_Cons)
  have skip: "\<not> stride dvd i" if "o' < i" "i < o' + stride" for i
    using that inside.prems nat_dvd_not_less [of "i - o'" stride] dvd_diff_nat [of stride i o'] by linarith
  show ?case
    using inside.prems find_skip [of o' "o' + stride" "\<lambda>i. stride dvd i \<and> f (take size' (drop i mem))"] skip assms(2) inside(2)
    by (simp add: u pure_first_step [OF inside(1) assms(1, 2)])
next
  case (outside o' u)
  then show ?case by (simp add: first_window_none)
qed

lemma first_window_offset:
  assumes "0 < size'" and "0 < stride"
  shows "fst (first_window (pure_test f) size' stride mem 0 u) = first_offset f size' stride mem"
proof (cases "size' \<le> length mem")
  case True
  then show ?thesis using pure_first_find [OF assms True, of 0] by (simp add: first_offset_def)
qed (simp add: first_offset_def first_window_none)

lemma stateless_answer:
  assumes "stateless r = (case p of (i, u) \<Rightarrow> Some (Inr (scan_answer a i), u))"
  shows "r = Some (Inr (scan_answer a (fst p)))"
  using assms by (cases r) (auto simp: stateless_def split: prod.splits)

lemma pattern_loop_finds:
  assumes "pattern \<noteq> []" and "length pattern \<le> scratch" and "holds space a mem" and "unat a + length mem < 2 ^ 64"
  shows "pattern_loop space scratch pattern mask' a (length mem) =
     Some (Inr (scan_answer a (first_offset (\<lambda>w. check_match w pattern mask') (length pattern) 1 mem)))"
proof -
  obtain b bs where p: "pattern = b # bs" using assms(1) by (cases pattern) auto
  show ?thesis
    using stateless_answer [OF patterns.loop_finds [of b bs scratch space a mem mask' "()"]] assms(2-4)
      first_window_offset [of "length pattern" 1] unfolding p by simp
qed

lemma range_loop_finds:
  assumes "0 < st_size t" and "st_size t \<le> scratch" and "0 < stride"
    and "holds space a mem" and "unat a + length mem + stride \<le> 2 ^ 64"
  shows "range_loop space scratch t lo hi stride a (length mem) =
     Some (Inr (scan_answer a (first_offset (in_range t lo hi) (st_size t) stride mem)))"
proof -
  obtain k sg where t: "t = \<lparr>st_size = Suc k, st_signed = sg\<rparr>" using assms(1) by (cases t) (auto simp: gr0_conv_Suc)
  obtain d where d: "stride = Suc d" using assms(3) by (auto simp: gr0_conv_Suc)
  show ?thesis
    using stateless_answer [OF ranges.loop_finds [of k scratch space a mem d sg lo hi "()"]] assms(2, 4, 5)
      first_window_offset [of "st_size t" stride] unfolding t d by simp
qed

text \<open>The memory agrees with the pattern at an offset, on the bits of the mask.\<close>

definition agrees_at :: "u8 list \<Rightarrow> u8 list \<Rightarrow> u8 list \<Rightarrow> nat \<Rightarrow> bool" where
  "agrees_at pattern mask' mem i \<longleftrightarrow>
     (\<forall>k < length pattern. if mask' = [] then mem ! (i + k) = pattern ! k
        else \<forall>b < 8. bit (mask' ! k) b \<longrightarrow> bit (mem ! (i + k)) b = bit (pattern ! k) b)"

lemma masked_eq_bits: "and x m = and y m \<longleftrightarrow> (\<forall>b < 8. bit m b \<longrightarrow> bit x b = bit y b)" for x y m :: u8
  by (auto simp: bit_eq_iff bit_and_iff)

lemma check_match_agrees:
  "i + length pattern \<le> length mem \<Longrightarrow>
     check_match (take (length pattern) (drop i mem)) pattern mask' \<longleftrightarrow> agrees_at pattern mask' mem i"
  by (auto simp: check_match_window check_match_def agrees_at_def list_all_iff masked_eq_bits)

lemma agrees_at_eval:
  "agrees_at pattern mask' mem i \<longleftrightarrow>
     list_all (\<lambda>k. if mask' = [] then mem ! (i + k) = pattern ! k
       else and (mem ! (i + k)) (mask' ! k) = and (pattern ! k) (mask' ! k)) [0 ..< length pattern]"
  by (auto simp: agrees_at_def list_all_iff masked_eq_bits)

text \<open>C28: The pattern scanner finds the first place where the memory agrees with the pattern on all bits of the mask, and
  reports that there is none otherwise, for every size of the scratch buffer that holds the pattern: no match
  across two chunks is lost. The memory is readable and ends below the end of the address space.\<close>

theorem pattern_scan_finds:
  assumes "pattern \<noteq> []" and "length pattern \<le> lsc_scratch ctx" and "mask' = [] \<or> length mask' = length pattern"
    and "lsc_space ctx \<noteq> None" and "holds (lsc_space ctx) start_addr mem" and "unat start_addr + length mem < 2 ^ 64"
  shows "pattern_scan ctx start_addr (length mem) pattern mask' =
     Some (Inr (scan_answer start_addr
       (find (agrees_at pattern mask' mem) [0 ..< Suc (length mem) - length pattern])))"
proof -
  have "find (\<lambda>i. check_match (take (length pattern) (drop i mem)) pattern mask') [0 ..< Suc (length mem) - length pattern]
      = find (agrees_at pattern mask' mem) [0 ..< Suc (length mem) - length pattern]"
    by (intro find_cong) (auto simp: check_match_agrees)
  then show ?thesis
    using assms pattern_loop_finds [of pattern "lsc_scratch ctx" "lsc_space ctx" start_addr mem mask']
    by (auto simp: pattern_scan_def first_offset_def)
qed

text \<open>A pattern across two chunks of three bytes, with a mask.\<close>

theorem pattern_scan_finds_witness:
  "pattern_scan \<lparr>lsc_space = flat_memory 0x1000 [1, 2, 3, 0xA4, 5, 6], lsc_scratch = 3\<rparr> 0x1000 6 [3, 4] [0xFF, 0x0F] =
     Some (Inr \<lparr>msr_found = True, msr_address = 0x1002\<rparr>)"
proof -
  let ?mem = "[1, 2, 3, 0xA4, 5, 6] :: u8 list"
  have n: "length ?mem = 6" "flat_memory 0x1000 ?mem \<noteq> None" by (simp_all add: flat_memory_def)
  have f: "find (agrees_at [3, 4] [0xFF, 0x0F] [1, 2, 3, 0xA4, 5, 6]) [0 ..< Suc 6 - 2] = Some 2"
    by (simp add: agrees_at_eval upt_conv_Cons)
  show ?thesis
    using pattern_scan_finds [of "[3, 4]" "\<lparr>lsc_space = flat_memory 0x1000 [1, 2, 3, 0xA4, 5, 6], lsc_scratch = 3\<rparr>"
        "[0xFF, 0x0F]" "0x1000" "[1, 2, 3, 0xA4, 5, 6]"]
      flat_memory_holds [of "0x1000" "[1, 2, 3, 0xA4, 5, 6]"] f
    unfolding n(1) by (simp add: n(2) scan_answer_def)
qed

text \<open>The value scanner finds the first offset that is a multiple of the stride and whose bytes are a value within the
  bounds. A stride of zero counts as one.\<close>

theorem range_scan_finds:
  assumes "0 < st_size t" and "st_size t \<le> lsc_scratch ctx" and "lsc_space ctx \<noteq> None"
    and "holds (lsc_space ctx) start_addr mem" and "unat start_addr + length mem + max 1 stride \<le> 2 ^ 64"
  shows "range_scan ctx t start_addr (length mem) min_val max_val stride =
     Some (Inr (scan_answer start_addr
       (find (\<lambda>i. max 1 stride dvd i \<and> min_val \<le> scalar_value t (drop i mem) \<and> scalar_value t (drop i mem) \<le> max_val)
          [0 ..< Suc (length mem) - st_size t])))"
proof -
  have s: "(if stride = 0 then 1 else stride) = max 1 stride" by auto
  have "in_range t min_val max_val (take (st_size t) w) \<longleftrightarrow> min_val \<le> scalar_value t w \<and> scalar_value t w \<le> max_val" for w
    by (simp add: in_range_def scalar_value_def)
  then show ?thesis
    using assms range_loop_finds [of t "lsc_scratch ctx" "max 1 stride" "lsc_space ctx" start_addr mem min_val max_val]
    by (auto simp: range_scan_def first_offset_def s)
qed

theorem range_scan_finds_witness:
  "range_scan \<lparr>lsc_space = flat_memory 0x1000 [9, 0, 0xFE, 0xFF, 7], lsc_scratch = 2\<rparr> \<lparr>st_size = 2, st_signed = True\<rparr>
     0x1000 5 (- 3) 0 2 = Some (Inr \<lparr>msr_found = True, msr_address = 0x1002\<rparr>)"
proof -
  let ?mem = "[9, 0, 0xFE, 0xFF, 7] :: u8 list"
  have n: "length ?mem = 5" "flat_memory 0x1000 ?mem \<noteq> None" by (simp_all add: flat_memory_def)
  have f: "find (\<lambda>i. max 1 2 dvd i \<and> - 3 \<le> scalar_value \<lparr>st_size = 2, st_signed = True\<rparr> (drop i [9, 0, 0xFE, 0xFF, 7])
       \<and> scalar_value \<lparr>st_size = 2, st_signed = True\<rparr> (drop i [9, 0, 0xFE, 0xFF, 7]) \<le> 0) [0 ..< Suc 5 - 2] = Some 2"
    by (simp add: scalar_value_def upt_conv_Cons signed_take_bit_eq_take_bit_shift take_bit_eq_mod)
  show ?thesis
    using range_scan_finds [of "\<lparr>st_size = 2, st_signed = True\<rparr>"
        "\<lparr>lsc_space = flat_memory 0x1000 [9, 0, 0xFE, 0xFF, 7], lsc_scratch = 2\<rparr>" "0x1000" "[9, 0, 0xFE, 0xFF, 7]" 2 "- 3" 0]
      flat_memory_holds [of "0x1000" "[9, 0, 0xFE, 0xFF, 7]"] f
    unfolding n(1) by (simp add: n(2) scan_answer_def)
qed

text \<open>C31: The dependent scanner calls the predicate on the windows of the memory in ascending order, each one once, until
  it accepts one, whatever the scratch buffer: result and state of the predicate are those of the search over
  the whole memory.\<close>

theorem dependent_scan_finds:
  assumes "0 < window_size" and "window_size \<le> lsc_scratch ctx" and "lsc_space ctx \<noteq> None"
    and "holds (lsc_space ctx) start_addr mem" and "unat start_addr + length mem + max 1 stride \<le> 2 ^ 64"
  shows "dependent_scan ctx start_addr (length mem) window_size stride (Some predicate) user =
     (case first_window predicate window_size (max 1 stride) mem 0 user of
        (i, user') \<Rightarrow> Some (Inr (scan_answer start_addr i), user'))"
proof -
  obtain w d where wd: "window_size = Suc w" "max 1 stride = Suc d"
    using assms(1) by (metis gr0_conv_Suc max.strict_coboundedI1 zero_less_one)
  then have s: "(if stride = 0 then 1 else stride) = Suc d" by auto
  show ?thesis
    using dependent.loop_finds [of w "lsc_scratch ctx" "lsc_space ctx" start_addr mem d predicate user] assms
    unfolding wd dependent_scan_def s by auto
qed

theorem dependent_scan_finds_witness:
  "dependent_scan \<lparr>lsc_space = flat_memory 0x1000 [5, 5, 7, 7, 7], lsc_scratch = 2\<rparr> 0x1000 5 2 0
     (Some (\<lambda>w n. (w = [7, 7], n + 1))) (0 :: nat) = Some (Inr \<lparr>msr_found = True, msr_address = 0x1002\<rparr>, 3)"
proof -
  let ?mem = "[5, 5, 7, 7, 7] :: u8 list"
  have n: "length ?mem = 5" "flat_memory 0x1000 ?mem \<noteq> None" by (simp_all add: flat_memory_def)
  have f: "first_window (\<lambda>w n. (w = [7, 7], n + 1)) 2 1 [5, 5, 7, 7, 7] 0 (0 :: nat) = (Some 2, 3)"
    by (simp add: first_window.simps)
  show ?thesis
    using dependent_scan_finds [of 2 "\<lparr>lsc_space = flat_memory 0x1000 [5, 5, 7, 7, 7], lsc_scratch = 2\<rparr>" "0x1000"
        "[5, 5, 7, 7, 7]" 0 "\<lambda>w n. (w = [7, 7], n + 1)" "0 :: nat"]
      flat_memory_holds [of "0x1000" "[5, 5, 7, 7, 7]"] f
    unfolding n(1) by (simp add: n(2) scan_answer_def)
qed

lemma pattern_scan_returns:
  assumes "fills_buffer (lsc_space ctx)"
  shows "\<exists>r. pattern_scan ctx start_addr search_length pattern mask' = Some r"
proof (cases pattern)
  case (Cons b bs)
  then show ?thesis
    using patterns.loop_returns [of b bs "lsc_scratch ctx" "lsc_space ctx" mask' start_addr search_length] assms
    by (auto simp: pattern_scan_def stateless_def)
qed (simp add: pattern_scan_def)

lemma range_scan_returns:
  assumes "fills_buffer (lsc_space ctx)" and "0 < st_size t"
  shows "\<exists>r. range_scan ctx t start_addr search_length lo hi stride = Some r"
proof -
  obtain k sg where t: "t = \<lparr>st_size = Suc k, st_signed = sg\<rparr>" using assms(2) by (cases t) (auto simp: gr0_conv_Suc)
  obtain d where d: "(if stride = 0 then 1 else stride) = Suc d" by (cases stride) auto
  show ?thesis
    using ranges.loop_returns [of k "lsc_scratch ctx" "lsc_space ctx" sg lo hi d start_addr search_length] assms(1)
    unfolding t range_scan_def d by (auto simp: stateless_def)
qed

lemma dependent_scan_returns:
  assumes "fills_buffer (lsc_space ctx)"
  shows "\<exists>r. dependent_scan ctx start_addr search_length window_size stride predicate user = Some r"
proof -
  obtain d where d: "(if stride = 0 then 1 else stride) = Suc d" by (cases stride) auto
  show ?thesis
  proof (cases window_size)
    case (Suc w)
    show ?thesis
      using dependent.loop_returns [of w "lsc_scratch ctx" "lsc_space ctx" d _ start_addr search_length user] assms
      unfolding Suc dependent_scan_def d by (auto split: option.splits)
  qed (simp add: dependent_scan_def)
qed

text \<open>Every scan ends, whatever the address space answers, and whatever the stride.\<close>

theorem scans_return:
  assumes "fills_buffer (lsc_space ctx)" and "0 < st_size t"
  shows "(\<exists>r. pattern_scan ctx start_addr search_length pattern mask' = Some r)
    \<and> (\<exists>r. range_scan ctx t start_addr search_length min_val max_val stride = Some r)
    \<and> (\<exists>r. dependent_scan ctx start_addr search_length window_size stride predicate user = Some r)"
  by (intro conjI pattern_scan_returns range_scan_returns dependent_scan_returns assms)

theorem scans_return_witness:
  "\<exists>r. range_scan \<lparr>lsc_space = flat_memory 8 [1], lsc_scratch = 4\<rparr> \<lparr>st_size = 4, st_signed = False\<rparr> 8 100 2 3 0 = Some r"
  using scans_return [of "\<lparr>lsc_space = flat_memory 8 [1], lsc_scratch = 4\<rparr>" "\<lparr>st_size = 4, st_signed = False\<rparr>"
      8 100 "[]" "[]" 2 3 0 1 None "()"] flat_memory_fills by simp

text \<open>A scan up to the last address of the address space that finds nothing is an error, although every byte was
  read: the window moves past the end before the loop notices that nothing is left.\<close>

theorem scan_to_end_is_error:
  "pattern_scan \<lparr>lsc_space = flat_memory 0xFFFFFFFFFFFFFFFE [1, 2], lsc_scratch = 2\<rparr> 0xFFFFFFFFFFFFFFFE 2 [9] []
     = Some (Inl As_invalid_address)"
  unfolding pattern_scan_def
  by (subst pattern_loop.simps)
    (simp add: flat_memory_def read_bytes_def find_match.simps check_match_def moves_past_end_def)

end
