(* ===== verification/Page_Walk.thy ===== *)
theory Page_Walk
  imports Address_Space
begin

text \<open>
  \<^verbatim>\<open>inspector/remote_page_table_walker.hpp\<close>: the translation of a virtual address by the page tables of another machine.
  The format of the tables is the caller's: one function describes the levels, one decodes an entry; both are
  parameters, as options of functions with an optional result (no function, or one that reports failure). The loop
  over the levels is \<open>walk_level\<close>; \<open>read_entry\<close> is its part up to the decoded entry. Numbers of levels and capacities
  of traces are natural numbers.
\<close>

record remote_page_table_level =
  pl_index_shift :: u8
  pl_index_bits :: u8
  pl_entry_size :: u8

datatype remote_page_table_entry_kind = Entry_invalid | Entry_next_table | Entry_leaf

record remote_page_table_decoded_entry =
  de_kind :: remote_page_table_entry_kind
  de_output_address :: u64
  de_page_size :: u64
  de_space_id :: u8
  de_is_secure :: bool
  de_readable :: bool
  de_writable :: bool
  de_executable :: bool
  de_user_accessible :: bool

record remote_page_table_layout =
  lay_level_count :: nat
  lay_describe_level :: "(nat \<Rightarrow> remote_page_table_level option) option"
  lay_decode_entry :: "(nat \<Rightarrow> u64 \<Rightarrow> remote_page_table_decoded_entry option) option"

definition describe_level :: "remote_page_table_layout \<Rightarrow> nat \<Rightarrow> remote_page_table_level option" where
  "describe_level lay level =
     (case lay_describe_level lay of
        None \<Rightarrow> None
      | Some f \<Rightarrow> if level < lay_level_count lay then f level else None)"

definition decode_entry :: "remote_page_table_layout \<Rightarrow> nat \<Rightarrow> u64 \<Rightarrow> remote_page_table_decoded_entry option" where
  "decode_entry lay level raw_entry =
     (case lay_decode_entry lay of
        None \<Rightarrow> None
      | Some f \<Rightarrow> if level < lay_level_count lay then f level raw_entry else None)"

definition layout_valid :: "remote_page_table_layout \<Rightarrow> bool" where
  "layout_valid lay \<longleftrightarrow> lay_level_count lay \<noteq> 0 \<and> lay_describe_level lay \<noteq> None \<and> lay_decode_entry lay \<noteq> None"

record remote_page_table_walk_step =
  ws_level :: nat
  ws_table_address :: u64
  ws_entry_address :: u64
  ws_raw_entry :: u64
  ws_decoded :: remote_page_table_decoded_entry

text \<open>The storage of a trace has a capacity; its first \<open>size\<close> steps are the recorded ones.\<close>

record remote_page_table_walk_trace =
  wt_capacity :: nat
  wt_steps :: "remote_page_table_walk_step list"
  wt_truncated :: bool

definition trace_reset :: "remote_page_table_walk_trace \<Rightarrow> remote_page_table_walk_trace" where
  "trace_reset t = t\<lparr>wt_steps := [], wt_truncated := False\<rparr>"

definition trace_append :: "remote_page_table_walk_step \<Rightarrow> remote_page_table_walk_trace \<Rightarrow> remote_page_table_walk_trace" where
  "trace_append step t =
     (if length (wt_steps t) < wt_capacity t then t\<lparr>wt_steps := wt_steps t @ [step]\<rparr>
      else t\<lparr>wt_truncated := True\<rparr>)"

datatype remote_page_table_walk_error =
  Walk_invalid_physical_space | Walk_invalid_layout | Walk_invalid_root | Walk_invalid_level | Walk_unsupported_entry_size
| Walk_address_overflow | Walk_read_failed | Walk_decode_failed | Walk_invalid_entry | Walk_unexpected_next_table
| Walk_invalid_leaf

record translation_attributes =
  ta_physical_address :: u64
  ta_space_id :: u8
  ta_is_secure :: bool
  ta_readable :: bool
  ta_writable :: bool
  ta_executable :: bool
  ta_user_accessible :: bool

record remote_page_table_walk_result =
  wr_physical_address :: u64
  wr_page_size :: u64
  wr_attributes :: translation_attributes

record remote_page_table_walker =
  pw_physical_space :: address_space_ref
  pw_layout :: remote_page_table_layout

section \<open>One level\<close>

definition raw_entry_of :: "u8 list \<Rightarrow> u64" where
  "raw_entry_of entry_bytes =
     fold (\<lambda>byte raw. or raw (push_bit (byte * 8) (ucast (entry_bytes ! byte)))) [0 ..< length entry_bytes] 0"

definition entry_index :: "remote_page_table_level \<Rightarrow> u64 \<Rightarrow> u64" where
  "entry_index d virtual_address =
     and (drop_bit (unat (pl_index_shift d)) virtual_address) (push_bit (unat (pl_index_bits d)) 1 - 1)"

definition read_entry ::
    "remote_page_table_walker \<Rightarrow> u64 \<Rightarrow> nat \<Rightarrow> u64 \<Rightarrow> remote_page_table_walk_error + remote_page_table_walk_step" where
  "read_entry w virtual_address level table_address =
     (case describe_level (pw_layout w) level of
        None \<Rightarrow> Inl Walk_invalid_level
      | Some d \<Rightarrow>
          if pl_index_bits d = 0 \<or> 64 \<le> pl_index_bits d \<or> 64 \<le> pl_index_shift d then Inl Walk_invalid_level
          else if pl_entry_size d \<noteq> 1 \<and> pl_entry_size d \<noteq> 2 \<and> pl_entry_size d \<noteq> 4 \<and> pl_entry_size d \<noteq> 8
          then Inl Walk_unsupported_entry_size
          else let index = entry_index d virtual_address in
            if - 1 div ucast (pl_entry_size d) < index then Inl Walk_address_overflow
            else let entry_offset = index * ucast (pl_entry_size d) in
              if - 1 - entry_offset < table_address then Inl Walk_address_overflow
              else let entry_address = table_address + entry_offset in
                (case read_bytes (pw_physical_space w) entry_address (unat (pl_entry_size d)) of
                  Inl e \<Rightarrow> Inl Walk_read_failed
                | Inr entry_bytes \<Rightarrow>
                    (let raw_entry = raw_entry_of entry_bytes in
                     case decode_entry (pw_layout w) level raw_entry of
                       None \<Rightarrow> Inl Walk_decode_failed
                     | Some decoded \<Rightarrow>
                         Inr \<lparr>ws_level = level, ws_table_address = table_address, ws_entry_address = entry_address,
                              ws_raw_entry = raw_entry, ws_decoded = decoded\<rparr>)))"

text \<open>The translation by a leaf.\<close>

definition leaf_result ::
    "remote_page_table_decoded_entry \<Rightarrow> u64 \<Rightarrow> remote_page_table_walk_error + remote_page_table_walk_result" where
  "leaf_result decoded virtual_address =
     (let offset = and virtual_address (de_page_size decoded - 1) in
      if de_kind decoded \<noteq> Entry_leaf \<or> de_page_size decoded = 0 \<or> and (de_page_size decoded) (de_page_size decoded - 1) \<noteq> 0
         \<or> - 1 - offset < de_output_address decoded
      then Inl Walk_invalid_leaf
      else let physical_address = de_output_address decoded + offset in
        Inr \<lparr>wr_physical_address = physical_address, wr_page_size = de_page_size decoded,
             wr_attributes = \<lparr>ta_physical_address = physical_address, ta_space_id = de_space_id decoded,
               ta_is_secure = de_is_secure decoded, ta_readable = de_readable decoded, ta_writable = de_writable decoded,
               ta_executable = de_executable decoded, ta_user_accessible = de_user_accessible decoded\<rparr>\<rparr>)"

section \<open>The walk\<close>

function walk_level ::
    "remote_page_table_walker \<Rightarrow> u64 \<Rightarrow> nat \<Rightarrow> u64 \<Rightarrow> remote_page_table_walk_trace
       \<Rightarrow> (remote_page_table_walk_error + remote_page_table_walk_result) \<times> remote_page_table_walk_trace" where
  "walk_level w virtual_address level table_address trace =
     (if level < lay_level_count (pw_layout w)
      then (case read_entry w virtual_address level table_address of
              Inl e \<Rightarrow> (Inl e, trace)
            | Inr step \<Rightarrow>
                (let trace = trace_append step trace; decoded = ws_decoded step in
                 if de_kind decoded = Entry_invalid then (Inl Walk_invalid_entry, trace)
                 else if de_kind decoded = Entry_next_table
                 then (if level + 1 = lay_level_count (pw_layout w) \<or> de_output_address decoded = 0
                       then (Inl Walk_unexpected_next_table, trace)
                       else walk_level w virtual_address (level + 1) (de_output_address decoded) trace)
                 else (leaf_result decoded virtual_address, trace)))
      else (Inl Walk_invalid_entry, trace))"
  by pat_completeness auto
termination by (relation "measure (\<lambda>(w, _, level, _, _). lay_level_count (pw_layout w) - level)") auto

declare walk_level.simps [simp del]

definition walk ::
    "remote_page_table_walker \<Rightarrow> u64 \<Rightarrow> u64 \<Rightarrow> remote_page_table_walk_trace
       \<Rightarrow> (remote_page_table_walk_error + remote_page_table_walk_result) \<times> remote_page_table_walk_trace" where
  "walk w root_table_address virtual_address trace =
     (let trace = trace_reset trace in
      if pw_physical_space w = None then (Inl Walk_invalid_physical_space, trace)
      else if \<not> layout_valid (pw_layout w) then (Inl Walk_invalid_layout, trace)
      else if root_table_address = 0 then (Inl Walk_invalid_root, trace)
      else walk_level w virtual_address 0 root_table_address trace)"

section \<open>The path of a walk\<close>

text \<open>The walk with all its steps, without a trace that may be too small.\<close>

function walk_path ::
    "remote_page_table_walker \<Rightarrow> u64 \<Rightarrow> nat \<Rightarrow> u64
       \<Rightarrow> (remote_page_table_walk_error + remote_page_table_walk_result) \<times> remote_page_table_walk_step list" where
  "walk_path w va level table =
     (if level < lay_level_count (pw_layout w)
      then (case read_entry w va level table of
              Inl e \<Rightarrow> (Inl e, [])
            | Inr step \<Rightarrow>
                (if de_kind (ws_decoded step) = Entry_invalid then (Inl Walk_invalid_entry, [step])
                 else if de_kind (ws_decoded step) = Entry_next_table
                 then (if level + 1 = lay_level_count (pw_layout w) \<or> de_output_address (ws_decoded step) = 0
                       then (Inl Walk_unexpected_next_table, [step])
                       else map_prod id (Cons step) (walk_path w va (level + 1) (de_output_address (ws_decoded step))))
                 else (leaf_result (ws_decoded step) va, [step])))
      else (Inl Walk_invalid_entry, []))"
  by pat_completeness auto
termination by (relation "measure (\<lambda>(w, _, level, _). lay_level_count (pw_layout w) - level)") auto

declare walk_path.simps [simp del]

lemma walk_level_path:
  "walk_level w va level table t = (case walk_path w va level table of (r, steps) \<Rightarrow> (r, fold trace_append steps t))"
proof (induction w va level table t rule: walk_level.induct)
  case (1 w va level table t)
  show ?case
    by (subst walk_level.simps, subst walk_path.simps) (use 1 in \<open>auto simp: Let_def split: sum.splits prod.splits\<close>)
qed

lemma walk_path_bounded: "length (snd (walk_path w va level table)) \<le> lay_level_count (pw_layout w) - level"
proof (induction w va level table rule: walk_path.induct)
  case (1 w va level table)
  then show ?case
    by (subst walk_path.simps) (fastforce split: sum.splits)
qed

text \<open>A trace records the steps as far as it has room, and knows whether it had.\<close>

lemma fold_trace_append:
  assumes "wt_steps t = []" and "\<not> wt_truncated t"
  shows "wt_steps (fold trace_append steps t) = take (wt_capacity t) steps
    \<and> wt_truncated (fold trace_append steps t) = (wt_capacity t < length steps)
    \<and> wt_capacity (fold trace_append steps t) = wt_capacity t"
proof (induction steps rule: rev_induct)
  case (snoc s steps)
  then show ?case by (auto simp: trace_append_def)
qed (use assms in simp)

definition walk_result :: "remote_page_table_walker \<Rightarrow> u64 \<Rightarrow> u64
       \<Rightarrow> (remote_page_table_walk_error + remote_page_table_walk_result) \<times> remote_page_table_walk_step list" where
  "walk_result w root va =
     (if pw_physical_space w = None then (Inl Walk_invalid_physical_space, [])
      else if \<not> layout_valid (pw_layout w) then (Inl Walk_invalid_layout, [])
      else if root = 0 then (Inl Walk_invalid_root, [])
      else walk_path w va 0 root)"

lemma walk_eq:
  "walk w root va t =
     (fst (walk_result w root va),
      t\<lparr>wt_steps := take (wt_capacity t) (snd (walk_result w root va)),
        wt_truncated := wt_capacity t < length (snd (walk_result w root va))\<rparr>)"
proof -
  have "fold trace_append steps (trace_reset t) =
    t\<lparr>wt_steps := take (wt_capacity t) steps, wt_truncated := wt_capacity t < length steps\<rparr>" for steps
    using fold_trace_append [of "trace_reset t" steps] by (simp add: trace_reset_def)
  then show ?thesis
    by (auto simp: walk_def walk_result_def walk_level_path trace_reset_def Let_def split: prod.splits)
qed

text \<open>The storage of the trace never influences the translation: with less room the result is that of a walk with
  room for every level, the recorded steps are the first steps of that walk, and the trace is marked as truncated
  exactly when steps are missing. A walk reads at most one entry for each level.\<close>

theorem walk_trace_prefix:
  "fst (walk w root va t) = fst (walk w root va (t\<lparr>wt_capacity := lay_level_count (pw_layout w)\<rparr>))
   \<and> (let full = snd (walk w root va (t\<lparr>wt_capacity := lay_level_count (pw_layout w)\<rparr>)); small = snd (walk w root va t)
      in wt_steps small = take (wt_capacity t) (wt_steps full)
       \<and> (wt_truncated small \<longleftrightarrow> wt_capacity t < length (wt_steps full))
       \<and> \<not> wt_truncated full \<and> length (wt_steps full) \<le> lay_level_count (pw_layout w))"
proof -
  have "length (snd (walk_result w root va)) \<le> lay_level_count (pw_layout w)"
    using walk_path_bounded [of w va 0 root] by (auto simp: walk_result_def)
  then show ?thesis by (simp add: walk_eq Let_def)
qed

section \<open>Pages\<close>

text \<open>A layout whose leaves are aligned to their page, and the levels of a path whose index does not reach into the
  page.\<close>

definition leaves_aligned :: "remote_page_table_layout \<Rightarrow> bool" where
  "leaves_aligned lay \<longleftrightarrow>
     (\<forall>level raw d. decode_entry lay level raw = Some d \<longrightarrow> de_kind d = Entry_leaf
        \<longrightarrow> and (de_output_address d) (de_page_size d - 1) = 0)"

definition index_above :: "remote_page_table_layout \<Rightarrow> nat \<Rightarrow> nat \<Rightarrow> bool" where
  "index_above lay k level \<longleftrightarrow>
     (case describe_level lay level of None \<Rightarrow> True | Some d \<Rightarrow> k \<le> unat (pl_index_shift d))"

lemma read_entry_same_page:
  assumes "index_above (pw_layout w) k level" and "drop_bit k va = drop_bit k va'"
  shows "read_entry w va level table = read_entry w va' level table"
proof -
  have "entry_index d va = entry_index d va'" if "k \<le> unat (pl_index_shift d)" for d
  proof -
    have "drop_bit (unat (pl_index_shift d)) v = drop_bit (unat (pl_index_shift d) - k) (drop_bit k v)" for v :: u64
      using that by (simp add: drop_bit_drop_bit)
    then show ?thesis using assms(2) unfolding entry_index_def by metis
  qed
  then show ?thesis using assms(1) by (auto simp: read_entry_def index_above_def split: option.splits)
qed

definition in_page :: "remote_page_table_walk_result \<Rightarrow> u64 \<Rightarrow> remote_page_table_walk_result" where
  "in_page r va =
     (let p = or (and (wr_physical_address r) (not (wr_page_size r - 1))) (and va (wr_page_size r - 1))
      in r\<lparr>wr_physical_address := p, wr_attributes := (wr_attributes r)\<lparr>ta_physical_address := p\<rparr>\<rparr>)"

lemma disjoint_no_carry:
  assumes "and a b = (0 :: u64)"
  shows "a + b = or a b" and "\<not> - 1 - b < a"
proof -
  show "a + b = or a b" using assms by (simp add: disjunctive_add_eq_or)
  have "a = and a (not b)" using assms by (auto simp: bit_eq_iff bit_simps)
  moreover have "and a (not b) \<le> not b" by (simp add: word_and_le1)
  ultimately have "a \<le> not b" by simp
  moreover have "- 1 - b = not b" by (simp add: not_eq_complement)
  ultimately show "\<not> - 1 - b < a" by simp
qed

lemma leaf_same_page:
  assumes "leaf_result d va = Inr r" and "and (de_output_address d) (de_page_size d - 1) = 0"
  shows "leaf_result d va' = Inr (in_page r va')"
proof -
  let ?m = "de_page_size d - 1" and ?out = "de_output_address d"
  have z: "and ?out (and v ?m) = 0" for v using assms(2) by (metis and.assoc and.commute and_zero_eq)
  have "and (or ?out (and va ?m)) (not ?m) = ?out" using assms(2) by (auto simp: bit_eq_iff bit_simps)
  then show ?thesis
    using assms(1) disjoint_no_carry [OF z]
    by (auto simp: leaf_result_def in_page_def Let_def split: if_splits)
qed

lemma read_entry_level: "read_entry w va level table = Inr step \<Longrightarrow> ws_level step = level
    \<and> (\<exists>raw. decode_entry (pw_layout w) level raw = Some (ws_decoded step))"
  by (auto simp: read_entry_def Let_def split: option.splits if_splits sum.splits)

lemma walk_path_same_page:
  assumes "leaves_aligned (pw_layout w)" and "drop_bit k va = drop_bit k va'"
  shows "walk_path w va level table = (Inr r, steps) \<Longrightarrow> \<forall>s \<in> set steps. index_above (pw_layout w) k (ws_level s)
     \<Longrightarrow> walk_path w va' level table = (Inr (in_page r va'), steps)"
proof (induction "lay_level_count (pw_layout w) - level" arbitrary: level table steps rule: less_induct)
  case less
  obtain step where l: "level < lay_level_count (pw_layout w)" and e: "read_entry w va level table = Inr step"
    using less.prems(1) by (subst (asm) walk_path.simps) (auto split: if_splits sum.splits)
  have hd: "step \<in> set steps"
    using less.prems(1) l e by (subst (asm) walk_path.simps) (auto simp: map_prod_def split: if_splits prod.splits)
  then have e': "read_entry w va' level table = Inr step"
    using read_entry_same_page [OF _ assms(2)] less.prems(2) e read_entry_level [OF e] by metis
  show ?case
  proof (cases "de_kind (ws_decoded step)")
    case Entry_next_table
    then obtain rest where rest: "walk_path w va (level + 1) (de_output_address (ws_decoded step)) = (Inr r, rest)"
      and s: "steps = step # rest" "level + 1 \<noteq> lay_level_count (pw_layout w)" "de_output_address (ws_decoded step) \<noteq> 0"
      using less.prems(1) [unfolded walk_path.simps [of w va level table]] l e
      by (auto simp: map_prod_def split: if_splits prod.splits)
    have "walk_path w va' (level + 1) (de_output_address (ws_decoded step)) = (Inr (in_page r va'), rest)"
      using less.hyps [OF _ rest] less.prems(2) l s(1) by simp
    then show ?thesis using l e' s Entry_next_table by (subst walk_path.simps) simp
  next
    case Entry_leaf
    then have lf: "leaf_result (ws_decoded step) va = Inr r" and s: "steps = [step]"
      using less.prems(1) l e by (subst (asm) walk_path.simps, simp)+
    have "and (de_output_address (ws_decoded step)) (de_page_size (ws_decoded step) - 1) = 0"
      using assms(1) read_entry_level [OF e] Entry_leaf unfolding leaves_aligned_def by blast
    then show ?thesis using l e' s Entry_leaf leaf_same_page [OF lf] by (subst walk_path.simps) simp
  qed (use less.prems(1) l e in \<open>subst (asm) walk_path.simps, simp\<close>)
qed

text \<open>C29: A translation holds for a page: another address that agrees with it in all bits above the offset is
  translated by the same entries to the same page, at its own offset, with the same attributes. The leaves of the
  layout are aligned, and the tables that were visited are indexed with bits above the offset.\<close>

theorem walk_translates_pages:
  assumes "leaves_aligned (pw_layout w)" and "drop_bit k va = drop_bit k va'"
    and "walk w root va t = (Inr r, t')" and "lay_level_count (pw_layout w) \<le> wt_capacity t"
    and "\<forall>s \<in> set (wt_steps t'). index_above (pw_layout w) k (ws_level s)"
  shows "walk w root va' t = (Inr (in_page r va'), t')"
proof -
  have r: "fst (walk_result w root va) = Inr r" and t': "snd (walk w root va t) = t'"
    using assms(3) by (simp_all add: walk_eq)
  then have p: "walk_result w root v = walk_path w v 0 root" for v by (auto simp: walk_result_def split: if_splits)
  obtain steps where steps: "walk_path w va 0 root = (Inr r, steps)" using r p by (metis prod.collapse)
  then have "length steps \<le> wt_capacity t" using walk_path_bounded [of w va 0 root] assms(4) by simp
  then have "wt_steps t' = steps" using t' p steps by (auto simp: walk_eq)
  then have "walk_path w va' 0 root = (Inr (in_page r va'), steps)"
    using walk_path_same_page [OF assms(1, 2) steps] assms(5) by simp
  then show ?thesis using t' p steps by (simp add: walk_eq)
qed

text \<open>Two levels of tables with entries of one byte and pages of 16 bytes.\<close>

definition small_layout :: remote_page_table_layout where
  "small_layout =
     \<lparr>lay_level_count = 2,
      lay_describe_level = Some (\<lambda>level. Some \<lparr>pl_index_shift = (if level = 0 then 5 else 4), pl_index_bits = 1, pl_entry_size = 1\<rparr>),
      lay_decode_entry = Some (\<lambda>level raw. Some
        \<lparr>de_kind = (if level = 0 then Entry_next_table else Entry_leaf),
         de_output_address = (if level = 0 then raw else push_bit 4 raw), de_page_size = 16, de_space_id = 0,
         de_is_secure = False, de_readable = True, de_writable = False, de_executable = False, de_user_accessible = True\<rparr>)\<rparr>"

definition small_walker :: remote_page_table_walker where
  "small_walker = \<lparr>pw_physical_space = flat_memory 0x10 [0, 0x12, 0, 7], pw_layout = small_layout\<rparr>"

lemma small_layout_aligned: "leaves_aligned small_layout"
proof -
  have "and (push_bit 4 raw) 15 = 0" for raw :: u64
    using take_bit_eq_mask [of 4 "push_bit 4 raw", symmetric] by (simp add: mask_eq_exp_minus_1 take_bit_push_bit)
  then show ?thesis by (auto simp: leaves_aligned_def decode_entry_def small_layout_def split: if_splits)
qed

lemma small_walk:
  "\<exists>r t'. walk small_walker 0x10 0x35 \<lparr>wt_capacity = 2, wt_steps = [], wt_truncated = False\<rparr> = (Inr r, t')
     \<and> wr_physical_address r = 0x75 \<and> wr_page_size r = 16 \<and> map ws_level (wt_steps t') = [0, 1]"
  by (simp add: walk_def walk_level.simps read_entry_def small_walker_def small_layout_def trace_reset_def trace_append_def
      layout_valid_def describe_level_def decode_entry_def flat_memory_def read_bytes_def leaf_result_def entry_index_def raw_entry_of_def Let_def
      word_le_nat_alt)

theorem walk_translates_pages_witness:
  "\<exists>r t'. walk small_walker 0x10 0x3A \<lparr>wt_capacity = 2, wt_steps = [], wt_truncated = False\<rparr> = (Inr r, t')
     \<and> wr_physical_address r = 0x7A"
proof -
  let ?t = "\<lparr>wt_capacity = 2, wt_steps = [], wt_truncated = False\<rparr>"
  obtain r t' where w: "walk small_walker 0x10 0x35 ?t = (Inr r, t')"
    and r: "wr_physical_address r = 0x75" "wr_page_size r = 16" and l: "map ws_level (wt_steps t') = [0, 1]"
    using small_walk by auto
  have lay: "pw_layout small_walker = small_layout" by (simp add: small_walker_def)
  have "set (map ws_level (wt_steps t')) = {0, 1}" unfolding l by simp
  then have "\<forall>s \<in> set (wt_steps t'). index_above small_layout 4 (ws_level s)"
    by (auto simp: index_above_def describe_level_def small_layout_def split: if_splits)
  then have "walk small_walker 0x10 0x3A ?t = (Inr (in_page r 0x3A), t')"
    using small_layout_aligned by (intro walk_translates_pages [OF _ _ w, where k = 4]) (simp_all add: lay small_layout_def)
  then show ?thesis using r by (auto simp: in_page_def Let_def)
qed

end
