(* ===== verification/Memory_Dump.thy ===== *)
theory Memory_Dump
  imports Format_Engine Address_Space
begin

text \<open>
  Dumps of memory: hex dumps (\<^verbatim>\<open>formatters/hexdump.hpp\<close>, \<^verbatim>\<open>formatters/hexdump.ipp\<close>), differences of two regions
  (\<^verbatim>\<open>inspector/memory_diff.hpp\<close>, \<^verbatim>\<open>inspector/remote_memory_diff.hpp\<close>) and the scanner of addresses
  (\<^verbatim>\<open>inspector/memory_scanner.hpp\<close>), which decides from the kind of region whether memory may be read at all. The reader
  of a hex dump has a state, the context behind its pointer; the scanner's reader logs its reads there. Offsets and
  lengths are natural numbers, addresses words of 64 bits. Classifier, symbol resolver and demangler are parameters.
\<close>

section \<open>Hex dumps\<close>

record 's hexdump_view =
  hd_base_addr :: u64
  hd_direct_data :: "u8 list"
  hd_reader_fn :: "(u64 \<Rightarrow> nat \<Rightarrow> 's \<Rightarrow> u8 list \<times> 's) option"
  hd_total_len :: nat
  hd_bytes_per_line :: u8
  hd_show_ascii :: bool
  hd_show_address :: bool
  hd_uppercase :: bool

definition hexdump :: "u8 list \<Rightarrow> u64 \<Rightarrow> u8 \<Rightarrow> bool \<Rightarrow> 's hexdump_view" where
  "hexdump data base_addr bytes_per_line show_ascii =
     \<lparr>hd_base_addr = base_addr, hd_direct_data = data, hd_reader_fn = None, hd_total_len = length data,
      hd_bytes_per_line = (if bytes_per_line = 0 then 16 else bytes_per_line), hd_show_ascii = show_ascii,
      hd_show_address = True, hd_uppercase = False\<rparr>"

definition hexdump_checked ::
    "u64 \<Rightarrow> nat \<Rightarrow> (u64 \<Rightarrow> nat \<Rightarrow> 's \<Rightarrow> u8 list \<times> 's) \<Rightarrow> u8 \<Rightarrow> bool \<Rightarrow> 's hexdump_view" where
  "hexdump_checked base_addr total_len reader bytes_per_line show_ascii =
     \<lparr>hd_base_addr = base_addr, hd_direct_data = [], hd_reader_fn = Some reader, hd_total_len = total_len,
      hd_bytes_per_line = (if bytes_per_line = 0 then 16 else bytes_per_line), hd_show_ascii = show_ascii,
      hd_show_address = True, hd_uppercase = False\<rparr>"

text \<open>The valid bytes of one line.\<close>

definition read_line :: "'s hexdump_view \<Rightarrow> nat \<Rightarrow> nat \<Rightarrow> 's \<Rightarrow> u8 list \<times> 's" where
  "read_line h offset chunk_len s =
     (case hd_reader_fn h of
        Some f \<Rightarrow> f (hd_base_addr h + of_nat offset) chunk_len s
      | None \<Rightarrow>
          if hd_direct_data h \<noteq> []
          then (let avail = (if offset < length (hd_direct_data h) then length (hd_direct_data h) - offset else 0)
                in (take (min chunk_len avail) (drop offset (hd_direct_data h)), s))
          else ([], s))"

definition hex_octet :: "bool \<Rightarrow> nat \<Rightarrow> nat \<Rightarrow> u8 list \<Rightarrow> nat \<Rightarrow> chunks option" where
  "hex_octet upper bpl chunk_len bytes i =
     seq_chunks
       (if i < length bytes then seq_chunks (format_unsigned hex (ucast (bytes ! i)) upper 2) (Some (put (CHR '' '')))
        else if i < chunk_len then Some (out_write ''?? '')
        else Some (out_write ''   ''))
       (if i = 7 \<and> 8 < bpl then Some (put (CHR '' '')) else Some [])"

definition ascii_cell :: "u8 list \<Rightarrow> nat \<Rightarrow> chunks" where
  "ascii_cell bytes i =
     (if i < length bytes
      then (let b = bytes ! i in put (if 32 \<le> b \<and> b \<le> 126 then chr (unat b) else CHR ''.''))
      else put (CHR ''?''))"

definition ascii_pane :: "nat \<Rightarrow> nat \<Rightarrow> u8 list \<Rightarrow> chunks" where
  "ascii_pane bpl chunk_len bytes =
     out_write '' |'' @ concat (map (ascii_cell bytes) [0 ..< chunk_len])
       @ concat (map (\<lambda>_. put (CHR '' '')) [chunk_len ..< bpl]) @ put (CHR ''|'')"

definition hexdump_line :: "'s hexdump_view \<Rightarrow> nat \<Rightarrow> nat \<Rightarrow> u64 \<Rightarrow> u8 list \<Rightarrow> chunks option" where
  "hexdump_line h bpl chunk_len current_addr bytes =
     seq_chunks
       (if hd_show_address h
        then seq_chunks (format_unsigned hex current_addr (hd_uppercase h) 16) (Some (out_write '': '')) else Some [])
       (seq_chunks (emit_each (hex_octet (hd_uppercase h) bpl chunk_len bytes) [0 ..< bpl])
         (seq_chunks (if hd_show_ascii h then Some (ascii_pane bpl chunk_len bytes) else Some [])
           (Some (put (CHR 0x0A)))))"

text \<open>The loop runs with a positive number of bytes for each line, or not at all: \<open>line_bytes_pos\<close>.\<close>

definition line_bytes :: "'s hexdump_view \<Rightarrow> nat \<Rightarrow> nat" where
  "line_bytes h line_buffer =
     min (min (if hd_bytes_per_line h = 0 then 16 else unat (hd_bytes_per_line h)) 32) line_buffer"

function hexdump_loop :: "'s hexdump_view \<Rightarrow> nat \<Rightarrow> nat \<Rightarrow> 's \<Rightarrow> chunks option \<times> 's" where
  "hexdump_loop h bpl offset s =
     (if offset < hd_total_len h \<and> 0 < bpl
      then (let chunk_len = min bpl (hd_total_len h - offset);
                current_addr = hd_base_addr h + of_nat offset;
                (bytes, s) = read_line h offset chunk_len s;
                (rest, s) = hexdump_loop h bpl (offset + chunk_len) s
            in (seq_chunks (hexdump_line h bpl chunk_len current_addr bytes) rest, s))
      else (Some [], s))"
  by pat_completeness auto
termination by (relation "measure (\<lambda>(h, bpl, offset, _). hd_total_len h - offset)") auto

declare hexdump_loop.simps [simp del]

definition format_hexdump :: "'s hexdump_view \<Rightarrow> nat \<Rightarrow> 's \<Rightarrow> chunks option \<times> 's" where
  "format_hexdump h line_buffer s =
     (if hd_total_len h = 0 \<or> line_buffer = 0 then (Some [], s)
      else hexdump_loop h (line_bytes h line_buffer) 0 s)"

lemma line_bytes_pos: "line_buffer \<noteq> 0 \<Longrightarrow> 0 < line_bytes h line_buffer"
  by (simp add: line_bytes_def unat_gt_0)

section \<open>Differences\<close>

record memory_diff_view =
  df_old_data :: "u8 list"
  df_new_data :: "u8 list"
  df_base_address :: u64
  df_bytes_per_row :: u8

definition row_size :: "u8 \<Rightarrow> nat" where
  "row_size bytes_per_row = (if 0 < bytes_per_row then unat bytes_per_row else 16)"

definition format_row_bytes :: "u8 list \<Rightarrow> chunks option" where
  "format_row_bytes chunk =
     emit_each (\<lambda>b. seq_chunks (format_unsigned hex (ucast b) True 2) (Some (out_write '' ''))) chunk"

definition flush_streak :: "nat \<Rightarrow> chunks option" where
  "flush_streak streak =
     (if 0 < streak
      then seq_chunks (Some (out_write ''  [... ''))
             (seq_chunks (format_unsigned decimal (of_nat streak) False 0)
               (Some (out_write ('' identical rows hidden ...]'' @ [CHR 0x0A]))))
      else Some [])"

definition diff_row :: "u64 \<Rightarrow> u8 list \<Rightarrow> u8 list \<Rightarrow> chunks option" where
  "diff_row address old_chunk new_chunk =
     seq_chunks (Some (out_write ''  0x''))
       (seq_chunks (format_unsigned hex address False 8)
         (seq_chunks (Some (out_write '': ''))
           (seq_chunks (format_row_bytes old_chunk)
             (seq_chunks (Some (out_write '' -> ''))
               (seq_chunks (format_row_bytes new_chunk) (Some (out_write [CHR 0x0A])))))))"

lemma row_size_pos [simp]: "0 < row_size n"
  by (simp add: row_size_def unat_gt_0 word_neq_0_conv)

function diff_loop :: "memory_diff_view \<Rightarrow> nat \<Rightarrow> nat \<Rightarrow> chunks option" where
  "diff_loop diff streak offset =
     (let total_size = min (length (df_old_data diff)) (length (df_new_data diff)) in
      if offset < total_size
      then (let current_chunk_size = min (row_size (df_bytes_per_row diff)) (total_size - offset);
                old_chunk = take current_chunk_size (drop offset (df_old_data diff));
                new_chunk = take current_chunk_size (drop offset (df_new_data diff))
            in if old_chunk = new_chunk then diff_loop diff (streak + 1) (offset + row_size (df_bytes_per_row diff))
               else seq_chunks (flush_streak streak)
                      (seq_chunks (diff_row (df_base_address diff + of_nat offset) old_chunk new_chunk)
                        (diff_loop diff 0 (offset + row_size (df_bytes_per_row diff)))))
      else flush_streak streak)"
  by pat_completeness auto
termination
  by (relation "measure (\<lambda>(d, _, offset). length (df_old_data d) - offset)") (auto intro: diff_less_mono2)

declare diff_loop.simps [simp del]

definition format_memory_diff :: "memory_diff_view \<Rightarrow> chunks option" where
  "format_memory_diff diff = diff_loop diff 0 0"

record remote_memory_diff_view =
  rd_old_space :: address_space_ref
  rd_old_address :: u64
  rd_new_space :: address_space_ref
  rd_new_address :: u64
  rd_size :: nat
  rd_scratch :: nat
  rd_bytes_per_row :: u8

function remote_diff_loop :: "remote_memory_diff_view \<Rightarrow> nat \<Rightarrow> nat \<Rightarrow> chunks option" where
  "remote_diff_loop diff streak offset =
     (if offset < rd_size diff
      then (let current_chunk_size = min (row_size (rd_bytes_per_row diff)) (rd_size diff - offset);
                next = offset + row_size (rd_bytes_per_row diff);
                old_read = read_bytes (rd_old_space diff) (rd_old_address diff + of_nat offset) current_chunk_size;
                new_read = read_bytes (rd_new_space diff) (rd_new_address diff + of_nat offset) current_chunk_size
            in case (old_read, new_read) of
                 (Inr old_chunk, Inr new_chunk) \<Rightarrow>
                   if old_chunk = new_chunk then remote_diff_loop diff (streak + 1) next
                   else seq_chunks (flush_streak streak)
                          (seq_chunks (diff_row (rd_new_address diff + of_nat offset) old_chunk new_chunk)
                            (remote_diff_loop diff 0 next))
               | _ \<Rightarrow>
                   seq_chunks (flush_streak streak)
                     (seq_chunks (Some (out_write ''  0x''))
                       (seq_chunks (format_unsigned hex (rd_new_address diff + of_nat offset) False 8)
                         (seq_chunks (Some (out_write ('': [REMOTE READ FAULT]'' @ [CHR 0x0A])))
                           (remote_diff_loop diff 0 next)))))
      else flush_streak streak)"
  by pat_completeness auto
termination
  by (relation "measure (\<lambda>(d, _, offset). rd_size d - offset)") (auto intro: diff_less_mono2)

declare remote_diff_loop.simps [simp del]

definition format_remote_memory_diff :: "remote_memory_diff_view \<Rightarrow> chunks option" where
  "format_remote_memory_diff diff =
     (if rd_scratch diff < row_size (rd_bytes_per_row diff) * 2
      then Some (out_write ''[ERROR: Scratch buffer too small for remote_memory_diff]'')
      else remote_diff_loop diff 0 0)"

section \<open>The scanner of addresses\<close>

datatype memory_region_type =
  Region_unknown | Region_kernel_code | Region_kernel_data | Region_kernel_stack | Region_process_stack | Region_direct_map
| Region_struct_pages | Region_kernel_heap | Region_user_code | Region_user_data | Region_device_mmio | Region_guard_page
| Region_ns_map | Region_ns_device_mmio

record memory_region_info =
  ri_start_address :: u64
  ri_end_address :: u64
  ri_type :: memory_region_type
  ri_space_id :: u32
  ri_readable :: bool
  ri_writable :: bool
  ri_executable :: bool

definition region_contains :: "memory_region_info \<Rightarrow> u64 \<Rightarrow> bool" where
  "region_contains info addr \<longleftrightarrow> ri_start_address info \<le> addr \<and> addr < ri_end_address info"

text \<open>A classifier and a resolver are functions with an optional result, or missing.\<close>

type_synonym memory_classifier_ref = "(u64 \<Rightarrow> memory_region_info option) option"

definition classify_address :: "memory_classifier_ref \<Rightarrow> u64 \<Rightarrow> memory_region_info option" where
  "classify_address classifier addr = (case classifier of None \<Rightarrow> None | Some f \<Rightarrow> f addr)"

record resolved_symbol_info =
  rs_symbol_name :: string
  rs_offset_from_symbol :: u64

record memory_scanner_options =
  mo_dump_bytes :: nat
  mo_symbol_resolver :: "(u64 \<Rightarrow> resolved_symbol_info option) option"
  mo_demangle_symbols :: bool
  mo_demangled :: "string \<Rightarrow> chunks option"

fun is_symbolic_region :: "memory_region_type \<Rightarrow> bool" where
  "is_symbolic_region t = (t \<in> {Region_kernel_code, Region_kernel_data, Region_user_code, Region_user_data})"

fun print_region_type :: "memory_region_type \<Rightarrow> chunks" where
  "print_region_type Region_kernel_code = out_write ''kernel_code''"
| "print_region_type Region_kernel_data = out_write ''kernel_data''"
| "print_region_type Region_kernel_stack = out_write ''kernel_stack''"
| "print_region_type Region_process_stack = out_write ''process_stack''"
| "print_region_type Region_direct_map = out_write ''direct_map''"
| "print_region_type Region_struct_pages = out_write ''struct_pages''"
| "print_region_type Region_kernel_heap = out_write ''kernel_heap''"
| "print_region_type Region_user_code = out_write ''user_code''"
| "print_region_type Region_user_data = out_write ''user_data''"
| "print_region_type Region_device_mmio = out_write ''device_mmio''"
| "print_region_type Region_guard_page = out_write ''guard_page''"
| "print_region_type Region_ns_map = out_write ''ns_map''"
| "print_region_type Region_ns_device_mmio = out_write ''ns_device_mmio''"
| "print_region_type Region_unknown = out_write ''unknown''"

definition symbol_text :: "memory_scanner_options \<Rightarrow> u64 \<Rightarrow> chunks option" where
  "symbol_text options addr =
     (case mo_symbol_resolver options of
        None \<Rightarrow> Some []
      | Some resolve \<Rightarrow>
          (case resolve addr of
             None \<Rightarrow> Some []
           | Some symbol \<Rightarrow>
               if rs_symbol_name symbol = [] then Some []
               else seq_chunks (Some (out_write '' | symbol=''))
                      (seq_chunks
                        (if mo_demangle_symbols options then mo_demangled options (rs_symbol_name symbol)
                         else Some (out_write (rs_symbol_name symbol)))
                        (if rs_offset_from_symbol symbol \<noteq> 0
                         then format_to format_type_thunk ''+{:#x}'' [A_int False (rs_offset_from_symbol symbol)] else Some []))))"

text \<open>The log of the reader: the address and the length of each read.\<close>

type_synonym read_log = "(u64 \<times> nat) list"

definition scanner_reader :: "address_space_ref \<Rightarrow> u64 \<Rightarrow> nat \<Rightarrow> read_log \<Rightarrow> u8 list \<times> read_log" where
  "scanner_reader space source_address size' log =
     (case read_bytes space source_address size' of Inl e \<Rightarrow> [] | Inr bs \<Rightarrow> bs, log @ [(source_address, size')])"

definition never_dereferenced :: "memory_region_type \<Rightarrow> bool" where
  "never_dereferenced t \<longleftrightarrow>
     t \<in> {Region_kernel_code, Region_direct_map, Region_user_code, Region_device_mmio, Region_guard_page, Region_ns_map,
           Region_ns_device_mmio}"

definition allow_deref :: "memory_region_info option \<Rightarrow> bool" where
  "allow_deref info = (case info of None \<Rightarrow> False | Some i \<Rightarrow> ri_readable i \<and> \<not> never_dereferenced (ri_type i))"

definition bytes_to_dump :: "memory_scanner_options \<Rightarrow> memory_region_info option \<Rightarrow> u64 \<Rightarrow> nat" where
  "bytes_to_dump options info addr =
     (let n = (if 80 < mo_dump_bytes options then 80 else mo_dump_bytes options) in
      case info of
        None \<Rightarrow> n
      | Some i \<Rightarrow>
          if addr < ri_end_address i
          then (let bytes_in_region = unat (ri_end_address i - addr) in if bytes_in_region < n then bytes_in_region else n)
          else n)"

definition process_address ::
    "address_space_ref \<Rightarrow> memory_classifier_ref \<Rightarrow> memory_scanner_options \<Rightarrow> nat \<Rightarrow> u64 \<Rightarrow> read_log \<Rightarrow> chunks option \<times> read_log" where
  "process_address space classifier options index addr log =
     (let info = classify_address classifier addr;
          first_line =
            seq_chunks (format_to format_type_thunk ''  #{:<2} addr={:#018x} | type='' [A_int False (of_nat index), A_int False addr])
              (seq_chunks
                (case info of
                   None \<Rightarrow> Some (out_write ''unknown/unmapped'')
                 | Some i \<Rightarrow>
                     seq_chunks (Some (print_region_type (ri_type i)))
                       (seq_chunks
                         (format_to format_type_thunk '' [{:#x} - {:#x}]''
                           [A_int False (ri_start_address i), A_int False (ri_end_address i)])
                         (if is_symbolic_region (ri_type i) then symbol_text options addr else Some [])))
                (Some (out_write [CHR 0x0A])))
      in if space = None \<or> mo_dump_bytes options = 0 \<or> \<not> allow_deref info then (first_line, log)
         else (case format_hexdump (hexdump_checked addr (bytes_to_dump options info addr) (scanner_reader space) 16 True) 16 log of
                 (dump, log') \<Rightarrow> (seq_chunks first_line dump, log')))"

fun scan_raw_addresses ::
    "address_space_ref \<Rightarrow> memory_classifier_ref \<Rightarrow> memory_scanner_options \<Rightarrow> nat \<Rightarrow> u64 list \<Rightarrow> read_log \<Rightarrow> chunks option \<times> read_log" where
  "scan_raw_addresses space classifier options index [] log = (Some [], log)"
| "scan_raw_addresses space classifier options index (addr # addrs) log =
     (case process_address space classifier options index addr log of
        (a, log') \<Rightarrow>
          (case scan_raw_addresses space classifier options (index + 1) addrs log' of
             (b, log'') \<Rightarrow> (seq_chunks a b, log'')))"

text \<open>Registers in the order of the processor's table, with their names; a register context is a function from the
  index of a register to its value.\<close>

fun scan_registers ::
    "address_space_ref \<Rightarrow> memory_classifier_ref \<Rightarrow> memory_scanner_options \<Rightarrow> (nat \<Rightarrow> u64 option) \<Rightarrow> nat \<Rightarrow> (nat \<times> string) list
       \<Rightarrow> read_log \<Rightarrow> nat \<times> chunks option \<times> read_log" where
  "scan_registers space classifier options read_raw index [] log = (index, Some [], log)"
| "scan_registers space classifier options read_raw index ((reg, name) # regs) log =
     (case read_raw reg of
        None \<Rightarrow> scan_registers space classifier options read_raw index regs log
      | Some reg_val \<Rightarrow>
          if reg_val = 0 then scan_registers space classifier options read_raw index regs log
          else (case process_address space classifier options index reg_val log of
                  (a, log') \<Rightarrow>
                    (case scan_registers space classifier options read_raw (index + 1) regs log' of
                       (index', b, log'') \<Rightarrow>
                         (index', seq_chunks (seq_chunks (format_to format_type_thunk ''[{}] -> '' [A_const_char (Some name)]) a) b,
                          log''))))"

definition scan_and_dump ::
    "address_space_ref \<Rightarrow> memory_classifier_ref \<Rightarrow> (nat \<times> string) list \<Rightarrow> (nat \<Rightarrow> u64 option) option \<Rightarrow> u64 list
       \<Rightarrow> memory_scanner_options \<Rightarrow> read_log \<Rightarrow> chunks option \<times> read_log" where
  "scan_and_dump space classifier address_registers reg_ctx raw_addresses options log =
     (case (case reg_ctx of
              None \<Rightarrow> (0, Some [], log)
            | Some read_raw \<Rightarrow> scan_registers space classifier options read_raw 0 address_registers log) of
        (index, a, log') \<Rightarrow>
          (case scan_raw_addresses space classifier options index raw_addresses log' of
             (b, log'') \<Rightarrow> (seq_chunks a b, log'')))"

text \<open>Addresses from a source, which may never end: \<^const>\<open>None\<close> then.\<close>

partial_function (option) scan_source ::
    "address_space_ref \<Rightarrow> memory_classifier_ref \<Rightarrow> memory_scanner_options \<Rightarrow> ('q \<Rightarrow> (u64 \<times> 'q) option) \<Rightarrow> nat \<Rightarrow> 'q
       \<Rightarrow> read_log \<Rightarrow> (chunks option \<times> read_log) option" where
  "scan_source space classifier options next_addr index source log =
     (case next_addr source of
        None \<Rightarrow> Some (Some [], log)
      | Some step \<Rightarrow>
          (case process_address space classifier options index (fst step) log of
             (a, log') \<Rightarrow>
               Option.bind (scan_source space classifier options next_addr (index + 1) (snd step) log')
                 (\<lambda>r. Some (seq_chunks a (fst r), snd r))))"

definition scan_and_dump_source ::
    "address_space_ref \<Rightarrow> memory_classifier_ref \<Rightarrow> ('q \<Rightarrow> (u64 \<times> 'q) option) option \<Rightarrow> 'q \<Rightarrow> memory_scanner_options
       \<Rightarrow> read_log \<Rightarrow> (chunks option \<times> read_log) option" where
  "scan_and_dump_source space classifier next_addr source options log =
     (case next_addr of
        None \<Rightarrow> Some (Some [], log)
      | Some f \<Rightarrow> scan_source space classifier options f 0 source log)"

section \<open>What the scanner reads\<close>

text \<open>The kinds of memory that hold data: stacks, heaps, data sections and page descriptors, and memory of no known kind. Code,
  direct maps, device registers, guard pages and mappings of the non-secure world are not among them.\<close>

fun data_kind :: "memory_region_type \<Rightarrow> bool" where
  "data_kind Region_unknown = True"
| "data_kind Region_kernel_code = False"
| "data_kind Region_kernel_data = True"
| "data_kind Region_kernel_stack = True"
| "data_kind Region_process_stack = True"
| "data_kind Region_direct_map = False"
| "data_kind Region_struct_pages = True"
| "data_kind Region_kernel_heap = True"
| "data_kind Region_user_code = False"
| "data_kind Region_user_data = True"
| "data_kind Region_device_mmio = False"
| "data_kind Region_guard_page = False"
| "data_kind Region_ns_map = False"
| "data_kind Region_ns_device_mmio = False"

lemma never_dereferenced_kind: "never_dereferenced t \<longleftrightarrow> \<not> data_kind t"
  by (cases t) (simp_all add: never_dereferenced_def)

text \<open>An address in readable memory of such a kind, and a read of bytes that lie in one region of that sort.\<close>

definition dumpable :: "memory_classifier_ref \<Rightarrow> u64 \<Rightarrow> bool" where
  "dumpable classifier addr \<longleftrightarrow> (\<exists>info. classify_address classifier addr = Some info \<and> ri_readable info \<and> data_kind (ri_type info))"

lemma allow_deref_dumpable: "allow_deref (classify_address classifier addr) \<longleftrightarrow> dumpable classifier addr"
  by (auto simp: allow_deref_def dumpable_def never_dereferenced_kind split: option.splits)

definition permitted_read :: "memory_classifier_ref \<Rightarrow> u64 \<times> nat \<Rightarrow> bool" where
  "permitted_read classifier r \<longleftrightarrow>
     (\<exists>addr info. classify_address classifier addr = Some info \<and> ri_readable info \<and> data_kind (ri_type info)
        \<and> addr \<le> fst r \<and> unat (fst r) + snd r \<le> unat (ri_end_address info) \<and> unat (fst r) + snd r \<le> unat addr + 80)"

text \<open>A classifier answers with a region that contains the address.\<close>

definition classifier_sound :: "memory_classifier_ref \<Rightarrow> bool" where
  "classifier_sound classifier \<longleftrightarrow> (\<forall>a info. classify_address classifier a = Some info \<longrightarrow> region_contains info a)"

lemma hexdump_loop_reads:
  assumes "hd_reader_fn h = Some (scanner_reader space)" and "unat (hd_base_addr h) + hd_total_len h < 2 ^ 64"
  shows "\<exists>reads. snd (hexdump_loop h bpl offset log) = log @ reads
    \<and> list_all (\<lambda>(a, n). hd_base_addr h \<le> a \<and> unat a + n \<le> unat (hd_base_addr h) + hd_total_len h) reads"
  using assms
proof (induction h bpl offset log rule: hexdump_loop.induct)
  case (1 h bpl offset log)
  show ?case
  proof (cases "offset < hd_total_len h \<and> 0 < bpl")
    case True
    let ?n = "min bpl (hd_total_len h - offset)" and ?a = "hd_base_addr h + of_nat offset"
    have o: "unat (of_nat offset :: u64) = offset" using True "1.prems"(2) by (simp add: unat_of_nat)
    have a: "unat ?a = unat (hd_base_addr h) + offset"
      using unat_add_lem [of "hd_base_addr h" "of_nat offset"] True "1.prems"(2) o by simp
    obtain bytes where r: "read_line h offset ?n log = (bytes, log @ [(?a, ?n)])"
      using "1.prems"(1) by (auto simp: read_line_def scanner_reader_def)
    obtain reads where IH: "snd (hexdump_loop h bpl (offset + ?n) (log @ [(?a, ?n)])) = (log @ [(?a, ?n)]) @ reads"
      "list_all (\<lambda>(a, n). hd_base_addr h \<le> a \<and> unat a + n \<le> unat (hd_base_addr h) + hd_total_len h) reads"
      using "1.IH" [OF True refl refl r [symmetric] refl "1.prems"] by auto
    have "snd (hexdump_loop h bpl offset log) = log @ (?a, ?n) # reads"
      using True r IH(1) by (subst hexdump_loop.simps) (auto simp: Let_def split: prod.splits)
    moreover have "hd_base_addr h \<le> ?a" "unat ?a + ?n \<le> unat (hd_base_addr h) + hd_total_len h"
      using a True by (auto simp: word_le_nat_alt)
    ultimately show ?thesis using IH(2) by (intro exI [of _ "(?a, ?n) # reads"]) simp
  next
    case False
    then show ?thesis by (subst hexdump_loop.simps) auto
  qed
qed

lemma format_hexdump_reads:
  assumes "hd_reader_fn h = Some (scanner_reader space)" and "unat (hd_base_addr h) + hd_total_len h < 2 ^ 64"
  shows "\<exists>reads. snd (format_hexdump h line_buffer log) = log @ reads
    \<and> list_all (\<lambda>(a, n). hd_base_addr h \<le> a \<and> unat a + n \<le> unat (hd_base_addr h) + hd_total_len h) reads"
  using hexdump_loop_reads [OF assms] by (auto simp: format_hexdump_def intro: exI [of _ "[]"])

text \<open>A dump that is not empty starts with a read at its address.\<close>

lemma hexdump_loop_first_read:
  assumes "hd_reader_fn h = Some (scanner_reader space)" and "unat (hd_base_addr h) + hd_total_len h < 2 ^ 64"
    and "0 < hd_total_len h" and "0 < bpl"
  shows "hd_base_addr h \<in> fst ` set (snd (hexdump_loop h bpl 0 log))"
proof -
  let ?n = "min bpl (hd_total_len h)"
  obtain bytes where r: "read_line h 0 ?n log = (bytes, log @ [(hd_base_addr h, ?n)])"
    using assms(1) by (auto simp: read_line_def scanner_reader_def)
  obtain reads where "snd (hexdump_loop h bpl ?n (log @ [(hd_base_addr h, ?n)])) = (log @ [(hd_base_addr h, ?n)]) @ reads"
    using hexdump_loop_reads [OF assms(1,2)] by blast
  then have "snd (hexdump_loop h bpl 0 log) = (log @ [(hd_base_addr h, ?n)]) @ reads"
    using assms(3,4) r by (subst hexdump_loop.simps) (auto simp: Let_def split: prod.splits)
  then show ?thesis by simp
qed

lemma process_address_reads:
  assumes "classifier_sound classifier"
  shows "\<exists>reads. snd (process_address space classifier options index addr log) = log @ reads
    \<and> list_all (permitted_read classifier) reads"
    and "space \<noteq> None \<Longrightarrow> mo_dump_bytes options \<noteq> 0 \<Longrightarrow> dumpable classifier addr
    \<Longrightarrow> addr \<in> fst ` set (snd (process_address space classifier options index addr log))"
proof -
  have "(\<exists>reads. snd (process_address space classifier options index addr log) = log @ reads
      \<and> list_all (permitted_read classifier) reads)
    \<and> (space \<noteq> None \<longrightarrow> mo_dump_bytes options \<noteq> 0 \<longrightarrow> dumpable classifier addr
      \<longrightarrow> addr \<in> fst ` set (snd (process_address space classifier options index addr log)))"
  proof (cases "space = None \<or> mo_dump_bytes options = 0 \<or> \<not> dumpable classifier addr")
    case True
    then show ?thesis by (auto simp: process_address_def Let_def allow_deref_dumpable)
  next
    case False
    then obtain info where info: "classify_address classifier addr = Some info" "ri_readable info" "data_kind (ri_type info)"
      by (auto simp: dumpable_def)
    let ?n = "bytes_to_dump options (Some info) addr"
    let ?h = "hexdump_checked addr ?n (scanner_reader space) 16 True"
    have "addr < ri_end_address info" using assms info(1) by (simp add: classifier_sound_def region_contains_def)
    then have n: "unat addr + ?n \<le> unat (ri_end_address info)" "?n \<le> 80" "0 < ?n"
      using unat_sub [of addr "ri_end_address info"] False
      by (auto simp: bytes_to_dump_def Let_def word_less_nat_alt word_le_nat_alt)
    then have top: "unat addr + ?n < 2 ^ 64" using unsigned_less [of "ri_end_address info", where 'a = nat] by simp
    have h: "hd_reader_fn ?h = Some (scanner_reader space)" "hd_base_addr ?h = addr" "hd_total_len ?h = ?n"
      by (simp_all add: hexdump_checked_def)
    obtain reads where r: "snd (format_hexdump ?h 16 log) = log @ reads"
      "list_all (\<lambda>(a, n). addr \<le> a \<and> unat a + n \<le> unat addr + ?n) reads"
      using format_hexdump_reads [of ?h space 16 log] h top by auto
    have "list_all (permitted_read classifier) reads"
      using r(2) n info by (fastforce simp: list_all_iff permitted_read_def)
    moreover have "addr \<in> fst ` set (snd (format_hexdump ?h 16 log))"
      using hexdump_loop_first_read [of ?h space "line_bytes ?h 16" log] h top n(3) line_bytes_pos [of 16 ?h]
      by (simp add: format_hexdump_def)
    moreover have "snd (process_address space classifier options index addr log) = snd (format_hexdump ?h 16 log)"
      using False info(1) allow_deref_dumpable [of classifier addr] by (auto simp: process_address_def Let_def split: prod.splits)
    ultimately show ?thesis using r(1) by auto
  qed
  then show "\<exists>reads. snd (process_address space classifier options index addr log) = log @ reads
    \<and> list_all (permitted_read classifier) reads"
    and "space \<noteq> None \<Longrightarrow> mo_dump_bytes options \<noteq> 0 \<Longrightarrow> dumpable classifier addr
    \<Longrightarrow> addr \<in> fst ` set (snd (process_address space classifier options index addr log))"
    by blast+
qed

lemma scan_raw_reads:
  assumes "classifier_sound classifier"
  shows "\<exists>reads. snd (scan_raw_addresses space classifier options index addrs log) = log @ reads
    \<and> list_all (permitted_read classifier) reads"
proof (induction addrs arbitrary: index log)
  case (Cons addr addrs)
  obtain r1 where r1: "snd (process_address space classifier options index addr log) = log @ r1" "list_all (permitted_read classifier) r1"
    using process_address_reads(1) [OF assms] by blast
  obtain r2 where "snd (scan_raw_addresses space classifier options (index + 1) addrs (log @ r1)) = (log @ r1) @ r2"
    "list_all (permitted_read classifier) r2"
    using Cons by blast
  then show ?case using r1 by (auto split: prod.splits intro!: exI [of _ "r1 @ r2"])
qed simp

lemma scan_raw_reads_all:
  assumes "classifier_sound classifier" and "space \<noteq> None" and "mo_dump_bytes options \<noteq> 0"
    and "addr \<in> set addrs" and "dumpable classifier addr"
  shows "addr \<in> fst ` set (snd (scan_raw_addresses space classifier options index addrs log))"
  using assms(4)
proof (induction addrs arbitrary: index log)
  case (Cons a addrs)
  obtain b log' where p: "process_address space classifier options index a log = (b, log')" by fastforce
  obtain reads where r: "snd (scan_raw_addresses space classifier options (index + 1) addrs log') = log' @ reads"
    using scan_raw_reads [OF assms(1)] by blast
  show ?case
  proof (cases "a = addr")
    case True
    then have "addr \<in> fst ` set log'" using process_address_reads(2) [OF assms(1-3,5), of index log] p by simp
    then show ?thesis using p r by (auto split: prod.splits)
  next
    case False
    then show ?thesis using Cons.prems Cons.IH [of "index + 1" log'] p by (auto split: prod.splits)
  qed
qed simp

lemma scan_registers_reads:
  assumes "classifier_sound classifier"
  shows "\<exists>reads. snd (snd (scan_registers space classifier options read_raw index regs log)) = log @ reads
    \<and> list_all (permitted_read classifier) reads"
proof (induction regs arbitrary: index log)
  case (Cons reg regs)
  obtain k name where reg: "reg = (k, name)" by fastforce
  show ?case
  proof (cases "read_raw k = None \<or> read_raw k = Some 0")
    case True
    then show ?thesis using Cons by (auto simp: reg)
  next
    case False
    then obtain v where v: "read_raw k = Some v" "v \<noteq> 0" by auto
    obtain r1 where r1: "snd (process_address space classifier options index v log) = log @ r1" "list_all (permitted_read classifier) r1"
      using process_address_reads(1) [OF assms] by blast
    obtain r2 where "snd (snd (scan_registers space classifier options read_raw (index + 1) regs (log @ r1))) = (log @ r1) @ r2"
      "list_all (permitted_read classifier) r2"
      using Cons by blast
    then show ?thesis using r1 v by (auto simp: reg split: prod.splits intro!: exI [of _ "r1 @ r2"])
  qed
qed simp


lemma scan_source_reads:
  "scan_source space classifier options next_addr index source log = Some r \<Longrightarrow> classifier_sound classifier \<Longrightarrow>
     \<exists>reads. snd r = log @ reads \<and> list_all (permitted_read classifier) reads"
proof (induction rule: scan_source.raw_induct [rotated 1, consumes 1])
  case (1 self space classifier options next_addr index source log r)
  show ?case
  proof (cases "next_addr source")
    case None
    then show ?thesis using 1(2) by auto
  next
    case (Some step)
    obtain r1 where r1: "snd (process_address space classifier options index (fst step) log) = log @ r1"
      "list_all (permitted_read classifier) r1"
      using process_address_reads(1) [OF 1(3)] by blast
    then obtain a where p: "process_address space classifier options index (fst step) log = (a, log @ r1)" by (metis prod.collapse)
    obtain r' where r': "self space classifier options next_addr (index + 1) (snd step) (log @ r1) = Some r'" "snd r = snd r'"
      using 1(2) Some p by (auto simp: bind_eq_Some_conv)
    obtain r2 where "snd r' = (log @ r1) @ r2" "list_all (permitted_read classifier) r2"
      using 1(1) [OF r'(1) 1(3)] by blast
    then show ?thesis using r1(2) r'(2) by (intro exI [of _ "r1 @ r2"]) simp
  qed
qed

text \<open>The same for the addresses of a source, as far as it ends.\<close>

lemma source_reads_permitted:
  assumes "classifier_sound classifier" and "scan_and_dump_source space classifier next_addr source options [] = Some r"
  shows "list_all (permitted_read classifier) (snd r)"
proof (cases next_addr)
  case (Some f)
  then show ?thesis using scan_source_reads [OF _ assms(1), of space options f 0 source "[]" r] assms(2)
    by (auto simp: scan_and_dump_source_def)
qed (use assms(2) in \<open>auto simp: scan_and_dump_source_def\<close>)

definition small_regions :: memory_classifier_ref where
  "small_regions = Some (\<lambda>addr.
     if 0x1000 \<le> addr \<and> addr < 0x1008
     then Some \<lparr>ri_start_address = 0x1000, ri_end_address = 0x1008, ri_type = Region_user_data, ri_space_id = 0,
                ri_readable = True, ri_writable = True, ri_executable = False\<rparr>
     else if 0x2000 \<le> addr \<and> addr < 0x3000
     then Some \<lparr>ri_start_address = 0x2000, ri_end_address = 0x3000, ri_type = Region_device_mmio, ri_space_id = 0,
                ri_readable = True, ri_writable = True, ri_executable = False\<rparr>
     else None)"


section \<open>Differences, local and remote\<close>

lemma holds_chunk:
  "holds space a mem \<Longrightarrow> 0 < n \<Longrightarrow> offset + n \<le> length mem \<Longrightarrow> read_bytes space (a + of_nat offset) n = Inr (take n (drop offset mem))"
  by (simp add: holds_def)

lemma remote_diff_loop_local:
  assumes "holds (rd_old_space d) (rd_old_address d) old" and "holds (rd_new_space d) (rd_new_address d) new"
    and "rd_size d = length old" and "length new = length old"
  shows "remote_diff_loop d streak offset =
     diff_loop \<lparr>df_old_data = old, df_new_data = new, df_base_address = rd_new_address d, df_bytes_per_row = rd_bytes_per_row d\<rparr>
       streak offset"
proof (induction "length old - offset" arbitrary: streak offset rule: less_induct)
  case less
  let ?row = "row_size (rd_bytes_per_row d)"
  let ?n = "min ?row (length old - offset)"
  show ?case
  proof (cases "offset < length old")
    case True
    have n: "0 < ?n" "offset + ?n \<le> length old" using True row_size_pos [of "rd_bytes_per_row d"] by auto
    have r: "read_bytes (rd_old_space d) (rd_old_address d + of_nat offset) ?n = Inr (take ?n (drop offset old))"
      "read_bytes (rd_new_space d) (rd_new_address d + of_nat offset) ?n = Inr (take ?n (drop offset new))"
      using holds_chunk [OF assms(1) n] holds_chunk [OF assms(2) n(1)] n(2) assms(4) by simp_all
    have "length old - (offset + ?row) < length old - offset" using True row_size_pos [of "rd_bytes_per_row d"] by linarith
    note IH = less [OF this]
    show ?thesis
      by (subst remote_diff_loop.simps, subst diff_loop.simps) (simp add: True assms(3, 4) r IH Let_def)
  next
    case False
    then show ?thesis using assms(3, 4) by (subst remote_diff_loop.simps, subst diff_loop.simps) simp
  qed
qed

text \<open>The difference of two regions of other processes, as long as they can be read, is the difference of their
  bytes, with the addresses of the new region.\<close>

theorem remote_diff_equals_local:
  assumes "holds (rd_old_space d) (rd_old_address d) old" and "holds (rd_new_space d) (rd_new_address d) new"
    and "rd_size d = length old" and "length new = length old" and "2 * row_size (rd_bytes_per_row d) \<le> rd_scratch d"
  shows "format_remote_memory_diff d =
     format_memory_diff \<lparr>df_old_data = old, df_new_data = new, df_base_address = rd_new_address d,
       df_bytes_per_row = rd_bytes_per_row d\<rparr>"
  using assms remote_diff_loop_local by (simp add: format_remote_memory_diff_def format_memory_diff_def)

section \<open>Reading a dump back\<close>

text \<open>The place of an octet in its line, after the address, and the width of a line with its end.\<close>

definition octet_col :: "nat \<Rightarrow> nat \<Rightarrow> nat" where
  "octet_col bpl i = 3 * i + (if 8 \<le> i \<and> 8 < bpl then 1 else 0)"

definition line_width :: "nat \<Rightarrow> bool \<Rightarrow> nat" where
  "line_width bpl ascii = 18 + octet_col bpl bpl + (if ascii then bpl + 3 else 0) + 1"

definition octet_at :: "string \<Rightarrow> nat \<Rightarrow> nat" where
  "octet_at t p = digit_value (t ! p) * 16 + digit_value (t ! (p + 1))"

definition undump :: "nat \<Rightarrow> bool \<Rightarrow> nat \<Rightarrow> string \<Rightarrow> u8 list" where
  "undump bpl ascii n t =
     map (\<lambda>k. of_nat (octet_at t ((k div bpl) * line_width bpl ascii + 18 + octet_col bpl (k mod bpl)))) [0 ..< n]"

lemma octet_at_append: "octet_at (a @ t) (length a + p) = octet_at t p"
  by (simp add: octet_at_def nth_append)

lemma octet_at_prefix: "p + 1 < length a \<Longrightarrow> octet_at (a @ t) p = octet_at a p"
  by (simp add: octet_at_def nth_append)

lemma hex_octet_text:
  "\<exists>ch. hex_octet False bpl chunk_len bytes i = Some ch \<and> length (concat ch) = 3 + (if i = 7 \<and> 8 < bpl then 1 else 0)
     \<and> (i < length bytes \<longrightarrow> octet_at (concat ch) 0 = unat (bytes ! i))"
proof (cases "i < length bytes")
  case True
  have "unat (bytes ! i) < 256" using unsigned_less [of "bytes ! i", where 'a = nat] by simp
  then obtain ch h l where "format_unsigned hex (of_nat (unat (bytes ! i))) False 2 = Some ch" "concat ch = [h, l]"
    "digit_value h * 16 + digit_value l = unat (bytes ! i)"
    using format_unsigned_hex_byte by blast
  then show ?thesis using True by (simp add: hex_octet_def octet_at_def)
qed (simp add: hex_octet_def)

lemma octets_text:
  assumes "m \<le> bpl"
  shows "\<exists>ch. emit_each (hex_octet False bpl chunk_len bytes) [0 ..< m] = Some ch \<and> length (concat ch) = octet_col bpl m
     \<and> (\<forall>i < m. i < length bytes \<longrightarrow> octet_at (concat ch) (octet_col bpl i) = unat (bytes ! i))"
  using assms
proof (induction m)
  case (Suc m)
  obtain a where a: "emit_each (hex_octet False bpl chunk_len bytes) [0 ..< m] = Some a" "length (concat a) = octet_col bpl m"
    "\<forall>i < m. i < length bytes \<longrightarrow> octet_at (concat a) (octet_col bpl i) = unat (bytes ! i)"
    using Suc by auto
  obtain b where b: "hex_octet False bpl chunk_len bytes m = Some b" "length (concat b) = 3 + (if m = 7 \<and> 8 < bpl then 1 else 0)"
    "m < length bytes \<longrightarrow> octet_at (concat b) 0 = unat (bytes ! m)"
    using hex_octet_text by blast
  have "octet_at (concat a @ concat b) (octet_col bpl i) = unat (bytes ! i)" if "i < Suc m" "i < length bytes" for i
  proof (cases "i = m")
    case True
    then show ?thesis using octet_at_append [of "concat a" "concat b" 0] a(2) b(3) that by simp
  next
    case False
    then have "octet_col bpl i + 1 < length (concat a)" using that a(2) by (auto simp: octet_col_def)
    then show ?thesis using a(3) that False by (simp add: octet_at_prefix)
  qed
  moreover have "length (concat a @ concat b) = octet_col bpl (Suc m)" using a(2) b(2) Suc.prems by (auto simp: octet_col_def)
  ultimately show ?case using a(1) b(1) by (auto simp: emit_each_append)
qed (simp add: octet_col_def)

lemma address_text:
  "\<exists>ch. format_unsigned hex addr False 16 = Some ch \<and> length (concat ch) = 16"
proof -
  have "length (radix_string 16 hex_digits_lower (unat addr)) \<le> 16" by (rule u64_digits)
  then show ?thesis using format_integer_core_hex [of addr False 16] by (auto simp: format_unsigned_def Let_def)
qed

lemma ascii_pane_length: "chunk_len \<le> bpl \<Longrightarrow> length (concat (ascii_pane bpl chunk_len bytes)) = bpl + 3"
proof -
  have "length (concat (concat (map (ascii_cell bytes) xs))) = length xs" for xs
    by (induction xs) (auto simp: ascii_cell_def Let_def)
  moreover have "length (concat (concat (map (\<lambda>_. put (CHR '' '')) xs))) = length xs" for xs :: "nat list"
    by (induction xs) auto
  ultimately show "chunk_len \<le> bpl \<Longrightarrow> ?thesis" by (simp add: ascii_pane_def)
qed

lemma hexdump_line_text:
  assumes "hd_show_address h" and "\<not> hd_uppercase h" and "chunk_len \<le> bpl" and "length bytes \<le> chunk_len"
  shows "\<exists>ch. hexdump_line h bpl chunk_len addr bytes = Some ch \<and> length (concat ch) = line_width bpl (hd_show_ascii h)
     \<and> (\<forall>i < length bytes. octet_at (concat ch) (18 + octet_col bpl i) = unat (bytes ! i))"
proof -
  obtain a where a: "format_unsigned hex addr False 16 = Some a" "length (concat a) = 16" using address_text by blast
  obtain b where b: "emit_each (hex_octet False bpl chunk_len bytes) [0 ..< bpl] = Some b" "length (concat b) = octet_col bpl bpl"
    "\<forall>i < bpl. i < length bytes \<longrightarrow> octet_at (concat b) (octet_col bpl i) = unat (bytes ! i)"
    using octets_text [of bpl bpl chunk_len bytes] by auto
  let ?pre = "concat a @ '': ''"
  have "octet_at (?pre @ concat b @ rest) (18 + octet_col bpl i) = unat (bytes ! i)" if "i < length bytes" for i rest
  proof -
    have "octet_col bpl i + 1 < length (concat b)" using that assms(3, 4) b(2) by (auto simp: octet_col_def)
    then show ?thesis
      using octet_at_append [of ?pre "concat b @ rest" "octet_col bpl i"] a(2) b(3) that assms(3, 4) by (simp add: octet_at_prefix)
  qed
  then show ?thesis
    using a b assms ascii_pane_length [OF assms(3)] by (auto simp: hexdump_line_def line_width_def)
qed

lemma read_line_direct:
  assumes "hd_reader_fn h = None" and "offset < length (hd_direct_data h)" and "offset + n \<le> length (hd_direct_data h)"
  shows "read_line h offset n s = (take n (drop offset (hd_direct_data h)), s)"
  using assms by (auto simp: read_line_def min_absorb1)

lemma hexdump_loop_step:
  assumes "offset < hd_total_len h" and "0 < bpl" and "read_line h offset (min bpl (hd_total_len h - offset)) s = (bytes, s)"
  shows "hexdump_loop h bpl offset s =
     (case hexdump_loop h bpl (offset + min bpl (hd_total_len h - offset)) s of
        (rest, s') \<Rightarrow>
          (seq_chunks (hexdump_line h bpl (min bpl (hd_total_len h - offset)) (hd_base_addr h + of_nat offset) bytes) rest, s'))"
  using assms by (subst hexdump_loop.simps) (simp add: Let_def)

lemma hexdump_loop_text:
  assumes h: "hd_reader_fn h = None" "hd_show_address h" "\<not> hd_uppercase h" "hd_total_len h = length (hd_direct_data h)"
    and "0 < bpl"
  shows "offset \<le> length (hd_direct_data h) \<Longrightarrow>
    \<exists>ch. fst (hexdump_loop h bpl offset s) = Some ch
     \<and> (\<forall>k < length (hd_direct_data h) - offset.
          (k div bpl) * line_width bpl (hd_show_ascii h) + line_width bpl (hd_show_ascii h) \<le> length (concat ch)
          \<and> octet_at (concat ch) ((k div bpl) * line_width bpl (hd_show_ascii h) + 18 + octet_col bpl (k mod bpl))
              = unat (hd_direct_data h ! (offset + k)))"
proof (induction "length (hd_direct_data h) - offset" arbitrary: offset rule: less_induct)
  case less
  let ?d = "hd_direct_data h" and ?W = "line_width bpl (hd_show_ascii h)"
  show ?case
  proof (cases "offset < length ?d")
    case True
    define n where "n = min bpl (length ?d - offset)"
    have n: "0 < n" "n \<le> bpl" "offset + n \<le> length ?d" using True \<open>0 < bpl\<close> by (auto simp: n_def)
    let ?bytes = "take n (drop offset ?d)"
    have len: "length ?bytes = n" using n by simp
    obtain a where a: "hexdump_line h bpl n (hd_base_addr h + of_nat offset) ?bytes = Some a" "length (concat a) = ?W"
      "\<forall>i < n. octet_at (concat a) (18 + octet_col bpl i) = unat (?bytes ! i)"
      using hexdump_line_text [OF h(2, 3) n(2), of ?bytes, unfolded len] by blast
    have "length ?d - (offset + n) < length ?d - offset" using n by simp
    from less.hyps [OF this n(3)] obtain b where b: "fst (hexdump_loop h bpl (offset + n) s) = Some b"
      and rest: "\<And>k. k < length ?d - (offset + n) \<Longrightarrow> (k div bpl) * ?W + ?W \<le> length (concat b)
          \<and> octet_at (concat b) ((k div bpl) * ?W + 18 + octet_col bpl (k mod bpl)) = unat (?d ! (offset + n + k))"
      by blast
    have loop: "fst (hexdump_loop h bpl offset s) = Some (a @ b)"
      using hexdump_loop_step [of offset h bpl s ?bytes] True \<open>0 < bpl\<close> h n a(1) b read_line_direct [OF h(1) True n(3)]
      by (auto simp flip: n_def split: prod.splits)
    have "(k div bpl) * ?W + ?W \<le> length (concat (a @ b))
          \<and> octet_at (concat (a @ b)) ((k div bpl) * ?W + 18 + octet_col bpl (k mod bpl)) = unat (?d ! (offset + k))"
      if k: "k < length ?d - offset" for k
    proof (cases "k < n")
      case True
      then have kb: "k div bpl = 0" "k mod bpl = k" using n(2) by auto
      have "18 + octet_col bpl k + 1 < ?W" using True n(2) by (auto simp: line_width_def octet_col_def)
      then show ?thesis using True a n kb by (simp add: octet_at_prefix)
    next
      case False
      then have full: "n = bpl" using k by (auto simp: n_def)
      have "k div bpl = Suc ((k - bpl) div bpl)" "k mod bpl = (k - bpl) mod bpl"
        using False full \<open>0 < bpl\<close> by (simp_all add: le_div_geq le_mod_geq)
      moreover have "k - bpl < length ?d - (offset + n)" using k False full by simp
      ultimately show ?thesis
        using rest [of "k - bpl"] a(2) full False 
          octet_at_append [of "concat a" "concat b" "((k - bpl) div bpl) * ?W + 18 + octet_col bpl ((k - bpl) mod bpl)"]
        by (simp add: add.assoc add.commute add.left_commute)
    qed
    then show ?thesis using loop by blast
  next
    case False
    then show ?thesis using h(4) by (subst hexdump_loop.simps) simp
  qed
qed

text \<open>C32: A hex dump can be read back: whatever the width of a line and whether or not the text pane is shown, the two
  digits at the place of each byte are that byte.\<close>

theorem hexdump_roundtrip:
  assumes "0 < line_buffer"
  shows "\<exists>ch. fst (format_hexdump (hexdump data base_addr bytes_per_line show_ascii) line_buffer (s :: 's)) = Some ch
     \<and> undump (line_bytes (hexdump data base_addr bytes_per_line show_ascii :: 's hexdump_view) line_buffer) show_ascii (length data)
         (concat ch) = data"
proof -
  let ?h = "hexdump data base_addr bytes_per_line show_ascii :: 's hexdump_view"
  let ?bpl = "line_bytes ?h line_buffer"
  have bpl: "0 < ?bpl" using line_bytes_pos assms by blast
  obtain ch where ch: "fst (hexdump_loop ?h ?bpl 0 s) = Some ch"
    "\<forall>k < length data. octet_at (concat ch) ((k div ?bpl) * line_width ?bpl show_ascii + 18 + octet_col ?bpl (k mod ?bpl)) = unat (data ! k)"
    using hexdump_loop_text [of ?h ?bpl 0 s] bpl by (auto simp: hexdump_def)
  have "undump ?bpl show_ascii (length data) (concat ch) = data"
    using ch(2) by (intro nth_equalityI) (simp_all add: undump_def)
  then show ?thesis
    using ch(1) assms by (cases "data = []") (auto simp: format_hexdump_def hexdump_def undump_def)
qed

theorem hexdump_roundtrip_witness:
  "\<exists>ch. fst (format_hexdump (hexdump [0x41, 0xFF, 0] 0x20 2 True) 16 ()) = Some ch
     \<and> undump (line_bytes (hexdump [0x41, 0xFF, 0] 0x20 2 True :: unit hexdump_view) 16) True 3 (concat ch) = [0x41, 0xFF, 0]"
  using hexdump_roundtrip [of 16 "[0x41, 0xFF, 0]" "0x20" 2 True "()"] by (simp add: numeral_3_eq_3)

theorem remote_diff_equals_local_witness:
  "format_remote_memory_diff \<lparr>rd_old_space = flat_memory 0x10 [1, 2, 3], rd_old_address = 0x10,
       rd_new_space = flat_memory 0x20 [1, 2, 4], rd_new_address = 0x20, rd_size = 3, rd_scratch = 4, rd_bytes_per_row = 2\<rparr> =
     format_memory_diff \<lparr>df_old_data = [1, 2, 3], df_new_data = [1, 2, 4], df_base_address = 0x20, df_bytes_per_row = 2\<rparr>"
  using remote_diff_equals_local [of "\<lparr>rd_old_space = flat_memory 0x10 [1, 2, 3], rd_old_address = 0x10,
       rd_new_space = flat_memory 0x20 [1, 2, 4], rd_new_address = 0x20, rd_size = 3, rd_scratch = 4, rd_bytes_per_row = 2\<rparr>"
      "[1, 2, 3]" "[1, 2, 4]"]
    flat_memory_holds [of "0x10" "[1, 2, 3]"] flat_memory_holds [of "0x20" "[1, 2, 4]"]
  by (simp add: row_size_def)

end
