(* ===== verification/Logging.thy ===== *)
theory Logging
  imports Format_Engine "HOL-Library.Sublist"
begin

text \<open>
  The logger: levels and records (\<^verbatim>\<open>log/log_msg.hpp\<close>, \<^verbatim>\<open>log/extended_msg.hpp\<close>), type-erased sinks with a threshold and the
  console sink (\<^verbatim>\<open>log/sink.hpp\<close>), the logger itself (\<^verbatim>\<open>log/logger.hpp\<close>, \<^verbatim>\<open>log/extended_logger.hpp\<close>), and the sink and the
  reader that keep framed records in a byte ring (\<^verbatim>\<open>sinks/ring_buffer_sink_protocol_sink.hpp\<close>). One thread at a time: the
  mutex is not modelled. The clock and the source location are parameters of a call. The byte ring is the container
  \<^verbatim>\<open>unowned_ring_base<char>\<close> of another library: its operations are a parameter, with the contract \<open>ring_contract\<close>.
\<close>

section \<open>Levels and records\<close>

datatype level = Lv_trace | Lv_debug | Lv_info | Lv_warn | Lv_err | Lv_critical | Lv_off

fun level_num :: "level \<Rightarrow> nat" where
  "level_num Lv_trace = 0"
| "level_num Lv_debug = 1"
| "level_num Lv_info = 2"
| "level_num Lv_warn = 3"
| "level_num Lv_err = 4"
| "level_num Lv_critical = 5"
| "level_num Lv_off = 6"

lemma level_num_inject [simp]: "level_num a = level_num b \<longleftrightarrow> a = b"
  by (cases a; cases b) simp_all

instantiation level :: linorder
begin

definition less_eq_level :: "level \<Rightarrow> level \<Rightarrow> bool" where
  "less_eq_level a b \<longleftrightarrow> level_num a \<le> level_num b"

definition less_level :: "level \<Rightarrow> level \<Rightarrow> bool" where
  "less_level a b \<longleftrightarrow> level_num a < level_num b"

instance
  by standard (auto simp: less_eq_level_def less_level_def)

end

fun to_string_view :: "level \<Rightarrow> string" where
  "to_string_view Lv_trace = ''trace''"
| "to_string_view Lv_debug = ''debug''"
| "to_string_view Lv_info = ''info''"
| "to_string_view Lv_warn = ''warn''"
| "to_string_view Lv_err = ''error''"
| "to_string_view Lv_critical = ''critical''"
| "to_string_view Lv_off = ''off''"

fun to_short_string :: "level \<Rightarrow> string" where
  "to_short_string Lv_trace = ''T''"
| "to_short_string Lv_debug = ''D''"
| "to_short_string Lv_info = ''I''"
| "to_short_string Lv_warn = ''W''"
| "to_short_string Lv_err = ''E''"
| "to_short_string Lv_critical = ''C''"
| "to_short_string Lv_off = ''O''"

record ('t, 'l) log_msg =
  lm_logger_name :: string
  lm_lvl :: level
  lm_time :: 't
  lm_payload :: string
  lm_loc :: 'l

record log_meta =
  mt_pid :: u32
  mt_tid :: u32
  mt_cpu :: u32
  mt_flags :: u32

definition log_meta_init :: log_meta where
  "log_meta_init = \<lparr>mt_pid = 0, mt_tid = 0, mt_cpu = 0xFFFFFFFF, mt_flags = 0\<rparr>"

definition meta_has :: "log_meta \<Rightarrow> u32 \<Rightarrow> bool" where
  "meta_has m f \<longleftrightarrow> and (mt_flags m) f \<noteq> 0"

definition meta_can_wait :: "log_meta \<Rightarrow> bool" where
  "meta_can_wait m = meta_has m 1"

definition meta_user_flags :: "log_meta \<Rightarrow> u32" where
  "meta_user_flags m = drop_bit 16 (mt_flags m)"

definition meta_set_user_flags :: "u32 \<Rightarrow> log_meta \<Rightarrow> log_meta" where
  "meta_set_user_flags user m = m\<lparr>mt_flags := or (and (mt_flags m) 0xFFFF) (push_bit 16 (and user 0xFFFF))\<rparr>"

definition meta_set :: "u32 \<Rightarrow> bool \<Rightarrow> log_meta \<Rightarrow> log_meta" where
  "meta_set f on m = m\<lparr>mt_flags := (if on then or (mt_flags m) f else and (mt_flags m) (not f))\<rparr>"

record ('t, 'l) extended_log_msg = "('t, 'l) log_msg" +
  em_meta :: log_meta

section \<open>Sinks\<close>

text \<open>A backend is a state with an operation for a record and an optional flush; an unbound sink has none.\<close>

record ('c, 'm) log_backend =
  be_log :: "'c \<Rightarrow> 'm \<Rightarrow> 'c"
  be_flush :: "('c \<Rightarrow> 'c) option"

record ('c, 'm) log_sink =
  sk_vtbl :: "('c, 'm) log_backend option"
  sk_ctx :: 'c
  sk_lvl :: level

definition sink_log :: "('c, ('t, 'l, 'x) log_msg_scheme) log_sink \<Rightarrow> ('t, 'l, 'x) log_msg_scheme
    \<Rightarrow> ('c, ('t, 'l, 'x) log_msg_scheme) log_sink" where
  "sink_log s msg =
     (case sk_vtbl s of
        None \<Rightarrow> s
      | Some vt \<Rightarrow> if sk_lvl s \<le> lm_lvl msg then s\<lparr>sk_ctx := be_log vt (sk_ctx s) msg\<rparr> else s)"

definition sink_can_flush :: "('c, 'm) log_sink \<Rightarrow> bool" where
  "sink_can_flush s \<longleftrightarrow> (case sk_vtbl s of None \<Rightarrow> False | Some vt \<Rightarrow> be_flush vt \<noteq> None)"

definition sink_flush :: "('c, 'm) log_sink \<Rightarrow> ('c, 'm) log_sink" where
  "sink_flush s =
     (case sk_vtbl s of
        None \<Rightarrow> s
      | Some vt \<Rightarrow> (case be_flush vt of None \<Rightarrow> s | Some f \<Rightarrow> s\<lparr>sk_ctx := f (sk_ctx s)\<rparr>))"

definition sink_set_level :: "level \<Rightarrow> ('c, 'm) log_sink \<Rightarrow> ('c, 'm) log_sink" where
  "sink_set_level l s = s\<lparr>sk_lvl := l\<rparr>"

definition sink_should_log :: "('c, 'm) log_sink \<Rightarrow> level \<Rightarrow> bool" where
  "sink_should_log s l \<longleftrightarrow> sk_lvl s \<le> l"

section \<open>The logger\<close>

record ('c, 'm) basic_logger =
  lg_name :: string
  lg_level :: level
  lg_sinks :: "('c, 'm) log_sink list"
  lg_max_sinks :: nat

definition add_sink :: "('c, 'm) log_sink \<Rightarrow> ('c, 'm) basic_logger \<Rightarrow> bool \<times> ('c, 'm) basic_logger" where
  "add_sink s lg =
     (if lg_max_sinks lg \<le> length (lg_sinks lg) then (False, lg) else (True, lg\<lparr>lg_sinks := lg_sinks lg @ [s]\<rparr>))"

definition set_level :: "level \<Rightarrow> ('c, 'm) basic_logger \<Rightarrow> ('c, 'm) basic_logger" where
  "set_level l lg = lg\<lparr>lg_level := l\<rparr>"

definition should_log :: "('c, 'm) basic_logger \<Rightarrow> level \<Rightarrow> bool" where
  "should_log lg l \<longleftrightarrow> lg_level lg \<le> l"

definition logger_flush :: "('c, 'm) basic_logger \<Rightarrow> ('c, 'm) basic_logger" where
  "logger_flush lg = lg\<lparr>lg_sinks := map sink_flush (lg_sinks lg)\<rparr>"

text \<open>The decorator turns a record into what the sinks receive.\<close>

definition dispatch ::
    "('m \<Rightarrow> ('t, 'l, 'x) log_msg_scheme) \<Rightarrow> ('c, ('t, 'l, 'x) log_msg_scheme) basic_logger \<Rightarrow> 'm
       \<Rightarrow> ('c, ('t, 'l, 'x) log_msg_scheme) basic_logger" where
  "dispatch decorator lg msg =
     (let decorated = decorator msg in lg\<lparr>lg_sinks := map (\<lambda>s. sink_log s decorated) (lg_sinks lg)\<rparr>)"

definition log_record ::
    "(('t, 'l) log_msg \<Rightarrow> ('t, 'l, 'x) log_msg_scheme) \<Rightarrow> ('c, ('t, 'l, 'x) log_msg_scheme) basic_logger
       \<Rightarrow> ('t, 'l) log_msg \<Rightarrow> ('c, ('t, 'l, 'x) log_msg_scheme) basic_logger" where
  "log_record decorator lg msg =
     (if \<not> should_log lg (lm_lvl msg) \<or> lg_sinks lg = [] then lg else dispatch decorator lg msg)"

definition log_impl ::
    "(('t, 'l) log_msg \<Rightarrow> ('t, 'l, 'x) log_msg_scheme) \<Rightarrow> nat \<Rightarrow> 'v format_fn \<Rightarrow> 't \<Rightarrow> 'l \<Rightarrow> level \<Rightarrow> string \<Rightarrow> 'v list
       \<Rightarrow> ('c, ('t, 'l, 'x) log_msg_scheme) basic_logger \<Rightarrow> ('c, ('t, 'l, 'x) log_msg_scheme) basic_logger option" where
  "log_impl decorator capacity thunk now loc lvl fmt_str args lg =
     (if \<not> should_log lg lvl \<or> lg_sinks lg = [] then Some lg
      else Option.bind (format_to thunk fmt_str args) (\<lambda>ch.
             map_option (\<lambda>buf. dispatch decorator lg
                 \<lparr>lm_logger_name = lg_name lg, lm_lvl = lvl, lm_time = now, lm_payload = buffer_sink_view buf, lm_loc = loc\<rparr>)
               (run_sink buffer_sink_write (buffer_sink_init capacity) ch)))"

text \<open>The two decorators: none, and metadata from a callback of the user.\<close>

definition identity_decorator :: "('t, 'l) log_msg \<Rightarrow> ('t, 'l) log_msg" where
  "identity_decorator msg = msg"

definition meta_decorator ::
    "(('t, 'l) log_msg \<Rightarrow> log_meta) option \<Rightarrow> ('t, 'l) log_msg \<Rightarrow> ('t, 'l) extended_log_msg" where
  "meta_decorator cb msg =
     log_msg.extend msg \<lparr>em_meta = (case cb of Some f \<Rightarrow> f msg | None \<Rightarrow> log_meta_init)\<rparr>"

definition extended_log ::
    "('t, 'l) extended_log_msg \<Rightarrow> ('c, ('t, 'l) extended_log_msg) basic_logger \<Rightarrow> ('c, ('t, 'l) extended_log_msg) basic_logger" where
  "extended_log msg lg = (if should_log lg (lm_lvl msg) then dispatch id lg msg else lg)"

text \<open>The logger of the process: a configured one, or the built-in one if there is any.\<close>

definition default_logger :: "'g option \<Rightarrow> 'g option \<Rightarrow> 'g option" where
  "default_logger configured built_in = (case configured of Some g \<Rightarrow> Some g | None \<Rightarrow> built_in)"

section \<open>What a logger delivers\<close>

lemma buffered_text:
  "\<exists>buf. run_sink buffer_sink_write (buffer_sink_init n) ch = Some buf \<and> buffer_sink_view buf = take n (concat ch)"
  using buffer.run_sink_view [OF buffer_sink_init_ok, of n ch] by (auto simp: buffer_sink_init_def buffer_sink_view_def)

text \<open>A call of the logger changes exactly the sinks whose threshold and the logger's are at or below the level of the
  call; each of them receives one record, with the name of the logger and the formatted text, cut at the capacity
  of the message buffer.\<close>

theorem logger_delivers:
  assumes "format_to thunk fmt_str args = Some ch"
  shows "\<exists>lg'. log_impl decorator capacity thunk now loc lvl fmt_str args lg = Some lg'
    \<and> length (lg_sinks lg') = length (lg_sinks lg)
    \<and> (\<forall>i < length (lg_sinks lg). lg_sinks lg' ! i =
         (if lg_level lg \<le> lvl
          then sink_log (lg_sinks lg ! i)
                 (decorator \<lparr>lm_logger_name = lg_name lg, lm_lvl = lvl, lm_time = now, lm_payload = take capacity (concat ch), lm_loc = loc\<rparr>)
          else lg_sinks lg ! i))"
proof -
  obtain buf where "run_sink buffer_sink_write (buffer_sink_init capacity) ch = Some buf" "buffer_sink_view buf = take capacity (concat ch)"
    using buffered_text by blast
  then show ?thesis using assms by (auto simp: log_impl_def should_log_def dispatch_def Let_def)
qed

text \<open>A sink that keeps the texts it receives; of two sinks the second one only takes errors.\<close>

definition keep_sink :: "level \<Rightarrow> (string list, (unit, unit) log_msg) log_sink" where
  "keep_sink lvl = \<lparr>sk_vtbl = Some \<lparr>be_log = (\<lambda>texts m. texts @ [lm_payload m]), be_flush = None\<rparr>, sk_ctx = [], sk_lvl = lvl\<rparr>"

theorem logger_delivers_witness:
  "\<exists>lg'. log_impl identity_decorator 2 format_type_thunk () () Lv_info ''abc'' []
       \<lparr>lg_name = ''n'', lg_level = Lv_debug, lg_sinks = [keep_sink Lv_trace, keep_sink Lv_err], lg_max_sinks = 4\<rparr> = Some lg'
     \<and> sk_ctx (lg_sinks lg' ! 0) = [''ab''] \<and> sk_ctx (lg_sinks lg' ! 1) = []"
proof -
  let ?lg = "\<lparr>lg_name = ''n'', lg_level = Lv_debug, lg_sinks = [keep_sink Lv_trace, keep_sink Lv_err], lg_max_sinks = 4\<rparr>"
  have f: "format_to format_type_thunk ''abc'' [] = Some [''a'', ''b'', ''c'']"
    by (simp add: format_to_def vformat_to_def vformat_loop.simps)
  show ?thesis
    using logger_delivers [OF f, of identity_decorator 2 "()" "()" Lv_info ?lg]
    by (auto simp: All_less_Suc2 sink_log_def keep_sink_def identity_decorator_def less_eq_level_def)
qed

section \<open>The console sink\<close>

record ansi_style =
  st_fg :: u8
  st_bg :: u8
  st_attr :: u8

definition style_codes :: "ansi_style \<Rightarrow> u8 list" where
  "style_codes s =
     (if and (st_attr s) 1 \<noteq> 0 then [1] else []) @ (if and (st_attr s) 2 \<noteq> 0 then [2] else [])
     @ (if and (st_attr s) 4 \<noteq> 0 then [3] else []) @ (if and (st_attr s) 8 \<noteq> 0 then [4] else [])
     @ (if and (st_attr s) 16 \<noteq> 0 then [5] else []) @ (if and (st_attr s) 32 \<noteq> 0 then [7] else [])
     @ (if st_fg s \<noteq> 0 then [st_fg s] else []) @ (if st_bg s \<noteq> 0 then [st_bg s + 10] else [])"

fun emit_codes :: "bool \<Rightarrow> u8 list \<Rightarrow> chunks option" where
  "emit_codes first [] = Some []"
| "emit_codes first (c # cs) =
     seq_chunks (if first then Some [] else Some (put (CHR '';'')))
       (seq_chunks (format_unsigned decimal (ucast c) False 0) (emit_codes False cs))"

definition emit_style :: "bool \<Rightarrow> ansi_style \<Rightarrow> chunks option" where
  "emit_style colors_enabled s =
     (if \<not> colors_enabled then Some []
      else if st_fg s = 0 \<and> st_bg s = 0 \<and> st_attr s = 0 then Some (out_write (CHR 0x1B # ''[0m''))
      else seq_chunks (Some (out_write (CHR 0x1B # ''['')))
             (seq_chunks (emit_codes True (style_codes s)) (Some (put (CHR ''m'')))))"

definition emit_reset :: "bool \<Rightarrow> chunks" where
  "emit_reset colors_enabled = (if colors_enabled then out_write (CHR 0x1B # ''[0m'') else [])"

definition styled_text :: "bool \<Rightarrow> ansi_style \<Rightarrow> string \<Rightarrow> chunks option" where
  "styled_text colors_enabled st value' =
     seq_chunks (emit_style colors_enabled st)
       (seq_chunks (format_string_view [] value') (Some (emit_reset colors_enabled)))"

fun level_style :: "level \<Rightarrow> (ansi_style \<times> string) option" where
  "level_style Lv_trace = Some (\<lparr>st_fg = 90, st_bg = 0, st_attr = 0\<rparr>, ''TRACE'')"
| "level_style Lv_debug = Some (\<lparr>st_fg = 36, st_bg = 0, st_attr = 0\<rparr>, ''DEBUG'')"
| "level_style Lv_info = Some (\<lparr>st_fg = 32, st_bg = 0, st_attr = 0\<rparr>, ''INFO '')"
| "level_style Lv_warn = Some (\<lparr>st_fg = 33, st_bg = 0, st_attr = 0\<rparr>, ''WARN '')"
| "level_style Lv_err = Some (\<lparr>st_fg = 31, st_bg = 0, st_attr = 0\<rparr>, ''ERROR'')"
| "level_style Lv_critical = Some (\<lparr>st_fg = 97, st_bg = 31, st_attr = 1\<rparr>, ''CRIT '')"
| "level_style Lv_off = None"

text \<open>The arguments of the format strings, already formatted; the text of the time is given.\<close>

definition format_parts :: "string \<Rightarrow> chunks option list \<Rightarrow> chunks option" where
  "format_parts fmt parts = format_to (\<lambda>part spec. part) fmt parts"

definition console_text :: "bool \<Rightarrow> chunks \<Rightarrow> ('t, 'l, 'x) log_msg_scheme \<Rightarrow> chunks option" where
  "console_text colors_enabled time_text msg =
     seq_chunks (format_parts ''[{}] '' [Some time_text])
       (seq_chunks (if lm_logger_name msg \<noteq> [] then format_parts ''[{}] '' [format_string_view [] (lm_logger_name msg)] else Some [])
         (seq_chunks
           (case level_style (lm_lvl msg) of
              None \<Rightarrow> Some []
            | Some (st, label) \<Rightarrow> format_parts ''[{}] '' [styled_text colors_enabled st label])
           (format_parts (''{}'' @ [CHR 0x0A]) [format_string_view [] (lm_payload msg)])))"

definition console_log :: "nat \<Rightarrow> bool \<Rightarrow> chunks \<Rightarrow> ('t, 'l, 'x) log_msg_scheme \<Rightarrow> string option" where
  "console_log line_buf_cap colors_enabled time_text msg =
     Option.bind (console_text colors_enabled time_text msg)
       (\<lambda>ch. map_option buffer_sink_view (run_sink buffer_sink_write (buffer_sink_init line_buf_cap) ch))"

lemma empty_field [simp]: "field_select n [] = (n, n + 1)" "field_spec [] = []"
  by (simp_all add: field_select_def field_index_def field_spec_def parse_positional_index_def)

lemma format_parts_bracket: "format_parts ''[{}] '' [Some v] = Some ([''[''] @ v @ ['']'', '' ''])"
  by (simp add: format_parts_def format_to_def vformat_to_def vformat_loop.simps emit_field_def)

lemma format_parts_line: "format_parts (''{}'' @ [CHR 0x0A]) [Some v] = Some (v @ [[CHR 0x0A]])"
  by (simp add: format_parts_def format_to_def vformat_to_def vformat_loop.simps emit_field_def)

lemma string_view_plain [simp]: "format_string_view [] v = Some [v]"
  by (simp add: format_string_view_def consume_debug_flag_def fpc_init_def fpc_starts_with_def)

text \<open>A line of the console without colours.\<close>

lemma console_text_plain:
  assumes "lm_logger_name msg = []" and "lm_lvl msg = Lv_info"
  shows "\<exists>ch. console_text False [time_text] msg = Some ch
    \<and> concat ch = ''['' @ time_text @ ''] [INFO ] '' @ lm_payload msg @ [CHR 0x0A]"
  using assms
  by (simp add: console_text_def format_parts_bracket format_parts_line [simplified] styled_text_def emit_style_def emit_reset_def)

text \<open>A record whose text does not fit into the line buffer of the console loses its end of line: the next record
  continues on the same line. The logger's message buffer and the console's line buffer have the same capacity by
  default, so every message that fills the message buffer is affected.\<close>

theorem console_line_unterminated:
  "\<exists>line. console_log 256 False [''12:00:00.000''] \<lparr>lm_logger_name = [], lm_lvl = Lv_info, lm_time = (), lm_payload = replicate 256 (CHR ''x''), lm_loc = ()\<rparr>
      = Some line \<and> length line = 256 \<and> CHR 0x0A \<notin> set line"
proof -
  let ?m = "\<lparr>lm_logger_name = [], lm_lvl = Lv_info, lm_time = (), lm_payload = replicate 256 (CHR ''x''), lm_loc = ()\<rparr>"
  obtain ch where ch: "console_text False [''12:00:00.000''] ?m = Some ch"
    "concat ch = ''['' @ ''12:00:00.000'' @ ''] [INFO ] '' @ replicate 256 (CHR ''x'') @ [CHR 0x0A]"
    using console_text_plain [of ?m "''12:00:00.000''"] by auto
  obtain buf where "run_sink buffer_sink_write (buffer_sink_init 256) ch = Some buf" "buffer_sink_view buf = take 256 (concat ch)"
    using buffered_text by blast
  then show ?thesis using ch by (simp add: console_log_def)
qed

section \<open>Records in a byte ring\<close>

text \<open>The operations of the ring that the sink and the reader call.\<close>

record 'r byte_ring =
  br_size :: "'r \<Rightarrow> nat"
  br_capacity :: "'r \<Rightarrow> nat"
  br_peek :: "'r \<Rightarrow> nat \<Rightarrow> string option"
  br_read_slices :: "'r \<Rightarrow> nat \<Rightarrow> string \<times> string"
  br_consume :: "'r \<Rightarrow> nat \<Rightarrow> 'r"
  br_clear :: "'r \<Rightarrow> 'r"
  br_write_frame_evicting :: "'r \<Rightarrow> string \<Rightarrow> string list \<Rightarrow> (string \<Rightarrow> bool \<times> nat) \<Rightarrow> 'r"

text \<open>The header of four bytes: length of the payload, of the name, and the level.\<close>

definition header_bytes :: "nat \<Rightarrow> nat \<Rightarrow> nat \<Rightarrow> string" where
  "header_bytes payload_len name_len lvl = [chr (payload_len mod 256), chr (payload_len div 256 mod 256), chr (name_len mod 256), chr (lvl mod 256)]"

definition header_payload_len :: "string \<Rightarrow> nat" where
  "header_payload_len h = code (h ! 0) + 256 * code (h ! 1)"

definition header_name_len :: "string \<Rightarrow> nat" where
  "header_name_len h = code (h ! 2)"

definition header_lvl :: "string \<Rightarrow> nat" where
  "header_lvl h = code (h ! 3)"

definition frame_validator :: "string \<Rightarrow> bool \<times> nat" where
  "frame_validator h = (True, 4 + header_name_len h + header_payload_len h)"

definition ring_log_impl :: "'r byte_ring \<Rightarrow> ('t, 'l, 'x) log_msg_scheme \<Rightarrow> 'r \<Rightarrow> 'r" where
  "ring_log_impl ops msg r =
     (let name_len = min (length (lm_logger_name msg)) 64;
          payload_len = min (length (lm_payload msg)) 65535;
          hdr = header_bytes payload_len name_len (level_num (lm_lvl msg));
          spans = [take name_len (lm_logger_name msg), take payload_len (lm_payload msg)]
      in br_write_frame_evicting ops r hdr spans frame_validator)"

text \<open>A record that has been read and not yet consumed; an exhausted one has no ring.\<close>

record log_record_tx =
  tx_active :: bool
  tx_lvl :: nat
  tx_logger_name :: "string \<times> string"
  tx_payload :: "string \<times> string"
  tx_total_bytes :: nat

definition slice_spans :: "string \<Rightarrow> string \<Rightarrow> nat \<Rightarrow> nat \<Rightarrow> string \<times> string" where
  "slice_spans p1 p2 offset len =
     (let p1_avail = (if offset < length p1 then length p1 - offset else 0);
          out1_len = min len p1_avail;
          out2_len = len - out1_len;
          s2_offset = (if length p1 < offset then offset - length p1 else 0)
      in (take out1_len (drop offset p1), take out2_len (drop s2_offset p2)))"

definition try_read :: "'r byte_ring \<Rightarrow> 'r \<Rightarrow> log_record_tx option \<times> 'r" where
  "try_read ops r =
     (if br_size ops r < 4 then (None, r)
      else case br_peek ops r 4 of
             None \<Rightarrow> (None, r)
           | Some hdr \<Rightarrow>
               (let total_bytes = 4 + header_name_len hdr + header_payload_len hdr in
                if br_capacity ops r < total_bytes \<or> 64 < header_name_len hdr then (None, br_clear ops r)
                else if br_size ops r < total_bytes then (None, r)
                else (case br_read_slices ops r total_bytes of
                        (p1, p2) \<Rightarrow>
                          (Some \<lparr>tx_active = True, tx_lvl = header_lvl hdr,
                                 tx_logger_name = slice_spans p1 p2 4 (header_name_len hdr),
                                 tx_payload = slice_spans p1 p2 (4 + header_name_len hdr) (header_payload_len hdr),
                                 tx_total_bytes = total_bytes\<rparr>, r))))"

definition tx_commit :: "'r byte_ring \<Rightarrow> log_record_tx \<Rightarrow> 'r \<Rightarrow> log_record_tx \<times> 'r" where
  "tx_commit ops tx r =
     (if tx_active tx then (tx\<lparr>tx_active := False\<rparr>, br_consume ops r (tx_total_bytes tx)) else (tx, r))"

definition tx_rollback :: "log_record_tx \<Rightarrow> log_record_tx" where
  "tx_rollback tx = tx\<lparr>tx_active := False\<rparr>"

definition split_text :: "string \<times> string \<Rightarrow> string" where
  "split_text v = fst v @ snd v"

text \<open>The formatter of a split text writes its parts that are not empty.\<close>

definition format_split :: "string \<times> string \<Rightarrow> chunks" where
  "format_split v = (if fst v \<noteq> [] then out_write (fst v) else []) @ (if snd v \<noteq> [] then out_write (snd v) else [])"

lemma format_split_text: "concat (format_split v) = split_text v"
  by (simp add: format_split_def split_text_def)

text \<open>A span cut out of two slices is cut out of their text.\<close>

lemma slice_spans_text: "split_text (slice_spans p1 p2 offset len) = take len (drop offset (p1 @ p2))"
proof (cases "offset < length p1")
  case True
  then show ?thesis by (auto simp: split_text_def slice_spans_def Let_def min_def)
next
  case False
  then show ?thesis by (auto simp: split_text_def slice_spans_def Let_def)
qed

section \<open>The queue of records\<close>

text \<open>A record as the ring keeps it, and its frame.\<close>

type_synonym ring_record = "nat \<times> string \<times> string"

definition kept :: "('t, 'l, 'x) log_msg_scheme \<Rightarrow> ring_record" where
  "kept msg = (level_num (lm_lvl msg), take 64 (lm_logger_name msg), take 65535 (lm_payload msg))"

fun frame_of :: "ring_record \<Rightarrow> string" where
  "frame_of (lvl, name, payload) = header_bytes (length payload) (length name) lvl @ name @ payload"

fun record_ok :: "ring_record \<Rightarrow> bool" where
  "record_ok (lvl, name, payload) \<longleftrightarrow> lvl < 256 \<and> length name \<le> 64 \<and> length payload \<le> 65535"

text \<open>The oldest frames are dropped until a new one fits.\<close>

function evict :: "(string \<Rightarrow> bool \<times> nat) \<Rightarrow> nat \<Rightarrow> string \<Rightarrow> string" where
  "evict validator room contents =
     (if length contents \<le> room then contents
      else case validator (take 4 contents) of
             (valid, n) \<Rightarrow> if valid \<and> 0 < n \<and> n \<le> length contents then evict validator room (drop n contents) else [])"
  by pat_completeness auto
termination by (relation "measure (\<lambda>(_, _, contents). length contents)") auto

declare evict.simps [simp del]

fun newest_fit :: "nat \<Rightarrow> ring_record list \<Rightarrow> ring_record list" where
  "newest_fit room [] = []"
| "newest_fit room (r # rs) = (if length (concat (map frame_of (r # rs))) \<le> room then r # rs else newest_fit room rs)"

text \<open>What the sink and the reader rely on: the ring is a queue of bytes with a capacity; an evicting write of a frame
  that fits into the ring drops the oldest frames, as measured by the validator, until it fits.\<close>

definition ring_contract :: "'r byte_ring \<Rightarrow> ('r \<Rightarrow> string) \<Rightarrow> bool" where
  "ring_contract ops contents \<longleftrightarrow>
     (\<forall>r. br_size ops r = length (contents r)
        \<and> (\<forall>n. n \<le> length (contents r) \<longrightarrow> br_peek ops r n = Some (take n (contents r)))
        \<and> (\<forall>n. n \<le> length (contents r) \<longrightarrow> fst (br_read_slices ops r n) @ snd (br_read_slices ops r n) = take n (contents r))
        \<and> (\<forall>n. n \<le> length (contents r) \<longrightarrow> contents (br_consume ops r n) = drop n (contents r) \<and> br_capacity ops (br_consume ops r n) = br_capacity ops r)
        \<and> (\<forall>h spans v. length (h @ concat spans) \<le> br_capacity ops r \<longrightarrow>
             contents (br_write_frame_evicting ops r h spans v) = evict v (br_capacity ops r - length (h @ concat spans)) (contents r) @ h @ concat spans
             \<and> br_capacity ops (br_write_frame_evicting ops r h spans v) = br_capacity ops r))"

lemma ring_contractD:
  assumes "ring_contract ops contents"
  shows "br_size ops r = length (contents r)"
    and "n \<le> length (contents r) \<Longrightarrow> br_peek ops r n = Some (take n (contents r))"
    and "n \<le> length (contents r) \<Longrightarrow> br_read_slices ops r n = (p1, p2) \<Longrightarrow> p1 @ p2 = take n (contents r)"
    and "n \<le> length (contents r) \<Longrightarrow> contents (br_consume ops r n) = drop n (contents r) \<and> br_capacity ops (br_consume ops r n) = br_capacity ops r"
  using assms unfolding ring_contract_def by fastforce+

abbreviation frames :: "ring_record list \<Rightarrow> string" where
  "frames rs \<equiv> concat (map frame_of rs)"

lemma kept_ok: "record_ok (kept msg)"
  by (cases "lm_lvl msg") (simp_all add: kept_def)

lemma header_of_frame:
  assumes "record_ok (lvl, name, payload)"
  shows "take 4 (frame_of (lvl, name, payload) @ rest) = header_bytes (length payload) (length name) lvl"
    and "header_name_len (header_bytes (length payload) (length name) lvl) = length name"
    and "header_payload_len (header_bytes (length payload) (length name) lvl) = length payload"
    and "header_lvl (header_bytes (length payload) (length name) lvl) = lvl"
proof -
  have "length payload < 256 * 256" using assms by simp
  then have "length payload div 256 mod 256 = length payload div 256" by (intro mod_less less_mult_imp_div_less)
  then show "header_payload_len (header_bytes (length payload) (length name) lvl) = length payload"
    by (simp add: header_bytes_def header_payload_len_def)
qed (use assms in \<open>simp_all add: header_bytes_def header_name_len_def header_lvl_def\<close>)

lemma frame_length: "length (frame_of (lvl, name, payload)) = 4 + length name + length payload"
  by (simp add: header_bytes_def)

lemma validator_frame:
  assumes "record_ok r"
  shows "frame_validator (take 4 (frame_of r @ rest)) = (True, length (frame_of r))"
proof -
  obtain lvl name payload where r: "r = (lvl, name, payload)" by (cases r)
  show ?thesis using header_of_frame [OF assms [unfolded r]] unfolding r frame_length by (simp add: frame_validator_def)
qed

lemma frame_pos: "0 < length (frame_of r)"
  by (cases r) (simp add: header_bytes_def)

lemma evict_frames: "\<forall>r \<in> set rs. record_ok r \<Longrightarrow> evict frame_validator room (frames rs) = frames (newest_fit room rs)"
proof (induction rs)
  case Nil
  show ?case by (subst evict.simps) simp
next
  case (Cons r rs)
  then show ?case
    using validator_frame [of r "frames rs"] frame_pos [of r] by (subst evict.simps) auto
qed

lemma newest_fit_length: "length (frames (newest_fit room rs)) \<le> room"
  by (induction rs) auto

lemma newest_fit_suffix: "suffix (newest_fit room rs) rs"
  by (induction rs) (auto simp: suffix_Cons)

lemma log_frame:
  "length (header_bytes (min (length (lm_payload m)) 65535) (min (length (lm_logger_name m)) 64) (level_num (lm_lvl m)) @
      concat [take (min (length (lm_logger_name m)) 64) (lm_logger_name m), take (min (length (lm_payload m)) 65535) (lm_payload m)])
     = length (frame_of (kept m))"
  "header_bytes (min (length (lm_payload m)) 65535) (min (length (lm_logger_name m)) 64) (level_num (lm_lvl m)) @
      concat [take (min (length (lm_logger_name m)) 64) (lm_logger_name m), take (min (length (lm_payload m)) 65535) (lm_payload m)]
     = frame_of (kept m)"
  by (simp_all add: kept_def header_bytes_def min_def)

lemma ring_log_frames:
  assumes "ring_contract ops contents" and "contents r = frames rs" and "\<forall>q \<in> set rs. record_ok q"
    and "length (frame_of (kept m)) \<le> br_capacity ops r"
  shows "contents (ring_log_impl ops m r) = frames (newest_fit (br_capacity ops r - length (frame_of (kept m))) rs @ [kept m])"
    and "br_capacity ops (ring_log_impl ops m r) = br_capacity ops r"
  using assms evict_frames [OF assms(3)] log_frame [of m]
  unfolding ring_contract_def ring_log_impl_def Let_def by simp_all

text \<open>Reading and committing takes the oldest record.\<close>

definition tx_record :: "log_record_tx \<Rightarrow> ring_record" where
  "tx_record tx = (tx_lvl tx, split_text (tx_logger_name tx), split_text (tx_payload tx))"

lemma read_frame:
  assumes "ring_contract ops contents" and "contents r = frames (q # rs)" and "record_ok q"
    and "length (contents r) \<le> br_capacity ops r"
  shows "\<exists>tx. try_read ops r = (Some tx, r) \<and> tx_active tx \<and> tx_record tx = q \<and> tx_total_bytes tx = length (frame_of q)"
proof -
  obtain lvl name payload where q: "q = (lvl, name, payload)" by (cases q)
  note ok = assms(3) [unfolded q]
  let ?hdr = "header_bytes (length payload) (length name) lvl" and ?n = "4 + length name + length payload"
  have c: "contents r = frame_of q @ frames rs" using assms(2) by simp
  have len: "?n \<le> length (contents r)" "length (frame_of q) = ?n" unfolding c q using frame_length by simp_all
  note k = ring_contractD [OF assms(1)]
  have peek: "br_peek ops r 4 = Some ?hdr" using k(2) [of 4 r] len header_of_frame(1) [OF ok, of "frames rs"] c q by simp
  obtain p1 p2 where sl: "br_read_slices ops r ?n = (p1, p2)" by fastforce
  then have "p1 @ p2 = take ?n (contents r)" using k(3) len(1) by blast
  then have p: "p1 @ p2 = frame_of q" using c len(2) by simp
  have "take (length name) (drop 4 (frame_of q)) = name" "take (length payload) (drop (4 + length name) (frame_of q)) = payload"
    unfolding q by (simp_all add: header_bytes_def drop_drop [symmetric] add.commute [of 4])
  then show ?thesis
    using peek sl k(1) [of r] len assms(4) ok header_of_frame(2-4) [OF ok] slice_spans_text [of p1 p2] p
    by (simp add: try_read_def Let_def tx_record_def q)
qed

fun drain :: "'r byte_ring \<Rightarrow> nat \<Rightarrow> 'r \<Rightarrow> ring_record list" where
  "drain ops 0 r = []"
| "drain ops (Suc n) r =
     (case try_read ops r of
        (None, r') \<Rightarrow> []
      | (Some tx, r') \<Rightarrow> tx_record tx # drain ops n (snd (tx_commit ops tx r')))"

lemma drain_frames:
  assumes "ring_contract ops contents"
  shows "\<forall>q \<in> set rs. record_ok q \<Longrightarrow> contents r = frames rs \<Longrightarrow> length (contents r) \<le> br_capacity ops r \<Longrightarrow> length rs \<le> n
    \<Longrightarrow> drain ops (Suc n) r = rs"
proof (induction rs arbitrary: r n)
  case Nil
  then have "br_size ops r = 0" using ring_contractD(1) [OF assms] by simp
  then show ?case by (simp add: try_read_def)
next
  case (Cons q rs)
  then obtain n' where n: "n = Suc n'" by (cases n) auto
  obtain tx where tx: "try_read ops r = (Some tx, r)" "tx_active tx" "tx_record tx = q" "tx_total_bytes tx = length (frame_of q)"
    using read_frame [OF assms Cons.prems(2)] Cons.prems by auto
  let ?r = "snd (tx_commit ops tx r)"
  have "length (frame_of q) \<le> length (contents r)" using Cons.prems(2) by simp
  then have "contents ?r = frames rs" "br_capacity ops ?r = br_capacity ops r"
    using ring_contractD(4) [OF assms, of "length (frame_of q)" r] tx(2, 4) Cons.prems(2) by (auto simp: tx_commit_def)
  then have "drain ops (Suc n') ?r = rs" using Cons.prems n by (intro Cons.IH) auto
  then show ?case unfolding n using tx by simp
qed

text \<open>The queue after a sequence of records.\<close>

definition retained :: "nat \<Rightarrow> ('t, 'l, 'x) log_msg_scheme list \<Rightarrow> ring_record list" where
  "retained capacity ms = fold (\<lambda>m q. newest_fit (capacity - length (frame_of (kept m))) q @ [kept m]) ms []"

lemma retained_snoc:
  "retained capacity (ms @ [m]) = newest_fit (capacity - length (frame_of (kept m))) (retained capacity ms) @ [kept m]"
  by (simp add: retained_def)

lemma retained_suffix: "suffix (retained capacity ms) (map kept ms)"
proof (induction ms rule: rev_induct)
  case (snoc m ms)
  then show ?case using newest_fit_suffix suffix_order.trans by (fastforce simp: retained_snoc)
qed (simp add: retained_def)

lemma retained_ok: "q \<in> set (retained capacity ms) \<Longrightarrow> record_ok q"
proof -
  assume "q \<in> set (retained capacity ms)"
  then have "q \<in> kept ` set ms" using set_mono_suffix [OF retained_suffix [of capacity ms]] by auto
  then show "record_ok q" by (elim imageE) (simp only: kept_ok)
qed

lemma logged_frames:
  assumes "ring_contract ops contents" and "contents r0 = []"
  shows "\<forall>m \<in> set ms. length (frame_of (kept m)) \<le> br_capacity ops r0 \<Longrightarrow>
     contents (fold (ring_log_impl ops) ms r0) = frames (retained (br_capacity ops r0) ms)
     \<and> br_capacity ops (fold (ring_log_impl ops) ms r0) = br_capacity ops r0
     \<and> length (frames (retained (br_capacity ops r0) ms)) \<le> br_capacity ops r0"
proof (induction ms rule: rev_induct)
  case (snoc m ms)
  let ?r = "fold (ring_log_impl ops) ms r0" and ?q = "retained (br_capacity ops r0) ms"
  have "\<forall>q \<in> set ?q. record_ok q" using retained_ok by blast
  then show ?case
    using snoc ring_log_frames [OF assms(1), of ?r ?q m]
      newest_fit_length [of "br_capacity ops r0 - length (frame_of (kept m))" ?q]
    by (auto simp: retained_snoc)
qed (simp add: assms(2) retained_def)

text \<open>C30: Records logged into the byte ring are read back whole and in order: the reader returns the newest records that
  the ring can hold, each with its level, its name cut to 64 and its payload cut to 65535 bytes, also when a
  record wraps around the end of the ring.\<close>

theorem ring_log_roundtrip:
  assumes "ring_contract ops contents" and "contents r0 = []"
    and "\<forall>m \<in> set ms. length (frame_of (kept m)) \<le> br_capacity ops r0"
  shows "drain ops (Suc (length ms)) (fold (ring_log_impl ops) ms r0) = retained (br_capacity ops r0) ms
    \<and> suffix (retained (br_capacity ops r0) ms) (map kept ms)"
proof -
  have s: "suffix (retained (br_capacity ops r0) ms) (map kept ms)" by (rule retained_suffix)
  have "\<forall>q \<in> set (retained (br_capacity ops r0) ms). record_ok q" using retained_ok by blast
  then show ?thesis
    using drain_frames [OF assms(1)] logged_frames [OF assms] s suffix_length_le [OF s] by simp
qed

text \<open>A ring that is a list, split in the middle when it is read.\<close>

definition list_ring :: "(nat \<times> string) byte_ring" where
  "list_ring =
     \<lparr>br_size = (\<lambda>r. length (snd r)), br_capacity = fst, br_peek = (\<lambda>r n. if n \<le> length (snd r) then Some (take n (snd r)) else None),
      br_read_slices = (\<lambda>r n. (take (min n 6) (snd r), drop (min n 6) (take n (snd r)))),
      br_consume = (\<lambda>r n. (fst r, drop n (snd r))), br_clear = (\<lambda>r. (fst r, [])),
      br_write_frame_evicting = (\<lambda>r h spans v.
        if length (h @ concat spans) \<le> fst r
        then (fst r, evict v (fst r - length (h @ concat spans)) (snd r) @ h @ concat spans) else r)\<rparr>"

lemma list_ring_contract: "ring_contract list_ring snd"
proof -
  have "take (min n 6) c @ drop (min n 6) (take n c) = take n c" for n and c :: string
    by (metis append_take_drop_id min.cobounded1 take_take min_def)
  then show ?thesis by (auto simp: ring_contract_def list_ring_def)
qed

abbreviation short_msg :: "string \<Rightarrow> (unit, unit) log_msg" where
  "short_msg p \<equiv> \<lparr>lm_logger_name = ''n'', lm_lvl = Lv_warn, lm_time = (), lm_payload = p, lm_loc = ()\<rparr>"

text \<open>Of three records the ring keeps the last two.\<close>

theorem ring_log_roundtrip_witness:
  "drain list_ring 4 (fold (ring_log_impl list_ring) [short_msg ''abc'', short_msg ''de'', short_msg ''f''] (16, []))
     = [(3, ''n'', ''de''), (3, ''n'', ''f'')]"
proof -
  have "retained 16 [short_msg ''abc'', short_msg ''de'', short_msg ''f''] = [(3, ''n'', ''de''), (3, ''n'', ''f'')]"
    by (simp add: retained_def kept_def header_bytes_def)
  moreover have "br_capacity list_ring (16, []) = 16" "Suc (length [short_msg ''abc'', short_msg ''de'', short_msg ''f'']) = 4"
    by (simp_all add: list_ring_def)
  ultimately show ?thesis
    using ring_log_roundtrip [OF list_ring_contract, of "(16, [])" "[short_msg ''abc'', short_msg ''de'', short_msg ''f'']"]
    by (simp only:) (simp add: kept_def header_bytes_def del: drain.simps)
qed

text \<open>A record that is evicted between reading and committing it takes other records with it: the commit consumes
  the length of the record that is already gone from the front of the ring, in the middle of the next record.\<close>

theorem commit_after_eviction:
  "let r1 = fold (ring_log_impl list_ring) [short_msg ''a'', short_msg ''bcde''] (16, []);
       tx = fst (try_read list_ring r1);
       r2 = ring_log_impl list_ring (short_msg ''f'') r1;
       r3 = snd (tx_commit list_ring (the tx) r2)
   in drain list_ring 3 r2 = [(3, ''n'', ''bcde''), (3, ''n'', ''f'')] \<and> drain list_ring 3 r3 = []"
proof -
  let ?ms = "[short_msg ''a'', short_msg ''bcde'']" and ?f = "short_msg ''f''"
  have k: "kept (short_msg p) = (3, ''n'', take 65535 p)" for p by (simp add: kept_def)
  have 1: "fold (ring_log_impl list_ring) ?ms (16, []) = (16, frames [(3, ''n'', ''a''), (3, ''n'', ''bcde'')])"
    using logged_frames [OF list_ring_contract, of "(16, [])" ?ms]
    by (auto simp: k retained_def header_bytes_def list_ring_def intro!: prod_eqI)
  obtain tx where tx: "try_read list_ring (16, frames [(3, ''n'', ''a''), (3, ''n'', ''bcde'')]) =
      (Some tx, (16, frames [(3, ''n'', ''a''), (3, ''n'', ''bcde'')]))" "tx_active tx" "tx_total_bytes tx = 6"
    using read_frame [OF list_ring_contract, of "(16, frames [(3, ''n'', ''a''), (3, ''n'', ''bcde'')])" "(3, ''n'', ''a'')" "[(3, ''n'', ''bcde'')]"]
    by (auto simp: header_bytes_def list_ring_def)
  have 2: "ring_log_impl list_ring ?f (16, frames [(3, ''n'', ''a''), (3, ''n'', ''bcde'')]) = (16, frames [(3, ''n'', ''bcde''), (3, ''n'', ''f'')])"
    using ring_log_frames [OF list_ring_contract, of "(16, frames [(3, ''n'', ''a''), (3, ''n'', ''bcde'')])" "[(3, ''n'', ''a''), (3, ''n'', ''bcde'')]" ?f]
    by (auto simp: k header_bytes_def list_ring_def intro!: prod_eqI)
  have three: "drain list_ring 3 r = drain list_ring (Suc 2) r" for r
    by (rule arg_cong [where f = "\<lambda>n. drain list_ring n r"]) simp
  have 3: "drain list_ring 3 (16, frames [(3, ''n'', ''bcde''), (3, ''n'', ''f'')]) = [(3, ''n'', ''bcde''), (3, ''n'', ''f'')]"
    unfolding three by (rule drain_frames [OF list_ring_contract]) (simp_all add: header_bytes_def list_ring_def)
  have 4: "snd (tx_commit list_ring tx (16, frames [(3, ''n'', ''bcde''), (3, ''n'', ''f'')])) = (16, ''cde'' @ frames [(3, ''n'', ''f'')])"
    using tx by (simp add: tx_commit_def list_ring_def header_bytes_def)
  have "fst (try_read list_ring (16, ''cde'' @ frames [(3, ''n'', ''f'')])) = None"
    by (simp add: try_read_def list_ring_def header_bytes_def header_name_len_def header_payload_len_def Let_def)
  then have 5: "drain list_ring 3 (16, ''cde'' @ frames [(3, ''n'', ''f'')]) = []"
    unfolding three drain.simps(2) by (auto split: prod.splits)
  show ?thesis unfolding Let_def 1 tx(1) fst_conv option.sel 2 4 using 3 5 by blast
qed

end
