(* ===== verification/Fanout_Log.thy ===== *)
theory Fanout_Log
  imports Logging
begin

text \<open>
  \<^verbatim>\<open>log/extended_sink.hpp\<close>: the sinks that can report that they are full, and the fan-out sink that many writers share. A
  writer that may wait takes a ticket of 32 bits under the lock of the wait channel, sleeps until its ticket is
  served, waits for space, writes to the sinks outside the lock and hands the turn on; a priority writer (an
  interrupt) writes at once. The steps of \<open>fanout_step\<close> are the sections of \<^verbatim>\<open>log_impl\<close> between two points where other
  writers can run: what happens under the channel lock is one step, each write to a sink is one step, as a sink has
  its own lock. The wait channel (\<^verbatim>\<open>log/sync.hpp\<close>) is modelled by the set of writers asleep on it: a writer whose predicate
  does not hold falls asleep; it looks again only after \<^verbatim>\<open>wake_all\<close>, after a spurious wake-up, or when its deadline
  passes, which it has only if the timeout is not \<^verbatim>\<open>wait_forever\<close>. Readers may change the state of any sink at any time
  and tell the channel by \<^verbatim>\<open>notify_space\<close>. Each record of a waiting writer has a number, its place in the order of
  arrival, which the code does not have: the theorems are about this order. \<^verbatim>\<open>null_wait_channel\<close>, which never
  sleeps, is for a single writer and not covered.
\<close>

section \<open>Sinks that can be full\<close>

record ('c, 'm) extended_backend =
  xb_log :: "'c \<Rightarrow> 'm \<Rightarrow> 'c"
  xb_full :: "('c \<Rightarrow> 'm \<Rightarrow> bool) option"
  xb_flush :: "('c \<Rightarrow> 'c) option"

record ('c, 'm) extended_log_sink =
  xs_vtbl :: "('c, 'm) extended_backend option"
  xs_ctx :: 'c
  xs_lvl :: level

type_synonym ('t, 'l, 'c) pin = "('c, ('t, 'l) extended_log_msg) extended_log_sink"

definition pin_log :: "('t, 'l, 'c) pin \<Rightarrow> ('t, 'l) extended_log_msg \<Rightarrow> ('t, 'l, 'c) pin" where
  "pin_log s msg =
     (case xs_vtbl s of
        None \<Rightarrow> s
      | Some vt \<Rightarrow> if xs_lvl s \<le> lm_lvl msg then s\<lparr>xs_ctx := xb_log vt (xs_ctx s) msg\<rparr> else s)"

definition pin_can_report_full :: "('t, 'l, 'c) pin \<Rightarrow> bool" where
  "pin_can_report_full s \<longleftrightarrow> (case xs_vtbl s of None \<Rightarrow> False | Some vt \<Rightarrow> xb_full vt \<noteq> None)"

definition pin_full :: "('t, 'l, 'c) pin \<Rightarrow> ('t, 'l) extended_log_msg \<Rightarrow> bool" where
  "pin_full s msg \<longleftrightarrow>
     (case xs_vtbl s of
        None \<Rightarrow> False
      | Some vt \<Rightarrow> (case xb_full vt of None \<Rightarrow> False | Some f \<Rightarrow> xs_lvl s \<le> lm_lvl msg \<and> f (xs_ctx s) msg))"

definition pin_flush :: "('t, 'l, 'c) pin \<Rightarrow> ('t, 'l, 'c) pin" where
  "pin_flush s =
     (case xs_vtbl s of
        None \<Rightarrow> s
      | Some vt \<Rightarrow> (case xb_flush vt of None \<Rightarrow> s | Some f \<Rightarrow> s\<lparr>xs_ctx := f (xs_ctx s)\<rparr>))"

section \<open>The fan-out\<close>

record ('t, 'l, 'c) fanout_log_sink =
  fo_sinks :: "('t, 'l, 'c) pin list"
  fo_max_sinks :: nat
  fo_next_ticket :: u32
  fo_serving :: u32
  fo_timeout_us :: u64
  fo_dropped :: nat

definition wait_forever :: u64 where
  "wait_forever = NOT 0"

definition fanout_init :: "nat \<Rightarrow> ('t, 'l, 'c) fanout_log_sink" where
  "fanout_init max_sinks = \<lparr>fo_sinks = [], fo_max_sinks = max_sinks, fo_next_ticket = 0, fo_serving = 0,
     fo_timeout_us = 0, fo_dropped = 0\<rparr>"

definition fanout_set_wait_timeout_us :: "u64 \<Rightarrow> ('t, 'l, 'c) fanout_log_sink \<Rightarrow> ('t, 'l, 'c) fanout_log_sink" where
  "fanout_set_wait_timeout_us us f = f\<lparr>fo_timeout_us := us\<rparr>"

definition fanout_add_sink :: "('t, 'l, 'c) pin \<Rightarrow> ('t, 'l, 'c) fanout_log_sink \<Rightarrow> bool \<times> ('t, 'l, 'c) fanout_log_sink" where
  "fanout_add_sink s f =
     (if fo_max_sinks f \<le> length (fo_sinks f) then (False, f) else (True, f\<lparr>fo_sinks := fo_sinks f @ [s]\<rparr>))"

definition any_full :: "('t, 'l, 'c) fanout_log_sink \<Rightarrow> ('t, 'l) extended_log_msg \<Rightarrow> bool" where
  "any_full f msg \<longleftrightarrow> list_ex (\<lambda>s. pin_full s msg) (fo_sinks f)"

definition fanout_flush :: "('t, 'l, 'c) fanout_log_sink \<Rightarrow> ('t, 'l, 'c) fanout_log_sink" where
  "fanout_flush f = f\<lparr>fo_sinks := map pin_flush (fo_sinks f)\<rparr>"

text \<open>One write of \<^verbatim>\<open>write_through\<close>.\<close>

definition write_pin :: "nat \<Rightarrow> ('t, 'l) extended_log_msg \<Rightarrow> ('t, 'l, 'c) fanout_log_sink \<Rightarrow> ('t, 'l, 'c) fanout_log_sink" where
  "write_pin i msg f = f\<lparr>fo_sinks := (fo_sinks f)[i := pin_log (fo_sinks f ! i) msg]\<rparr>"

section \<open>Writers\<close>

text \<open>Where a writer is in \<^verbatim>\<open>log_impl\<close>: with its ticket and its number, while it waits for space with the timeout it has
  loaded, and while it writes with the next sink and the number of sinks it has loaded.\<close>

datatype 'm writer =
    Idle
  | Waiting u32 nat 'm
  | Awaiting_space u32 nat 'm u64
  | Accepted u32 nat 'm
  | Writing u32 nat 'm nat nat
  | Discarding u32 nat
  | Finishing u32 nat
  | Priority 'm nat nat

record ('t, 'l, 'c) system =
  sy_sink :: "('t, 'l, 'c) fanout_log_sink"
  sy_writer :: "nat \<Rightarrow> ('t, 'l) extended_log_msg writer"
  sy_asleep :: "nat set"
  sy_arrived :: nat
  sy_served :: nat
  sy_writes :: "(nat \<times> nat) list"

abbreviation goto :: "nat \<Rightarrow> ('t, 'l) extended_log_msg writer \<Rightarrow> ('t, 'l, 'c) system \<Rightarrow> ('t, 'l, 'c) system" where
  "goto t w s \<equiv> s\<lparr>sy_writer := (sy_writer s)(t := w)\<rparr>"

abbreviation at_sink ::
    "(('t, 'l, 'c) fanout_log_sink \<Rightarrow> ('t, 'l, 'c) fanout_log_sink) \<Rightarrow> ('t, 'l, 'c) system \<Rightarrow> ('t, 'l, 'c) system" where
  "at_sink f s \<equiv> s\<lparr>sy_sink := f (sy_sink s)\<rparr>"

definition system_init :: "nat \<Rightarrow> ('t, 'l, 'c) system" where
  "system_init max_sinks =
     \<lparr>sy_sink = fanout_init max_sinks, sy_writer = (\<lambda>_. Idle), sy_asleep = {}, sy_arrived = 0, sy_served = 0, sy_writes = []\<rparr>"

text \<open>The channel: a writer falls asleep, is woken alone, and all are woken.\<close>

definition sleep :: "nat \<Rightarrow> ('t, 'l, 'c) system \<Rightarrow> ('t, 'l, 'c) system" where
  "sleep t s = s\<lparr>sy_asleep := insert t (sy_asleep s)\<rparr>"

definition wake :: "nat \<Rightarrow> ('t, 'l, 'c) system \<Rightarrow> ('t, 'l, 'c) system" where
  "wake t s = s\<lparr>sy_asleep := sy_asleep s - {t}\<rparr>"

definition wake_all :: "('t, 'l, 'c) system \<Rightarrow> ('t, 'l, 'c) system" where
  "wake_all s = s\<lparr>sy_asleep := {}\<rparr>"

text \<open>The steps of writer \<open>Some t\<close>, one of the threads \<open>T\<close>, and of the other parties, \<open>None\<close>.\<close>

inductive fanout_step :: "nat set \<Rightarrow> nat option \<Rightarrow> ('t, 'l, 'c) system \<Rightarrow> ('t, 'l, 'c) system \<Rightarrow> bool" for T where
  take_ticket:
    "\<lbrakk>t \<in> T; sy_writer s t = Idle; meta_can_wait (em_meta m)\<rbrakk>
     \<Longrightarrow> fanout_step T (Some t) s
          (goto t (Waiting (fo_next_ticket (sy_sink s)) (sy_arrived s) m)
            (at_sink (\<lambda>f. f\<lparr>fo_next_ticket := fo_next_ticket f + 1\<rparr>) (s\<lparr>sy_arrived := sy_arrived s + 1\<rparr>)))"
| turn_sleep:
    "\<lbrakk>sy_writer s t = Waiting tk k m; t \<notin> sy_asleep s; fo_serving (sy_sink s) \<noteq> tk\<rbrakk> \<Longrightarrow> fanout_step T (Some t) s (sleep t s)"
| turn_space:
    "\<lbrakk>sy_writer s t = Waiting tk k m; t \<notin> sy_asleep s; fo_serving (sy_sink s) = tk; \<not> any_full (sy_sink s) m\<rbrakk>
     \<Longrightarrow> fanout_step T (Some t) s (goto t (Accepted tk k m) s)"
| turn_full:
    "\<lbrakk>sy_writer s t = Waiting tk k m; t \<notin> sy_asleep s; fo_serving (sy_sink s) = tk; any_full (sy_sink s) m\<rbrakk>
     \<Longrightarrow> fanout_step T (Some t) s (goto t (Awaiting_space tk k m (fo_timeout_us (sy_sink s))) s)"
| space_sleep:
    "\<lbrakk>sy_writer s t = Awaiting_space tk k m us; t \<notin> sy_asleep s; any_full (sy_sink s) m\<rbrakk> \<Longrightarrow> fanout_step T (Some t) s (sleep t s)"
| space_freed:
    "\<lbrakk>sy_writer s t = Awaiting_space tk k m us; t \<notin> sy_asleep s; \<not> any_full (sy_sink s) m\<rbrakk>
     \<Longrightarrow> fanout_step T (Some t) s (goto t (Accepted tk k m) s)"
| deadline:
    "\<lbrakk>sy_writer s t = Awaiting_space tk k m us; us \<noteq> wait_forever\<rbrakk>
     \<Longrightarrow> fanout_step T (Some t) s (goto t (if any_full (sy_sink s) m then Discarding tk k else Accepted tk k m) (wake t s))"
| discard:
    "sy_writer s t = Discarding tk k
     \<Longrightarrow> fanout_step T (Some t) s (goto t (Finishing tk k) (at_sink (\<lambda>f. f\<lparr>fo_dropped := fo_dropped f + 1\<rparr>) s))"
| start_writing:
    "sy_writer s t = Accepted tk k m
     \<Longrightarrow> fanout_step T (Some t) s (goto t (Writing tk k m 0 (length (fo_sinks (sy_sink s)))) s)"
| write_one:
    "\<lbrakk>sy_writer s t = Writing tk k m i n; i < n\<rbrakk>
     \<Longrightarrow> fanout_step T (Some t) s
          (goto t (Writing tk k m (i + 1) n) (at_sink (write_pin i m) (s\<lparr>sy_writes := sy_writes s @ [(i, k)]\<rparr>)))"
| end_writing:
    "\<lbrakk>sy_writer s t = Writing tk k m i n; \<not> i < n\<rbrakk>
     \<Longrightarrow> fanout_step T (Some t) s (goto t (Finishing tk k) s)"
| hand_over:
    "sy_writer s t = Finishing tk k
     \<Longrightarrow> fanout_step T (Some t) s
          (wake_all (goto t Idle (at_sink (\<lambda>f. f\<lparr>fo_serving := fo_serving f + 1\<rparr>) (s\<lparr>sy_served := sy_served s + 1\<rparr>))))"
| priority_start:
    "\<lbrakk>t \<in> T; sy_writer s t = Idle; \<not> meta_can_wait (em_meta m)\<rbrakk>
     \<Longrightarrow> fanout_step T (Some t) s (goto t (Priority m 0 (length (fo_sinks (sy_sink s)))) s)"
| priority_write:
    "\<lbrakk>sy_writer s t = Priority m i n; i < n\<rbrakk>
     \<Longrightarrow> fanout_step T (Some t) s (goto t (Priority m (i + 1) n) (at_sink (write_pin i m) s))"
| priority_end:
    "\<lbrakk>sy_writer s t = Priority m i n; \<not> i < n\<rbrakk> \<Longrightarrow> fanout_step T (Some t) s (goto t Idle s)"
| add_pin:
    "fanout_step T None s (at_sink (\<lambda>f. snd (fanout_add_sink p f)) s)"
| reader:
    "\<lbrakk>i < length (fo_sinks (sy_sink s))\<rbrakk>
     \<Longrightarrow> fanout_step T None s (at_sink (\<lambda>f. f\<lparr>fo_sinks := (fo_sinks f)[i := (fo_sinks f ! i)\<lparr>xs_ctx := c\<rparr>]\<rparr>) s)"
| notify_space:
    "fanout_step T None s (wake_all s)"
| spurious_wake:
    "fanout_step T None s (wake t s)"
| set_timeout:
    "fanout_step T None s (at_sink (fanout_set_wait_timeout_us us) s)"

inductive fanout_reachable :: "nat set \<Rightarrow> ('t, 'l, 'c) system \<Rightarrow> bool" for T where
  init: "fanout_reachable T (system_init max_sinks)"
| step: "fanout_reachable T s \<Longrightarrow> fanout_step T actor s s' \<Longrightarrow> fanout_reachable T s'"

inductive_cases fanout_stepE: "fanout_step T actor s s'"

section \<open>The invariant of the tickets\<close>

fun number_of :: "'m writer \<Rightarrow> (u32 \<times> nat) option" where
  "number_of (Waiting tk k m) = Some (tk, k)"
| "number_of (Awaiting_space tk k m us) = Some (tk, k)"
| "number_of (Accepted tk k m) = Some (tk, k)"
| "number_of (Writing tk k m i n) = Some (tk, k)"
| "number_of (Discarding tk k) = Some (tk, k)"
| "number_of (Finishing tk k) = Some (tk, k)"
| "number_of Idle = None"
| "number_of (Priority m i n) = None"

text \<open>A writer whose turn it is.\<close>

fun has_turn :: "'m writer \<Rightarrow> bool" where
  "has_turn (Awaiting_space tk k m us) = True"
| "has_turn (Accepted tk k m) = True"
| "has_turn (Writing tk k m i n) = True"
| "has_turn (Discarding tk k) = True"
| "has_turn (Finishing tk k) = True"
| "has_turn _ = False"

definition tickets_ok :: "nat set \<Rightarrow> ('t, 'l, 'c) system \<Rightarrow> bool" where
  "tickets_ok T s \<longleftrightarrow>
     fo_next_ticket (sy_sink s) = of_nat (sy_arrived s) \<and> fo_serving (sy_sink s) = of_nat (sy_served s)
     \<and> sy_served s \<le> sy_arrived s
     \<and> (\<forall>t tk k. number_of (sy_writer s t) = Some (tk, k) \<longrightarrow>
          t \<in> T \<and> tk = of_nat k \<and> sy_served s \<le> k \<and> k < sy_arrived s \<and> (has_turn (sy_writer s t) \<longrightarrow> k = sy_served s))
     \<and> (\<forall>t t' tk tk' k. number_of (sy_writer s t) = Some (tk, k) \<longrightarrow> number_of (sy_writer s t') = Some (tk', k) \<longrightarrow> t = t')
     \<and> (\<forall>k. sy_served s \<le> k \<longrightarrow> k < sy_arrived s \<longrightarrow> (\<exists>t tk. number_of (sy_writer s t) = Some (tk, k)))"

lemmas channel_defs = sleep_def wake_def wake_all_def fanout_set_wait_timeout_us_def

lemma tickets_okD:
  assumes "tickets_ok T s"
  shows "fo_next_ticket (sy_sink s) = of_nat (sy_arrived s)" and "fo_serving (sy_sink s) = of_nat (sy_served s)"
    and "number_of (sy_writer s t) = Some (tk, k) \<Longrightarrow> t \<in> T"
    and "number_of (sy_writer s t) = Some (tk, k) \<Longrightarrow> tk = of_nat k \<and> sy_served s \<le> k \<and> k < sy_arrived s"
    and "number_of (sy_writer s t) = Some (tk, k) \<Longrightarrow> has_turn (sy_writer s t) \<Longrightarrow> k = sy_served s"
    and "number_of (sy_writer s t) = Some (tk, k) \<Longrightarrow> number_of (sy_writer s t') = Some (tk', k) \<Longrightarrow> t = t'"
    and "sy_served s \<le> k \<Longrightarrow> k < sy_arrived s \<Longrightarrow> \<exists>t tk. number_of (sy_writer s t) = Some (tk, k)"
  using assms unfolding tickets_ok_def by blast+

text \<open>There are no more numbers waiting than threads.\<close>

lemma waiting_bounded:
  assumes "tickets_ok T s" and "finite T"
  shows "sy_arrived s - sy_served s \<le> card T"
proof -
  let ?ks = "{sy_served s ..< sy_arrived s}"
  have "\<forall>k \<in> ?ks. \<exists>t. \<exists>tk. number_of (sy_writer s t) = Some (tk, k)" using tickets_okD(7) [OF assms(1)] by auto
  then obtain h where h: "\<And>k. k \<in> ?ks \<Longrightarrow> \<exists>tk. number_of (sy_writer s (h k)) = Some (tk, k)" by metis
  have "inj_on h ?ks"
  proof (rule inj_onI)
    fix k k' assume k: "k \<in> ?ks" "k' \<in> ?ks" "h k = h k'"
    obtain tk tk' where "number_of (sy_writer s (h k)) = Some (tk, k)" "number_of (sy_writer s (h k')) = Some (tk', k')"
      using h [OF k(1)] h [OF k(2)] by (elim exE) (rule that)
    then show "k = k'" by (metis k(3) option.inject prod.inject)
  qed
  moreover have "h ` ?ks \<subseteq> T"
  proof (rule image_subsetI)
    fix k assume "k \<in> ?ks"
    then obtain tk where "number_of (sy_writer s (h k)) = Some (tk, k)" using h [of k] by blast
    then show "h k \<in> T" by (rule tickets_okD(3) [OF assms(1)])
  qed
  ultimately have "card ?ks \<le> card T" using assms(2) by (intro card_inj_on_le)
  then show ?thesis by simp
qed

text \<open>So a ticket that is served belongs to the record that is next in the order of arrival, although tickets wrap
  around.\<close>

lemma served_is_next:
  assumes "tickets_ok T s" and "finite T" and "card T < 2 ^ 32"
    and "number_of (sy_writer s t) = Some (fo_serving (sy_sink s), k)"
  shows "k = sy_served s"
proof -
  have k: "of_nat (sy_served s) = (of_nat k :: u32)" "sy_served s \<le> k" "k < sy_arrived s"
    using tickets_okD(2, 4) [OF assms(1)] assms(4) by simp_all
  have "k - sy_served s < 2 ^ 32" using waiting_bounded [OF assms(1, 2)] assms(3) k by linarith
  moreover have "(of_nat (k - sy_served s) :: u32) = 0" using k by (simp add: of_nat_diff)
  then have "2 ^ 32 dvd k - sy_served s" by (simp add: word_of_nat_eq_0_iff)
  ultimately have "k - sy_served s = 0" using nat_dvd_not_less by blast
  then show ?thesis using k(2) by simp
qed

text \<open>A step of one writer that keeps its number.\<close>

lemma tickets_keep:
  assumes "tickets_ok T s" and "number_of w = number_of (sy_writer s t)"
    and "has_turn w \<Longrightarrow> has_turn (sy_writer s t) \<or> (\<forall>tk k. number_of w = Some (tk, k) \<longrightarrow> k = sy_served s)"
    and "sy_writer s' = (sy_writer s)(t := w)" and "sy_arrived s' = sy_arrived s" and "sy_served s' = sy_served s"
    and "fo_next_ticket (sy_sink s') = fo_next_ticket (sy_sink s)" and "fo_serving (sy_sink s') = fo_serving (sy_sink s)"
  shows "tickets_ok T s'"
proof -
  have n: "number_of (sy_writer s' u) = number_of (sy_writer s u)" for u using assms(2, 4) by simp
  have h: "has_turn (sy_writer s' u) \<Longrightarrow> number_of (sy_writer s u) = Some (tk, k) \<Longrightarrow> k = sy_served s" for u tk k
    using assms(2-4) tickets_okD(5) [OF assms(1), of u tk k] by (cases "u = t") auto
  show ?thesis
    unfolding tickets_ok_def n assms(5-8)
    using assms(1) [unfolded tickets_ok_def] h by blast
qed

lemma tickets_arrive:
  assumes "tickets_ok T s" and "t \<in> T" and "sy_writer s t = Idle"
    and "sy_writer s' = (sy_writer s)(t := Waiting (fo_next_ticket (sy_sink s)) (sy_arrived s) m)"
    and "sy_arrived s' = sy_arrived s + 1" and "sy_served s' = sy_served s"
    and "fo_next_ticket (sy_sink s') = fo_next_ticket (sy_sink s) + 1" and "fo_serving (sy_sink s') = fo_serving (sy_sink s)"
  shows "tickets_ok T s'"
proof -
  note d = tickets_okD [OF assms(1)]
  have le: "sy_served s \<le> sy_arrived s" using assms(1) by (simp add: tickets_ok_def)
  have n: "number_of (sy_writer s' u) = (if u = t then Some (of_nat (sy_arrived s), sy_arrived s) else number_of (sy_writer s u))" for u
    using assms(4) d(1) by simp
  have h: "has_turn (sy_writer s' u) \<longleftrightarrow> u \<noteq> t \<and> has_turn (sy_writer s u)" for u using assms(4) by simp
  have ex: "\<exists>u tk. number_of (sy_writer s' u) = Some (tk, k)" if k: "sy_served s \<le> k" "k < sy_arrived s + 1" for k
  proof (cases "k = sy_arrived s")
    case True
    then show ?thesis using n [of t] by auto
  next
    case False
    then obtain u tk where "number_of (sy_writer s u) = Some (tk, k)" using d(7) [of k] k by auto
    moreover have "u \<noteq> t" using calculation assms(3) by auto
    ultimately show ?thesis using n [of u] by auto
  qed
  show ?thesis
    unfolding tickets_ok_def assms(5-8)
  proof (intro conjI allI impI, goal_cases)
    case (4 u tk j) then show ?case using d(3) assms(2) by (auto simp: n split: if_splits)
  next
    case (5 u tk j) then show ?case using d(4) by (auto simp: n split: if_splits)
  next
    case (6 u tk j) then show ?case using d(4) le by (auto simp: n split: if_splits)
  next
    case (7 u tk j) then show ?case using d(4) [of u tk j] by (auto simp: n split: if_splits)
  next
    case (8 u tk j) then show ?case using d(5) by (auto simp: n h split: if_splits)
  next
    case (9 u v tk1 tk2 j)
    then show ?case using d(6) [of u tk1 j v tk2] d(4) [of u tk1 j] d(4) [of v tk2 j] by (auto simp: n split: if_splits)
  next
    case (10 j) then show ?case by (rule ex)
  qed (use d(1, 2) le in auto)
qed

lemma tickets_hand_over:
  assumes "tickets_ok T s" and "sy_writer s t = Finishing tk k"
    and "sy_writer s' = (sy_writer s)(t := Idle)" and "sy_arrived s' = sy_arrived s" and "sy_served s' = sy_served s + 1"
    and "fo_next_ticket (sy_sink s') = fo_next_ticket (sy_sink s)" and "fo_serving (sy_sink s') = fo_serving (sy_sink s) + 1"
  shows "tickets_ok T s'"
proof -
  note d = tickets_okD [OF assms(1)]
  have k: "k = sy_served s" "k < sy_arrived s" using d(4, 5) [of t tk k] assms(2) by simp_all
  have n: "number_of (sy_writer s' u) = (if u = t then None else number_of (sy_writer s u))" for u
    using assms(3) by simp
  have other: "j \<noteq> sy_served s" if "u \<noteq> t" "number_of (sy_writer s u) = Some (tk', j)" for u tk' j
    using d(6) [of u tk' j t] that assms(2) k(1) by auto
  show ?thesis
    unfolding tickets_ok_def assms(4-7)
  proof (intro conjI allI impI, goal_cases)
    case (4 u tk' j) then show ?case using d(3) by (auto simp: n split: if_splits)
  next
    case (5 u tk' j) then show ?case using d(4) by (auto simp: n split: if_splits)
  next
    case (6 u tk' j) then show ?case using d(4) [of u tk' j] other [of u tk' j] by (auto simp: n split: if_splits)
  next
    case (7 u tk' j) then show ?case using d(4) by (auto simp: n split: if_splits)
  next
    case (8 u tk' j)
    then show ?case using d(5) [of u tk' j] other [of u tk' j] assms(3) by (auto simp: n split: if_splits)
  next
    case (9 u v tk1 tk2 j) then show ?case using d(6) by (auto simp: n split: if_splits)
  next
    case (10 j)
    then obtain u tk' where u: "number_of (sy_writer s u) = Some (tk', j)" using d(7) [of j] by auto
    then have "u \<noteq> t" using 10 assms(2) k(1) by auto
    then show ?case using u by (auto simp: n)
  qed (use d(1, 2) k in auto)
qed

text \<open>A step of another party, which moves no writer.\<close>

lemma tickets_same:
  assumes "tickets_ok T s" and "sy_writer s' = sy_writer s" and "sy_arrived s' = sy_arrived s" and "sy_served s' = sy_served s"
    and "fo_next_ticket (sy_sink s') = fo_next_ticket (sy_sink s)" and "fo_serving (sy_sink s') = fo_serving (sy_sink s)"
  shows "tickets_ok T s'"
  using assms(1) unfolding tickets_ok_def assms(2-6) .

lemma tickets_step:
  assumes "fanout_step T actor s s'" and "tickets_ok T s" and "finite T" and "card T < 2 ^ 32"
  shows "tickets_ok T s'"
  using assms(1)
proof cases
  case (take_ticket t m) then show ?thesis by (intro tickets_arrive [OF assms(2)]) auto
next
  case (turn_space t tk k m)
  then show ?thesis using served_is_next [OF assms(2-4), of t k] by (intro tickets_keep [OF assms(2)]) auto
next
  case (turn_full t tk k m)
  then show ?thesis using served_is_next [OF assms(2-4), of t k] by (intro tickets_keep [OF assms(2)]) auto
next
  case (deadline t tk k m us)
  then show ?thesis
    by (intro tickets_keep [OF assms(2), of "if any_full (sy_sink s) m then Discarding tk k else Accepted tk k m" t])
       (auto simp: wake_def)
next
  case (hand_over t tk k) then show ?thesis by (intro tickets_hand_over [OF assms(2)]) (auto simp: wake_all_def)
next
  case (add_pin p) then show ?thesis by (intro tickets_same [OF assms(2)]) (auto simp: fanout_add_sink_def)
next
  case (reader i c) then show ?thesis by (intro tickets_same [OF assms(2)]) auto
next
  case (turn_sleep t tk k m) then show ?thesis by (intro tickets_same [OF assms(2)]) (auto simp: channel_defs)
next
  case (space_sleep t tk k m us) then show ?thesis by (intro tickets_same [OF assms(2)]) (auto simp: channel_defs)
next
  case notify_space then show ?thesis by (intro tickets_same [OF assms(2)]) (auto simp: channel_defs)
next
  case (spurious_wake t) then show ?thesis by (intro tickets_same [OF assms(2)]) (auto simp: channel_defs)
next
  case (set_timeout us) then show ?thesis by (intro tickets_same [OF assms(2)]) (auto simp: channel_defs)
qed (intro tickets_keep [OF assms(2)]; auto simp: write_pin_def)+

section \<open>The order of the writes\<close>

text \<open>The writes of the record whose turn it is, up to the place its writer has reached.\<close>

fun written_upto :: "'m writer \<Rightarrow> nat \<Rightarrow> bool" where
  "written_upto (Writing tk k m i n) p = (p < i)"
| "written_upto (Finishing tk k) p = True"
| "written_upto _ p = False"

definition writes_ok :: "('t, 'l, 'c) system \<Rightarrow> bool" where
  "writes_ok s \<longleftrightarrow>
     sorted (map snd (sy_writes s)) \<and> distinct (sy_writes s)
     \<and> (\<forall>p k. (p, k) \<in> set (sy_writes s) \<longrightarrow>
          k < sy_served s \<or> (\<exists>t tk. number_of (sy_writer s t) = Some (tk, k) \<and> k = sy_served s \<and> written_upto (sy_writer s t) p))"

lemma writes_okD:
  assumes "writes_ok s" and "(p, k) \<in> set (sy_writes s)"
  shows "k < sy_served s \<or> (\<exists>t tk. number_of (sy_writer s t) = Some (tk, k) \<and> k = sy_served s \<and> written_upto (sy_writer s t) p)"
  using assms unfolding writes_ok_def by blast

text \<open>A step of one writer that writes nothing and forgets nothing.\<close>

lemma writes_keep:
  assumes "writes_ok s"
    and "\<And>p tk. written_upto (sy_writer s t) p \<Longrightarrow> number_of (sy_writer s t) = Some (tk, sy_served s) \<Longrightarrow>
          written_upto w p \<and> number_of w = number_of (sy_writer s t)"
    and "sy_writer s' = (sy_writer s)(t := w)" and "sy_served s' = sy_served s" and "sy_writes s' = sy_writes s"
  shows "writes_ok s'"
proof -
  have "k < sy_served s \<or> (\<exists>u tk. number_of (sy_writer s' u) = Some (tk, k) \<and> k = sy_served s \<and> written_upto (sy_writer s' u) p)"
    if "(p, k) \<in> set (sy_writes s)" for p k
    using writes_okD [OF assms(1) that]
  proof (elim disjE exE conjE)
    fix u tk assume u: "number_of (sy_writer s u) = Some (tk, k)" "k = sy_served s" "written_upto (sy_writer s u) p"
    then have "number_of (sy_writer s' u) = Some (tk, k) \<and> written_upto (sy_writer s' u) p"
      using assms(2) [of p tk] assms(3) by (cases "u = t") auto
    then show ?thesis using u(2) by blast
  qed blast
  then show ?thesis using assms(1, 4, 5) by (simp add: writes_ok_def)
qed

lemma writes_one:
  assumes "tickets_ok T s" and "writes_ok s" and "sy_writer s t = Writing tk k m i n"
    and "sy_writer s' = (sy_writer s)(t := Writing tk k m (i + 1) n)" and "sy_served s' = sy_served s"
    and "sy_writes s' = sy_writes s @ [(i, k)]"
  shows "writes_ok s'"
proof -
  have k: "k = sy_served s" using tickets_okD(5) [OF assms(1), of t tk k] assms(3) by simp
  have holder: "u = t" if "number_of (sy_writer s u) = Some (tk', k)" for u tk'
    using tickets_okD(6) [OF assms(1), of u tk' k t tk] that assms(3) by simp
  have old: "k' \<le> k \<and> (k' = k \<longrightarrow> p < i)" if "(p, k') \<in> set (sy_writes s)" for p k'
    using writes_okD [OF assms(2) that]
  proof (elim disjE exE conjE)
    fix u tk' assume u: "number_of (sy_writer s u) = Some (tk', k')" "k' = sy_served s" "written_upto (sy_writer s u) p"
    then have "u = t" using holder k by simp
    then show ?thesis using u k assms(3) by simp
  qed (use k in simp)
  have "sorted (map snd (sy_writes s'))" "distinct (sy_writes s')"
    using assms(2, 6) old by (auto simp: writes_ok_def sorted_append)
  moreover have "k' < sy_served s \<or> (\<exists>u tk. number_of (sy_writer s' u) = Some (tk, k') \<and> k' = sy_served s \<and> written_upto (sy_writer s' u) p)"
    if "(p, k') \<in> set (sy_writes s')" for p k'
  proof (cases "k' = k")
    case True
    then have "p < i + 1" using that old [of p k] assms(6) by auto
    then show ?thesis using True k assms(4) by (intro disjI2 exI [of _ t] exI [of _ tk]) simp
  next
    case False
    then show ?thesis using that old [of p k'] assms(6) k by auto
  qed
  ultimately show ?thesis using assms(5) by (simp add: writes_ok_def)
qed

lemma writes_same:
  assumes "writes_ok s" and "sy_writer s' = sy_writer s" and "sy_served s' = sy_served s" and "sy_writes s' = sy_writes s"
  shows "writes_ok s'"
  using assms(1) unfolding writes_ok_def assms(2-4) .

lemma writes_step:
  assumes "fanout_step T actor s s'" and "tickets_ok T s" and "writes_ok s"
  shows "writes_ok s'"
  using assms(1)
proof cases
  case (write_one t tk k m i n)
  then show ?thesis by (intro writes_one [OF assms(2, 3)]) auto
next
  case (hand_over t tk k)
  have "k' \<le> sy_served s" if "(p, k') \<in> set (sy_writes s)" for p k' using writes_okD [OF assms(3) that] by auto
  then show ?thesis using hand_over assms(3) by (fastforce simp: writes_ok_def wake_all_def)
next
  case (deadline t tk k m us)
  then show ?thesis by (intro writes_keep [OF assms(3), of t]) (auto simp: wake_def)
next
  case (add_pin p) then show ?thesis by (intro writes_same [OF assms(3)]) auto
next
  case (reader i c) then show ?thesis by (intro writes_same [OF assms(3)]) auto
next
  case (turn_sleep t tk k m) then show ?thesis by (intro writes_same [OF assms(3)]) (auto simp: channel_defs)
next
  case (space_sleep t tk k m us) then show ?thesis by (intro writes_same [OF assms(3)]) (auto simp: channel_defs)
next
  case notify_space then show ?thesis by (intro writes_same [OF assms(3)]) (auto simp: channel_defs)
next
  case (spurious_wake t) then show ?thesis by (intro writes_same [OF assms(3)]) (auto simp: channel_defs)
next
  case (set_timeout us) then show ?thesis by (intro writes_same [OF assms(3)]) (auto simp: channel_defs)
qed (rule writes_keep [OF assms(3)]; auto)+

section \<open>No wake-up is lost\<close>

text \<open>Only waiting writers are asleep, and none of them while its ticket is served.\<close>

definition sleepers_ok :: "('t, 'l, 'c) system \<Rightarrow> bool" where
  "sleepers_ok s \<longleftrightarrow> (\<forall>t \<in> sy_asleep s.
     (case sy_writer s t of Waiting tk k m \<Rightarrow> tk \<noteq> fo_serving (sy_sink s) | Awaiting_space tk k m us \<Rightarrow> True | _ \<Rightarrow> False))"

lemma sleepers_step:
  assumes "fanout_step T actor s s'" and "sleepers_ok s"
  shows "sleepers_ok s'"
  using assms by cases (auto simp: sleepers_ok_def channel_defs write_pin_def fanout_add_sink_def split: writer.splits if_splits)

lemma reachable_ok:
  assumes "fanout_reachable T s" and "finite T" and "card T < 2 ^ 32"
  shows "tickets_ok T s \<and> writes_ok s \<and> sleepers_ok s"
  using assms(1)
proof induction
  case (init max_sinks)
  show ?case by (simp add: system_init_def fanout_init_def tickets_ok_def writes_ok_def sleepers_ok_def)
next
  case (step s actor s')
  then show ?case using tickets_step writes_step sleepers_step assms(2, 3) by blast
qed

text \<open>C6: Waiting writers have the sinks one at a time, and in the order in which they arrived: no two of them ever have
  the turn at once; all writes of a record precede those of every record that arrived later; and no sink gets a
  record twice. This holds for any number of threads below \<open>2 ^ 32\<close>, however often the tickets wrap around.\<close>

theorem fanout_writers_in_order:
  assumes "fanout_reachable T s" and "finite T" and "card T < 2 ^ 32"
  shows "(has_turn (sy_writer s t) \<longrightarrow> has_turn (sy_writer s t') \<longrightarrow> t = t')
    \<and> sorted (map snd (sy_writes s)) \<and> distinct (sy_writes s)"
proof -
  have ok: "tickets_ok T s" "writes_ok s" using reachable_ok [OF assms] by simp_all
  have "\<exists>tk. number_of (sy_writer s u) = Some (tk, sy_served s)" if "has_turn (sy_writer s u)" for u
    using tickets_okD(5) [OF ok(1), of u] that by (cases "sy_writer s u") auto
  then show ?thesis using tickets_okD(6) [OF ok(1)] ok(2) unfolding writes_ok_def by blast
qed

text \<open>Two writers have arrived; the first one has the turn, the second one sleeps.\<close>

definition sample_msg :: "(nat, nat) extended_log_msg" where
  "sample_msg = \<lparr>lm_logger_name = ''k'', lm_lvl = Lv_info, lm_time = 0, lm_payload = ''x'', lm_loc = 0,
     em_meta = \<lparr>mt_pid = 1, mt_tid = 1, mt_cpu = 0, mt_flags = 1\<rparr>\<rparr>"

definition two_writers :: "(nat, nat, nat) system" where
  "two_writers =
     \<lparr>sy_sink = (fanout_init 2)\<lparr>fo_next_ticket := 2\<rparr>,
      sy_writer = (\<lambda>_. Idle)(0 := Accepted 0 0 sample_msg, 1 := Waiting 1 1 sample_msg),
      sy_asleep = {1}, sy_arrived = 2, sy_served = 0, sy_writes = []\<rparr>"

lemma two_writers_reachable: "fanout_reachable {0, 1} two_writers"
proof -
  have m: "meta_can_wait (em_meta sample_msg)" by (simp add: meta_can_wait_def meta_has_def sample_msg_def)
  let ?s0 = "system_init 2 :: (nat, nat, nat) system"
  let ?s1 = "goto 0 (Waiting 0 0 sample_msg) (at_sink (\<lambda>f. f\<lparr>fo_next_ticket := 1\<rparr>) (?s0\<lparr>sy_arrived := 1\<rparr>))"
  let ?s2 = "goto 1 (Waiting 1 1 sample_msg) (at_sink (\<lambda>f. f\<lparr>fo_next_ticket := 2\<rparr>) (?s1\<lparr>sy_arrived := 2\<rparr>))"
  have "fanout_step {0, 1} (Some 0) ?s0 ?s1"
    using fanout_step.take_ticket [of 0 "{0, 1}" ?s0 sample_msg] m by (simp add: system_init_def fanout_init_def)
  then have 1: "fanout_reachable {0, 1} ?s1" by (rule fanout_reachable.step [OF fanout_reachable.init])
  have "fanout_step {0, 1} (Some 1) ?s1 ?s2"
    using fanout_step.take_ticket [of 1 "{0, 1}" ?s1 sample_msg] m by (simp add: system_init_def fanout_init_def numeral_2_eq_2)
  then have 2: "fanout_reachable {0, 1} ?s2" by (rule fanout_reachable.step [OF 1])
  have "fanout_step {0, 1} (Some 1) ?s2 (sleep 1 ?s2)"
    by (rule fanout_step.turn_sleep [of _ _ 1 1 sample_msg]) (simp_all add: system_init_def fanout_init_def)
  then have 3: "fanout_reachable {0, 1} (sleep 1 ?s2)" by (rule fanout_reachable.step [OF 2])
  have "fanout_step {0, 1} (Some 0) (sleep 1 ?s2) (goto 0 (Accepted 0 0 sample_msg) (sleep 1 ?s2))"
    by (rule fanout_step.turn_space) (simp_all add: system_init_def fanout_init_def any_full_def sleep_def)
  then have "fanout_reachable {0, 1} (goto 0 (Accepted 0 0 sample_msg) (sleep 1 ?s2))" by (rule fanout_reachable.step [OF 3])
  moreover have "goto 0 (Accepted 0 0 sample_msg) (sleep 1 ?s2) = two_writers"
    by (simp add: two_writers_def system_init_def fanout_init_def fun_eq_iff sleep_def)
  ultimately show ?thesis by simp
qed

theorem fanout_writers_in_order_witness:
  "has_turn (sy_writer two_writers 0) \<and> \<not> has_turn (sy_writer two_writers 1) \<and> sorted (map snd (sy_writes two_writers))"
  using fanout_writers_in_order [OF two_writers_reachable, of 0 1] by (simp add: two_writers_def)

section \<open>Progress\<close>

text \<open>The turn is handed on by steps of one writer alone.\<close>

definition hands_on :: "nat set \<Rightarrow> nat \<Rightarrow> ('t, 'l, 'c) system \<Rightarrow> bool" where
  "hands_on T t s \<longleftrightarrow>
     (\<exists>s'. rtranclp (fanout_step T (Some t)) s s' \<and> sy_writer s' t = Idle \<and> sy_served s' = sy_served s + 1
        \<and> fo_serving (sy_sink s') = fo_serving (sy_sink s) + 1)"

lemma hands_on_step:
  assumes "fanout_step T (Some t) s s'" and "hands_on T t s'" and "sy_served s' = sy_served s"
    and "fo_serving (sy_sink s') = fo_serving (sy_sink s)"
  shows "hands_on T t s"
  using assms unfolding hands_on_def by (metis converse_rtranclp_into_rtranclp)

lemma hands_on_finishing:
  assumes "sy_writer s t = Finishing tk k"
  shows "hands_on T t s"
  unfolding hands_on_def
  by (rule exI, intro conjI, rule r_into_rtranclp, rule fanout_step.hand_over [OF assms]) (simp_all add: wake_all_def)

lemma hands_on_writing: "sy_writer s t = Writing tk k m i n \<Longrightarrow> hands_on T t s"
proof (induction "n - i" arbitrary: i s)
  case 0
  then have e: "fanout_step T (Some t) s (goto t (Finishing tk k) s)" by (intro fanout_step.end_writing) auto
  show ?case by (rule hands_on_step [OF e hands_on_finishing]) simp_all
next
  case (Suc d)
  then have e: "fanout_step T (Some t) s
      (goto t (Writing tk k m (i + 1) n) (at_sink (write_pin i m) (s\<lparr>sy_writes := sy_writes s @ [(i, k)]\<rparr>)))"
    by (intro fanout_step.write_one) auto
  show ?case using Suc by (intro hands_on_step [OF e Suc.hyps(1)]) (auto simp: write_pin_def)
qed

lemma hands_on_accepted: "sy_writer s t = Accepted tk k m \<Longrightarrow> hands_on T t s"
  by (rule hands_on_step [OF fanout_step.start_writing hands_on_writing]) (assumption, simp_all)

lemma hands_on_discarding: "sy_writer s t = Discarding tk k \<Longrightarrow> hands_on T t s"
  by (rule hands_on_step [OF fanout_step.discard hands_on_finishing]) (assumption, simp_all)

text \<open>What can hold up the writer whose turn it is: it waits for space without a deadline, and there is none, or it has not
  been told.\<close>

definition blocked_for_space :: "('t, 'l, 'c) system \<Rightarrow> nat \<Rightarrow> bool" where
  "blocked_for_space s t \<longleftrightarrow>
     (case sy_writer s t of
        Waiting tk k m \<Rightarrow> fo_timeout_us (sy_sink s) = wait_forever \<and> any_full (sy_sink s) m
      | Awaiting_space tk k m us \<Rightarrow> us = wait_forever \<and> (any_full (sy_sink s) m \<or> t \<in> sy_asleep s)
      | _ \<Rightarrow> False)"

text \<open>Some sink has no room for the record that a writer wants to write.\<close>

definition no_room :: "('t, 'l, 'c) system \<Rightarrow> nat \<Rightarrow> bool" where
  "no_room s t \<longleftrightarrow>
     (case sy_writer s t of
        Waiting tk k m \<Rightarrow> any_full (sy_sink s) m
      | Awaiting_space tk k m us \<Rightarrow> any_full (sy_sink s) m
      | _ \<Rightarrow> False)"

lemma hands_on_awaiting:
  assumes "sy_writer s t = Awaiting_space tk k m us" and "us \<noteq> wait_forever \<or> (\<not> any_full (sy_sink s) m \<and> t \<notin> sy_asleep s)"
  shows "hands_on T t s"
proof (cases "us = wait_forever")
  case False
  show ?thesis
  proof (cases "any_full (sy_sink s) m")
    case True
    show ?thesis by (rule hands_on_step [OF fanout_step.deadline [OF assms(1) False] hands_on_discarding]) (simp_all add: True wake_def)
  next
    case nf: False
    show ?thesis by (rule hands_on_step [OF fanout_step.deadline [OF assms(1) False] hands_on_accepted]) (simp_all add: nf wake_def)
  qed
next
  case True
  then show ?thesis using assms
    by (intro hands_on_step [OF fanout_step.space_freed [OF assms(1)] hands_on_accepted]) simp_all
qed

lemma hands_on_waiting:
  assumes "sy_writer s t = Waiting (fo_serving (sy_sink s)) k m" and "t \<notin> sy_asleep s"
    and "fo_timeout_us (sy_sink s) \<noteq> wait_forever \<or> \<not> any_full (sy_sink s) m"
  shows "hands_on T t s"
proof (cases "any_full (sy_sink s) m")
  case True
  then show ?thesis using assms(3)
    by (intro hands_on_step [OF fanout_step.turn_full [OF assms(1,2) refl True] hands_on_awaiting]) auto
next
  case False
  show ?thesis by (rule hands_on_step [OF fanout_step.turn_space [OF assms(1,2) refl False] hands_on_accepted]) simp_all
qed

lemma holder_hands_on:
  assumes "number_of (sy_writer s t) = Some (fo_serving (sy_sink s), k)" and "sleepers_ok s" and "\<not> blocked_for_space s t"
  shows "hands_on T t s"
proof (cases "sy_writer s t")
  case (Waiting tk k' m)
  then have "t \<notin> sy_asleep s" using assms(1,2) by (auto simp: sleepers_ok_def)
  then show ?thesis using Waiting assms(1,3) by (intro hands_on_waiting [of s t k' m]) (auto simp: blocked_for_space_def)
next
  case (Awaiting_space tk k' m us)
  then show ?thesis using assms(3) by (intro hands_on_awaiting [OF Awaiting_space]) (auto simp: blocked_for_space_def)
qed (use assms(1) hands_on_accepted hands_on_writing hands_on_finishing hands_on_discarding in auto)

text \<open>C15: The queue never gets stuck. As long as a record waits, the writer of the one that arrived first is not held up by
  the channel: no wake-up for its turn is lost, and unless it waits for space with the timeout \<^verbatim>\<open>wait_forever\<close> it can
  finish by steps of its own, writing or discarding its record, and hands the turn on. With \<^verbatim>\<open>wait_forever\<close> it can
  finish once no sink is full for its record and a reader has called \<^verbatim>\<open>notify_space\<close>.\<close>

theorem fanout_makes_progress:
  assumes "fanout_reachable T s" and "finite T" and "card T < 2 ^ 32" and "sy_served s < sy_arrived s"
  shows "\<exists>t tk. number_of (sy_writer s t) = Some (tk, sy_served s)
    \<and> (\<not> blocked_for_space s t \<longrightarrow> hands_on T t s) \<and> (\<not> no_room s t \<longrightarrow> hands_on T t (wake_all s))"
proof -
  have ok: "tickets_ok T s" "sleepers_ok s" using reachable_ok [OF assms(1-3)] by simp_all
  obtain t tk where t: "number_of (sy_writer s t) = Some (tk, sy_served s)" using tickets_okD(7) [OF ok(1) _ assms(4)] by auto
  have tk: "tk = fo_serving (sy_sink s)" using tickets_okD(2, 4) [OF ok(1)] t by simp
  have "hands_on T t (wake_all s)" if "\<not> no_room s t"
    using that t tk by (intro holder_hands_on [of _ _ "sy_served s"])
      (auto simp: wake_all_def sleepers_ok_def blocked_for_space_def no_room_def split: writer.splits)
  then show ?thesis using t tk holder_hands_on [OF _ ok(2), of t "sy_served s" T] by blast
qed

theorem fanout_makes_progress_witness:
  "\<exists>t tk. number_of (sy_writer two_writers t) = Some (tk, 0) \<and> hands_on {0, 1} t two_writers"
proof -
  have n: "\<not> blocked_for_space two_writers t" if "number_of (sy_writer two_writers t) = Some (tk, 0)" for t tk
    using that by (auto simp: blocked_for_space_def two_writers_def fanout_init_def any_full_def split: if_splits)
  have "sy_served two_writers = 0" "sy_served two_writers < sy_arrived two_writers" by (simp_all add: two_writers_def)
  with fanout_makes_progress [OF two_writers_reachable] n show ?thesis by fastforce
qed

end
