(* ===== verification/Spec2Isabelle.thy ===== *)
theory Spec2Isabelle
  imports Format_Engine Lexer Number_Parse Ring_Buffer Memory_Buffer Gdb_Codec String_Pool Cbor
    Window_Stream Operator_Table Parse_Strings Json Arm_Exidx
    Memory_Scan Page_Walk Memory_Dump Fanout_Log
begin

text \<open>
  \<^bold>\<open>microfmt\<close>: a C++ formatting library for systems without a heap, with a tokenizer, number parsers and a string
  pool for small parsers, and an inspector that speaks the remote protocol of GDB and unwinds the stack of another
  process, searches and dumps its memory, and a logger. All of it is header code under
  \<^verbatim>\<open>src/include/microfmt\<close>; the file names below are relative to that directory.

  \<^bold>\<open>Parts and how they interact.\<close> A formatter writes chunks of text to a type-erased \<^verbatim>\<open>sink\<close>; the sinks keep,
  cut, count or forward what they receive. The engine walks a format string, at run time (\<^verbatim>\<open>vformat_to\<close>) or
  from a table compiled beforehand, and calls the formatter of each argument. The lexer cuts a source into
  tokens; a token stream reads them with lookahead, from a text or through a window over a reader, and the parser
  helpers and the expression parser are built on it; the operator table makes grammars at run time; the number
  parser reads the text of a token, and the string pool gives names and decoded literals small ids. The GDB
  codec prints requests with the format engine into a packet writer, which is a sink, and reads them from a
  streaming decoder into storage of a scratch allocator. The unwinders read memory through an address space handle and
  registers through a register context, and a cursor walks the frames they find. The memory scanners,
  the dumps and the page table walker read through the same handle. The logger formats a record with the engine into
  a sink; the byte-ring sink frames its records with a header, and the fan-out sink hands a record to several sinks
  under a queue of tickets.

  \<^bold>\<open>Theories, in the order of their dependencies.\<close>
  \<^item> \<open>Microfmt_Prelude\<close>: bytes, chunks, raw memory. \<^const>\<open>copy_n_to\<close> and \<^const>\<open>store_at\<close> are the only ways to write
    memory, and a store outside the object is \<^const>\<open>None\<close>, so that a theorem which gives \<^const>\<open>Some\<close> shows
    memory safety.
  \<^item> \<open>Sinks\<close> (\<^verbatim>\<open>microfmt.hpp\<close>, the sinks): a record per sink, a function per write callback. The locales
    \<open>stream_sink\<close> and \<open>bounded_sink\<close> are the contract of a sink towards a formatter; every sink interprets one
    of them, so that its final state depends on the bytes and not on how they are cut into writes.
  \<^item> \<open>Int_Format\<close> (\<^verbatim>\<open>microfmt.hpp\<close>, \<^verbatim>\<open>microfmt.ipp\<close>): the integer formatters at their width of 64 bits, against
    \<open>radix_string\<close>, and the parser of integer specs, against its printer.
  \<^item> \<open>Text_Format\<close>: debug escapes, parse context, formatters of the other built-in types.
  \<^item> \<open>Format_Engine\<close>: positional arguments, interpreter and compiled path, with the argument formatters as a
    parameter; the two paths are equivalent.
  \<^item> \<open>Sorted_Words\<close> and \<open>Lexer\<close> (\<^verbatim>\<open>parsing/lexer.hpp\<close>): keyword lists with binary search (locale \<open>bisection\<close>), rule
    sets, every scanning routine, and the lexer with its cursor; it ends, loses no byte and reports true
    positions, counted in newlines. \<open>rules_ok\<close> leaves out the rule sets with string prefixes and a NUL quote, with
    which the lexer reads behind the source.
  \<^item> \<open>Number_Parse\<close> (\<^verbatim>\<open>parsing/number_parse.hpp\<close>): integers of any width. The accumulator type belongs to the reloco
    library; it is the parameter \<open>uint_ops\<close> with the contract \<open>fixed_uint\<close>, interpreted on machine words.
  \<^item> \<open>Ring_Buffer\<close> (\<^verbatim>\<open>sinks/ring_buffer_sink.hpp\<close>, \<^verbatim>\<open>sinks/tee_sink.hpp\<close>): the counters are words of the width of
    \<^verbatim>\<open>size_t\<close>, a type parameter.
  \<^item> \<open>Memory_Buffer\<close> (\<^verbatim>\<open>sinks/memory_buffer.hpp\<close>, \<^verbatim>\<open>scratch_allocator.hpp\<close>, \<^verbatim>\<open>sinks/c_string_span_sink.hpp\<close>): growing and
    bump-allocated storage; the allocator is the parameter \<open>allocator_ops\<close>.
  \<^item> \<open>Gdb_Packets\<close>, \<open>Gdb_Stream\<close>, \<open>Gdb_Codec\<close> (\<^verbatim>\<open>inspector/gdb_*.hpp\<close>): the literal packet tables and their lookups, the
    framing in both directions (the packet writer interprets \<open>bounded_sink\<close>), and the payloads.
  \<^item> \<open>String_Pool\<close> (\<^verbatim>\<open>parsing/string_pool.hpp\<close>): interner, marks, builder. \<open>pool_ok\<close> is the invariant, \<open>pool_strings\<close>
    the abstract list of distinct strings that the operations refine.
  \<^item> \<open>Cbor\<close> (\<^verbatim>\<open>formatters/cbor.hpp\<close>): headers, map and array writers, against a decoder of RFC 8949.
  \<^item> \<open>Token_Stream\<close>, \<open>Window_Stream\<close> (\<^verbatim>\<open>parsing/token_stream.hpp\<close>, \<^verbatim>\<open>parsing/stream_window.hpp\<close>,
    \<^verbatim>\<open>parsing/parse_error.hpp\<close>): the stream with its two tokens of lookahead. On a text it reads exactly the tokens of
    the lexer; through a window, whatever the sequence of reads and discards, every token is the piece of the
    whole input at its absolute offset, and nothing is lost.
  \<^item> \<open>Parse_Combinators\<close> (\<^verbatim>\<open>parsing/token_stream.hpp\<close>): choice, repetition, lists, chains, recovery, statements and
    memo tables. A rule is a function on streams; \<^const>\<open>None\<close> is a loop that does not end, and every helper is
    shown to return on a stream over a text when its rules do. The relation \<open>statement_run\<close> says which statements a loop
    tries, with what outcomes.
  \<^item> \<open>Expression_Parser\<close> (\<^verbatim>\<open>parse_expression\<close>): precedence climbing with prefix, postfix, ternary and mixfix operators. The
    locale \<open>expression_callbacks\<close> is what the parser needs of its callbacks; against a grammar of trees the
    parser is sound and complete.
  \<^item> \<open>Operator_Table\<close> (\<^verbatim>\<open>parsing/operator_table.hpp\<close>): levels, declarations, views and roll-back, with the failures
    of memory as a parameter; a number for the block of the arena shows when views are left dangling.
  \<^item> \<open>String_Decode\<close>, \<open>Parse_Strings\<close> (\<^verbatim>\<open>parsing/string_pool_ref.hpp\<close>, \<^verbatim>\<open>parsing/ast_pool.hpp\<close> and the end of
    \<^verbatim>\<open>token_stream.hpp\<close>): the C, JSON and SQL decoders against their grammars (locales \<open>escaped_text\<close> and
    \<open>literal_decoder\<close>), literals and tokens in the pool, the node pool and the wrappers that roll pools back.
  \<^item> \<open>Json\<close> (\<^verbatim>\<open>formatters/json.hpp\<close>): object and array writers, against a reader of RFC 8259.
  \<^item> \<open>Address_Space\<close> (\<^verbatim>\<open>inspector/address_space.hpp\<close>): the handle to the memory of another process, with the backend as a
    parameter. \<open>holds\<close> says what bytes are at an address.
  \<^item> \<open>Leb128\<close>, \<open>Dwarf_Cfi\<close> (\<^verbatim>\<open>inspector/dwarf_decoder.hpp\<close>, \<^verbatim>\<open>dwarf_abi.hpp\<close>, \<^verbatim>\<open>elf_enumerator.hpp\<close>): variable length numbers against
    their encoders (locale \<open>operand_format\<close>), the interpreter of call frame instructions, the frame table and its search, against
    the rows of the DWARF standard (\<open>dw_run\<close>, \<open>dw_caller\<close>: a rule per register, remembered rows, a location that is not restored),
    for the instructions on which the decoder follows the standard (\<open>conforming\<close>).
  \<^item> \<open>Unwind\<close> (\<^verbatim>\<open>inspector/fp_unwinder.hpp\<close>, \<^verbatim>\<open>unwind_hint.hpp\<close>, \<^verbatim>\<open>chained_unwinder.hpp\<close>, \<^verbatim>\<open>frame_pointer.hpp\<close>,
    \<^verbatim>\<open>hybrid_unwinder.hpp\<close>): frame pointer chains, tiers, and the cursors over frames.
  \<^item> \<open>Arm_Exidx\<close> (\<^verbatim>\<open>inspector/arm_*.hpp\<close>): the index table of 32-bit ARM, the byte stream of exception tables, both
    executors and the step.
  \<^item> \<open>Memory_Scan\<close> (\<^verbatim>\<open>inspector/memory_pattern_scanner.hpp\<close>, \<^verbatim>\<open>advanced_scanners.hpp\<close>): searches that read
    the memory in overlapping chunks. The locale \<open>chunked_scan\<close> is the loop over chunks, interpreted for the pattern, the
    range and the dependent scanner; each finds what a search of the whole memory finds.
  \<^item> \<open>Page_Walk\<close> (\<^verbatim>\<open>inspector/remote_page_table_walker.hpp\<close>): the walk through the levels of a page table, its trace and its errors.
  \<^item> \<open>Memory_Dump\<close> (\<^verbatim>\<open>formatters/hexdump.hpp\<close>, \<^verbatim>\<open>inspector/memory_diff.hpp\<close>, \<^verbatim>\<open>remote_memory_diff.hpp\<close>,
    \<^verbatim>\<open>memory_scanner.hpp\<close>): hex dumps of local and remote memory, differences of memories, and the scanner that annotates
    addresses.
  \<^item> \<open>Logging\<close> (\<^verbatim>\<open>log/*.hpp\<close>, \<^verbatim>\<open>sinks/ring_buffer_sink_protocol_sink.hpp\<close>): levels, the logger, the console sink with its styles, and the sink that frames records in a byte ring.
  \<^item> \<open>Fanout_Log\<close> (\<^verbatim>\<open>log/extended_sink.hpp\<close>): the concurrent fan-out sink as a step relation on the writers, the sinks, the tickets and the
    writers asleep on the wait channel (\<^verbatim>\<open>log/sync.hpp\<close>), with its wake-ups and timeouts.
  \<^item> This theory: what the integer formatter prints, the number parser reads back.

  \<^bold>\<open>Conventions.\<close> A \<^verbatim>\<open>string_view\<close> is a string; a formatter is the list of its write calls, and \<^verbatim>\<open>sink.put\<close> is a
  write of one byte. A \<^verbatim>\<open>size_t\<close> that indexes an object in memory is a natural number; where a counter is not
  bounded by an object (\<^verbatim>\<open>head_\<close>, \<^verbatim>\<open>count_\<close>, lines and columns, checksums, hashes, widths) it is a word and wraps.
  Errors are values of sum types. Code of other libraries is a parameter: argument formatters, the
  accumulator of the number parser, the allocator of a memory buffer, which growths of the vectors of a
  string pool or an operator table succeed, the reader behind a window, the rules and callbacks of a parser, the
  memory and the registers of the inspected process, the unwinders behind a handle, the format of page tables, the
  classifier of memory regions, the predicates of a scan, and the byte ring behind the protocol sink.

  \<^bold>\<open>Termination and fuel.\<close> The loops of the code are total functions with a measure, among them the scanner, whose
  measure is the rest of the source. The walk of a hash chain need not end on an arbitrary table: it is a
  partial function, and interning on a table in its invariant is shown to return. The loops of the parser helpers
  depend on the caller's rules and are partial functions too; the expression parser recurses on the depth that its limit
  leaves. The loops over call frame instructions and over the frame table walk addresses, which may wrap; they are partial
  functions and are shown to return. So are the loops of the memory scanners. For the fan-out sink the first writer of the
  queue is shown to be able to finish by its own steps unless it waits for space without a deadline, and then once there is room
  and it is told. Fuel appears only in the readers of CBOR and JSON, reference definitions; the
  length of the input is enough for every document of the writers.

  \<^bold>\<open>What the properties show.\<close> Round trips: format and parse of integers, lexer and windowed stream, string literals,
  stored tokens, debug escapes, GDB frames and requests, CBOR, JSON, LEB128, hex dumps, records in
  the byte ring. Equivalence: compiled and interpreted format
  strings; expression parser and grammar of trees; decoders and grammars of literals; memoized and plain rules; frame
  decoder and rows of the standard; binary search and scan of the index table; inline and external unwinding
  opcodes; searches in chunks and of the whole memory. Safety: no sink, buffer or
  allocator leaves its storage; failed alternatives leave the pools as they were; the address scanner
  reads only memory that may be read; a page is translated as a whole; concurrent writers have the sinks in the order of
  their tickets. Refinement: token stream and lexer,
  binary search and set membership, string pool and list of distinct strings. Invariants: operator table, windowed
  stream, ascending frames. Bounds: backtraces. Termination and liveness: lexer, interpreter, expression parser,
  parser helpers, statement loops with recovery, frame search, the queue of writers. Behaviour of the code that departs from its intent is stated too: the copied \<^verbatim>\<open>c_string_sink\<close>
  overflows, the counter of the ring wraps, the pointer width overflows, GDB metadata are indexed wrongly, two packets
  are shadowed, binary writes are unescaped twice, a full operator table makes a level, a declaration that fails
  after the arena moved leaves dangling views, the frame search can hang on one length field, common entries run as
  frame entries, restoring a state moves the location, signed offsets are not scaled, unknown instructions leave their
  operands behind, a trap leaves stale registers, the two ARM executors differ on a zero byte, a scan up to
  the last address is an error, a console record that does not fit loses its end of line, and committing a record that was
  evicted cuts the next one, and a NUL quote behind a string prefix is read behind the source.

  \<^bold>\<open>Not modelled.\<close> Concurrency other than that of the fan-out sink, and everything that rests on mutexes or clocks of
  the platform (the mutex of the logger, the time at which a deadline passes, which is a choice of the step relation); floating point; the leaf formatters of time, units and devices; views of containers of another
  process; register name tables; trap frame decoders of the processors; operating system sinks and symbol resolvers;
  bridges to third-party types. The template dispatch of handles (tags, traits, type-erased tables) only forwards
  and is not represented.
\<close>

section \<open>Formatting and parsing integers\<close>

text \<open>The options under which the output of an integer spec is read back.\<close>

definition spec_options :: "int_formatter_specs \<Rightarrow> integer_options" where
  "spec_options f =
     \<lparr>opt_radix = spec_base f, opt_allow_plus = True, opt_allow_prefix = True, opt_separator = CHR 0x00\<rparr>"

lemma char_digit_value_hex:
  assumes "i < 16"
  shows "char_digit_value (hex_digits_lower ! i) = i" and "char_digit_value (hex_digits_upper ! i) = i"
proof -
  have "\<forall>i \<in> set [0..<16]. char_digit_value (hex_digits_lower ! i) = i \<and> char_digit_value (hex_digits_upper ! i) = i"
    by code_simp
  then show "char_digit_value (hex_digits_lower ! i) = i" and "char_digit_value (hex_digits_upper ! i) = i"
    using assms by auto
qed

lemma radix_string_digits:
  assumes "2 \<le> b" and "\<And>i. i < b \<Longrightarrow> char_digit_value (lut ! i) = i"
  shows "(\<forall>c \<in> set (radix_string b lut n). char_digit_value c < b)
         \<and> horner b 0 (map char_digit_value (radix_string b lut n)) = n"
proof (induction n rule: less_induct)
  case (less n)
  show ?case
  proof (cases "n < b")
    case True
    then show ?thesis using assms by (simp add: radix_string_small)
  next
    case False
    have "n div b < n" using assms(1) False by simp
    then show ?thesis using less [of "n div b"] assms False by (simp add: radix_string_big horner_def)
  qed
qed

lemma horner_zeros: "horner b 0 (replicate k 0 @ ds) = horner b 0 ds"
  by (induction k) simp_all

lemma spec_digits:
  "\<forall>c \<in> set (radix_string (spec_base f) (spec_lut f) n). char_digit_value c < spec_base f"
  "horner (spec_base f) 0 (map char_digit_value (radix_string (spec_base f) (spec_lut f) n)) = n"
  using radix_string_digits [of "spec_base f" "spec_lut f" n]
  by (auto simp: spec_base_def spec_lut_def char_digit_value_hex split: if_splits)

lemma magnitude_in_range: "int_magnitude sg val \<le> type_limit 64 sg (sg \<and> sint val < 0)"
  using sint_greater_eq [of val] sint_less [of val] unsigned_less [of val, where 'a = nat]
  by (auto simp: int_magnitude_def type_limit_def nat_le_iff)

text \<open>C1: what the integer formatter prints, the number parser reads: for every 64-bit value and every
  spec that does not pad with blanks, \<^verbatim>\<open>parse<T>\<close> in the radix of the spec returns the value.\<close>

theorem format_parse_roundtrip:
  assumes "fixed_uint ops 64" and "ifs_width f = 0 \<or> zero_pad f"
  shows "\<exists>ch. format_int_impl sg f val = Some ch
           \<and> parse_integer ops 64 sg (concat ch) (spec_options f) = Inr (if sg then sint val else uint val)"
proof -
  let ?neg = "sg \<and> sint val < 0" and ?n = "int_magnitude sg val"
  let ?ds = "radix_string (spec_base f) (spec_lut f) ?n"
  let ?out = "emit_formatted_int ?ds ?neg (spec_prefix f) (ifs_width f) (zero_pad f)"
  obtain k where out: "concat ?out = numeral_text ?neg (spec_prefix f) (replicate k (CHR ''0'') @ ?ds)"
  proof (cases "zero_pad f")
    case True
    then show ?thesis by (intro that) (simp add: emit_formatted_int_layout numeral_text_def Let_def)
  next
    case False
    then show ?thesis using assms(2) by (intro that [of 0]) (simp add: emit_formatted_int_layout numeral_text_def Let_def)
  qed
  have zero: "char_digit_value (CHR ''0'') = 0" by (simp add: char_digit_value_def lower_digits_def upper_digits_def)
  have base: "2 \<le> spec_base f" "spec_base f \<le> 36" by (simp_all add: spec_base_def)
  have "parse_integer ops 64 sg (concat ?out) (spec_options f) = Inr (if ?neg then - int ?n else int ?n)"
    unfolding out
    by (rule parse_numeral [OF assms(1) _ base])
       (use base spec_digits [of f ?n] magnitude_in_range [of sg val]
        in \<open>auto simp: spec_options_def spec_prefix_def spec_base_def prefix_radix_def horner_zeros zero\<close>)
  also have "(if ?neg then - int ?n else int ?n) = (if sg then sint val else uint val)"
    by (auto simp: int_magnitude_def)
  finally show ?thesis by (simp add: format_int_impl_eq)
qed

theorem format_parse_roundtrip_witness:
  "\<exists>ch. format_int_impl True (int_formatter_specs_init\<lparr>is_hex := True, alt_form := True\<rparr>) (- 42) = Some ch
      \<and> parse_integer (word_ops :: u64 uint_ops) 64 True (concat ch)
          (spec_options (int_formatter_specs_init\<lparr>is_hex := True, alt_form := True\<rparr>)) = Inr (- 42)"
proof -
  have "fixed_uint (word_ops :: u64 uint_ops) 64" using word_uint.fixed_uint_axioms [where 'w = 64] by simp
  from format_parse_roundtrip [OF this, of "int_formatter_specs_init\<lparr>is_hex := True, alt_form := True\<rparr>" True "- 42"]
  show ?thesis by (simp add: int_formatter_specs_init_def)
qed

end
